(* ===== verification/Prelude.thy ===== *)
theory Prelude
  imports
    Main
    "HOL-Library.Word"
    "HOL-Library.Char_ord"
    "HOL-Library.List_Lexorder"
    "HOL-Library.Monad_Syntax"
begin

text \<open>
  Shared vocabulary of the development: the Rust standard-library facts the sources rely on
  (\<open>Result\<close> with the \<open>?\<close> operator, \<open>str\<close> operations, decimal printing and parsing, checked and
  saturating machine arithmetic), the named collections of simplification rules, and the generic
  lemmas on lists, options and words that the component theories use.

  A Rust \<open>str\<close> is modelled by its UTF-8 byte sequence, a HOL \<^typ>\<open>string\<close>; every character the
  sources test for is ASCII, and an ASCII byte never occurs inside a multi-byte UTF-8 sequence, so
  a scan by bytes agrees with a scan by characters.  The order on strings is the byte-wise
  lexicographic order, which is the order of \<open>str\<close> and hence of the keys of a \<open>BTreeMap\<close>.
\<close>

named_theorems result_simps \<open>the Result combinators\<close>
named_theorems str_simps \<open>operations on strings\<close>
named_theorems wf_intros \<open>well-formedness of values is preserved\<close>
named_theorems inv_simps \<open>unfolding of the component invariants\<close>

type_synonym u64 = "64 word"
type_synonym i64 = "64 word"
type_synonym usize = nat

section \<open>Result and Option\<close>

text \<open>\<open>Result<T, E>\<close> is the sum \<open>'e + 'a\<close> with \<open>Inl\<close> the error; \<open>and_then m f\<close> is \<open>let x = m?; f x\<close>.\<close>

definition and_then :: "'e + 'a \<Rightarrow> ('a \<Rightarrow> 'e + 'b) \<Rightarrow> 'e + 'b" where
  "and_then m f = (case m of Inl e \<Rightarrow> Inl e | Inr x \<Rightarrow> f x)"

definition map_ok :: "('a \<Rightarrow> 'b) \<Rightarrow> 'e + 'a \<Rightarrow> 'e + 'b" where
  "map_ok f m = (case m of Inl e \<Rightarrow> Inl e | Inr x \<Rightarrow> Inr (f x))"

definition map_err :: "('e \<Rightarrow> 'd) \<Rightarrow> 'e + 'a \<Rightarrow> 'd + 'a" where
  "map_err f m = (case m of Inl e \<Rightarrow> Inl (f e) | Inr x \<Rightarrow> Inr x)"

definition ok_or :: "'e \<Rightarrow> 'a option \<Rightarrow> 'e + 'a" where
  "ok_or e x = (case x of None \<Rightarrow> Inl e | Some v \<Rightarrow> Inr v)"

definition is_ok :: "'e + 'a \<Rightarrow> bool" where
  "is_ok m = (case m of Inl _ \<Rightarrow> False | Inr _ \<Rightarrow> True)"

definition unwrap_or :: "'a \<Rightarrow> 'a option \<Rightarrow> 'a" where
  "unwrap_or d x = (case x of None \<Rightarrow> d | Some v \<Rightarrow> v)"

section \<open>Strings\<close>

definition starts_with :: "string \<Rightarrow> string \<Rightarrow> bool" where
  "starts_with p s = (take (length p) s = p)"

definition strip_prefix :: "string \<Rightarrow> string \<Rightarrow> string option" where
  "strip_prefix p s = (if starts_with p s then Some (drop (length p) s) else None)"

definition ends_with_char :: "char \<Rightarrow> string \<Rightarrow> bool" where
  "ends_with_char c s = (s \<noteq> [] \<and> last s = c)"

definition strip_suffix_char :: "char \<Rightarrow> string \<Rightarrow> string option" where
  "strip_suffix_char c s = (if ends_with_char c s then Some (butlast s) else None)"

text \<open>\<open>str::split\<close> on one character: never the empty list, and empty pieces are kept.\<close>

fun split_on :: "char \<Rightarrow> string \<Rightarrow> string list" where
  "split_on c [] = [[]]"
| "split_on c (x # xs) =
     (if x = c then [] # split_on c xs
      else (case split_on c xs of [] \<Rightarrow> [[x]] | y # ys \<Rightarrow> (x # y) # ys))"

fun join_on :: "char \<Rightarrow> string list \<Rightarrow> string" where
  "join_on c [] = []"
| "join_on c [s] = s"
| "join_on c (s # t # ts) = s @ c # join_on c (t # ts)"

text \<open>Decimal printing (\<open>Display\<close> of the integer types) and \<open>usize::from_str\<close>.\<close>

definition digit_char :: "nat \<Rightarrow> char" where
  "digit_char d = char_of (48 + d)"

fun dec_nat :: "nat \<Rightarrow> string" where
  "dec_nat n = (if n < 10 then [digit_char n] else dec_nat (n div 10) @ [digit_char (n mod 10)])"

declare dec_nat.simps [simp del]

definition dec_int :: "int \<Rightarrow> string" where
  "dec_int i = (if i < 0 then CHR ''-'' # dec_nat (nat (- i)) else dec_nat (nat i))"

definition is_digit :: "char \<Rightarrow> bool" where
  "is_digit c = (48 \<le> (of_char c :: nat) \<and> (of_char c :: nat) \<le> 57)"

definition digit_val :: "char \<Rightarrow> nat" where
  "digit_val c = of_char c - 48"

fun parse_digits :: "nat \<Rightarrow> string \<Rightarrow> nat option" where
  "parse_digits acc [] = Some acc"
| "parse_digits acc (c # cs) =
     (if is_digit c then parse_digits (10 * acc + digit_val c) cs else None)"

definition USIZE_MAX :: nat where
  "USIZE_MAX = 2 ^ 64 - 1"

text \<open>
  \<open>usize::from_str\<close> accepts one leading plus sign, wants at least one digit and rejects a value
  above \<open>usize::MAX\<close> (64-bit target).
\<close>

definition parse_usize :: "string \<Rightarrow> nat option" where
  "parse_usize s =
     (let ds = (case s of [] \<Rightarrow> [] | c # cs \<Rightarrow> if c = CHR ''+'' then cs else c # cs) in
      if ds = [] then None
      else (case parse_digits 0 ds of
              None \<Rightarrow> None
            | Some n \<Rightarrow> if n \<le> USIZE_MAX then Some n else None))"

section \<open>Machine arithmetic\<close>

definition i64_min :: int where "i64_min = - (2 ^ 63)"
definition i64_max :: int where "i64_max = 2 ^ 63 - 1"

definition in_i64 :: "int \<Rightarrow> bool" where
  "in_i64 i = (i64_min \<le> i \<and> i \<le> i64_max)"

definition checked_add_i64 :: "i64 \<Rightarrow> i64 \<Rightarrow> i64 option" where
  "checked_add_i64 a b = (if in_i64 (sint a + sint b) then Some (a + b) else None)"

definition checked_sub_i64 :: "i64 \<Rightarrow> i64 \<Rightarrow> i64 option" where
  "checked_sub_i64 a b = (if in_i64 (sint a - sint b) then Some (a - b) else None)"

definition checked_inc_u64 :: "u64 \<Rightarrow> u64 option" where
  "checked_inc_u64 v = (if v = - 1 then None else Some (v + 1))"

definition saturating_add_u64 :: "u64 \<Rightarrow> u64 \<Rightarrow> u64" where
  "saturating_add_u64 a b = (if unat a + unat b < 2 ^ 64 then a + b else - 1)"

definition saturating_sub_u64 :: "u64 \<Rightarrow> u64 \<Rightarrow> u64" where
  "saturating_sub_u64 a b = (if a < b then 0 else a - b)"

definition saturating_inc_usize :: "nat \<Rightarrow> nat" where
  "saturating_inc_usize n = min (Suc n) USIZE_MAX"

section \<open>Lemmas\<close>

lemma and_then_simps [simp, result_simps]:
  "and_then (Inl e) f = Inl e" "and_then (Inr x) f = f x"
  by (simp_all add: and_then_def)

lemma and_then_Inr_iff [result_simps]:
  "and_then m f = Inr y \<longleftrightarrow> (\<exists>x. m = Inr x \<and> f x = Inr y)"
  by (cases m) auto

lemma and_then_Inl_iff [result_simps]:
  "and_then m f = Inl e \<longleftrightarrow> m = Inl e \<or> (\<exists>x. m = Inr x \<and> f x = Inl e)"
  by (cases m) auto

lemma and_then_cong [fundef_cong]:
  "m = m' \<Longrightarrow> (\<And>x. m' = Inr x \<Longrightarrow> f x = f' x) \<Longrightarrow> and_then m f = and_then m' f'"
  by (cases m') auto

lemma map_ok_simps [simp, result_simps]:
  "map_ok f (Inl e) = Inl e" "map_ok f (Inr x) = Inr (f x)"
  by (simp_all add: map_ok_def)

lemma map_ok_Inr_iff [result_simps]: "map_ok f m = Inr y \<longleftrightarrow> (\<exists>x. m = Inr x \<and> y = f x)"
  by (cases m) auto

lemma map_ok_Inl_iff [result_simps]: "map_ok f m = Inl e \<longleftrightarrow> m = Inl e"
  by (cases m) auto

lemma map_err_simps [simp, result_simps]:
  "map_err f (Inl e) = Inl (f e)" "map_err f (Inr x) = Inr x"
  by (simp_all add: map_err_def)

lemma map_err_Inr_iff [result_simps]: "map_err f m = Inr x \<longleftrightarrow> m = Inr x"
  by (cases m) auto

lemma ok_or_simps [simp, result_simps]:
  "ok_or e None = Inl e" "ok_or e (Some v) = Inr v"
  by (simp_all add: ok_or_def)

lemma ok_or_Inr_iff [result_simps]: "ok_or e x = Inr v \<longleftrightarrow> x = Some v"
  by (cases x) auto

lemma ok_or_Inl_iff [result_simps]: "ok_or e x = Inl d \<longleftrightarrow> x = None \<and> d = e"
  by (cases x) auto

lemma unwrap_or_simps [simp, result_simps]:
  "unwrap_or d None = d" "unwrap_or d (Some v) = v"
  by (simp_all add: unwrap_or_def)

lemma is_ok_simps [simp, result_simps]: "is_ok (Inr x)" "\<not> is_ok (Inl e)"
  by (simp_all add: is_ok_def)

lemma option_eqI: "(\<And>v. x = Some v \<longleftrightarrow> y = Some v) \<Longrightarrow> x = y"
  by (metis not_None_eq)

lemma starts_with_append [simp, str_simps]: "starts_with p (p @ s)"
  by (simp add: starts_with_def)

lemma starts_with_iff [str_simps]: "starts_with p s \<longleftrightarrow> (\<exists>r. s = p @ r)"
  by (auto simp: starts_with_def) (metis append_take_drop_id)

lemma strip_prefix_Some_iff [str_simps]: "strip_prefix p s = Some r \<longleftrightarrow> s = p @ r"
  by (auto simp: strip_prefix_def starts_with_iff)

lemma strip_prefix_append [simp, str_simps]: "strip_prefix p (p @ s) = Some s"
  by (simp add: strip_prefix_Some_iff)

lemma strip_prefix_None_iff [str_simps]: "strip_prefix p s = None \<longleftrightarrow> \<not> starts_with p s"
  by (auto simp: strip_prefix_def)

lemma split_on_not_Nil [simp]: "split_on c s \<noteq> []"
  by (cases s) (auto split: list.splits)

lemma split_on_no_sep: "c \<notin> set s \<Longrightarrow> split_on c s = [s]"
  by (induction s) auto

lemma split_on_append_sep: "c \<notin> set s \<Longrightarrow> split_on c (s @ c # t) = s # split_on c t"
  by (induction s) auto

lemma split_on_pieces: "t \<in> set (split_on c s) \<Longrightarrow> c \<notin> set t"
  by (induction s arbitrary: t) (auto split: list.splits if_splits)

lemma join_split_on: "join_on c (split_on c s) = s"
proof (induction s)
  case Nil
  show ?case by simp
next
  case (Cons x xs)
  obtain y ys where "split_on c xs = y # ys"
    by (cases "split_on c xs") auto
  with Cons show ?case by (cases ys) auto
qed

lemma digit_char_digit [simp]: "d < 10 \<Longrightarrow> is_digit (digit_char d)"
  by (simp add: is_digit_def digit_char_def of_char_of)

lemma digit_val_char [simp]: "d < 10 \<Longrightarrow> digit_val (digit_char d) = d"
  by (simp add: digit_val_def digit_char_def of_char_of)

lemma dec_nat_not_Nil [simp]: "dec_nat n \<noteq> []"
  by (subst dec_nat.simps) simp

lemma dec_nat_digits: "list_all is_digit (dec_nat n)"
proof (induction n rule: dec_nat.induct)
  case (1 n)
  then show ?case by (cases "n < 10") (auto simp: dec_nat.simps [of n])
qed

lemma parse_digits_append:
  "parse_digits acc (s @ t) = Option.bind (parse_digits acc s) (\<lambda>a. parse_digits a t)"
  by (induction s arbitrary: acc) auto

lemma parse_digits_dec_nat: "parse_digits 0 (dec_nat n) = Some n"
proof (induction n rule: dec_nat.induct)
  case (1 n)
  then show ?case by (cases "n < 10") (auto simp: dec_nat.simps [of n] parse_digits_append)
qed

lemma plus_not_digit [simp]: "\<not> is_digit (CHR ''+'')"
  by (simp add: is_digit_def)

text \<open>Decimal printing followed by \<open>usize::from_str\<close> is the identity on the range of \<open>usize\<close>.\<close>

lemma parse_usize_dec_nat: "n \<le> USIZE_MAX \<Longrightarrow> parse_usize (dec_nat n) = Some n"
proof -
  assume n: "n \<le> USIZE_MAX"
  obtain c cs where cs: "dec_nat n = c # cs" by (cases "dec_nat n") auto
  with dec_nat_digits [of n] have "is_digit c" by simp
  then have "c \<noteq> CHR ''+''" by auto
  with cs n parse_digits_dec_nat [of n] show ?thesis
    by (simp add: parse_usize_def Let_def)
qed

lemma parse_usize_bound: "parse_usize s = Some n \<Longrightarrow> n \<le> USIZE_MAX"
  by (auto simp: parse_usize_def Let_def split: if_splits option.splits)

lemma sint_i64_bounds: "in_i64 (sint (a :: i64))"
  using sint_ge [of a] sint_lt [of a] by (simp add: in_i64_def i64_min_def i64_max_def)

lemma signed_take_bit_in_i64: "in_i64 i \<Longrightarrow> signed_take_bit 63 i = i"
  by (rule signed_take_bit_int_eq_self) (auto simp: in_i64_def i64_min_def i64_max_def)

lemma checked_add_i64_Some:
  "checked_add_i64 a b = Some c \<longleftrightarrow> in_i64 (sint a + sint b) \<and> c = a + b"
  by (auto simp: checked_add_i64_def)

lemma checked_add_i64_exact: "checked_add_i64 a b = Some c \<Longrightarrow> sint c = sint a + sint b"
  by (auto simp: checked_add_i64_Some sint_word_ariths signed_take_bit_in_i64)

lemma checked_sub_i64_exact: "checked_sub_i64 a b = Some c \<Longrightarrow> sint c = sint a - sint b"
  by (auto simp: checked_sub_i64_def sint_word_ariths signed_take_bit_in_i64 split: if_splits)

lemma checked_add_i64_None: "checked_add_i64 a b = None \<longleftrightarrow> \<not> in_i64 (sint a + sint b)"
  by (auto simp: checked_add_i64_def)

lemma checked_sub_i64_None: "checked_sub_i64 a b = None \<longleftrightarrow> \<not> in_i64 (sint a - sint b)"
  by (auto simp: checked_sub_i64_def)

lemma unat_inc_u64: "v \<noteq> - 1 \<Longrightarrow> unat (v + 1 :: u64) = Suc (unat v)"
  by (metis add.commute diff_add_cancel diff_eq_eq unatSuc word_neq_0_conv add.left_inverse)

lemma checked_inc_u64_Some: "checked_inc_u64 v = Some w \<Longrightarrow> unat w = Suc (unat v)"
  by (auto simp: checked_inc_u64_def unat_inc_u64 split: if_splits)

end
