(* ===== verification/ObjMap.thy ===== *)
theory ObjMap
  imports Prelude
begin

text \<open>
  The map types behind JSON objects and the reactor's bookkeeping: the production backend
  \<open>BTreeMap\<close> (standard library, modelled as its sorted entry list), the sorted-vector backend
  \<open>KaniMap\<close> of \<open>evorule-tcb/src/value.rs\<close> and the unsorted-vector backends \<open>KIdMap\<close> and \<open>KIdSet\<close>
  of \<open>evorule-reactor/src/state.rs\<close>.  The interface the clients rely on is the locale
  \<open>finite_map\<close> (lookup laws) and its extension \<open>ordered_map\<close> (deterministic iteration); every
  backend is an interpretation.
\<close>

type_synonym ('k, 'v) btree_map = "('k \<times> 'v) list"
type_synonym 'v kani_map = "(string \<times> 'v) list"
type_synonym 'v kid_map = "(u64 \<times> 'v) list"
type_synonym kid_set = "u64 list"

section \<open>BTreeMap\<close>

definition bt_new :: "('k, 'v) btree_map" where
  "bt_new = []"

definition bt_get :: "'k \<Rightarrow> ('k, 'v) btree_map \<Rightarrow> 'v option" where
  "bt_get k m = map_of m k"

fun bt_put :: "'k::linorder \<Rightarrow> 'v \<Rightarrow> ('k, 'v) btree_map \<Rightarrow> ('k, 'v) btree_map" where
  "bt_put k v [] = [(k, v)]"
| "bt_put k v ((j, w) # m) =
     (if k < j then (k, v) # (j, w) # m
      else if k = j then (k, v) # m
      else (j, w) # bt_put k v m)"

definition bt_insert :: "'k::linorder \<Rightarrow> 'v \<Rightarrow> ('k, 'v) btree_map \<Rightarrow> ('k, 'v) btree_map \<times> 'v option" where
  "bt_insert k v m = (bt_put k v m, bt_get k m)"

definition bt_del :: "'k \<Rightarrow> ('k, 'v) btree_map \<Rightarrow> ('k, 'v) btree_map" where
  "bt_del k m = filter (\<lambda>p. fst p \<noteq> k) m"

definition bt_remove :: "'k \<Rightarrow> ('k, 'v) btree_map \<Rightarrow> ('k, 'v) btree_map \<times> 'v option" where
  "bt_remove k m = (bt_del k m, bt_get k m)"

definition bt_contains :: "'k \<Rightarrow> ('k, 'v) btree_map \<Rightarrow> bool" where
  "bt_contains k m = (bt_get k m \<noteq> None)"

definition bt_sorted :: "('k::linorder, 'v) btree_map \<Rightarrow> bool" where
  "bt_sorted m = sorted_wrt (<) (map fst m)"

section \<open>KaniMap: a sorted vector\<close>

text \<open>\<open>locate\<close>: \<open>Inr\<close> the index of the key, \<open>Inl\<close> the insertion point.\<close>

fun locate_from :: "nat \<Rightarrow> string \<Rightarrow> 'v kani_map \<Rightarrow> nat + nat" where
  "locate_from i key [] = Inl i"
| "locate_from i key ((k, v) # es) =
     (if k = key then Inr i else if k > key then Inl i else locate_from (Suc i) key es)"

definition locate :: "string \<Rightarrow> 'v kani_map \<Rightarrow> nat + nat" where
  "locate key m = locate_from 0 key m"

definition kani_new :: "'v kani_map" where
  "kani_new = []"

definition kani_insert :: "string \<Rightarrow> 'v \<Rightarrow> 'v kani_map \<Rightarrow> 'v kani_map \<times> 'v option" where
  "kani_insert key v m =
     (case locate key m of
        Inr i \<Rightarrow> (if i < length m then (m[i := (fst (m ! i), v)], Some (snd (m ! i))) else (m, None))
      | Inl pos \<Rightarrow> (take pos m @ (key, v) # drop pos m, None))"

definition kani_get :: "string \<Rightarrow> 'v kani_map \<Rightarrow> 'v option" where
  "kani_get key m =
     (case locate key m of
        Inr i \<Rightarrow> (if i < length m then Some (snd (m ! i)) else None)
      | Inl _ \<Rightarrow> None)"

text \<open>\<open>get_mut\<close> followed by one write through the reference.\<close>

definition kani_get_mut :: "string \<Rightarrow> ('v \<Rightarrow> 'v) \<Rightarrow> 'v kani_map \<Rightarrow> 'v kani_map option" where
  "kani_get_mut key f m =
     (case locate key m of
        Inr i \<Rightarrow> (if i < length m then Some (m[i := (fst (m ! i), f (snd (m ! i)))]) else None)
      | Inl _ \<Rightarrow> None)"

definition kani_remove :: "string \<Rightarrow> 'v kani_map \<Rightarrow> 'v kani_map \<times> 'v option" where
  "kani_remove key m =
     (case locate key m of
        Inr i \<Rightarrow> (take i m @ drop (Suc i) m, Some (snd (m ! i)))
      | Inl _ \<Rightarrow> (m, None))"

definition kani_contains_key :: "string \<Rightarrow> 'v kani_map \<Rightarrow> bool" where
  "kani_contains_key key m = is_ok (locate key m)"

definition kani_values :: "'v kani_map \<Rightarrow> 'v list" where
  "kani_values m = map snd m"

definition kani_iter :: "'v kani_map \<Rightarrow> (string \<times> 'v) list" where
  "kani_iter m = m"

definition kani_len :: "'v kani_map \<Rightarrow> nat" where
  "kani_len m = length m"

definition kani_is_empty :: "'v kani_map \<Rightarrow> bool" where
  "kani_is_empty m = (m = [])"

definition kani_clear :: "'v kani_map \<Rightarrow> 'v kani_map" where
  "kani_clear m = []"

definition kani_from :: "(string \<times> 'v) list \<Rightarrow> 'v kani_map" where
  "kani_from arr = foldl (\<lambda>m (k, v). fst (kani_insert k v m)) kani_new arr"

section \<open>KIdSet and KIdMap: unsorted vectors keyed by fact ids\<close>

fun position :: "('a \<Rightarrow> bool) \<Rightarrow> 'a list \<Rightarrow> nat option" where
  "position p [] = None"
| "position p (x # xs) = (if p x then Some 0 else map_option Suc (position p xs))"

text \<open>\<open>Vec::swap_remove\<close>: the last element takes the place of the removed one.\<close>

definition swap_remove :: "nat \<Rightarrow> 'a list \<Rightarrow> 'a list" where
  "swap_remove i xs =
     (if i = length xs - 1 then butlast xs else butlast (xs[i := last xs]))"

definition kid_set_new :: kid_set where
  "kid_set_new = []"

definition kid_set_insert :: "u64 \<Rightarrow> kid_set \<Rightarrow> kid_set \<times> bool" where
  "kid_set_insert x s = (if list_ex (\<lambda>y. y = x) s then (s, False) else (s @ [x], True))"

definition kid_set_remove :: "u64 \<Rightarrow> kid_set \<Rightarrow> kid_set \<times> bool" where
  "kid_set_remove x s =
     (case position (\<lambda>y. y = x) s of
        Some pos \<Rightarrow> (swap_remove pos s, True)
      | None \<Rightarrow> (s, False))"

definition kid_set_contains :: "u64 \<Rightarrow> kid_set \<Rightarrow> bool" where
  "kid_set_contains x s = list_ex (\<lambda>y. y = x) s"

definition kid_map_new :: "'v kid_map" where
  "kid_map_new = []"

definition kid_map_insert :: "u64 \<Rightarrow> 'v \<Rightarrow> 'v kid_map \<Rightarrow> 'v kid_map \<times> 'v option" where
  "kid_map_insert k v m =
     (case position (\<lambda>p. fst p = k) m of
        Some pos \<Rightarrow> (m[pos := (fst (m ! pos), v)], Some (snd (m ! pos)))
      | None \<Rightarrow> (m @ [(k, v)], None))"

definition kid_map_remove :: "u64 \<Rightarrow> 'v kid_map \<Rightarrow> 'v kid_map \<times> 'v option" where
  "kid_map_remove k m =
     (case position (\<lambda>p. fst p = k) m of
        Some pos \<Rightarrow> (swap_remove pos m, Some (snd (m ! pos)))
      | None \<Rightarrow> (m, None))"

definition kid_map_get :: "u64 \<Rightarrow> 'v kid_map \<Rightarrow> 'v option" where
  "kid_map_get k m = map_option snd (find (\<lambda>p. fst p = k) m)"

definition kid_map_len :: "'v kid_map \<Rightarrow> nat" where
  "kid_map_len m = length m"

definition kid_map_contains_key :: "u64 \<Rightarrow> 'v kid_map \<Rightarrow> bool" where
  "kid_map_contains_key k m = list_ex (\<lambda>p. fst p = k) m"

section \<open>The map interface\<close>

locale finite_map =
  fixes empty :: 'm
    and insert :: "'k \<Rightarrow> 'v \<Rightarrow> 'm \<Rightarrow> 'm \<times> 'v option"
    and remove :: "'k \<Rightarrow> 'm \<Rightarrow> 'm \<times> 'v option"
    and get :: "'k \<Rightarrow> 'm \<Rightarrow> 'v option"
    and len :: "'m \<Rightarrow> nat"
    and invar :: "'m \<Rightarrow> bool"
  assumes get_empty: "get k empty = None"
    and invar_empty: "invar empty"
    and invar_insert: "invar m \<Longrightarrow> invar (fst (insert k v m))"
    and invar_remove: "invar m \<Longrightarrow> invar (fst (remove k m))"
    and get_insert: "invar m \<Longrightarrow> get j (fst (insert k v m)) = (if j = k then Some v else get j m)"
    and get_remove: "invar m \<Longrightarrow> get j (fst (remove k m)) = (if j = k then None else get j m)"
    and insert_old: "invar m \<Longrightarrow> snd (insert k v m) = get k m"
    and remove_old: "invar m \<Longrightarrow> snd (remove k m) = get k m"
    and finite_keys: "finite {k. get k m \<noteq> None}"
    and len_card: "invar m \<Longrightarrow> len m = card {k. get k m \<noteq> None}"
begin

lemma len_empty: "len empty = 0"
  by (simp add: len_card invar_empty get_empty)

lemma len_insert:
  assumes "invar m"
  shows "len (fst (insert k v m)) = (if get k m = None then Suc (len m) else len m)"
proof -
  have "{j. get j (fst (insert k v m)) \<noteq> None} = Set.insert k {j. get j m \<noteq> None}"
    using assms by (auto simp: get_insert)
  then show ?thesis
    using assms finite_keys [of m]
    by (auto simp: len_card invar_insert card_insert_if)
qed

lemma len_remove:
  assumes "invar m"
  shows "len (fst (remove k m)) = (if get k m = None then len m else len m - 1)"
proof -
  have "{j. get j (fst (remove k m)) \<noteq> None} = {j. get j m \<noteq> None} - {k}"
    using assms by (auto simp: get_remove)
  then show ?thesis
    using assms by (auto simp: len_card invar_remove card_Diff_singleton_if)
qed

text \<open>A write-back of what was just read changes nothing observable; the last write wins.\<close>

lemma get_insert_insert:
  "invar m \<Longrightarrow> get j (fst (insert k v (fst (insert k w m)))) = get j (fst (insert k v m))"
  by (simp add: get_insert invar_insert)

lemma get_insert_commute:
  "invar m \<Longrightarrow> k \<noteq> l \<Longrightarrow>
   get j (fst (insert k v (fst (insert l w m)))) = get j (fst (insert l w (fst (insert k v m))))"
  by (simp add: get_insert invar_insert)

lemma get_remove_insert:
  "invar m \<Longrightarrow> get k m = None \<Longrightarrow> get j (fst (remove k (fst (insert k v m)))) = get j m"
  by (auto simp: get_insert get_remove invar_insert)

lemma get_foldl_insert:
  "invar m \<Longrightarrow>
   invar (foldl (\<lambda>m (k, v). fst (insert k v m)) m ps) \<and>
   get j (foldl (\<lambda>m (k, v). fst (insert k v m)) m ps) =
     (case map_of (rev ps) j of None \<Rightarrow> get j m | Some v \<Rightarrow> Some v)"
proof (induction ps arbitrary: m)
  case Nil
  then show ?case by simp
next
  case (Cons p ps)
  obtain k v where p: "p = (k, v)" by (cases p)
  have "invar (fst (insert k v m))" using Cons.prems by (rule invar_insert)
  from Cons.IH [OF this] show ?case
    by (auto simp: p get_insert Cons.prems map_add_def split: option.splits)
qed

end

text \<open>Deterministic iteration: the content of the map fixes the entry sequence.\<close>

lemma sorted_entries_eq:
  fixes xs ys :: "('k::linorder \<times> 'v) list"
  assumes "sorted_wrt (<) (map fst xs)" "sorted_wrt (<) (map fst ys)" "map_of xs = map_of ys"
  shows "xs = ys"
proof -
  have d: "distinct (map fst xs)" "distinct (map fst ys)"
    using assms(1,2) by (auto simp: strict_sorted_iff)
  then have "set xs = set ys"
    using assms(3) by (simp add: map_of_inject_set)
  have k: "map fst xs = map fst ys"
  proof (rule sorted_distinct_set_unique)
    show "sorted (map fst xs)" "sorted (map fst ys)"
      using assms(1,2) by (auto simp: strict_sorted_iff)
    show "set (map fst xs) = set (map fst ys)"
      using \<open>set xs = set ys\<close> by simp
  qed (use d in auto)
  show ?thesis
  proof (rule nth_equalityI)
    show len: "length xs = length ys" using k by (rule map_eq_imp_length_eq)
    fix i assume i: "i < length xs"
    have f: "fst (xs ! i) = fst (ys ! i)"
      using i k len by (metis nth_map)
    have "xs ! i \<in> set ys" "ys ! i \<in> set ys"
      using i len \<open>set xs = set ys\<close> nth_mem by auto
    then have "snd (xs ! i) = snd (ys ! i)"
      using eq_key_imp_eq_value [OF d(2), of "fst (ys ! i)"] f by (metis prod.collapse)
    with f show "xs ! i = ys ! i" by (simp add: prod_eq_iff)
  qed
qed

locale ordered_map = finite_map empty insert remove get len invar
  for empty :: 'm
    and insert :: "'k::linorder \<Rightarrow> 'v \<Rightarrow> 'm \<Rightarrow> 'm \<times> 'v option"
    and remove :: "'k \<Rightarrow> 'm \<Rightarrow> 'm \<times> 'v option"
    and get :: "'k \<Rightarrow> 'm \<Rightarrow> 'v option"
    and len :: "'m \<Rightarrow> nat"
    and invar :: "'m \<Rightarrow> bool" +
  fixes entries :: "'m \<Rightarrow> ('k \<times> 'v) list"
  assumes entries_sorted: "invar m \<Longrightarrow> sorted_wrt (<) (map fst (entries m))"
    and entries_get: "invar m \<Longrightarrow> map_of (entries m) = (\<lambda>k. get k m)"
begin

lemma entries_ext:
  "invar m \<Longrightarrow> invar m' \<Longrightarrow> (\<And>k. get k m = get k m') \<Longrightarrow> entries m = entries m'"
  by (rule sorted_entries_eq) (simp_all add: entries_sorted entries_get)

lemma entries_insert_commute:
  "invar m \<Longrightarrow> k \<noteq> l \<Longrightarrow>
   entries (fst (insert k v (fst (insert l w m)))) = entries (fst (insert l w (fst (insert k v m))))"
  by (rule entries_ext) (simp_all add: invar_insert get_insert_commute)

lemma entries_remove_insert:
  "invar m \<Longrightarrow> get k m = None \<Longrightarrow> entries (fst (remove k (fst (insert k v m)))) = entries m"
  by (rule entries_ext) (simp_all add: invar_insert invar_remove get_remove_insert)

end

section \<open>BTreeMap implements the interface\<close>

lemma bt_sorted_Nil [simp]: "bt_sorted []"
  by (simp add: bt_sorted_def)

lemma bt_sorted_Cons [simp]:
  "bt_sorted ((k, v) # m) \<longleftrightarrow> (\<forall>j \<in> fst ` set m. k < j) \<and> bt_sorted m"
  by (auto simp: bt_sorted_def)

lemma bt_get_Nil [simp]: "bt_get k [] = None"
  by (simp add: bt_get_def)

lemma bt_get_Cons [simp]: "bt_get k ((j, v) # m) = (if k = j then Some v else bt_get k m)"
  by (simp add: bt_get_def)

lemma bt_get_None_iff: "bt_get k m = None \<longleftrightarrow> k \<notin> fst ` set m"
  by (simp add: bt_get_def map_of_eq_None_iff)

lemma bt_get_Some_in: "bt_get k m = Some v \<Longrightarrow> (k, v) \<in> set m"
  by (simp add: bt_get_def map_of_SomeD)

lemma bt_sorted_distinct: "bt_sorted m \<Longrightarrow> distinct (map fst m)"
  by (simp add: bt_sorted_def strict_sorted_iff)

lemma bt_get_in_iff: "bt_sorted m \<Longrightarrow> bt_get k m = Some v \<longleftrightarrow> (k, v) \<in> set m"
  by (simp add: bt_get_def bt_sorted_distinct)

lemma keys_bt_put [simp]: "fst ` set (bt_put k v m) = insert k (fst ` set m)"
  by (induction k v m rule: bt_put.induct) auto

lemma set_bt_put: "set (bt_put k v m) \<subseteq> insert (k, v) (set m)"
  by (induction k v m rule: bt_put.induct) auto

lemma bt_sorted_put [simp, wf_intros]: "bt_sorted m \<Longrightarrow> bt_sorted (bt_put k v m)"
proof (induction k v m rule: bt_put.induct)
  case (2 k v j w m)
  have "k < i" if "k < j" "i \<in> fst ` set m" for i
    using "2.prems" that by (force intro: less_trans [of k j])
  with 2 show ?case by (auto simp del: ball_simps)
qed simp

lemma bt_get_put [simp]: "bt_get j (bt_put k v m) = (if j = k then Some v else bt_get j m)"
  by (induction k v m rule: bt_put.induct) auto

lemma bt_sorted_del [simp, wf_intros]: "bt_sorted m \<Longrightarrow> bt_sorted (bt_del k m)"
  by (induction m) (auto simp: bt_del_def)

lemma bt_get_del [simp]: "bt_get j (bt_del k m) = (if j = k then None else bt_get j m)"
  by (induction m) (auto simp: bt_del_def bt_get_def)

lemma set_bt_del: "set (bt_del k m) \<subseteq> set m"
  by (auto simp: bt_del_def)

lemma finite_bt_keys: "finite {k. bt_get k m \<noteq> None}"
  using finite_dom_map_of [of m] by (simp add: bt_get_def dom_def)

lemma card_bt_keys: "distinct (map fst m) \<Longrightarrow> card {k. bt_get k m \<noteq> None} = length m"
proof -
  assume "distinct (map fst m)"
  moreover have "{k. bt_get k m \<noteq> None} = set (map fst m)"
    using bt_get_None_iff [of _ m] by auto
  ultimately show ?thesis
    by (metis distinct_card length_map)
qed

interpretation btree: ordered_map bt_new bt_insert bt_remove bt_get length bt_sorted "\<lambda>m. m"
proof unfold_locales
  fix m :: "('k::linorder, 'v) btree_map"
  show "finite {k. bt_get k m \<noteq> None}" by (rule finite_bt_keys)
  show "length m = card {k. bt_get k m \<noteq> None}" if "bt_sorted m"
    using card_bt_keys bt_sorted_distinct that by metis
  show "sorted_wrt (<) (map fst m)" if "bt_sorted m"
    using that by (simp add: bt_sorted_def)
  show "map_of m = (\<lambda>k. bt_get k m)"
    by (simp add: bt_get_def)
qed (simp_all add: bt_new_def bt_insert_def bt_remove_def)

section \<open>KaniMap implements the interface\<close>

lemma locate_from_shift:
  "locate_from i key m =
     (case locate_from 0 key m of Inl p \<Rightarrow> Inl (i + p) | Inr p \<Rightarrow> Inr (i + p))"
proof (induction m arbitrary: i)
  case Nil
  then show ?case by simp
next
  case (Cons e m)
  obtain k v where "e = (k, v)" by (cases e)
  then show ?case
    using Cons [of "Suc i"] Cons [of "Suc 0"] by (auto split: sum.splits)
qed

lemma locate_Nil [simp]: "locate key [] = Inl 0"
  by (simp add: locate_def)

lemma locate_Cons [simp]:
  "locate key ((k, v) # m) =
     (if k = key then Inr 0 else if key < k then Inl 0
      else (case locate key m of Inl p \<Rightarrow> Inl (Suc p) | Inr p \<Rightarrow> Inr (Suc p)))"
  using locate_from_shift [of "Suc 0" key m] by (auto simp: locate_def split: sum.splits)

lemma locate_bound: "locate key m = Inr i \<Longrightarrow> i < length m \<and> fst (m ! i) = key"
  by (induction m arbitrary: i) (auto split: sum.splits if_splits)

lemma kani_get_Nil [simp]: "kani_get key [] = None"
  by (simp add: kani_get_def)

lemma kani_get_Cons [simp]:
  "kani_get key ((k, v) # m) =
     (if k = key then Some v else if key < k then None else kani_get key m)"
  by (auto simp: kani_get_def split: sum.splits)

lemma kani_insert_Nil [simp]: "kani_insert key v [] = ([(key, v)], None)"
  by (simp add: kani_insert_def)

lemma kani_insert_Cons [simp]:
  "kani_insert key v ((k, w) # m) =
     (if k = key then ((k, v) # m, Some w) else if key < k then ((key, v) # (k, w) # m, None)
      else ((k, w) # fst (kani_insert key v m), snd (kani_insert key v m)))"
  by (auto simp: kani_insert_def dest: locate_bound split: sum.splits)

lemma kani_remove_Nil [simp]: "kani_remove key [] = ([], None)"
  by (simp add: kani_remove_def)

lemma kani_remove_Cons [simp]:
  "kani_remove key ((k, w) # m) =
     (if k = key then (m, Some w) else if key < k then ((k, w) # m, None)
      else ((k, w) # fst (kani_remove key m), snd (kani_remove key m)))"
  by (auto simp: kani_remove_def split: sum.splits)

lemma bt_get_below: "bt_sorted ((k, v) # m) \<Longrightarrow> key < k \<Longrightarrow> bt_get key m = None"
  by (force simp: bt_get_None_iff)

lemma bt_del_below: "bt_sorted ((k, v) # m) \<Longrightarrow> key \<le> k \<Longrightarrow> bt_del key m = m"
  by (force simp: bt_del_def filter_id_conv)

lemma bt_del_Cons: "bt_del key ((k, v) # m) = (if k = key then bt_del key m else (k, v) # bt_del key m)"
  by (simp add: bt_del_def)

lemma kani_get_bt: "bt_sorted m \<Longrightarrow> kani_get key m = bt_get key m"
proof (induction m)
  case (Cons e m)
  then show ?case by (cases e) (auto simp: bt_get_below)
qed simp

lemma kani_insert_bt: "bt_sorted m \<Longrightarrow> kani_insert key v m = bt_insert key v m"
  by (induction key v m rule: bt_put.induct) (auto simp: bt_insert_def bt_get_below)

lemma kani_remove_bt: "bt_sorted m \<Longrightarrow> kani_remove key m = bt_remove key m"
proof (induction m)
  case Nil
  then show ?case by (simp add: bt_remove_def bt_del_def)
next
  case (Cons e m)
  obtain k w where e: "e = (k, w)" by (cases e)
  have keep: "bt_del key m = m" if "key \<le> k"
    using Cons.prems that bt_del_below by (metis e)
  have none: "bt_get key m = None" if "key < k"
    using Cons.prems that bt_get_below by (metis e)
  show ?case
    using Cons keep none by (auto simp: e bt_remove_def bt_del_Cons)
qed

interpretation kani: ordered_map kani_new kani_insert kani_remove kani_get kani_len bt_sorted kani_iter
proof unfold_locales
  fix m :: "'v kani_map" and k :: string and v
  show "finite {k. kani_get k m \<noteq> None}"
    by (rule finite_subset [of _ "fst ` set m"]) (induction m; force split: if_splits)+
  assume m: "bt_sorted m"
  show "bt_sorted (fst (kani_insert k v m))" "bt_sorted (fst (kani_remove k m))"
    using m by (simp_all add: kani_insert_bt kani_remove_bt bt_insert_def bt_remove_def)
  show "kani_get j (fst (kani_insert k v m)) = (if j = k then Some v else kani_get j m)" for j
    using m by (simp add: kani_insert_bt kani_get_bt bt_insert_def)
  show "kani_get j (fst (kani_remove k m)) = (if j = k then None else kani_get j m)" for j
    using m by (simp add: kani_remove_bt kani_get_bt bt_remove_def)
  show "snd (kani_insert k v m) = kani_get k m" "snd (kani_remove k m) = kani_get k m"
    using m by (simp_all add: kani_insert_bt kani_remove_bt kani_get_bt bt_insert_def bt_remove_def)
  show "kani_len m = card {k. kani_get k m \<noteq> None}"
    using card_bt_keys [OF bt_sorted_distinct [OF m]] m by (simp add: kani_len_def kani_get_bt)
  show "sorted_wrt (<) (map fst (kani_iter m))"
    using m by (simp add: kani_iter_def bt_sorted_def)
  show "map_of (kani_iter m) = (\<lambda>k. kani_get k m)"
    using m by (auto simp: kani_iter_def kani_get_bt bt_get_def)
qed (simp_all add: kani_new_def)

section \<open>KIdMap implements the interface\<close>

lemma position_None_iff: "position p xs = None \<longleftrightarrow> (\<forall>x \<in> set xs. \<not> p x)"
  by (induction xs) auto

lemma position_Some: "position p xs = Some i \<Longrightarrow> i < length xs \<and> p (xs ! i)"
  by (induction xs arbitrary: i) (auto split: if_splits)

lemma swap_remove_split:
  "swap_remove (length as) (as @ x # bs) = (if bs = [] then as else as @ last bs # butlast bs)"
  by (auto simp: swap_remove_def butlast_append list_update_append)

lemma set_butlast_last: "bs \<noteq> [] \<Longrightarrow> insert (last bs) (set (butlast bs)) = set bs"
  by (metis append_butlast_last_id insert_is_Un list.simps(15) set_append sup_commute empty_set)

lemma swap_remove_set:
  assumes "i < length xs"
  shows "set (swap_remove i xs) = set (take i xs @ drop (Suc i) xs)"
    and "distinct xs \<Longrightarrow> distinct (swap_remove i xs)"
    and "length (swap_remove i xs) = length xs - 1"
proof -
  define as x bs where d: "as = take i xs" "x = xs ! i" "bs = drop (Suc i) xs"
  have xs: "xs = as @ x # bs" "i = length as"
    using assms by (simp_all add: d id_take_nth_drop [symmetric])
  have sr: "swap_remove i xs = (if bs = [] then as else as @ last bs # butlast bs)"
    by (simp add: xs swap_remove_split)
  show "set (swap_remove i xs) = set (take i xs @ drop (Suc i) xs)"
    by (simp add: sr d(1) [symmetric] d(3) [symmetric] set_butlast_last)
  show "length (swap_remove i xs) = length xs - 1"
    by (subst sr) (simp add: xs(1))
  show "distinct (swap_remove i xs)" if "distinct xs"
  proof (cases "bs = []")
    case False
    then have bs: "distinct (butlast bs @ [last bs])" "set bs = insert (last bs) (set (butlast bs))"
      using that xs(1) by (simp_all add: set_butlast_last)
    have "distinct (as @ last bs # butlast bs)"
      using that bs by (auto simp: xs(1))
    then show ?thesis using False by (simp only: sr if_False)
  qed (use that sr xs(1) in auto)
qed

lemma map_swap_remove: "map f (swap_remove i xs) = swap_remove i (map f xs)"
  by (cases "xs = []") (auto simp: swap_remove_def map_butlast map_update last_map)

lemma distinct_take_drop_set:
  assumes "i < length xs" "distinct (map fst xs)"
  shows "set (take i xs @ drop (Suc i) xs) = {p \<in> set xs. fst p \<noteq> fst (xs ! i)}"
proof -
  have xs: "xs = take i xs @ xs ! i # drop (Suc i) xs"
    using assms(1) by (rule id_take_nth_drop)
  have d: "distinct (map fst (take i xs @ xs ! i # drop (Suc i) xs))"
    using assms(2) xs by simp
  show ?thesis
    by (subst (3) xs) (use d in \<open>auto simp: image_iff\<close>)
qed

lemma kid_map_get_map_of: "kid_map_get k m = map_of m k"
  by (induction m) (auto simp: kid_map_get_def)

lemma kid_map_get_iff: "distinct (map fst m) \<Longrightarrow> kid_map_get k m = Some v \<longleftrightarrow> (k, v) \<in> set m"
  by (simp add: kid_map_get_map_of)

lemma set_kid_map_insert:
  assumes "distinct (map fst m)"
  shows "set (fst (kid_map_insert k v m)) = insert (k, v) {p \<in> set m. fst p \<noteq> k}"
    and "distinct (map fst (fst (kid_map_insert k v m)))"
    and "snd (kid_map_insert k v m) = kid_map_get k m"
proof (atomize (full), cases "position (\<lambda>p. fst p = k) m")
  case None
  then have "k \<notin> fst ` set m" by (auto simp: position_None_iff)
  with None assms show "set (fst (kid_map_insert k v m)) = insert (k, v) {p \<in> set m. fst p \<noteq> k} \<and>
      distinct (map fst (fst (kid_map_insert k v m))) \<and> snd (kid_map_insert k v m) = kid_map_get k m"
    by (auto simp: kid_map_insert_def kid_map_get_map_of map_of_eq_None_iff [THEN iffD2])
next
  case (Some i)
  then have i: "i < length m" "fst (m ! i) = k" using position_Some by fastforce+
  have upd: "m[i := (k, v)] = take i m @ (k, v) # drop (Suc i) m"
    using i by (simp add: upd_conv_take_nth_drop)
  have "map fst (m[i := (k, v)]) = map fst m"
    using i by (simp add: map_update list_update_same_conv)
  moreover have "map_of m k = Some (snd (m ! i))"
    using assms i by (metis map_of_eq_Some_iff nth_mem prod.collapse)
  ultimately show "set (fst (kid_map_insert k v m)) = insert (k, v) {p \<in> set m. fst p \<noteq> k} \<and>
      distinct (map fst (fst (kid_map_insert k v m))) \<and> snd (kid_map_insert k v m) = kid_map_get k m"
    using Some i assms distinct_take_drop_set [OF i(1) assms]
    by (simp add: kid_map_insert_def kid_map_get_map_of upd)
qed

lemma set_kid_map_remove:
  assumes "distinct (map fst m)"
  shows "set (fst (kid_map_remove k m)) = {p \<in> set m. fst p \<noteq> k}"
    and "distinct (map fst (fst (kid_map_remove k m)))"
    and "snd (kid_map_remove k m) = kid_map_get k m"
proof (atomize (full), cases "position (\<lambda>p. fst p = k) m")
  case None
  then have "k \<notin> fst ` set m" by (auto simp: position_None_iff)
  with None assms show "set (fst (kid_map_remove k m)) = {p \<in> set m. fst p \<noteq> k} \<and>
      distinct (map fst (fst (kid_map_remove k m))) \<and> snd (kid_map_remove k m) = kid_map_get k m"
    by (auto simp: kid_map_remove_def kid_map_get_map_of map_of_eq_None_iff [THEN iffD2])
next
  case (Some i)
  then have i: "i < length m" "fst (m ! i) = k" using position_Some by fastforce+
  have "map_of m k = Some (snd (m ! i))"
    using assms i by (metis map_of_eq_Some_iff nth_mem prod.collapse)
  then show "set (fst (kid_map_remove k m)) = {p \<in> set m. fst p \<noteq> k} \<and>
      distinct (map fst (fst (kid_map_remove k m))) \<and> snd (kid_map_remove k m) = kid_map_get k m"
    using Some i assms distinct_take_drop_set [OF i(1) assms]
    by (simp add: kid_map_remove_def kid_map_get_map_of swap_remove_set map_swap_remove)
qed

interpretation kid: finite_map kid_map_new kid_map_insert kid_map_remove kid_map_get kid_map_len
  "\<lambda>m. distinct (map fst m)"
proof unfold_locales
  fix m :: "'v kid_map" and k j v
  show "finite {k. kid_map_get k m \<noteq> None}"
    using finite_dom_map_of [of m] by (simp add: kid_map_get_map_of dom_def)
  assume m: "distinct (map fst m)"
  show "distinct (map fst (fst (kid_map_insert k v m)))" "distinct (map fst (fst (kid_map_remove k m)))"
    using m by (rule set_kid_map_insert(2), rule set_kid_map_remove(2))
  show "snd (kid_map_insert k v m) = kid_map_get k m" "snd (kid_map_remove k m) = kid_map_get k m"
    using m by (rule set_kid_map_insert(3), rule set_kid_map_remove(3))
  show "kid_map_get j (fst (kid_map_insert k v m)) = (if j = k then Some v else kid_map_get j m)"
    by (rule option_eqI) (use m in \<open>auto simp: kid_map_get_iff set_kid_map_insert\<close>)
  show "kid_map_get j (fst (kid_map_remove k m)) = (if j = k then None else kid_map_get j m)"
    by (rule option_eqI) (use m in \<open>auto simp: kid_map_get_iff set_kid_map_remove\<close>)
  show "kid_map_len m = card {k. kid_map_get k m \<noteq> None}"
    using card_bt_keys [OF m] by (simp add: kid_map_len_def kid_map_get_map_of bt_get_def)
qed (simp_all add: kid_map_new_def kid_map_get_def)

lemma kani_contains_bt: "bt_sorted m \<Longrightarrow> kani_contains_key k m = bt_contains k m"
proof (induction m)
  case (Cons e m)
  then show ?case
    by (cases e) (auto simp: kani_contains_key_def bt_contains_def is_ok_def bt_get_below split: sum.splits)
qed (simp add: kani_contains_key_def bt_contains_def)

section \<open>Properties\<close>

text \<open>
  The sorted-vector map that replaces \<open>BTreeMap\<close> in verification builds is observationally the
  same map: on sorted entries \<open>get\<close>, \<open>insert\<close> with its returned old value, \<open>remove\<close> with its returned
  value and \<open>contains_key\<close> agree with \<open>BTreeMap\<close>, and every operation keeps the entries sorted.
\<close>

theorem kani_map_is_btree_map:
  assumes "bt_sorted m"
  shows "kani_get k m = bt_get k m \<and> kani_insert k v m = bt_insert k v m \<and>
     kani_remove k m = bt_remove k m \<and> kani_contains_key k m = bt_contains k m \<and>
     bt_sorted (fst (kani_insert k v m)) \<and> bt_sorted (fst (kani_remove k m))"
  using assms kani_contains_bt [OF assms]
  by (simp add: kani_get_bt kani_insert_bt kani_remove_bt bt_insert_def bt_remove_def)

theorem kani_map_is_btree_map_witness:
  "bt_sorted [(''a'', 1 :: nat), (''b'', 2)] \<and>
   kani_insert ''ab'' 3 [(''a'', 1 :: nat), (''b'', 2)] = bt_insert ''ab'' 3 [(''a'', 1), (''b'', 2)]"
proof -
  have "bt_sorted [(''a'', 1 :: nat), (''b'', 2)]" by code_simp
  with kani_map_is_btree_map [OF this, of "''ab''" 3] show ?thesis by simp
qed

end
