(* ===== verification/Json.thy ===== *)
theory Json
  imports ObjMap
begin

text \<open>
  The JSON data model of the kernel, \<open>evorule-tcb/src/value.rs\<close>: the value type, its hand-written
  equality and total order, the typed accessors, the object operations and the \<open>Display\<close> printer.
  An object is a \<open>BTreeMap\<close>, so a value is well formed when every object in it is sorted by key.
\<close>

datatype json =
    Null
  | Bool bool
  | Integer i64
  | U64 u64
  | String string
  | Array "json list"
  | Object "(string \<times> json) list"

type_synonym object_map = "(string, json) btree_map"

datatype ordering = Less | Equal | Greater

section \<open>Equality and order\<close>

fun json_eq :: "json \<Rightarrow> json \<Rightarrow> bool"
  and json_eq_list :: "json list \<Rightarrow> json list \<Rightarrow> bool"
  and json_eq_entries :: "object_map \<Rightarrow> object_map \<Rightarrow> bool"
where
  "json_eq Null w = (case w of Null \<Rightarrow> True | _ \<Rightarrow> False)"
| "json_eq (Bool a) w = (case w of Bool b \<Rightarrow> a = b | _ \<Rightarrow> False)"
| "json_eq (Integer a) w = (case w of Integer b \<Rightarrow> a = b | _ \<Rightarrow> False)"
| "json_eq (U64 a) w = (case w of U64 b \<Rightarrow> a = b | _ \<Rightarrow> False)"
| "json_eq (String a) w = (case w of String b \<Rightarrow> a = b | _ \<Rightarrow> False)"
| "json_eq (Array a) w = (case w of Array b \<Rightarrow> json_eq_list a b | _ \<Rightarrow> False)"
| "json_eq (Object a) w =
     (case w of
        Object b \<Rightarrow> if length a \<noteq> length b then False else json_eq_entries a b
      | _ \<Rightarrow> False)"
| "json_eq_list [] [] = True"
| "json_eq_list (x # xs) (y # ys) = (json_eq x y \<and> json_eq_list xs ys)"
| "json_eq_list _ _ = False"
| "json_eq_entries [] b = True"
| "json_eq_entries ((k, v) # a) b =
     (case bt_get k b of
        Some bv \<Rightarrow> if \<not> json_eq v bv then False else json_eq_entries a b
      | None \<Rightarrow> False)"

definition cmp_of :: "'a::linorder \<Rightarrow> 'a \<Rightarrow> ordering" where
  "cmp_of a b = (if a < b then Less else if a = b then Equal else Greater)"

fun json_cmp :: "json \<Rightarrow> json \<Rightarrow> ordering"
  and json_cmp_list :: "json list \<Rightarrow> json list \<Rightarrow> ordering"
  and json_cmp_entries :: "object_map \<Rightarrow> object_map \<Rightarrow> ordering"
where
  "json_cmp Null w = (case w of Null \<Rightarrow> Equal | _ \<Rightarrow> Less)"
| "json_cmp (Bool a) w =
     (case w of Null \<Rightarrow> Greater | Bool b \<Rightarrow> cmp_of a b | _ \<Rightarrow> Less)"
| "json_cmp (Integer a) w =
     (case w of Null \<Rightarrow> Greater | Bool _ \<Rightarrow> Greater
      | Integer b \<Rightarrow> cmp_of (sint a) (sint b) | _ \<Rightarrow> Less)"
| "json_cmp (U64 a) w =
     (case w of Null \<Rightarrow> Greater | Bool _ \<Rightarrow> Greater | Integer _ \<Rightarrow> Greater
      | U64 b \<Rightarrow> cmp_of a b | _ \<Rightarrow> Less)"
| "json_cmp (String a) w =
     (case w of String b \<Rightarrow> cmp_of a b | Array _ \<Rightarrow> Less | Object _ \<Rightarrow> Less | _ \<Rightarrow> Greater)"
| "json_cmp (Array a) w =
     (case w of Array b \<Rightarrow> json_cmp_list a b | Object _ \<Rightarrow> Less | _ \<Rightarrow> Greater)"
| "json_cmp (Object a) w =
     (case w of Object b \<Rightarrow> json_cmp_entries a b | _ \<Rightarrow> Greater)"
| "json_cmp_list [] [] = Equal"
| "json_cmp_list [] (_ # _) = Less"
| "json_cmp_list (_ # _) [] = Greater"
| "json_cmp_list (x # xs) (y # ys) =
     (case json_cmp x y of Equal \<Rightarrow> json_cmp_list xs ys | other \<Rightarrow> other)"
| "json_cmp_entries [] [] = Equal"
| "json_cmp_entries [] (_ # _) = Less"
| "json_cmp_entries (_ # _) [] = Greater"
| "json_cmp_entries ((ak, av) # a) ((bk, bv) # b) =
     (case cmp_of ak bk of
        Equal \<Rightarrow> (case json_cmp av bv of Equal \<Rightarrow> json_cmp_entries a b | other \<Rightarrow> other)
      | other \<Rightarrow> other)"

section \<open>Accessors\<close>

fun is_object :: "json \<Rightarrow> bool" where
  "is_object (Object _) = True" | "is_object _ = False"
fun is_array :: "json \<Rightarrow> bool" where
  "is_array (Array _) = True" | "is_array _ = False"
fun is_integer :: "json \<Rightarrow> bool" where
  "is_integer (Integer _) = True" | "is_integer _ = False"
fun is_u64 :: "json \<Rightarrow> bool" where
  "is_u64 (U64 _) = True" | "is_u64 _ = False"
fun is_string :: "json \<Rightarrow> bool" where
  "is_string (String _) = True" | "is_string _ = False"
fun is_bool :: "json \<Rightarrow> bool" where
  "is_bool (Bool _) = True" | "is_bool _ = False"
fun is_null :: "json \<Rightarrow> bool" where
  "is_null Null = True" | "is_null _ = False"

fun json_len :: "json \<Rightarrow> nat option" where
  "json_len (Array arr) = Some (length arr)"
| "json_len (Object m) = Some (length m)"
| "json_len _ = None"

fun json_is_empty :: "json \<Rightarrow> bool" where
  "json_is_empty (Array arr) = (arr = [])"
| "json_is_empty (Object m) = (m = [])"
| "json_is_empty _ = False"

fun as_i64 :: "json \<Rightarrow> i64 option" where
  "as_i64 (Integer v) = Some v" | "as_i64 _ = None"
fun as_u64 :: "json \<Rightarrow> u64 option" where
  "as_u64 (U64 v) = Some v" | "as_u64 _ = None"
fun as_str :: "json \<Rightarrow> string option" where
  "as_str (String s) = Some s" | "as_str _ = None"
fun as_bool :: "json \<Rightarrow> bool option" where
  "as_bool (Bool b) = Some b" | "as_bool _ = None"
fun as_array :: "json \<Rightarrow> json list option" where
  "as_array (Array arr) = Some arr" | "as_array _ = None"
fun as_object :: "json \<Rightarrow> object_map option" where
  "as_object (Object m) = Some m" | "as_object _ = None"

section \<open>Object operations\<close>

fun json_get :: "string \<Rightarrow> json \<Rightarrow> json option" where
  "json_get key (Object m) = bt_get key m"
| "json_get key _ = None"

text \<open>A mutating method returns the updated value beside its result.\<close>

fun json_get_mut :: "string \<Rightarrow> (json \<Rightarrow> json) \<Rightarrow> json \<Rightarrow> json option" where
  "json_get_mut key f (Object m) =
     map_option (\<lambda>v. Object (bt_put key (f v) m)) (bt_get key m)"
| "json_get_mut key f _ = None"

fun json_insert :: "string \<Rightarrow> json \<Rightarrow> json \<Rightarrow> json \<times> json option" where
  "json_insert key v (Object m) = (Object (bt_put key v m), bt_get key m)"
| "json_insert key v j = (j, None)"

fun try_insert :: "string \<Rightarrow> json \<Rightarrow> json \<Rightarrow> json \<times> (json + unit)" where
  "try_insert key v (Object m) =
     (if bt_contains key m
      then (Object m, case bt_get key m of Some existing \<Rightarrow> Inl existing | None \<Rightarrow> Inl Null)
      else (Object (bt_put key v m), Inr ()))"
| "try_insert key v j = (j, Inl Null)"

fun json_remove :: "string \<Rightarrow> json \<Rightarrow> json \<times> json option" where
  "json_remove key (Object m) = (Object (bt_del key m), bt_get key m)"
| "json_remove key j = (j, None)"

fun json_clear :: "json \<Rightarrow> json" where
  "json_clear (Array _) = Array []"
| "json_clear (Object _) = Object bt_new"
| "json_clear j = j"

definition empty_object :: json where
  "empty_object = Object bt_new"

definition empty_array :: json where
  "empty_array = Array []"

definition object_from_pairs :: "(string \<times> json) list \<Rightarrow> json" where
  "object_from_pairs ps = Object (foldl (\<lambda>m (k, v). fst (bt_insert k v m)) bt_new ps)"

section \<open>Display\<close>

definition hex_digit :: "nat \<Rightarrow> char" where
  "hex_digit d = (if d < 10 then char_of (48 + d) else char_of (87 + d))"

definition hex4 :: "nat \<Rightarrow> string" where
  "hex4 n = [hex_digit (n div 4096 mod 16), hex_digit (n div 256 mod 16),
             hex_digit (n div 16 mod 16), hex_digit (n mod 16)]"

definition escape_char :: "char \<Rightarrow> string" where
  "escape_char c =
     (if c = CHR 0x22 then [CHR 0x5C, CHR 0x22]
      else if c = CHR 0x5C then [CHR 0x5C, CHR 0x5C]
      else if c = CHR 0x0A then [CHR 0x5C, CHR ''n'']
      else if c = CHR 0x0D then [CHR 0x5C, CHR ''r'']
      else if c = CHR 0x09 then [CHR 0x5C, CHR ''t'']
      else if c = CHR 0x08 then [CHR 0x5C, CHR ''b'']
      else if c = CHR 0x0C then [CHR 0x5C, CHR ''f'']
      else if (of_char c :: nat) < 32 then [CHR 0x5C, CHR ''u''] @ hex4 (of_char c)
      else [c])"

definition escape_json_string :: "string \<Rightarrow> string" where
  "escape_json_string s = [CHR 0x22] @ concat (map escape_char s) @ [CHR 0x22]"

text \<open>
  The reading side of RFC 8259 string literals, as the reference for the escaper: the body of a
  literal up to its closing quote, with raw control characters rejected.  A numeric escape is
  read for the ASCII range, the only one the escaper writes.
\<close>

definition hex_val :: "char \<Rightarrow> nat option" where
  "hex_val c =
     (let n = of_char c in
      if 48 \<le> n \<and> n \<le> 57 then Some (n - 48)
      else if 97 \<le> n \<and> n \<le> 102 then Some (n - 87)
      else None)"

definition simple_escape :: "char \<Rightarrow> char option" where
  "simple_escape e =
     (if e = CHR 0x22 then Some (CHR 0x22) else if e = CHR 0x5C then Some (CHR 0x5C)
      else if e = CHR ''n'' then Some (CHR 0x0A) else if e = CHR ''r'' then Some (CHR 0x0D)
      else if e = CHR ''t'' then Some (CHR 0x09) else if e = CHR ''b'' then Some (CHR 0x08)
      else if e = CHR ''f'' then Some (CHR 0x0C) else None)"

definition unescape_u :: "string \<Rightarrow> (char \<times> string) option" where
  "unescape_u s =
     (case s of
        a # b # c # d # r \<Rightarrow>
          (case (hex_val a, hex_val b, hex_val c, hex_val d) of
             (Some p, Some q, Some x, Some y) \<Rightarrow>
               (let n = 4096 * p + 256 * q + 16 * x + y in
                if n < 128 then Some (char_of n, r) else None)
           | _ \<Rightarrow> None)
      | _ \<Rightarrow> None)"

function (sequential) unescape_body :: "string \<Rightarrow> (string \<times> string) option" where
  "unescape_body [] = None"
| "unescape_body (c # cs) =
     (if c = CHR 0x22 then Some ([], cs)
      else if c = CHR 0x5C then
        (case cs of
           [] \<Rightarrow> None
         | e # r \<Rightarrow>
             (if e = CHR ''u'' then
                (case unescape_u r of
                   None \<Rightarrow> None
                 | Some (x, r') \<Rightarrow> map_option (\<lambda>(s, t). (x # s, t)) (unescape_body r'))
              else (case simple_escape e of
                      None \<Rightarrow> None
                    | Some x \<Rightarrow> map_option (\<lambda>(s, t). (x # s, t)) (unescape_body r))))
      else if (of_char c :: nat) < 32 then None
      else map_option (\<lambda>(s, t). (c # s, t)) (unescape_body cs))"
  by pat_completeness auto
termination
  by (relation "measure length") (auto simp: unescape_u_def Let_def split: list.splits option.splits if_splits)

definition show_bool :: "bool \<Rightarrow> string" where
  "show_bool b = (if b then ''true'' else ''false'')"

fun json_display :: "json \<Rightarrow> string"
  and display_items :: "nat \<Rightarrow> json list \<Rightarrow> string"
  and display_entries :: "nat \<Rightarrow> object_map \<Rightarrow> string"
where
  "json_display Null = ''null''"
| "json_display (Bool b) = show_bool b"
| "json_display (Integer i) = dec_int (sint i)"
| "json_display (U64 v) = dec_nat (unat v)"
| "json_display (String s) = escape_json_string s"
| "json_display (Array arr) = ''['' @ display_items 0 arr @ '']''"
| "json_display (Object m) = ''{'' @ display_entries 0 m @ ''}''"
| "display_items i [] = ''''"
| "display_items i (v # vs) =
     (if i > 0 then '', '' else '''') @ json_display v @ display_items (Suc i) vs"
| "display_entries i [] = ''''"
| "display_entries i ((k, v) # m) =
     (if i > 0 then '', '' else '''') @ escape_json_string k @ '': '' @ json_display v
     @ display_entries (Suc i) m"

section \<open>Well-formed values\<close>

fun wf_json :: "json \<Rightarrow> bool" where
  "wf_json (Array xs) = list_all wf_json xs"
| "wf_json (Object m) = (bt_sorted m \<and> list_all (\<lambda>p. wf_json (snd p)) m)"
| "wf_json _ = True"

definition wf_map :: "object_map \<Rightarrow> bool" where
  "wf_map m = wf_json (Object m)"

section \<open>Equality is identity on well-formed values\<close>

lemma wf_entry: "bt_get k m = Some v \<Longrightarrow> list_all (\<lambda>p. wf_json (snd p)) m \<Longrightarrow> wf_json v"
  by (metis bt_get_Some_in list_all_iff snd_conv)

lemma sorted_subset_eq:
  assumes "bt_sorted a" "bt_sorted b" "length a = length b" "set a \<subseteq> set b"
  shows "a = b"
proof -
  have d: "distinct (map fst a)" "distinct (map fst b)"
    using assms(1,2) by (simp_all add: bt_sorted_distinct)
  then have "card (set a) = card (set b)"
    using assms(3) by (simp add: distinct_card distinct_map)
  then have "set a = set b"
    using assms(4) by (simp add: card_subset_eq)
  then show ?thesis
    using assms(1,2) d by (simp add: sorted_entries_eq bt_sorted_def map_of_inject_set)
qed

lemma json_eq_iff_aux:
  "wf_json v \<Longrightarrow> wf_json w \<Longrightarrow> json_eq v w \<longleftrightarrow> v = w"
  "list_all wf_json xs \<Longrightarrow> list_all wf_json ys \<Longrightarrow> json_eq_list xs ys \<longleftrightarrow> xs = ys"
  "list_all (\<lambda>p. wf_json (snd p)) a \<Longrightarrow> wf_json (Object b) \<Longrightarrow> json_eq_entries a b \<longleftrightarrow> set a \<subseteq> set b"
proof (induction v w and xs ys and a b rule: json_eq_json_eq_list_json_eq_entries.induct)
  case (7 a w)
  then show ?case by (cases w) (auto dest: sorted_subset_eq)
next
  case (12 k v a b)
  then show ?case
    by (cases "bt_get k b") (auto simp: bt_get_in_iff dest: bt_get_Some_in wf_entry
        simp flip: bt_get_in_iff)
qed (auto split: json.splits)

lemma json_eq_iff: "wf_json v \<Longrightarrow> wf_json w \<Longrightarrow> json_eq v w \<longleftrightarrow> v = w"
  by (rule json_eq_iff_aux(1))

lemma json_eq_list_iff: "list_all wf_json xs \<Longrightarrow> list_all wf_json ys \<Longrightarrow> json_eq_list xs ys \<longleftrightarrow> xs = ys"
  by (rule json_eq_iff_aux(2))

section \<open>The order is a linear order whose equality is identity\<close>

fun reverse_ordering :: "ordering \<Rightarrow> ordering" where
  "reverse_ordering Less = Greater"
| "reverse_ordering Equal = Equal"
| "reverse_ordering Greater = Less"

lemma cmp_of_simps [simp]:
  "cmp_of a b = Less \<longleftrightarrow> a < b" "cmp_of a b = Equal \<longleftrightarrow> a = b" "cmp_of a b = Greater \<longleftrightarrow> b < a"
  by (auto simp: cmp_of_def)

lemma cmp_of_reverse: "cmp_of b a = reverse_ordering (cmp_of a b)"
  by (auto simp: cmp_of_def)

lemma sint_i64_inject: "sint (a :: i64) = sint b \<longleftrightarrow> a = b"
  by (auto intro: signed_word_eqI)

lemma json_cmp_Equal_aux:
  "json_cmp v w = Equal \<longleftrightarrow> v = w"
  "json_cmp_list xs ys = Equal \<longleftrightarrow> xs = ys"
  "json_cmp_entries a b = Equal \<longleftrightarrow> a = b"
  by (induction v w and xs ys and a b rule: json_cmp_json_cmp_list_json_cmp_entries.induct)
    (auto split: json.splits ordering.splits simp: sint_i64_inject)

lemma json_cmp_reverse_aux:
  "json_cmp w v = reverse_ordering (json_cmp v w)"
  "json_cmp_list ys xs = reverse_ordering (json_cmp_list xs ys)"
  "json_cmp_entries b a = reverse_ordering (json_cmp_entries a b)"
proof (induction v w and xs ys and a b rule: json_cmp_json_cmp_list_json_cmp_entries.induct)
  case (11 x xs y ys)
  then show ?case by (cases "json_cmp x y") auto
next
  case (15 ak av a bk bv b)
  then show ?case
    by (cases ak bk rule: linorder_cases; cases "json_cmp av bv") (auto simp: cmp_of_def)
qed (auto split: json.splits simp: cmp_of_def)


lemma json_cmp_self [simp]: "json_cmp v v = Equal"
  by (simp add: json_cmp_Equal_aux(1))

lemma json_cmp_list_Cons_Less:
  "json_cmp_list (x # xs) (y # ys) = Less \<longleftrightarrow>
     json_cmp x y = Less \<or> (x = y \<and> json_cmp_list xs ys = Less)"
  by (auto split: ordering.splits simp: json_cmp_Equal_aux(1))

lemma json_cmp_entries_Cons_Less:
  "json_cmp_entries ((ak, av) # a) ((bk, bv) # b) = Less \<longleftrightarrow>
     ak < bk \<or> (ak = bk \<and> (json_cmp av bv = Less \<or> (av = bv \<and> json_cmp_entries a b = Less)))"
  by (auto split: ordering.splits simp: json_cmp_Equal_aux(1))

lemma json_cmp_trans_aux:
  "json_cmp u v = Less \<Longrightarrow> json_cmp v w = Less \<Longrightarrow> json_cmp u w = Less"
  "json_cmp_list xs ys = Less \<Longrightarrow> json_cmp_list ys zs = Less \<Longrightarrow> json_cmp_list xs zs = Less"
  "json_cmp_entries a b = Less \<Longrightarrow> json_cmp_entries b c = Less \<Longrightarrow> json_cmp_entries a c = Less"
proof (induction u v and xs ys and a b arbitrary: w and zs and c
    rule: json_cmp_json_cmp_list_json_cmp_entries.induct)
  case (9 v va)
  then show ?case by (cases zs) auto
next
  case (11 x xs y ys)
  then show ?case
    by (cases zs) (auto simp: json_cmp_list_Cons_Less simp del: json_cmp_list.simps(4))
next
  case (13 v va)
  then show ?case by (cases c) auto
next
  case (15 ak av a bk bv b)
  then show ?case
    by (cases c) (auto simp: json_cmp_entries_Cons_Less simp del: json_cmp_entries.simps(4))
qed (auto split: json.splits)

lemmas json_cmp_order = json_cmp_Equal_aux(1) json_cmp_trans_aux(1)

instantiation json :: linorder
begin

definition less_json :: "json \<Rightarrow> json \<Rightarrow> bool" where
  "less_json v w = (json_cmp v w = Less)"

definition less_eq_json :: "json \<Rightarrow> json \<Rightarrow> bool" where
  "less_eq_json v w = (json_cmp v w \<noteq> Greater)"

instance
proof
  fix u v w :: json
  have rev: "json_cmp v u = reverse_ordering (json_cmp u v)" for u v
    by (rule json_cmp_reverse_aux(1))
  show "u < v \<longleftrightarrow> u \<le> v \<and> \<not> v \<le> u"
    by (cases "json_cmp u v") (auto simp: less_json_def less_eq_json_def rev [of v u])
  show "u \<le> u" by (simp add: less_eq_json_def json_cmp_order(1) [THEN iffD2])
  show "u \<le> v \<or> v \<le> u"
    by (cases "json_cmp u v") (auto simp: less_eq_json_def rev [of v u])
  show "u = v" if "u \<le> v" "v \<le> u"
    using that by (cases "json_cmp u v") (auto simp: less_eq_json_def rev [of v u] json_cmp_order(1))
  show "u \<le> w" if "u \<le> v" "v \<le> w"
    using that json_cmp_order(2) [of u v w]
    by (cases "json_cmp u v"; cases "json_cmp v w") (auto simp: less_eq_json_def json_cmp_order(1))
qed

end


section \<open>Well-formedness is preserved\<close>

lemma wf_map_simps [simp]: "wf_json (Object m) = wf_map m"
  by (simp add: wf_map_def)

declare wf_json.simps(2) [simp del]

lemma wf_map_iff: "wf_map m \<longleftrightarrow> bt_sorted m \<and> (\<forall>(k, v) \<in> set m. wf_json v)"
  unfolding wf_map_def wf_json.simps(2) by (auto simp: list_all_iff)

lemma wf_map_Nil [simp, wf_intros]: "wf_map []"
  by (simp add: wf_map_iff)

lemma wf_map_new [simp, wf_intros]: "wf_map bt_new"
  by (simp add: bt_new_def)

lemma wf_map_put [simp, wf_intros]: "wf_map m \<Longrightarrow> wf_json v \<Longrightarrow> wf_map (bt_put k v m)"
  using set_bt_put [of k v m] by (fastforce simp: wf_map_iff)

lemma wf_map_del [simp, wf_intros]: "wf_map m \<Longrightarrow> wf_map (bt_del k m)"
  using set_bt_del [of k m] by (fastforce simp: wf_map_iff)

lemma wf_map_get [wf_intros]: "wf_map m \<Longrightarrow> bt_get k m = Some v \<Longrightarrow> wf_json v"
  using bt_get_Some_in [of k m v] by (fastforce simp: wf_map_iff)

lemma wf_json_get [wf_intros]: "wf_json j \<Longrightarrow> json_get k j = Some v \<Longrightarrow> wf_json v"
  by (cases j) (auto intro: wf_map_get)

lemma wf_array_nth [wf_intros]: "list_all wf_json xs \<Longrightarrow> i < length xs \<Longrightarrow> wf_json (xs ! i)"
  by (simp add: list_all_length)

lemma wf_as_array [wf_intros]: "wf_json j \<Longrightarrow> as_array j = Some xs \<Longrightarrow> list_all wf_json xs"
  by (cases j) auto

lemma wf_as_object [wf_intros]: "wf_json j \<Longrightarrow> as_object j = Some m \<Longrightarrow> wf_map m"
  by (cases j) auto

lemma wf_empty_object [simp, wf_intros]: "wf_json empty_object"
  by (simp add: empty_object_def)

lemma wf_json_insert [wf_intros]: "wf_json j \<Longrightarrow> wf_json v \<Longrightarrow> wf_json (fst (json_insert k v j))"
  by (cases j) auto

lemma wf_json_remove [wf_intros]: "wf_json j \<Longrightarrow> wf_json (fst (json_remove k j))"
  by (cases j) auto

lemma wf_object_from_pairs [wf_intros]:
  assumes "\<forall>(k, v) \<in> set ps. wf_json v"
  shows "wf_json (object_from_pairs ps)"
proof -
  have "wf_map m \<Longrightarrow> wf_map (foldl (\<lambda>m (k, v). fst (bt_insert k v m)) m ps)" for m
    using assms by (induction ps arbitrary: m) (auto simp: bt_insert_def)
  then show ?thesis by (simp add: object_from_pairs_def)
qed

text \<open>A pair list builds the object whose last binding of a key wins.\<close>

lemma get_object_from_pairs: "json_get k (object_from_pairs ps) = map_of (rev ps) k"
  using btree.get_foldl_insert [OF btree.invar_empty, where j = k and ps = ps]
  by (auto simp: object_from_pairs_def bt_new_def split: option.splits)

section \<open>The printer writes string literals that read back\<close>

lemma hex_val_digit [simp]: "d < 16 \<Longrightarrow> hex_val (hex_digit d) = Some d"
  by (auto simp: hex_val_def hex_digit_def Let_def of_char_of)

lemma unescape_u_hex4:
  assumes "n < 32"
  shows "unescape_u (hex4 n @ r) = Some (char_of n, r)"
proof -
  have "n div 4096 mod 16 = 0" "n div 256 mod 16 = 0" "16 * (n div 16 mod 16) + n mod 16 = n"
    using assms by simp_all
  then show ?thesis using assms by (simp add: unescape_u_def hex4_def Let_def)
qed

lemma unescape_escape_char:
  "unescape_body (escape_char c @ t) = map_option (\<lambda>(s, r). (c # s, r)) (unescape_body t)"
  by (auto simp: escape_char_def simple_escape_def unescape_u_hex4)

lemma unescape_escape: "unescape_body (concat (map escape_char s) @ CHR 0x22 # r) = Some (s, r)"
  by (induction s) (auto simp: unescape_escape_char)

section \<open>Properties\<close>

text \<open>
  The hand-written \<open>PartialEq\<close> and \<open>Ord\<close> of values are consistent: equality decides structural
  equality on well-formed values, \<open>cmp\<close> returns \<open>Equal\<close> exactly on equal values, is antisymmetric
  under swapping, and \<open>Less\<close> is transitive, so \<open>Integer\<close> and \<open>U64\<close> of the same number stay distinct.
\<close>

theorem json_eq_and_cmp_consistent:
  assumes "wf_json u" "wf_json v"
  shows "(json_eq u v \<longleftrightarrow> u = v) \<and> (json_cmp u v = Equal \<longleftrightarrow> json_eq u v) \<and>
     json_cmp v u = reverse_ordering (json_cmp u v) \<and>
     (json_cmp u v = Less \<longrightarrow> json_cmp v w = Less \<longrightarrow> json_cmp u w = Less)"
proof (intro conjI impI)
  show "json_eq u v \<longleftrightarrow> u = v" using json_eq_iff [OF assms] .
  show "json_cmp u v = Equal \<longleftrightarrow> json_eq u v" using json_eq_iff [OF assms] by (simp only: json_cmp_Equal_aux(1))
  show "json_cmp v u = reverse_ordering (json_cmp u v)" by (rule json_cmp_reverse_aux(1))
  show "json_cmp u w = Less" if "json_cmp u v = Less" "json_cmp v w = Less"
    using that by (rule json_cmp_trans_aux(1))
qed

theorem json_eq_and_cmp_consistent_witness:
  "wf_json (Integer 5) \<and> wf_json (U64 5) \<and> (json_eq (Integer 5) (U64 5) \<longleftrightarrow> Integer 5 = U64 5)"
  using json_eq_and_cmp_consistent [of "Integer 5" "U64 5"] by simp

text \<open>
  Escaping round trip: a JSON reader of the printed literal gets the string back, whatever bytes
  it holds and whatever follows the literal; no character of the string can end the literal early.
\<close>

theorem escape_json_string_round_trip:
  "\<exists>body. escape_json_string s @ rest = CHR 0x22 # body \<and> unescape_body body = Some (s, rest)"
  by (intro exI [of _ "concat (map escape_char s) @ CHR 0x22 # rest"])
    (simp add: escape_json_string_def unescape_escape)

end
