(* ===== verification/Path.thy ===== *)
theory Path
  imports Json
begin

text \<open>
  Path syntax and path resolution, \<open>evorule-tcb/src/path.rs\<close>: the segment parser (dots, escapes,
  array indices), the read-only walk, the walk that yields a mutable reference, and the
  \<open>__exec__\<close>-relative resolution used by domains.  A mutable reference that is written through is
  modelled by passing the write as a function and returning the updated tree.
\<close>

datatype path_segment = Field string | Index "string option" usize

section \<open>The segment parser\<close>

text \<open>Scan to the closing bracket: the index text and what follows the bracket.\<close>

fun take_index :: "string \<Rightarrow> (string \<times> string) option" where
  "take_index [] = None"
| "take_index (c # cs) =
     (if c = CHR '']'' then Some ([], cs)
      else map_option (\<lambda>(idx, rest). (c # idx, rest)) (take_index cs))"

lemma take_index_length: "take_index cs = Some (idx, rest) \<Longrightarrow> length rest < length cs"
  by (induction cs arbitrary: idx) (fastforce split: if_splits)+

text \<open>
  The loop state: the remaining characters, the segments so far, the field name being read, the
  escape flag and the flag that the previous character closed an index.
\<close>

function (sequential) parse_loop ::
  "string \<Rightarrow> path_segment list \<Rightarrow> string \<Rightarrow> bool \<Rightarrow> bool \<Rightarrow> path_segment list option"
where
  "parse_loop [] segs current escaped just_closed =
     (if escaped then None
      else if current = [] \<and> \<not> just_closed then None
      else (let segs' = (if current \<noteq> [] then segs @ [Field current] else segs) in
            if segs' = [] then None else Some segs'))"
| "parse_loop (c # cs) segs current escaped just_closed =
     (if escaped then parse_loop cs segs (current @ [c]) False False
      else if c = CHR 0x5C then parse_loop cs segs current True just_closed
      else if c = CHR ''.'' then
        (if current = [] \<and> \<not> just_closed then None
         else parse_loop cs (if current \<noteq> [] then segs @ [Field current] else segs) [] False False)
      else if c = CHR ''['' then
        (case take_index cs of
           None \<Rightarrow> None
         | Some (idx_str, rest) \<Rightarrow>
             if idx_str = [] then None
             else (case parse_usize idx_str of
                     None \<Rightarrow> None
                   | Some idx \<Rightarrow>
                       if (case rest of [] \<Rightarrow> True | d # _ \<Rightarrow> d = CHR ''.'' \<or> d = CHR ''['')
                       then parse_loop rest
                              (segs @ [Index (if current = [] then None else Some current) idx])
                              [] False True
                       else None))
      else parse_loop cs segs (current @ [c]) False False)"
  by pat_completeness auto
termination
  by (relation "measure (\<lambda>(cs, _). length cs)") (auto dest: take_index_length)

definition parse_path_segments :: "string \<Rightarrow> path_segment list option" where
  "parse_path_segments path = parse_loop path [] [] False False"

section \<open>Resolution\<close>

fun walk :: "json \<Rightarrow> path_segment list \<Rightarrow> json option" where
  "walk current [] = Some current"
| "walk current (Field field # segs) =
     (case current of
        Object m \<Rightarrow> (case bt_get field m of None \<Rightarrow> None | Some v \<Rightarrow> walk v segs)
      | _ \<Rightarrow> None)"
| "walk current (Index field idx # segs) =
     (case (case field of
              Some f \<Rightarrow> (case current of Object m \<Rightarrow> bt_get f m | _ \<Rightarrow> None)
            | None \<Rightarrow> Some current) of
        Some (Array arr) \<Rightarrow> if idx < length arr then walk (arr ! idx) segs else None
      | _ \<Rightarrow> None)"

definition resolve_path :: "json \<Rightarrow> string \<Rightarrow> json option" where
  "resolve_path state path =
     (if path = [] then None
      else if ends_with_char (CHR ''.'') path then None
      else (case parse_path_segments path of None \<Rightarrow> None | Some segs \<Rightarrow> walk state segs))"

text \<open>\<open>resolve_path_mut_inner\<close>: follow the segments and write through the reference with \<open>f\<close>.\<close>

fun walk_mut :: "(json \<Rightarrow> json) \<Rightarrow> json \<Rightarrow> path_segment list \<Rightarrow> json option" where
  "walk_mut f state [] = Some (f state)"
| "walk_mut f state (Field field # rest) =
     (case state of
        Object m \<Rightarrow>
          (case bt_get field m of
             None \<Rightarrow> None
           | Some v \<Rightarrow> map_option (\<lambda>v'. Object (bt_put field v' m)) (walk_mut f v rest))
      | _ \<Rightarrow> None)"
| "walk_mut f state (Index (Some g) idx # rest) =
     (case state of
        Object m \<Rightarrow>
          (case bt_get g m of
             Some (Array arr) \<Rightarrow>
               if idx < length arr
               then map_option (\<lambda>v'. Object (bt_put g (Array (arr[idx := v'])) m))
                      (walk_mut f (arr ! idx) rest)
               else None
           | _ \<Rightarrow> None)
      | _ \<Rightarrow> None)"
| "walk_mut f state (Index None idx # rest) =
     (case state of
        Array arr \<Rightarrow>
          if idx < length arr
          then map_option (\<lambda>v'. Array (arr[idx := v'])) (walk_mut f (arr ! idx) rest)
          else None
      | _ \<Rightarrow> None)"

definition resolve_path_mut :: "(json \<Rightarrow> json) \<Rightarrow> json \<Rightarrow> string \<Rightarrow> json option" where
  "resolve_path_mut f state path =
     (if path = [] then None
      else if ends_with_char (CHR ''.'') path then None
      else (case parse_path_segments path of None \<Rightarrow> None | Some segs \<Rightarrow> walk_mut f state segs))"

definition resolve_exec_path :: "json \<Rightarrow> string \<Rightarrow> json option" where
  "resolve_exec_path state path =
     (let stripped = unwrap_or path (strip_prefix ''__exec__.'' path) in
      case json_get ''__exec__'' state of
        None \<Rightarrow> None
      | Some exec \<Rightarrow> resolve_path exec stripped)"

section \<open>The path printer, reference for the parser\<close>

definition escape_field :: "string \<Rightarrow> string" where
  "escape_field s =
     concat (map (\<lambda>c. if c = CHR 0x5C \<or> c = CHR ''.'' \<or> c = CHR ''['' then [CHR 0x5C, c] else [c]) s)"

fun segment_text :: "path_segment \<Rightarrow> string" where
  "segment_text (Field f) = escape_field f"
| "segment_text (Index None i) = ''['' @ dec_nat i @ '']''"
| "segment_text (Index (Some f) i) = escape_field f @ ''['' @ dec_nat i @ '']''"

definition print_path :: "path_segment list \<Rightarrow> string" where
  "print_path segs = join_on (CHR ''.'') (map segment_text segs)"

fun wf_segment :: "path_segment \<Rightarrow> bool" where
  "wf_segment (Field f) = (f \<noteq> [])"
| "wf_segment (Index None i) = (i \<le> USIZE_MAX)"
| "wf_segment (Index (Some f) i) = (f \<noteq> [] \<and> i \<le> USIZE_MAX)"

section \<open>The parser\<close>

text \<open>Every accepted path is a non-empty list of segments with non-empty names and \<open>usize\<close> indices.\<close>

lemma parse_loop_wf:
  "parse_loop cs segs current esc jc = Some r \<Longrightarrow> list_all wf_segment segs \<Longrightarrow>
   r \<noteq> [] \<and> list_all wf_segment r"
proof (induction cs segs current esc jc rule: parse_loop.induct)
  case (1 segs current escaped just_closed)
  then show ?case by (auto simp: Let_def split: if_splits)
next
  case (2 c cs segs current escaped just_closed)
  from 2 show ?case
    by (auto simp: parse_loop.simps(2) [of c cs segs current escaped just_closed]
        simp del: parse_loop.simps split: if_splits option.splits list.splits)
      (use parse_usize_bound in blast)+
qed

lemma parse_escape_field:
  "parse_loop (escape_field f @ cs) segs current False jc =
     parse_loop cs segs (current @ f) False (if f = [] then jc else False)"
proof (induction f arbitrary: current jc)
  case Nil
  then show ?case by (simp add: escape_field_def)
next
  case (Cons c f)
  have "escape_field (c # f) @ cs =
      (if c = CHR 0x5C \<or> c = CHR ''.'' \<or> c = CHR ''['' then [CHR 0x5C, c] else [c]) @ escape_field f @ cs"
    by (simp add: escape_field_def)
  with Cons show ?case by auto
qed

lemma take_index_digits:
  "CHR '']'' \<notin> set ds \<Longrightarrow> take_index (ds @ CHR '']'' # rest) = Some (ds, rest)"
  by (induction ds) auto

lemma bracket_not_in_dec_nat: "CHR '']'' \<notin> set (dec_nat i)"
  using dec_nat_digits [of i] by (auto simp: list_all_iff is_digit_def)

lemma parse_index_text:
  assumes "i \<le> USIZE_MAX" "rest = [] \<or> hd rest = CHR ''.''"
  shows "parse_loop (''['' @ dec_nat i @ '']'' @ rest) segs current False jc =
     parse_loop rest (segs @ [Index (if current = [] then None else Some current) i]) [] False True"
  using assms take_index_digits [OF bracket_not_in_dec_nat, of i rest]
  by (cases rest) (auto simp: parse_usize_dec_nat)

text \<open>One printed segment is consumed, up to the separator or the end of the path.\<close>

lemma parse_segment_end:
  "wf_segment s \<Longrightarrow> parse_loop (segment_text s) segs [] False jc = Some (segs @ [s])"
  using parse_escape_field [of _ "''''"] parse_index_text [of _ "''''"]
  by (cases s rule: segment_text.cases)
    (simp_all add: parse_escape_field Let_def parse_index_text [of _ "''''", simplified])

lemma parse_segment_sep:
  assumes "wf_segment s"
  shows "parse_loop (segment_text s @ CHR ''.'' # cs) segs [] False jc =
     parse_loop cs (segs @ [s]) [] False False"
  using assms parse_index_text [where rest = "CHR ''.'' # cs"]
  by (cases s rule: segment_text.cases) (simp_all add: parse_escape_field)

lemma parse_print_loop:
  "ss \<noteq> [] \<Longrightarrow> list_all wf_segment ss \<Longrightarrow>
   parse_loop (join_on (CHR ''.'') (map segment_text ss)) segs [] False jc = Some (segs @ ss)"
proof (induction ss arbitrary: segs jc)
  case Nil
  then show ?case by simp
next
  case (Cons s ss)
  show ?case
  proof (cases ss)
    case Nil
    with Cons.prems show ?thesis by (simp add: parse_segment_end)
  next
    case (Cons t ts)
    with Cons.prems Cons.IH [of "segs @ [s]" False] show ?thesis
      by (simp add: parse_segment_sep)
  qed
qed

lemma parse_print_path:
  "segs \<noteq> [] \<Longrightarrow> list_all wf_segment segs \<Longrightarrow> parse_path_segments (print_path segs) = Some segs"
  by (simp add: parse_path_segments_def print_path_def parse_print_loop)

lemma parse_path_segments_wf:
  "parse_path_segments p = Some segs \<Longrightarrow> segs \<noteq> [] \<and> list_all wf_segment segs"
  by (auto simp: parse_path_segments_def dest!: parse_loop_wf)

lemma parse_exec_payload [simp]:
  "parse_path_segments ''__exec__.payload'' = Some [Field ''__exec__'', Field ''payload'']"
  by (simp add: parse_path_segments_def)

lemma parse_exec_queue [simp]:
  "parse_path_segments ''__exec__.queue'' = Some [Field ''__exec__'', Field ''queue'']"
  by (simp add: parse_path_segments_def)

section \<open>Walking\<close>

lemma walk_append:
  "walk j (p @ q) = (case walk j p of None \<Rightarrow> None | Some v \<Rightarrow> walk v q)"
  by (induction j p rule: walk.induct) (auto split: json.splits option.splits)

lemma walk_wf [wf_intros]: "walk j segs = Some v \<Longrightarrow> wf_json j \<Longrightarrow> wf_json v"
  by (induction j segs rule: walk.induct)
    (auto split: json.splits option.splits if_splits intro: wf_map_get dest: wf_map_get
      simp: list_all_length)

lemma walk_mut_defined: "walk_mut f j segs = None \<longleftrightarrow> walk j segs = None"
  by (induction f j segs rule: walk_mut.induct) (auto split: json.splits option.splits)

text \<open>Reading back at the written path yields the written value.\<close>

lemma walk_walk_mut:
  "walk_mut f j segs = Some j' \<Longrightarrow> walk j' segs = map_option f (walk j segs)"
  by (induction f j segs arbitrary: j' rule: walk_mut.induct)
    (auto split: json.splits option.splits if_splits)

lemma walk_mut_wf [wf_intros]:
  "walk_mut f j segs = Some j' \<Longrightarrow> wf_json j \<Longrightarrow> (\<And>v. wf_json v \<Longrightarrow> wf_json (f v)) \<Longrightarrow> wf_json j'"
proof (induction f j segs arbitrary: j' rule: walk_mut.induct)
  case (2 f state field rest)
  then show ?case
    by (fastforce split: json.splits option.splits intro!: wf_map_put dest: wf_map_get)
next
  case (3 f state g idx rest)
  then show ?case
    by (fastforce split: json.splits option.splits if_splits intro!: wf_map_put dest: wf_map_get
        simp: list_all_length nth_list_update)
next
  case (4 f state idx rest)
  then show ?case
    by (fastforce split: json.splits if_splits simp: list_all_length nth_list_update)
qed auto

fun seg_head :: "path_segment \<Rightarrow> string option" where
  "seg_head (Field f) = Some f"
| "seg_head (Index f i) = f"

lemma walk_mut_object:
  assumes "walk_mut f j (s # q) = Some j'" "seg_head s = Some a"
  shows "\<exists>m v. j = Object m \<and> j' = Object (bt_put a v m)"
  using assms by (cases s) (auto split: json.splits option.splits if_splits)

lemma walk_head: "seg_head s = Some b \<Longrightarrow> bt_get b m = bt_get b m' \<Longrightarrow>
    walk (Object m) (s # r) = walk (Object m') (s # r)"
  by (cases s) auto

text \<open>A write leaves every path that forks off at another field name untouched.\<close>

lemma walk_mut_frame:
  assumes "walk_mut f j (p @ s # q) = Some j'"
    and "seg_head s = Some a" "seg_head t = Some b" "a \<noteq> b"
  shows "walk j' (p @ t # r) = walk j (p @ t # r)"
  using assms
proof (induction p arbitrary: j j')
  case Nil
  then obtain m v where j: "j = Object m" "j' = Object (bt_put a v m)"
    using walk_mut_object [of f j s q j' a] by (metis append_Nil)
  have "walk (Object (bt_put a v m)) (t # r) = walk (Object m) (t # r)"
    using Nil.prems by (intro walk_head [where b = b]) auto
  then show ?case by (simp only: j append_Nil)
next
  case (Cons u p)
  then show ?case
    by (cases "(f, j, u # p)" rule: walk_mut.cases)
      (auto split: json.splits option.splits if_splits)
qed

lemma resolve_path_wf [wf_intros]: "resolve_path j p = Some v \<Longrightarrow> wf_json j \<Longrightarrow> wf_json v"
  by (auto simp: resolve_path_def split: if_splits option.splits intro: walk_wf)

lemma resolve_exec_path_wf [wf_intros]: "resolve_exec_path j p = Some v \<Longrightarrow> wf_json j \<Longrightarrow> wf_json v"
  by (auto simp: resolve_exec_path_def Let_def split: option.splits
      dest!: resolve_path_wf intro: wf_json_get)

lemma resolve_path_mut_wf [wf_intros]:
  "resolve_path_mut f j p = Some j' \<Longrightarrow> wf_json j \<Longrightarrow> (\<And>v. wf_json v \<Longrightarrow> wf_json (f v)) \<Longrightarrow> wf_json j'"
  by (auto simp: resolve_path_mut_def split: if_splits option.splits intro: walk_mut_wf)

lemma resolve_path_mut_defined: "resolve_path_mut f j p = None \<longleftrightarrow> resolve_path j p = None"
  by (auto simp: resolve_path_mut_def resolve_path_def walk_mut_defined split: option.splits)

lemma resolve_path_mut_read:
  "resolve_path_mut f j p = Some j' \<Longrightarrow> resolve_path j' p = map_option f (resolve_path j p)"
  by (auto simp: resolve_path_mut_def resolve_path_def split: if_splits option.splits
      dest: walk_walk_mut)

lemma resolve_exec_payload:
  "resolve_path (Object [(''__exec__'', Object m)]) ''__exec__.payload'' = bt_get ''payload'' m"
  "resolve_path (Object [(''__exec__'', Object m)]) ''__exec__.queue'' = bt_get ''queue'' m"
  by (auto simp: resolve_path_def ends_with_char_def split: option.splits)

section \<open>Properties\<close>

text \<open>
  The path parser inverts path printing: every sequence of segments with non-empty names and
  \<open>usize\<close> indices is what the parser reads from its text, dots, brackets and backslashes in names
  included, and whatever the parser accepts is such a sequence.
\<close>

theorem path_parse_print:
  "(\<forall>segs. segs \<noteq> [] \<and> list_all wf_segment segs \<longrightarrow> parse_path_segments (print_path segs) = Some segs) \<and>
   (\<forall>p segs. parse_path_segments p = Some segs \<longrightarrow> segs \<noteq> [] \<and> list_all wf_segment segs)"
  using parse_print_path parse_path_segments_wf by blast

theorem path_parse_print_witness:
  "parse_path_segments (print_path [Field ''a.b'', Index (Some ''c'') 3]) = Some [Field ''a.b'', Index (Some ''c'') 3]"
  using path_parse_print by (simp add: USIZE_MAX_def)

text \<open>
  \<open>resolve_path_mut\<close> reaches exactly what \<open>resolve_path\<close> reads: it finds a place if and only if the
  path reads a value, and after a write through the reference the path reads the written value.
\<close>

theorem resolve_path_mut_agrees:
  "(resolve_path_mut f j p = None \<longleftrightarrow> resolve_path j p = None) \<and>
   (case resolve_path_mut f j p of
      None \<Rightarrow> True
    | Some j' \<Rightarrow> resolve_path j' p = map_option f (resolve_path j p))"
  using resolve_path_mut_defined resolve_path_mut_read by (auto split: option.splits)

text \<open>
  A field whose name ends in a dot can be named but not read.  The escape \<open>a\.\<close> is a valid path
  of the parser, which \<open>set\<close> uses to write, but both resolvers refuse every path text that ends in a
  dot before parsing it, so no such field is ever read back.
\<close>

theorem escaped_trailing_dot_unreadable:
  "parse_path_segments [CHR ''a'', CHR 0x5C, CHR ''.''] = Some [Field ''a.''] \<and>
   walk (Object [(''a.'', Bool True)]) [Field ''a.''] = Some (Bool True) \<and>
   resolve_path (Object [(''a.'', Bool True)]) [CHR ''a'', CHR 0x5C, CHR ''.''] = None"
  by code_simp

end
