(* ===== verification/Domain.thy ===== *)
theory Domain
  imports Path
begin

text \<open>
  The kernel's error type (\<open>evorule-tcb/src/error.rs\<close>) and the domain evaluator
  (\<open>evorule-tcb/src/domain.rs\<close>): the eight domain types, the three-valued outcome, the
  \<open>on_missing\<close> declaration and the recursion bound \<open>MAX_DOMAIN_DEPTH\<close>.
\<close>

section \<open>Errors\<close>

datatype tcb_error =
    MissingField string
  | UnknownMetaInstruction string
  | UnknownDomainType string
  | UnknownOperation string
  | InvalidState string
  | InvalidType string string string
  | PathResolutionFailed string string
  | NestingTooDeep usize
  | IntegerOverflow string i64 i64
  | TooManyTransformRules usize usize
  | TooManyExecutedInstructions usize
  | MissingRejected string

type_synonym 'a tcb = "tcb_error + 'a"

fun tcb_error_display :: "tcb_error \<Rightarrow> string" where
  "tcb_error_display (MissingField field) = ''missing field: '' @ field"
| "tcb_error_display (UnknownMetaInstruction t) = ''unknown meta instruction: '' @ t"
| "tcb_error_display (UnknownDomainType t) = ''unknown domain type: '' @ t"
| "tcb_error_display (UnknownOperation op) = ''unknown operation: '' @ op"
| "tcb_error_display (InvalidState reason) = ''invalid state: '' @ reason"
| "tcb_error_display (InvalidType expected actual context) =
     ''type mismatch in '' @ [CHR 0x27] @ context @ [CHR 0x27] @ '': expected '' @ expected @ '', got '' @ actual"
| "tcb_error_display (PathResolutionFailed path reason) =
     ''path resolution failed: '' @ path @ '' - '' @ reason"
| "tcb_error_display (NestingTooDeep limit) =
     ''branch nesting depth exceeds limit ('' @ dec_nat limit @ '')''"
| "tcb_error_display (IntegerOverflow op l r) =
     ''integer overflow: '' @ dec_int (sint l) @ '' '' @ op @ '' '' @ dec_int (sint r)"
| "tcb_error_display (TooManyTransformRules limit actual) =
     ''core_eval transform rules exceed limit: '' @ dec_nat actual @ '' > '' @ dec_nat limit"
| "tcb_error_display (TooManyExecutedInstructions limit) =
     ''total executed meta instructions exceed limit ('' @ dec_nat limit @ '')''"
| "tcb_error_display (MissingRejected detail) =
     ''domain missing rejected by on_missing=error declaration: '' @ detail"

fun json_type_name :: "json \<Rightarrow> string" where
  "json_type_name Null = ''null''"
| "json_type_name (Bool _) = ''boolean''"
| "json_type_name (Integer _) = ''integer''"
| "json_type_name (U64 _) = ''u64''"
| "json_type_name (String _) = ''string''"
| "json_type_name (Array _) = ''array''"
| "json_type_name (Object _) = ''object''"

section \<open>Outcomes\<close>

definition MAX_DOMAIN_DEPTH :: usize where
  "MAX_DOMAIN_DEPTH = 64"

datatype missing_reason = PathNotFound | Incomparable | ValueLiteralAmbiguous

datatype domain_outcome = Sat | Unsat | Missing missing_reason

fun missing_reason_label :: "missing_reason \<Rightarrow> string" where
  "missing_reason_label PathNotFound = ''path_not_found''"
| "missing_reason_label Incomparable = ''incomparable''"
| "missing_reason_label ValueLiteralAmbiguous = ''value_literal_ambiguous''"

fun to_bool :: "domain_outcome \<Rightarrow> bool" where
  "to_bool Sat = True" | "to_bool _ = False"

fun outcome_label :: "domain_outcome \<Rightarrow> string" where
  "outcome_label Sat = ''sat''"
| "outcome_label Unsat = ''unsat''"
| "outcome_label (Missing _) = ''missing''"

fun outcome_missing_reason :: "domain_outcome \<Rightarrow> string option" where
  "outcome_missing_reason (Missing r) = Some (missing_reason_label r)"
| "outcome_missing_reason _ = None"

definition from_bool :: "bool \<Rightarrow> domain_outcome" where
  "from_bool b = (if b then Sat else Unsat)"

record domain_attribution =
  outcome :: domain_outcome
  on_missing :: "string option"

section \<open>Value references and the \<open>on_missing\<close> declaration\<close>

definition is_ascii_word :: "char \<Rightarrow> bool" where
  "is_ascii_word b =
     (let n = (of_char b :: nat) in
      (48 \<le> n \<and> n \<le> 57) \<or> (65 \<le> n \<and> n \<le> 90) \<or> (97 \<le> n \<and> n \<le> 122) \<or> b = CHR ''_'')"

definition is_root_segment_dot_path :: "string \<Rightarrow> bool" where
  "is_root_segment_dot_path s =
     (case split_on (CHR ''.'') s of
        [] \<Rightarrow> False
      | root # parts \<Rightarrow>
          (if root = ''instruction'' \<or> root = ''payload'' \<or> root = ''queue''
           then list_all (\<lambda>seg. seg \<noteq> [] \<and> list_all is_ascii_word seg) parts \<and> 1 \<le> length parts
           else False))"

datatype on_missing_policy = PolicyError | PolicyUnsat

fun policy_label :: "on_missing_policy \<Rightarrow> string" where
  "policy_label PolicyError = ''error''"
| "policy_label PolicyUnsat = ''unsat''"

definition parse_on_missing :: "json \<Rightarrow> on_missing_policy option tcb" where
  "parse_on_missing domain =
     (case json_get ''on_missing'' domain of
        None \<Rightarrow> Inr None
      | Some v \<Rightarrow>
          (if as_str v = Some ''error'' then Inr (Some PolicyError)
           else if as_str v = Some ''unsat'' then Inr (Some PolicyUnsat)
           else Inl (InvalidType
                  ([CHR 0x22] @ ''error'' @ [CHR 0x22] @ '' | '' @ [CHR 0x22] @ ''unsat'' @ [CHR 0x22])
                  (json_type_name v) ''on_missing'')))"

definition dispatch_missing ::
  "on_missing_policy option \<Rightarrow> missing_reason \<Rightarrow> string \<Rightarrow> domain_outcome tcb" where
  "dispatch_missing policy reason context =
     (case policy of
        Some PolicyError \<Rightarrow> Inl (MissingRejected (missing_reason_label reason @ '': '' @ context))
      | _ \<Rightarrow> Inr (Missing reason))"

definition value_context :: "json \<Rightarrow> string" where
  "value_context v = unwrap_or ''?'' (as_str v)"

definition resolve_domain_path :: "json \<Rightarrow> string \<Rightarrow> json option" where
  "resolve_domain_path exec_state path = resolve_exec_path exec_state path"

definition resolve_value_reference_outcome :: "json \<Rightarrow> json \<Rightarrow> missing_reason + json" where
  "resolve_value_reference_outcome v exec_state =
     (case v of
        String s \<Rightarrow>
          (if starts_with ''__'' s then ok_or PathNotFound (resolve_domain_path exec_state s)
           else if is_root_segment_dot_path s then Inl ValueLiteralAmbiguous
           else Inr v)
      | _ \<Rightarrow> Inr v)"

definition declared_on_missing :: "json \<Rightarrow> string option" where
  "declared_on_missing domain =
     (case parse_on_missing domain of
        Inl _ \<Rightarrow> None
      | Inr p \<Rightarrow> map_option policy_label p)"

section \<open>The evaluators of the leaf domains\<close>

definition get_str_field :: "json \<Rightarrow> string \<Rightarrow> string tcb" where
  "get_str_field domain field =
     and_then (ok_or (MissingField field) (json_get field domain)) (\<lambda>v.
     ok_or (InvalidType ''string'' (json_type_name v) field) (as_str v))"

definition evaluate_eq_outcome :: "json \<Rightarrow> json \<Rightarrow> domain_outcome tcb" where
  "evaluate_eq_outcome domain exec_state =
     and_then (parse_on_missing domain) (\<lambda>policy.
     and_then (get_str_field domain ''path'') (\<lambda>path.
     and_then (ok_or (MissingField ''value'') (json_get ''value'' domain)) (\<lambda>v.
     case resolve_value_reference_outcome v exec_state of
       Inl reason \<Rightarrow> dispatch_missing policy reason (value_context v)
     | Inr target \<Rightarrow>
         (case resolve_domain_path exec_state path of
            Some actual \<Rightarrow> Inr (if json_eq actual target then Sat else Unsat)
          | None \<Rightarrow> dispatch_missing policy PathNotFound path))))"

definition evaluate_eq :: "json \<Rightarrow> json \<Rightarrow> bool tcb" where
  "evaluate_eq domain exec_state = map_ok to_bool (evaluate_eq_outcome domain exec_state)"

definition evaluate_lt_outcome :: "json \<Rightarrow> json \<Rightarrow> domain_outcome tcb" where
  "evaluate_lt_outcome domain exec_state =
     and_then (parse_on_missing domain) (\<lambda>policy.
     and_then (get_str_field domain ''path'') (\<lambda>path.
     and_then (ok_or (MissingField ''value'') (json_get ''value'' domain)) (\<lambda>v.
     case resolve_value_reference_outcome v exec_state of
       Inl reason \<Rightarrow> dispatch_missing policy reason (value_context v)
     | Inr target \<Rightarrow>
         (case resolve_domain_path exec_state path of
            None \<Rightarrow> dispatch_missing policy PathNotFound path
          | Some actual \<Rightarrow>
              (case (as_i64 actual, as_i64 target) of
                 (Some a, Some t) \<Rightarrow> Inr (if sint a < sint t then Sat else Unsat)
               | _ \<Rightarrow> dispatch_missing policy Incomparable path)))))"

text \<open>The scan of the literals of an \<open>in\<close> domain for a string that looks like a path.\<close>

fun first_ambiguous :: "json list \<Rightarrow> string option" where
  "first_ambiguous [] = None"
| "first_ambiguous (item # items) =
     (case item of
        String s \<Rightarrow> if is_root_segment_dot_path s then Some s else first_ambiguous items
      | _ \<Rightarrow> first_ambiguous items)"

definition evaluate_in_outcome :: "json \<Rightarrow> json \<Rightarrow> domain_outcome tcb" where
  "evaluate_in_outcome domain exec_state =
     and_then (parse_on_missing domain) (\<lambda>policy.
     and_then (get_str_field domain ''path'') (\<lambda>path.
     and_then (ok_or (MissingField ''values'') (json_get ''values'' domain)) (\<lambda>values.
     and_then (ok_or (InvalidType ''array'' (json_type_name values) ''in.values'') (as_array values)) (\<lambda>arr.
     case first_ambiguous arr of
       Some s \<Rightarrow> dispatch_missing policy ValueLiteralAmbiguous s
     | None \<Rightarrow>
         (case resolve_domain_path exec_state path of
            None \<Rightarrow> dispatch_missing policy PathNotFound path
          | Some actual \<Rightarrow> Inr (if list_ex (\<lambda>v. json_eq v actual) arr then Sat else Unsat))))))"

definition evaluate_exists :: "json \<Rightarrow> json \<Rightarrow> bool tcb" where
  "evaluate_exists domain exec_state =
     and_then (get_str_field domain ''path'') (\<lambda>path.
     Inr (case resolve_domain_path exec_state path of
            Some Null \<Rightarrow> False
          | None \<Rightarrow> False
          | Some _ \<Rightarrow> True))"

definition evaluate_instruction_eq :: "json \<Rightarrow> json \<Rightarrow> bool tcb" where
  "evaluate_instruction_eq domain exec_state =
     and_then (get_str_field domain ''instruction_type'') (\<lambda>instr_type.
     let current = do {
       e \<leftarrow> json_get ''__exec__'' exec_state;
       i \<leftarrow> json_get ''instruction'' e;
       v \<leftarrow> json_get ''type'' i;
       as_str v }
     in Inr (current = Some instr_type))"

text \<open>The loop of \<open>has_fields\<close> over the required field names.\<close>

fun has_fields_loop :: "object_map \<Rightarrow> json list \<Rightarrow> bool tcb" where
  "has_fields_loop obj [] = Inr True"
| "has_fields_loop obj (field_value # field_values) =
     and_then (ok_or (InvalidType ''string'' (json_type_name field_value) ''has_fields.fields element'')
                (as_str field_value)) (\<lambda>field_name.
     case bt_get field_name obj of
       None \<Rightarrow> Inr False
     | Some v \<Rightarrow>
         (if as_array v = Some [] then Inr False
          else if is_null v then Inr False
          else has_fields_loop obj field_values))"

definition evaluate_has_fields :: "json \<Rightarrow> json \<Rightarrow> bool tcb" where
  "evaluate_has_fields domain exec_state =
     and_then (get_str_field domain ''path'') (\<lambda>path.
     and_then (ok_or (MissingField ''fields'') (json_get ''fields'' domain)) (\<lambda>fields_val.
     and_then (ok_or (InvalidType ''array'' (json_type_name fields_val) ''has_fields.fields'')
                (as_array fields_val)) (\<lambda>field_values.
     if field_values = [] then Inl (InvalidType ''non-empty array'' ''empty array'' ''has_fields.fields'')
     else (case resolve_domain_path exec_state path of
             None \<Rightarrow> Inr False
           | Some target \<Rightarrow>
               (case as_object target of
                  None \<Rightarrow> Inr False
                | Some obj \<Rightarrow> has_fields_loop obj field_values)))))"

section \<open>The recursive evaluator\<close>

text \<open>
  \<open>all\<close> and \<open>not\<close> recurse into their inner domains one level deeper.  The recursion is on the
  domain value itself, whose components are smaller, so it ends whatever the depth is; the guard
  against \<open>MAX_DOMAIN_DEPTH\<close> bounds the stack, not the termination.
\<close>

lemma size_bt_get: "bt_get k m = Some v \<Longrightarrow> size v < size_list (size_prod (\<lambda>_. 0) size) m"
  by (induction m) (auto split: if_splits)

lemma size_json_get: "json_get k d = Some v \<Longrightarrow> size v < size d"
  by (cases d) (auto dest: size_bt_get)

lemma size_as_array: "as_array v = Some xs \<Longrightarrow> size_list size xs < size v"
  by (cases v) auto

function (sequential) evaluate_domain_outcome_inner :: "json \<Rightarrow> json \<Rightarrow> usize \<Rightarrow> domain_outcome tcb"
  and evaluate_all_outcome :: "json \<Rightarrow> json \<Rightarrow> usize \<Rightarrow> domain_outcome tcb"
  and all_loop :: "json list \<Rightarrow> json \<Rightarrow> usize \<Rightarrow> domain_outcome tcb"
  and evaluate_not_outcome :: "json \<Rightarrow> json \<Rightarrow> usize \<Rightarrow> domain_outcome tcb"
where
  "evaluate_domain_outcome_inner domain exec_state depth =
     (if depth > MAX_DOMAIN_DEPTH then Inl (NestingTooDeep MAX_DOMAIN_DEPTH)
      else and_then (get_str_field domain ''type'') (\<lambda>domain_type.
        if domain_type = ''eq'' then evaluate_eq_outcome domain exec_state
        else if domain_type = ''lt'' then evaluate_lt_outcome domain exec_state
        else if domain_type = ''in'' then evaluate_in_outcome domain exec_state
        else if domain_type = ''exists'' then map_ok from_bool (evaluate_exists domain exec_state)
        else if domain_type = ''instruction'' then map_ok from_bool (evaluate_instruction_eq domain exec_state)
        else if domain_type = ''all'' then evaluate_all_outcome domain exec_state depth
        else if domain_type = ''not'' then evaluate_not_outcome domain exec_state depth
        else if domain_type = ''has_fields'' then map_ok from_bool (evaluate_has_fields domain exec_state)
        else Inl (UnknownDomainType domain_type)))"
| "evaluate_all_outcome domain exec_state depth =
     and_then (ok_or (MissingField ''inner'') (json_get ''inner'' domain)) (\<lambda>inner.
     and_then (ok_or (InvalidType ''array'' (json_type_name inner) ''all.inner'') (as_array inner)) (\<lambda>arr.
     all_loop arr exec_state depth))"
| "all_loop [] exec_state depth = Inr Sat"
| "all_loop (sub_domain # arr) exec_state depth =
     and_then (evaluate_domain_outcome_inner sub_domain exec_state (depth + 1)) (\<lambda>r.
     case r of Sat \<Rightarrow> all_loop arr exec_state depth | _ \<Rightarrow> Inr r)"
| "evaluate_not_outcome domain exec_state depth =
     and_then (ok_or (MissingField ''inner'') (json_get ''inner'' domain)) (\<lambda>inner.
     and_then (evaluate_domain_outcome_inner inner exec_state (depth + 1)) (\<lambda>r.
     Inr (case r of Sat \<Rightarrow> Unsat | Unsat \<Rightarrow> Sat | Missing m \<Rightarrow> Missing m)))"
  by pat_completeness auto
termination
  by (relation "measure (\<lambda>x. case x of
        Inl (Inl (d, s, depth)) \<Rightarrow> 2 * size d + 1
      | Inl (Inr (d, s, depth)) \<Rightarrow> 2 * size d
      | Inr (Inl (ds, s, depth)) \<Rightarrow> 2 * size_list size ds
      | Inr (Inr (d, s, depth)) \<Rightarrow> 2 * size d)")
    (auto simp: result_simps dest!: size_json_get size_as_array)

declare evaluate_domain_outcome_inner.simps [simp del] evaluate_all_outcome.simps [simp del]
  evaluate_not_outcome.simps [simp del]

definition evaluate_domain :: "json \<Rightarrow> json \<Rightarrow> bool tcb" where
  "evaluate_domain domain exec_state = map_ok to_bool (evaluate_domain_outcome_inner domain exec_state 0)"

definition evaluate_domain_outcome :: "json \<Rightarrow> json \<Rightarrow> domain_outcome tcb" where
  "evaluate_domain_outcome domain exec_state = evaluate_domain_outcome_inner domain exec_state 0"

section \<open>Reference notions for the properties\<close>

text \<open>A \<open>not\<close> domain around \<open>d\<close>, an \<open>all\<close> domain over \<open>ds\<close>, and the three-valued complement.\<close>

definition not_domain :: "json \<Rightarrow> json" where
  "not_domain d = object_from_pairs [(''type'', String ''not''), (''inner'', d)]"

definition all_domain :: "json list \<Rightarrow> json" where
  "all_domain ds = object_from_pairs [(''type'', String ''all''), (''inner'', Array ds)]"

fun negate_outcome :: "domain_outcome \<Rightarrow> domain_outcome" where
  "negate_outcome Sat = Unsat"
| "negate_outcome Unsat = Sat"
| "negate_outcome (Missing m) = Missing m"

text \<open>
  Every \<open>eq\<close>, \<open>lt\<close> and \<open>in\<close> below the domain declares \<open>on_missing: error\<close>: the authoring
  discipline under which a missing value is an error.
\<close>

function strict_domain :: "json \<Rightarrow> bool" where
  "strict_domain d =
     (case json_get ''type'' d of
        Some (String t) \<Rightarrow>
          if t \<in> {''eq'', ''lt'', ''in''} then json_get ''on_missing'' d = Some (String ''error'')
          else if t = ''not'' then
            (case json_get ''inner'' d of Some i \<Rightarrow> strict_domain i | None \<Rightarrow> True)
          else if t = ''all'' then
            (case json_get ''inner'' d of Some (Array xs) \<Rightarrow> (\<forall>x \<in> set xs. strict_domain x) | _ \<Rightarrow> True)
          else True
      | _ \<Rightarrow> True)"
  by pat_completeness auto
termination
  by (relation "measure size") (auto dest!: size_json_get dest: size_list_estimation' [where f = size, OF _ order_refl])

declare strict_domain.simps [simp del]

section \<open>Lemmas\<close>

lemmas leaf_defs = evaluate_eq_outcome_def evaluate_lt_outcome_def evaluate_in_outcome_def
  evaluate_exists_def evaluate_instruction_eq_def evaluate_has_fields_def

lemma from_bool_not_Missing [simp]: "from_bool b \<noteq> Missing r" "Missing r \<noteq> from_bool b"
  by (auto simp: from_bool_def split: if_splits)

lemma to_bool_iff [simp]: "to_bool r \<longleftrightarrow> r = Sat"
  by (cases r) auto

lemma from_bool_Sat [simp]: "from_bool b = Sat \<longleftrightarrow> b" "from_bool b = Unsat \<longleftrightarrow> \<not> b"
  by (simp_all add: from_bool_def)

lemma evaluate_not_negates:
  "evaluate_not_outcome d s n =
     and_then (ok_or (MissingField ''inner'') (json_get ''inner'' d)) (\<lambda>i.
     map_ok negate_outcome (evaluate_domain_outcome_inner i s (n + 1)))"
  by (auto simp: evaluate_not_outcome.simps and_then_def map_ok_def split: sum.splits domain_outcome.splits)

lemma all_loop_Sat:
  "all_loop ds s n = Inr Sat \<longleftrightarrow> (\<forall>d \<in> set ds. evaluate_domain_outcome_inner d s (n + 1) = Inr Sat)"
proof (induction ds)
  case (Cons d ds)
  then show ?case
    by (cases "evaluate_domain_outcome_inner d s (n + 1)") (auto split: domain_outcome.splits)
qed simp

text \<open>The first member that is not \<open>Sat\<close> decides: later members are not evaluated.\<close>

lemma all_loop_append:
  "all_loop (ds @ es) s n = and_then (all_loop ds s n) (\<lambda>r. if r = Sat then all_loop es s n else Inr r)"
  by (induction ds) (auto simp: and_then_def split: sum.splits domain_outcome.splits)

lemma not_domain_fields [simp]:
  "json_get ''type'' (not_domain d) = Some (String ''not'')"
  "json_get ''inner'' (not_domain d) = Some d"
  by (simp_all add: not_domain_def get_object_from_pairs)

lemma all_domain_fields [simp]:
  "json_get ''type'' (all_domain ds) = Some (String ''all'')"
  "json_get ''inner'' (all_domain ds) = Some (Array ds)"
  by (simp_all add: all_domain_def get_object_from_pairs)

lemma evaluate_not_domain:
  "evaluate_domain_outcome_inner (not_domain d) s n =
     (if n > MAX_DOMAIN_DEPTH then Inl (NestingTooDeep MAX_DOMAIN_DEPTH)
      else map_ok negate_outcome (evaluate_domain_outcome_inner d s (n + 1)))"
  by (subst evaluate_domain_outcome_inner.simps)
    (simp add: get_str_field_def evaluate_not_negates)

lemma evaluate_all_domain:
  "evaluate_domain_outcome_inner (all_domain ds) s n =
     (if n > MAX_DOMAIN_DEPTH then Inl (NestingTooDeep MAX_DOMAIN_DEPTH) else all_loop ds s n)"
  by (subst evaluate_domain_outcome_inner.simps) (simp add: get_str_field_def evaluate_all_outcome.simps)

text \<open>What a domain reads of the state lies below \<open>__exec__\<close>.\<close>

lemma resolve_domain_path_exec:
  "json_get ''__exec__'' s = json_get ''__exec__'' s' \<Longrightarrow>
   resolve_domain_path s p = resolve_domain_path s' p"
  by (simp add: resolve_domain_path_def resolve_exec_path_def)

lemma resolve_value_exec:
  "json_get ''__exec__'' s = json_get ''__exec__'' s' \<Longrightarrow>
   resolve_value_reference_outcome v s = resolve_value_reference_outcome v s'"
  using resolve_domain_path_exec [of s s']
  by (auto simp: resolve_value_reference_outcome_def split: json.splits)

lemma leaf_exec:
  assumes "json_get ''__exec__'' s = json_get ''__exec__'' s'"
  shows "evaluate_eq_outcome d s = evaluate_eq_outcome d s'"
    and "evaluate_lt_outcome d s = evaluate_lt_outcome d s'"
    and "evaluate_in_outcome d s = evaluate_in_outcome d s'"
    and "evaluate_exists d s = evaluate_exists d s'"
    and "evaluate_instruction_eq d s = evaluate_instruction_eq d s'"
    and "evaluate_has_fields d s = evaluate_has_fields d s'"
proof -
  have path: "resolve_domain_path s = resolve_domain_path s'"
    and ref: "\<And>v. resolve_value_reference_outcome v s = resolve_value_reference_outcome v s'"
    using resolve_domain_path_exec [OF assms] resolve_value_exec [OF assms] by auto
  show "evaluate_eq_outcome d s = evaluate_eq_outcome d s'"
    "evaluate_lt_outcome d s = evaluate_lt_outcome d s'"
    "evaluate_in_outcome d s = evaluate_in_outcome d s'"
    "evaluate_exists d s = evaluate_exists d s'"
    "evaluate_instruction_eq d s = evaluate_instruction_eq d s'"
    "evaluate_has_fields d s = evaluate_has_fields d s'"
    unfolding leaf_defs path ref assms by (rule refl)+
qed

lemma evaluate_exec_aux:
  "json_get ''__exec__'' s = json_get ''__exec__'' s' \<Longrightarrow>
     evaluate_domain_outcome_inner d s n = evaluate_domain_outcome_inner d s' n"
  "json_get ''__exec__'' s = json_get ''__exec__'' s' \<Longrightarrow>
     evaluate_all_outcome d s n = evaluate_all_outcome d s' n"
  "json_get ''__exec__'' s = json_get ''__exec__'' s' \<Longrightarrow> all_loop ds s n = all_loop ds s' n"
  "json_get ''__exec__'' s = json_get ''__exec__'' s' \<Longrightarrow>
     evaluate_not_outcome d s n = evaluate_not_outcome d s' n"
proof (induction d s n and d s n and ds s n and d s n
    rule: evaluate_domain_outcome_inner_evaluate_all_outcome_all_loop_evaluate_not_outcome.induct)
  case (1 domain exec_state depth)
  then show ?case
    by (subst (1 2) evaluate_domain_outcome_inner.simps)
      (auto simp: leaf_exec [OF 1(3)] intro!: and_then_cong)
next
  case (2 domain exec_state depth)
  then show ?case by (auto intro!: and_then_cong simp: evaluate_all_outcome.simps result_simps)
next
  case (4 sub arr exec_state depth)
  then show ?case by (auto intro!: and_then_cong split: domain_outcome.splits)
next
  case (5 domain exec_state depth)
  then show ?case by (auto intro!: and_then_cong simp: evaluate_not_outcome.simps result_simps)
qed simp

section \<open>Depth\<close>

text \<open>An evaluation that did not hit the bound gives the same result at any smaller depth.\<close>

lemma evaluate_depth_aux:
  "k \<le> n \<Longrightarrow> evaluate_domain_outcome_inner d s n \<noteq> Inl (NestingTooDeep MAX_DOMAIN_DEPTH) \<Longrightarrow>
     evaluate_domain_outcome_inner d s k = evaluate_domain_outcome_inner d s n"
  "k \<le> n \<Longrightarrow> evaluate_all_outcome d s n \<noteq> Inl (NestingTooDeep MAX_DOMAIN_DEPTH) \<Longrightarrow>
     evaluate_all_outcome d s k = evaluate_all_outcome d s n"
  "k \<le> n \<Longrightarrow> all_loop ds s n \<noteq> Inl (NestingTooDeep MAX_DOMAIN_DEPTH) \<Longrightarrow>
     all_loop ds s k = all_loop ds s n"
  "k \<le> n \<Longrightarrow> evaluate_not_outcome d s n \<noteq> Inl (NestingTooDeep MAX_DOMAIN_DEPTH) \<Longrightarrow>
     evaluate_not_outcome d s k = evaluate_not_outcome d s n"
proof (induction d s n and d s n and ds s n and d s n arbitrary: k and k and k and k
    rule: evaluate_domain_outcome_inner_evaluate_all_outcome_all_loop_evaluate_not_outcome.induct)
  case (1 domain exec_state depth)
  from 1(4) have depth: "\<not> depth > MAX_DOMAIN_DEPTH"
    by (subst (asm) evaluate_domain_outcome_inner.simps) auto
  show ?case
  proof (cases "get_str_field domain ''type''")
    case (Inl e)
    with depth 1(3) show ?thesis
      by (simp add: evaluate_domain_outcome_inner.simps)
  next
    case (Inr t)
    consider (all) "t = ''all''" | (not) "t = ''not''" | (leaf) "t \<noteq> ''all''" "t \<noteq> ''not''"
      by blast
    then show ?thesis
    proof cases
      case all
      with Inr depth 1(3) have eq: "\<And>j. j \<le> depth \<Longrightarrow> evaluate_domain_outcome_inner domain exec_state j =
          evaluate_all_outcome domain exec_state j"
        by (simp add: evaluate_domain_outcome_inner.simps)
      show ?thesis unfolding eq [OF 1(3)] eq [OF order_refl]
        by (rule 1(1) [OF depth Inr]) (use all 1(3,4) eq [OF order_refl] in simp_all)
    next
      case not
      with Inr depth 1(3) have eq: "\<And>j. j \<le> depth \<Longrightarrow> evaluate_domain_outcome_inner domain exec_state j =
          evaluate_not_outcome domain exec_state j"
        by (simp add: evaluate_domain_outcome_inner.simps)
      show ?thesis unfolding eq [OF 1(3)] eq [OF order_refl]
        by (rule 1(2) [OF depth Inr]) (use not 1(3,4) eq [OF order_refl] in simp_all)
    next
      case leaf
      with Inr depth 1(3) show ?thesis
        by (simp add: evaluate_domain_outcome_inner.simps)
    qed
  qed
next
  case (2 domain exec_state depth)
  show ?case
  proof (cases "\<exists>inner arr. json_get ''inner'' domain = Some inner \<and> as_array inner = Some arr")
    case True
    then obtain inner arr where arr: "json_get ''inner'' domain = Some inner" "as_array inner = Some arr"
      by blast
    then have eq: "\<And>j. evaluate_all_outcome domain exec_state j = all_loop arr exec_state j"
      by (simp add: evaluate_all_outcome.simps)
    show ?thesis unfolding eq
      by (rule 2(1) [of inner arr]) (use arr 2(2,3) eq in simp_all)
  next
    case False
    then show ?thesis
      by (cases "json_get ''inner'' domain") (auto simp: evaluate_all_outcome.simps ok_or_def)
  qed
next
  case (4 sub arr exec_state depth)
  from 4(3-) 4(1) [of "k + 1"]
  have "evaluate_domain_outcome_inner sub exec_state (k + 1) =
        evaluate_domain_outcome_inner sub exec_state (depth + 1)"
    by (cases "evaluate_domain_outcome_inner sub exec_state (depth + 1)") auto
  moreover have "all_loop arr exec_state k = all_loop arr exec_state depth"
    if "evaluate_domain_outcome_inner sub exec_state (depth + 1) = Inr Sat"
    by (rule 4(2) [OF that refl 4(3)]) (use that 4(4) in simp)
  ultimately show ?case by (auto intro!: and_then_cong split: domain_outcome.splits)
next
  case (5 domain exec_state depth)
  show ?case
  proof (cases "json_get ''inner'' domain")
    case (Some i)
    with 5(3) have "evaluate_domain_outcome_inner i exec_state (depth + 1) \<noteq> Inl (NestingTooDeep MAX_DOMAIN_DEPTH)"
      by (auto simp: evaluate_not_outcome.simps)
    with Some 5(1) [of i "k + 1"] 5(2) show ?thesis by (simp add: evaluate_not_outcome.simps)
  qed (simp add: evaluate_not_outcome.simps)
qed simp

section \<open>Missing values\<close>

lemma dispatch_missing_strict [simp]:
  "dispatch_missing (Some PolicyError) r c \<noteq> Inr q" "dispatch_missing p r c \<noteq> Inr Sat"
  "dispatch_missing p r c \<noteq> Inr Unsat"
  by (auto simp: dispatch_missing_def split: option.splits on_missing_policy.splits)

lemma parse_on_missing_error:
  "json_get ''on_missing'' d = Some (String ''error'') \<Longrightarrow> parse_on_missing d = Inr (Some PolicyError)"
  by (simp add: parse_on_missing_def)

lemma leaf_strict:
  assumes "json_get ''on_missing'' d = Some (String ''error'')"
  shows "evaluate_eq_outcome d s \<noteq> Inr (Missing r)"
    and "evaluate_lt_outcome d s \<noteq> Inr (Missing r)"
    and "evaluate_in_outcome d s \<noteq> Inr (Missing r)"
  by (auto simp: leaf_defs parse_on_missing_error [OF assms] result_simps
      split: option.splits sum.splits if_splits)

lemma strict_aux:
  "strict_domain d \<Longrightarrow> evaluate_domain_outcome_inner d s n \<noteq> Inr (Missing r)"
  "strict_domain d \<Longrightarrow> json_get ''type'' d = Some (String ''all'') \<Longrightarrow> evaluate_all_outcome d s n \<noteq> Inr (Missing r)"
  "\<forall>d \<in> set ds. strict_domain d \<Longrightarrow> all_loop ds s n \<noteq> Inr (Missing r)"
  "strict_domain d \<Longrightarrow> json_get ''type'' d = Some (String ''not'') \<Longrightarrow> evaluate_not_outcome d s n \<noteq> Inr (Missing r)"
proof (induction d s n and d s n and ds s n and d s n
    rule: evaluate_domain_outcome_inner_evaluate_all_outcome_all_loop_evaluate_not_outcome.induct)
  case (1 domain exec_state depth)
  show ?case
  proof (cases "depth > MAX_DOMAIN_DEPTH \<or> (\<nexists>t. json_get ''type'' domain = Some (String t))")
    case True
    then have "depth > MAX_DOMAIN_DEPTH \<or> (\<exists>e. get_str_field domain ''type'' = Inl e)"
      by (auto simp: get_str_field_def ok_or_def split: option.splits json.splits elim!: as_str.elims)
    then show ?thesis
      by (auto simp: evaluate_domain_outcome_inner.simps)
  next
    case False
    then obtain t where t: "json_get ''type'' domain = Some (String t)" and d: "\<not> depth > MAX_DOMAIN_DEPTH"
      by blast
    then have f: "get_str_field domain ''type'' = Inr t" by (simp add: get_str_field_def)
    have strict: "t \<in> {''eq'', ''lt'', ''in''} \<Longrightarrow> json_get ''on_missing'' domain = Some (String ''error'')"
      using 1(3) t by (subst (asm) strict_domain.simps) (simp split: if_splits)
    consider (all) "t = ''all''" | (not) "t = ''not''" | (leaf) "t \<noteq> ''all''" "t \<noteq> ''not''"
      by blast
    then show ?thesis
    proof cases
      case all
      have "evaluate_all_outcome domain exec_state depth \<noteq> Inr (Missing r)"
        by (rule 1(1) [OF d f]) (use all t 1(3) in simp_all)
      with all d f show ?thesis by (simp add: evaluate_domain_outcome_inner.simps)
    next
      case not
      have "evaluate_not_outcome domain exec_state depth \<noteq> Inr (Missing r)"
        by (rule 1(2) [OF d f]) (use not t 1(3) in simp_all)
      with not d f show ?thesis by (simp add: evaluate_domain_outcome_inner.simps)
    next
      case leaf
      with d f strict leaf_strict [of domain exec_state r] show ?thesis
        by (simp add: evaluate_domain_outcome_inner.simps map_ok_Inr_iff)
    qed
  qed
next
  case (2 domain exec_state depth)
  then show ?case
    by (subst (asm) (2) strict_domain.simps)
      (auto simp: evaluate_all_outcome.simps result_simps split: option.splits elim!: as_array.elims)
next
  case (4 sub arr exec_state depth)
  then show ?case by (auto simp: result_simps split: domain_outcome.splits)
next
  case (5 domain exec_state depth)
  then show ?case
    by (subst (asm) (2) strict_domain.simps)
      (auto simp: evaluate_not_outcome.simps result_simps split: option.splits domain_outcome.splits)
qed simp

lemma evaluate_not_power:
  "k + n \<le> MAX_DOMAIN_DEPTH + 1 \<Longrightarrow>
   evaluate_domain_outcome_inner ((not_domain ^^ n) d) s k =
     map_ok (negate_outcome ^^ n) (evaluate_domain_outcome_inner d s (k + n))"
proof (induction n arbitrary: k)
  case 0
  then show ?case by (cases "evaluate_domain_outcome_inner d s k") auto
next
  case (Suc n)
  from Suc.IH [of "k + 1"] Suc.prems show ?case
    by (cases "evaluate_domain_outcome_inner d s (Suc (k + n))") (auto simp: evaluate_not_domain)
qed

lemma evaluate_too_deep:
  "k > MAX_DOMAIN_DEPTH \<Longrightarrow> evaluate_domain_outcome_inner d s k = Inl (NestingTooDeep MAX_DOMAIN_DEPTH)"
  by (simp add: evaluate_domain_outcome_inner.simps)

section \<open>Properties\<close>

text \<open>
  Confinement of the evaluator.  Every path a domain reads, absolute or relative, and every
  \<open>__\<close>-reference in a \<open>value\<close> is resolved below \<open>__exec__\<close>, so two states that agree on
  \<open>__exec__\<close> give every domain the same outcome, errors included.
\<close>

theorem domain_confined:
  assumes "json_get ''__exec__'' s = json_get ''__exec__'' s'"
  shows "evaluate_domain_outcome d s = evaluate_domain_outcome d s'"
  unfolding evaluate_domain_outcome_def by (rule evaluate_exec_aux(1) [OF assms])

theorem domain_confined_witness:
  "evaluate_domain_outcome (not_domain Null) (Object [(''__exec__'', Null)]) =
   evaluate_domain_outcome (not_domain Null) (Object [(''__exec__'', Null), (''other'', Null)])"
  using domain_confined [of "Object [(''__exec__'', Null)]" "Object [(''__exec__'', Null), (''other'', Null)]"]
  by simp

text \<open>
  Under \<open>on_missing: error\<close> on every comparison, however deep below \<open>all\<close> and \<open>not\<close>, no
  evaluation returns \<open>Missing\<close>: a path that does not resolve, operands that cannot be compared and
  an ambiguous literal all stop the evaluation with an error.
\<close>

theorem strict_domain_never_missing:
  assumes "strict_domain d"
  shows "evaluate_domain_outcome d s \<noteq> Inr (Missing r)"
  unfolding evaluate_domain_outcome_def by (rule strict_aux(1) [OF assms])

theorem strict_domain_never_missing_witness:
  "evaluate_domain_outcome (not_domain (object_from_pairs
     [(''type'', String ''eq''), (''path'', String ''payload.x''), (''value'', Null),
      (''on_missing'', String ''error'')])) Null \<noteq> Inr (Missing PathNotFound)"
  by (rule strict_domain_never_missing)
    (simp add: strict_domain.simps get_object_from_pairs)

text \<open>
  The recursion bound is exactly \<open>MAX_DOMAIN_DEPTH\<close>.  A domain under \<open>n\<close> negations is
  evaluated at depth \<open>n\<close> and complemented \<open>n\<close> times in the three-valued sense as long as
  \<open>n\<close> does not exceed the bound, and is refused with \<open>NestingTooDeep\<close> from there on, whatever it is.
\<close>

theorem not_chain_depth:
  "evaluate_domain_outcome ((not_domain ^^ n) d) s =
     (if n > MAX_DOMAIN_DEPTH then Inl (NestingTooDeep MAX_DOMAIN_DEPTH)
      else map_ok (negate_outcome ^^ n) (evaluate_domain_outcome_inner d s n))"
proof (cases "n > MAX_DOMAIN_DEPTH")
  case True
  then obtain m where n: "n = (MAX_DOMAIN_DEPTH + 1) + m"
    by (metis Suc_eq_plus1 Suc_leI le_Suc_ex)
  show ?thesis
    using evaluate_not_power [of 0 "MAX_DOMAIN_DEPTH + 1" "(not_domain ^^ m) d" s] True
    by (simp only: n funpow_add comp_apply evaluate_domain_outcome_def) (simp add: evaluate_too_deep)
next
  case False
  then show ?thesis
    using evaluate_not_power [of 0 n d s] by (simp add: evaluate_domain_outcome_def)
qed

text \<open>
  The derived comparison \<open>ge\<close>, written \<open>not(lt)\<close>, holds exactly when the path resolves to an
  \<open>i64\<close> that is at least the \<open>i64\<close> target; a missing path, a value of another type or an ambiguous
  literal is never turned into truth by the negation.
\<close>

theorem derived_ge_fail_closed:
  "evaluate_domain (not_domain (object_from_pairs
       [(''type'', String ''lt''), (''path'', String p), (''value'', v)])) s = Inr True \<longleftrightarrow>
   (\<exists>a t. resolve_exec_path s p = Some (Integer a) \<and>
          resolve_value_reference_outcome v s = Inr (Integer t) \<and> sint t \<le> sint a)"
proof -
  let ?lt = "object_from_pairs [(''type'', String ''lt''), (''path'', String p), (''value'', v)]"
  have "evaluate_domain_outcome_inner ?lt s 1 = evaluate_lt_outcome ?lt s"
    by (simp add: evaluate_domain_outcome_inner.simps get_str_field_def get_object_from_pairs MAX_DOMAIN_DEPTH_def)
  moreover have "evaluate_lt_outcome ?lt s = Inr Unsat \<longleftrightarrow>
     (\<exists>a t. resolve_exec_path s p = Some (Integer a) \<and>
          resolve_value_reference_outcome v s = Inr (Integer t) \<and> sint t \<le> sint a)"
    by (auto simp: evaluate_lt_outcome_def get_str_field_def get_object_from_pairs parse_on_missing_def
        resolve_domain_path_def split: option.splits sum.splits elim!: as_i64.elims)
  moreover have "Sat = negate_outcome r \<longleftrightarrow> r = Unsat" for r by (cases r) auto
  ultimately show ?thesis
    by (auto simp: evaluate_domain_def evaluate_not_domain result_simps)
qed

end
