(* ===== verification/Executor.thy ===== *)
theory Executor
  imports Domain
begin

text \<open>
  The meta-instruction executor, \<open>evorule-tcb/src/executor.rs\<close>: \<open>set\<close> with its write-slot descent,
  \<open>push\<close>, \<open>branch\<close>, \<open>enforce\<close> and \<open>io_request\<close>, the dispatch with the shared budget, and the hit and
  attribution outputs.

  A \<open>&mut JsonValue\<close> that a function returns into the middle of a value is modelled by the value
  it points to together with the function that puts a new value back in its place.  The out
  parameters \<open>hit_out\<close> and \<open>domain_attr_out\<close> are \<open>false\<close> and \<open>None\<close> at every call site, and are
  returned; on an error the sources leave them undefined, and so does the model.
\<close>

section \<open>Results\<close>

definition MAX_BRANCH_DEPTH :: usize where
  "MAX_BRANCH_DEPTH = 64"

definition MAX_TOTAL_META_INSTRUCTIONS :: usize where
  "MAX_TOTAL_META_INSTRUCTIONS = 2048"

definition META_INSTRUCTION_TYPES :: "string list" where
  "META_INSTRUCTION_TYPES = [''branch'', ''set'', ''push'', ''io_request'', ''enforce'']"

datatype meta_instruction_result =
    State json
  | IoRequired string json
  | Halted string

record exec_out =
  result :: meta_instruction_result
  budget :: usize
  hit_out :: bool
  domain_attr_out :: "domain_attribution option"

definition squote :: "string \<Rightarrow> string" where
  "squote s = [CHR 0x27] @ s @ [CHR 0x27]"

definition utf8 :: "nat list \<Rightarrow> string" where
  "utf8 bytes = map char_of bytes"

section \<open>Path references\<close>

definition resolve_path_or_literal :: "json \<Rightarrow> json option \<Rightarrow> json tcb" where
  "resolve_path_or_literal state val =
     (case val of
        Some (String s) \<Rightarrow>
          (if starts_with ''__'' s
           then ok_or (PathResolutionFailed s ''path not found'') (resolve_path state s)
           else Inr (String s))
      | Some v \<Rightarrow> Inr v
      | None \<Rightarrow> Inl (MissingField ''value''))"

section \<open>The write slot of \<open>set\<close>\<close>

text \<open>
  A slot holds the object and the field name, or the array and the index, and the function that
  rebuilds the payload around an updated object or array.
\<close>

datatype write_slot =
    SlotField object_map string "object_map \<Rightarrow> json"
  | SlotIndex "json list" usize "json list \<Rightarrow> json"

datatype descend_step =
    Slot write_slot
  | Next json "json \<Rightarrow> json"

fun is_index_segment :: "path_segment option \<Rightarrow> bool" where
  "is_index_segment (Some (Index _ _)) = True"
| "is_index_segment _ = False"

definition list_get :: "'a list \<Rightarrow> usize \<Rightarrow> 'a option" where
  "list_get xs i = (if i < length xs then Some (xs ! i) else None)"

definition no_array_reason :: "string \<Rightarrow> string" where
  "no_array_reason name = ''array '' @ squote name @
     '' not found; set cannot auto-create arrays (create via push first)''"

definition descend_field_segment ::
  "json \<Rightarrow> (json \<Rightarrow> json) \<Rightarrow> string \<Rightarrow> bool \<Rightarrow> path_segment list \<Rightarrow> usize \<Rightarrow> string \<Rightarrow> descend_step tcb" where
  "descend_field_segment current putback name is_last segments i attr =
     (case current of
        Object obj \<Rightarrow>
          if is_last then Inr (Slot (SlotField obj name (\<lambda>obj'. putback (Object obj'))))
          else
            (let next_is_index = is_index_segment (list_get segments (i + 1)) in
             and_then
               (case bt_get name obj of
                  None \<Rightarrow>
                    if next_is_index then Inl (PathResolutionFailed attr (no_array_reason name))
                    else Inr (bt_put name empty_object obj)
                | Some Null \<Rightarrow>
                    if next_is_index then Inl (PathResolutionFailed attr (no_array_reason name))
                    else Inr (bt_put name empty_object obj)
                | Some (Object _) \<Rightarrow> Inr obj
                | Some other \<Rightarrow> Inl (PathResolutionFailed attr
                    (''intermediate segment '' @ squote name @ '' is '' @ json_type_name other @
                     '', expected object'')))
               (\<lambda>obj'.
             and_then (ok_or (PathResolutionFailed attr ''failed to descend into intermediate object'')
                        (bt_get name obj')) (\<lambda>next_value.
             Inr (Next next_value (\<lambda>v. putback (Object (bt_put name v obj')))))))
      | _ \<Rightarrow> Inl (PathResolutionFailed attr
               (''node at segment '' @ squote name @ '' is '' @ json_type_name current @ '', expected object'')))"

definition descend_index_segment ::
  "json \<Rightarrow> (json \<Rightarrow> json) \<Rightarrow> string option \<Rightarrow> usize \<Rightarrow> bool \<Rightarrow> string \<Rightarrow> descend_step tcb" where
  "descend_index_segment current putback opt_field idx is_last attr =
     and_then
       (case opt_field of
          Some f \<Rightarrow>
            (case current of
               Object obj \<Rightarrow>
                 (case bt_get f obj of
                    None \<Rightarrow> Inl (PathResolutionFailed attr (no_array_reason f))
                  | Some Null \<Rightarrow> Inl (PathResolutionFailed attr (no_array_reason f))
                  | Some v \<Rightarrow> Inr (v, \<lambda>v'. putback (Object (bt_put f v' obj))))
             | _ \<Rightarrow> Inl (PathResolutionFailed attr
                      (''node before array '' @ squote f @ '' is '' @ json_type_name current @
                       '', expected object'')))
        | None \<Rightarrow> Inr (current, putback)) (\<lambda>(target, putback').
     and_then
       (ok_or (PathResolutionFailed attr
                (''segment '' @ squote (unwrap_or [] opt_field) @ '' is not an array''))
          (as_array target)) (\<lambda>arr.
     if length arr \<le> idx
     then Inl (PathResolutionFailed attr
            (''index '' @ dec_nat idx @ '' out of bounds (array length '' @ dec_nat (length arr) @ '')''))
     else if is_last then Inr (Slot (SlotIndex arr idx (\<lambda>arr'. putback' (Array arr'))))
     else and_then (ok_or (PathResolutionFailed attr ''failed to descend into array element'')
                     (list_get arr idx)) (\<lambda>next_value.
          Inr (Next next_value (\<lambda>v. putback' (Array (arr[idx := v])))))))"

text \<open>The loop over the segments; \<open>rest\<close> is \<open>drop i segments\<close>.\<close>

fun descend_loop ::
  "path_segment list \<Rightarrow> usize \<Rightarrow> string \<Rightarrow> usize \<Rightarrow> path_segment list \<Rightarrow> json \<Rightarrow> (json \<Rightarrow> json) \<Rightarrow>
   write_slot tcb" where
  "descend_loop segments last_i attr i [] current putback = Inl (PathResolutionFailed attr ''empty path'')"
| "descend_loop segments last_i attr i (seg # rest) current putback =
     (let is_last = (i = last_i) in
      and_then
        (case seg of
           Field name \<Rightarrow> descend_field_segment current putback name is_last segments i attr
         | Index opt_field idx \<Rightarrow> descend_index_segment current putback opt_field idx is_last attr) (\<lambda>step.
      case step of
        Slot slot \<Rightarrow> Inr slot
      | Next next_value putback' \<Rightarrow> descend_loop segments last_i attr (i + 1) rest next_value putback'))"

definition descend_to_write_slot :: "json \<Rightarrow> path_segment list \<Rightarrow> string \<Rightarrow> write_slot tcb" where
  "descend_to_write_slot payload segments attr =
     (if segments = [] then Inl (PathResolutionFailed attr ''empty path'')
      else descend_loop segments (length segments - 1) attr 0 segments payload (\<lambda>v. v))"

section \<open>\<open>set\<close>\<close>

definition apply_set_operation :: "string \<Rightarrow> json \<Rightarrow> json \<Rightarrow> json tcb" where
  "apply_set_operation operation current val =
     (if operation = ''set'' then Inr val
      else if operation = ''add'' \<or> operation = ''sub'' then
        and_then (ok_or (InvalidType ''integer'' (json_type_name current) (operation @ '' left operand''))
                   (as_i64 current)) (\<lambda>cur.
        and_then (ok_or (InvalidType ''integer'' (json_type_name val) (operation @ '' right operand''))
                   (as_i64 val)) (\<lambda>v.
        and_then (ok_or (IntegerOverflow operation cur v)
                   (if operation = ''add'' then checked_add_i64 cur v else checked_sub_i64 cur v)) (\<lambda>res.
        Inr (Integer res))))
      else Inl (UnknownOperation operation))"

definition payload_prefix_reason :: string where
  "payload_prefix_reason =
     utf8 [229, 134, 153, 228, 190, 167] @ '' attr '' @
     utf8 [231, 166, 129, 230, 173, 162, 228, 187, 165] @ '' payload. '' @
     utf8 [229, 188, 128, 229, 164, 180, 239, 188, 154] @ ''attr '' @
     utf8 [231, 155, 184, 229, 175, 185] @ '' __exec__.payload '' @
     utf8 [232, 167, 163, 230, 158, 144, 239, 188, 140, 229, 184, 166, 229, 137, 141, 231, 188,
       128, 228, 188, 154, 229, 143, 140, 233, 135, 141, 229, 181, 140, 229, 165, 151, 229, 134,
       153, 229, 133, 165] @ '' payload.payload.*'' @
     utf8 [227, 128, 130, 232, 175, 183, 231, 155, 180, 230, 142, 165, 229, 134, 153] @
     '' payload '' @
     utf8 [229, 134, 133, 231, 155, 184, 229, 175, 185, 232, 183, 175, 229, 190, 132, 239, 188,
       136, 229, 166, 130] @ '' meta_guard.cleared_for_move'' @
     utf8 [239, 188, 137, 239, 188, 140, 231, 156, 159, 233, 156, 128, 229, 134, 153] @
     '' payload '' @
     utf8 [229, 134, 133, 229, 144, 140, 229, 144, 141, 229, 173, 144, 229, 173, 151, 230, 174,
       181, 230, 151, 182, 231, 148, 168] @ '' __exec__.payload. '' @
     utf8 [230, 152, 190, 229, 188, 143, 229, 133, 168, 229, 189, 162, 229, 188, 143]"

definition resolve_attr_from_state :: "json \<Rightarrow> json \<Rightarrow> string tcb" where
  "resolve_attr_from_state state attr_raw =
     and_then (resolve_path_or_literal state (Some attr_raw)) (\<lambda>attr_value.
     ok_or (InvalidType ''string'' (json_type_name attr_value) ''attr'') (as_str attr_value))"

definition guarded_attr :: "json \<Rightarrow> json \<Rightarrow> string tcb" where
  "guarded_attr state attr_raw =
     and_then (resolve_attr_from_state state attr_raw) (\<lambda>resolved.
     if starts_with ''payload.'' resolved then Inl (PathResolutionFailed resolved payload_prefix_reason)
     else Inr resolved)"

definition set_attr :: "json \<Rightarrow> json \<Rightarrow> string tcb" where
  "set_attr state attr_raw =
     (case as_str attr_raw of
        Some raw \<Rightarrow>
          (case strip_prefix ''__exec__.payload.'' raw of
             Some suffix \<Rightarrow> Inr suffix
           | None \<Rightarrow> guarded_attr state attr_raw)
      | None \<Rightarrow> guarded_attr state attr_raw)"

fun slot_current :: "string \<Rightarrow> write_slot \<Rightarrow> json tcb" where
  "slot_current attr (SlotField obj name _) =
     Inr (case bt_get name obj of None \<Rightarrow> Integer 0 | Some Null \<Rightarrow> Integer 0 | Some v \<Rightarrow> v)"
| "slot_current attr (SlotIndex arr idx _) =
     ok_or (PathResolutionFailed attr ''array slot vanished'') (list_get arr idx)"

fun slot_store :: "write_slot \<Rightarrow> json \<Rightarrow> json" where
  "slot_store (SlotField obj name putback) v = putback (bt_put name v obj)"
| "slot_store (SlotIndex arr idx putback) v = putback (if idx < length arr then arr[idx := v] else arr)"

text \<open>The write into the payload: descend, read the slot, apply the operation, store.\<close>

definition set_in_payload :: "string \<Rightarrow> path_segment list \<Rightarrow> string \<Rightarrow> json \<Rightarrow> json \<Rightarrow> json tcb" where
  "set_in_payload attr segments operation val payload =
     and_then (descend_to_write_slot payload segments attr) (\<lambda>slot.
     and_then (slot_current attr slot) (\<lambda>current.
     and_then (apply_set_operation operation current val) (\<lambda>new_value.
     Inr (slot_store slot new_value))))"

definition exec_set :: "json \<Rightarrow> json \<Rightarrow> json tcb" where
  "exec_set instr state =
     and_then (ok_or (MissingField ''params'') (json_get ''params'' instr)) (\<lambda>params.
     and_then (ok_or (MissingField ''attr'') (json_get ''attr'' params)) (\<lambda>attr_raw.
     and_then (set_attr state attr_raw) (\<lambda>attr.
     and_then (ok_or (MissingField ''operation'')
                (do { v \<leftarrow> json_get ''operation'' params; as_str v })) (\<lambda>operation.
     and_then (resolve_path_or_literal state (json_get ''value'' params)) (\<lambda>val.
     and_then (ok_or (PathResolutionFailed attr
                  ''invalid path syntax (empty segment or malformed index)'')
                (parse_path_segments attr)) (\<lambda>segments.
     if segments = [] then Inl (PathResolutionFailed attr ''empty path'')
     else
       and_then (ok_or (PathResolutionFailed ''__exec__.payload'' ''payload not found in state'')
                  (resolve_path state ''__exec__.payload'')) (\<lambda>payload.
       and_then (set_in_payload attr segments operation val payload) (\<lambda>payload'.
       ok_or (PathResolutionFailed ''__exec__.payload'' ''payload not found in state'')
         (resolve_path_mut (\<lambda>_. payload') state ''__exec__.payload'')))))))))"

section \<open>\<open>push\<close>, \<open>enforce\<close>, \<open>io_request\<close>\<close>

fun resolve_items :: "json \<Rightarrow> json list \<Rightarrow> json list tcb" where
  "resolve_items state [] = Inr []"
| "resolve_items state (item # items) =
     and_then
       (case item of
          String s \<Rightarrow>
            if starts_with ''__'' s then
              and_then (ok_or (PathResolutionFailed s ''path not found'') (resolve_path state s)) (\<lambda>resolved.
              Inr (case resolved of Array inner \<Rightarrow> inner | _ \<Rightarrow> [resolved]))
            else Inr [item]
        | _ \<Rightarrow> Inr [item]) (\<lambda>xs.
     map_ok (\<lambda>ys. xs @ ys) (resolve_items state items))"

definition resolve_instructions_list :: "json \<Rightarrow> json option \<Rightarrow> json list tcb" where
  "resolve_instructions_list state val =
     and_then (resolve_path_or_literal state val) (\<lambda>v.
     and_then (ok_or (InvalidType ''array'' (json_type_name v) ''instructions'') (as_array v)) (\<lambda>arr.
     resolve_items state arr))"

definition exec_push :: "json \<Rightarrow> json \<Rightarrow> json tcb" where
  "exec_push instr state =
     and_then (ok_or (MissingField ''params'') (json_get ''params'' instr)) (\<lambda>params.
     and_then (resolve_instructions_list state (json_get ''instructions'' params)) (\<lambda>instructions.
     if instructions = [] then Inr state
     else
       and_then (ok_or (InvalidState ''__exec__.queue is missing or not an array'')
                  (do { v \<leftarrow> resolve_path state ''__exec__.queue''; as_array v })) (\<lambda>queue_slice.
       ok_or (InvalidState ''__exec__.queue disappeared'')
         (resolve_path_mut (\<lambda>_. Array (instructions @ queue_slice)) state ''__exec__.queue''))))"

definition attribution :: "json \<Rightarrow> domain_outcome \<Rightarrow> domain_attribution" where
  "attribution domain r = \<lparr>outcome = r, on_missing = declared_on_missing domain\<rparr>"

definition exec_enforce ::
  "json \<Rightarrow> json \<Rightarrow> (meta_instruction_result \<times> domain_attribution option) tcb" where
  "exec_enforce instr state =
     and_then (ok_or (MissingField ''params'') (json_get ''params'' instr)) (\<lambda>params.
     and_then (resolve_path_or_literal state (json_get ''domain'' params)) (\<lambda>domain.
     and_then (evaluate_domain_outcome domain state) (\<lambda>r.
     let domain_attr = Some (attribution domain r) in
     if \<not> to_bool r then Inr (State state, domain_attr)
     else
       and_then (ok_or (MissingField ''reason'')
                  (do { v \<leftarrow> json_get ''reason'' params; as_str v })) (\<lambda>reason.
       Inr (Halted reason, domain_attr)))))"

text \<open>The loop over the parameters of \<open>io_request\<close>; a key that ends in \<open>?\<close> is optional.\<close>

fun io_params_loop :: "json \<Rightarrow> object_map \<Rightarrow> object_map \<Rightarrow> object_map tcb" where
  "io_params_loop state [] request_params = Inr request_params"
| "io_params_loop state ((key, val) # entries) request_params =
     (if key = ''io_type'' then io_params_loop state entries request_params
      else
        (let (param_name, optional) =
               (case strip_suffix_char (CHR ''?'') key of
                  Some stripped \<Rightarrow> (stripped, True) | None \<Rightarrow> (key, False)) in
         case resolve_path_or_literal state (Some val) of
           Inr resolved \<Rightarrow> io_params_loop state entries (bt_put param_name resolved request_params)
         | Inl (PathResolutionFailed p reason) \<Rightarrow>
             if optional then io_params_loop state entries request_params
             else Inl (PathResolutionFailed p reason)
         | Inl e \<Rightarrow> Inl e))"

definition exec_io_request :: "json \<Rightarrow> json \<Rightarrow> meta_instruction_result tcb" where
  "exec_io_request instr state =
     and_then (ok_or (MissingField ''params'') (json_get ''params'' instr)) (\<lambda>params.
     and_then (ok_or (MissingField ''io_type'')
                (do { v \<leftarrow> json_get ''io_type'' params; as_str v })) (\<lambda>io_type.
     and_then (case as_object params of
                 Some obj \<Rightarrow> io_params_loop state obj bt_new
               | None \<Rightarrow> Inr bt_new) (\<lambda>request_params.
     Inr (IoRequired io_type (Object request_params)))))"

section \<open>Dispatch and \<open>branch\<close>\<close>

text \<open>
  The sub-instructions of a branch are components of the branch instruction, so the recursion ends
  on every input; \<open>MAX_BRANCH_DEPTH\<close> and the budget bound how deep and how long it runs.
\<close>

function (sequential) execute_meta_instruction_budgeted ::
    "json \<Rightarrow> json \<Rightarrow> usize \<Rightarrow> usize \<Rightarrow> exec_out tcb"
  and exec_branch :: "json \<Rightarrow> json \<Rightarrow> usize \<Rightarrow> usize \<Rightarrow> exec_out tcb"
  and branch_loop :: "json list \<Rightarrow> json \<Rightarrow> usize \<Rightarrow> usize \<Rightarrow> (meta_instruction_result \<times> usize) tcb"
where
  "execute_meta_instruction_budgeted instr state depth bud =
     (if bud = 0 then Inl (TooManyExecutedInstructions MAX_TOTAL_META_INSTRUCTIONS)
      else
        (let bud' = bud - 1;
             out = (\<lambda>r h a. \<lparr>result = r, budget = bud', hit_out = h, domain_attr_out = a\<rparr>) in
         and_then (ok_or (MissingField ''type'')
                    (do { v \<leftarrow> json_get ''type'' instr; as_str v })) (\<lambda>instr_type.
         if instr_type = ''set'' then map_ok (\<lambda>s. out (State s) True None) (exec_set instr state)
         else if instr_type = ''push'' then map_ok (\<lambda>s. out (State s) True None) (exec_push instr state)
         else if instr_type = ''branch'' then exec_branch instr state depth bud'
         else if instr_type = ''io_request'' then map_ok (\<lambda>r. out r True None) (exec_io_request instr state)
         else if instr_type = ''enforce'' then
           map_ok (\<lambda>(r, a). out r (case r of Halted _ \<Rightarrow> True | _ \<Rightarrow> False) a) (exec_enforce instr state)
         else Inl (UnknownMetaInstruction instr_type))))"
| "exec_branch instr state depth bud =
     (if depth \<ge> MAX_BRANCH_DEPTH then Inl (NestingTooDeep MAX_BRANCH_DEPTH)
      else
        and_then (ok_or (MissingField ''params'') (json_get ''params'' instr)) (\<lambda>params.
        and_then (resolve_path_or_literal state (json_get ''domain'' params)) (\<lambda>domain.
        and_then (evaluate_domain_outcome domain state) (\<lambda>r.
        let branch_key = (if to_bool r then ''on_true'' else ''on_false'');
            domain_attr = Some (attribution domain r) in
        (case (case json_get branch_key params of Some v \<Rightarrow> as_array v | None \<Rightarrow> None) of
           Some instrs \<Rightarrow>
             map_ok (\<lambda>(res, bud'). \<lparr>result = res, budget = bud', hit_out = (instrs \<noteq> []),
                                     domain_attr_out = domain_attr\<rparr>)
               (branch_loop instrs state (depth + 1) bud)
         | None \<Rightarrow> Inr \<lparr>result = State state, budget = bud, hit_out = False,
                        domain_attr_out = domain_attr\<rparr>)))))"
| "branch_loop [] state depth bud = Inr (State state, bud)"
| "branch_loop (sub_instr # instrs) state depth bud =
     and_then (execute_meta_instruction_budgeted sub_instr state depth bud) (\<lambda>out.
     case result out of
       State new_state \<Rightarrow> branch_loop instrs new_state depth (budget out)
     | signal \<Rightarrow> Inr (signal, budget out))"
  by pat_completeness auto
termination
  by (relation "measure (\<lambda>x. case x of
        Inl (instr, state, depth, bud) \<Rightarrow> 2 * size instr + 1
      | Inr (Inl (instr, state, depth, bud)) \<Rightarrow> 2 * size instr
      | Inr (Inr (instrs, state, depth, bud)) \<Rightarrow> 2 * size_list size instrs)")
    (auto simp: result_simps split: option.splits if_splits dest!: size_json_get size_as_array)

declare execute_meta_instruction_budgeted.simps [simp del] exec_branch.simps [simp del]

definition execute_meta_instruction :: "json \<Rightarrow> json \<Rightarrow> usize \<Rightarrow> meta_instruction_result tcb" where
  "execute_meta_instruction instr state depth =
     map_ok result (execute_meta_instruction_budgeted instr state depth MAX_TOTAL_META_INSTRUCTIONS)"

section \<open>The write slot as a lens\<close>

text \<open>
  The reference for the descent: the value a write operation starts from and the function that
  puts the new value in place, by direct recursion on the segments.
\<close>

definition slot_value :: "json option \<Rightarrow> json" where
  "slot_value v = (case v of None \<Rightarrow> Integer 0 | Some Null \<Rightarrow> Integer 0 | Some w \<Rightarrow> w)"

definition index_target :: "string option \<Rightarrow> json \<Rightarrow> (json list \<times> (json list \<Rightarrow> json)) option" where
  "index_target fo cur =
     (case fo of
        None \<Rightarrow> (case cur of Array xs \<Rightarrow> Some (xs, Array) | _ \<Rightarrow> None)
      | Some f \<Rightarrow>
          (case cur of
             Object m \<Rightarrow>
               (case bt_get f m of
                  Some (Array xs) \<Rightarrow> Some (xs, \<lambda>ys. Object (bt_put f (Array ys) m))
                | _ \<Rightarrow> None)
           | _ \<Rightarrow> None))"

fun slot_at :: "path_segment list \<Rightarrow> json \<Rightarrow> (json \<times> (json \<Rightarrow> json)) option" where
  "slot_at [] cur = None"
| "slot_at (Index fo i # rest) cur =
     (case index_target fo cur of
        None \<Rightarrow> None
      | Some (xs, re) \<Rightarrow>
          if length xs \<le> i then None
          else if rest = [] then Some (xs ! i, \<lambda>v. re (xs[i := v]))
          else map_option (\<lambda>(c, put). (c, \<lambda>v. re (xs[i := put v]))) (slot_at rest (xs ! i)))"
| "slot_at [Field n] cur =
     (case cur of
        Object m \<Rightarrow> Some (slot_value (bt_get n m), \<lambda>v. Object (bt_put n v m))
      | _ \<Rightarrow> None)"
| "slot_at (Field n # s # rest) cur =
     (case cur of
        Object m \<Rightarrow>
          (case (case bt_get n m of None \<Rightarrow> Null | Some v \<Rightarrow> v) of
             Null \<Rightarrow>
               if is_index_segment (Some s) then None
               else map_option (\<lambda>(c, put). (c, \<lambda>v. Object (bt_put n (put v) m)))
                      (slot_at (s # rest) empty_object)
           | Object obj \<Rightarrow>
               map_option (\<lambda>(c, put). (c, \<lambda>v. Object (bt_put n (put v) m)))
                 (slot_at (s # rest) (Object obj))
           | _ \<Rightarrow> None)
      | _ \<Rightarrow> None)"

lemma bt_put_put [simp]: "bt_put k v (bt_put k w m) = bt_put k v m"
  by (induction k w m rule: bt_put.induct) auto

lemma empty_object_cases [simp]: "empty_object \<noteq> Null" "json_type_name empty_object = ''object''"
  by (simp_all add: empty_object_def)

text \<open>The outcome of a descent that agrees with a slot of the reference.\<close>

definition agrees :: "string \<Rightarrow> (json \<Rightarrow> json) \<Rightarrow> write_slot tcb \<Rightarrow> (json \<times> (json \<Rightarrow> json)) option \<Rightarrow> bool" where
  "agrees attr putback r l =
     (case l of
        None \<Rightarrow> (\<exists>reason. r = Inl (PathResolutionFailed attr reason))
      | Some (c, put) \<Rightarrow>
          (\<exists>slot. r = Inr slot \<and> slot_current attr slot = Inr c \<and> (\<forall>v. slot_store slot v = putback (put v))))"

lemma agrees_map:
  "agrees attr (\<lambda>v. putback (g v)) r l \<Longrightarrow> agrees attr putback r (map_option (\<lambda>(c, put). (c, \<lambda>v. g (put v))) l)"
  by (cases l) (auto simp: agrees_def)

lemma descend_index_step:
  "descend_index_segment cur putback fo i is_last attr =
     (case index_target fo cur of
        None \<Rightarrow> descend_index_segment cur putback fo i is_last attr
      | Some (xs, re) \<Rightarrow>
          if length xs \<le> i then
            Inl (PathResolutionFailed attr
              (''index '' @ dec_nat i @ '' out of bounds (array length '' @ dec_nat (length xs) @ '')''))
          else if is_last then Inr (Slot (SlotIndex xs i (\<lambda>ys. putback (re ys))))
          else Inr (Next (xs ! i) (\<lambda>v. putback (re (xs[i := v])))))"
  by (auto simp: descend_index_segment_def index_target_def list_get_def split: option.splits json.splits)

lemma descend_index_none:
  "index_target fo cur = None \<Longrightarrow>
   \<exists>reason. descend_index_segment cur putback fo i is_last attr = Inl (PathResolutionFailed attr reason)"
  by (auto simp: descend_index_segment_def index_target_def split: option.splits json.splits)

lemma list_get_drop: "drop i xs = y # z # zs \<Longrightarrow> list_get xs (i + 1) = Some z"
  by (metis drop_Suc drop_tl hd_drop_conv_nth drop_all leI list.distinct(1) list.sel(1,3) list_get_def
      Suc_eq_plus1)

lemma descend_loop_slot:
  "drop i segments = rest \<Longrightarrow> i + length rest = length segments \<Longrightarrow> rest \<noteq> [] \<Longrightarrow>
   agrees attr putback (descend_loop segments (length segments - 1) attr i rest cur putback) (slot_at rest cur)"
proof (induction rest cur arbitrary: i putback rule: slot_at.induct)
  case (1 cur)
  then show ?case by simp
next
  case (2 fo j rest cur)
  show ?case
  proof (cases "index_target fo cur")
    case None
    with descend_index_none [OF None, of putback j "i = length segments - 1" attr] show ?thesis
      by (auto simp: agrees_def)
  next
    case (Some p)
    obtain xs re where p: "p = (xs, re)" by fastforce
    have last: "i = length segments - 1 \<longleftrightarrow> rest = []" using 2(3,4) by (cases rest) auto
    have drop: "drop (Suc i) segments = rest" by (metis 2(2) drop_Suc drop_tl list.sel(3))
    note step = descend_index_step [of cur putback fo j "i = length segments - 1" attr]
    show ?thesis
    proof (cases "length xs \<le> j \<or> rest = []")
      case True
      with Some p last step show ?thesis by (auto simp: agrees_def list_get_def)
    next
      case False
      from False have ag: "agrees attr (\<lambda>v. putback (re (xs[j := v])))
          (descend_loop segments (length segments - 1) attr (i + 1) rest (xs ! j) (\<lambda>v. putback (re (xs[j := v]))))
          (slot_at rest (xs ! j))"
        using 2(3) drop by (intro 2(1) [OF Some p [symmetric]]) auto
      from agrees_map [where g = "\<lambda>v. re (xs[j := v])", OF ag] False Some p last step show ?thesis
        by simp
    qed
  qed
next
  case (3 n cur)
  then show ?case by (auto simp: agrees_def descend_field_segment_def slot_value_def split: json.splits option.splits)
next
  case (4 n s rest cur)
  have last: "i \<noteq> length segments - 1" using 4(4) by auto
  have drop: "drop (Suc i) segments = s # rest" by (metis 4(3) drop_Suc drop_tl list.sel(3))
  have nxt: "list_get segments (i + 1) = Some s" using list_get_drop [OF 4(3)] by simp
  show ?case
  proof (cases cur)
    case (Object m)
    let ?putback = "\<lambda>v. putback (Object (bt_put n v m))"
    show ?thesis
    proof (cases "(case bt_get n m of None \<Rightarrow> Null | Some v \<Rightarrow> v)")
      case Null
      have "agrees attr ?putback (descend_loop segments (length segments - 1) attr (i + 1) (s # rest) empty_object ?putback)
          (slot_at (s # rest) empty_object)" if "\<not> is_index_segment (Some s)"
        using that drop 4(4) by (intro 4(1) [OF Object Null]) auto
      from agrees_map [where g = "\<lambda>v. Object (bt_put n v m)", OF this] Null Object last nxt show ?thesis
        by (auto simp: agrees_def [of attr putback _ None] descend_field_segment_def Let_def
            split: option.splits simp del: is_index_segment.simps)
    next
      case (Object obj)
      then have got: "bt_get n m = Some (Object obj)" by (auto split: option.splits)
      have "agrees attr ?putback (descend_loop segments (length segments - 1) attr (i + 1) (s # rest) (Object obj) ?putback)
          (slot_at (s # rest) (Object obj))"
        using drop 4(4) by (intro 4(2) [OF \<open>cur = Object m\<close> Object]) auto
      from agrees_map [where g = "\<lambda>v. Object (bt_put n v m)", OF this] got \<open>cur = Object m\<close> last nxt show ?thesis
        by (simp add: descend_field_segment_def Let_def)
    qed (use Object last nxt in \<open>auto simp: agrees_def descend_field_segment_def Let_def split: option.splits\<close>)
  qed (auto simp: agrees_def descend_field_segment_def)
qed

text \<open>The laws of the lens: read back, the value operated on, frame and well-formedness.\<close>

fun seg_apart :: "path_segment \<Rightarrow> path_segment \<Rightarrow> bool" where
  "seg_apart (Index f i) (Index g j) = ((f = g \<and> i \<noteq> j) \<or> (f \<noteq> g \<and> f \<noteq> None \<and> g \<noteq> None))"
| "seg_apart s t = (seg_head s \<noteq> None \<and> seg_head t \<noteq> None \<and> seg_head s \<noteq> seg_head t)"

fun path_apart :: "path_segment list \<Rightarrow> path_segment list \<Rightarrow> bool" where
  "path_apart (s # ss) (t # ts) = (if s = t then path_apart ss ts else seg_apart s t)"
| "path_apart _ _ = False"

lemma index_target_walk:
  "index_target fo cur = Some (xs, re) \<Longrightarrow> walk cur (Index fo i # rest) = (if i < length xs then walk (xs ! i) rest else None)"
  by (auto simp: index_target_def split: option.splits json.splits)

lemma index_target_re:
  "index_target fo cur = Some (xs, re) \<Longrightarrow> index_target fo (re ys) = Some (ys, re)"
  by (auto simp: index_target_def split: option.splits json.splits)

lemma index_target_wf:
  "index_target fo cur = Some (xs, re) \<Longrightarrow> wf_json cur \<Longrightarrow>
   list_all wf_json xs \<and> (list_all wf_json ys \<longrightarrow> wf_json (re ys))"
  by (auto simp: index_target_def split: option.splits json.splits dest: wf_map_get)

lemma slot_at_IndexE:
  assumes "slot_at (Index fo j # rest) cur = Some (c, put)"
  obtains (last) xs re where "index_target fo cur = Some (xs, re)" "j < length xs" "rest = []"
      "c = xs ! j" "put = (\<lambda>v. re (xs[j := v]))"
  | (more) xs re put' where "index_target fo cur = Some (xs, re)" "j < length xs" "rest \<noteq> []"
      "slot_at rest (xs ! j) = Some (c, put')" "put = (\<lambda>v. re (xs[j := put' v]))"
  using assms by (auto split: option.splits prod.splits if_splits)

lemma slot_at_FieldE:
  assumes "slot_at (Field n # s # rest) cur = Some (c, put)"
  obtains (fresh) m put' where "cur = Object m" "bt_get n m = None \<or> bt_get n m = Some Null"
      "\<not> is_index_segment (Some s)" "slot_at (s # rest) empty_object = Some (c, put')"
      "put = (\<lambda>v. Object (bt_put n (put' v) m))"
  | (old) m obj put' where "cur = Object m" "bt_get n m = Some (Object obj)"
      "slot_at (s # rest) (Object obj) = Some (c, put')" "put = (\<lambda>v. Object (bt_put n (put' v) m))"
  using assms by (auto split: json.splits option.splits if_splits simp del: is_index_segment.simps slot_at.simps(2,3))

lemma field_default:
  "(case bt_get n m of None \<Rightarrow> Null | Some v \<Rightarrow> v) = Null \<longleftrightarrow> bt_get n m = None \<or> bt_get n m = Some Null"
  by (auto split: option.splits)

lemma walk_Null: "walk Null (t # ts) = None"
  by (cases t) (auto split: option.splits)

lemma walk_empty: "walk empty_object (t # ts) = None"
  by (cases t) (auto simp: empty_object_def bt_new_def split: option.splits)

lemma slot_put_walk: "slot_at segs p = Some (c, put) \<Longrightarrow> walk (put v) segs = Some v"
proof (induction segs p arbitrary: c put rule: slot_at.induct)
  case (2 fo j rest cur)
  from 2(2) show ?case
  proof (cases rule: slot_at_IndexE)
    case last
    then show ?thesis using index_target_walk [OF index_target_re [OF last(1)]] by simp
  next
    case (more xs re put')
    then show ?thesis
      using index_target_walk [OF index_target_re [OF more(1)]] 2(1) [OF more(1) refl _ more(3,4)] by simp
  qed
next
  case (4 n s rest cur)
  from 4(3) show ?case
    by (cases rule: slot_at_FieldE) (use 4(1,2) field_default in \<open>auto simp del: slot_at.simps is_index_segment.simps\<close>)
qed (auto split: json.splits)

text \<open>The value a slot starts from, in terms of what the path reads.\<close>

definition slot_start :: "path_segment list \<Rightarrow> json option \<Rightarrow> json" where
  "slot_start segs w = (case last segs of Field _ \<Rightarrow> slot_value w | Index _ _ \<Rightarrow> the w)"

lemma slot_start_simps [simp]:
  "slot_start [Field n] w = slot_value w" "slot_start [Index f i] w = the w"
  "ss \<noteq> [] \<Longrightarrow> slot_start (s # ss) w = slot_start ss w"
  by (simp_all add: slot_start_def)

lemma slot_at_value: "slot_at segs p = Some (c, put) \<Longrightarrow> c = slot_start segs (walk p segs)"
proof (induction segs p arbitrary: c put rule: slot_at.induct)
  case (2 fo j rest cur)
  from 2(2) show ?case
  proof (cases rule: slot_at_IndexE)
    case last
    then show ?thesis using index_target_walk [OF last(1), of j rest] by simp
  next
    case (more xs re put')
    then show ?thesis
      using index_target_walk [OF more(1), of j rest] 2(1) [OF more(1) refl _ more(3,4)]
      by (simp del: walk.simps)
  qed
next
  case (4 n s rest cur)
  from 4(3) show ?case
  proof (cases rule: slot_at_FieldE)
    case (fresh m put')
    have "walk cur (Field n # s # rest) = None"
      using fresh(1,2) by (auto simp: walk_Null)
    then show ?thesis
      using 4(1) [OF fresh(1) _ fresh(3,4)] fresh(2) by (simp add: walk_empty field_default del: walk.simps)
  next
    case (old m obj put')
    then show ?thesis using 4(2) [OF old(1) _ old(3)] by simp
  qed
qed (auto simp: slot_value_def split: json.splits option.splits)

lemma slot_put_wf:
  "slot_at segs p = Some (c, put) \<Longrightarrow> wf_json p \<Longrightarrow> wf_json v \<Longrightarrow> wf_json (put v)"
proof (induction segs p arbitrary: c put rule: slot_at.induct)
  case (2 fo j rest cur)
  have upd: "list_all wf_json (xs[j := w])" if "list_all wf_json xs" "wf_json w" for xs w
    using that set_update_subset_insert [of xs j w] by (fastforce simp: list_all_iff)
  from 2(2) show ?case
  proof (cases rule: slot_at_IndexE)
    case (last xs re)
    then show ?thesis using index_target_wf [OF last(1) 2(3)] upd 2(4) by auto
  next
    case (more xs re put')
    have "wf_json (put' v)"
      using 2(1) [OF more(1) refl _ more(3,4)] more(2) index_target_wf [OF more(1) 2(3)] 2(4)
      by (auto simp: list_all_length)
    then show ?thesis using more(5) index_target_wf [OF more(1) 2(3)] upd by auto
  qed
next
  case (4 n s rest cur)
  from 4(3) show ?case
  proof (cases rule: slot_at_FieldE)
    case (fresh m put')
    then have "wf_json (put' v)" using 4(1) [OF fresh(1) _ fresh(3,4)] 4(5) by (simp add: field_default)
    with fresh 4(4) show ?thesis by simp
  next
    case (old m obj put')
    then have "wf_json (Object obj)" using 4(4) wf_map_get [of m n "Object obj"] by simp
    then have "wf_json (put' v)" using 4(2) [OF old(1) _ old(3)] old(2) 4(5) by simp
    with old 4(4) show ?thesis by simp
  qed
qed (auto split: json.splits)

lemma walk_put_apart:
  "seg_apart (Field a) t \<Longrightarrow> walk (Object (bt_put a v m)) (t # ts) = walk (Object m) (t # ts)"
  by (cases t) (auto split: option.splits)

lemma walk_index_apart:
  "index_target fo cur = Some (xs, re) \<Longrightarrow> seg_apart (Index fo i) t \<Longrightarrow>
   walk (re (xs[i := v])) (t # ts) = walk cur (t # ts)"
  by (cases t) (auto simp: index_target_def split: option.splits json.splits)

lemma slot_frame:
  "slot_at segs p = Some (c, put) \<Longrightarrow> path_apart segs other \<Longrightarrow> walk (put v) other = walk p other"
proof (induction segs p arbitrary: c put other rule: slot_at.induct)
  case (2 fo j rest cur)
  then obtain t ts where other: "other = t # ts" by (cases other) auto
  show ?case
  proof (cases "t = Index fo j")
    case False
    then have "seg_apart (Index fo j) t" using 2(3) other by (auto split: if_splits)
    with 2(2) show ?thesis
      by (cases rule: slot_at_IndexE) (simp_all add: other walk_index_apart del: walk.simps)
  next
    case True
    with 2(3) other have ap: "path_apart rest ts" by simp
    from 2(2) show ?thesis
    proof (cases rule: slot_at_IndexE)
      case last
      with ap show ?thesis by simp
    next
      case (more xs re put')
      with 2(1) [OF more(1) refl _ more(3,4) ap] show ?thesis
        using index_target_walk [OF more(1), of j ts] index_target_walk [OF index_target_re [OF more(1)], of _ j ts]
        by (simp add: other True del: walk.simps)
    qed
  qed
next
  case (3 n cur)
  then obtain t ts where "other = t # ts" by (cases other) auto
  with 3 show ?case
    by (auto split: json.splits if_splits simp del: walk.simps simp: walk_put_apart)
next
  case (4 n s rest cur)
  then obtain t ts where other: "other = t # ts" by (cases other) auto
  show ?case
  proof (cases "t = Field n")
    case False
    then have "seg_apart (Field n) t" using 4(4) other by (auto split: if_splits)
    with 4(3) show ?thesis
      by (cases rule: slot_at_FieldE) (simp_all add: other walk_put_apart del: walk.simps)
  next
    case True
    with 4(4) other have ap: "path_apart (s # rest) ts" by simp
    then obtain u us where ts: "ts = u # us" by (cases ts) auto
    from 4(3) show ?thesis
    proof (cases rule: slot_at_FieldE)
      case (fresh m put')
      with 4(1) [OF fresh(1) _ fresh(3,4) ap] show ?thesis
        by (auto simp: other True ts walk_Null walk_empty field_default split: option.splits)
    next
      case (old m obj put')
      with 4(2) [OF old(1) _ old(3) ap] show ?thesis by (simp add: other True)
    qed
  qed
qed auto

section \<open>Effects of the instructions\<close>

text \<open>The write is the lens: same successes, same value operated on, and every failure of the
  descent is a \<open>PathResolutionFailed\<close> of the attribute.\<close>

lemma set_in_payload_slot:
  assumes "segments \<noteq> []"
  shows "case slot_at segments payload of
      None \<Rightarrow> (\<exists>reason. set_in_payload attr segments op val payload = Inl (PathResolutionFailed attr reason))
    | Some (c, put) \<Rightarrow> set_in_payload attr segments op val payload = map_ok put (apply_set_operation op c val)"
  using descend_loop_slot [where i = 0 and segments = segments and rest = segments and attr = attr
      and putback = "\<lambda>v. v" and cur = payload] assms
  by (auto simp: set_in_payload_def descend_to_write_slot_def agrees_def and_then_def map_ok_def
      split: option.splits prod.splits sum.splits)

lemma set_in_payload_InrE:
  assumes "set_in_payload attr segments op val payload = Inr p'" "segments \<noteq> []"
  obtains c put new where "slot_at segments payload = Some (c, put)"
    "apply_set_operation op c val = Inr new" "p' = put new"
  using set_in_payload_slot [OF assms(2), where payload = payload and attr = attr and op = op and val = val] assms(1)
  by (cases "slot_at segments payload") (auto simp: result_simps dest!: sym [of "Inr p'"])

text \<open>
  What an instruction may change: \<open>__exec__.payload\<close> and \<open>__exec__.queue\<close>, and the queue only by
  putting instructions in front of it.
\<close>

definition queue_path :: "path_segment list" where
  "queue_path = [Field ''__exec__'', Field ''queue'']"

definition payload_path :: "path_segment list" where
  "payload_path = [Field ''__exec__'', Field ''payload'']"

definition only_payload_and_queue :: "json \<Rightarrow> json \<Rightarrow> bool" where
  "only_payload_and_queue s s' \<longleftrightarrow>
     (\<forall>k. k \<noteq> ''__exec__'' \<longrightarrow> json_get k s' = json_get k s) \<and>
     (\<forall>k. k \<notin> {''payload'', ''queue''} \<longrightarrow>
        walk s' [Field ''__exec__'', Field k] = walk s [Field ''__exec__'', Field k]) \<and>
     (\<forall>q. walk s queue_path = Some (Array q) \<longrightarrow>
        (\<exists>new. walk s' queue_path = Some (Array (new @ q))))"

lemma only_payload_and_queue_refl [simp]: "only_payload_and_queue s s"
  unfolding only_payload_and_queue_def by (metis append_Nil)

lemma only_payload_and_queue_trans:
  "only_payload_and_queue s t \<Longrightarrow> only_payload_and_queue t u \<Longrightarrow> only_payload_and_queue s u"
  by (auto simp: only_payload_and_queue_def)

lemma resolve_payload: "resolve_path s ''__exec__.payload'' = walk s payload_path"
  "resolve_path s ''__exec__.queue'' = walk s queue_path"
  "resolve_path_mut f s ''__exec__.payload'' = walk_mut f s payload_path"
  "resolve_path_mut f s ''__exec__.queue'' = walk_mut f s queue_path"
  by (simp_all add: resolve_path_def resolve_path_mut_def ends_with_char_def payload_path_def queue_path_def)

lemma walk_get: "walk s [Field k] = json_get k s"
  by (cases s) (auto split: option.splits)

lemma write_below_exec:
  assumes "walk_mut (\<lambda>_. v) s [Field ''__exec__'', Field f] = Some s'"
  shows "k \<noteq> ''__exec__'' \<Longrightarrow> json_get k s' = json_get k s"
    and "k \<noteq> f \<Longrightarrow> walk s' [Field ''__exec__'', Field k] = walk s [Field ''__exec__'', Field k]"
    and "walk s' [Field ''__exec__'', Field f] = Some v"
proof -
  show "k \<noteq> ''__exec__'' \<Longrightarrow> json_get k s' = json_get k s"
    using walk_mut_frame [of _ s "[]" "Field ''__exec__''" "[Field f]" s' "''__exec__''" "Field k" k "[]"] assms
    by (simp add: walk_get del: walk.simps walk_mut.simps)
  show "k \<noteq> f \<Longrightarrow> walk s' [Field ''__exec__'', Field k] = walk s [Field ''__exec__'', Field k]"
    using walk_mut_frame [of _ s "[Field ''__exec__'']" "Field f" "[]" s' f "Field k" k "[]"] assms
    by (simp del: walk.simps walk_mut.simps)
  show "walk s' [Field ''__exec__'', Field f] = Some v"
    using walk_walk_mut [OF assms] walk_mut_defined [of "\<lambda>_. v" s "[Field ''__exec__'', Field f]"] assms
    by (cases "walk s [Field ''__exec__'', Field f]") (auto simp del: walk.simps walk_mut.simps)
qed

lemma exec_set_InrE:
  assumes "exec_set instr s = Inr s'"
  obtains ps raw attr op val segments p p' where
    "json_get ''params'' instr = Some ps" "json_get ''attr'' ps = Some raw" "set_attr s raw = Inr attr"
    "json_get ''operation'' ps = Some (String op)" "resolve_path_or_literal s (json_get ''value'' ps) = Inr val"
    "parse_path_segments attr = Some segments" "segments \<noteq> []" "walk s payload_path = Some p"
    "set_in_payload attr segments op val p = Inr p'" "walk_mut (\<lambda>_. p') s payload_path = Some s'"
proof -
  from assms obtain ps raw attr v op val segments p p' where
    "json_get ''params'' instr = Some ps" "json_get ''attr'' ps = Some raw" "set_attr s raw = Inr attr"
    "json_get ''operation'' ps = Some v" "as_str v = Some op"
    "resolve_path_or_literal s (json_get ''value'' ps) = Inr val"
    "parse_path_segments attr = Some segments" "segments \<noteq> []" "walk s payload_path = Some p"
    "set_in_payload attr segments op val p = Inr p'" "walk_mut (\<lambda>_. p') s payload_path = Some s'"
    by (auto simp: exec_set_def result_simps resolve_payload bind_eq_Some_conv split: if_splits)
  then show thesis by (intro that) (auto elim!: as_str.elims)
qed

lemma exec_set_frame: "exec_set instr s = Inr s' \<Longrightarrow> only_payload_and_queue s s'"
  by (erule exec_set_InrE)
    (auto simp: only_payload_and_queue_def payload_path_def queue_path_def
      write_below_exec(1,2) [where f = "''payload''"] intro: exI [of _ "[]"] simp del: walk.simps walk_mut.simps)

lemma exec_push_InrE:
  assumes "exec_push instr s = Inr s'"
  obtains (noop) "s' = s"
  | (push) ps new q where "json_get ''params'' instr = Some ps"
      "resolve_instructions_list s (json_get ''instructions'' ps) = Inr new" "new \<noteq> []"
      "walk s queue_path = Some (Array q)" "walk_mut (\<lambda>_. Array (new @ q)) s queue_path = Some s'"
  using assms
  by (auto simp: exec_push_def result_simps resolve_payload bind_eq_Some_conv split: if_splits elim!: as_array.elims)

lemma exec_push_frame: "exec_push instr s = Inr s' \<Longrightarrow> only_payload_and_queue s s'"
proof (erule exec_push_InrE)
  fix ps new q
  assume "walk s queue_path = Some (Array q)" "walk_mut (\<lambda>_. Array (new @ q)) s queue_path = Some s'"
  then show ?thesis
    using write_below_exec [of "Array (new @ q)" s "''queue''" s']
    by (auto simp: only_payload_and_queue_def queue_path_def simp del: walk.simps walk_mut.simps)
qed simp

section \<open>Induction over the execution of an instruction\<close>

lemma execute_InrE:
  assumes "execute_meta_instruction_budgeted instr s d b = Inr out"
  obtains (set) s' where "json_get ''type'' instr = Some (String ''set'')" "exec_set instr s = Inr s'"
      "result out = State s'" "budget out = b - 1" "b \<noteq> 0" "hit_out out" "domain_attr_out out = None"
  | (push) s' where "json_get ''type'' instr = Some (String ''push'')" "exec_push instr s = Inr s'"
      "result out = State s'" "budget out = b - 1" "b \<noteq> 0" "hit_out out" "domain_attr_out out = None"
  | (branch) "json_get ''type'' instr = Some (String ''branch'')" "exec_branch instr s d (b - 1) = Inr out"
      "b \<noteq> 0"
  | (io) r where "json_get ''type'' instr = Some (String ''io_request'')" "exec_io_request instr s = Inr r"
      "result out = r" "budget out = b - 1" "b \<noteq> 0"
  | (enforce) r a where "json_get ''type'' instr = Some (String ''enforce'')" "exec_enforce instr s = Inr (r, a)"
      "result out = r" "budget out = b - 1" "b \<noteq> 0" "hit_out out = (case r of Halted _ \<Rightarrow> True | _ \<Rightarrow> False)"
      "domain_attr_out out = a"
proof -
  from assms obtain v t where b: "b \<noteq> 0" and v: "json_get ''type'' instr = Some v" "as_str v = Some t"
    by (auto simp: execute_meta_instruction_budgeted.simps Let_def result_simps bind_eq_Some_conv split: if_splits)
  then have ty: "json_get ''type'' instr = Some (String t)" by (auto elim!: as_str.elims)
  with assms b have "t \<in> {''set'', ''push'', ''branch'', ''io_request'', ''enforce''}"
    by (auto simp: execute_meta_instruction_budgeted.simps Let_def split: if_splits)
  then consider "t = ''set''" | "t = ''push''" | "t = ''branch''" | "t = ''io_request''" | "t = ''enforce''"
    by blast
  then show thesis
  proof cases
    case 1
    with assms b ty show ?thesis
      by (auto simp: execute_meta_instruction_budgeted.simps result_simps intro!: set)
  next
    case 2
    with assms b ty show ?thesis
      by (auto simp: execute_meta_instruction_budgeted.simps result_simps intro!: push)
  next
    case 3
    with assms b ty show ?thesis
      by (auto simp: execute_meta_instruction_budgeted.simps result_simps intro!: branch)
  next
    case 4
    with assms b ty show ?thesis
      by (auto simp: execute_meta_instruction_budgeted.simps result_simps intro!: io)
  next
    case 5
    with assms b ty show ?thesis
      by (auto simp: execute_meta_instruction_budgeted.simps result_simps intro!: enforce)
  qed
qed

lemma exec_branch_InrE:
  assumes "exec_branch instr s d b = Inr out"
  obtains ps domain r where "d < MAX_BRANCH_DEPTH" "json_get ''params'' instr = Some ps"
    "resolve_path_or_literal s (json_get ''domain'' ps) = Inr domain"
    "evaluate_domain_outcome domain s = Inr r" "domain_attr_out out = Some (attribution domain r)"
    "(\<exists>instrs. json_get (if r = Sat then ''on_true'' else ''on_false'') ps = Some (Array instrs) \<and>
        branch_loop instrs s (d + 1) b = Inr (result out, budget out) \<and> hit_out out = (instrs \<noteq> [])) \<or>
     (result out = State s \<and> budget out = b \<and> \<not> hit_out out)"
proof -
  have arr: "(case x of None \<Rightarrow> None | Some v \<Rightarrow> as_array v) = Some xs \<longleftrightarrow> x = Some (Array xs)" for x xs
    by (auto split: option.splits elim!: as_array.elims)
  from assms show thesis
    by (auto simp: exec_branch.simps Let_def result_simps not_le arr split: if_splits option.splits prod.splits
        intro!: that)
qed

lemma io_result: "exec_io_request instr s = Inr r \<Longrightarrow> \<exists>io_type params. r = IoRequired io_type params"
  by (auto simp: exec_io_request_def result_simps)

lemma enforce_result:
  "exec_enforce instr s = Inr (r, a) \<Longrightarrow> r = State s \<or> (\<exists>reason. r = Halted reason)"
  by (auto simp: exec_enforce_def Let_def result_simps split: if_splits)

text \<open>
  A relation between states that holds for every \<open>set\<close> and \<open>push\<close> of the instructions at hand holds
  for every execution: the contract of a state change, and what follows from it for the dispatch.
\<close>

locale exec_relation =
  fixes P :: "json \<Rightarrow> bool" and R :: "json \<Rightarrow> json \<Rightarrow> bool"
  assumes refl: "R s s"
    and trans: "R s t \<Longrightarrow> R t u \<Longrightarrow> R s u"
    and set_step: "P instr \<Longrightarrow> json_get ''type'' instr = Some (String ''set'') \<Longrightarrow> exec_set instr s = Inr s' \<Longrightarrow> R s s'"
    and push_step: "P instr \<Longrightarrow> json_get ''type'' instr = Some (String ''push'') \<Longrightarrow> exec_push instr s = Inr s' \<Longrightarrow> R s s'"
    and sub_instr: "P instr \<Longrightarrow> json_get ''type'' instr = Some (String ''branch'') \<Longrightarrow>
      json_get ''params'' instr = Some ps \<Longrightarrow> k \<in> {''on_true'', ''on_false''} \<Longrightarrow>
      json_get k ps = Some (Array instrs) \<Longrightarrow> i \<in> set instrs \<Longrightarrow> P i"
begin

lemma execute_aux:
  "P instr \<Longrightarrow> execute_meta_instruction_budgeted instr s d b = Inr out \<Longrightarrow> result out = State s' \<Longrightarrow> R s s'"
  "P instr \<Longrightarrow> json_get ''type'' instr = Some (String ''branch'') \<Longrightarrow> exec_branch instr s d b = Inr out \<Longrightarrow>
   result out = State s' \<Longrightarrow> R s s'"
  "\<forall>i \<in> set instrs. P i \<Longrightarrow> branch_loop instrs s d b = Inr (State s', b') \<Longrightarrow> R s s'"
proof (induction instr s d b and instr s d b and instrs s d b arbitrary: out s' and out s' and s' b'
    rule: execute_meta_instruction_budgeted_exec_branch_branch_loop.induct)
  case (1 instr state depth bud)
  from 1(3) show ?case
  proof (cases rule: execute_InrE)
    case set
    with 1 show ?thesis by (auto intro: set_step)
  next
    case push
    with 1 show ?thesis by (auto intro: push_step)
  next
    case branch
    then show ?thesis using 1(4) by (intro 1(1) [of "bud - 1" _ "''branch''"] 1(2)) auto
  next
    case io
    with 1(4) io_result show ?thesis by fastforce
  next
    case enforce
    with 1(4) enforce_result refl show ?thesis by fastforce
  qed
next
  case (2 instr state depth bud)
  from 2(4) show ?case
  proof (cases rule: exec_branch_InrE)
    case (1 ps domain r)
    let ?k = "if r = Sat then ''on_true'' else ''on_false''"
    show ?thesis
    proof (cases "result out = State state \<and> budget out = bud \<and> \<not> hit_out out")
      case True
      with 2(5) refl show ?thesis by simp
    next
      case False
      with 1(6) obtain instrs where i: "json_get ?k ps = Some (Array instrs)"
        "branch_loop instrs state (depth + 1) bud = Inr (State s', budget out)"
        using 2(5) by auto
      then show ?thesis
        using 2(1) [of ps domain r ?k "Some (attribution domain r)" instrs s' "budget out"] 1(1-4)
          sub_instr [OF 2(2,3) 1(2) _ i(1)]
        by (simp add: not_le)
    qed
  qed
next
  case (3 state depth bud)
  then show ?case by (simp add: refl)
next
  case (4 sub_instr instrs state depth bud)
  then obtain out where out: "execute_meta_instruction_budgeted sub_instr state depth bud = Inr out"
    by (auto simp: result_simps)
  with 4(4) obtain t where t: "result out = State t" "branch_loop instrs t depth (budget out) = Inr (State s', b')"
    by (auto split: meta_instruction_result.splits)
  from 4(1) [OF _ out t(1)] 4(2) [OF out t(1) _ t(2)] 4(3) trans show ?case by auto
qed

lemma execute:
  "P instr \<Longrightarrow> execute_meta_instruction_budgeted instr s d b = Inr out \<Longrightarrow> result out = State s' \<Longrightarrow> R s s'"
  by (rule execute_aux(1))

end

interpretation frame: exec_relation "\<lambda>_. True" only_payload_and_queue
  by unfold_locales
    (auto intro: exec_set_frame exec_push_frame elim: only_payload_and_queue_trans)

section \<open>Well-formedness\<close>

lemma resolve_path_or_literal_wf [wf_intros]:
  "resolve_path_or_literal s v = Inr w \<Longrightarrow> wf_json s \<Longrightarrow> (\<And>u. v = Some u \<Longrightarrow> wf_json u) \<Longrightarrow> wf_json w"
  by (auto simp: resolve_path_or_literal_def result_simps split: option.splits json.splits if_splits
      intro: resolve_path_wf)

lemma apply_set_operation_wf [wf_intros]:
  "apply_set_operation op c v = Inr new \<Longrightarrow> wf_json v \<Longrightarrow> wf_json new"
  by (auto simp: apply_set_operation_def result_simps split: if_splits)

lemma exec_set_wf:
  assumes "exec_set instr s = Inr s'" "wf_json instr" "wf_json s"
  shows "wf_json s'"
  using assms(1)
proof (cases rule: exec_set_InrE)
  case (1 ps raw attr op val segments p p')
  have ps: "wf_json ps" using wf_json_get [OF assms(2) 1(1)] .
  have val: "wf_json val"
    using resolve_path_or_literal_wf [OF 1(5) assms(3)] wf_json_get [OF ps] by blast
  have p: "wf_json p" using walk_wf [OF 1(8) assms(3)] .
  from 1(9,7) show ?thesis
  proof (cases rule: set_in_payload_InrE)
    case (1 c put new)
    then have "wf_json p'" using slot_put_wf [OF 1(1) p] apply_set_operation_wf [OF 1(2) val] by simp
    with \<open>walk_mut (\<lambda>_. p') s payload_path = Some s'\<close> assms(3) show ?thesis by (auto intro: walk_mut_wf)
  qed
qed

lemma resolve_items_wf:
  "resolve_items s items = Inr xs \<Longrightarrow> wf_json s \<Longrightarrow> list_all wf_json items \<Longrightarrow> list_all wf_json xs"
proof (induction s items arbitrary: xs rule: resolve_items.induct)
  case (2 state item items)
  have sub: "list_all wf_json (case r of Array inner \<Rightarrow> inner | _ \<Rightarrow> [r])" if "wf_json r" for r
    using that by (cases r) auto
  from 2(2) obtain ys zs where ys: "(case item of
          String s \<Rightarrow>
            if starts_with ''__'' s then
              and_then (ok_or (PathResolutionFailed s ''path not found'') (resolve_path state s)) (\<lambda>resolved.
              Inr (case resolved of Array inner \<Rightarrow> inner | _ \<Rightarrow> [resolved]))
            else Inr [item]
        | _ \<Rightarrow> Inr [item]) = Inr ys" and zs: "resolve_items state items = Inr zs" "xs = ys @ zs"
    by (auto simp: result_simps)
  have "list_all wf_json ys"
    using ys 2(3,4) sub resolve_path_wf [of state _ _, OF _ 2(3)]
    by (cases item) (auto simp: result_simps split: if_splits)
  moreover have "list_all wf_json zs" using 2(1) [OF ys zs(1) 2(3)] 2(4) by simp
  ultimately show ?case by (simp add: zs(2))
qed simp

lemma exec_push_wf:
  assumes "exec_push instr s = Inr s'" "wf_json instr" "wf_json s"
  shows "wf_json s'"
  using assms(1)
proof (cases rule: exec_push_InrE)
  case noop
  with assms show ?thesis by simp
next
  case (push ps new q)
  have ps: "wf_json ps" using wf_json_get [OF assms(2) push(1)] .
  from push(2) obtain v arr where v: "resolve_path_or_literal s (json_get ''instructions'' ps) = Inr v"
    "as_array v = Some arr" "resolve_items s arr = Inr new"
    by (auto simp: resolve_instructions_list_def result_simps)
  have "wf_json v" using resolve_path_or_literal_wf [OF v(1) assms(3)] wf_json_get [OF ps] by blast
  then have "list_all wf_json new" using resolve_items_wf [OF v(3) assms(3)] wf_as_array [OF _ v(2)] by blast
  moreover have "list_all wf_json q" using walk_wf [OF push(4) assms(3)] by simp
  ultimately show ?thesis using push(5) assms(3) by (auto intro: walk_mut_wf)
qed

interpretation wfs: exec_relation wf_json "\<lambda>s s'. wf_json s \<longrightarrow> wf_json s'"
proof unfold_locales
  fix instr ps k instrs i
  assume "wf_json instr" "json_get ''params'' instr = Some ps" "json_get k ps = Some (Array instrs)"
    "i \<in> set instrs"
  then show "wf_json i" using wf_json_get [of ps k "Array instrs"] wf_json_get [of instr "''params''" ps]
    by (simp add: list_all_iff)
qed (auto intro: exec_set_wf exec_push_wf)

section \<open>The budget\<close>

lemma budget_aux:
  "execute_meta_instruction_budgeted instr s d b = Inr out \<Longrightarrow> budget out < b"
  "exec_branch instr s d b = Inr out \<Longrightarrow> budget out \<le> b"
  "branch_loop instrs s d b = Inr (r, b') \<Longrightarrow> b' + (case r of State _ \<Rightarrow> length instrs | _ \<Rightarrow> 0) \<le> b"
proof (induction instr s d b and instr s d b and instrs s d b arbitrary: out and out and r b'
    rule: execute_meta_instruction_budgeted_exec_branch_branch_loop.induct)
  case (1 instr state depth bud)
  from 1(2) show ?case
  proof (cases rule: execute_InrE)
    case branch
    then show ?thesis using 1(1) [of "bud - 1" _ "''branch''" out] by auto
  qed auto
next
  case (2 instr state depth bud)
  from 2(2) show ?case
  proof (cases rule: exec_branch_InrE)
    case (1 ps domain r)
    let ?k = "if r = Sat then ''on_true'' else ''on_false''"
    show ?thesis
      using 1(6) 2(1) [of ps domain r ?k "Some (attribution domain r)" _ "result out" "budget out"] 1(1-4)
      by (fastforce simp: not_le split: meta_instruction_result.splits)
  qed
next
  case (4 sub_instr instrs state depth bud)
  then obtain out where out: "execute_meta_instruction_budgeted sub_instr state depth bud = Inr out"
    by (auto simp: result_simps)
  show ?case
    using 4(1) [OF out] 4(2) [OF out] 4(3) out
    by (fastforce split: meta_instruction_result.splits)
qed simp

text \<open>More budget never changes the outcome of an execution that did not run out of it.\<close>

definition add_budget :: "nat \<Rightarrow> exec_out \<Rightarrow> exec_out" where
  "add_budget k out = out\<lparr>budget := budget out + k\<rparr>"

lemma add_budget_simps [simp]:
  "result (add_budget k out) = result out" "budget (add_budget k out) = budget out + k"
  "hit_out (add_budget k out) = hit_out out" "domain_attr_out (add_budget k out) = domain_attr_out out"
  "add_budget k \<lparr>result = r, budget = n, hit_out = h, domain_attr_out = a\<rparr> =
     \<lparr>result = r, budget = n + k, hit_out = h, domain_attr_out = a\<rparr>"
  by (simp_all add: add_budget_def)

lemma map_ok_map_ok: "map_ok f (map_ok g m) = map_ok (\<lambda>x. f (g x)) m"
  by (cases m) auto

lemma budget_mono_aux:
  "execute_meta_instruction_budgeted instr s d b \<noteq> Inl (TooManyExecutedInstructions MAX_TOTAL_META_INSTRUCTIONS) \<Longrightarrow>
   execute_meta_instruction_budgeted instr s d (b + k) =
     map_ok (add_budget k) (execute_meta_instruction_budgeted instr s d b)"
  "exec_branch instr s d b \<noteq> Inl (TooManyExecutedInstructions MAX_TOTAL_META_INSTRUCTIONS) \<Longrightarrow>
   exec_branch instr s d (b + k) = map_ok (add_budget k) (exec_branch instr s d b)"
  "branch_loop instrs s d b \<noteq> Inl (TooManyExecutedInstructions MAX_TOTAL_META_INSTRUCTIONS) \<Longrightarrow>
   branch_loop instrs s d (b + k) = map_ok (\<lambda>(r, n). (r, n + k)) (branch_loop instrs s d b)"
proof (induction instr s d b and instr s d b and instrs s d b
    rule: execute_meta_instruction_budgeted_exec_branch_branch_loop.induct)
  case (1 instr state depth bud)
  have b: "bud \<noteq> 0"
  proof
    assume "bud = 0"
    with 1(2) show False by (subst (asm) execute_meta_instruction_budgeted.simps) simp
  qed
  then have sub: "bud + k - 1 = bud - 1 + k" by simp
  show ?case
  proof (cases "do { v \<leftarrow> json_get ''type'' instr; as_str v }")
    case None
    with b show ?thesis by (simp add: execute_meta_instruction_budgeted.simps)
  next
    case (Some t)
    show ?thesis
    proof (cases "t = ''branch''")
      case True
      then have eq: "\<And>n. n \<noteq> 0 \<Longrightarrow> execute_meta_instruction_budgeted instr state depth n =
          exec_branch instr state depth (n - 1)"
        using Some by (simp add: execute_meta_instruction_budgeted.simps Let_def)
      have "exec_branch instr state depth (bud - 1 + k) = map_ok (add_budget k) (exec_branch instr state depth (bud - 1))"
        by (rule 1(1) [of "bud - 1" _ t]) (use b Some True 1(2) eq [OF b] in auto)
      with b sub show ?thesis by (simp add: eq)
    next
      case False
      with b Some sub show ?thesis
        by (cases "exec_enforce instr state")
          (auto simp: execute_meta_instruction_budgeted.simps Let_def map_ok_map_ok)
    qed
  qed
next
  case (2 instr state depth bud)
  show ?case
  proof (cases "depth \<ge> MAX_BRANCH_DEPTH")
    case True
    then show ?thesis by (simp add: exec_branch.simps)
  next
    case d: False
    show ?thesis
    proof (cases "\<exists>ps domain r instrs. json_get ''params'' instr = Some ps \<and>
        resolve_path_or_literal state (json_get ''domain'' ps) = Inr domain \<and>
        evaluate_domain_outcome domain state = Inr r \<and>
        (case json_get (if to_bool r then ''on_true'' else ''on_false'') ps of Some v \<Rightarrow> as_array v | None \<Rightarrow> None) = Some instrs")
      case False
      with d show ?thesis
        by (fastforce simp: exec_branch.simps and_then_def ok_or_def Let_def split: option.splits sum.splits)
    next
      case True
      then obtain ps domain r instrs where *: "json_get ''params'' instr = Some ps"
        "resolve_path_or_literal state (json_get ''domain'' ps) = Inr domain"
        "evaluate_domain_outcome domain state = Inr r"
        "(case json_get (if to_bool r then ''on_true'' else ''on_false'') ps of Some v \<Rightarrow> as_array v | None \<Rightarrow> None) = Some instrs"
        by blast
      then have eq: "\<And>n. exec_branch instr state depth n =
          map_ok (\<lambda>(res, bud'). \<lparr>result = res, budget = bud', hit_out = (instrs \<noteq> []),
             domain_attr_out = Some (attribution domain r)\<rparr>) (branch_loop instrs state (depth + 1) n)"
        using d by (simp add: exec_branch.simps)
      have "branch_loop instrs state (depth + 1) (bud + k) =
          map_ok (\<lambda>(r, n). (r, n + k)) (branch_loop instrs state (depth + 1) bud)"
        by (rule 2(1) [OF d _ _ _ refl refl *(4)]) (use * 2(2) eq in auto)
      then show ?thesis by (simp add: eq map_ok_map_ok case_prod_beta)
    qed
  qed
next
  case (4 sub_instr instrs state depth bud)
  let ?e = "execute_meta_instruction_budgeted sub_instr state depth"
  from 4(3) have "?e bud \<noteq> Inl (TooManyExecutedInstructions MAX_TOTAL_META_INSTRUCTIONS)" by auto
  from 4(1) [OF this] have e: "?e (bud + k) = map_ok (add_budget k) (?e bud)" .
  show ?case
  proof (cases "?e bud")
    case (Inr out)
    then show ?thesis
      using e 4(2) [OF Inr] 4(3) by (cases "result out") auto
  qed (use e in auto)
qed simp

section \<open>The parameters of an I/O request\<close>

definition is_optional :: "string \<Rightarrow> bool" where
  "is_optional key = ends_with_char (CHR ''?'') key"

definition param_key :: "string \<Rightarrow> string" where
  "param_key key = (if is_optional key then butlast key else key)"

lemma io_params_step:
  "key \<noteq> ''io_type'' \<Longrightarrow> io_params_loop s ((key, v) # es) rp =
     (case resolve_path_or_literal s (Some v) of
        Inr w \<Rightarrow> io_params_loop s es (bt_put (param_key key) w rp)
      | Inl e \<Rightarrow> (if is_optional key \<and> (\<exists>p r. e = PathResolutionFailed p r)
                  then io_params_loop s es rp else Inl e))"
  by (auto simp: strip_suffix_char_def param_key_def is_optional_def split: sum.splits tcb_error.splits)

text \<open>The parameters of one request name: the last entry that yields it and resolves.\<close>

lemma io_params_untouched:
  "io_params_loop s es rp = Inr rp' \<Longrightarrow> \<forall>(k, v) \<in> set es. k \<noteq> ''io_type'' \<longrightarrow> param_key k \<noteq> name \<Longrightarrow>
   bt_get name rp' = bt_get name rp"
proof (induction es arbitrary: rp)
  case (Cons e es)
  obtain k v where e: "e = (k, v)" by fastforce
  show ?case
  proof (cases "k = ''io_type''")
    case False
    with Cons.prems Cons.IH show ?thesis
      by (auto simp: e io_params_step simp del: io_params_loop.simps split: sum.splits if_splits)
  qed (use Cons e in auto)
qed simp

lemma io_params_required:
  "io_params_loop s es rp = Inr rp' \<Longrightarrow> (k, v) \<in> set es \<Longrightarrow> k \<noteq> ''io_type'' \<Longrightarrow> \<not> is_optional k \<Longrightarrow>
   \<exists>w. resolve_path_or_literal s (Some v) = Inr w"
proof (induction es arbitrary: rp)
  case (Cons e es)
  obtain j u where e: "e = (j, u)" by fastforce
  show ?case
  proof (cases "j = ''io_type''")
    case False
    with Cons.prems Cons.IH show ?thesis
      by (auto simp: e io_params_step simp del: io_params_loop.simps split: sum.splits if_splits)
  qed (use Cons e in auto)
qed simp

lemma io_params_value:
  assumes "io_params_loop s (es @ (k, v) # fs) rp = Inr rp'" "k \<noteq> ''io_type''"
    and "resolve_path_or_literal s (Some v) = Inr w"
    and "\<forall>(j, u) \<in> set fs. j \<noteq> ''io_type'' \<longrightarrow> param_key j \<noteq> param_key k"
  shows "bt_get (param_key k) rp' = Some w"
  using assms(1)
proof (induction es arbitrary: rp)
  case Nil
  then have "io_params_loop s fs (bt_put (param_key k) w rp) = Inr rp'"
    using assms(2,3) by (simp add: io_params_step del: io_params_loop.simps)
  from io_params_untouched [OF this assms(4)] show ?case by simp
next
  case (Cons e es)
  obtain j u where e: "e = (j, u)" by fastforce
  show ?case
  proof (cases "j = ''io_type''")
    case False
    with Cons show ?thesis
      by (auto simp: e io_params_step simp del: io_params_loop.simps split: sum.splits if_splits)
  qed (use Cons e in auto)
qed

section \<open>Properties\<close>

text \<open>
  C2: a \<open>set\<close> that succeeds writes exactly one place.  With \<open>attr\<close> resolved to a path below the
  payload, the value read back at that path is the result of the operation on the value that was
  there (an absent or null field counts as 0), every path that forks off it reads what it read
  before, and nothing outside the payload and the queue changes.
\<close>

theorem set_reads_back:
  assumes "exec_set instr s = Inr s'"
  shows "\<exists>ps raw attr segs op v p p' new.
     json_get ''params'' instr = Some ps \<and> json_get ''attr'' ps = Some raw \<and>
     set_attr s raw = Inr attr \<and> parse_path_segments attr = Some segs \<and>
     json_get ''operation'' ps = Some (String op) \<and>
     resolve_path_or_literal s (json_get ''value'' ps) = Inr v \<and>
     walk s payload_path = Some p \<and> walk s' payload_path = Some p' \<and>
     apply_set_operation op (slot_start segs (walk p segs)) v = Inr new \<and>
     walk p' segs = Some new \<and>
     (\<forall>other. path_apart segs other \<longrightarrow> walk p' other = walk p other) \<and>
     only_payload_and_queue s s'"
  using assms
proof (cases rule: exec_set_InrE)
  case (1 ps raw attr op val segments p p')
  from 1(9,7) show ?thesis
  proof (cases rule: set_in_payload_InrE)
    case slot: (1 c put new)
    have "walk s' payload_path = Some p'"
      using 1(10) write_below_exec(3) by (simp add: payload_path_def)
    then show ?thesis
      using 1 slot slot_put_walk [OF slot(1)] slot_frame [OF slot(1)] slot_at_value [OF slot(1)]
        exec_set_frame [OF assms] by blast
  qed
qed

definition sample_state :: "json \<Rightarrow> json" where
  "sample_state payload =
     Object [(''__exec__'', Object [(''instruction'', Null), (''payload'', payload), (''queue'', Array [])])]"

definition sample_set :: json where
  "sample_set = Object [(''params'', Object [(''attr'', String ''a.b''), (''operation'', String ''add''),
     (''value'', Integer 2)]), (''type'', String ''set'')]"

lemma sample_set_runs:
  "exec_set sample_set (sample_state (Object [])) = Inr (sample_state (Object [(''a'', Object [(''b'', Integer 2)])]))"
  by code_simp

theorem set_reads_back_witness:
  "\<exists>p p' new. walk (sample_state (Object [])) payload_path = Some p \<and>
     walk (sample_state (Object [(''a'', Object [(''b'', Integer 2)])])) payload_path = Some p' \<and>
     (\<exists>segs. parse_path_segments ''a.b'' = Some segs \<and> walk p' segs = Some new)"
  using set_reads_back [OF sample_set_runs]
  by (auto simp: sample_set_def set_attr_def guarded_attr_def resolve_attr_from_state_def
      resolve_path_or_literal_def starts_with_def strip_prefix_def simp del: walk.simps)

text \<open>
  C5: integer \<open>add\<close> and \<open>sub\<close> never wrap: the result is the exact sum or difference when it fits in
  an \<open>i64\<close>, and an \<open>IntegerOverflow\<close> with both operands when it does not.
\<close>

theorem set_arithmetic_exact:
  "(case apply_set_operation ''add'' (Integer a) (Integer b) of
      Inr r \<Rightarrow> (\<exists>n. r = Integer n \<and> sint n = sint a + sint b)
    | Inl e \<Rightarrow> e = IntegerOverflow ''add'' a b \<and> \<not> in_i64 (sint a + sint b)) \<and>
   (case apply_set_operation ''sub'' (Integer a) (Integer b) of
      Inr r \<Rightarrow> (\<exists>n. r = Integer n \<and> sint n = sint a - sint b)
    | Inl e \<Rightarrow> e = IntegerOverflow ''sub'' a b \<and> \<not> in_i64 (sint a - sint b))"
  by (cases "checked_add_i64 a b"; cases "checked_sub_i64 a b")
    (auto simp: apply_set_operation_def simp flip: checked_add_i64_None checked_sub_i64_None
      dest: checked_add_i64_exact checked_sub_i64_exact)

text \<open>
  C3: confinement of the executor.  Whatever instruction runs, nested branches included, the
  resulting state differs from the given one only in \<open>__exec__.payload\<close> and \<open>__exec__.queue\<close>; the
  queue keeps the instructions it had, with new ones only in front of them.
\<close>

theorem execute_confined:
  assumes "execute_meta_instruction instr s d = Inr (State s')"
  shows "only_payload_and_queue s s'"
  using assms by (auto simp: execute_meta_instruction_def result_simps intro: frame.execute dest: sym)

theorem execute_confined_witness:
  "only_payload_and_queue (sample_state (Object []))
     (sample_state (Object [(''a'', Object [(''b'', Integer 2)])]))"
  by (rule execute_confined [of sample_set _ 0])
    (simp add: execute_meta_instruction_def execute_meta_instruction_budgeted.simps sample_set_runs Let_def
      sample_set_def [THEN arg_cong [where f = "json_get ''type''"]] MAX_TOTAL_META_INSTRUCTIONS_def)

text \<open>
  Well-formed data stays well-formed: an instruction and a state whose objects are all sorted by
  key without duplicates (what a \<open>BTreeMap\<close> guarantees) give such a state again.
\<close>

theorem execute_preserves_wf:
  assumes "execute_meta_instruction instr s d = Inr (State s')" "wf_json instr" "wf_json s"
  shows "wf_json s'"
  using assms by (auto simp: execute_meta_instruction_def result_simps dest: wfs.execute sym)

theorem execute_preserves_wf_witness:
  "wf_json (sample_state (Object [(''a'', Object [(''b'', Integer 2)])]))"
  by (rule execute_preserves_wf [of sample_set "sample_state (Object [])" 0])
    (simp_all add: execute_meta_instruction_def execute_meta_instruction_budgeted.simps sample_set_runs Let_def
      sample_set_def [THEN arg_cong [where f = "json_get ''type''"]] MAX_TOTAL_META_INSTRUCTIONS_def,
     code_simp+)

text \<open>
  The budget bounds an execution and does nothing else: every instruction, nested ones included,
  takes one unit, so a run that returns has strictly less left, and a run that returns with a budget
  returns the same result, hit flag and attribution with any larger one.
\<close>

theorem budget_only_limits:
  assumes "execute_meta_instruction_budgeted instr s d b = Inr out"
  shows "budget out < b \<and> execute_meta_instruction_budgeted instr s d (b + k) = Inr (add_budget k out)"
  using assms budget_aux(1) budget_mono_aux(1) [of instr s d b k] by simp

theorem budget_only_limits_witness:
  "\<exists>out. execute_meta_instruction_budgeted sample_set (sample_state (Object [])) 0 1 = Inr out \<and>
     execute_meta_instruction_budgeted sample_set (sample_state (Object [])) 0 (1 + 5) = Inr (add_budget 5 out)"
proof -
  have "\<exists>out. execute_meta_instruction_budgeted sample_set (sample_state (Object [])) 0 1 = Inr out"
    by (simp add: execute_meta_instruction_budgeted.simps sample_set_runs
        sample_set_def [THEN arg_cong [where f = "json_get ''type''"]])
  then show ?thesis using budget_only_limits [of sample_set "sample_state (Object [])" 0 1 _ 5] by blast
qed

text \<open>
  An I/O request carries every parameter the rule declares as required.  When the request is
  issued, each key without the \<open>?\<close> suffix resolved, and its value is the one in the request, unless an
  optional key of the same name follows it.
\<close>

theorem io_request_required_params:
  assumes "exec_io_request instr s = Inr (IoRequired io_type (Object rp))"
    and "json_get ''params'' instr = Some (Object ps)"
    and "ps = es @ (k, v) # fs" "k \<noteq> ''io_type''" "\<not> is_optional k"
    and "\<forall>(j, u) \<in> set fs. j \<noteq> ''io_type'' \<longrightarrow> param_key j \<noteq> k"
  shows "\<exists>w. resolve_path_or_literal s (Some v) = Inr w \<and> bt_get k rp = Some w"
proof -
  have loop: "io_params_loop s (es @ (k, v) # fs) bt_new = Inr rp"
    using assms(1-3) by (auto simp: exec_io_request_def result_simps)
  obtain w where "resolve_path_or_literal s (Some v) = Inr w"
    using io_params_required [OF loop, of k v] assms(4,5) by auto
  moreover have "param_key k = k" using assms(5) by (simp add: param_key_def)
  ultimately show ?thesis using io_params_value [OF loop assms(4)] assms(6) by auto
qed

theorem io_request_required_params_witness:
  "\<exists>w. resolve_path_or_literal Null (Some (Bool True)) = Inr w \<and>
     bt_get ''url'' [(''url'', Bool True)] = Some w"
  by (rule io_request_required_params [where es = "[(''io_type'', String ''http'')]" and fs = "[]"
        and io_type = "''http''" and instr = "Object [(''params'', Object [(''io_type'', String ''http''), (''url'', Bool True)])]"])
    (simp_all add: exec_io_request_def resolve_path_or_literal_def bt_new_def strip_suffix_char_def
      ends_with_char_def is_optional_def)

end
