(* ===== verification/Transition.thy ===== *)
theory Transition
  imports Executor "HOL-Library.Multiset"
begin

text \<open>
  One state transition, \<open>evorule-tcb/src/transition.rs\<close>: the constraint gate that evaluates every
  top-level \<open>enforce\<close> rule on the input state, the loop over the other transform rules with the
  shared budget, the attribution of rule hits, and the detection of ignored instructions.
\<close>

section \<open>Results\<close>

definition MAX_TRANSFORM_RULES :: usize where
  "MAX_TRANSFORM_RULES = 128"

record rule_hit =
  index :: usize
  instr_type :: string
  hit :: bool
  domain_attr :: "domain_attribution option"

datatype transition_result =
    TState json "json list" "rule_hit list"
  | TIoRequired string json
  | THalted usize string
  | TIgnored string string "rule_hit list"

section \<open>The transition\<close>

definition build_exec_state :: "json \<Rightarrow> json \<Rightarrow> json list \<Rightarrow> json" where
  "build_exec_state instruction payload queue =
     (let exec = bt_put ''queue'' (Array queue)
                   (bt_put ''payload'' payload (bt_put ''instruction'' instruction bt_new)) in
      Object (bt_put ''__exec__'' (Object exec) bt_new))"

definition type_or_unknown :: "json \<Rightarrow> string" where
  "type_or_unknown rule = unwrap_or ''unknown'' (do { v \<leftarrow> json_get ''type'' rule; as_str v })"

definition hit_of :: "usize \<Rightarrow> string \<Rightarrow> exec_out \<Rightarrow> rule_hit" where
  "hit_of i ty out = \<lparr>index = i, instr_type = ty, hit = hit_out out, domain_attr = domain_attr_out out\<rparr>"

text \<open>The gate: the first satisfied \<open>enforce\<close> rule, or the budget left and the hits collected.\<close>

datatype gate_result = GateHalted usize string | GatePassed usize "rule_hit list"

fun enforce_gate :: "usize \<Rightarrow> json list \<Rightarrow> json \<Rightarrow> usize \<Rightarrow> rule_hit list \<Rightarrow> gate_result tcb" where
  "enforce_gate i [] exec_state bud enforce_hits = Inr (GatePassed bud enforce_hits)"
| "enforce_gate i (rule # rules) exec_state bud enforce_hits =
     (let ty = type_or_unknown rule in
      if ty \<noteq> ''enforce'' then enforce_gate (i + 1) rules exec_state bud enforce_hits
      else
        and_then (execute_meta_instruction_budgeted rule exec_state 0 bud) (\<lambda>out.
        let enforce_hits' = enforce_hits @ [hit_of i ty out] in
        case result out of
          Halted reason \<Rightarrow> Inr (GateHalted i reason)
        | _ \<Rightarrow> enforce_gate (i + 1) rules exec_state (budget out) enforce_hits'))"

datatype transform_result = Signal transition_result | Transformed json "rule_hit list"

fun transform_loop :: "usize \<Rightarrow> json list \<Rightarrow> json \<Rightarrow> usize \<Rightarrow> rule_hit list \<Rightarrow> transform_result tcb" where
  "transform_loop i [] state bud rule_hits = Inr (Transformed state rule_hits)"
| "transform_loop i (rule # rules) state bud rule_hits =
     (let ty = type_or_unknown rule in
      if ty = ''enforce'' then transform_loop (i + 1) rules state bud rule_hits
      else
        and_then (execute_meta_instruction_budgeted rule state 0 bud) (\<lambda>out.
        let rule_hits' = rule_hits @ [hit_of i ty out] in
        case result out of
          State new_state \<Rightarrow> transform_loop (i + 1) rules new_state (budget out) rule_hits'
        | IoRequired io_type params \<Rightarrow> Inr (Signal (TIoRequired io_type params))
        | Halted reason \<Rightarrow> Inr (Signal (THalted i reason))))"

text \<open>Whether a rule of the list is meant for the instruction.\<close>

definition matches_instruction :: "string \<Rightarrow> json \<Rightarrow> bool" where
  "matches_instruction instruction_type rule =
     (case (do { p \<leftarrow> json_get ''params'' rule; as_object p }) of
        Some params \<Rightarrow>
          (case (do { d \<leftarrow> bt_get ''domain'' params; as_object d }) of
             Some domain \<Rightarrow>
               (case (do { t \<leftarrow> bt_get ''type'' domain; as_str t }) of
                  Some domain_type \<Rightarrow>
                    if domain_type = ''instruction'' then
                      (case (do { t \<leftarrow> bt_get ''instruction_type'' domain; as_str t }) of
                         Some expected_type \<Rightarrow> expected_type = instruction_type
                       | None \<Rightarrow> False)
                    else if domain_type = ''all'' then False
                    else True
                | None \<Rightarrow> False)
           | None \<Rightarrow> False)
      | None \<Rightarrow>
          (case (do { t \<leftarrow> json_get ''type'' rule; as_str t }) of
             Some rule_type \<Rightarrow>
               if rule_type \<in> {''set'', ''increment'', ''decrement'', ''branch''}
               then rule_type = instruction_type else False
           | None \<Rightarrow> False))"

definition finish_transition ::
  "json list \<Rightarrow> json \<Rightarrow> json \<Rightarrow> json list \<Rightarrow> json \<Rightarrow> rule_hit list \<Rightarrow> transition_result tcb" where
  "finish_transition core_eval instruction payload queue state rule_hits =
     (let instruction_type = type_or_unknown instruction;
          has_matching = list_ex (matches_instruction instruction_type) core_eval in
      and_then (ok_or (InvalidState ''__exec__.payload not found in state after transform execution'')
                 (resolve_path state ''__exec__.payload'')) (\<lambda>new_payload.
      and_then (ok_or (InvalidState ''__exec__.queue not found or not an array after transform execution'')
                 (do { v \<leftarrow> resolve_path state ''__exec__.queue''; as_array v })) (\<lambda>new_queue.
      let has_side_effect = (\<not> json_eq new_payload payload \<or> \<not> json_eq_list new_queue queue) in
      if \<not> has_matching \<and> \<not> has_side_effect
      then Inr (TIgnored instruction_type ''instruction not matched by any constitution rule'' rule_hits)
      else Inr (TState new_payload new_queue rule_hits))))"

definition execute_transition ::
  "json list \<Rightarrow> json \<Rightarrow> json \<Rightarrow> json list \<Rightarrow> transition_result tcb" where
  "execute_transition core_eval instruction payload queue =
     (if length core_eval > MAX_TRANSFORM_RULES
      then Inl (TooManyTransformRules MAX_TRANSFORM_RULES (length core_eval))
      else
        (let exec_state = build_exec_state instruction payload queue in
         and_then (enforce_gate 0 core_eval exec_state MAX_TOTAL_META_INSTRUCTIONS []) (\<lambda>gate.
         case gate of
           GateHalted rule_index reason \<Rightarrow> Inr (THalted rule_index reason)
         | GatePassed bud enforce_hits \<Rightarrow>
             and_then (transform_loop 0 core_eval exec_state bud []) (\<lambda>r.
             case r of
               Signal signal \<Rightarrow> Inr signal
             | Transformed state rule_hits \<Rightarrow>
                 finish_transition core_eval instruction payload queue state
                   (sort_key index (rule_hits @ enforce_hits))))))"

section \<open>Lemmas\<close>

lemma exec_state_eq:
  "build_exec_state i p q = Object [(''__exec__'',
     Object [(''instruction'', i), (''payload'', p), (''queue'', Array q)])]"
  by (simp add: build_exec_state_def bt_new_def)

lemma build_exec_state_paths [simp]:
  "walk (build_exec_state i p q) payload_path = Some p"
  "walk (build_exec_state i p q) queue_path = Some (Array q)"
  "walk (build_exec_state i p q) [Field ''__exec__'', Field ''instruction''] = Some i"
  by (simp_all add: exec_state_eq payload_path_def queue_path_def)

lemma build_exec_state_wf [wf_intros]:
  "wf_json i \<Longrightarrow> wf_json p \<Longrightarrow> list_all wf_json q \<Longrightarrow> wf_json (build_exec_state i p q)"
  by (auto simp: build_exec_state_def Let_def intro!: wf_map_put)

lemma type_or_unknown_eq: "t \<noteq> ''unknown'' \<Longrightarrow> type_or_unknown r = t \<longleftrightarrow> json_get ''type'' r = Some (String t)"
  by (auto simp: type_or_unknown_def unwrap_or_def bind_eq_Some_conv split: option.splits elim!: as_str.elims)

lemma execute_enforce:
  assumes "json_get ''type'' rule = Some (String ''enforce'')" "b \<noteq> 0"
  shows "execute_meta_instruction_budgeted rule s d b =
     map_ok (\<lambda>(r, a). \<lparr>result = r, budget = b - 1, hit_out = (case r of Halted _ \<Rightarrow> True | _ \<Rightarrow> False),
       domain_attr_out = a\<rparr>) (exec_enforce rule s)"
  using assms by (simp add: execute_meta_instruction_budgeted.simps)

text \<open>A rule whose domain holds in the state it is evaluated in.\<close>

definition enforce_violated :: "json \<Rightarrow> json \<Rightarrow> bool" where
  "enforce_violated rule s \<longleftrightarrow>
     json_get ''type'' rule = Some (String ''enforce'') \<and>
     (\<exists>ps d. json_get ''params'' rule = Some ps \<and>
        resolve_path_or_literal s (json_get ''domain'' ps) = Inr d \<and> evaluate_domain d s = Inr True)"

lemma violated_halts:
  "enforce_violated rule s \<Longrightarrow> exec_enforce rule s = Inr (r, a) \<Longrightarrow> \<exists>reason. r = Halted reason"
  by (auto simp: enforce_violated_def exec_enforce_def evaluate_domain_def evaluate_domain_outcome_def
      Let_def result_simps)

definition is_enforce :: "json \<Rightarrow> bool" where
  "is_enforce rule \<longleftrightarrow> type_or_unknown rule = ''enforce''"

lemma gate_Cons:
  "enforce_gate i (r # rules) s b hs = Inr (GatePassed b' hs') \<longleftrightarrow>
     (if is_enforce r
      then (\<exists>out. execute_meta_instruction_budgeted r s 0 b = Inr out \<and> (\<forall>reason. result out \<noteq> Halted reason) \<and>
              enforce_gate (i + 1) rules s (budget out) (hs @ [hit_of i (type_or_unknown r) out]) =
                Inr (GatePassed b' hs'))
      else enforce_gate (i + 1) rules s b hs = Inr (GatePassed b' hs'))"
proof (cases "execute_meta_instruction_budgeted r s 0 b")
  case (Inr out)
  then show ?thesis by (cases "result out") (simp_all add: is_enforce_def Let_def)
qed (auto simp: is_enforce_def Let_def)

lemma transform_Cons:
  "transform_loop i (r # rules) s b hs = Inr (Transformed s' hs') \<longleftrightarrow>
     (if is_enforce r then transform_loop (i + 1) rules s b hs = Inr (Transformed s' hs')
      else (\<exists>out t. execute_meta_instruction_budgeted r s 0 b = Inr out \<and> result out = State t \<and>
              transform_loop (i + 1) rules t (budget out) (hs @ [hit_of i (type_or_unknown r) out]) =
                Inr (Transformed s' hs')))"
proof (cases "execute_meta_instruction_budgeted r s 0 b")
  case (Inr out)
  then show ?thesis by (cases "result out") (simp_all add: is_enforce_def Let_def)
qed (auto simp: is_enforce_def Let_def)

declare enforce_gate.simps(2) [simp del] transform_loop.simps(2) [simp del]

lemma enforce_run_not_violated:
  assumes "execute_meta_instruction_budgeted r s 0 b = Inr out" "\<forall>reason. result out \<noteq> Halted reason"
  shows "\<not> enforce_violated r s"
proof
  assume v: "enforce_violated r s"
  then have ty: "json_get ''type'' r = Some (String ''enforce'')" by (simp add: enforce_violated_def)
  from assms(1) show False
    by (cases rule: execute_InrE) (use ty assms(2) violated_halts [OF v] in auto)
qed

lemma gate_passed_not_violated:
  "enforce_gate i rules s b hs = Inr (GatePassed b' hs') \<Longrightarrow> rule \<in> set rules \<Longrightarrow> \<not> enforce_violated rule s"
proof (induction rules arbitrary: i b hs)
  case (Cons r rules)
  have "is_enforce r" if "enforce_violated r s"
    using that by (simp add: is_enforce_def enforce_violated_def type_or_unknown_eq)
  with Cons enforce_run_not_violated [of r s] show ?case
    by (auto simp: gate_Cons split: if_splits)
qed simp

text \<open>The attribution: one hit per rule, in the order of the rules, with the type of the rule.\<close>

definition hits_ok :: "json list \<Rightarrow> rule_hit list \<Rightarrow> bool" where
  "hits_ok rules hs \<longleftrightarrow> (\<forall>h \<in> set hs. index h < length rules \<and> instr_type h = type_or_unknown (rules ! index h))"

lemma hit_of_simps [simp]: "index (hit_of i ty out) = i" "instr_type (hit_of i ty out) = ty"
  by (simp_all add: hit_of_def)

lemma hits_ok_snoc:
  "hits_ok (pre @ r # rules) (hs @ [hit_of (length pre) (type_or_unknown r) out]) \<longleftrightarrow> hits_ok (pre @ r # rules) hs"
  by (auto simp: hits_ok_def)

lemma gate_hits:
  "enforce_gate (length pre) rules s b hs = Inr (GatePassed b' hs') \<Longrightarrow> hits_ok (pre @ rules) hs \<Longrightarrow>
   hits_ok (pre @ rules) hs' \<and>
   map index hs' = map index hs @ filter (\<lambda>j. is_enforce ((pre @ rules) ! j)) [length pre..<length pre + length rules]"
proof (induction rules arbitrary: pre b hs)
  case (Cons r rules)
  have upt: "[length pre..<length pre + length (r # rules)] = length pre # [length (pre @ [r])..<length (pre @ [r]) + length rules]"
    by (simp add: upt_conv_Cons del: upt_Suc)
  note ih = Cons.IH [of "pre @ [r]"]
  show ?case
  proof (cases "is_enforce r")
    case False
    with Cons.prems ih [of b hs] show ?thesis
      unfolding upt by (simp add: gate_Cons del: upt_Suc)
  next
    case True
    with Cons.prems(1) obtain out where
      "enforce_gate (length (pre @ [r])) rules s (budget out) (hs @ [hit_of (length pre) (type_or_unknown r) out]) =
         Inr (GatePassed b' hs')"
      by (auto simp: gate_Cons)
    from ih [OF this] True Cons.prems(2) show ?thesis
      unfolding upt by (simp add: hits_ok_snoc del: upt_Suc)
  qed
qed simp

lemma transform_hits:
  "transform_loop (length pre) rules s b hs = Inr (Transformed s' hs') \<Longrightarrow> hits_ok (pre @ rules) hs \<Longrightarrow>
   hits_ok (pre @ rules) hs' \<and>
   map index hs' = map index hs @ filter (\<lambda>j. \<not> is_enforce ((pre @ rules) ! j)) [length pre..<length pre + length rules]"
proof (induction rules arbitrary: pre s b hs)
  case (Cons r rules)
  have upt: "[length pre..<length pre + length (r # rules)] = length pre # [length (pre @ [r])..<length (pre @ [r]) + length rules]"
    by (simp add: upt_conv_Cons del: upt_Suc)
  note ih = Cons.IH [of "pre @ [r]"]
  show ?case
  proof (cases "is_enforce r")
    case True
    with Cons.prems ih [of s b hs] show ?thesis
      unfolding upt by (simp add: transform_Cons del: upt_Suc)
  next
    case False
    with Cons.prems(1) obtain out t where
      "transform_loop (length (pre @ [r])) rules t (budget out) (hs @ [hit_of (length pre) (type_or_unknown r) out]) =
         Inr (Transformed s' hs')"
      by (auto simp: transform_Cons)
    from ih [OF this] False Cons.prems(2) show ?thesis
      unfolding upt by (simp add: hits_ok_snoc del: upt_Suc)
  qed
qed simp

lemma sorted_hits:
  assumes "mset (map index hs) = mset [0..<n]"
  shows "map index (sort_key index hs) = [0..<n]"
proof -
  have "mset (map index (sort_key index hs)) = mset [0..<n]"
    using assms by (metis mset_map mset_sort)
  then show ?thesis
    using properties_for_sort [of "map index (sort_key index hs)" "[0..<n]"]
    by (simp add: sorted_sort_id)
qed

lemma gate_halted:
  fixes pre :: "json list"
  shows "enforce_gate (length pre) rules s b hs = Inr (GateHalted i reason) \<Longrightarrow>
   \<exists>j. i = length pre + j \<and> j < length rules \<and> enforce_violated (rules ! j) s \<and>
       (\<forall>k < j. \<not> enforce_violated (rules ! k) s) \<and>
       (\<exists>ps. json_get ''params'' (rules ! j) = Some ps \<and> json_get ''reason'' ps = Some (String reason))"
proof (induction rules arbitrary: pre b hs)
  case (Cons r rules)
  note ih = Cons.IH [of "pre @ [r]"]
  have later: ?case
    if g: "enforce_gate (length (pre @ [r])) rules s b1 hs1 = Inr (GateHalted i reason)"
      and n: "\<not> enforce_violated r s" for b1 hs1
  proof -
    from ih [OF g] obtain j where j: "i = length (pre @ [r]) + j" "j < length rules" "enforce_violated (rules ! j) s"
      "\<forall>k < j. \<not> enforce_violated (rules ! k) s"
      "\<exists>ps. json_get ''params'' (rules ! j) = Some ps \<and> json_get ''reason'' ps = Some (String reason)"
      by blast
    with n show ?thesis by (intro exI [of _ "Suc j"]) (auto simp: nth_Cons split: nat.splits)
  qed
  show ?case
  proof (cases "is_enforce r")
    case False
    then have "\<not> enforce_violated r s"
      by (auto simp: is_enforce_def enforce_violated_def type_or_unknown_eq)
    with False Cons.prems later show ?thesis by (simp add: is_enforce_def enforce_gate.simps Let_def)
  next
    case True
    with Cons.prems obtain out where out: "execute_meta_instruction_budgeted r s 0 b = Inr out"
      by (auto simp: is_enforce_def enforce_gate.simps Let_def result_simps)
    show ?thesis
    proof (cases "\<exists>why. result out = Halted why")
      case False
      with Cons.prems True out have "enforce_gate (length (pre @ [r])) rules s (budget out)
          (hs @ [hit_of (length pre) ''enforce'' out]) = Inr (GateHalted i reason)"
        by (cases "result out") (auto simp: is_enforce_def enforce_gate.simps Let_def)
      then show ?thesis using later enforce_run_not_violated [OF out] False by blast
    next
      case halt: True
      with Cons.prems True out have r: "result out = Halted reason" "i = length pre"
        by (auto simp: is_enforce_def enforce_gate.simps Let_def)
      from out have "exec_enforce r s = Inr (result out, domain_attr_out out)"
        by (cases rule: execute_InrE) (use True in \<open>auto simp: is_enforce_def type_or_unknown_eq\<close>)
      with r True have "enforce_violated r s \<and>
          (\<exists>ps. json_get ''params'' r = Some ps \<and> json_get ''reason'' ps = Some (String reason))"
        by (auto simp: exec_enforce_def enforce_violated_def is_enforce_def type_or_unknown_eq evaluate_domain_def
            evaluate_domain_outcome_def Let_def result_simps bind_eq_Some_conv split: if_splits elim!: as_str.elims)
      with r show ?thesis by (intro exI [of _ 0]) auto
    qed
  qed
qed simp

lemma execute_transition_InrE:
  assumes "execute_transition rules instr p q = Inr r"
  obtains (gate) i reason where "length rules \<le> MAX_TRANSFORM_RULES"
      "enforce_gate 0 rules (build_exec_state instr p q) MAX_TOTAL_META_INSTRUCTIONS [] = Inr (GateHalted i reason)"
      "r = THalted i reason"
  | (signal) bud hs where "length rules \<le> MAX_TRANSFORM_RULES"
      "enforce_gate 0 rules (build_exec_state instr p q) MAX_TOTAL_META_INSTRUCTIONS [] = Inr (GatePassed bud hs)"
      "transform_loop 0 rules (build_exec_state instr p q) bud [] = Inr (Signal r)"
  | (final) bud hs s' hs' where "length rules \<le> MAX_TRANSFORM_RULES"
      "enforce_gate 0 rules (build_exec_state instr p q) MAX_TOTAL_META_INSTRUCTIONS [] = Inr (GatePassed bud hs)"
      "transform_loop 0 rules (build_exec_state instr p q) bud [] = Inr (Transformed s' hs')"
      "finish_transition rules instr p q s' (sort_key index (hs' @ hs)) = Inr r"
proof -
  let ?s = "build_exec_state instr p q"
  from assms have len: "length rules \<le> MAX_TRANSFORM_RULES"
    by (auto simp: execute_transition_def split: if_splits)
  show thesis
  proof (cases "enforce_gate 0 rules ?s MAX_TOTAL_META_INSTRUCTIONS []")
    case (Inl e)
    with assms show ?thesis by (auto simp: execute_transition_def Let_def split: if_splits)
  next
    case g: (Inr g)
    show ?thesis
    proof (cases g)
      case (GateHalted i reason)
      with g assms len gate show ?thesis by (auto simp: execute_transition_def Let_def)
    next
      case (GatePassed bud hs)
      with g assms len obtain t where t: "transform_loop 0 rules ?s bud [] = Inr t"
        by (auto simp: execute_transition_def Let_def result_simps)
      with g GatePassed assms len show ?thesis
        by (cases t) (auto simp: execute_transition_def Let_def intro: signal final)
    qed
  qed
qed

lemma finish_transition_Inr:
  "finish_transition rules instr p q s hs = Inr r \<longleftrightarrow>
   (\<exists>p' q'. walk s payload_path = Some p' \<and> walk s queue_path = Some (Array q') \<and>
      r = (if list_ex (matches_instruction (type_or_unknown instr)) rules \<or>
              \<not> json_eq p' p \<or> \<not> json_eq_list q' q
           then TState p' q' hs
           else TIgnored (type_or_unknown instr) ''instruction not matched by any constitution rule'' hs))"
  by (auto simp: finish_transition_def Let_def result_simps resolve_payload bind_eq_Some_conv
      split: if_splits elim!: as_array.elims)

lemma transform_signal:
  "transform_loop i rules s b hs = Inr (Signal r) \<Longrightarrow>
   (\<exists>io ps. r = TIoRequired io ps) \<or> (\<exists>j reason. r = THalted j reason)"
proof (induction rules arbitrary: i s b hs)
  case (Cons rule rules)
  show ?case
  proof (cases "execute_meta_instruction_budgeted rule s 0 b")
    case (Inr out)
    with Cons show ?thesis
      by (cases "result out") (auto simp: transform_loop.simps(2) Let_def split: if_splits)
  qed (use Cons in \<open>auto simp: transform_loop.simps(2) Let_def split: if_splits\<close>)
qed simp

context exec_relation
begin

lemma transform_rel:
  "transform_loop i rules s b hs = Inr (Transformed s' hs') \<Longrightarrow> \<forall>r \<in> set rules. P r \<Longrightarrow> R s s'"
proof (induction rules arbitrary: i s b hs)
  case Nil
  then show ?case by (simp add: refl)
next
  case (Cons r rules)
  show ?case
  proof (cases "is_enforce r")
    case True
    with Cons show ?thesis by (simp add: transform_Cons)
  next
    case False
    with Cons.prems(1) obtain out t where
      "execute_meta_instruction_budgeted r s 0 b = Inr out" "result out = State t"
      "transform_loop (i + 1) rules t (budget out) (hs @ [hit_of i (type_or_unknown r) out]) = Inr (Transformed s' hs')"
      by (auto simp: transform_Cons)
    with Cons.IH Cons.prems(2) execute trans show ?thesis by (metis list.set_intros)
  qed
qed

end

text \<open>The two facts about a transition that its callers rely on.\<close>

lemma violated_halts_first:
  assumes "execute_transition rules instr p q = Inr r"
    and "rule \<in> set rules" "enforce_violated rule (build_exec_state instr p q)"
  obtains i reason where "r = THalted i reason" "i < length rules"
    "enforce_violated (rules ! i) (build_exec_state instr p q)"
    "\<forall>k < i. \<not> enforce_violated (rules ! k) (build_exec_state instr p q)"
  using assms(1)
proof (cases rule: execute_transition_InrE)
  case (gate i reason)
  with gate_halted [of "[]" rules] that show thesis by fastforce
qed (use gate_passed_not_violated assms(2,3) in blast)+

lemma transition_keeps_queue:
  assumes "execute_transition rules instr p q = Inr (TState p' q' hs)"
  obtains new where "q' = new @ q"
  using assms
proof (cases rule: execute_transition_InrE)
  case (final bud es s' ts)
  have "walk s' queue_path = Some (Array q')"
    using final(4) by (auto simp: finish_transition_Inr split: if_splits)
  moreover have "only_payload_and_queue (build_exec_state instr p q) s'" using frame.transform_rel [OF final(3)] by simp
  ultimately show thesis using that by (auto simp: only_payload_and_queue_def)
qed (use transform_signal in fastforce)+

section \<open>Properties\<close>

text \<open>
  C1: no constraint is bypassed.  If the domain of some top-level \<open>enforce\<close> rule holds in the input
  state, then, whatever the other rules are and wherever it stands among them, every transition that
  does not end in an error is halted, and the halt names the first such rule.
\<close>

theorem enforce_never_bypassed:
  assumes "execute_transition rules instr p q = Inr r"
    and "rule \<in> set rules" "enforce_violated rule (build_exec_state instr p q)"
  shows "\<exists>i reason. r = THalted i reason \<and> i < length rules \<and>
     enforce_violated (rules ! i) (build_exec_state instr p q) \<and>
     (\<forall>k < i. \<not> enforce_violated (rules ! k) (build_exec_state instr p q))"
  by (rule violated_halts_first [OF assms]) blast

definition sample_enforce :: json where
  "sample_enforce = Object [(''params'', Object [(''domain'', Object [(''path'', String ''payload''),
     (''type'', String ''exists'')]), (''reason'', String ''stop'')]), (''type'', String ''enforce'')]"

definition sample_io :: json where
  "sample_io = Object [(''params'', Object [(''io_type'', String ''http'')]), (''type'', String ''io_request'')]"

lemma sample_enforce_violated:
  "enforce_violated sample_enforce (build_exec_state Null (Object []) [])"
  unfolding enforce_violated_def sample_enforce_def exec_state_eq
  by (simp add: resolve_path_or_literal_def evaluate_domain_def evaluate_domain_outcome_inner.simps
      get_str_field_def evaluate_exists_def resolve_domain_path_def resolve_exec_path_def resolve_path_def
      ends_with_char_def strip_prefix_def starts_with_def parse_path_segments_def Let_def MAX_DOMAIN_DEPTH_def)

theorem enforce_never_bypassed_witness:
  "execute_transition [sample_io, sample_enforce] Null (Object []) [] = Inr (THalted 1 ''stop'') \<and>
   (\<exists>i reason. THalted 1 ''stop'' = THalted i reason \<and> i < 2 \<and>
     enforce_violated ([sample_io, sample_enforce] ! i) (build_exec_state Null (Object []) []))"
proof -
  have run: "execute_transition [sample_io, sample_enforce] Null (Object []) [] = Inr (THalted 1 ''stop'')"
    by code_simp
  show ?thesis
    using run enforce_never_bypassed [OF run, of sample_enforce] sample_enforce_violated by auto
qed

text \<open>
  Complete attribution.  A transition that converges reports exactly one hit per rule of the
  input list, in the order of the list and with the type of that rule, although \<open>enforce\<close> rules are
  evaluated in a pass of their own.
\<close>

theorem rule_hits_complete:
  assumes "execute_transition rules instr p q = Inr r"
    and "r = TState p' q' hs \<or> r = TIgnored ty why hs"
  shows "map index hs = [0..<length rules] \<and> map instr_type hs = map type_or_unknown rules"
  using assms(1)
proof (cases rule: execute_transition_InrE)
  case (final bud es s' ts)
  let ?n = "length rules"
  from gate_hits [of "[]" rules] final(2) have e: "hits_ok rules es"
    "map index es = filter (\<lambda>j. is_enforce (rules ! j)) [0..<?n]" by (fastforce simp: hits_ok_def)+
  from transform_hits [of "[]" rules] final(3) have t: "hits_ok rules ts"
    "map index ts = filter (\<lambda>j. \<not> is_enforce (rules ! j)) [0..<?n]" by (fastforce simp: hits_ok_def)+
  have "mset (map index (ts @ es)) = mset [0..<?n]"
    unfolding map_append mset_append e(2) t(2) by (metis mset_filter multiset_partition union_commute)
  then have i: "map index (sort_key index (ts @ es)) = [0..<?n]" by (rule sorted_hits)
  have hs: "hs = sort_key index (ts @ es)"
    using final(4) assms(2) by (auto simp: finish_transition_Inr split: if_splits)
  have "map instr_type hs = map (\<lambda>j. type_or_unknown (rules ! j)) (map index hs)"
    using e(1) t(1) by (auto simp: hs hits_ok_def)
  moreover have "map (\<lambda>j. type_or_unknown (rules ! j)) [0..<?n] = map type_or_unknown rules"
    by (intro nth_equalityI) auto
  ultimately show ?thesis using i hs by simp
qed (use assms(2) transform_signal in fastforce)+

theorem rule_hits_complete_witness:
  "\<exists>hs. execute_transition [] (Object []) (Object []) [] =
     Inr (TIgnored ''unknown'' ''instruction not matched by any constitution rule'' hs) \<and>
     map index hs = [0..<length ([] :: json list)]"
proof -
  have run: "execute_transition [] (Object []) (Object []) [] =
     Inr (TIgnored ''unknown'' ''instruction not matched by any constitution rule'' [])"
    by code_simp
  show ?thesis using run rule_hits_complete [OF run, of _ _ "[]"] by blast
qed

text \<open>
  C4: pending work is never lost.  A transition that converges leaves the instructions that were in
  the queue where they were, in their order, with the pushed ones in front of them, and gives
  well-formed data back for well-formed data.
\<close>

theorem transition_queue_and_wf:
  assumes "execute_transition rules instr p q = Inr (TState p' q' hs)"
    and "list_all wf_json rules" "wf_json instr" "wf_json p" "list_all wf_json q"
  shows "(\<exists>new. q' = new @ q) \<and> wf_json p' \<and> list_all wf_json q'"
  using assms(1)
proof (cases rule: execute_transition_InrE)
  case (final bud es s' ts)
  let ?s = "build_exec_state instr p q"
  have out: "walk s' payload_path = Some p'" "walk s' queue_path = Some (Array q')"
    using final(4) by (auto simp: finish_transition_Inr split: if_splits)
  have "\<exists>new. q' = new @ q" using transition_keeps_queue [OF assms(1)] by blast
  moreover have "wf_json ?s" using assms(3-5) by (rule build_exec_state_wf)
  then have "wf_json s'" using wfs.transform_rel [OF final(3)] assms(2) by (simp add: list_all_iff)
  ultimately show ?thesis using walk_wf [OF out(1)] walk_wf [OF out(2)] by simp
qed (use transform_signal in fastforce)+

definition sample_push :: json where
  "sample_push = Object [(''params'', Object [(''instructions'', Array [Integer 7])]), (''type'', String ''push'')]"

theorem transition_queue_and_wf_witness:
  "\<exists>hs. execute_transition [sample_push] Null (Object []) [Integer 1] =
     Inr (TState (Object []) [Integer 7, Integer 1] hs) \<and> (\<exists>new. [Integer 7, Integer 1] = new @ [Integer 1])"
proof -
  let ?hs = "[\<lparr>index = 0, instr_type = ''push'', hit = True, domain_attr = None\<rparr>]"
  have run: "execute_transition [sample_push] Null (Object []) [Integer 1] =
     Inr (TState (Object []) [Integer 7, Integer 1] ?hs)"
    by code_simp
  have "wf_json sample_push" by code_simp
  then show ?thesis using run transition_queue_and_wf [OF run] by simp
qed

text \<open>
  No instruction is dropped silently.  \<open>Ignored\<close> is reported only when no rule of the list is
  meant for the instruction, and an unchanged payload and queue are reported as a state only when
  some rule is.
\<close>

theorem ignored_only_without_effect:
  assumes "execute_transition rules instr p q = Inr r"
    and "list_all wf_json rules" "wf_json instr" "wf_json p" "list_all wf_json q"
  shows "case r of
      TIgnored ty why hs \<Rightarrow> ty = type_or_unknown instr \<and> \<not> list_ex (matches_instruction ty) rules
    | TState p' q' hs \<Rightarrow> list_ex (matches_instruction (type_or_unknown instr)) rules \<or> p' \<noteq> p \<or> q' \<noteq> q
    | _ \<Rightarrow> True"
  using assms(1)
proof (cases rule: execute_transition_InrE)
  case (final bud es s' ts)
  then obtain p' q' where r: "r = (if list_ex (matches_instruction (type_or_unknown instr)) rules \<or>
              \<not> json_eq p' p \<or> \<not> json_eq_list q' q
           then TState p' q' (sort_key index (ts @ es))
           else TIgnored (type_or_unknown instr) ''instruction not matched by any constitution rule''
                  (sort_key index (ts @ es)))"
    by (auto simp: finish_transition_Inr)
  have "json_eq p p" "json_eq_list q q" using assms(4,5) by (simp_all add: json_eq_iff json_eq_list_iff)
  then show ?thesis by (auto simp: r)
qed (use transform_signal in fastforce)+

theorem ignored_only_without_effect_witness:
  "type_or_unknown (Object []) = ''unknown'' \<and> \<not> list_ex (matches_instruction ''unknown'') [sample_io]"
proof -
  have run: "execute_transition [] (Object []) (Object []) [] =
     Inr (TIgnored ''unknown'' ''instruction not matched by any constitution rule'' [])"
    by code_simp
  have "\<not> matches_instruction ''unknown'' sample_io" by code_simp
  then show ?thesis using ignored_only_without_effect [OF run] by simp
qed

text \<open>
  A direct \<open>set\<close> rule is never counted as a rule for \<open>set\<close> instructions.  The comment in the code
  says direct rules match by their type, but that test is reached only when \<open>params\<close> is not an object,
  and a \<open>set\<close> that can run has an object there; so a \<open>set\<close> rule that runs and is recorded as a hit, but
  writes the value that is already there, makes the transition report the instruction as ignored.
\<close>

theorem direct_set_rule_not_matched:
  "execute_transition
     [Object [(''params'', Object [(''attr'', String ''x''), (''operation'', String ''set''), (''value'', Integer 5)]),
              (''type'', String ''set'')]]
     (Object [(''type'', String ''set'')]) (Object [(''x'', Integer 5)]) [] =
   Inr (TIgnored ''set'' ''instruction not matched by any constitution rule''
          [\<lparr>index = 0, instr_type = ''set'', hit = True, domain_attr = None\<rparr>])"
  by code_simp

end
