(* ===== verification/AuditChain.thy ===== *)
theory AuditChain
  imports Transition "HOL-Library.Countable"
begin

text \<open>
  Facts and their hash chain, \<open>evorule-audit-chain/src/fact.rs\<close> and \<open>hash.rs\<close>: the fact type with its
  exported JSON form, the stable form that is hashed, and the chain.  The crates \<open>serde_json\<close> and
  \<open>blake3\<close> are not part of the repository: \<open>serde_json::to_string\<close> and \<open>blake3::hash(..).to_hex()\<close>
  are the parameters \<open>ser\<close> and \<open>blake3\<close> of the definitions that call them.
\<close>

section \<open>Facts\<close>

type_synonym fact_id = u64
type_synonym io_type = string

definition fact_id_display :: "fact_id \<Rightarrow> string" where
  "fact_id_display i = ''F'' @ dec_nat (unat i)"

datatype control_flow_type = Sequence | Conditional | WhileLoop | Push

definition control_flow_parse :: "string \<Rightarrow> control_flow_type option" where
  "control_flow_parse s =
     (if s = ''sequence'' then Some Sequence
      else if s = ''conditional'' then Some Conditional
      else if s = ''while_loop'' then Some WhileLoop
      else if s = ''push'' then Some Push
      else None)"

fun control_flow_as_str :: "control_flow_type \<Rightarrow> string" where
  "control_flow_as_str Sequence = ''sequence''"
| "control_flow_as_str Conditional = ''conditional''"
| "control_flow_as_str WhileLoop = ''while_loop''"
| "control_flow_as_str Push = ''push''"

text \<open>\<open>FactIdGenerator\<close>: the counter; \<open>next += 1\<close> on a \<open>u64\<close>.\<close>

record fact_id_generator =
  next_id_value :: u64

definition id_gen_new :: fact_id_generator where
  "id_gen_new = \<lparr>next_id_value = 1\<rparr>"

definition id_gen_resume :: "u64 \<Rightarrow> fact_id_generator" where
  "id_gen_resume from_id = \<lparr>next_id_value = from_id\<rparr>"

definition next_id :: "fact_id_generator \<Rightarrow> fact_id \<times> fact_id_generator" where
  "next_id g = (next_id_value g, g\<lparr>next_id_value := next_id_value g + 1\<rparr>)"

record trace_domain_attribution =
  trace_outcome :: string
  trace_missing_reason :: "string option"
  trace_on_missing :: "string option"

definition trace_attr_from_tcb :: "domain_attribution \<Rightarrow> trace_domain_attribution" where
  "trace_attr_from_tcb attr =
     \<lparr>trace_outcome = outcome_label (outcome attr),
      trace_missing_reason = outcome_missing_reason (outcome attr),
      trace_on_missing = on_missing attr\<rparr>"

record trace_hit =
  trace_index :: u64
  trace_instr_type :: string
  trace_hit :: bool
  trace_domain_attr :: "trace_domain_attribution option"

definition from_rule_hit :: "rule_hit \<Rightarrow> trace_hit" where
  "from_rule_hit h =
     \<lparr>trace_index = word_of_nat (index h), trace_instr_type = instr_type h, trace_hit = hit h,
      trace_domain_attr = map_option trace_attr_from_tcb (domain_attr h)\<rparr>"

datatype fact =
    Command fact_id json
  | PayloadUpdate fact_id string json
  | StateTransition fact_id fact_id json "json list"
  | IoRequest fact_id fact_id io_type json
  | IoResponse fact_id fact_id json "string option"
  | Stable fact_id u64
  | Error fact_id string
  | TransitionTrace fact_id fact_id "trace_hit list"
  | Violation fact_id fact_id u64 string json

fun type_name :: "fact \<Rightarrow> string" where
  "type_name (Command _ _) = ''Command''"
| "type_name (PayloadUpdate _ _ _) = ''PayloadUpdate''"
| "type_name (StateTransition _ _ _ _) = ''StateTransition''"
| "type_name (IoRequest _ _ _ _) = ''IoRequest''"
| "type_name (IoResponse _ _ _ _) = ''IoResponse''"
| "type_name (Stable _ _) = ''Stable''"
| "type_name (Error _ _) = ''Error''"
| "type_name (TransitionTrace _ _ _) = ''TransitionTrace''"
| "type_name (Violation _ _ _ _ _) = ''Violation''"

fun fact_id_of :: "fact \<Rightarrow> fact_id" where
  "fact_id_of (Command i _) = i"
| "fact_id_of (PayloadUpdate i _ _) = i"
| "fact_id_of (StateTransition i _ _ _) = i"
| "fact_id_of (IoRequest i _ _ _) = i"
| "fact_id_of (IoResponse i _ _ _) = i"
| "fact_id_of (Stable i _) = i"
| "fact_id_of (Error i _) = i"
| "fact_id_of (TransitionTrace i _ _) = i"
| "fact_id_of (Violation i _ _ _ _) = i"

fun is_terminal :: "fact \<Rightarrow> bool" where
  "is_terminal (Stable _ _) = True"
| "is_terminal (Error _ _) = True"
| "is_terminal _ = False"

section \<open>The exported form\<close>

definition attr_to_export :: "trace_domain_attribution \<Rightarrow> json" where
  "attr_to_export a = object_from_pairs
     ([(''outcome'', String (trace_outcome a))]
      @ (case trace_missing_reason a of Some reason \<Rightarrow> [(''missing_reason'', String reason)] | None \<Rightarrow> [])
      @ (case trace_on_missing a of Some policy \<Rightarrow> [(''on_missing'', String policy)] | None \<Rightarrow> []))"

definition hit_to_export :: "trace_hit \<Rightarrow> json" where
  "hit_to_export h = object_from_pairs
     ([(''index'', U64 (trace_index h)), (''instr_type'', String (trace_instr_type h)),
       (''hit'', Bool (trace_hit h))]
      @ (case trace_domain_attr h of Some a \<Rightarrow> [(''domain_attr'', attr_to_export a)] | None \<Rightarrow> []))"

fun to_json :: "fact \<Rightarrow> json" where
  "to_json (Command i instruction) = object_from_pairs
     [(''type'', String ''Command''), (''id'', U64 i), (''instruction'', instruction)]"
| "to_json (PayloadUpdate i path v) = object_from_pairs
     [(''type'', String ''PayloadUpdate''), (''id'', U64 i), (''path'', String path), (''value'', v)]"
| "to_json (StateTransition i cause new_payload new_queue) = object_from_pairs
     [(''type'', String ''StateTransition''), (''id'', U64 i), (''cause'', U64 cause),
      (''new_payload'', new_payload), (''new_queue'', Array new_queue)]"
| "to_json (IoRequest i cause io_type params) = object_from_pairs
     [(''type'', String ''IoRequest''), (''id'', U64 i), (''cause'', U64 cause),
      (''io_type'', String io_type), (''params'', params)]"
| "to_json (IoResponse i request_id res err) = object_from_pairs
     [(''type'', String ''IoResponse''), (''id'', U64 i), (''request_id'', U64 request_id),
      (''result'', res), (''error'', case err of Some msg \<Rightarrow> String msg | None \<Rightarrow> Null)]"
| "to_json (Stable i version) = object_from_pairs
     [(''type'', String ''Stable''), (''id'', U64 i), (''version'', U64 version)]"
| "to_json (Error i message) = object_from_pairs
     [(''type'', String ''Error''), (''id'', U64 i), (''message'', String message)]"
| "to_json (TransitionTrace i cause rule_hits) = object_from_pairs
     [(''type'', String ''TransitionTrace''), (''id'', U64 i), (''cause'', U64 cause),
      (''rule_hits'', Array (map hit_to_export rule_hits))]"
| "to_json (Violation i cause rule_index reason instruction) = object_from_pairs
     [(''type'', String ''Violation''), (''id'', U64 i), (''cause'', U64 cause),
      (''rule_index'', U64 rule_index), (''reason'', String reason), (''instruction'', instruction)]"

section \<open>The hashed form\<close>

text \<open>
  \<open>serde_json::Value\<close>, with its \<open>Map\<close> a sorted map and its integer \<open>Number\<close> a number: \<open>Number::from\<close>
  keeps an \<open>i64\<close> and a \<open>u64\<close> of the same value in the same form.  A floating-point number, which only
  the parser makes, is represented by its text.
\<close>

datatype serde =
    SNull
  | SBool bool
  | SNumber int
  | SFloat string
  | SString string
  | SArray "serde list"
  | SObject "(string \<times> serde) list"

definition serde_map :: "(string \<times> serde) list \<Rightarrow> serde" where
  "serde_map ps = SObject (foldl (\<lambda>m (k, v). bt_put k v m) bt_new ps)"

fun tcb_to_serde :: "json \<Rightarrow> serde" where
  "tcb_to_serde Null = SNull"
| "tcb_to_serde (Bool b) = SBool b"
| "tcb_to_serde (Integer i) = SNumber (sint i)"
| "tcb_to_serde (U64 v) = SNumber (uint v)"
| "tcb_to_serde (String s) = SString s"
| "tcb_to_serde (Array arr) = SArray (map tcb_to_serde arr)"
| "tcb_to_serde (Object obj) = serde_map (map (\<lambda>(k, v). (k, tcb_to_serde v)) obj)"

definition num :: "u64 \<Rightarrow> serde" where
  "num v = SNumber (uint v)"

definition trace_attr_to_json :: "trace_domain_attribution \<Rightarrow> serde" where
  "trace_attr_to_json a = serde_map
     ([(''outcome'', SString (trace_outcome a))]
      @ (case trace_missing_reason a of Some reason \<Rightarrow> [(''missing_reason'', SString reason)] | None \<Rightarrow> [])
      @ (case trace_on_missing a of Some policy \<Rightarrow> [(''on_missing'', SString policy)] | None \<Rightarrow> []))"

definition trace_hit_to_json :: "trace_hit \<Rightarrow> serde" where
  "trace_hit_to_json h = serde_map
     ([(''index'', num (trace_index h)), (''instr_type'', SString (trace_instr_type h)),
       (''hit'', SBool (trace_hit h))]
      @ (case trace_domain_attr h of Some a \<Rightarrow> [(''domain_attr'', trace_attr_to_json a)] | None \<Rightarrow> []))"

fun fact_to_stable_json :: "fact \<Rightarrow> serde" where
  "fact_to_stable_json (Command i instruction) = serde_map
     [(''type'', SString ''Command''), (''id'', num i), (''instruction'', tcb_to_serde instruction)]"
| "fact_to_stable_json (PayloadUpdate i path v) = serde_map
     [(''type'', SString ''PayloadUpdate''), (''id'', num i), (''path'', SString path),
      (''value'', tcb_to_serde v)]"
| "fact_to_stable_json (StateTransition i cause new_payload new_queue) = serde_map
     [(''type'', SString ''StateTransition''), (''id'', num i), (''cause'', num cause),
      (''new_payload'', tcb_to_serde new_payload), (''new_queue'', SArray (map tcb_to_serde new_queue))]"
| "fact_to_stable_json (IoRequest i cause io_type params) = serde_map
     [(''type'', SString ''IoRequest''), (''id'', num i), (''cause'', num cause),
      (''io_type'', SString io_type), (''params'', tcb_to_serde params)]"
| "fact_to_stable_json (IoResponse i request_id res err) = serde_map
     [(''type'', SString ''IoResponse''), (''id'', num i), (''request_id'', num request_id),
      (''result'', tcb_to_serde res), (''error'', case err of Some e \<Rightarrow> SString e | None \<Rightarrow> SNull)]"
| "fact_to_stable_json (Stable i version) = serde_map
     [(''type'', SString ''Stable''), (''id'', num i), (''version'', num version)]"
| "fact_to_stable_json (Error i message) = serde_map
     [(''type'', SString ''Error''), (''id'', num i), (''message'', SString message)]"
| "fact_to_stable_json (TransitionTrace i cause rule_hits) = serde_map
     [(''type'', SString ''TransitionTrace''), (''id'', num i), (''cause'', num cause),
      (''rule_hits'', SArray (map trace_hit_to_json rule_hits))]"
| "fact_to_stable_json (Violation i cause rule_index reason instruction) = serde_map
     [(''type'', SString ''Violation''), (''id'', num i), (''cause'', num cause),
      (''rule_index'', num rule_index), (''reason'', SString reason),
      (''instruction'', tcb_to_serde instruction)]"

section \<open>The chain\<close>

definition content_hash :: "(string \<Rightarrow> string) \<Rightarrow> (serde \<Rightarrow> string) \<Rightarrow> json \<Rightarrow> string" where
  "content_hash blake3 ser v = blake3 (ser (tcb_to_serde v))"

definition fact_hash :: "(string \<Rightarrow> string) \<Rightarrow> (serde \<Rightarrow> string) \<Rightarrow> fact \<Rightarrow> string" where
  "fact_hash blake3 ser f = blake3 (ser (fact_to_stable_json f))"

definition chain_step :: "(string \<Rightarrow> string) \<Rightarrow> string \<Rightarrow> string \<Rightarrow> string" where
  "chain_step blake3 prev_hash content = blake3 (prev_hash @ content)"

definition genesis :: string where
  "genesis = ''genesis''"

definition compute_chain_hash :: "(string \<Rightarrow> string) \<Rightarrow> (serde \<Rightarrow> string) \<Rightarrow> fact list \<Rightarrow> string" where
  "compute_chain_hash blake3 ser facts =
     (if facts = [] then genesis
      else foldl (\<lambda>prev_hash f. chain_step blake3 prev_hash (fact_hash blake3 ser f)) genesis facts)"

section \<open>The hashed form is injective\<close>

text \<open>
  Values in the form the loaders produce: objects sorted, and \<open>U64\<close> only above the range of \<open>i64\<close>.
\<close>

fun canonical_json :: "json \<Rightarrow> bool" where
  "canonical_json (U64 v) = (i64_max < uint v)"
| "canonical_json (Array xs) = list_all canonical_json xs"
| "canonical_json (Object m) = (bt_sorted m \<and> list_all (\<lambda>p. canonical_json (snd p)) m)"
| "canonical_json _ = True"

lemma bt_put_last: "bt_sorted (m @ [(k, v)]) \<Longrightarrow> bt_put k v m = m @ [(k, v)]"
  by (induction k v m rule: bt_put.induct) (auto simp: bt_sorted_def sorted_wrt_append)

lemma bt_sorted_map_snd: "bt_sorted (map (\<lambda>(k, v). (k, f v)) m) \<longleftrightarrow> bt_sorted m"
  by (simp add: bt_sorted_def case_prod_beta comp_def)

lemma foldl_bt_put_sorted:
  "bt_sorted (m @ ps) \<Longrightarrow> foldl (\<lambda>m (k, v). bt_put k v m) m ps = m @ ps"
proof (induction ps arbitrary: m)
  case (Cons p ps)
  obtain k v where p: "p = (k, v)" by fastforce
  from Cons.prems have "bt_sorted (m @ [(k, v)])" by (auto simp: bt_sorted_def sorted_wrt_append p)
  with Cons.IH [of "m @ [(k, v)]"] Cons.prems show ?case by (simp add: p bt_put_last)
qed simp

lemma serde_map_sorted: "bt_sorted ps \<Longrightarrow> serde_map ps = SObject ps"
  using foldl_bt_put_sorted [of "[]" ps] by (simp add: serde_map_def bt_new_def)

lemma sint_le_i64_max: "sint (i :: i64) \<le> i64_max"
  using sint_lt [of i] by (simp add: i64_max_def)

lemma uint_u64_inject: "uint (a :: u64) = uint b \<longleftrightarrow> a = b"
  by (simp add: word_uint_eq_iff)

lemma tcb_to_serde_inj_aux:
  "canonical_json a \<Longrightarrow> canonical_json b \<Longrightarrow> tcb_to_serde a = tcb_to_serde b \<Longrightarrow> a = b"
proof (induction a arbitrary: b)
  case (Integer i)
  then show ?case
    using sint_le_i64_max [of i] by (cases b) (auto simp: serde_map_def sint_i64_inject)
next
  case (U64 v)
  then show ?case
    by (cases b) (auto simp: serde_map_def uint_u64_inject, metis leD sint_le_i64_max)
next
  case (Array xs)
  then obtain ys where b: "b = Array ys" by (cases b) (auto simp: serde_map_def)
  with Array.prems have len: "length xs = length ys" by (auto dest: map_eq_imp_length_eq)
  have "xs ! i = ys ! i" if "i < length xs" for i
    using Array.IH [of "xs ! i" "ys ! i"] Array.prems that len
    by (auto simp: b list_all_length list_eq_iff_nth_eq)
  with len b show ?case by (auto intro: nth_equalityI)
next
  case (Object m)
  then obtain n where b: "b = Object n" by (cases b) (auto simp: serde_map_def)
  with Object.prems have eq: "map (\<lambda>(k, v). (k, tcb_to_serde v)) m = map (\<lambda>(k, v). (k, tcb_to_serde v)) n"
    by (simp add: serde_map_sorted bt_sorted_map_snd)
  then have len: "length m = length n" by (rule map_eq_imp_length_eq)
  have "m ! i = n ! i" if i: "i < length m" for i
  proof -
    from eq i len have "fst (m ! i) = fst (n ! i)" "tcb_to_serde (snd (m ! i)) = tcb_to_serde (snd (n ! i))"
      by (auto simp: list_eq_iff_nth_eq case_prod_beta)
    moreover have "snd (m ! i) = snd (n ! i)"
      using Object.IH [of "m ! i" "snd (m ! i)" "snd (n ! i)"] Object.prems i len calculation(2)
      by (simp add: b list_all_length snds.simps)
    ultimately show ?thesis by (simp add: prod_eq_iff)
  qed
  with len b show ?case by (auto intro: nth_equalityI)
qed (case_tac b; auto simp: serde_map_def)+

fun canonical_fact :: "fact \<Rightarrow> bool" where
  "canonical_fact (Command _ j) = canonical_json j"
| "canonical_fact (PayloadUpdate _ _ j) = canonical_json j"
| "canonical_fact (StateTransition _ _ p q) = (canonical_json p \<and> list_all canonical_json q)"
| "canonical_fact (IoRequest _ _ _ j) = canonical_json j"
| "canonical_fact (IoResponse _ _ j _) = canonical_json j"
| "canonical_fact (Violation _ _ _ _ j) = canonical_json j"
| "canonical_fact _ = True"

lemma num_inject [simp]: "num a = num b \<longleftrightarrow> a = b"
  by (simp add: num_def uint_u64_inject)

text \<open>A key of a map literal of the serializer, read back.\<close>

definition serde_get :: "string \<Rightarrow> serde \<Rightarrow> serde option" where
  "serde_get k v = (case v of SObject m \<Rightarrow> bt_get k m | _ \<Rightarrow> None)"

lemma serde_get_map: "serde_get k (serde_map ps) = map_of (rev ps) k"
proof -
  have "bt_get k (foldl (\<lambda>m (k, v). bt_put k v m) m ps) =
      (case map_of (rev ps) k of None \<Rightarrow> bt_get k m | v \<Rightarrow> v)" for m
    by (induction ps arbitrary: m) (auto simp: map_add_def split: option.splits if_splits)
  then show ?thesis
    by (simp add: serde_get_def serde_map_def bt_new_def split: option.splits)
qed

lemma serde_map_eq_get:
  "serde_map ps = serde_map qs \<Longrightarrow> map_of (rev ps) k = map_of (rev qs) k"
  by (metis serde_get_map)

lemma trace_attr_to_json_inj: "trace_attr_to_json a = trace_attr_to_json b \<longleftrightarrow> a = b"
proof
  assume eq: "trace_attr_to_json a = trace_attr_to_json b"
  note get = serde_map_eq_get [OF eq [unfolded trace_attr_to_json_def]]
  from get [of "''outcome''"] get [of "''missing_reason''"] get [of "''on_missing''"]
  show "a = b"
    by (cases a; cases b) (auto split: option.splits if_splits)
qed simp

lemma trace_hit_to_json_inj: "trace_hit_to_json a = trace_hit_to_json b \<longleftrightarrow> a = b"
proof
  assume eq: "trace_hit_to_json a = trace_hit_to_json b"
  note get = serde_map_eq_get [OF eq [unfolded trace_hit_to_json_def]]
  from get [of "''index''"] get [of "''instr_type''"] get [of "''hit''"] get [of "''domain_attr''"]
  show "a = b"
    by (cases a; cases b) (auto simp: trace_attr_to_json_inj split: option.splits if_splits)
qed simp

lemma stable_type: "serde_get ''type'' (fact_to_stable_json f) = Some (SString (type_name f))"
  by (cases f) (simp_all add: serde_get_map)

lemma map_inj_list: "map h xs = map h ys \<Longrightarrow> (\<And>x y. x \<in> set xs \<Longrightarrow> y \<in> set ys \<Longrightarrow> h x = h y \<Longrightarrow> x = y) \<Longrightarrow> xs = ys"
  by (induction xs arbitrary: ys) (auto simp: Cons_eq_map_conv)

lemma fact_to_stable_json_inj:
  assumes eq: "fact_to_stable_json f = fact_to_stable_json g" and c: "canonical_fact f" "canonical_fact g"
  shows "f = g"
proof -
  have ty: "type_name f = type_name g" using stable_type [of f] stable_type [of g] eq by simp
  note inj = tcb_to_serde_inj_aux
  show ?thesis
  proof (cases f)
    case (Command i j)
    with ty obtain i' j' where g: "g = Command i' j'" by (cases g) auto
    show ?thesis using eq [unfolded Command g fact_to_stable_json.simps, THEN serde_map_eq_get, of "''id''"]
      eq [unfolded Command g fact_to_stable_json.simps, THEN serde_map_eq_get, of "''instruction''"] c inj [of j j']
      by (simp add: Command g)
  next
    case (PayloadUpdate i p j)
    with ty obtain i' p' j' where g: "g = PayloadUpdate i' p' j'" by (cases g) auto
    note get = eq [unfolded PayloadUpdate g fact_to_stable_json.simps, THEN serde_map_eq_get]
    show ?thesis using get [of "''id''"] get [of "''path''"] get [of "''value''"] c inj [of j j']
      by (simp add: PayloadUpdate g)
  next
    case (StateTransition i p j q)
    with ty obtain i' p' j' q' where g: "g = StateTransition i' p' j' q'" by (cases g) auto
    note get = eq [unfolded StateTransition g fact_to_stable_json.simps, THEN serde_map_eq_get]
    have "q = q'"
      by (rule map_inj_list [of tcb_to_serde])
        (use get [of "''new_queue''"] c inj in \<open>auto simp: StateTransition g list_all_iff\<close>)
    then show ?thesis using get [of "''id''"] get [of "''cause''"] get [of "''new_payload''"] c inj [of j j']
      by (simp add: StateTransition g)
  next
    case (IoRequest i p t j)
    with ty obtain i' p' t' j' where g: "g = IoRequest i' p' t' j'" by (cases g) auto
    note get = eq [unfolded IoRequest g fact_to_stable_json.simps, THEN serde_map_eq_get]
    show ?thesis using get [of "''id''"] get [of "''cause''"] get [of "''io_type''"] get [of "''params''"] c inj [of j j']
      by (simp add: IoRequest g)
  next
    case (IoResponse i p j e)
    with ty obtain i' p' j' e' where g: "g = IoResponse i' p' j' e'" by (cases g) auto
    note get = eq [unfolded IoResponse g fact_to_stable_json.simps, THEN serde_map_eq_get]
    have "e = e'" using get [of "''error''"] by (auto split: option.splits)
    then show ?thesis using get [of "''id''"] get [of "''request_id''"] get [of "''result''"] c inj [of j j']
      by (simp add: IoResponse g)
  next
    case (Stable i p)
    with ty obtain i' p' where g: "g = Stable i' p'" by (cases g) auto
    note get = eq [unfolded Stable g fact_to_stable_json.simps, THEN serde_map_eq_get]
    show ?thesis using get [of "''id''"] get [of "''version''"] by (simp add: Stable g)
  next
    case (Error i p)
    with ty obtain i' p' where g: "g = Error i' p'" by (cases g) auto
    note get = eq [unfolded Error g fact_to_stable_json.simps, THEN serde_map_eq_get]
    show ?thesis using get [of "''id''"] get [of "''message''"] by (simp add: Error g)
  next
    case (TransitionTrace i p h)
    with ty obtain i' p' h' where g: "g = TransitionTrace i' p' h'" by (cases g) auto
    note get = eq [unfolded TransitionTrace g fact_to_stable_json.simps, THEN serde_map_eq_get]
    have "h = h'"
      by (rule map_inj_list [of trace_hit_to_json])
        (use get [of "''rule_hits''"] in \<open>auto simp: trace_hit_to_json_inj\<close>)
    then show ?thesis using get [of "''id''"] get [of "''cause''"] by (simp add: TransitionTrace g)
  next
    case (Violation i p r w j)
    with ty obtain i' p' r' w' j' where g: "g = Violation i' p' r' w' j'" by (cases g) auto
    note get = eq [unfolded Violation g fact_to_stable_json.simps, THEN serde_map_eq_get]
    show ?thesis using get [of "''id''"] get [of "''cause''"] get [of "''rule_index''"] get [of "''reason''"]
      get [of "''instruction''"] c inj [of j j'] by (simp add: Violation g)
  qed
qed

text \<open>The exported and the hashed form carry the same information.\<close>

lemma export_attr: "tcb_to_serde (attr_to_export a) = trace_attr_to_json a"
  by (auto simp: attr_to_export_def trace_attr_to_json_def object_from_pairs_def bt_insert_def bt_new_def
      serde_map_def split: option.splits)

lemma export_hit: "tcb_to_serde (hit_to_export h) = trace_hit_to_json h"
  by (auto simp: hit_to_export_def trace_hit_to_json_def object_from_pairs_def bt_insert_def bt_new_def
      serde_map_def num_def export_attr split: option.splits)

lemma export_fact: "tcb_to_serde (to_json f) = fact_to_stable_json f"
  by (cases f) (auto simp: object_from_pairs_def bt_insert_def bt_new_def serde_map_def num_def export_hit
      split: option.splits)

section \<open>The chain binds its facts\<close>

definition chain_from :: "(string \<Rightarrow> string) \<Rightarrow> (serde \<Rightarrow> string) \<Rightarrow> string \<Rightarrow> fact list \<Rightarrow> string" where
  "chain_from blake3 ser prev facts =
     foldl (\<lambda>prev_hash f. chain_step blake3 prev_hash (fact_hash blake3 ser f)) prev facts"

lemma compute_chain_hash_from: "compute_chain_hash blake3 ser facts = chain_from blake3 ser genesis facts"
  by (simp add: compute_chain_hash_def chain_from_def)

lemma chain_from_snoc:
  "chain_from b r p (fs @ [f]) = b (chain_from b r p fs @ b (r (fact_to_stable_json f)))"
  by (simp add: chain_from_def chain_step_def fact_hash_def)

text \<open>Every string that is hashed while a chain is computed.\<close>

fun chain_inputs :: "(string \<Rightarrow> string) \<Rightarrow> (serde \<Rightarrow> string) \<Rightarrow> string \<Rightarrow> fact list \<Rightarrow> string list" where
  "chain_inputs blake3 ser prev [] = []"
| "chain_inputs blake3 ser prev (f # fs) =
     ser (fact_to_stable_json f) # (prev @ fact_hash blake3 ser f)
     # chain_inputs blake3 ser (chain_step blake3 prev (fact_hash blake3 ser f)) fs"

lemma chain_inputs_snoc:
  "set (chain_inputs b r p (fs @ [f])) =
     set (chain_inputs b r p fs) \<union>
     {r (fact_to_stable_json f), chain_from b r p fs @ b (r (fact_to_stable_json f))}"
  by (induction fs arbitrary: p) (auto simp: chain_from_def fact_hash_def)

definition collision :: "(string \<Rightarrow> string) \<Rightarrow> string list \<Rightarrow> string list \<Rightarrow> bool" where
  "collision blake3 xs ys \<longleftrightarrow> (\<exists>x \<in> set xs. \<exists>y \<in> set ys. x \<noteq> y \<and> blake3 x = blake3 y)"

lemma chain_binds:
  assumes len: "\<And>x. length (b x) = 64" and ser: "inj r"
  shows "chain_from b r genesis fs = chain_from b r genesis gs \<Longrightarrow>
     map fact_to_stable_json fs = map fact_to_stable_json gs \<or>
     collision b (chain_inputs b r genesis fs) (chain_inputs b r genesis gs)"
proof (induction fs arbitrary: gs rule: rev_induct)
  case Nil
  have "gs = []"
  proof (cases gs rule: rev_cases)
    case (snoc gs' g)
    with Nil have "length genesis = 64" by (metis chain_from_snoc len chain_from_def foldl_Nil)
    then show ?thesis by (simp add: genesis_def)
  qed
  then show ?case by simp
next
  case (snoc f fs)
  show ?case
  proof (cases gs rule: rev_cases)
    case Nil
    with snoc.prems have "length genesis = 64" by (metis chain_from_snoc len chain_from_def foldl_Nil)
    then show ?thesis by (simp add: genesis_def)
  next
    case g: (snoc gs' g)
    let ?sf = "r (fact_to_stable_json f)" and ?sg = "r (fact_to_stable_json g)"
    let ?x = "chain_from b r genesis fs @ b ?sf" and ?y = "chain_from b r genesis gs' @ b ?sg"
    have h: "b ?x = b ?y" using snoc.prems by (simp add: g chain_from_snoc)
    have coll: ?thesis if "p \<in> set (chain_inputs b r genesis (fs @ [f]))" "q \<in> set (chain_inputs b r genesis gs)"
      "p \<noteq> q" "b p = b q" for p q
      using that by (auto simp: collision_def)
    show ?thesis
    proof (cases "?x = ?y \<and> ?sf = ?sg")
      case False
      then show ?thesis using h len coll [of ?x ?y] coll [of ?sf ?sg] by (auto simp: g chain_inputs_snoc)
    next
      case True
      then have st: "fact_to_stable_json f = fact_to_stable_json g"
        and prev: "chain_from b r genesis fs = chain_from b r genesis gs'"
        using ser len by (auto dest: injD)
      from snoc.IH [OF prev] show ?thesis
        using st by (auto simp: g collision_def chain_inputs_snoc)
    qed
  qed
qed

lemma chain_binds_facts:
  assumes len: "\<And>x. length (blake3 x) = 64" and ser: "inj ser"
    and "list_all canonical_fact fs" "list_all canonical_fact gs"
    and "compute_chain_hash blake3 ser fs = compute_chain_hash blake3 ser gs"
  shows "fs = gs \<or> collision blake3 (chain_inputs blake3 ser genesis fs) (chain_inputs blake3 ser genesis gs)"
proof -
  have "fs = gs" if "map fact_to_stable_json fs = map fact_to_stable_json gs"
    using that by (rule map_inj_list) (use assms(3,4) in \<open>auto simp: list_all_iff intro: fact_to_stable_json_inj\<close>)
  then show ?thesis
    using chain_binds [of blake3 ser fs gs, OF assms(1,2)] assms(5) by (auto simp: compute_chain_hash_from)
qed

instance serde :: countable
  by countable_datatype

section \<open>Properties\<close>



text \<open>
  The exported form and the hashed form of a fact agree: converting the export the way values are
  converted for hashing yields exactly the hashed form, so the chain can be recomputed from an export.
\<close>

theorem export_rehashes:
  "tcb_to_serde (to_json f) = fact_to_stable_json f"
  by (rule export_fact)

text \<open>
  The chain does not see the difference between an \<open>i64\<close> and a \<open>u64\<close> of the same value, which the
  value type keeps apart: two facts that are not equal have the same hash for every hash function.
\<close>

theorem hash_conflates_integer_and_u64:
  "Command 1 (Integer 5) \<noteq> Command 1 (U64 5) \<and>
   fact_hash blake3 ser (Command 1 (Integer 5)) = fact_hash blake3 ser (Command 1 (U64 5))"
  by (simp add: fact_hash_def)

end
