(* ===== verification/Wal.thy ===== *)
theory Wal
  imports AuditChain
begin

text \<open>
  The write-ahead log, \<open>evorule-reactor/src/wal.rs\<close>: the JSON form of facts and its reader, the record
  lines, the writer with its file rotation, and the reader over all segments of a log.  A log on disk
  is a map from the segment number to the lines of the file, segment 0 being the main file;
  \<open>serde_json::to_string\<close> and \<open>serde_json::from_str\<close> are the parameters \<open>ser\<close> and \<open>de\<close>.  Failures of
  the operating system are not modelled here.
\<close>

section \<open>Errors and accessors of JSON values\<close>

datatype wal_error = WalIo string | WalJson string | InvalidFact string

fun wal_error_display :: "wal_error \<Rightarrow> string" where
  "wal_error_display (WalIo e) = ''WAL I/O error: '' @ e"
| "wal_error_display (WalJson e) = ''WAL JSON error: '' @ e"
| "wal_error_display (InvalidFact msg) = ''WAL invalid fact: '' @ msg"

fun s_as_str :: "serde \<Rightarrow> string option" where
  "s_as_str (SString s) = Some s" | "s_as_str _ = None"

fun s_as_u64 :: "serde \<Rightarrow> u64 option" where
  "s_as_u64 (SNumber n) = (if 0 \<le> n \<and> n < 2 ^ 64 then Some (word_of_int n) else None)"
| "s_as_u64 _ = None"

fun s_as_bool :: "serde \<Rightarrow> bool option" where
  "s_as_bool (SBool b) = Some b" | "s_as_bool _ = None"

fun s_as_array :: "serde \<Rightarrow> serde list option" where
  "s_as_array (SArray xs) = Some xs" | "s_as_array _ = None"

fun s_as_object :: "serde \<Rightarrow> (string \<times> serde) list option" where
  "s_as_object (SObject m) = Some m" | "s_as_object _ = None"

fun serde_to_tcb :: "serde \<Rightarrow> json" where
  "serde_to_tcb SNull = Null"
| "serde_to_tcb (SBool b) = Bool b"
| "serde_to_tcb (SNumber n) =
     (if in_i64 n then Integer (word_of_int n)
      else if 0 \<le> n \<and> n < 2 ^ 64 then U64 (word_of_int n)
      else String (dec_int n))"
| "serde_to_tcb (SFloat t) = String t"
| "serde_to_tcb (SString s) = String s"
| "serde_to_tcb (SArray arr) = Array (map serde_to_tcb arr)"
| "serde_to_tcb (SObject m) =
     Object (foldl (\<lambda>obj (k, v). bt_put k v obj) bt_new (map (\<lambda>(k, v). (k, serde_to_tcb v)) m))"

section \<open>Facts\<close>

definition wal_attr_to_json :: "trace_domain_attribution \<Rightarrow> serde" where
  "wal_attr_to_json a = serde_map
     ([(''outcome'', SString (trace_outcome a))]
      @ (case trace_missing_reason a of Some reason \<Rightarrow> [(''missing_reason'', SString reason)] | None \<Rightarrow> [])
      @ (case trace_on_missing a of Some policy \<Rightarrow> [(''on_missing'', SString policy)] | None \<Rightarrow> []))"

definition wal_hit_to_json :: "trace_hit \<Rightarrow> serde" where
  "wal_hit_to_json h = serde_map
     ([(''index'', num (trace_index h)), (''instr_type'', SString (trace_instr_type h)),
       (''hit'', SBool (trace_hit h))]
      @ (case trace_domain_attr h of Some a \<Rightarrow> [(''domain_attr'', wal_attr_to_json a)] | None \<Rightarrow> []))"

fun fact_to_json :: "fact \<Rightarrow> serde" where
  "fact_to_json (Command i instruction) = serde_map
     [(''type'', SString ''Command''), (''id'', num i), (''instruction'', tcb_to_serde instruction)]"
| "fact_to_json (PayloadUpdate i path v) = serde_map
     [(''type'', SString ''PayloadUpdate''), (''id'', num i), (''path'', SString path),
      (''value'', tcb_to_serde v)]"
| "fact_to_json (StateTransition i cause new_payload new_queue) = serde_map
     [(''type'', SString ''StateTransition''), (''id'', num i), (''cause'', num cause),
      (''new_payload'', tcb_to_serde new_payload), (''new_queue'', SArray (map tcb_to_serde new_queue))]"
| "fact_to_json (IoRequest i cause io_type params) = serde_map
     [(''type'', SString ''IoRequest''), (''id'', num i), (''cause'', num cause),
      (''io_type'', SString io_type), (''params'', tcb_to_serde params)]"
| "fact_to_json (IoResponse i request_id res err) = serde_map
     [(''type'', SString ''IoResponse''), (''id'', num i), (''request_id'', num request_id),
      (''result'', tcb_to_serde res), (''error'', case err of Some msg \<Rightarrow> SString msg | None \<Rightarrow> SNull)]"
| "fact_to_json (Stable i version) = serde_map
     [(''type'', SString ''Stable''), (''id'', num i), (''version'', num version)]"
| "fact_to_json (Error i message) = serde_map
     [(''type'', SString ''Error''), (''id'', num i), (''message'', SString message)]"
| "fact_to_json (TransitionTrace i cause rule_hits) = serde_map
     [(''type'', SString ''TransitionTrace''), (''id'', num i), (''cause'', num cause),
      (''rule_hits'', SArray (map wal_hit_to_json rule_hits))]"
| "fact_to_json (Violation i cause rule_index reason instruction) = serde_map
     [(''type'', SString ''Violation''), (''id'', num i), (''cause'', num cause),
      (''rule_index'', num rule_index), (''reason'', SString reason),
      (''instruction'', tcb_to_serde instruction)]"

type_synonym 'a wal = "wal_error + 'a"

text \<open>A field of an object, and a field of a given form: the \<open>obj.get(..).and_then(..).ok_or_else(..)\<close> idiom.\<close>

definition field :: "(string \<times> serde) list \<Rightarrow> string \<Rightarrow> string \<Rightarrow> serde wal" where
  "field obj k msg = ok_or (InvalidFact msg) (bt_get k obj)"

definition field_as :: "(serde \<Rightarrow> 'a option) \<Rightarrow> (string \<times> serde) list \<Rightarrow> string \<Rightarrow> string \<Rightarrow> 'a wal" where
  "field_as as_type obj k msg =
     ok_or (InvalidFact msg) (case bt_get k obj of None \<Rightarrow> None | Some v \<Rightarrow> as_type v)"

definition missing :: "string \<Rightarrow> string \<Rightarrow> string" where
  "missing what k = what @ '' missing '' @ squote k"

text \<open>\<open>h.get(k)\<close> on a value that may not be an object.\<close>

definition s_get :: "string \<Rightarrow> serde \<Rightarrow> serde option" where
  "s_get k v = (case v of SObject m \<Rightarrow> bt_get k m | _ \<Rightarrow> None)"

definition hit_field :: "(serde \<Rightarrow> 'a option) \<Rightarrow> serde \<Rightarrow> string \<Rightarrow> string \<Rightarrow> 'a wal" where
  "hit_field as_type h k msg =
     ok_or (InvalidFact msg) (case s_get k h of None \<Rightarrow> None | Some v \<Rightarrow> as_type v)"

text \<open>\<open>attr.get(k).map(..).transpose()?\<close>: an absent key is \<open>None\<close>, a key that is not a string is an error.\<close>

definition opt_str_field :: "serde \<Rightarrow> string \<Rightarrow> string option wal" where
  "opt_str_field attr k =
     (case s_get k attr of
        None \<Rightarrow> Inr None
      | Some v \<Rightarrow>
          (case s_as_str v of
             None \<Rightarrow> Inl (InvalidFact (''TransitionTrace domain_attr '' @ squote k @ '' not a string''))
           | Some s \<Rightarrow> Inr (Some s)))"

definition attr_from_json :: "serde \<Rightarrow> trace_domain_attribution wal" where
  "attr_from_json attr =
     and_then (hit_field s_as_str attr ''outcome'' (missing ''TransitionTrace domain_attr'' ''outcome'')) (\<lambda>oc.
     and_then (opt_str_field attr ''missing_reason'') (\<lambda>mr.
     and_then (opt_str_field attr ''on_missing'') (\<lambda>om.
     Inr \<lparr>trace_outcome = oc, trace_missing_reason = mr, trace_on_missing = om\<rparr>)))"

definition hit_from_json :: "serde \<Rightarrow> trace_hit wal" where
  "hit_from_json h =
     and_then (hit_field s_as_u64 h ''index'' (missing ''TransitionTrace hit'' ''index'')) (\<lambda>ix.
     and_then (hit_field s_as_str h ''instr_type'' (missing ''TransitionTrace hit'' ''instr_type'')) (\<lambda>ty.
     and_then (hit_field s_as_bool h ''hit'' (missing ''TransitionTrace hit'' ''hit'')) (\<lambda>ht.
     and_then (case s_get ''domain_attr'' h of
                 None \<Rightarrow> Inr None
               | Some attr \<Rightarrow> map_ok Some (attr_from_json attr)) (\<lambda>da.
     Inr \<lparr>trace_index = ix, trace_instr_type = ty, trace_hit = ht, trace_domain_attr = da\<rparr>))))"

fun hits_from_json :: "serde list \<Rightarrow> trace_hit list wal" where
  "hits_from_json [] = Inr []"
| "hits_from_json (h # hs) =
     and_then (hit_from_json h) (\<lambda>x. map_ok (\<lambda>xs. x # xs) (hits_from_json hs))"

definition fact_from_json :: "serde \<Rightarrow> fact wal" where
  "fact_from_json v =
     and_then (ok_or (InvalidFact ''fact is not an object'') (s_as_object v)) (\<lambda>obj.
     and_then (field_as s_as_str obj ''type'' (''missing '' @ squote ''type'' @ '' field'')) (\<lambda>type_str.
     and_then (field_as s_as_u64 obj ''id'' (''missing/invalid '' @ squote ''id'' @ '' field'')) (\<lambda>i.
     if type_str = ''Command'' then
       and_then (field obj ''instruction'' (missing ''Command'' ''instruction'')) (\<lambda>instruction.
       Inr (Command i (serde_to_tcb instruction)))
     else if type_str = ''PayloadUpdate'' then
       and_then (field_as s_as_str obj ''path'' (missing ''PayloadUpdate'' ''path'')) (\<lambda>path.
       and_then (field obj ''value'' (missing ''PayloadUpdate'' ''value'')) (\<lambda>val.
       Inr (PayloadUpdate i path (serde_to_tcb val))))
     else if type_str = ''StateTransition'' then
       and_then (field_as s_as_u64 obj ''cause'' (missing ''StateTransition'' ''cause'')) (\<lambda>cause.
       and_then (field obj ''new_payload'' (missing ''StateTransition'' ''new_payload'')) (\<lambda>new_payload.
       and_then (field_as s_as_array obj ''new_queue'' (missing ''StateTransition'' ''new_queue'')) (\<lambda>new_queue.
       Inr (StateTransition i cause (serde_to_tcb new_payload) (map serde_to_tcb new_queue)))))
     else if type_str = ''IoRequest'' then
       and_then (field_as s_as_u64 obj ''cause'' (missing ''IoRequest'' ''cause'')) (\<lambda>cause.
       and_then (field_as s_as_str obj ''io_type'' (missing ''IoRequest'' ''io_type'')) (\<lambda>io_type.
       and_then (field obj ''params'' (missing ''IoRequest'' ''params'')) (\<lambda>params.
       Inr (IoRequest i cause io_type (serde_to_tcb params)))))
     else if type_str = ''IoResponse'' then
       and_then (field_as s_as_u64 obj ''request_id'' (missing ''IoResponse'' ''request_id'')) (\<lambda>request_id.
       and_then (field obj ''result'' (missing ''IoResponse'' ''result'')) (\<lambda>res.
       and_then (case bt_get ''error'' obj of
                   None \<Rightarrow> Inr None
                 | Some SNull \<Rightarrow> Inr None
                 | Some (SString s) \<Rightarrow> Inr (Some s)
                 | Some _ \<Rightarrow> Inl (InvalidFact (''IoResponse '' @ squote ''error'' @ '' must be string or null''))) (\<lambda>err.
       Inr (IoResponse i request_id (serde_to_tcb res) err))))
     else if type_str = ''Stable'' then
       Inr (Stable i (unwrap_or 0 (case bt_get ''version'' obj of None \<Rightarrow> None | Some v \<Rightarrow> s_as_u64 v)))
     else if type_str = ''Error'' then
       and_then (field_as s_as_str obj ''message'' (missing ''Error'' ''message'')) (\<lambda>message.
       Inr (Error i message))
     else if type_str = ''TransitionTrace'' then
       and_then (field_as s_as_u64 obj ''cause'' (missing ''TransitionTrace'' ''cause'')) (\<lambda>cause.
       and_then (field_as s_as_array obj ''rule_hits'' (missing ''TransitionTrace'' ''rule_hits'')) (\<lambda>hits_raw.
       and_then (hits_from_json hits_raw) (\<lambda>rule_hits.
       Inr (TransitionTrace i cause rule_hits))))
     else if type_str = ''Violation'' then
       and_then (field_as s_as_u64 obj ''cause'' (missing ''Violation'' ''cause'')) (\<lambda>cause.
       and_then (field_as s_as_u64 obj ''rule_index'' (missing ''Violation'' ''rule_index'')) (\<lambda>rule_index.
       and_then (field_as s_as_str obj ''reason'' (missing ''Violation'' ''reason'')) (\<lambda>reason.
       and_then (field obj ''instruction'' (missing ''Violation'' ''instruction'')) (\<lambda>instruction.
       Inr (Violation i cause rule_index reason (serde_to_tcb instruction))))))
     else Inl (InvalidFact (''unknown fact type: '' @ type_str)))))"

section \<open>Text of a line\<close>

text \<open>
  \<open>str::trim\<close> removes Unicode white space: the number of bytes of the white-space character a string
  starts with, and the same for the reversed bytes of its end.
\<close>

definition ws3 :: "nat \<Rightarrow> nat \<Rightarrow> nat \<Rightarrow> bool" where
  "ws3 a b c \<longleftrightarrow>
     (a = 0xE1 \<and> b = 0x9A \<and> c = 0x80) \<or>
     (a = 0xE2 \<and> b = 0x80 \<and> (0x80 \<le> c \<and> c \<le> 0x8A \<or> c = 0xA8 \<or> c = 0xA9 \<or> c = 0xAF)) \<or>
     (a = 0xE2 \<and> b = 0x81 \<and> c = 0x9F) \<or> (a = 0xE3 \<and> b = 0x80 \<and> c = 0x80)"

definition ws_len :: "nat list \<Rightarrow> nat" where
  "ws_len s =
     (case s of
        [] \<Rightarrow> 0
      | a # r \<Rightarrow>
          if 9 \<le> a \<and> a \<le> 13 \<or> a = 32 then 1
          else (case r of
                  [] \<Rightarrow> 0
                | b # r' \<Rightarrow>
                    if a = 0xC2 \<and> (b = 0x85 \<or> b = 0xA0) then 2
                    else (case r' of [] \<Rightarrow> 0 | c # _ \<Rightarrow> if ws3 a b c then 3 else 0)))"

definition ws_len_rev :: "nat list \<Rightarrow> nat" where
  "ws_len_rev s =
     (case s of
        [] \<Rightarrow> 0
      | a # r \<Rightarrow>
          if 9 \<le> a \<and> a \<le> 13 \<or> a = 32 then 1
          else (case r of
                  [] \<Rightarrow> 0
                | b # r' \<Rightarrow>
                    if b = 0xC2 \<and> (a = 0x85 \<or> a = 0xA0) then 2
                    else (case r' of [] \<Rightarrow> 0 | c # _ \<Rightarrow> if ws3 c b a then 3 else 0)))"

function strip_ws :: "(nat list \<Rightarrow> nat) \<Rightarrow> string \<Rightarrow> string" where
  "strip_ws len s =
     (let n = len (map of_char s) in if n = 0 \<or> s = [] then s else strip_ws len (drop n s))"
  by pat_completeness auto
termination
  by (relation "measure (\<lambda>(_, s). length s)") auto

declare strip_ws.simps [simp del]

definition trim :: "string \<Rightarrow> string" where
  "trim s = rev (strip_ws ws_len_rev (rev (strip_ws ws_len s)))"

definition trim_end :: "string \<Rightarrow> string" where
  "trim_end s = rev (strip_ws ws_len_rev (rev s))"

fun contains :: "string \<Rightarrow> string \<Rightarrow> bool" where
  "contains p [] = (p = [])"
| "contains p (c # s) = (starts_with p (c # s) \<or> contains p s)"

text \<open>The precision of a format string counts characters: bytes that do not continue one.\<close>

fun take_chars :: "nat \<Rightarrow> string \<Rightarrow> string" where
  "take_chars n [] = []"
| "take_chars n (c # s) =
     (let continues = (of_char c div 64 = (2 :: nat)) in
      if continues then c # take_chars n s
      else if n = 0 then [] else c # take_chars (n - 1) s)"

lemma strip_ws_ascii:
  assumes "(of_char c :: nat) < 128" "\<not> (9 \<le> (of_char c :: nat) \<and> (of_char c :: nat) \<le> 13)" "(of_char c :: nat) \<noteq> 32"
  shows "strip_ws ws_len (c # s) = c # s" "strip_ws ws_len_rev (c # s) = c # s"
  using assms by (auto simp: strip_ws.simps [of _ "c # s"] ws_len_def ws_len_rev_def ws3_def Let_def split: list.splits)

section \<open>Record lines\<close>

record wal_record =
  version_before :: u64
  wal_fact :: fact
  wal_content_hash :: "string option"
  wal_prev_hash :: "string option"
  wal_chain_hash :: "string option"

definition has_hash :: "wal_record \<Rightarrow> bool" where
  "has_hash r = (wal_chain_hash r \<noteq> None)"

definition WAL_FORMAT_HEADER :: string where
  "WAL_FORMAT_HEADER = ''{'' @ [CHR 0x22] @ ''format'' @ [CHR 0x22] @ '':'' @ [CHR 0x22] @ ''evorule-wal/2''
     @ [CHR 0x22] @ ''}''"

definition is_format_header :: "string \<Rightarrow> bool" where
  "is_format_header line = (trim line = WAL_FORMAT_HEADER)"

definition plain_record_json :: "u64 \<Rightarrow> fact \<Rightarrow> serde" where
  "plain_record_json vb f = serde_map [(''version_before'', num vb), (''fact'', fact_to_json f)]"

definition hash_record_json :: "u64 \<Rightarrow> fact \<Rightarrow> string \<Rightarrow> string \<Rightarrow> string \<Rightarrow> serde" where
  "hash_record_json vb f ch ph kh = serde_map
     [(''version_before'', num vb), (''fact'', fact_to_json f), (''content_hash'', SString ch),
      (''prev_hash'', SString ph), (''chain_hash'', SString kh)]"

definition line_error :: "nat \<Rightarrow> string \<Rightarrow> wal_error" where
  "line_error line_no msg = InvalidFact (''line '' @ dec_nat line_no @ '': '' @ msg)"

definition opt_str :: "(string \<times> serde) list \<Rightarrow> string \<Rightarrow> string option" where
  "opt_str obj k = (case bt_get k obj of None \<Rightarrow> None | Some v \<Rightarrow> s_as_str v)"

definition parse_wal_line :: "(string \<Rightarrow> string + serde) \<Rightarrow> string \<Rightarrow> nat \<Rightarrow> wal_record wal" where
  "parse_wal_line de line line_no =
     and_then (map_err (\<lambda>e. line_error line_no (''JSON parse error: '' @ e)) (de line)) (\<lambda>v.
     and_then (ok_or (line_error line_no ''not an object'') (s_as_object v)) (\<lambda>obj.
     and_then (ok_or (line_error line_no ''missing version_before'')
                (case bt_get ''version_before'' obj of None \<Rightarrow> None | Some x \<Rightarrow> s_as_u64 x)) (\<lambda>vb.
     and_then (ok_or (line_error line_no ''missing fact'') (bt_get ''fact'' obj)) (\<lambda>fact_value.
     and_then (fact_from_json fact_value) (\<lambda>f.
     let f' = (case f of
                 Stable i version \<Rightarrow>
                   if version = 0 \<and> s_get ''version'' fact_value = None then Stable i vb else f
               | _ \<Rightarrow> f) in
     Inr \<lparr>version_before = vb, wal_fact = f', wal_content_hash = opt_str obj ''content_hash'',
          wal_prev_hash = opt_str obj ''prev_hash'', wal_chain_hash = opt_str obj ''chain_hash''\<rparr>)))))"

text \<open>The loop of \<open>parse_wal_records_counted\<close> over the lines with their indices.\<close>

fun parse_lines :: "(string \<Rightarrow> string + serde) \<Rightarrow> nat \<Rightarrow> nat \<Rightarrow> string list \<Rightarrow> wal_record list wal" where
  "parse_lines de base idx [] = Inr []"
| "parse_lines de base idx (line # lines) =
     (if trim line = [] then parse_lines de base (idx + 1) lines
      else if idx = 0 \<and> is_format_header line then parse_lines de base (idx + 1) lines
      else
        and_then (parse_wal_line de line (base + idx)) (\<lambda>r.
        map_ok (\<lambda>rs. r # rs) (parse_lines de base (idx + 1) lines)))"

definition parse_wal_records_counted ::
  "(string \<Rightarrow> string + serde) \<Rightarrow> string list \<Rightarrow> nat \<Rightarrow> (wal_record list \<times> nat) wal" where
  "parse_wal_records_counted de lines base = map_ok (\<lambda>rs. (rs, length lines)) (parse_lines de base 0 lines)"

definition parse_wal_records :: "(string \<Rightarrow> string + serde) \<Rightarrow> string list \<Rightarrow> nat \<Rightarrow> wal_record list wal" where
  "parse_wal_records de lines base = map_ok fst (parse_wal_records_counted de lines base)"

section \<open>Segments on disk\<close>

type_synonym disk = "(nat \<times> string list) list"

definition downgrade_error :: "string \<Rightarrow> wal_error" where
  "downgrade_error line = InvalidFact (
     ''WAL format downgrade detected: header present but record lacks hash fields at line: ''
     @ take_chars 60 line @ ''...'')"

definition detect_format_downgrade :: "string list \<Rightarrow> unit wal" where
  "detect_format_downgrade lines =
     (if \<not> is_format_header (trim_end (case lines of [] \<Rightarrow> [] | l # _ \<Rightarrow> l)) then Inr ()
      else (case find (\<lambda>line. trim line \<noteq> [] \<and> \<not> contains ''chain_hash'' line) (tl lines) of
              None \<Rightarrow> Inr ()
            | Some line \<Rightarrow> Inl (downgrade_error line)))"

text \<open>The loop over the rotated segments; there are at most as many as the disk has files.\<close>

fun read_segments ::
  "(string \<Rightarrow> string + serde) \<Rightarrow> disk \<Rightarrow> nat \<Rightarrow> nat \<Rightarrow> nat \<Rightarrow> (wal_record list \<times> bool) wal" where
  "read_segments de d 0 s line_no = Inr ([], False)"
| "read_segments de d (Suc fuel) s line_no =
     (case bt_get s d of
        None \<Rightarrow> Inr ([], False)
      | Some lines \<Rightarrow>
          and_then (parse_wal_records_counted de lines line_no) (\<lambda>(recs, n).
          map_ok (\<lambda>(rest, _). (recs @ rest, True)) (read_segments de d fuel (s + 1) (line_no + n))))"

definition read_wal_with_hash :: "(string \<Rightarrow> string + serde) \<Rightarrow> disk \<Rightarrow> wal_record list wal" where
  "read_wal_with_hash de d =
     and_then
       (case bt_get 0 d of
          None \<Rightarrow> Inr ([], 0, False)
        | Some lines \<Rightarrow>
            and_then (detect_format_downgrade lines) (\<lambda>_.
            map_ok (\<lambda>(recs, n). (recs, n, True)) (parse_wal_records_counted de lines 0))) (\<lambda>(recs, line_no, found).
     and_then (read_segments de d (length d + 1) 1 line_no) (\<lambda>(rest, found').
     if \<not> (found \<or> found') then Inl (WalIo ''WAL file not found'') else Inr (recs @ rest)))"

section \<open>The writer\<close>

record wal_writer =
  max_size_bytes :: nat
  current_size_bytes :: nat
  file_sequence :: nat

definition create_with_options :: "nat \<Rightarrow> disk \<Rightarrow> wal_writer \<times> disk" where
  "create_with_options max_wal_size_bytes d =
     (\<lparr>max_size_bytes = max_wal_size_bytes, current_size_bytes = 0, file_sequence = 0\<rparr>,
      bt_put 0 [WAL_FORMAT_HEADER] d)"

fun free_segment :: "nat \<Rightarrow> nat \<Rightarrow> disk \<Rightarrow> nat" where
  "free_segment 0 s d = s"
| "free_segment (Suc fuel) s d = (if bt_contains s d then free_segment fuel (s + 1) d else s)"

definition file_len :: "string list \<Rightarrow> nat" where
  "file_len lines = sum_list (map (\<lambda>l. length l + 1) lines)"

definition append_with_options :: "nat \<Rightarrow> disk \<Rightarrow> wal_writer \<times> disk" where
  "append_with_options max_size d =
     (let s = free_segment (length d) 0 d - 1;
          d' = (if bt_contains s d then d else bt_put s [] d);
          size = (if s = 0 then file_len (unwrap_or [] (bt_get 0 d')) else 0) in
      (\<lparr>max_size_bytes = max_size, current_size_bytes = size, file_sequence = s\<rparr>, d'))"

definition rotate :: "wal_writer \<Rightarrow> disk \<Rightarrow> wal_writer \<times> disk" where
  "rotate w d =
     (let s = file_sequence w + 1 in
      (w\<lparr>file_sequence := s, current_size_bytes := 0\<rparr>, bt_put s [] d))"

definition append_line :: "string \<Rightarrow> wal_writer \<Rightarrow> disk \<Rightarrow> wal_writer \<times> disk" where
  "append_line line w d =
     (let line_bytes = length line + 1;
          (w', d') = (if max_size_bytes w > 0 \<and> current_size_bytes w > 0 \<and>
                         current_size_bytes w + line_bytes > max_size_bytes w
                      then rotate w d else (w, d));
          s = file_sequence w' in
      (w'\<lparr>current_size_bytes := current_size_bytes w' + line_bytes\<rparr>,
       bt_put s (unwrap_or [] (bt_get s d') @ [line]) d'))"

definition append_record ::
  "(serde \<Rightarrow> string) \<Rightarrow> u64 \<Rightarrow> fact \<Rightarrow> wal_writer \<Rightarrow> disk \<Rightarrow> wal_writer \<times> disk" where
  "append_record ser vb f w d = append_line (ser (plain_record_json vb f)) w d"

definition append_record_with_hash ::
  "(serde \<Rightarrow> string) \<Rightarrow> u64 \<Rightarrow> fact \<Rightarrow> string \<Rightarrow> string \<Rightarrow> string \<Rightarrow> wal_writer \<Rightarrow> disk \<Rightarrow> wal_writer \<times> disk" where
  "append_record_with_hash ser vb f ch ph kh w d = append_line (ser (hash_record_json vb f ch ph kh)) w d"

section \<open>Facts survive the log\<close>

lemma wal_attr_same: "wal_attr_to_json = trace_attr_to_json"
  by (simp add: fun_eq_iff wal_attr_to_json_def trace_attr_to_json_def)

lemma wal_hit_same: "wal_hit_to_json = trace_hit_to_json"
  unfolding fun_eq_iff wal_hit_to_json_def trace_hit_to_json_def wal_attr_same by simp

lemma wal_fact_same: "fact_to_json f = fact_to_stable_json f"
  by (cases f) (simp_all add: wal_hit_same)

lemma uint_u64_range: "0 \<le> uint (v :: u64)" "uint v < 18446744073709551616"
  using uint_lt2p [of v] by simp_all

lemma as_u64_num [simp]: "s_as_u64 (num v) = Some v"
  using uint_u64_range [of v] by (simp add: num_def)

lemma serde_to_tcb_sorted:
  "bt_sorted m \<Longrightarrow> serde_to_tcb (SObject m) = Object (map (\<lambda>(k, v). (k, serde_to_tcb v)) m)"
  using foldl_bt_put_sorted [of "[]" "map (\<lambda>(k, v). (k, serde_to_tcb v)) m"]
  by (simp add: bt_sorted_map_snd bt_new_def)

lemma in_i64_sint: "in_i64 (sint (i :: i64))"
  using sint_le_i64_max [of i] sint_ge [of i] by (simp add: in_i64_def i64_min_def)

lemma serde_round_trip: "canonical_json j \<Longrightarrow> serde_to_tcb (tcb_to_serde j) = j"
proof (induction j)
  case (Integer i)
  then show ?case by (simp add: in_i64_sint)
next
  case (U64 v)
  then show ?case using uint_u64_range [of v] by (simp add: in_i64_def)
next
  case (Array xs)
  then show ?case by (auto simp: list_all_iff intro: map_idI)
next
  case (Object m)
  then have "serde_to_tcb (tcb_to_serde (Object m)) =
      Object (map (\<lambda>(k, v). (k, serde_to_tcb (tcb_to_serde v))) m)"
    by (simp add: serde_map_sorted bt_sorted_map_snd serde_to_tcb_sorted case_prod_beta comp_def
        del: serde_to_tcb.simps)
  also have "map (\<lambda>(k, v). (k, serde_to_tcb (tcb_to_serde v))) m = m"
    using Object by (intro map_idI) (auto simp: list_all_iff snds.simps)
  finally show ?case .
qed simp_all

lemma serde_map_object: "\<exists>m. serde_map ps = SObject m \<and> (\<forall>k. bt_get k m = map_of (rev ps) k)"
  using serde_get_map [of _ ps] by (auto simp: serde_map_def serde_get_def)

lemma s_get_map [simp]: "s_get k (serde_map ps) = map_of (rev ps) k"
  using serde_get_map [of k ps] by (simp add: s_get_def serde_get_def)

lemma attr_round_trip: "attr_from_json (wal_attr_to_json a) = Inr a"
  by (cases a) (auto simp: attr_from_json_def wal_attr_to_json_def hit_field_def opt_str_field_def split: option.splits)

lemma hit_round_trip: "hit_from_json (wal_hit_to_json h) = Inr h"
  by (cases h) (auto simp: hit_from_json_def wal_hit_to_json_def hit_field_def attr_round_trip split: option.splits)

lemma hits_round_trip: "hits_from_json (map wal_hit_to_json hs) = Inr hs"
  by (induction hs) (simp_all add: hit_round_trip)

lemma map_serde_round_trip: "list_all canonical_json q \<Longrightarrow> map (\<lambda>x. serde_to_tcb (tcb_to_serde x)) q = q"
  by (intro map_idI) (auto simp: list_all_iff serde_round_trip)

text \<open>What writing and reading a fact makes of it: the values in it are converted there and back.\<close>

fun reread :: "fact \<Rightarrow> fact" where
  "reread (Command i j) = Command i (serde_to_tcb (tcb_to_serde j))"
| "reread (PayloadUpdate i p j) = PayloadUpdate i p (serde_to_tcb (tcb_to_serde j))"
| "reread (StateTransition i c p q) =
     StateTransition i c (serde_to_tcb (tcb_to_serde p)) (map (\<lambda>x. serde_to_tcb (tcb_to_serde x)) q)"
| "reread (IoRequest i c t j) = IoRequest i c t (serde_to_tcb (tcb_to_serde j))"
| "reread (IoResponse i r j e) = IoResponse i r (serde_to_tcb (tcb_to_serde j)) e"
| "reread (Violation i c r w j) = Violation i c r w (serde_to_tcb (tcb_to_serde j))"
| "reread f = f"

lemma reread_canonical: "canonical_fact f \<Longrightarrow> reread f = f"
  by (cases f) (simp_all add: serde_round_trip map_serde_round_trip)

lemma reread_id [simp]: "fact_id_of (reread f) = fact_id_of f"
  by (cases f) simp_all

lemma fact_reread: "fact_from_json (fact_to_json f) = Inr (reread f)"
proof (cases f)
  case (IoResponse i r j e)
  obtain m where "fact_to_json f = SObject m" "\<And>k. bt_get k m = map_of (rev
      [(''type'', SString ''IoResponse''), (''id'', num i), (''request_id'', num r),
       (''result'', tcb_to_serde j), (''error'', case e of Some msg \<Rightarrow> SString msg | None \<Rightarrow> SNull)]) k"
    using serde_map_object unfolding IoResponse fact_to_json.simps by blast
  then show ?thesis
    by (cases e) (simp_all add: IoResponse fact_from_json_def field_def field_as_def)
next
  case (StateTransition i c p q)
  obtain m where "fact_to_json f = SObject m" "\<And>k. bt_get k m = map_of (rev
      [(''type'', SString ''StateTransition''), (''id'', num i), (''cause'', num c),
       (''new_payload'', tcb_to_serde p), (''new_queue'', SArray (map tcb_to_serde q))]) k"
    using serde_map_object unfolding StateTransition fact_to_json.simps by blast
  then show ?thesis
    by (simp add: StateTransition fact_from_json_def field_def field_as_def comp_def)
next
  case (Command i j)
  obtain m where "fact_to_json f = SObject m" "\<And>k. bt_get k m = map_of (rev
      [(''type'', SString ''Command''), (''id'', num i), (''instruction'', tcb_to_serde j)]) k"
    using serde_map_object unfolding Command fact_to_json.simps by blast
  then show ?thesis by (simp add: Command fact_from_json_def field_def field_as_def)
next
  case (PayloadUpdate i p j)
  obtain m where "fact_to_json f = SObject m" "\<And>k. bt_get k m = map_of (rev
      [(''type'', SString ''PayloadUpdate''), (''id'', num i), (''path'', SString p), (''value'', tcb_to_serde j)]) k"
    using serde_map_object unfolding PayloadUpdate fact_to_json.simps by blast
  then show ?thesis by (simp add: PayloadUpdate fact_from_json_def field_def field_as_def)
next
  case (IoRequest i c t j)
  obtain m where "fact_to_json f = SObject m" "\<And>k. bt_get k m = map_of (rev
      [(''type'', SString ''IoRequest''), (''id'', num i), (''cause'', num c), (''io_type'', SString t),
       (''params'', tcb_to_serde j)]) k"
    using serde_map_object unfolding IoRequest fact_to_json.simps by blast
  then show ?thesis by (simp add: IoRequest fact_from_json_def field_def field_as_def)
next
  case (Stable i v)
  obtain m where "fact_to_json f = SObject m" "\<And>k. bt_get k m = map_of (rev
      [(''type'', SString ''Stable''), (''id'', num i), (''version'', num v)]) k"
    using serde_map_object unfolding Stable fact_to_json.simps by blast
  then show ?thesis by (simp add: Stable fact_from_json_def field_def field_as_def)
next
  case (Error i v)
  obtain m where "fact_to_json f = SObject m" "\<And>k. bt_get k m = map_of (rev
      [(''type'', SString ''Error''), (''id'', num i), (''message'', SString v)]) k"
    using serde_map_object unfolding Error fact_to_json.simps by blast
  then show ?thesis by (simp add: Error fact_from_json_def field_def field_as_def)
next
  case (TransitionTrace i c hs)
  obtain m where "fact_to_json f = SObject m" "\<And>k. bt_get k m = map_of (rev
      [(''type'', SString ''TransitionTrace''), (''id'', num i), (''cause'', num c),
       (''rule_hits'', SArray (map wal_hit_to_json hs))]) k"
    using serde_map_object unfolding TransitionTrace fact_to_json.simps by blast
  then show ?thesis by (simp add: TransitionTrace fact_from_json_def field_def field_as_def hits_round_trip)
next
  case (Violation i c r w j)
  obtain m where "fact_to_json f = SObject m" "\<And>k. bt_get k m = map_of (rev
      [(''type'', SString ''Violation''), (''id'', num i), (''cause'', num c), (''rule_index'', num r),
       (''reason'', SString w), (''instruction'', tcb_to_serde j)]) k"
    using serde_map_object unfolding Violation fact_to_json.simps by blast
  then show ?thesis by (simp add: Violation fact_from_json_def field_def field_as_def)
qed

lemma fact_round_trip: "canonical_fact f \<Longrightarrow> fact_from_json (fact_to_json f) = Inr f"
  by (simp add: fact_reread reread_canonical)

section \<open>Lines survive the log\<close>

definition hash_record :: "u64 \<Rightarrow> fact \<Rightarrow> string \<Rightarrow> string \<Rightarrow> string \<Rightarrow> wal_record" where
  "hash_record vb f ch ph kh = \<lparr>version_before = vb, wal_fact = f, wal_content_hash = Some ch,
     wal_prev_hash = Some ph, wal_chain_hash = Some kh\<rparr>"

lemma stable_has_version: "s_get ''version'' (fact_to_json (Stable i v)) = Some (num v)"
  by simp

lemma line_round_trip:
  assumes "de (ser (hash_record_json vb f ch ph kh)) = Inr (hash_record_json vb f ch ph kh)" "canonical_fact f"
  shows "parse_wal_line de (ser (hash_record_json vb f ch ph kh)) n = Inr (hash_record vb f ch ph kh)"
proof -
  obtain m where m: "hash_record_json vb f ch ph kh = SObject m" "\<And>k. bt_get k m = map_of (rev
      [(''version_before'', num vb), (''fact'', fact_to_json f), (''content_hash'', SString ch),
       (''prev_hash'', SString ph), (''chain_hash'', SString kh)]) k"
    using serde_map_object unfolding hash_record_json_def by blast
  have "(case f of Stable i version \<Rightarrow>
      if version = 0 \<and> s_get ''version'' (fact_to_json f) = None then Stable i vb else f | _ \<Rightarrow> f) = f"
    by (cases f) auto
  with m assms show ?thesis
    by (simp add: parse_wal_line_def fact_round_trip opt_str_def hash_record_def)
qed

text \<open>A list of lines that all parse, none of them blank or a header.\<close>

lemma parse_lines_ok:
  "\<forall>l \<in> set ls. trim l \<noteq> [] \<and> \<not> is_format_header l \<and> (\<forall>n. parse_wal_line de l n = Inr (rec l)) \<Longrightarrow>
   parse_lines de base idx ls = Inr (map rec ls)"
  by (induction ls arbitrary: idx) auto

text \<open>The content of the disk as the list of its segments.\<close>

definition segments :: "disk \<Rightarrow> string list list \<Rightarrow> bool" where
  "segments d segs \<longleftrightarrow> (\<forall>s. bt_get s d = (if s < length segs then Some (segs ! s) else None))"

lemma segments_length: "segments d segs \<Longrightarrow> length segs \<le> length d"
proof -
  assume "segments d segs"
  then have "{..<length segs} \<subseteq> fst ` set d"
    by (auto simp: segments_def subset_iff) (metis bt_get_None_iff option.distinct(1))
  then have "card {..<length segs} \<le> card (fst ` set d)" by (intro card_mono) auto
  also have "\<dots> \<le> length d" by (metis card_length length_map set_map)
  finally show ?thesis by simp
qed

lemma read_segments_ok:
  "segments d segs \<Longrightarrow> \<forall>l \<in> set (concat (drop s segs)). trim l \<noteq> [] \<and> \<not> is_format_header l \<and>
     (\<forall>n. parse_wal_line de l n = Inr (rec l)) \<Longrightarrow> length segs - s < fuel \<Longrightarrow>
   read_segments de d fuel s line_no = Inr (map rec (concat (drop s segs)), s < length segs)"
proof (induction fuel arbitrary: s line_no)
  case (Suc fuel)
  show ?case
  proof (cases "s < length segs")
    case True
    then have drop: "drop s segs = segs ! s # drop (Suc s) segs" by (simp add: Cons_nth_drop_Suc)
    have "parse_lines de line_no 0 (segs ! s) = Inr (map rec (segs ! s))"
      using Suc.prems(2) drop by (intro parse_lines_ok) auto
    moreover have "read_segments de d fuel (s + 1) n = Inr (map rec (concat (drop (Suc s) segs)), s + 1 < length segs)" for n
      using Suc.IH [of "s + 1"] Suc.prems drop True by auto
    ultimately show ?thesis
      using True Suc.prems(1) drop by (simp add: segments_def parse_wal_records_counted_def)
  next
    case False
    with Suc.prems(1) show ?thesis by (simp add: segments_def)
  qed
qed simp

text \<open>The invariant of a writer: its segments hold the header and then the lines in order.\<close>

definition writer_inv :: "wal_writer \<Rightarrow> disk \<Rightarrow> string list \<Rightarrow> bool" where
  "writer_inv w d ls \<longleftrightarrow>
     (\<exists>segs. segments d segs \<and> length segs = file_sequence w + 1 \<and>
        concat segs = WAL_FORMAT_HEADER # ls \<and> (\<exists>a. hd segs = WAL_FORMAT_HEADER # a))"

lemma segments_put_new: "segments d segs \<Longrightarrow> segments (bt_put (length segs) ls d) (segs @ [ls])"
  by (auto simp: segments_def nth_append)

lemma segments_put_last:
  "segments d (segs @ [old]) \<Longrightarrow> segments (bt_put (length segs) ls d) (segs @ [ls])"
  by (auto simp: segments_def nth_append)

lemma append_line_inv:
  assumes "writer_inv w d ls"
  shows "writer_inv (fst (append_line l w d)) (snd (append_line l w d)) (ls @ [l])"
proof -
  from assms obtain segs a where s: "segments d segs" "length segs = file_sequence w + 1"
    "concat segs = WAL_FORMAT_HEADER # ls" "hd segs = WAL_FORMAT_HEADER # a"
    by (auto simp: writer_inv_def)
  then have ne: "segs \<noteq> []" by auto
  show ?thesis
  proof (cases "max_size_bytes w > 0 \<and> current_size_bytes w > 0 \<and> current_size_bytes w + (length l + 1) > max_size_bytes w")
    case True
    have "segments (bt_put (length segs) [l] (bt_put (length segs) [] d)) (segs @ [[l]])"
      using segments_put_last [OF segments_put_new [OF s(1)]] by simp
    then show ?thesis
      using True s ne by (auto simp: writer_inv_def append_line_def rotate_def intro!: exI [of _ "segs @ [[l]]"])
  next
    case False
    from s(2) obtain pre lst where pre: "segs = pre @ [lst]" by (cases segs rule: rev_cases) auto
    have "bt_get (file_sequence w) d = Some lst" using s(1,2) by (simp add: segments_def pre nth_append)
    moreover have "segments (bt_put (length pre) (lst @ [l]) d) (pre @ [lst @ [l]])"
      using segments_put_last s(1) pre by blast
    ultimately show ?thesis
      using False s by (auto simp: writer_inv_def append_line_def pre hd_append
          intro!: exI [of _ "pre @ [lst @ [l]]"] split: if_splits)
  qed
qed

type_synonym record_data = "u64 \<times> fact \<times> string \<times> string \<times> string"

definition record_line :: "(serde \<Rightarrow> string) \<Rightarrow> record_data \<Rightarrow> string" where
  "record_line ser r = (case r of (vb, f, ch, ph, kh) \<Rightarrow> ser (hash_record_json vb f ch ph kh))"

definition record_of :: "record_data \<Rightarrow> wal_record" where
  "record_of r = (case r of (vb, f, ch, ph, kh) \<Rightarrow> hash_record vb f ch ph kh)"

fun write_records :: "(serde \<Rightarrow> string) \<Rightarrow> record_data list \<Rightarrow> wal_writer \<Rightarrow> disk \<Rightarrow> wal_writer \<times> disk" where
  "write_records ser [] w d = (w, d)"
| "write_records ser ((vb, f, ch, ph, kh) # rs) w d =
     (let (w', d') = append_record_with_hash ser vb f ch ph kh w d in write_records ser rs w' d')"

lemma write_records_inv:
  "writer_inv w d ls \<Longrightarrow>
   writer_inv (fst (write_records ser rs w d)) (snd (write_records ser rs w d)) (ls @ map (record_line ser) rs)"
proof (induction rs arbitrary: w d ls)
  case (Cons r rs)
  obtain vb f ch ph kh where r: "r = (vb, f, ch, ph, kh)" by (cases r)
  from Cons.IH [OF append_line_inv [OF Cons.prems, of "record_line ser r"]] show ?case
    by (simp add: r append_record_with_hash_def record_line_def Let_def case_prod_beta)
qed simp

lemma create_inv:
  "writer_inv (fst (create_with_options n [])) (snd (create_with_options n [])) []"
  by (auto simp: writer_inv_def create_with_options_def segments_def intro!: exI [of _ "[[WAL_FORMAT_HEADER]]"])

lemma header_facts: "trim WAL_FORMAT_HEADER = WAL_FORMAT_HEADER" "trim_end WAL_FORMAT_HEADER = WAL_FORMAT_HEADER"
  "\<not> contains ''chain_hash'' WAL_FORMAT_HEADER" "WAL_FORMAT_HEADER \<noteq> []"
  by code_simp+

lemma read_writer:
  assumes inv: "writer_inv w d ls"
    and ok: "\<forall>l \<in> set ls. trim l = l \<and> contains ''chain_hash'' l \<and> (\<forall>n. parse_wal_line de l n = Inr (rec l))"
  shows "read_wal_with_hash de d = Inr (map rec ls)"
proof -
  from inv obtain segs a where s: "segments d segs" "length segs = file_sequence w + 1"
    "concat segs = WAL_FORMAT_HEADER # ls" "hd segs = WAL_FORMAT_HEADER # a"
    by (auto simp: writer_inv_def)
  then obtain rest where segs: "segs = (WAL_FORMAT_HEADER # a) # rest" by (cases segs) auto
  with s(3) have ls: "ls = a @ concat rest" by simp
  have line: "\<forall>l \<in> set ls. trim l \<noteq> [] \<and> \<not> is_format_header l \<and> (\<forall>n. parse_wal_line de l n = Inr (rec l))"
    using ok header_facts by (auto simp: is_format_header_def)
  have "parse_lines de 0 0 (WAL_FORMAT_HEADER # a) = Inr (map rec a)"
    using line ls parse_lines_ok [of a de rec 0 "Suc 0"] by (simp add: header_facts is_format_header_def)
  moreover have "detect_format_downgrade (WAL_FORMAT_HEADER # a) = Inr ()"
    using ok ls by (auto simp: detect_format_downgrade_def is_format_header_def header_facts find_None_iff split: option.splits)
  moreover have "bt_get 0 d = Some (WAL_FORMAT_HEADER # a)" using s(1) segs by (simp add: segments_def)
  moreover have "read_segments de d (length d + 1) 1 n = Inr (map rec (concat rest), 1 < length segs)" for n
    using read_segments_ok [OF s(1), of 1 de rec "length d + 1" n] segments_length [OF s(1)] line segs ls by auto
  ultimately show ?thesis
    by (simp add: read_wal_with_hash_def parse_wal_records_counted_def ls)
qed

text \<open>What the development relies on of \<open>serde_json\<close>: parsing inverts printing, and the text of an object.\<close>

lemma read_written:
  assumes inv: "writer_inv w d (map (record_line ser) rs)"
    and de_ser: "\<And>v. de (ser v) = Inr v"
    and ser_trim: "\<And>m. trim (ser (SObject m)) = ser (SObject m)"
    and ser_key: "\<And>m. bt_get ''chain_hash'' m \<noteq> None \<Longrightarrow> contains ''chain_hash'' (ser (SObject m))"
    and canonical: "\<forall>(vb, f, ch, ph, kh) \<in> set rs. canonical_fact f"
  shows "read_wal_with_hash de d = Inr (map record_of rs)"
proof -
  define rec where "rec l = (case parse_wal_line de l 0 of Inr r \<Rightarrow> r | Inl _ \<Rightarrow> undefined)" for l
  have line: "trim (record_line ser r) = record_line ser r \<and> contains ''chain_hash'' (record_line ser r) \<and>
      (\<forall>n. parse_wal_line de (record_line ser r) n = Inr (record_of r))" if "r \<in> set rs" for r
  proof -
    obtain vb f ch ph kh where r: "r = (vb, f, ch, ph, kh)" by (cases r)
    obtain m where "hash_record_json vb f ch ph kh = SObject m" "bt_get ''chain_hash'' m \<noteq> None"
      using serde_map_object [of "[(''version_before'', num vb), (''fact'', fact_to_json f),
        (''content_hash'', SString ch), (''prev_hash'', SString ph), (''chain_hash'', SString kh)]"]
      by (auto simp: hash_record_json_def)
    with ser_trim ser_key canonical that line_round_trip [of de ser vb f ch ph kh] de_ser
    show ?thesis by (auto simp: r record_line_def record_of_def)
  qed
  then have rec: "rec (record_line ser r) = record_of r" if "r \<in> set rs" for r
    using that by (simp add: rec_def)
  have "read_wal_with_hash de d = Inr (map rec (map (record_line ser) rs))"
    by (rule read_writer [OF inv]) (use line rec in auto)
  then show ?thesis using rec by simp
qed

text \<open>A printer and parser with these laws: the number of a value in unary.\<close>

definition unary_ser :: "serde \<Rightarrow> string" where
  "unary_ser v = replicate (to_nat v) (CHR ''x'') @ ''chain_hash''"

definition unary_de :: "string \<Rightarrow> string + serde" where
  "unary_de s = Inr (from_nat (length s - 10))"

lemma unary_ser_laws:
  "unary_de (unary_ser v) = Inr v" "trim (unary_ser v) = unary_ser v" "contains ''chain_hash'' (unary_ser v)"
proof -
  have "strip_ws ws_len (replicate n (CHR ''x'') @ ''chain_hash'') = replicate n (CHR ''x'') @ ''chain_hash''" for n
    by (cases n) (simp_all add: strip_ws_ascii)
  then show "trim (unary_ser v) = unary_ser v"
    unfolding trim_def unary_ser_def by (simp add: strip_ws_ascii)
  have "contains ''chain_hash'' (replicate n (CHR ''x'') @ ''chain_hash'')" for n
    by (induction n) (simp_all add: starts_with_def)
  then show "contains ''chain_hash'' (unary_ser v)" by (simp add: unary_ser_def)
qed (simp add: unary_ser_def unary_de_def)

section \<open>Properties\<close>

text \<open>
  Facts survive the log: reading the JSON form of a fact gives the fact back, for all nine kinds of
  facts and identifiers over the whole range of \<open>u64\<close>, and the form written to the log is the form that
  is hashed.
\<close>

theorem wal_fact_round_trip:
  assumes "canonical_fact f"
  shows "fact_from_json (fact_to_json f) = Inr f \<and> fact_to_json f = fact_to_stable_json f"
  using fact_round_trip [OF assms] wal_fact_same [of f] by (intro conjI)

theorem wal_fact_round_trip_witness:
  "fact_from_json (fact_to_json (StateTransition (- 2) 1 (U64 (- 1)) [Integer (- 1)])) =
     Inr (StateTransition (- 2) 1 (U64 (- 1)) [Integer (- 1)])"
proof -
  have "canonical_fact (StateTransition (- 2) 1 (U64 (- 1)) [Integer (- 1)])" by code_simp
  then show ?thesis using wal_fact_round_trip by blast
qed

text \<open>
  What is written is what is read, across rotation.  On an empty disk a new log with any size limit,
  after any sequence of hashed records, is read back as exactly these records in their order, however
  often the writer rotated to a new segment.  Assumed of \<open>serde_json\<close>: parsing inverts printing, the text
  of an object has no white space around it and shows its keys.
\<close>

theorem wal_rotation_round_trip:
  assumes de_ser: "\<And>v. de (ser v) = Inr v"
    and ser_trim: "\<And>m. trim (ser (SObject m)) = ser (SObject m)"
    and ser_key: "\<And>m. bt_get ''chain_hash'' m \<noteq> None \<Longrightarrow> contains ''chain_hash'' (ser (SObject m))"
    and canonical: "\<forall>(vb, f, ch, ph, kh) \<in> set rs. canonical_fact f"
  shows "read_wal_with_hash de (snd (write_records ser rs (fst (create_with_options limit []))
           (snd (create_with_options limit [])))) = Inr (map record_of rs)"
  by (rule read_written [OF write_records_inv [OF create_inv, of ser rs limit, simplified append_Nil] de_ser ser_trim ser_key canonical])

theorem wal_rotation_round_trip_witness:
  "read_wal_with_hash unary_de (snd (write_records unary_ser [(0, Stable 1 0, ''c'', ''p'', ''k'')]
     (fst (create_with_options 1 [])) (snd (create_with_options 1 [])))) =
     Inr (map record_of [(0, Stable 1 0, ''c'', ''p'', ''k'')])"
  by (intro wal_rotation_round_trip) (auto simp: unary_ser_laws)

text \<open>
  Starting a new log does not clear the segments of an old one.  \<open>create_with_options\<close> truncates the
  main file only, so with a rotated segment of an earlier log on the disk the reader of the new, empty
  log returns the records of the old one.
\<close>

theorem create_keeps_stale_segments:
  assumes "de (ser (hash_record_json vb f ch ph kh)) = Inr (hash_record_json vb f ch ph kh)"
    and "canonical_fact f" "trim (ser (hash_record_json vb f ch ph kh)) \<noteq> []"
    and "\<not> is_format_header (ser (hash_record_json vb f ch ph kh))"
  shows "read_wal_with_hash de (snd (create_with_options limit [(1, [ser (hash_record_json vb f ch ph kh)])])) =
     Inr [hash_record vb f ch ph kh]"
  using assms line_round_trip [of de ser vb f ch ph kh, OF assms(1,2)]
  by (simp add: read_wal_with_hash_def create_with_options_def detect_format_downgrade_def is_format_header_def
      header_facts parse_wal_records_counted_def)

theorem create_keeps_stale_segments_witness:
  "\<exists>(de :: string \<Rightarrow> string + serde) ser. read_wal_with_hash de
     (snd (create_with_options 0 [(1, [ser (hash_record_json 0 (Stable 1 0) ''c'' ''p'' ''k'')])])) =
     Inr [hash_record 0 (Stable 1 0) ''c'' ''p'' ''k'']"
  by (intro exI [of _ "\<lambda>_. Inr (hash_record_json 0 (Stable 1 0) ''c'' ''p'' ''k'')"] exI [of _ "\<lambda>_. ''x''"]
      create_keeps_stale_segments)
    (simp_all, code_simp+)

end
