(* ===== verification/FactsLog.thy ===== *)
theory FactsLog
  imports Wal "HOL-Library.Multiset"
begin

text \<open>
  The append-only fact log, \<open>evorule-reactor/src/facts_log.rs\<close>: the materialized state, the single point
  where a fact is applied, append with its write-ahead step, replay, the indexed reads, compaction and
  reset.  The lock is not modelled: every operation runs under it, so an operation is a function on the
  log.  The storage backend is a trait object in the code and the parameter \<open>store\<close> here: what it does
  with a record, or the error it returns.
\<close>

section \<open>State\<close>

datatype facts_log_error =
    VersionOverflow
  | HashError string
  | CompactedRead u64 u64 usize
  | WalError string
  | Internal string

fun facts_log_error_display :: "facts_log_error \<Rightarrow> string" where
  "facts_log_error_display VersionOverflow = ''facts log version overflow''"
| "facts_log_error_display (HashError msg) = ''facts log hash error: '' @ msg"
| "facts_log_error_display (CompactedRead from_version compacted_version compacted_count) =
     ''facts log read from version '' @ dec_nat (unat from_version) @ '' precedes compaction point ''
     @ dec_nat (unat compacted_version) @ '' ('' @ dec_nat compacted_count
     @ '' facts dropped from memory projection; replay from WAL for the full prefix)''"
| "facts_log_error_display (WalError msg) = ''facts log WAL error: '' @ msg"
| "facts_log_error_display (Internal msg) = ''facts log internal error: '' @ msg"

record compacted_snapshot =
  cs_version :: u64
  cs_snapshot :: json
  cs_queue :: "json list"
  cs_last_hash :: string
  cs_count :: usize

record 's facts_log =
  history :: "(u64 \<times> fact) list"
  current_snapshot :: json
  current_queue :: "json list"
  version :: u64
  last_stable_version :: u64
  last_hash :: string
  wal :: "'s option"
  version_index :: "(u64 \<times> usize) list"
  fact_id_index :: "(fact_id \<times> usize) list"
  path_index :: "(string \<times> usize list) list"
  compacted :: "compacted_snapshot option"
  next_anchor_id :: u64
  wal_fail_count :: u64

type_synonym 's store_op = "u64 \<Rightarrow> fact \<Rightarrow> string \<Rightarrow> string \<Rightarrow> string \<Rightarrow> 's \<Rightarrow> wal_error + 's"

definition log_new :: "'s facts_log" where
  "log_new =
     \<lparr>history = [], current_snapshot = empty_object, current_queue = [], version = 0,
      last_stable_version = 0, last_hash = genesis, wal = None, version_index = bt_new,
      fact_id_index = bt_new, path_index = bt_new, compacted = None,
      next_anchor_id = 1000000000, wal_fail_count = 0\<rparr>"

definition with_initial_payload :: "json \<Rightarrow> 's facts_log" where
  "with_initial_payload payload = log_new\<lparr>current_snapshot := payload\<rparr>"

definition with_wal_store :: "'s \<Rightarrow> 's facts_log" where
  "with_wal_store st = log_new\<lparr>wal := Some st\<rparr>"

section \<open>Applying a fact\<close>

text \<open>The last resort of a payload update: create the missing objects along the dotted path.\<close>

fun put_parts :: "string list \<Rightarrow> json \<Rightarrow> json \<Rightarrow> json" where
  "put_parts [] v cur = cur"
| "put_parts [part] v cur = (case cur of Object m \<Rightarrow> Object (bt_put part v m) | _ \<Rightarrow> cur)"
| "put_parts (part # rest) v cur =
     (case cur of
        Object m \<Rightarrow>
          (let m' = (if bt_contains part m then m else bt_put part empty_object m) in
           case bt_get part m' of
             None \<Rightarrow> Object m'
           | Some nxt \<Rightarrow> Object (bt_put part (put_parts rest v nxt) m'))
      | _ \<Rightarrow> cur)"

definition update_snapshot :: "string \<Rightarrow> json \<Rightarrow> json \<Rightarrow> json" where
  "update_snapshot path v snap =
     (case resolve_path_mut (\<lambda>_. v) snap path of
        Some snap' \<Rightarrow> snap'
      | None \<Rightarrow>
          (let parts = split_on (CHR ''.'') path in
           if parts = [] then snap
           else if length parts = 1 \<and> CHR ''['' \<notin> set path then
             (case snap of Object m \<Rightarrow> Object (bt_put path v m) | _ \<Rightarrow> snap)
           else put_parts parts v snap))"

text \<open>The new log and the error, if any: the snapshot is already replaced when the version overflows.\<close>

definition bump_log_version :: "'s facts_log \<Rightarrow> 's facts_log \<times> facts_log_error option" where
  "bump_log_version l =
     (case checked_inc_u64 (version l) of
        None \<Rightarrow> (l, Some VersionOverflow)
      | Some v \<Rightarrow> (l\<lparr>version := v\<rparr>, None))"

fun apply_fact_to_state :: "fact \<Rightarrow> 's facts_log \<Rightarrow> 's facts_log \<times> facts_log_error option" where
  "apply_fact_to_state (StateTransition _ _ new_payload new_queue) l =
     bump_log_version (l\<lparr>current_snapshot := new_payload, current_queue := new_queue\<rparr>)"
| "apply_fact_to_state (IoResponse _ _ _ _) l = bump_log_version l"
| "apply_fact_to_state (Stable _ _) l = (l\<lparr>last_stable_version := version l\<rparr>, None)"
| "apply_fact_to_state (PayloadUpdate _ path v) l =
     bump_log_version (l\<lparr>current_snapshot := update_snapshot path v (current_snapshot l)\<rparr>)"
| "apply_fact_to_state (Command _ _) l = (l, None)"
| "apply_fact_to_state (IoRequest _ _ _ _) l = (l, None)"
| "apply_fact_to_state (Error _ _) l = (l, None)"
| "apply_fact_to_state (TransitionTrace _ _ _) l = (l, None)"
| "apply_fact_to_state (Violation _ _ _ _ _) l = (l, None)"

section \<open>Append\<close>

definition WAL_FAIL_TERMINATE_THRESHOLD :: nat where
  "WAL_FAIL_TERMINATE_THRESHOLD = 3"

definition wal_failure_guidance :: "string \<Rightarrow> string" where
  "wal_failure_guidance error_msg =
     utf8 [229, 174, 161, 232, 174, 161, 230, 151, 165, 229, 191, 151] @ ''(WAL)'' @
     utf8 [229, 134, 153, 229, 133, 165, 229, 183, 178, 232, 191, 158, 231, 187, 173] @ '' '' @
     dec_nat WAL_FAIL_TERMINATE_THRESHOLD @
     '' '' @
     utf8 [230, 172, 161, 229, 164, 177, 232, 180, 165, 239, 188, 140, 230, 156, 172, 228, 188,
       154, 232, 175, 157, 229, 183, 178, 232, 162, 171, 231, 187, 136, 230, 173, 162, 228, 187,
       165, 228, 191, 157, 232, 175, 129, 229, 143, 175, 229, 155, 158, 230, 148, 190, 230, 128,
       167, 228, 184, 141, 232, 162, 171, 233, 157, 153, 233, 187, 152, 231, 160, 180, 229, 157,
       143, 227, 128, 130, 233, 148, 153, 232, 175, 175, 232, 175, 166, 230, 131, 133] @ '': '' @ error_msg @
     utf8 [227, 128, 130, 232, 175, 165, 230, 149, 133, 233, 154, 156, 230, 186, 144, 228, 186,
       142, 231, 163, 129, 231, 155, 152] @ ''/'' @
     utf8 [230, 157, 131, 233, 153, 144, 231, 173, 137, 233, 131, 168, 231, 189, 178, 231, 142,
       175, 229, 162, 131, 233, 151, 174, 233, 162, 152, 239, 188, 140, 232, 175, 183, 230, 140,
       137, 228, 187, 165, 228, 184, 139, 233, 161, 186, 229, 186, 143, 230, 142, 146, 230, 159,
       165, 239, 188, 154, 10] @ ''1. '' @
     utf8 [230, 163, 128, 230, 159, 165, 231, 163, 129, 231, 155, 152, 231, 169, 186, 233, 151,
       180, 230, 152, 175, 229, 144, 166, 229, 183, 178, 230, 187, 161, 239, 188, 136] @
     ''df -h / Windows '' @
     utf8 [232, 181, 132, 230, 186, 144, 231, 174, 161, 231, 144, 134, 229, 153, 168, 230, 159,
       165, 231, 156, 139] @ '' WAL '' @
     utf8 [230, 137, 128, 229, 156, 168, 231, 155, 152, 229, 137, 169, 228, 189, 153, 231, 169,
       186, 233, 151, 180, 239, 188, 137, 239, 188, 140, 230, 184, 133, 231, 144, 134, 229, 144,
       142, 233, 135, 141, 229, 144, 175, 230, 156, 141, 229, 138, 161, 229, 141, 179, 229, 143,
       175, 232, 135, 170, 229, 138, 168, 230, 129, 162, 229, 164, 141, 239, 188, 155, 10] @
     ''2. '' @ utf8 [230, 163, 128, 230, 159, 165, 232, 191, 155, 231, 168, 139, 229, 175, 185] @
     '' WAL '' @
     utf8 [231, 155, 174, 229, 189, 149, 230, 152, 175, 229, 144, 166, 230, 156, 137, 229, 134,
       153, 230, 157, 131, 233, 153, 144, 239, 188, 136, 231, 155, 174, 229, 189, 149, 229, 143,
       175, 232, 131, 189, 232, 162, 171, 232, 191, 129, 231, 167, 187, 230, 136, 150] @
     '' ACL '' @ utf8 [229, 143, 152, 230, 155, 180, 239, 188, 137, 239, 188, 155, 10] @
     ''3. '' @ utf8 [232, 139, 165] @ '' WAL '' @
     utf8 [228, 189, 141, 228, 186, 142, 231, 189, 145, 231, 187, 156, 231, 155, 152] @
     ''/NAS'' @
     utf8 [239, 188, 140, 230, 163, 128, 230, 159, 165, 230, 140, 130, 232, 189, 189, 230, 152,
       175, 229, 144, 166, 230, 142, 137, 231, 186, 191, 239, 188, 155, 10] @ ''4. '' @
     utf8 [230, 142, 146, 230, 159, 165, 229, 144, 142, 233, 135, 141, 229, 144, 175] @
     '' evorule-server'' @ utf8 [239, 188, 155] @ ''recover '' @
     utf8 [228, 188, 154, 228, 187, 142, 229, 183, 178, 230, 156, 137] @ '' WAL '' @
     utf8 [229, 174, 140, 230, 149, 180, 233, 135, 141, 229, 187, 186, 231, 138, 182, 230, 128,
       129, 239, 188, 140, 228, 184, 141, 228, 184, 162, 230, 149, 176, 230, 141, 174, 227, 128,
       130, 10, 230, 179, 168, 230, 132, 143, 239, 188, 154, 230, 156, 172, 228, 188, 154, 232,
       175, 157, 228, 184, 173, 230, 150, 173, 229, 137, 141, 231, 154, 132, 228, 186, 139, 229,
       174, 158, 229, 183, 178, 229, 156, 168, 230, 156, 128, 229, 144, 142, 230, 136, 144, 229,
       138, 159, 229, 134, 153, 229, 133, 165, 231, 154, 132] @ '' WAL '' @
     utf8 [232, 174, 176, 229, 189, 149, 229, 134, 133, 239, 188, 140, 233, 135, 141, 229, 144,
       175, 229, 144, 142, 229, 143, 175, 233, 128, 154, 232, 191, 135] @ '' /replay '' @
     utf8 [229, 174, 161, 232, 174, 161, 227, 128, 130]"

text \<open>The three indices, kept by append, replay and compaction.\<close>

definition entry_or_insert :: "u64 \<Rightarrow> usize \<Rightarrow> (u64 \<times> usize) list \<Rightarrow> (u64 \<times> usize) list" where
  "entry_or_insert v i m = (if bt_contains v m then m else bt_put v i m)"

definition entry_push :: "string \<Rightarrow> usize \<Rightarrow> (string \<times> usize list) list \<Rightarrow> (string \<times> usize list) list" where
  "entry_push p i m = bt_put p (unwrap_or [] (bt_get p m) @ [i]) m"

definition index_path :: "fact \<Rightarrow> usize \<Rightarrow> (string \<times> usize list) list \<Rightarrow> (string \<times> usize list) list" where
  "index_path f i m = (case f of PayloadUpdate _ path _ \<Rightarrow> entry_push path i m | _ \<Rightarrow> m)"

definition index_fact :: "u64 \<Rightarrow> fact \<Rightarrow> usize \<Rightarrow> 's facts_log \<Rightarrow> 's facts_log" where
  "index_fact vb f i l =
     l\<lparr>version_index := entry_or_insert vb i (version_index l),
       fact_id_index := bt_put (fact_id_of f) i (fact_id_index l),
       path_index := index_path f i (path_index l)\<rparr>"

definition push_history :: "u64 \<Rightarrow> fact \<Rightarrow> 's facts_log \<Rightarrow> 's facts_log" where
  "push_history vb f l = l\<lparr>history := history l @ [(vb, f)]\<rparr>"

text \<open>The part of append after the write-ahead step.\<close>

definition append_memory :: "u64 \<Rightarrow> fact \<Rightarrow> string \<Rightarrow> 's facts_log \<Rightarrow> (facts_log_error + u64) \<times> 's facts_log" where
  "append_memory vb f kh l =
     (case apply_fact_to_state f (l\<lparr>last_hash := kh\<rparr>) of
        (l', Some e) \<Rightarrow> (Inl e, l')
      | (l', None) \<Rightarrow>
          (let l'' = push_history vb f l'; l3 = index_fact vb f (length (history l'') - 1) l'' in
           (Inr (version l3), l3)))"

definition append ::
  "'s store_op \<Rightarrow> (string \<Rightarrow> string) \<Rightarrow> (serde \<Rightarrow> string) \<Rightarrow> fact \<Rightarrow> 's facts_log \<Rightarrow>
   (facts_log_error + u64) \<times> 's facts_log" where
  "append store blake3 ser f l =
     (let vb = version l;
          content = fact_hash blake3 ser f;
          prev_hash = last_hash l;
          kh = chain_step blake3 prev_hash content in
      case wal l of
        None \<Rightarrow> append_memory vb f kh l
      | Some st \<Rightarrow>
          (case store vb f content prev_hash kh st of
             Inr st' \<Rightarrow> append_memory vb f kh (l\<lparr>wal := Some st', wal_fail_count := 0\<rparr>)
           | Inl e \<Rightarrow>
               (let fail_count = wal_fail_count l + 1;
                    l' = l\<lparr>wal_fail_count := fail_count\<rparr> in
                if unat fail_count \<ge> WAL_FAIL_TERMINATE_THRESHOLD
                then (Inl (WalError (wal_failure_guidance (wal_error_display e))), l')
                else (Inl (WalError (''WAL write failed (consecutive #'' @ dec_nat (unat fail_count) @ ''/''
                        @ dec_nat WAL_FAIL_TERMINATE_THRESHOLD @ ''): '' @ wal_error_display e)), l'))))"

text \<open>\<open>set_initial_state\<close>: the base state of a fork, anchored in the chain by its digest.\<close>

definition set_initial_state ::
  "'s store_op \<Rightarrow> (string \<Rightarrow> string) \<Rightarrow> (serde \<Rightarrow> string) \<Rightarrow> json \<Rightarrow> u64 \<Rightarrow> 's facts_log \<Rightarrow> 's facts_log" where
  "set_initial_state store blake3 ser payload v l =
     (let digest = content_hash blake3 ser payload;
          anchor_value = object_from_pairs [(''digest'', String digest), (''version'', Integer v)];
          anchor_id = next_anchor_id l;
          l1 = l\<lparr>next_anchor_id := saturating_add_u64 (next_anchor_id l) 1\<rparr>;
          l2 = snd (append store blake3 ser (PayloadUpdate anchor_id ''__fork__.initial_state'' anchor_value) l1) in
      l2\<lparr>current_snapshot := payload, version := v, last_stable_version := v\<rparr>)"

section \<open>Replay\<close>

fun replay_loop :: "wal_record list \<Rightarrow> 's facts_log \<Rightarrow> facts_log_error + 's facts_log" where
  "replay_loop [] l = Inr l"
| "replay_loop (r # rs) l =
     (let vb = version_before r; f = wal_fact r;
          l' = push_history vb f l;
          l'' = index_fact vb f (length (history l') - 1) l' in
      case apply_fact_to_state f l'' of
        (_, Some e) \<Rightarrow> Inl e
      | (l3, None) \<Rightarrow> replay_loop rs l3)"

definition recovered_hash :: "(string \<Rightarrow> string) \<Rightarrow> (serde \<Rightarrow> string) \<Rightarrow> wal_record list \<Rightarrow> string \<Rightarrow> string" where
  "recovered_hash blake3 ser rs old =
     (let recomputed = compute_chain_hash blake3 ser (map wal_fact rs) in
      if list_ex has_hash rs then
        (if rs = [] then old
         else (case wal_chain_hash (last rs) of Some kh \<Rightarrow> kh | None \<Rightarrow> recomputed))
      else recomputed)"

definition replay_wal_records ::
  "(string \<Rightarrow> string) \<Rightarrow> (serde \<Rightarrow> string) \<Rightarrow> wal_record list \<Rightarrow> facts_log_error + 's facts_log" where
  "replay_wal_records blake3 ser rs =
     map_ok (\<lambda>l. l\<lparr>last_hash := recovered_hash blake3 ser rs (last_hash l)\<rparr>) (replay_loop rs log_new)"

section \<open>Reads\<close>

definition snapshot :: "'s facts_log \<Rightarrow> json \<times> json list \<times> u64" where
  "snapshot l = (current_snapshot l, current_queue l, version l)"

text \<open>\<open>version_index.range(from..).next()\<close>: the first entry at or above the version.\<close>

fun range_first :: "'k::linorder \<Rightarrow> ('k \<times> 'v) list \<Rightarrow> 'v option" where
  "range_first k [] = None"
| "range_first k ((j, v) # m) = (if k \<le> j then Some v else range_first k m)"

definition read_from :: "u64 \<Rightarrow> 's facts_log \<Rightarrow> facts_log_error + fact list" where
  "read_from from_version l =
     (case compacted l of
        Some c \<Rightarrow>
          if from_version < cs_version c
          then Inl (CompactedRead from_version (cs_version c) (cs_count c))
          else Inr (map snd (drop (unwrap_or (length (history l)) (range_first from_version (version_index l))) (history l)))
      | None \<Rightarrow>
          Inr (map snd (drop (unwrap_or (length (history l)) (range_first from_version (version_index l))) (history l))))"

definition for_each_fact_from :: "usize \<Rightarrow> 's facts_log \<Rightarrow> (u64 \<times> fact) list \<times> usize" where
  "for_each_fact_from start l =
     (if start \<le> length (history l) then (drop start (history l), length (drop start (history l))) else ([], 0))"

definition history_with_versions :: "'s facts_log \<Rightarrow> (u64 \<times> fact) list" where
  "history_with_versions l = history l"

definition history_last_with_versions :: "usize \<Rightarrow> 's facts_log \<Rightarrow> (u64 \<times> fact) list" where
  "history_last_with_versions n l = drop (length (history l) - n) (history l)"

text \<open>The scan of the path index from the prefix on, up to the first path that lacks it.\<close>

definition facts_by_path_prefix :: "string \<Rightarrow> 's facts_log \<Rightarrow> (u64 \<times> fact) list" where
  "facts_by_path_prefix prefix l =
     concat (map (\<lambda>(path, indices). concat (map (\<lambda>i. case list_get (history l) i of Some x \<Rightarrow> [x] | None \<Rightarrow> []) indices))
       (takeWhile (\<lambda>(path, _). starts_with prefix path)
         (dropWhile (\<lambda>(path, _). path < prefix) (path_index l))))"

section \<open>Compaction and reset\<close>

definition log_reset :: "'s facts_log \<Rightarrow> 's facts_log" where
  "log_reset l =
     l\<lparr>history := [], current_snapshot := empty_object, current_queue := [], version := 0,
       last_stable_version := 0, last_hash := genesis, version_index := bt_new, fact_id_index := bt_new,
       path_index := bt_new, compacted := None, wal := None\<rparr>"

fun reindex :: "nat \<Rightarrow> (u64 \<times> fact) list \<Rightarrow> 's facts_log \<Rightarrow> 's facts_log" where
  "reindex i [] l = l"
| "reindex i ((vb, f) # hs) l = reindex (i + 1) hs (index_fact vb f i l)"

text \<open>The numerator and denominator of the returned ratio, and the new log.\<close>

definition compact :: "'s facts_log \<Rightarrow> (nat \<times> nat) \<times> 's facts_log" where
  "compact l =
     (let split_point = unwrap_or (length (history l)) (position (\<lambda>(v, _). v > last_stable_version l) (history l)) in
      if split_point = 0 then ((0, 1), l)
      else
        (let kept = drop split_point (history l);
             l1 = l\<lparr>compacted := Some \<lparr>cs_version = last_stable_version l, cs_snapshot = current_snapshot l,
                      cs_queue = current_queue l, cs_last_hash = last_hash l, cs_count = split_point\<rparr>,
                    history := kept, version_index := bt_new, fact_id_index := bt_new, path_index := bt_new\<rparr> in
         ((split_point, length (history l)), reindex 0 kept l1)))"

definition compacted_info :: "'s facts_log \<Rightarrow> (u64 \<times> usize) option" where
  "compacted_info l = map_option (\<lambda>c. (cs_version c, cs_count c)) (compacted l)"

text \<open>\<open>MemoryWalStore\<close>: the records in the order they were appended.\<close>

definition memory_wal_append :: "wal_record list store_op" where
  "memory_wal_append vb f ch ph kh recs = Inr (recs @ [hash_record vb f ch ph kh])"

text \<open>\<open>rotate_wal\<close>, with the backend's own rotation; the default of the trait does nothing.\<close>

type_synonym 's rotate_op = "'s \<Rightarrow> wal_error + (bool \<times> 's)"

definition default_rotate :: "'s rotate_op" where
  "default_rotate st = Inr (False, st)"

definition rotate_wal :: "'s rotate_op \<Rightarrow> 's facts_log \<Rightarrow> (facts_log_error + bool) \<times> 's facts_log" where
  "rotate_wal rot l =
     (case wal l of
        None \<Rightarrow> (Inr False, l)
      | Some st \<Rightarrow>
          (case rot st of
             Inl e \<Rightarrow> (Inl (WalError (wal_error_display e)), l)
           | Inr (b, st') \<Rightarrow> (Inr b, l\<lparr>wal := Some st'\<rparr>)))"

text \<open>
  \<open>WalWriter\<close>, the backend on files: the writer together with its disk.  What the operating system does
  is the parameter \<open>os\<close>: an error for the write, or none.
\<close>

definition file_store :: "(u64 \<Rightarrow> wal_error option) \<Rightarrow> (serde \<Rightarrow> string) \<Rightarrow> (wal_writer \<times> disk) store_op" where
  "file_store os ser vb f ch ph kh st =
     (case os vb of
        Some e \<Rightarrow> Inl e
      | None \<Rightarrow> Inr (append_record_with_hash ser vb f ch ph kh (fst st) (snd st)))"

definition file_rotate :: "wal_error option \<Rightarrow> (wal_writer \<times> disk) rotate_op" where
  "file_rotate os st = (case os of Some e \<Rightarrow> Inl e | None \<Rightarrow> Inr (True, rotate (fst st) (snd st)))"

definition with_wal_options :: "nat \<Rightarrow> disk \<Rightarrow> (wal_writer \<times> disk) facts_log" where
  "with_wal_options max_wal_size_bytes d = with_wal_store (create_with_options max_wal_size_bytes d)"

definition recover_with_options ::
  "(string \<Rightarrow> string) \<Rightarrow> (serde \<Rightarrow> string) \<Rightarrow> (string \<Rightarrow> string + serde) \<Rightarrow> nat \<Rightarrow> disk \<Rightarrow>
   facts_log_error + (wal_writer \<times> disk) facts_log" where
  "recover_with_options blake3 ser de max_wal_size_bytes d =
     and_then (map_err (\<lambda>e. WalError (wal_error_display e)) (read_wal_with_hash de d)) (\<lambda>records.
     map_ok (\<lambda>l. l\<lparr>wal := Some (append_with_options max_wal_size_bytes d)\<rparr>)
       (replay_wal_records blake3 ser records))"

section \<open>Applying and recording commute\<close>

lemma apply_fact_index:
  "apply_fact_to_state g (index_fact vb f i l) = apfst (index_fact vb f i) (apply_fact_to_state g l)"
  by (cases l; cases g) (auto simp: index_fact_def bump_log_version_def split: option.splits)

lemma apply_fact_push:
  "apply_fact_to_state g (push_history vb f l) = apfst (push_history vb f) (apply_fact_to_state g l)"
  by (cases l; cases g) (auto simp: push_history_def bump_log_version_def split: option.splits)

lemma apply_fact_last_hash:
  "apply_fact_to_state g (l\<lparr>last_hash := h\<rparr>) = apfst (\<lambda>l. l\<lparr>last_hash := h\<rparr>) (apply_fact_to_state g l)"
  by (cases l; cases g) (auto simp: bump_log_version_def split: option.splits)

lemma apply_fact_wal:
  "apply_fact_to_state g (l\<lparr>wal := w, wal_fail_count := n\<rparr>) =
     apfst (\<lambda>l. l\<lparr>wal := w, wal_fail_count := n\<rparr>) (apply_fact_to_state g l)"
  by (cases l; cases g) (auto simp: bump_log_version_def split: option.splits)

lemmas apply_fact_commutes = apply_fact_index apply_fact_push apply_fact_last_hash apply_fact_wal

lemma index_fact_frame:
  "history (index_fact vb f i l) = history l" "version (index_fact vb f i l) = version l"
  "last_hash (index_fact vb f i l) = last_hash l" "wal (index_fact vb f i l) = wal l"
  "last_stable_version (index_fact vb f i l) = last_stable_version l"
  "compacted (index_fact vb f i l) = compacted l" "current_snapshot (index_fact vb f i l) = current_snapshot l"
  "current_queue (index_fact vb f i l) = current_queue l" "wal_fail_count (index_fact vb f i l) = wal_fail_count l"
  by (simp_all add: index_fact_def)

lemma push_history_frame:
  "history (push_history vb f l) = history l @ [(vb, f)]" "version (push_history vb f l) = version l"
  "last_hash (push_history vb f l) = last_hash l" "wal (push_history vb f l) = wal l"
  "last_stable_version (push_history vb f l) = last_stable_version l"
  "compacted (push_history vb f l) = compacted l" "version_index (push_history vb f l) = version_index l"
  "fact_id_index (push_history vb f l) = fact_id_index l" "path_index (push_history vb f l) = path_index l"
  by (simp_all add: push_history_def)

lemma apply_fact_frame:
  assumes "apply_fact_to_state f l = (l', e)"
  shows "history l' = history l" "last_hash l' = last_hash l" "wal l' = wal l"
    "version_index l' = version_index l" "fact_id_index l' = fact_id_index l" "path_index l' = path_index l"
    "compacted l' = compacted l" "wal_fail_count l' = wal_fail_count l" "next_anchor_id l' = next_anchor_id l"
  using assms by (cases f; auto simp: bump_log_version_def split: option.splits)+

lemmas log_frames = index_fact_frame push_history_frame

text \<open>One fact on the log without storage and hashes: the step shared by append and replay.\<close>

definition record_step :: "u64 \<Rightarrow> fact \<Rightarrow> 's facts_log \<Rightarrow> 's facts_log" where
  "record_step vb f l = fst (apply_fact_to_state f (index_fact vb f (length (history l)) (push_history vb f l)))"

lemma apply_fact_ok: "version l \<noteq> - 1 \<Longrightarrow> snd (apply_fact_to_state f l) = None"
  by (cases f) (simp_all add: bump_log_version_def checked_inc_u64_def)

lemma append_memory_ok:
  assumes "version l \<noteq> - 1"
  shows "append_memory vb f kh l =
    (Inr (version (record_step vb f l)), (record_step vb f l)\<lparr>last_hash := kh\<rparr>)"
proof -
  obtain l' where a: "apply_fact_to_state f l = (l', None)"
    using apply_fact_ok [OF assms, of f] by (metis prod.collapse)
  then have "history l' = history l" by (rule apply_fact_frame)
  with a show ?thesis
    by (simp add: append_memory_def record_step_def apply_fact_commutes Let_def)
      (simp add: index_fact_def push_history_def)
qed

lemma replay_loop_step:
  assumes "version l \<noteq> - 1"
  shows "replay_loop (r # rs) l = replay_loop rs (record_step (version_before r) (wal_fact r) l)"
proof -
  have "snd (apply_fact_to_state (wal_fact r) (index_fact (version_before r) (wal_fact r) (length (history l))
      (push_history (version_before r) (wal_fact r) l))) = None"
    using assms by (simp add: apply_fact_ok log_frames)
  then show ?thesis
    by (simp add: record_step_def log_frames Let_def case_prod_beta)
qed

lemma replay_loop_append:
  "replay_loop (rs @ [r]) l = and_then (replay_loop rs l) (replay_loop [r])"
  by (induction rs l rule: replay_loop.induct) (simp_all add: Let_def split: prod.splits option.splits)

section \<open>A storage backend and what is recovered from it\<close>

lemma compute_chain_hash_snoc:
  "compute_chain_hash blake3 ser (fs @ [f]) =
     chain_step blake3 (compute_chain_hash blake3 ser fs) (fact_hash blake3 ser f)"
  by (simp add: compute_chain_hash_def)

text \<open>Every record stores the hash of its fact, the chain before it and the chain after it.\<close>

fun hash_chained :: "(string \<Rightarrow> string) \<Rightarrow> (serde \<Rightarrow> string) \<Rightarrow> string \<Rightarrow> wal_record list \<Rightarrow> bool" where
  "hash_chained blake3 ser prev [] = True"
| "hash_chained blake3 ser prev (r # rs) =
     (let content = fact_hash blake3 ser (wal_fact r); kh = chain_step blake3 prev content in
      wal_content_hash r = Some content \<and> wal_prev_hash r = Some prev \<and> wal_chain_hash r = Some kh \<and>
      hash_chained blake3 ser kh rs)"

lemma hash_chained_snoc:
  "hash_chained blake3 ser prev (rs @ [r]) \<longleftrightarrow>
     hash_chained blake3 ser prev rs \<and>
     hash_chained blake3 ser (chain_from blake3 ser prev (map wal_fact rs)) [r]"
  by (induction rs arbitrary: prev) (auto simp: Let_def chain_from_def)

text \<open>The memory and a sequence of records agree: replaying the records gives the memory.\<close>

definition in_memory :: "'s facts_log \<Rightarrow> 's facts_log" where
  "in_memory l = l\<lparr>wal := None, wal_fail_count := 0\<rparr>"

definition synced :: "(string \<Rightarrow> string) \<Rightarrow> (serde \<Rightarrow> string) \<Rightarrow> 's facts_log \<Rightarrow> wal_record list \<Rightarrow> bool" where
  "synced blake3 ser l rs \<longleftrightarrow>
     replay_loop rs log_new = Inr ((in_memory l)\<lparr>last_hash := genesis\<rparr>) \<and>
     last_hash l = compute_chain_hash blake3 ser (map wal_fact rs) \<and>
     (rs \<noteq> [] \<longrightarrow> wal_chain_hash (last rs) = Some (last_hash l)) \<and>
     hash_chained blake3 ser genesis rs"

lemma synced_new: "synced blake3 ser (with_wal_store st) []"
  by (simp add: synced_def with_wal_store_def log_new_def in_memory_def compute_chain_hash_def)

lemma synced_replay:
  assumes "synced blake3 ser l rs"
  shows "replay_wal_records blake3 ser rs = Inr (in_memory l)"
proof -
  have "list_ex has_hash rs \<longleftrightarrow> rs \<noteq> []"
    using assms by (cases rs rule: rev_cases) (auto simp: synced_def has_hash_def)
  then have "recovered_hash blake3 ser rs genesis = last_hash l"
    using assms by (simp add: synced_def recovered_hash_def compute_chain_hash_def)
  then show ?thesis
    using assms by (simp add: synced_def replay_wal_records_def in_memory_def)
qed

lemma record_step_in_memory: "record_step vb f (in_memory l) = in_memory (record_step vb f l)"
  unfolding record_step_def in_memory_def
  by (simp add: apply_fact_commutes) (simp add: index_fact_def push_history_def)

lemma record_step_last_hash: "record_step vb f (l\<lparr>last_hash := h\<rparr>) = (record_step vb f l)\<lparr>last_hash := h\<rparr>"
  unfolding record_step_def
  by (simp add: apply_fact_commutes) (simp add: index_fact_def push_history_def)

lemma synced_step:
  fixes f :: fact
  assumes "synced blake3 ser l rs" "version l \<noteq> - 1"
  defines "ch \<equiv> fact_hash blake3 ser f"
  defines "kh \<equiv> chain_step blake3 (last_hash l) ch"
  shows "synced blake3 ser ((record_step (version l) f (l\<lparr>wal := w, wal_fail_count := n\<rparr>))\<lparr>last_hash := kh\<rparr>)
     (rs @ [hash_record (version l) f ch (last_hash l) kh])"
proof -
  let ?m = "(in_memory l)\<lparr>last_hash := genesis\<rparr>"
  have "version ?m \<noteq> - 1" using assms(2) by (simp add: in_memory_def)
  then have "replay_loop (rs @ [hash_record (version l) f ch (last_hash l) kh]) log_new = Inr (record_step (version l) f ?m)"
    using assms(1) replay_loop_step [of ?m "hash_record (version l) f ch (last_hash l) kh" "[]"]
    unfolding replay_loop_append synced_def by (simp add: hash_record_def)
  moreover have "record_step (version l) f ?m =
      (in_memory ((record_step (version l) f (l\<lparr>wal := w, wal_fail_count := n\<rparr>))\<lparr>last_hash := kh\<rparr>))\<lparr>last_hash := genesis\<rparr>"
    unfolding record_step_last_hash record_step_in_memory
    by (simp add: in_memory_def record_step_def apply_fact_commutes) (simp add: index_fact_def push_history_def apply_fact_commutes)
  moreover have "hash_chained blake3 ser genesis (rs @ [hash_record (version l) f ch (last_hash l) kh])"
    using assms(1) by (simp add: hash_chained_snoc synced_def compute_chain_hash_from hash_record_def kh_def ch_def)
  ultimately show ?thesis
    using assms(1) by (simp add: synced_def compute_chain_hash_snoc hash_record_def kh_def ch_def)
qed

definition durable_with :: "('s \<Rightarrow> wal_record list \<Rightarrow> bool) \<Rightarrow> (string \<Rightarrow> string) \<Rightarrow> (serde \<Rightarrow> string) \<Rightarrow> 's facts_log \<Rightarrow> bool" where
  "durable_with holds blake3 ser l \<longleftrightarrow> (\<exists>st rs. wal l = Some st \<and> holds st rs \<and> synced blake3 ser l rs)"

text \<open>
  The contract of a backend, \<open>FactWalStore\<close>: an append that succeeds adds its record at the end of what
  the backend holds, a rotation keeps what it holds.  Both may fail; then the backend is as before.
\<close>

locale wal_store =
  fixes store :: "'s store_op"
    and rot :: "'s rotate_op"
    and holds :: "'s \<Rightarrow> wal_record list \<Rightarrow> bool"
    and accepts :: "fact \<Rightarrow> bool"
  assumes store_append:
    "holds st rs \<Longrightarrow> accepts f \<Longrightarrow> store vb f ch ph kh st = Inr st' \<Longrightarrow>
     holds st' (rs @ [hash_record vb f ch ph kh])"
    and store_rotate: "holds st rs \<Longrightarrow> rot st = Inr (b, st') \<Longrightarrow> holds st' rs"
begin

lemma durable_with_new: "holds st [] \<Longrightarrow> durable_with holds blake3 ser (with_wal_store st)"
  using synced_new [of blake3 ser st] unfolding durable_with_def
  by (intro exI [of _ st] exI [of _ "[]"]) (simp add: with_wal_store_def)

lemma append_durable:
  assumes "durable_with holds blake3 ser l" "accepts f" "version l \<noteq> - 1"
  shows "durable_with holds blake3 ser (snd (append store blake3 ser f l))"
proof -
  from assms(1) obtain st rs where st: "wal l = Some st" "holds st rs" "synced blake3 ser l rs"
    by (auto simp: durable_with_def)
  let ?ch = "fact_hash blake3 ser f"
  let ?kh = "chain_step blake3 (last_hash l) ?ch"
  show ?thesis
  proof (cases "store (version l) f ?ch (last_hash l) ?kh st")
    case (Inl e)
    then have "snd (append store blake3 ser f l) = l\<lparr>wal_fail_count := wal_fail_count l + 1\<rparr>"
      using st(1) by (simp add: append_def Let_def)
    with st show ?thesis by (auto simp: durable_with_def synced_def in_memory_def)
  next
    case (Inr st')
    have eq: "snd (append store blake3 ser f l) =
        (record_step (version l) f (l\<lparr>wal := Some st', wal_fail_count := 0\<rparr>))\<lparr>last_hash := ?kh\<rparr>"
      using st(1) Inr assms(3) by (simp add: append_def Let_def append_memory_ok)
    have "wal (record_step (version l) f (l\<lparr>wal := Some st', wal_fail_count := 0\<rparr>)) = Some st'"
      by (simp add: record_step_def apply_fact_commutes log_frames)
    moreover have "holds st' (rs @ [hash_record (version l) f ?ch (last_hash l) ?kh])"
      using store_append st(2) assms(2) Inr by blast
    ultimately show ?thesis
      using synced_step [OF st(3) assms(3)] unfolding durable_with_def eq by auto
  qed
qed

lemma rotate_durable:
  assumes "durable_with holds blake3 ser l"
  shows "durable_with holds blake3 ser (snd (rotate_wal rot l))"
proof -
  from assms obtain st rs where st: "wal l = Some st" "holds st rs" "synced blake3 ser l rs"
    by (auto simp: durable_with_def)
  show ?thesis
  proof (cases "rot st")
    case (Inl e)
    with st(1) assms show ?thesis by (simp add: rotate_wal_def)
  next
    case (Inr p)
    obtain b st' where p: "p = (b, st')" by fastforce
    with Inr st store_rotate have "holds st' rs" by blast
    with st p Inr show ?thesis by (auto simp: rotate_wal_def durable_with_def synced_def in_memory_def)
  qed
qed

end

interpretation memory: wal_store memory_wal_append default_rotate "(=)" "\<lambda>_. True"
  by unfold_locales (simp_all add: memory_wal_append_def default_rotate_def)

text \<open>The files of a writer hold the records whose lines they contain, in order.\<close>

definition file_holds :: "(serde \<Rightarrow> string) \<Rightarrow> wal_writer \<times> disk \<Rightarrow> wal_record list \<Rightarrow> bool" where
  "file_holds ser st rs \<longleftrightarrow>
     (\<exists>data. writer_inv (fst st) (snd st) (map (record_line ser) data) \<and> rs = map record_of data \<and>
        (\<forall>(vb, f, ch, ph, kh) \<in> set data. canonical_fact f))"

lemma rotate_inv: "writer_inv w d ls \<Longrightarrow> writer_inv (fst (rotate w d)) (snd (rotate w d)) ls"
proof -
  assume "writer_inv w d ls"
  then obtain segs a where s: "segments d segs" "length segs = file_sequence w + 1"
    "concat segs = WAL_FORMAT_HEADER # ls" "hd segs = WAL_FORMAT_HEADER # a"
    by (auto simp: writer_inv_def)
  then have "segs \<noteq> []" by auto
  with s segments_put_new [OF s(1), of "[]"] show ?thesis
    by (auto simp: writer_inv_def rotate_def Let_def intro!: exI [of _ "segs @ [[]]"])
qed

interpretation files: wal_store "file_store os ser" "file_rotate os'" "file_holds ser" canonical_fact for os ser os'
proof unfold_locales
  fix st rs f vb ch ph kh st'
  assume "file_holds ser st rs" and f: "canonical_fact f" and st': "file_store os ser vb f ch ph kh st = Inr st'"
  then obtain data where data: "writer_inv (fst st) (snd st) (map (record_line ser) data)" "rs = map record_of data"
    "\<forall>(vb, f, ch, ph, kh) \<in> set data. canonical_fact f"
    by (auto simp: file_holds_def)
  have "st' = append_line (record_line ser (vb, f, ch, ph, kh)) (fst st) (snd st)"
    using st' by (simp add: file_store_def append_record_with_hash_def record_line_def split: option.splits)
  then have "writer_inv (fst st') (snd st') (map (record_line ser) (data @ [(vb, f, ch, ph, kh)]))"
    using append_line_inv [OF data(1)] by simp
  with data f show "file_holds ser st' (rs @ [hash_record vb f ch ph kh])"
    unfolding file_holds_def by (intro exI [of _ "data @ [(vb, f, ch, ph, kh)]"]) (auto simp: record_of_def)
next
  fix st rs b st'
  assume "file_holds ser st rs" "file_rotate os' st = Inr (b, st')"
  then show "file_holds ser st' rs"
    by (auto simp: file_holds_def file_rotate_def split: option.splits dest: rotate_inv)
qed

lemma free_segment_segments:
  "segments d segs \<Longrightarrow> s \<le> length segs \<Longrightarrow> length segs \<le> s + fuel \<Longrightarrow> free_segment fuel s d = length segs"
proof (induction fuel arbitrary: s)
  case (Suc fuel)
  then show ?case
    by (cases "s < length segs") (auto simp: bt_contains_def segments_def)
qed simp

lemma append_with_options_inv:
  assumes "writer_inv w d ls"
  shows "snd (append_with_options limit d) = d \<and> writer_inv (fst (append_with_options limit d)) d ls"
proof -
  from assms obtain segs where s: "segments d segs" "length segs = file_sequence w + 1"
    "concat segs = WAL_FORMAT_HEADER # ls" "\<exists>a. hd segs = WAL_FORMAT_HEADER # a"
    by (auto simp: writer_inv_def)
  then have "free_segment (length d) 0 d = length segs"
    using free_segment_segments [of d segs 0 "length d"] segments_length [OF s(1)] by simp
  moreover have "bt_contains (length segs - 1) d"
    using s(1,2) by (simp add: segments_def bt_contains_def)
  ultimately show ?thesis
    using s by (auto simp: append_with_options_def writer_inv_def Let_def intro!: exI [of _ segs])
qed

text \<open>
  The life of a log on files: created on an empty disk, any number of appends and rotations, each of
  which the operating system may refuse, and restarts from the disk in between.
\<close>

inductive log_life ::
  "(string \<Rightarrow> string) \<Rightarrow> (serde \<Rightarrow> string) \<Rightarrow> (string \<Rightarrow> string + serde) \<Rightarrow> nat \<Rightarrow> (wal_writer \<times> disk) facts_log \<Rightarrow> bool"
  for blake3 ser de limit where
  created: "log_life blake3 ser de limit (with_wal_options limit [])"
| appended: "log_life blake3 ser de limit l \<Longrightarrow> canonical_fact f \<Longrightarrow> version l \<noteq> - 1 \<Longrightarrow>
    log_life blake3 ser de limit (snd (append (file_store os ser) blake3 ser f l))"
| rotated: "log_life blake3 ser de limit l \<Longrightarrow>
    log_life blake3 ser de limit (snd (rotate_wal (file_rotate os') l))"
| restarted: "log_life blake3 ser de limit l \<Longrightarrow>
    recover_with_options blake3 ser de limit (snd (the (wal l))) = Inr l' \<Longrightarrow> log_life blake3 ser de limit l'"

text \<open>The assumptions on \<open>serde_json\<close>: parsing inverts printing, and the text of an object.\<close>

definition json_text :: "(serde \<Rightarrow> string) \<Rightarrow> (string \<Rightarrow> string + serde) \<Rightarrow> bool" where
  "json_text ser de \<longleftrightarrow>
     (\<forall>v. de (ser v) = Inr v) \<and>
     (\<forall>m. trim (ser (SObject m)) = ser (SObject m)) \<and>
     (\<forall>m. bt_get ''chain_hash'' m \<noteq> None \<longrightarrow> contains ''chain_hash'' (ser (SObject m)))"

lemma recover_durable:
  assumes json: "json_text ser de" and dur: "durable_with (file_holds ser) blake3 ser l"
  shows "recover_with_options blake3 ser de limit (snd (the (wal l))) =
    Inr ((in_memory l)\<lparr>wal := Some (append_with_options limit (snd (the (wal l))))\<rparr>)"
proof -
  from dur obtain w d data where st: "wal l = Some (w, d)" "writer_inv w d (map (record_line ser) data)"
    "synced blake3 ser l (map record_of data)" "\<forall>(vb, f, ch, ph, kh) \<in> set data. canonical_fact f"
    by (auto simp: durable_with_def file_holds_def)
  with json have "read_wal_with_hash de d = Inr (map record_of data)"
    by (intro read_written [OF st(2)]) (auto simp: json_text_def)
  with st synced_replay [OF st(3)] show ?thesis by (simp add: recover_with_options_def)
qed

lemma durable_recovered:
  assumes "durable_with (file_holds ser) blake3 ser l"
  shows "durable_with (file_holds ser) blake3 ser
    ((in_memory l)\<lparr>wal := Some (append_with_options limit (snd (the (wal l))))\<rparr>)"
proof -
  from assms obtain w d data where st: "wal l = Some (w, d)" "writer_inv w d (map (record_line ser) data)"
    "synced blake3 ser l (map record_of data)" "\<forall>(vb, f, ch, ph, kh) \<in> set data. canonical_fact f"
    by (auto simp: durable_with_def file_holds_def)
  with append_with_options_inv [OF st(2), of limit]
  have "file_holds ser (append_with_options limit d) (map record_of data)"
    by (auto simp: file_holds_def)
  with st show ?thesis by (auto simp: durable_with_def synced_def in_memory_def)
qed

lemma log_life_durable:
  assumes "json_text ser de"
  shows "log_life blake3 ser de limit l \<Longrightarrow> durable_with (file_holds ser) blake3 ser l"
proof (induction rule: log_life.induct)
  case created
  have "file_holds ser (create_with_options limit []) []" using create_inv by (auto simp: file_holds_def)
  then show ?case unfolding with_wal_options_def by (rule files.durable_with_new)
next
  case (appended l f os)
  then show ?case by (intro files.append_durable)
next
  case (rotated l os')
  then show ?case by (intro files.rotate_durable)
next
  case (restarted l l')
  then show ?case using recover_durable [OF assms] durable_recovered by (metis sum.inject(2))
qed

lemma replay_history:
  "replay_loop rs l = Inr l' \<Longrightarrow> history l' = history l @ map (\<lambda>r. (version_before r, wal_fact r)) rs"
proof (induction rs arbitrary: l)
  case (Cons r rs)
  let ?m = "index_fact (version_before r) (wal_fact r) (length (history l)) (push_history (version_before r) (wal_fact r) l)"
  obtain m e where m: "apply_fact_to_state (wal_fact r) ?m = (m, e)" by fastforce
  with Cons.prems have "e = None" "replay_loop rs m = Inr l'"
    by (auto simp: Let_def push_history_def split: option.splits)
  with Cons.IH [of m] apply_fact_frame(1) [OF m] show ?case by (simp add: log_frames)
qed simp

text \<open>The files of a log at any point of its life: its records in order, which read and replay as the log.\<close>

lemma life_data:
  assumes "json_text ser de" "log_life blake3 ser de limit l"
  obtains w d data where "wal l = Some (w, d)" "writer_inv w d (map (record_line ser) data)"
    "synced blake3 ser l (map record_of data)" "read_wal_with_hash de d = Inr (map record_of data)"
    "history l = map (\<lambda>r. (version_before r, wal_fact r)) (map record_of data)"
proof -
  from log_life_durable [OF assms] obtain w d data where
    st: "wal l = Some (w, d)" "writer_inv w d (map (record_line ser) data)"
    "synced blake3 ser l (map record_of data)" "\<forall>(vb, f, ch, ph, kh) \<in> set data. canonical_fact f"
    by (auto simp: durable_with_def file_holds_def)
  have rd: "read_wal_with_hash de d = Inr (map record_of data)"
    using assms(1) st by (intro read_written [OF st(2)]) (auto simp: json_text_def)
  have "history l = map (\<lambda>r. (version_before r, wal_fact r)) (map record_of data)"
    using replay_history [of "map record_of data" log_new] st(3)
    by (fastforce simp: synced_def in_memory_def log_new_def)
  then show thesis by (rule that [OF st(1-3) rd])
qed

section \<open>The indices\<close>

definition positions :: "('a \<Rightarrow> bool) \<Rightarrow> 'a list \<Rightarrow> nat list" where
  "positions P h = filter (\<lambda>i. P (h ! i)) [0..<length h]"

definition is_update :: "string \<Rightarrow> u64 \<times> fact \<Rightarrow> bool" where
  "is_update path x = (case snd x of PayloadUpdate _ p _ \<Rightarrow> p = path | _ \<Rightarrow> False)"

text \<open>Each index holds the first, the last and all positions of its key in the history.\<close>

definition index_inv :: "'s facts_log \<Rightarrow> bool" where
  "index_inv l \<longleftrightarrow>
     bt_sorted (version_index l) \<and> bt_sorted (path_index l) \<and>
     (\<forall>v. bt_get v (version_index l) =
        (case positions (\<lambda>x. fst x = v) (history l) of [] \<Rightarrow> None | i # _ \<Rightarrow> Some i)) \<and>
     (\<forall>i. bt_get i (fact_id_index l) =
        (let ps = positions (\<lambda>x. fact_id_of (snd x) = i) (history l) in if ps = [] then None else Some (last ps))) \<and>
     (\<forall>p. bt_get p (path_index l) =
        (let ps = positions (is_update p) (history l) in if ps = [] then None else Some ps))"

text \<open>Versions never decrease along the history.\<close>

definition versions_inv :: "'s facts_log \<Rightarrow> bool" where
  "versions_inv l \<longleftrightarrow> sorted (map fst (history l) @ [version l])"

lemma positions_Nil [simp]: "positions P [] = []"
  by (simp add: positions_def)

lemma positions_snoc [simp]: "positions P (h @ [x]) = positions P h @ (if P x then [length h] else [])"
  by (auto simp: positions_def nth_append intro!: filter_cong)

lemma positions_in: "i \<in> set (positions P h) \<longleftrightarrow> i < length h \<and> P (h ! i)"
  by (auto simp: positions_def)

lemma positions_distinct: "distinct (positions P h)"
  by (simp add: positions_def)

lemma map_nth_positions: "map ((!) h) (positions P h) = filter P h"
  using filter_map [of P "(!) h" "[0..<length h]"] by (simp add: positions_def map_nth comp_def)

lemma index_inv_new: "index_inv log_new"
  by (simp add: index_inv_def log_new_def bt_new_def)

lemma index_inv_cong:
  "history l' = history l \<Longrightarrow> version_index l' = version_index l \<Longrightarrow> fact_id_index l' = fact_id_index l \<Longrightarrow>
   path_index l' = path_index l \<Longrightarrow> index_inv l' = index_inv l"
  by (simp add: index_inv_def)

lemma index_inv_push:
  assumes "index_inv l"
  shows "index_inv (index_fact vb f (length (history l)) (push_history vb f l))"
proof -
  let ?l = "index_fact vb f (length (history l)) (push_history vb f l)"
  have h: "history ?l = history l @ [(vb, f)]" by (simp add: log_frames)
  have "bt_sorted (version_index ?l)" "bt_sorted (path_index ?l)"
    using assms by (simp_all add: index_inv_def index_fact_def push_history_def entry_or_insert_def
        index_path_def entry_push_def split: fact.splits)
  moreover have "bt_get v (version_index ?l) =
      (case positions (\<lambda>x. fst x = v) (history ?l) of [] \<Rightarrow> None | i # _ \<Rightarrow> Some i)" for v
    using assms unfolding h
    by (auto simp: index_inv_def index_fact_def push_history_def entry_or_insert_def bt_contains_def
        split: list.splits)
  moreover have "bt_get i (fact_id_index ?l) = (let ps = positions (\<lambda>x. fact_id_of (snd x) = i) (history ?l) in
      if ps = [] then None else Some (last ps))" for i
    using assms unfolding h by (auto simp: index_inv_def index_fact_def push_history_def Let_def)
  moreover have "bt_get p (path_index ?l) = (let ps = positions (is_update p) (history ?l) in
      if ps = [] then None else Some ps)" for p
    using assms unfolding h
    by (cases f) (auto simp: index_inv_def index_fact_def push_history_def Let_def index_path_def entry_push_def
        is_update_def)
  ultimately show ?thesis unfolding index_inv_def by blast
qed

lemma record_step_index_inv: "index_inv l \<Longrightarrow> index_inv (record_step vb f l)"
  unfolding record_step_def
  by (metis (no_types, lifting) index_inv_push index_inv_cong apply_fact_frame(1,4,5,6) prod.collapse)

lemma apply_fact_version:
  "apply_fact_to_state f l = (l', None) \<Longrightarrow> version l' = version l \<or> unat (version l') = Suc (unat (version l))"
  by (cases f) (auto simp: bump_log_version_def dest: checked_inc_u64_Some split: option.splits)

lemma record_step_versions_inv:
  assumes "versions_inv l" "version l \<noteq> - 1"
  shows "versions_inv (record_step (version l) f l)"
proof -
  let ?m = "index_fact (version l) f (length (history l)) (push_history (version l) f l)"
  obtain l' where a: "apply_fact_to_state f ?m = (l', None)"
    using apply_fact_ok [of ?m f] assms(2) by (metis log_frames(2) prod.collapse push_history_frame(2))
  then have "history l' = history l @ [(version l, f)]" by (simp add: apply_fact_frame log_frames)
  moreover have "version l \<le> version l'"
    using apply_fact_version [OF a] by (auto simp: log_frames word_le_nat_alt)
  ultimately show ?thesis
    using assms(1) a by (auto simp: versions_inv_def record_step_def sorted_append intro: order_trans)
qed

lemma reindex_history: "reindex j hs (l\<lparr>history := g\<rparr>) = (reindex j hs l)\<lparr>history := g\<rparr>"
proof (induction hs arbitrary: j l)
  case (Cons y hs)
  have "index_fact vb f j (l\<lparr>history := g\<rparr>) = (index_fact vb f j l)\<lparr>history := g\<rparr>" for vb f
    by (simp add: index_fact_def)
  then show ?case using Cons.IH by (cases y) simp
qed simp

lemma reindex_inv:
  "index_inv l \<Longrightarrow> length (history l) = i \<Longrightarrow> index_inv (reindex i hs (l\<lparr>history := history l @ hs\<rparr>))"
proof (induction hs arbitrary: i l)
  case (Cons x hs)
  obtain vb f where x: "x = (vb, f)" by fastforce
  let ?l = "index_fact vb f i (push_history vb f l)"
  have "index_inv (reindex (i + 1) hs (?l\<lparr>history := history ?l @ hs\<rparr>))"
    using Cons.prems by (intro Cons.IH) (auto simp: index_inv_push log_frames x)
  moreover have "?l\<lparr>history := history ?l @ hs\<rparr> = index_fact vb f i (l\<lparr>history := history l @ x # hs\<rparr>)"
    by (simp add: index_fact_def push_history_def x)
  ultimately show ?case by (simp add: x)
qed (simp add: index_inv_def)

lemma range_first_cases:
  assumes "bt_sorted m"
  obtains "range_first k m = None" "\<And>j. bt_get j m \<noteq> None \<Longrightarrow> j < k"
  | j v where "range_first k m = Some v" "bt_get j m = Some v" "k \<le> j" "\<And>i. bt_get i m \<noteq> None \<Longrightarrow> k \<le> i \<Longrightarrow> j \<le> i"
  using assms
proof (induction k m arbitrary: thesis rule: range_first.induct)
  case (2 k j v m)
  show ?case
  proof (cases "k \<le> j")
    case True
    show ?thesis
    proof (rule 2(3))
      show "j \<le> i" if "bt_get i ((j, v) # m) \<noteq> None" for i
        using that 2(4) by (auto split: if_splits dest!: bt_get_Some_in)
    qed (use True in auto)
  next
    case False
    show ?thesis
    proof (rule 2(1) [OF False])
      assume "range_first k m = None" "\<And>j. bt_get j m \<noteq> None \<Longrightarrow> j < k"
      with False show ?thesis by (intro 2(2)) (auto split: if_splits)
    next
      fix j' w
      assume "range_first k m = Some w" "bt_get j' m = Some w" "k \<le> j'"
        "\<And>i. bt_get i m \<noteq> None \<Longrightarrow> k \<le> i \<Longrightarrow> j' \<le> i"
      with False show ?thesis by (intro 2(3) [of w j']) (auto split: if_splits)
    qed (use 2(4) in auto)
  qed
qed simp

lemma positions_hd_before:
  "positions P h = i # is \<Longrightarrow> j < i \<Longrightarrow> \<not> P (h ! j)"
proof
  assume pos: "positions P h = i # is" and "j < i" "P (h ! j)"
  then have "i < length h" using positions_in [of i P h] by simp
  with \<open>j < i\<close> \<open>P (h ! j)\<close> have "j \<in> set (positions P h)" by (simp add: positions_in)
  moreover have "sorted (positions P h)" by (simp add: positions_def sorted_wrt_filter)
  ultimately show False using pos \<open>j < i\<close> by auto
qed

lemma read_start:
  assumes "index_inv l" "sorted (map fst (history l))"
  shows "drop (unwrap_or (length (history l)) (range_first v (version_index l))) (history l) =
    filter (\<lambda>x. v \<le> fst x) (history l)"
proof -
  let ?h = "history l"
  have vi: "bt_sorted (version_index l)" "\<And>v. bt_get v (version_index l) =
      (case positions (\<lambda>x. fst x = v) ?h of [] \<Rightarrow> None | i # _ \<Rightarrow> Some i)"
    using assms(1) by (auto simp: index_inv_def)
  have key: "bt_get (fst x) (version_index l) \<noteq> None" if "x \<in> set ?h" for x
  proof -
    from that obtain i where "i < length ?h" "?h ! i = x" by (auto simp: in_set_conv_nth)
    then have "i \<in> set (positions (\<lambda>y. fst y = fst x) ?h)" by (simp add: positions_in)
    then show ?thesis by (auto simp: vi(2) split: list.splits)
  qed
  show ?thesis
    using vi(1)
  proof (cases rule: range_first_cases [of _ v])
    case 1
    then have "filter (\<lambda>x. v \<le> fst x) ?h = []"
      using key unfolding filter_empty_conv by (meson leD)
    then show ?thesis using 1 by simp
  next
    case (2 j i)
    then obtain rest where pos: "positions (\<lambda>x. fst x = j) ?h = i # rest" by (auto simp: vi(2) split: list.splits)
    then have i: "i < length ?h" "fst (?h ! i) = j"
      using positions_in [of i "\<lambda>x. fst x = j" ?h] by auto
    have mono: "fst (?h ! a) \<le> fst (?h ! b)" if "a \<le> b" "b < length ?h" for a b
      using that assms(2) by (simp add: sorted_iff_nth_mono)
    have low: "\<not> v \<le> fst x" if "x \<in> set (take i ?h)" for x
    proof -
      from that obtain a where "a < length (take i ?h)" "take i ?h ! a = x" unfolding in_set_conv_nth by blast
      then have a: "a < i" "x = ?h ! a" by auto
      then have "fst x \<le> j" "fst x \<noteq> j" using mono [of a i] i positions_hd_before [OF pos a(1)] by auto
      moreover have "x \<in> set ?h" using that by (rule in_set_takeD)
      ultimately show ?thesis using 2(4) key by fastforce
    qed
    have high: "v \<le> fst x" if "x \<in> set (drop i ?h)" for x
    proof -
      from that obtain b where "b < length (drop i ?h)" "drop i ?h ! b = x" unfolding in_set_conv_nth by blast
      then have "i + b < length ?h" "x = ?h ! (i + b)" by auto
      then show ?thesis using mono [of i "i + b"] i 2(3) by auto
    qed
    have "filter (\<lambda>x. v \<le> fst x) ?h = filter (\<lambda>x. v \<le> fst x) (take i ?h) @ filter (\<lambda>x. v \<le> fst x) (drop i ?h)"
      by (metis append_take_drop_id filter_append)
    also have "\<dots> = drop i ?h" using low high by (simp add: filter_empty_conv filter_id_conv)
    finally show ?thesis using 2(1) by simp
  qed
qed

section \<open>Paths with a prefix are contiguous\<close>

lemma starts_with_ge: "starts_with p s \<Longrightarrow> p \<le> s"
proof -
  have "p \<le> p @ r" for r by (induction p) simp_all
  then show "starts_with p s \<Longrightarrow> p \<le> s" by (auto simp: starts_with_iff)
qed

lemma starts_with_between:
  "p \<le> s \<Longrightarrow> s \<le> t \<Longrightarrow> starts_with p t \<Longrightarrow> starts_with p s"
proof (induction p arbitrary: s t)
  case (Cons c p)
  then obtain t' where t: "t = c # t'" "starts_with p t'" by (auto simp: starts_with_iff)
  from Cons.prems obtain d s' where s: "s = d # s'" by (cases s) auto
  with Cons.prems t have "d = c" "p \<le> s'" "s' \<le> t'" by (auto split: if_splits)
  with Cons.IH t(2) have "starts_with p s'" by blast
  then show ?case by (auto simp: s \<open>d = c\<close> starts_with_iff)
qed (simp add: starts_with_iff)

lemma prefix_range:
  assumes "bt_sorted (m :: (string \<times> 'v) list)"
  shows "takeWhile (\<lambda>(path, _). starts_with p path) (dropWhile (\<lambda>(path, _). path < p) m) =
    filter (\<lambda>(path, _). starts_with p path) m"
  using assms
proof (induction m)
  case (Cons x m)
  obtain path v where x: "x = (path, v)" by fastforce
  show ?case
  proof (cases "path < p")
    case True
    then have "\<not> starts_with p path" using starts_with_ge leD by blast
    with Cons True show ?thesis by (simp add: x)
  next
    case False
    have rest: "dropWhile (\<lambda>(path, _). path < p) m = m"
      using False Cons.prems by (cases m) (auto simp: x)
    have "takeWhile (\<lambda>(path, _). starts_with p path) (x # m) = filter (\<lambda>(path, _). starts_with p path) (x # m)"
    proof (cases "starts_with p path")
      case True
      with Cons rest show ?thesis by (simp add: x)
    next
      case F: False
      have "\<not> starts_with p q" if "(q, w) \<in> set m" for q w
        using starts_with_between [of p path q] False F that Cons.prems by (force simp: x)
      then have "filter (\<lambda>(path, _). starts_with p path) m = []" by (auto simp: filter_empty_conv)
      with F show ?thesis by (simp add: x)
    qed
    with False show ?thesis by (simp add: x)
  qed
qed simp

definition updates_under :: "string \<Rightarrow> u64 \<times> fact \<Rightarrow> bool" where
  "updates_under prefix x = (case snd x of PayloadUpdate _ p _ \<Rightarrow> starts_with prefix p | _ \<Rightarrow> False)"

lemma list_get_positions:
  "concat (map (\<lambda>i. case list_get h i of Some x \<Rightarrow> [x] | None \<Rightarrow> []) (positions P h)) = filter P h"
proof -
  have "concat (map (\<lambda>i. case list_get h i of Some x \<Rightarrow> [x] | None \<Rightarrow> []) (positions P h)) =
      concat (map (\<lambda>i. [h ! i]) (positions P h))"
    by (intro arg_cong [of _ _ concat] map_cong) (auto simp: list_get_def positions_in)
  then show ?thesis by (simp add: map_nth_positions concat_map_singleton)
qed

lemma mset_by_key:
  assumes "bt_sorted m" "\<And>x. x \<in> set h \<Longrightarrow> Q x \<Longrightarrow> \<exists>v. (key x, v) \<in> set m"
  shows "mset (concat (map (\<lambda>(k, _). filter (\<lambda>x. Q x \<and> key x = k) h) (filter (\<lambda>(k, _). R k) m))) =
    mset (filter (\<lambda>x. Q x \<and> R (key x)) h)"
  using assms
proof (induction m arbitrary: h)
  case Nil
  then have "filter (\<lambda>x. Q x \<and> R (key x)) h = []" by (auto simp: filter_empty_conv)
  then show ?case by simp
next
  case (Cons y m)
  obtain k v where y: "y = (k, v)" by fastforce
  let ?h = "filter (\<lambda>x. key x \<noteq> k) h"
  have ne: "k' \<noteq> k" if "(k', w) \<in> set m" for k' w
    using that Cons.prems(1) by (force simp: y)
  have ih: "mset (concat (map (\<lambda>(k, _). filter (\<lambda>x. Q x \<and> key x = k) ?h) (filter (\<lambda>(k, _). R k) m))) =
      mset (filter (\<lambda>x. Q x \<and> R (key x)) ?h)"
  proof (rule Cons.IH)
    show "\<exists>v. (key x, v) \<in> set m" if "x \<in> set ?h" "Q x" for x
      using that Cons.prems(2) [of x] by (auto simp: y)
  qed (use Cons.prems in \<open>simp add: y\<close>)
  have eq: "map (\<lambda>(k, _). filter (\<lambda>x. Q x \<and> key x = k) ?h) (filter (\<lambda>(k, _). R k) m) =
      map (\<lambda>(k, _). filter (\<lambda>x. Q x \<and> key x = k) h) (filter (\<lambda>(k, _). R k) m)"
    using ne by (intro map_cong) (auto intro!: filter_cong)
  have "mset (filter (\<lambda>x. Q x \<and> R (key x)) h) =
      mset (if R k then filter (\<lambda>x. Q x \<and> key x = k) h else []) + mset (filter (\<lambda>x. Q x \<and> R (key x)) ?h)"
    by (induction h) (auto simp del: mset_filter)
  with ih [unfolded eq] show ?case by (simp add: y del: mset_filter filter_filter)
qed

text \<open>The path of an update, and the index entries by path.\<close>

definition update_path :: "u64 \<times> fact \<Rightarrow> string" where
  "update_path x = (case snd x of PayloadUpdate _ p _ \<Rightarrow> p | _ \<Rightarrow> [])"

definition is_payload_update :: "u64 \<times> fact \<Rightarrow> bool" where
  "is_payload_update x = (case snd x of PayloadUpdate _ _ _ \<Rightarrow> True | _ \<Rightarrow> False)"

lemma is_update_alt: "is_update p x \<longleftrightarrow> is_payload_update x \<and> update_path x = p"
  by (auto simp: is_update_def is_payload_update_def update_path_def split: fact.splits)

lemma updates_under_alt: "updates_under p x \<longleftrightarrow> is_payload_update x \<and> starts_with p (update_path x)"
  by (auto simp: updates_under_def is_payload_update_def update_path_def split: fact.splits)

lemma path_query:
  assumes "index_inv l"
  shows "facts_by_path_prefix prefix l =
    concat (map (\<lambda>(p, _). filter (is_update p) (history l)) (filter (\<lambda>(p, _). starts_with prefix p) (path_index l)))"
proof -
  have entry: "is = positions (is_update p) (history l)" if "(p, is) \<in> set (path_index l)" for p "is"
    using that assms bt_get_in_iff [of "path_index l" p "is"]
    by (auto simp: index_inv_def Let_def split: if_splits)
  have "bt_sorted (path_index l)" using assms by (simp add: index_inv_def)
  then show ?thesis
    unfolding facts_by_path_prefix_def prefix_range [OF \<open>bt_sorted (path_index l)\<close>]
    by (intro arg_cong [of _ _ concat] map_cong) (auto dest!: entry simp: list_get_positions)
qed

lemma path_query_mset:
  assumes "index_inv l"
  shows "mset (facts_by_path_prefix prefix l) = mset (filter (updates_under prefix) (history l))"
proof -
  have sorted: "bt_sorted (path_index l)" using assms by (simp add: index_inv_def)
  have "\<exists>v. (update_path x, v) \<in> set (path_index l)" if "x \<in> set (history l)" "is_payload_update x" for x
  proof -
    from that obtain i where "i < length (history l)" "history l ! i = x" by (auto simp: in_set_conv_nth)
    then have "i \<in> set (positions (is_update (update_path x)) (history l))"
      using that(2) by (simp add: positions_in is_update_alt)
    then have "bt_get (update_path x) (path_index l) \<noteq> None"
      using assms by (auto simp: index_inv_def Let_def split: if_splits)
    then show ?thesis using bt_get_Some_in by fastforce
  qed
  from mset_by_key [OF sorted this, where R = "starts_with prefix"] show ?thesis
    unfolding path_query [OF assms] is_update_alt updates_under_alt by simp
qed

section \<open>Invariants of every operation\<close>

definition log_inv :: "'s facts_log \<Rightarrow> bool" where
  "log_inv l \<longleftrightarrow> index_inv l \<and> versions_inv l \<and> last_stable_version l \<le> version l"

lemma log_inv_new: "log_inv log_new" "log_inv (with_initial_payload p)" "log_inv (with_wal_store st)"
  using index_inv_new
  by (simp_all add: log_inv_def versions_inv_def index_inv_def with_initial_payload_def with_wal_store_def log_new_def)

lemma log_inv_hash: "log_inv (l\<lparr>last_hash := h\<rparr>) = log_inv l" "log_inv (l\<lparr>wal := w\<rparr>) = log_inv l"
  "log_inv (l\<lparr>wal_fail_count := n\<rparr>) = log_inv l" "log_inv (l\<lparr>wal := w, wal_fail_count := n\<rparr>) = log_inv l"
  "log_inv (l\<lparr>current_snapshot := s\<rparr>) = log_inv l" "log_inv (l\<lparr>next_anchor_id := n\<rparr>) = log_inv l"
  by (simp_all add: log_inv_def index_inv_def versions_inv_def)

lemma apply_fact_stable:
  "apply_fact_to_state f l = (l', e) \<Longrightarrow> last_stable_version l \<le> version l \<Longrightarrow> last_stable_version l' \<le> version l'"
  by (cases f) (auto simp: bump_log_version_def word_le_nat_alt dest: checked_inc_u64_Some split: option.splits)

lemma record_step_inv:
  assumes "log_inv l" "version l \<noteq> - 1"
  shows "log_inv (record_step (version l) f l)"
proof -
  let ?m = "index_fact (version l) f (length (history l)) (push_history (version l) f l)"
  have "last_stable_version (record_step (version l) f l) \<le> version (record_step (version l) f l)"
    using apply_fact_stable [of f ?m "fst (apply_fact_to_state f ?m)" "snd (apply_fact_to_state f ?m)"] assms(1)
    by (simp add: record_step_def log_frames log_inv_def)
  then show ?thesis
    using assms record_step_index_inv record_step_versions_inv unfolding log_inv_def by blast
qed

lemma append_outcome:
  assumes "version l \<noteq> - 1"
  obtains (failed) e where "append store blake3 ser f l = (Inl (WalError e), l\<lparr>wal_fail_count := wal_fail_count l + 1\<rparr>)"
  | (written) l1 where "l1 = l \<or> (\<exists>st. l1 = l\<lparr>wal := Some st, wal_fail_count := 0\<rparr>)"
      "append store blake3 ser f l = (Inr (version (record_step (version l) f l1)), (record_step (version l) f l1)
         \<lparr>last_hash := chain_step blake3 (last_hash l) (fact_hash blake3 ser f)\<rparr>)"
proof (cases "wal l")
  case None
  then show thesis using assms by (intro written [of l]) (auto simp: append_def append_memory_ok Let_def)
next
  case (Some st)
  show thesis
  proof (cases "store (version l) f (fact_hash blake3 ser f) (last_hash l)
      (chain_step blake3 (last_hash l) (fact_hash blake3 ser f)) st")
    case (Inl e)
    then show thesis using Some failed
      by (cases "WAL_FAIL_TERMINATE_THRESHOLD \<le> unat (wal_fail_count l + 1)") (simp_all add: append_def Let_def)
  next
    case (Inr st')
    then show thesis
      using Some assms by (intro written [of "l\<lparr>wal := Some st', wal_fail_count := 0\<rparr>"]) (auto simp: append_def append_memory_ok Let_def)
  qed
qed

lemma append_inv:
  assumes "log_inv l" "version l \<noteq> - 1"
  shows "log_inv (snd (append store blake3 ser f l))"
  using assms(2)
proof (cases rule: append_outcome [of _ store blake3 ser f])
  case failed
  then show ?thesis using assms by (simp add: log_inv_hash)
next
  case (written l1)
  then have "log_inv l1" "version l1 = version l" using assms by (auto simp: log_inv_hash)
  with written(2) assms record_step_inv [of l1 f] show ?thesis by (simp add: log_inv_hash)
qed

lemma reindex_frame:
  "history (reindex i hs l) = history l" "version (reindex i hs l) = version l"
  "last_stable_version (reindex i hs l) = last_stable_version l" "compacted (reindex i hs l) = compacted l"
  "current_snapshot (reindex i hs l) = current_snapshot l" "current_queue (reindex i hs l) = current_queue l"
  "last_hash (reindex i hs l) = last_hash l" "wal (reindex i hs l) = wal l"
  by (induction hs arbitrary: i l) (auto simp: log_frames)

lemma compact_inv:
  assumes "log_inv l"
  shows "log_inv (snd (compact l))"
proof -
  let ?n = "unwrap_or (length (history l)) (position (\<lambda>(v, _). v > last_stable_version l) (history l))"
  let ?kept = "drop ?n (history l)"
  let ?l0 = "l\<lparr>compacted := Some \<lparr>cs_version = last_stable_version l, cs_snapshot = current_snapshot l,
      cs_queue = current_queue l, cs_last_hash = last_hash l, cs_count = ?n\<rparr>, history := [],
      version_index := bt_new, fact_id_index := bt_new, path_index := bt_new\<rparr>"
  have "index_inv ?l0" by (simp add: index_inv_def bt_new_def)
  then have "index_inv (reindex 0 ?kept (?l0\<lparr>history := ?kept\<rparr>))" using reindex_inv [of ?l0 0 ?kept] by simp
  moreover have "sorted (map fst ?kept @ [version l])"
    using assms sorted_wrt_drop [of "(\<le>)" "map fst (history l)" ?n]
    by (auto simp: log_inv_def versions_inv_def sorted_append drop_map dest!: in_set_dropD)
  moreover have "snd (compact l) = (if ?n = 0 then l else reindex 0 ?kept (?l0\<lparr>history := ?kept\<rparr>))"
    by (cases l) (simp add: compact_def Let_def)
  ultimately show ?thesis
    using assms by (simp add: log_inv_def versions_inv_def reindex_frame)
qed

lemma reset_inv: "log_inv (log_reset l)"
  by (simp add: log_inv_def index_inv_def versions_inv_def log_reset_def bt_new_def)

text \<open>The operations that change a log, as steps; a fact is appended below the last version.\<close>

inductive log_step :: "(string \<Rightarrow> string) \<Rightarrow> (serde \<Rightarrow> string) \<Rightarrow> 's facts_log \<Rightarrow> 's facts_log \<Rightarrow> bool"
  for blake3 ser where
  "version l \<noteq> - 1 \<Longrightarrow> log_step blake3 ser l (snd (append store blake3 ser f l))"
| "log_step blake3 ser l (snd (compact l))"
| "log_step blake3 ser l (log_reset l)"

inductive_cases log_stepE: "log_step blake3 ser l l'"

lemma log_step_inv: "log_step blake3 ser l l' \<Longrightarrow> log_inv l \<Longrightarrow> log_inv l'"
  by (auto elim!: log_stepE intro: append_inv compact_inv reset_inv)

definition log_reachable :: "(string \<Rightarrow> string) \<Rightarrow> (serde \<Rightarrow> string) \<Rightarrow> 's facts_log \<Rightarrow> bool" where
  "log_reachable blake3 ser l \<longleftrightarrow>
     (\<exists>l0. (l0 = log_new \<or> (\<exists>p. l0 = with_initial_payload p) \<or> (\<exists>st. l0 = with_wal_store st)) \<and>
        (log_step blake3 ser)\<^sup>*\<^sup>* l0 l)"

lemma log_reachable_inv: "log_reachable blake3 ser l \<Longrightarrow> log_inv l"
proof -
  assume "log_reachable blake3 ser l"
  then obtain l0 where l0: "log_inv l0" "(log_step blake3 ser)\<^sup>*\<^sup>* l0 l"
    by (auto simp: log_reachable_def intro: log_inv_new)
  from l0(2,1) show ?thesis by (induction rule: rtranclp_induct) (auto intro: log_step_inv)
qed

lemma position_split:
  "sorted (map fst h) \<Longrightarrow>
   unwrap_or (length h) (position (\<lambda>(v, _). s < v) h) = length (filter (\<lambda>x. fst x \<le> s) h)"
proof (induction h)
  case (Cons x h)
  obtain v f where x: "x = (v, f)" by fastforce
  show ?case
  proof (cases "s < v")
    case True
    then have "s < fst y" if "y \<in> set h" for y using that Cons.prems by (force simp: x)
    then have "filter (\<lambda>x. fst x \<le> s) h = []" by (auto simp: filter_empty_conv not_le)
    with True show ?thesis by (simp add: x)
  next
    case False
    then have "unwrap_or (length (x # h)) (position (\<lambda>(v, _). s < v) (x # h)) =
        Suc (unwrap_or (length h) (position (\<lambda>(v, _). s < v) h))"
      by (cases "position (\<lambda>(v, _). s < v) h") (simp_all add: x)
    moreover have "unwrap_or (length h) (position (\<lambda>(v, _). s < v) h) = length (filter (\<lambda>x. fst x \<le> s) h)"
      using Cons by simp
    moreover have "filter (\<lambda>x. fst x \<le> s) (x # h) = x # filter (\<lambda>x. fst x \<le> s) h"
      using False by (simp add: x)
    ultimately show ?thesis by (simp only: list.size)
  qed
qed simp

lemma drop_split:
  "sorted (map fst h) \<Longrightarrow> drop (length (filter (\<lambda>x. fst x \<le> s) h)) h = filter (\<lambda>x. s < fst x) h"
proof (induction h)
  case (Cons x h)
  show ?case
  proof (cases "s < fst x")
    case True
    then have "s < fst y" if "y \<in> set h" for y using that Cons.prems by force
    then have "filter (\<lambda>x. fst x \<le> s) h = []" "filter (\<lambda>x. s < fst x) h = h"
      by (auto simp: filter_empty_conv filter_id_conv not_le)
    with True show ?thesis by simp
  qed (use Cons in \<open>simp add: not_less\<close>)
qed simp

lemma compact_form:
  assumes "log_inv l" "\<exists>x \<in> set (history l). fst x \<le> last_stable_version l"
  shows "history (snd (compact l)) = filter (\<lambda>x. last_stable_version l < fst x) (history l)"
    "snapshot (snd (compact l)) = snapshot l" "last_hash (snd (compact l)) = last_hash l"
    "compacted (snd (compact l)) = Some \<lparr>cs_version = last_stable_version l, cs_snapshot = current_snapshot l,
       cs_queue = current_queue l, cs_last_hash = last_hash l,
       cs_count = length (filter (\<lambda>x. fst x \<le> last_stable_version l) (history l))\<rparr>"
proof -
  have "sorted (map fst (history l))" using assms(1) by (simp add: log_inv_def versions_inv_def sorted_append)
  note split = position_split [OF this, of "last_stable_version l"] drop_split [OF this, of "last_stable_version l"]
  have "length (filter (\<lambda>x. fst x \<le> last_stable_version l) (history l)) \<noteq> 0"
    using assms(2) by (auto simp: filter_empty_conv)
  with split show "history (snd (compact l)) = filter (\<lambda>x. last_stable_version l < fst x) (history l)"
    "snapshot (snd (compact l)) = snapshot l" "last_hash (snd (compact l)) = last_hash l"
    "compacted (snd (compact l)) = Some \<lparr>cs_version = last_stable_version l, cs_snapshot = current_snapshot l,
       cs_queue = current_queue l, cs_last_hash = last_hash l,
       cs_count = length (filter (\<lambda>x. fst x \<le> last_stable_version l) (history l))\<rparr>"
    by (simp_all add: compact_def Let_def reindex_frame snapshot_def)
qed

section \<open>Properties\<close>



text \<open>
  C8: the version index is exact.  For every log that appends, compactions and resets can produce,
  \<open>read_from\<close> refuses exactly the versions before the compaction point and otherwise returns the retained
  facts whose version is at least the requested one, in order.
\<close>

theorem read_from_exact:
  assumes "log_reachable blake3 ser l"
  shows "read_from v l =
    (case compacted l of
       Some c \<Rightarrow> if v < cs_version c then Inl (CompactedRead v (cs_version c) (cs_count c))
                 else Inr (map snd (filter (\<lambda>x. v \<le> fst x) (history l)))
     | None \<Rightarrow> Inr (map snd (filter (\<lambda>x. v \<le> fst x) (history l))))"
proof -
  have "index_inv l" "sorted (map fst (history l))"
    using log_reachable_inv [OF assms] by (auto simp: log_inv_def versions_inv_def sorted_append)
  then show ?thesis by (simp add: read_from_def read_start split: option.splits)
qed

lemma log_reachable_one: "log_reachable blake3 ser (snd (append store blake3 ser f log_new))"
proof -
  have "log_step blake3 ser log_new (snd (append store blake3 ser f log_new))"
    by (rule log_step.intros) (simp add: log_new_def)
  then show ?thesis unfolding log_reachable_def by blast
qed

theorem read_from_exact_witness:
  "read_from 0 (snd (append memory_wal_append id (\<lambda>_. []) (Stable 1 0) log_new)) = Inr [Stable 1 0]"
  unfolding read_from_exact [OF log_reachable_one]
  by (simp add: append_def append_memory_def log_new_def log_frames index_fact_def push_history_def)

text \<open>
  The path index is exact.  For every such log the query by path prefix returns exactly the
  retained payload updates below the prefix, with their multiplicities.
\<close>

theorem path_prefix_exact:
  assumes "log_reachable blake3 ser l"
  shows "mset (facts_by_path_prefix prefix l) = mset (filter (updates_under prefix) (history l))"
  using log_reachable_inv [OF assms] path_query_mset by (auto simp: log_inv_def)

theorem path_prefix_exact_witness:
  "mset (facts_by_path_prefix ''a'' (snd (append memory_wal_append id (\<lambda>_. []) (PayloadUpdate 1 ''a.b'' Null) log_new))) =
     mset [(0, PayloadUpdate 1 ''a.b'' Null)]"
  unfolding path_prefix_exact [OF log_reachable_one]
  by (simp add: append_def append_memory_def log_new_def log_frames index_fact_def push_history_def
      bump_log_version_def checked_inc_u64_def updates_under_def starts_with_def)

text \<open>
  C7: write-ahead.  Below the last version an append either fails with a storage error and changes
  nothing but the failure counter, or records the fact with the version before it, advances the hash by
  one chain step and the version by at most one; with an attached backend the latter happens only after
  the backend accepted the record with exactly these hashes.
\<close>

theorem append_write_ahead:
  assumes "version l \<noteq> - 1"
  shows "(\<exists>e. append store blake3 ser f l = (Inl (WalError e), l\<lparr>wal_fail_count := wal_fail_count l + 1\<rparr>)) \<or>
    (\<exists>l'. append store blake3 ser f l = (Inr (version l'), l') \<and>
       history l' = history l @ [(version l, f)] \<and>
       last_hash l' = chain_step blake3 (last_hash l) (fact_hash blake3 ser f) \<and>
       (version l' = version l \<or> unat (version l') = Suc (unat (version l))) \<and>
       (\<forall>st. wal l = Some st \<longrightarrow> (\<exists>st'. wal l' = Some st' \<and>
          store (version l) f (fact_hash blake3 ser f) (last_hash l) (last_hash l') st = Inr st')))"
  using assms
proof (cases rule: append_outcome [of _ store blake3 ser f])
  case (written l1)
  then have l1: "version l1 = version l" "history l1 = history l" by auto
  obtain l' where step: "apply_fact_to_state f (index_fact (version l) f (length (history l1)) (push_history (version l) f l1)) = (l', None)"
    using apply_fact_ok [of "index_fact (version l) f (length (history l1)) (push_history (version l) f l1)" f] assms l1(1)
    by (metis index_fact_frame(2) prod.collapse push_history_frame(2))
  let ?l = "l'\<lparr>last_hash := chain_step blake3 (last_hash l) (fact_hash blake3 ser f)\<rparr>"
  have app: "append store blake3 ser f l = (Inr (version ?l), ?l)"
    using written(2) step by (simp add: record_step_def)
  have "history ?l = history l @ [(version l, f)]" "wal l' = wal l1"
    using step l1 by (auto simp: apply_fact_frame log_frames)
  moreover have "version ?l = version l \<or> unat (version ?l) = Suc (unat (version l))"
    using apply_fact_version [OF step] l1 by (simp add: log_frames)
  moreover have "\<exists>st'. wal ?l = Some st' \<and>
      store (version l) f (fact_hash blake3 ser f) (last_hash l) (last_hash ?l) st = Inr st'" if "wal l = Some st" for st
  proof (cases "store (version l) f (fact_hash blake3 ser f) (last_hash l) (last_hash ?l) st")
    case (Inl e)
    then have "\<exists>e. fst (append store blake3 ser f l) = Inl e"
      using that by (auto simp: append_def Let_def)
    with app show ?thesis by simp
  next
    case (Inr st')
    have "wal (snd (append store blake3 ser f l)) = Some st'"
      using that Inr assms by (simp add: append_def append_memory_ok Let_def record_step_def apply_fact_commutes log_frames)
    with app Inr show ?thesis by simp
  qed
  ultimately show ?thesis using app by auto
qed auto

theorem append_write_ahead_witness:
  "last_hash (snd (append memory_wal_append id (\<lambda>_. ''c'') (Stable 1 0) (with_wal_store []))) = ''genesisc''"
proof -
  have "version (with_wal_store [] :: wal_record list facts_log) \<noteq> - 1"
    by (simp add: with_wal_store_def log_new_def)
  from append_write_ahead [OF this, of memory_wal_append id "\<lambda>_. ''c''" "Stable 1 0"] show ?thesis
    by (auto simp: with_wal_store_def log_new_def append_def append_memory_def memory_wal_append_def chain_step_def
        fact_hash_def genesis_def Let_def)
qed

text \<open>
  Compaction.  With facts up to the last stable version in memory it keeps exactly the facts after
  it, the snapshot, the queue, the version and the chain hash; every later read below the stable version
  is refused, and a read at or above it returns what is kept.  The facts recorded at the stable version
  itself, the \<open>Stable\<close> fact among them, are dropped while a read from that version still succeeds.
\<close>

theorem compact_exact:
  assumes "log_reachable blake3 ser l" "\<exists>x \<in> set (history l). fst x \<le> last_stable_version l"
  defines "l' \<equiv> snd (compact l)"
  shows "history l' = filter (\<lambda>x. last_stable_version l < fst x) (history l) \<and> snapshot l' = snapshot l \<and>
    last_hash l' = last_hash l \<and>
    read_from v l' =
      (if v < last_stable_version l
       then Inl (CompactedRead v (last_stable_version l) (length (filter (\<lambda>x. fst x \<le> last_stable_version l) (history l))))
       else Inr (map snd (filter (\<lambda>x. v \<le> fst x \<and> last_stable_version l < fst x) (history l))))"
proof -
  have inv: "log_inv l" using log_reachable_inv [OF assms(1)] .
  then have "index_inv l'" "sorted (map fst (history l'))"
    using compact_inv [OF inv] by (auto simp: l'_def log_inv_def versions_inv_def sorted_append)
  note start = read_start [OF this, of v]
  show ?thesis
    unfolding read_from_def start
    using compact_form [OF inv assms(2)] by (simp add: l'_def filter_filter conj_commute)
qed

theorem compact_exact_witness:
  "read_from 0 (snd (compact (snd (append memory_wal_append id (\<lambda>_. []) (Stable 1 0) log_new)))) = Inr []"
proof -
  let ?l = "snd (append memory_wal_append id (\<lambda>_. []) (Stable 1 0) log_new)"
  have l: "history ?l = [(0, Stable 1 0)]" "last_stable_version ?l = 0"
    by (simp_all add: append_def append_memory_def log_new_def log_frames index_fact_def push_history_def)
  then have "\<exists>x \<in> set (history ?l). fst x \<le> last_stable_version ?l" by simp
  from compact_exact [OF log_reachable_one this, of 0] show ?thesis using l by simp
qed

text \<open>
  The base state of a fork is not recovered.  After \<open>set_initial_state\<close> on a new log with the memory
  backend, replaying the backend gives version 1 and a payload with the digest of the base state, not the
  base state and the version that the live log has.
\<close>

theorem fork_state_not_recovered:
  "\<exists>recs. wal (set_initial_state memory_wal_append blake3 ser payload v (with_wal_store [])) = Some recs \<and>
     snapshot (set_initial_state memory_wal_append blake3 ser payload v (with_wal_store [])) = (payload, [], v) \<and>
     map_ok snapshot (replay_wal_records blake3 ser recs) =
       Inr (object_from_pairs [(''__fork__'', object_from_pairs [(''initial_state'', object_from_pairs
         [(''digest'', String (content_hash blake3 ser payload)), (''version'', Integer v)])])], [], 1)"
proof -
  let ?f = "PayloadUpdate 1000000000 ''__fork__.initial_state'' (object_from_pairs
    [(''digest'', String (content_hash blake3 ser payload)), (''version'', Integer v)])"
  let ?l = "with_wal_store [] :: wal_record list facts_log"
  let ?r = "hash_record 0 ?f (fact_hash blake3 ser ?f) genesis (chain_step blake3 genesis (fact_hash blake3 ser ?f))"
  have wal: "wal (set_initial_state memory_wal_append blake3 ser payload v ?l) = Some [?r]"
    by (simp add: set_initial_state_def with_wal_store_def log_new_def append_def append_memory_ok memory_wal_append_def
        record_step_def bump_log_version_def checked_inc_u64_def index_fact_def push_history_def Let_def)
  have live: "snapshot (set_initial_state memory_wal_append blake3 ser payload v ?l) = (payload, [], v)"
    by (simp add: set_initial_state_def with_wal_store_def log_new_def append_def append_memory_ok memory_wal_append_def
        record_step_def bump_log_version_def checked_inc_u64_def snapshot_def log_frames index_fact_def push_history_def Let_def)
  have upd: "update_snapshot ''__fork__.initial_state'' j empty_object =
      object_from_pairs [(''__fork__'', object_from_pairs [(''initial_state'', j)])]" for j
  proof -
    have "parse_path_segments ''__fork__.initial_state'' = Some [Field ''__fork__'', Field ''initial_state'']"
      "ends_with_char (CHR ''.'') ''__fork__.initial_state'' = False"
      "split_on (CHR ''.'') ''__fork__.initial_state'' = [''__fork__'', ''initial_state'']"
      by code_simp+
    then show ?thesis
      by (simp add: update_snapshot_def resolve_path_mut_def empty_object_def object_from_pairs_def bt_new_def bt_contains_def bt_insert_def)
  qed
  have "map_ok snapshot (replay_wal_records blake3 ser [?r]) =
       Inr (object_from_pairs [(''__fork__'', object_from_pairs [(''initial_state'', object_from_pairs
         [(''digest'', String (content_hash blake3 ser payload)), (''version'', Integer v)])])], [], 1)"
    by (simp add: replay_wal_records_def hash_record_def push_history_def index_fact_def log_new_def bump_log_version_def
        checked_inc_u64_def upd snapshot_def Let_def)
  with wal live show ?thesis by blast
qed

end
