(* ===== verification/Anchor.thy ===== *)
theory Anchor
  imports FactsLog
begin

text \<open>
  Signing, the logical clock and the chain of signed anchors, \<open>evorule-governance/src/signing.rs\<close>,
  \<open>clock.rs\<close> and \<open>anchor.rs\<close>.  The crate \<open>ed25519_dalek\<close> is not part of the repository: key
  derivation, signing and verification are the fields of the parameter \<open>ed\<close>, and \<open>blake3\<close> is the hash
  parameter of the audit chain.  A compare-and-swap loop of the clock is one step: every operation of
  the model runs alone.
\<close>

section \<open>Signing\<close>

type_synonym byte = "8 word"

datatype sign_error = InvalidSign string | Randomness string

fun sign_error_display :: "sign_error \<Rightarrow> string" where
  "sign_error_display (InvalidSign msg) = (utf8 [229, 174, 161, 232, 174, 161, 231, 173, 190, 229, 144, 141] @ '': '' @
     utf8 [233, 157, 158, 230, 179, 149, 232, 190, 147, 229, 133, 165] @ '': '') @ msg"
| "sign_error_display (Randomness src) = (utf8 [229, 174, 161, 232, 174, 161, 231, 173, 190, 229, 144, 141] @ '': '' @
     utf8 [233, 154, 143, 230, 156, 186, 231, 167, 141, 229, 173, 144, 229, 164, 177, 232, 180,
       165] @ '': '') @ src"

text \<open>
  What the code calls of \<open>ed25519_dalek\<close>: the signing key of a seed, its public key, a signature, and
  the check of a signature, which fails on bytes that are not a public key.
\<close>

record 'k ed25519 =
  ed_key :: "byte list \<Rightarrow> 'k"
  ed_public :: "'k \<Rightarrow> byte list"
  ed_sign :: "'k \<Rightarrow> string \<Rightarrow> byte list"
  ed_verify :: "byte list \<Rightarrow> string \<Rightarrow> byte list \<Rightarrow> string + bool"

record 'k audit_signer =
  signing :: 'k
  verifying :: "byte list"

definition from_bytes :: "'k ed25519 \<Rightarrow> byte list \<Rightarrow> 'k audit_signer" where
  "from_bytes ed seed = \<lparr>signing = ed_key ed seed, verifying = ed_public ed (ed_key ed seed)\<rparr>"

definition hex_byte :: "byte \<Rightarrow> string" where
  "hex_byte b = [hex_digit (unat b div 16), hex_digit (unat b mod 16)]"

definition hex_encode :: "byte list \<Rightarrow> string" where
  "hex_encode bytes = concat (map hex_byte bytes)"

text \<open>\<open>char::to_digit(16)\<close>: digits and letters of both cases.\<close>

definition to_digit16 :: "char \<Rightarrow> nat option" where
  "to_digit16 c =
     (let n = of_char c :: nat in
      if 48 \<le> n \<and> n \<le> 57 then Some (n - 48)
      else if 97 \<le> n \<and> n \<le> 102 then Some (n - 87)
      else if 65 \<le> n \<and> n \<le> 70 then Some (n - 55)
      else None)"

fun hex_pairs :: "string \<Rightarrow> sign_error + byte list" where
  "hex_pairs (a # b # r) =
     (case (to_digit16 a, to_digit16 b) of
        (Some h, Some l) \<Rightarrow> map_ok (\<lambda>out. word_of_nat (16 * h + l) # out) (hex_pairs r)
      | _ \<Rightarrow> Inl (InvalidSign (''hex '' @
     utf8 [229, 144, 171, 233, 157, 158, 229, 141, 129, 229, 133, 173, 232, 191, 155, 229, 136,
       182, 229, 173, 151, 231, 172, 166])))"
| "hex_pairs _ = Inr []"

definition hex_decode :: "string \<Rightarrow> sign_error + byte list" where
  "hex_decode hex =
     (if length hex mod 2 \<noteq> 0
      then Inl (InvalidSign ((''hex '' @
     utf8 [233, 149, 191, 229, 186, 166, 228, 184, 186, 229, 165, 135, 230, 149, 176] @ '': '') @ dec_nat (length hex)))
      else hex_pairs hex)"

definition from_hex :: "'k ed25519 \<Rightarrow> string \<Rightarrow> sign_error + 'k audit_signer" where
  "from_hex ed seed_hex =
     and_then (hex_decode seed_hex) (\<lambda>bytes.
     if length bytes \<noteq> 32
     then Inl (InvalidSign ((utf8 [231, 167, 129, 233, 146, 165, 231, 167, 141, 229, 173, 144, 233, 149, 191, 229, 186,
       166] @ '' != 32: '') @ dec_nat (length bytes)))
     else Inr (from_bytes ed bytes))"

definition verifying_hex :: "'k audit_signer \<Rightarrow> string" where
  "verifying_hex s = hex_encode (verifying s)"

definition signature_bytes :: "'k ed25519 \<Rightarrow> 'k audit_signer \<Rightarrow> string \<Rightarrow> byte list" where
  "signature_bytes ed s payload = ed_sign ed (signing s) payload"

text \<open>\<open>generate_keys\<close>, with what the operating system returns as an argument.\<close>

definition generate_keys :: "'k ed25519 \<Rightarrow> byte list option \<Rightarrow> sign_error + (string \<times> string)" where
  "generate_keys ed entropy =
     (case entropy of
        None \<Rightarrow> Inl (Randomness (''OS '' @ utf8 [231, 134, 181, 230, 186, 144, 228, 184, 141, 229, 143, 175, 231, 148, 168]))
      | Some seed \<Rightarrow> Inr (hex_encode seed, verifying_hex (from_bytes ed seed)))"

definition verify_signature :: "'k ed25519 \<Rightarrow> byte list \<Rightarrow> string \<Rightarrow> byte list \<Rightarrow> sign_error + bool" where
  "verify_signature ed verifying_bytes payload sig_bytes =
     map_err (\<lambda>e. InvalidSign ((utf8 [229, 133, 172, 233, 146, 165, 233, 157, 158, 230, 179, 149] @ '': '') @ e)) (ed_verify ed verifying_bytes payload sig_bytes)"

section \<open>The logical clock\<close>

type_synonym logical_clock = u64

definition clock_new :: logical_clock where "clock_new = 0"

definition tick :: "logical_clock \<Rightarrow> u64 \<times> logical_clock" where
  "tick c = (c + 1, c + 1)"

definition advance_to :: "u64 \<Rightarrow> logical_clock \<Rightarrow> logical_clock" where
  "advance_to target c = (if c \<ge> target then c else target)"

definition merge_clock :: "u64 \<Rightarrow> logical_clock \<Rightarrow> logical_clock" where
  "merge_clock other c = max c other + 1"

section \<open>Anchors\<close>

datatype anchor_error =
    AnchorHash string
  | AnchorSign sign_error
  | AnchorChainBroken usize string
  | SignatureInvalid usize

fun anchor_error_display :: "anchor_error \<Rightarrow> string" where
  "anchor_error_display (AnchorHash msg) = (utf8 [229, 174, 161, 232, 174, 161, 233, 148, 154, 231, 130, 185] @ '': '' @
     utf8 [232, 189, 189, 232, 141, 183, 229, 147, 136, 229, 184, 140, 229, 164, 177, 232, 180,
       165] @ '': '') @ msg"
| "anchor_error_display (AnchorSign e) = (utf8 [229, 174, 161, 232, 174, 161, 233, 148, 154, 231, 130, 185] @ '': '') @ sign_error_display e"
| "anchor_error_display (AnchorChainBroken i reason) =
     (utf8 [229, 174, 161, 232, 174, 161, 233, 148, 154, 231, 130, 185] @ '': '' @
     utf8 [233, 148, 154, 231, 130, 185, 233, 147, 190, 230, 150, 173, 232, 163, 130, 228, 186,
       142] @ ''['') @ dec_nat i @ '']: '' @ reason"
| "anchor_error_display (SignatureInvalid i) =
     (utf8 [229, 174, 161, 232, 174, 161, 233, 148, 154, 231, 130, 185] @ '': '' @
     utf8 [231, 173, 190, 229, 144, 141, 233, 170, 140, 232, 175, 129, 229, 164, 177, 232, 180,
       165, 228, 186, 142] @ ''['') @ dec_nat i @ '']''"

definition ANCHOR_GENESIS :: string where
  "ANCHOR_GENESIS = ''anchor-genesis''"

definition ANCHOR_FORMAT :: string where
  "ANCHOR_FORMAT = ''evorule-anchor/2''"

record fact_range =
  lo :: usize
  hi :: usize

record anchor_proto =
  p_seq :: u64
  p_session_id :: string
  p_fact_range :: fact_range
  p_chain_head :: string
  p_key_id :: string
  p_engine_id :: string
  p_logical_time :: u64

record audit_anchor =
  seq :: u64
  session_id :: string
  fact_range :: fact_range
  chain_head :: string
  key_id :: string
  engine_id :: string
  logical_time :: u64
  anchor_hash :: string
  signature :: string

definition proto_of :: "audit_anchor \<Rightarrow> anchor_proto" where
  "proto_of a =
     \<lparr>p_seq = seq a, p_session_id = session_id a, p_fact_range = fact_range a, p_chain_head = chain_head a,
      p_key_id = key_id a, p_engine_id = engine_id a, p_logical_time = logical_time a\<rparr>"

text \<open>The payload fields in the order both format strings have them.\<close>

definition proto_fields :: "anchor_proto \<Rightarrow> string list" where
  "proto_fields p =
     [p_session_id p, dec_nat (unat (p_seq p)), dec_nat (lo (p_fact_range p)), dec_nat (hi (p_fact_range p)),
      p_chain_head p, p_key_id p, p_engine_id p, dec_nat (unat (p_logical_time p))]"

definition signature_payload_v2 :: "anchor_proto \<Rightarrow> string" where
  "signature_payload_v2 p = join_on (CHR ''|'') (ANCHOR_FORMAT # proto_fields p)"

definition compute_anchor_hash :: "(string \<Rightarrow> string) \<Rightarrow> string \<Rightarrow> anchor_proto \<Rightarrow> anchor_error + string" where
  "compute_anchor_hash blake3 prev_anchor_hash p =
     Inr (blake3 (join_on (CHR ''|'') (prev_anchor_hash # proto_fields p)))"

definition hash_mismatch_reason :: "string \<Rightarrow> string \<Rightarrow> string" where
  "hash_mismatch_reason expect actual =
     (utf8 [232, 189, 189, 232, 141, 183, 229, 147, 136, 229, 184, 140, 228, 184, 141, 229, 140,
       185, 233, 133, 141] @ '': '' @ utf8 [230, 156, 159, 230, 156, 155] @ '' '') @ take_chars 16 expect @ (utf8 [226, 128, 166] @ '' '' @ utf8 [229, 174, 158, 233, 153, 133] @ '' '') @ take_chars 16 actual
     @ (utf8 [226, 128, 166, 239, 188, 136, 229, 173, 151, 230, 174, 181, 232, 162, 171, 231, 175,
       161, 230, 148, 185, 230, 136, 150] @ '' prev '' @
     utf8 [233, 147, 190, 230, 142, 165, 233, 148, 153, 232, 175, 175, 239, 188, 137])"

text \<open>The part of \<open>verify_one\<close> after the payload hash.\<close>

definition verify_anchor_signature :: "'k ed25519 \<Rightarrow> string \<Rightarrow> audit_anchor \<Rightarrow> anchor_error + unit" where
  "verify_anchor_signature ed verifying_key_hex a =
     and_then (map_err AnchorSign (hex_decode verifying_key_hex)) (\<lambda>vk.
     if length vk \<noteq> 32 then Inl (AnchorSign (InvalidSign ((utf8 [229, 133, 172, 233, 146, 165, 233, 149, 191, 229, 186, 166] @ '' != 32: '') @ dec_nat (length vk))))
     else
       and_then (map_err AnchorSign (hex_decode (signature a))) (\<lambda>sig.
       if length sig \<noteq> 64 then Inl (AnchorSign (InvalidSign ((utf8 [231, 173, 190, 229, 144, 141, 233, 149, 191, 229, 186, 166] @ '' != 64: '') @ dec_nat (length sig))))
       else
         and_then (map_err AnchorSign (verify_signature ed vk (signature_payload_v2 (proto_of a)) sig)) (\<lambda>ok.
         if ok then Inr () else Inl (SignatureInvalid (unat (seq a))))))"

definition verify_one :: "'k ed25519 \<Rightarrow> (string \<Rightarrow> string) \<Rightarrow> string \<Rightarrow> string \<Rightarrow> audit_anchor \<Rightarrow> anchor_error + unit" where
  "verify_one ed blake3 prev_anchor_hash verifying_key_hex a =
     and_then (compute_anchor_hash blake3 prev_anchor_hash (proto_of a)) (\<lambda>expect.
     if expect \<noteq> anchor_hash a
     then Inl (AnchorChainBroken (unat (seq a)) (hash_mismatch_reason expect (anchor_hash a)))
     else verify_anchor_signature ed verifying_key_hex a)"

section \<open>Building the chain\<close>

record 'k anchor_chain_builder =
  b_signer :: "'k audit_signer"
  b_key_id :: string
  b_engine_id :: string
  b_session_id :: string
  prev_anchor_hash :: string
  last_seq :: u64
  last_fact_hi :: usize

definition anchor_builder_new :: "'k audit_signer \<Rightarrow> string \<Rightarrow> string \<Rightarrow> string \<Rightarrow> 'k anchor_chain_builder" where
  "anchor_builder_new s kid eng ses =
     \<lparr>b_signer = s, b_key_id = kid, b_engine_id = eng, b_session_id = ses,
      prev_anchor_hash = ANCHOR_GENESIS, last_seq = 0, last_fact_hi = 0\<rparr>"

definition new_with_prev ::
  "'k audit_signer \<Rightarrow> string \<Rightarrow> string \<Rightarrow> string \<Rightarrow> string \<Rightarrow> u64 \<Rightarrow> usize \<Rightarrow> 'k anchor_chain_builder" where
  "new_with_prev s kid eng ses prev next_seq next_fact_lo =
     \<lparr>b_signer = s, b_key_id = kid, b_engine_id = eng, b_session_id = ses,
      prev_anchor_hash = prev, last_seq = next_seq, last_fact_hi = next_fact_lo\<rparr>"

definition seal ::
  "'k ed25519 \<Rightarrow> (string \<Rightarrow> string) \<Rightarrow> usize \<Rightarrow> string \<Rightarrow> 'k anchor_chain_builder \<Rightarrow>
   anchor_error + (audit_anchor \<times> 'k anchor_chain_builder)" where
  "seal ed blake3 fact_hi head b =
     (let p = \<lparr>p_seq = last_seq b, p_session_id = b_session_id b,
               p_fact_range = \<lparr>lo = last_fact_hi b, hi = fact_hi\<rparr>, p_chain_head = head,
               p_key_id = b_key_id b, p_engine_id = b_engine_id b, p_logical_time = 0\<rparr> in
      and_then (compute_anchor_hash blake3 (prev_anchor_hash b) p) (\<lambda>h.
      let sig = signature_bytes ed (b_signer b) (signature_payload_v2 p);
          a = \<lparr>seq = p_seq p, session_id = p_session_id p, fact_range = p_fact_range p,
               chain_head = p_chain_head p, key_id = p_key_id p, engine_id = p_engine_id p,
               logical_time = p_logical_time p, anchor_hash = h, signature = hex_encode sig\<rparr> in
      Inr (a, b\<lparr>prev_anchor_hash := anchor_hash a, last_seq := last_seq b + 1, last_fact_hi := fact_hi\<rparr>)))"

definition next_fact_lo :: "'k anchor_chain_builder \<Rightarrow> usize" where
  "next_fact_lo b = last_fact_hi b"

section \<open>Verifying the chain\<close>

type_synonym key_table = "(string \<times> string) list"

definition seq_reason :: "nat \<Rightarrow> u64 \<Rightarrow> string" where
  "seq_reason i s = (utf8 [229, 186, 143, 229, 143, 183, 228, 184, 141, 232, 191, 158, 231, 187, 173] @ '': '' @
     utf8 [230, 156, 159, 230, 156, 155] @ '' '') @ dec_nat i @ ('' '' @ utf8 [229, 174, 158, 233, 153, 133] @ '' '') @ dec_nat (unat s)"

definition range_reason :: "usize \<Rightarrow> usize \<Rightarrow> string" where
  "range_reason expect_lo l =
     (utf8 [228, 186, 139, 229, 174, 158, 229, 140, 186, 233, 151, 180, 228, 184, 141, 230, 151,
       160, 231, 188, 157] @ '': '' @ utf8 [230, 156, 159, 230, 156, 155] @ '' lo='') @ dec_nat expect_lo @ ('' '' @ utf8 [229, 174, 158, 233, 153, 133] @ '' lo='') @ dec_nat l @ (utf8 [239, 188, 136, 229, 137, 141, 231, 188, 128, 230, 136, 170, 230, 150, 173, 230, 136,
       150, 229, 140, 186, 233, 151, 180, 228, 184, 162, 229, 164, 177, 239, 188, 137])"

definition key_reason :: "string \<Rightarrow> string" where
  "key_reason kid = (utf8 [230, 156, 170, 231, 159, 165] @ '' key_id: '') @ kid @ (utf8 [239, 188, 136, 229, 133, 172, 233, 146, 165, 232, 161, 168, 231, 188, 186, 229, 164,
       177, 239, 188, 137])"

fun verify_anchors_from ::
  "'k ed25519 \<Rightarrow> (string \<Rightarrow> string) \<Rightarrow> key_table \<Rightarrow> nat \<Rightarrow> string \<Rightarrow> usize \<Rightarrow> audit_anchor list \<Rightarrow> anchor_error + unit" where
  "verify_anchors_from ed blake3 keys i prev_hash expect_lo [] = Inr ()"
| "verify_anchors_from ed blake3 keys i prev_hash expect_lo (a # as) =
     (if seq a \<noteq> word_of_nat i then Inl (AnchorChainBroken i (seq_reason i (seq a)))
      else if lo (fact_range a) \<noteq> expect_lo
      then Inl (AnchorChainBroken i (range_reason expect_lo (lo (fact_range a))))
      else
        and_then (ok_or (AnchorChainBroken i (key_reason (key_id a))) (bt_get (key_id a) keys)) (\<lambda>key.
        and_then (verify_one ed blake3 prev_hash key a) (\<lambda>_.
        verify_anchors_from ed blake3 keys (i + 1) (anchor_hash a) (hi (fact_range a)) as)))"

definition verify_anchor_chain ::
  "'k ed25519 \<Rightarrow> (string \<Rightarrow> string) \<Rightarrow> audit_anchor list \<Rightarrow> key_table \<Rightarrow> anchor_error + unit" where
  "verify_anchor_chain ed blake3 anchors keys = verify_anchors_from ed blake3 keys 0 ANCHOR_GENESIS 0 anchors"

definition too_few_reason :: "usize \<Rightarrow> nat \<Rightarrow> string" where
  "too_few_reason h n = (utf8 [228, 186, 139, 229, 174, 158, 230, 149, 176, 228, 184, 141, 232, 182, 179] @ '': '' @
     utf8 [233, 148, 154, 231, 130, 185, 229, 163, 176, 231, 167, 176] @ '' hi='') @ dec_nat h @ ('' '' @ utf8 [228, 189, 134, 228, 186, 139, 229, 174, 158, 230, 128, 187, 230, 149, 176] @
     ''='') @ dec_nat n"

definition binding_reason :: "u64 \<Rightarrow> string \<Rightarrow> string \<Rightarrow> string" where
  "binding_reason s claimed actual =
     (utf8 [233, 147, 190, 229, 164, 180, 231, 187, 145, 229, 174, 154, 229, 164, 177, 232, 180,
       165] @ '': '' @ utf8 [233, 148, 154, 231, 130, 185] @ ''['') @ dec_nat (unat s) @ ('']'' @ utf8 [229, 163, 176, 231, 167, 176] @ '' '') @ take_chars 16 claimed
     @ (utf8 [226, 128, 166] @ '' '' @
     utf8 [229, 174, 158, 233, 153, 133, 233, 135, 141, 231, 174, 151] @ '' '') @ take_chars 16 actual @ (utf8 [226, 128, 166, 239, 188, 136, 228, 186, 139, 229, 174, 158, 233, 147, 190, 232, 162,
       171, 231, 175, 161, 230, 148, 185] @ ''/'' @
     utf8 [230, 155, 191, 230, 141, 162, 239, 188, 140, 230, 136, 150, 233, 148, 154, 231, 130,
       185, 229, 177, 158, 229, 143, 166, 228, 184, 128, 230, 157, 161, 233, 147, 190, 239, 188,
       137])"

fun binding_loop ::
  "(string \<Rightarrow> string) \<Rightarrow> (serde \<Rightarrow> string) \<Rightarrow> fact list \<Rightarrow> usize \<Rightarrow> audit_anchor list \<Rightarrow> anchor_error + usize" where
  "binding_loop blake3 ser facts covered [] = Inr covered"
| "binding_loop blake3 ser facts covered (a # as) =
     (let h = hi (fact_range a) in
      if h > length facts then Inl (AnchorChainBroken (unat (seq a)) (too_few_reason h (length facts)))
      else
        (let head = compute_chain_hash blake3 ser (take h facts) in
         if head \<noteq> chain_head a
         then Inl (AnchorChainBroken (unat (seq a)) (binding_reason (seq a) (chain_head a) head))
         else binding_loop blake3 ser facts h as))"

definition verify_binding ::
  "(string \<Rightarrow> string) \<Rightarrow> (serde \<Rightarrow> string) \<Rightarrow> fact list \<Rightarrow> audit_anchor list \<Rightarrow> anchor_error + usize" where
  "verify_binding blake3 ser facts anchors = binding_loop blake3 ser facts 0 anchors"

section \<open>Hexadecimal and field lists\<close>

lemma to_digit16_hex [simp]: "d < 16 \<Longrightarrow> to_digit16 (hex_digit d) = Some d"
  by (auto simp: to_digit16_def hex_digit_def Let_def of_char_of)

lemma hex_byte_decode [simp]: "hex_pairs (hex_byte b @ r) = map_ok (\<lambda>out. b # out) (hex_pairs r)"
proof -
  have "unat b < 2 ^ LENGTH(8)" by (rule unsigned_less)
  then have "unat b < 256" by simp
  then show ?thesis by (simp add: hex_byte_def)
qed

lemma length_hex_encode [simp]: "length (hex_encode bs) = 2 * length bs"
  by (induction bs) (auto simp: hex_encode_def hex_byte_def)

lemma hex_decode_encode [simp]: "hex_decode (hex_encode bs) = Inr bs"
proof -
  have "hex_pairs (hex_encode bs) = Inr bs"
    by (induction bs) (simp_all add: hex_encode_def)
  then show ?thesis by (simp add: hex_decode_def)
qed

lemma split_join_on:
  "ps \<noteq> [] \<Longrightarrow> list_all (\<lambda>p. c \<notin> set p) ps \<Longrightarrow> split_on c (join_on c ps) = ps"
  by (induction c ps rule: join_on.induct) (auto simp: split_on_no_sep split_on_append_sep)

lemma join_on_inject:
  assumes "join_on c ps = join_on c qs" "ps \<noteq> []" "qs \<noteq> []"
    "list_all (\<lambda>p. c \<notin> set p) ps" "list_all (\<lambda>p. c \<notin> set p) qs"
  shows "ps = qs"
proof -
  have "ps = split_on c (join_on c ps)" using assms(2,4) by (rule split_join_on [symmetric])
  also have "\<dots> = split_on c (join_on c qs)" by (rule arg_cong [OF assms(1)])
  also have "\<dots> = qs" using assms(3,5) by (rule split_join_on)
  finally show ?thesis .
qed

lemma dec_nat_inject [simp]: "dec_nat m = dec_nat n \<longleftrightarrow> m = n"
  by (metis option.inject parse_digits_dec_nat)

lemma unat_word_inject: "unat x = unat y \<longleftrightarrow> x = y"
  by (metis word_eq_iff_unsigned)

lemma word_of_nat_inject_u64:
  assumes "(word_of_nat m :: u64) = word_of_nat n" "m < 2 ^ 64" "n < 2 ^ 64"
  shows "m = n"
  using arg_cong [OF assms(1), of unat] assms(2,3) by (simp add: unsigned_of_nat take_bit_nat_eq_self)

lemma pipe_not_in_dec_nat [simp]: "CHR ''|'' \<notin> set (dec_nat n)"
  using dec_nat_digits [of n] by (auto simp: list_all_iff is_digit_def)

text \<open>The text fields of an anchor are hashes and identifiers: none contains the separator.\<close>

definition plain_proto :: "anchor_proto \<Rightarrow> bool" where
  "plain_proto p \<longleftrightarrow> list_all (\<lambda>s. CHR ''|'' \<notin> set s) [p_session_id p, p_chain_head p, p_key_id p, p_engine_id p]"

lemma plain_fields: "plain_proto p \<Longrightarrow> list_all (\<lambda>s. CHR ''|'' \<notin> set s) (proto_fields p)"
  by (simp add: plain_proto_def proto_fields_def)

lemma proto_fields_inject: "proto_fields p = proto_fields q \<Longrightarrow> p = q"
  by (cases p; cases q; cases "p_fact_range p"; cases "p_fact_range q") (auto simp: proto_fields_def unat_word_inject)

lemma anchor_text_inject:
  assumes "join_on (CHR ''|'') (h # proto_fields p) = join_on (CHR ''|'') (k # proto_fields q)"
    and "plain_proto p" "plain_proto q" "CHR ''|'' \<notin> set h" "CHR ''|'' \<notin> set k"
  shows "h = k \<and> p = q"
proof -
  have "h # proto_fields p = k # proto_fields q"
    using assms plain_fields by (intro join_on_inject [OF assms(1)]) auto
  then show ?thesis using proto_fields_inject by auto
qed

section \<open>The verifier on prefixes\<close>

definition end_hash :: "string \<Rightarrow> audit_anchor list \<Rightarrow> string" where
  "end_hash prev as = (if as = [] then prev else anchor_hash (last as))"

definition end_hi :: "usize \<Rightarrow> audit_anchor list \<Rightarrow> usize" where
  "end_hi l as = (if as = [] then l else hi (fact_range (last as)))"

lemma end_simps [simp]:
  "end_hash prev [] = prev" "end_hash prev (a # as) = end_hash (anchor_hash a) as"
  "end_hi l [] = l" "end_hi l (a # as) = end_hi (hi (fact_range a)) as"
  "end_hash prev (as @ [a]) = anchor_hash a" "end_hi l (as @ [a]) = hi (fact_range a)"
  by (simp_all add: end_hash_def end_hi_def)

lemma verify_anchors_append:
  "verify_anchors_from ed blake3 keys i prev l (as @ bs) =
     and_then (verify_anchors_from ed blake3 keys i prev l as) (\<lambda>_.
       verify_anchors_from ed blake3 keys (i + length as) (end_hash prev as) (end_hi l as) bs)"
proof (induction as arbitrary: i prev l)
  case (Cons a as)
  then show ?case by (auto simp: and_then_def split: sum.splits)
qed simp

text \<open>What the verifier has checked of one anchor.\<close>

definition anchor_ok :: "'k ed25519 \<Rightarrow> (string \<Rightarrow> string) \<Rightarrow> key_table \<Rightarrow> nat \<Rightarrow> string \<Rightarrow> usize \<Rightarrow> audit_anchor \<Rightarrow> bool" where
  "anchor_ok ed blake3 keys i prev l a \<longleftrightarrow>
     seq a = word_of_nat i \<and> lo (fact_range a) = l \<and>
     anchor_hash a = blake3 (join_on (CHR ''|'') (prev # proto_fields (proto_of a))) \<and>
     (\<exists>key. bt_get (key_id a) keys = Some key \<and> verify_anchor_signature ed key a = Inr ())"

lemma verify_Cons:
  "verify_anchors_from ed blake3 keys i prev l (a # as) = Inr () \<longleftrightarrow>
     anchor_ok ed blake3 keys i prev l a \<and>
     verify_anchors_from ed blake3 keys (i + 1) (anchor_hash a) (hi (fact_range a)) as = Inr ()"
  by (auto simp: anchor_ok_def verify_one_def compute_anchor_hash_def result_simps split: if_splits)

declare verify_anchors_from.simps(2) [simp del]

lemma verify_snoc:
  "verify_anchors_from ed blake3 keys i prev l (as @ [a]) = Inr () \<longleftrightarrow>
     verify_anchors_from ed blake3 keys i prev l as = Inr () \<and>
     anchor_ok ed blake3 keys (i + length as) (end_hash prev as) (end_hi l as) a"
  by (simp add: verify_anchors_append verify_Cons and_then_Inr_iff)

section \<open>Honest chains\<close>

text \<open>What is documented of Ed25519: the sizes, and that a signature verifies under its public key.\<close>

definition ed25519_laws :: "'k ed25519 \<Rightarrow> bool" where
  "ed25519_laws ed \<longleftrightarrow>
     (\<forall>k m. length (ed_public ed k) = 32 \<and> length (ed_sign ed k m) = 64 \<and>
            ed_verify ed (ed_public ed k) m (ed_sign ed k m) = Inr True)"

definition signer_known :: "'k ed25519 \<Rightarrow> key_table \<Rightarrow> 'k audit_signer \<Rightarrow> string \<Rightarrow> bool" where
  "signer_known ed keys s kid \<longleftrightarrow> verifying s = ed_public ed (signing s) \<and> bt_get kid keys = Some (verifying_hex s)"

text \<open>A signer seals at will, and is replaced by another that continues the chain.\<close>

inductive anchor_life ::
  "'k ed25519 \<Rightarrow> (string \<Rightarrow> string) \<Rightarrow> key_table \<Rightarrow> audit_anchor list \<Rightarrow> 'k anchor_chain_builder \<Rightarrow> bool"
  for ed blake3 keys where
  life_new: "signer_known ed keys s kid \<Longrightarrow> anchor_life ed blake3 keys [] (anchor_builder_new s kid eng ses)"
| life_seal: "anchor_life ed blake3 keys as b \<Longrightarrow> seal ed blake3 fact_hi head b = Inr (a, b') \<Longrightarrow>
    anchor_life ed blake3 keys (as @ [a]) b'"
| life_rotate: "anchor_life ed blake3 keys as b \<Longrightarrow> as \<noteq> [] \<Longrightarrow> signer_known ed keys s kid \<Longrightarrow>
    anchor_life ed blake3 keys as
      (new_with_prev s kid eng ses (anchor_hash (last as)) (seq (last as) + 1) (hi (fact_range (last as))))"

definition builder_at :: "'k ed25519 \<Rightarrow> key_table \<Rightarrow> audit_anchor list \<Rightarrow> 'k anchor_chain_builder \<Rightarrow> bool" where
  "builder_at ed keys as b \<longleftrightarrow>
     signer_known ed keys (b_signer b) (b_key_id b) \<and> prev_anchor_hash b = end_hash ANCHOR_GENESIS as \<and>
     last_seq b = word_of_nat (length as) \<and> last_fact_hi b = end_hi 0 as"

lemma sealed_signature:
  assumes "ed25519_laws ed" "signer_known ed keys (b_signer b) (b_key_id b)" "seal ed blake3 fact_hi head b = Inr (a, b')"
  shows "bt_get (key_id a) keys = Some (verifying_hex (b_signer b)) \<and>
         verify_anchor_signature ed (verifying_hex (b_signer b)) a = Inr ()"
proof -
  let ?p = "signature_payload_v2 (proto_of a)" and ?k = "signing (b_signer b)"
  have a: "signature a = hex_encode (ed_sign ed ?k ?p)" "key_id a = b_key_id b"
    using assms(3) by (auto simp: seal_def Let_def compute_anchor_hash_def signature_bytes_def proto_of_def result_simps)
  have "length (ed_public ed ?k) = 32" "length (ed_sign ed ?k ?p) = 64"
    "ed_verify ed (ed_public ed ?k) ?p (ed_sign ed ?k ?p) = Inr True"
    using assms(1) by (simp_all add: ed25519_laws_def)
  then show ?thesis
    using a assms(2) by (simp add: signer_known_def verify_anchor_signature_def verify_signature_def verifying_hex_def result_simps)
qed

lemma seal_step:
  assumes "ed25519_laws ed" "builder_at ed keys as b" "seal ed blake3 fact_hi head b = Inr (a, b')"
  shows "anchor_ok ed blake3 keys (length as) (end_hash ANCHOR_GENESIS as) (end_hi 0 as) a"
    and "builder_at ed keys (as @ [a]) b'"
proof -
  have s: "signer_known ed keys (b_signer b) (b_key_id b)" using assms(2) by (simp add: builder_at_def)
  show "anchor_ok ed blake3 keys (length as) (end_hash ANCHOR_GENESIS as) (end_hi 0 as) a"
    using assms(2,3) sealed_signature [OF assms(1) s assms(3)]
    by (auto simp: anchor_ok_def builder_at_def seal_def Let_def compute_anchor_hash_def proto_of_def result_simps)
  show "builder_at ed keys (as @ [a]) b'"
    using assms(2,3) by (auto simp: builder_at_def seal_def Let_def compute_anchor_hash_def result_simps)
qed

lemma anchor_life_ok:
  assumes "ed25519_laws ed"
  shows "anchor_life ed blake3 keys as b \<Longrightarrow>
    verify_anchor_chain ed blake3 as keys = Inr () \<and> builder_at ed keys as b"
proof (induction rule: anchor_life.induct)
  case (life_new s kid eng ses)
  then show ?case by (simp add: verify_anchor_chain_def builder_at_def anchor_builder_new_def)
next
  case (life_seal as b fact_hi head a b')
  then show ?case using seal_step [OF assms] by (auto simp: verify_anchor_chain_def verify_snoc)
next
  case (life_rotate as b s kid eng ses)
  then obtain bs a where as: "as = bs @ [a]" by (cases as rule: rev_cases) auto
  with life_rotate have "seq a = word_of_nat (length bs)"
    by (auto simp: verify_anchor_chain_def verify_snoc anchor_ok_def)
  with as life_rotate show ?case by (simp add: builder_at_def new_with_prev_def)
qed

section \<open>What the hashes bind\<close>

text \<open>The texts a verifier hashes along a chain.\<close>

fun anchor_inputs :: "string \<Rightarrow> audit_anchor list \<Rightarrow> string list" where
  "anchor_inputs prev [] = []"
| "anchor_inputs prev (a # as) = join_on (CHR ''|'') (prev # proto_fields (proto_of a)) # anchor_inputs (anchor_hash a) as"

lemma anchor_inputs_snoc:
  "anchor_inputs prev (as @ [a]) = anchor_inputs prev as @ [join_on (CHR ''|'') (end_hash prev as # proto_fields (proto_of a))]"
  by (induction as arbitrary: prev) simp_all

lemma verified_end_hash:
  assumes "\<And>x. CHR ''|'' \<notin> set (blake3 x)" "verify_anchors_from ed blake3 keys i ANCHOR_GENESIS l as = Inr ()"
  shows "CHR ''|'' \<notin> set (end_hash ANCHOR_GENESIS as)"
  using assms by (cases as rule: rev_cases) (auto simp: verify_snoc anchor_ok_def ANCHOR_GENESIS_def)

lemma chains_agree:
  assumes hex: "\<And>x. CHR ''|'' \<notin> set (blake3 x)"
  shows "verify_anchor_chain ed blake3 as keys = Inr () \<Longrightarrow> verify_anchor_chain ed blake3 bs keys' = Inr () \<Longrightarrow>
    length as = length bs \<Longrightarrow> end_hash ANCHOR_GENESIS as = end_hash ANCHOR_GENESIS bs \<Longrightarrow>
    list_all (plain_proto \<circ> proto_of) as \<Longrightarrow> list_all (plain_proto \<circ> proto_of) bs \<Longrightarrow>
    map proto_of as = map proto_of bs \<or> collision blake3 (anchor_inputs ANCHOR_GENESIS as) (anchor_inputs ANCHOR_GENESIS bs)"
proof (induction as arbitrary: bs rule: rev_induct)
  case (snoc a as)
  then obtain bs' b where bs: "bs = bs' @ [b]" by (cases bs rule: rev_cases) auto
  let ?x = "join_on (CHR ''|'') (end_hash ANCHOR_GENESIS as # proto_fields (proto_of a))"
  let ?y = "join_on (CHR ''|'') (end_hash ANCHOR_GENESIS bs' # proto_fields (proto_of b))"
  have v: "verify_anchor_chain ed blake3 as keys = Inr ()" "verify_anchor_chain ed blake3 bs' keys' = Inr ()"
    and h: "blake3 ?x = blake3 ?y"
    using snoc.prems bs by (auto simp: verify_anchor_chain_def verify_snoc anchor_ok_def)
  show ?case
  proof (cases "?x = ?y")
    case False
    then show ?thesis using h by (auto simp: bs anchor_inputs_snoc collision_def)
  next
    case True
    then have eq: "end_hash ANCHOR_GENESIS as = end_hash ANCHOR_GENESIS bs' \<and> proto_of a = proto_of b"
      using v snoc.prems bs by (intro anchor_text_inject verified_end_hash [OF hex]) (auto simp: verify_anchor_chain_def)
    then show ?thesis
      using snoc.IH [of bs'] v snoc.prems bs by (auto simp: anchor_inputs_snoc collision_def)
  qed
qed simp

lemma binding_covered:
  "binding_loop blake3 ser facts c as = Inr n \<Longrightarrow> n = end_hi c as"
  by (induction as arbitrary: c) (auto simp: Let_def split: if_splits)

lemma binding_head:
  "binding_loop blake3 ser facts c as = Inr n \<Longrightarrow> a \<in> set as \<Longrightarrow>
     hi (fact_range a) \<le> length facts \<and> compute_chain_hash blake3 ser (take (hi (fact_range a)) facts) = chain_head a"
  by (induction as arbitrary: c) (auto simp: Let_def split: if_splits)

section \<open>Splicing\<close>

text \<open>Recomputing the unkeyed hashes of a chain after another one, with the signatures as they are.\<close>

fun relink :: "(string \<Rightarrow> string) \<Rightarrow> string \<Rightarrow> audit_anchor list \<Rightarrow> audit_anchor list" where
  "relink blake3 prev [] = []"
| "relink blake3 prev (a # as) =
     (let h = blake3 (join_on (CHR ''|'') (prev # proto_fields (proto_of a))) in
      a\<lparr>anchor_hash := h\<rparr> # relink blake3 h as)"

lemma proto_of_hash [simp]: "proto_of (a\<lparr>anchor_hash := h\<rparr>) = proto_of a"
  by (simp add: proto_of_def)

lemma signature_hash [simp]:
  "verify_anchor_signature ed key (a\<lparr>anchor_hash := h\<rparr>) = verify_anchor_signature ed key a"
  by (simp add: verify_anchor_signature_def cong: if_cong)

lemma relink_verifies:
  "verify_anchors_from ed blake3 keys i prev l as = Inr () \<Longrightarrow>
   verify_anchors_from ed blake3 keys i prev' l (relink blake3 prev' as) = Inr ()"
  by (induction as arbitrary: i prev l prev') (auto simp: verify_Cons anchor_ok_def Let_def)

lemma relink_keeps:
  "map proto_of (relink blake3 prev as) = map proto_of as" "map signature (relink blake3 prev as) = map signature as"
  by (induction as arbitrary: prev) (auto simp: Let_def)

lemma verify_drop:
  assumes "verify_anchors_from ed blake3 keys i prev l as = Inr ()" "n < length as" "lo (fact_range (as ! n)) = l'"
  shows "\<exists>p. verify_anchors_from ed blake3 keys (i + n) p l' (drop n as) = Inr ()"
proof -
  have "verify_anchors_from ed blake3 keys i prev l (take n as @ drop n as) = Inr ()" using assms(1) by simp
  then have "verify_anchors_from ed blake3 keys (i + n) (end_hash prev (take n as)) (end_hi l (take n as)) (drop n as) = Inr ()"
    using assms(2) by (simp only: verify_anchors_append) (auto simp: and_then_Inr_iff min_absorb2)
  moreover from this have "lo (fact_range (as ! n)) = end_hi l (take n as)"
    using assms(2) by (simp add: Cons_nth_drop_Suc [symmetric] verify_Cons anchor_ok_def)
  ultimately show ?thesis using assms(3) by auto
qed

section \<open>Properties\<close>

text \<open>
  C17: the chain an honest signer builds is accepted.  Whatever it seals and however often the signing
  key is replaced by another key of the table, with the new builder continuing from the last anchor, the
  anchors verify: sequence numbers, contiguous fact ranges, hash links and signatures.
\<close>

theorem sealed_chain_verifies:
  assumes "ed25519_laws ed" "anchor_life ed blake3 keys anchors b"
  shows "verify_anchor_chain ed blake3 anchors keys = Inr ()"
  using anchor_life_ok [OF assms] by simp

definition sample_ed :: "byte list ed25519" where
  "sample_ed = \<lparr>ed_key = \<lambda>seed. seed, ed_public = \<lambda>k. replicate 32 1,
     ed_sign = \<lambda>k m. replicate 64 2, ed_verify = \<lambda>pk m sig. Inr (sig = replicate 64 2)\<rparr>"

definition sample_signer :: "byte list audit_signer" where
  "sample_signer = from_bytes sample_ed (replicate 32 7)"

definition sample_keys :: key_table where
  "sample_keys = [(''k'', hex_encode (replicate 32 1))]"

lemma sample_ed_laws: "ed25519_laws sample_ed"
  by (simp add: ed25519_laws_def sample_ed_def)

lemma sample_life_new:
  "anchor_life sample_ed blake3 sample_keys [] (anchor_builder_new sample_signer ''k'' ''e'' ''s'')"
  by (rule life_new) (simp add: signer_known_def sample_signer_def from_bytes_def verifying_hex_def sample_ed_def sample_keys_def)

definition sample_anchor :: "(string \<Rightarrow> string) \<Rightarrow> audit_anchor" where
  "sample_anchor blake3 = \<lparr>seq = 0, session_id = ''s'', fact_range = \<lparr>lo = 0, hi = 1\<rparr>, chain_head = ''h'',
     key_id = ''k'', engine_id = ''e'', logical_time = 0,
     anchor_hash = blake3 ''anchor-genesis|s|0|0|1|h|k|e|0'', signature = hex_encode (replicate 64 2)\<rparr>"

lemma sample_life_one: "\<exists>b. anchor_life sample_ed blake3 sample_keys [sample_anchor blake3] b"
proof -
  have d: "dec_nat 0 = ''0''" "dec_nat 1 = ''1''" by code_simp+
  have "\<exists>b. seal sample_ed blake3 1 ''h'' (anchor_builder_new sample_signer ''k'' ''e'' ''s'') =
      Inr (sample_anchor blake3, b)"
    by (simp add: seal_def anchor_builder_new_def Let_def compute_anchor_hash_def result_simps proto_fields_def
        sample_anchor_def ANCHOR_GENESIS_def signature_bytes_def sample_ed_def d d(2) [unfolded One_nat_def])
  then show ?thesis using life_seal [OF sample_life_new, of blake3] by fastforce
qed

theorem sealed_chain_verifies_witness:
  "verify_anchor_chain sample_ed (\<lambda>s. s) [sample_anchor (\<lambda>s. s)] sample_keys = Inr ()"
  using sample_life_one [of "\<lambda>s. s"] sealed_chain_verifies [OF sample_ed_laws] by blast



text \<open>
  Facts under an anchor cannot be exchanged.  When the same anchors bind two sequences of facts, both
  are covered up to the same point and agree on every fact before it, in order and content, or the two
  recomputations of a chain head hash two different strings to the same value.
\<close>

theorem binding_fixes_facts:
  assumes blake3_len: "\<And>x. length (blake3 x) = 64" and ser_inj: "inj ser"
    and "list_all canonical_fact fs" "list_all canonical_fact gs" and ne: "anchors \<noteq> []"
    and bound: "verify_binding blake3 ser fs anchors = Inr n" "verify_binding blake3 ser gs anchors = Inr m"
  shows "m = n \<and> n \<le> length fs \<and> n \<le> length gs \<and>
    (take n fs = take n gs \<or>
     collision blake3 (chain_inputs blake3 ser genesis (take n fs)) (chain_inputs blake3 ser genesis (take n gs)))"
proof -
  let ?a = "last anchors"
  have n: "n = hi (fact_range ?a)" "m = n"
    using bound ne by (auto simp: verify_binding_def end_hi_def dest: binding_covered)
  have f: "n \<le> length fs" "compute_chain_hash blake3 ser (take n fs) = chain_head ?a"
    and g: "n \<le> length gs" "compute_chain_hash blake3 ser (take n gs) = chain_head ?a"
    using binding_head [OF bound(1) [unfolded verify_binding_def], of ?a]
      binding_head [OF bound(2) [unfolded verify_binding_def], of ?a] ne n by auto
  have "take n fs = take n gs \<or>
     collision blake3 (chain_inputs blake3 ser genesis (take n fs)) (chain_inputs blake3 ser genesis (take n gs))"
    using assms(3,4) f(2) g(2)
    by (intro chain_binds_facts [OF blake3_len ser_inj]) (auto simp: list_all_iff dest: in_set_takeD)
  then show ?thesis using n f g by simp
qed

definition sample_blake3 :: "string \<Rightarrow> string" where
  "sample_blake3 s = replicate 64 (CHR ''0'')"

theorem binding_fixes_facts_witness:
  "let anchors = [(sample_anchor sample_blake3)\<lparr>chain_head := replicate 64 (CHR ''0'')\<rparr>];
       ser = (\<lambda>v :: serde. replicate (to_nat v) (CHR ''x''))
   in (1 :: nat) = 1 \<and> 1 \<le> length [Stable 1 0] \<and> 1 \<le> length [Stable 1 0, Error 2 ''e''] \<and>
     (take 1 [Stable 1 0] = take 1 [Stable 1 0, Error 2 ''e''] \<or>
      collision sample_blake3 (chain_inputs sample_blake3 ser genesis (take 1 [Stable 1 0]))
        (chain_inputs sample_blake3 ser genesis (take 1 [Stable 1 0, Error 2 ''e''])))"
  unfolding Let_def
proof (rule binding_fixes_facts)
  let ?as = "[(sample_anchor sample_blake3)\<lparr>chain_head := replicate 64 (CHR ''0'')\<rparr>]"
  let ?ser = "\<lambda>v :: serde. replicate (to_nat v) (CHR ''x'')"
  show "inj ?ser" by (rule injI) (metis length_replicate to_nat_split inj_to_nat injD)
  show "verify_binding sample_blake3 ?ser [Stable 1 0] ?as = Inr 1"
    "verify_binding sample_blake3 ?ser [Stable 1 0, Error 2 ''e''] ?as = Inr 1"
    by (simp_all add: verify_binding_def sample_anchor_def compute_chain_hash_def chain_step_def sample_blake3_def)
qed (simp_all add: sample_blake3_def)

text \<open>
  What the verifier does not exclude.  The signature of an anchor covers its own fields and not the
  hash of its predecessor, and the hash that links anchors needs no key.  So for two accepted chains over
  the same keys, any front part of one followed by the rest of the other, with the hashes recomputed and
  every signature as it was, is accepted as soon as the fact ranges meet; in particular every front part
  of a chain is accepted by itself.
\<close>

theorem anchors_can_be_spliced:
  assumes ok: "verify_anchor_chain ed blake3 as keys = Inr ()" "verify_anchor_chain ed blake3 bs keys = Inr ()"
    and n: "n \<le> length as" and seam: "n < length bs \<Longrightarrow> lo (fact_range (bs ! n)) = end_hi 0 (take n as)"
    and spliced: "cs = take n as @ relink blake3 (end_hash ANCHOR_GENESIS (take n as)) (drop n bs)"
  shows "verify_anchor_chain ed blake3 cs keys = Inr () \<and>
    map signature cs = map signature (take n as @ drop n bs) \<and> map proto_of cs = map proto_of (take n as @ drop n bs)"
proof -
  have front: "verify_anchors_from ed blake3 keys 0 ANCHOR_GENESIS 0 (take n as) = Inr ()"
  proof -
    have "verify_anchors_from ed blake3 keys 0 ANCHOR_GENESIS 0 (take n as @ drop n as) = Inr ()"
      using ok(1) by (simp add: verify_anchor_chain_def)
    then show ?thesis by (simp only: verify_anchors_append) (auto simp: and_then_Inr_iff)
  qed
  have rest: "verify_anchors_from ed blake3 keys n (end_hash ANCHOR_GENESIS (take n as)) (end_hi 0 (take n as))
      (relink blake3 (end_hash ANCHOR_GENESIS (take n as)) (drop n bs)) = Inr ()"
  proof (cases "n < length bs")
    case True
    from verify_drop [OF ok(2) [unfolded verify_anchor_chain_def] True seam [OF True]]
    show ?thesis by (auto intro: relink_verifies)
  qed simp
  show ?thesis
    using front rest n by (simp add: spliced verify_anchor_chain_def verify_anchors_append relink_keeps min_absorb2 result_simps)
qed

theorem anchors_can_be_spliced_witness:
  "verify_anchor_chain sample_ed (\<lambda>s. s) [sample_anchor (\<lambda>s. s)] sample_keys = Inr () \<and>
   map signature [sample_anchor (\<lambda>s. s)] = map signature (take 1 [sample_anchor (\<lambda>s. s)] @ drop 1 []) \<and>
   map proto_of [sample_anchor (\<lambda>s. s)] = map proto_of (take 1 [sample_anchor (\<lambda>s. s)] @ drop 1 [])"
proof (rule anchors_can_be_spliced)
  show "verify_anchor_chain sample_ed (\<lambda>s. s) [sample_anchor (\<lambda>s. s)] sample_keys = Inr ()"
    using sample_life_one [of "\<lambda>s. s"] anchor_life_ok [OF sample_ed_laws] by blast
qed (simp_all add: verify_anchor_chain_def)

end
