(* ===== verification/Auditor.thy ===== *)
theory Auditor
  imports Anchor
begin

text \<open>
  The auditor, \<open>evorule-governance/src/auditor.rs\<close>: entries with their own hash chain built from a facts
  log, the verifications, anchors and their log, loading from a write-ahead log, export and import.  The
  auditor holds a handle to the facts log that the reactor appends to, so the log is an argument of the
  operations that read it.  Parameters stand for the derived serialization of an anchor (\<open>ser_anchor\<close>,
  \<open>de_anchor\<close>), for the printer and parser of \<open>serde_json\<close>, for gzip and for what the operating system
  does with a write.  \<open>fact_hash\<close> never fails on the model's values, so the placeholder branch of
  \<open>audit_new\<close> for a hash error has no counterpart.
\<close>

section \<open>State\<close>

record audit_entry =
  ae_fact_id :: fact_id
  ae_fact_type :: string
  ae_logical_time :: u64
  ae_content_hash :: string
  ae_prev_hash :: string
  ae_cause :: "fact_id option"

datatype load_error =
    LoadIoError string
  | LoadHashError string
  | ContentHashMismatch usize fact_id string string
  | LoadChainBroken usize fact_id string string
  | ChainHashMismatch usize fact_id string string

definition load_error_at :: "usize \<Rightarrow> fact_id \<Rightarrow> string" where
  "load_error_at i fid = ''Fact['' @ dec_nat i @ ''] (id='' @ dec_nat (unat fid) @ '')''"

fun load_error_display :: "load_error \<Rightarrow> string" where
  "load_error_display (LoadIoError msg) = (''WAL '' @ utf8 [232, 175, 187, 229, 143, 150, 229, 164, 177, 232, 180, 165] @ '': '') @ msg"
| "load_error_display (LoadHashError msg) = (utf8 [229, 147, 136, 229, 184, 140, 232, 174, 161, 231, 174, 151, 229, 164, 177, 232, 180,
       165] @ '': '') @ msg"
| "load_error_display (ContentHashMismatch i fid stored recomputed) =
     load_error_at i fid @ ('' '' @
     utf8 [229, 134, 133, 229, 174, 185, 229, 147, 136, 229, 184, 140, 228, 184, 141, 229, 140,
       185, 233, 133, 141] @ '': stored='') @ stored @ '', recomputed='' @ recomputed"
| "load_error_display (LoadChainBroken i fid stored_prev expected_prev) =
     load_error_at i fid @ ('' '' @ utf8 [229, 147, 136, 229, 184, 140, 233, 147, 190, 230, 150, 173, 232, 163, 130] @
     '': stored_prev='') @ stored_prev @ '', expected_prev='' @ expected_prev"
| "load_error_display (ChainHashMismatch i fid stored recomputed) =
     load_error_at i fid @ ('' '' @
     utf8 [233, 147, 190, 229, 147, 136, 229, 184, 140, 228, 184, 141, 229, 140, 185, 233, 133,
       141] @ '': stored='') @ stored @ '', recomputed='' @ recomputed"

record 'k auditor =
  aud_clock :: logical_clock
  last_audited_version :: u64
  entries :: "audit_entry list"
  aud_last_hash :: string
  aud_index :: "(fact_id \<times> usize) list"
  aud_wal_path :: "string option"
  auto_verify :: bool
  auto_verify_threshold :: usize
  auto_verify_interval :: usize
  audit_new_count :: u64
  auto_verify_failure_count :: u64
  auto_verify_skip_count :: u64
  anchor_builder :: "'k anchor_chain_builder option"
  anchor_interval :: usize
  anchors :: "audit_anchor list"
  anchor_log :: "string list option"

text \<open>The anchor log is the list of its lines, \<open>None\<close> without a path.\<close>

definition auditor_new :: "'k auditor" where
  "auditor_new =
     \<lparr>aud_clock = clock_new, last_audited_version = 0, entries = [], aud_last_hash = genesis, aud_index = bt_new,
      aud_wal_path = None, auto_verify = False, auto_verify_threshold = 1000, auto_verify_interval = 1,
      audit_new_count = 0, auto_verify_failure_count = 0, auto_verify_skip_count = 0, anchor_builder = None,
      anchor_interval = 0, anchors = [], anchor_log = None\<rparr>"

definition set_auto_verify :: "bool \<Rightarrow> usize \<Rightarrow> usize \<Rightarrow> 'k auditor \<Rightarrow> 'k auditor" where
  "set_auto_verify on threshold interval a =
     a\<lparr>auto_verify := on, auto_verify_threshold := threshold,
       auto_verify_interval := (if interval = 0 then 1 else interval)\<rparr>"

definition new_with_auto_verify :: "bool \<Rightarrow> usize \<Rightarrow> usize \<Rightarrow> 'k auditor" where
  "new_with_auto_verify on threshold interval =
     auditor_new\<lparr>auto_verify := on, auto_verify_threshold := threshold,
       auto_verify_interval := (if interval = 0 then 1 else interval)\<rparr>"

definition with_wal_path :: "string \<Rightarrow> 'k auditor \<Rightarrow> 'k auditor" where
  "with_wal_path path a = a\<lparr>aud_wal_path := Some path\<rparr>"

fun extract_cause :: "fact \<Rightarrow> fact_id option" where
  "extract_cause (StateTransition _ cause _ _) = Some cause"
| "extract_cause (IoRequest _ cause _ _) = Some cause"
| "extract_cause (IoResponse _ request_id _ _) = Some request_id"
| "extract_cause _ = None"

definition FACT_TYPE_STATIC_TABLE :: "string list" where
  "FACT_TYPE_STATIC_TABLE =
     [''Command'', ''PayloadUpdate'', ''StateTransition'', ''IoRequest'', ''IoResponse'', ''Stable'', ''Error'', ''Unknown'']"

definition static_type :: "string \<Rightarrow> string" where
  "static_type ty = (if ty \<in> set FACT_TYPE_STATIC_TABLE then ty else ''Unknown'')"

section \<open>Verification of the chain\<close>

fun verify_entries :: "(string \<Rightarrow> string) \<Rightarrow> string \<Rightarrow> audit_entry list \<Rightarrow> bool" where
  "verify_entries blake3 prev [] = True"
| "verify_entries blake3 prev (e # es) =
     (ae_prev_hash e = prev \<and> verify_entries blake3 (chain_step blake3 (ae_prev_hash e) (ae_content_hash e)) es)"

definition verify :: "(string \<Rightarrow> string) \<Rightarrow> 'k auditor \<Rightarrow> bool" where
  "verify blake3 a = verify_entries blake3 genesis (entries a)"

fun verify_contents :: "(string \<Rightarrow> string) \<Rightarrow> (serde \<Rightarrow> string) \<Rightarrow> nat \<Rightarrow> (audit_entry \<times> fact) list \<Rightarrow> load_error + unit" where
  "verify_contents blake3 ser i [] = Inr ()"
| "verify_contents blake3 ser i ((e, f) # r) =
     (let recomputed = fact_hash blake3 ser f in
      if recomputed \<noteq> ae_content_hash e
      then Inl (ContentHashMismatch i (ae_fact_id e) (ae_content_hash e) recomputed)
      else verify_contents blake3 ser (i + 1) r)"

definition verify_deep :: "(string \<Rightarrow> string) \<Rightarrow> (serde \<Rightarrow> string) \<Rightarrow> fact list \<Rightarrow> 'k auditor \<Rightarrow> load_error + unit" where
  "verify_deep blake3 ser facts a =
     (if length facts \<noteq> length (entries a)
      then Inl (LoadChainBroken USIZE_MAX 0 [] (''facts.len()='' @ dec_nat (length facts)
             @ '' != entries.len()='' @ dec_nat (length (entries a))))
      else if \<not> verify blake3 a then Inl (LoadChainBroken 0 0 [] ''verify() failed'')
      else verify_contents blake3 ser 0 (zip (entries a) facts))"

text \<open>\<open>should_auto_verify\<close> counts what it skips.\<close>

definition should_auto_verify :: "'k auditor \<Rightarrow> bool \<times> 'k auditor" where
  "should_auto_verify a =
     (let skip = a\<lparr>auto_verify_skip_count := auto_verify_skip_count a + 1\<rparr> in
      if \<not> auto_verify a \<or> entries a = [] then (False, a)
      else if auto_verify_threshold a > 0 \<and> length (entries a) > auto_verify_threshold a then (False, skip)
      else if auto_verify_interval a > 1 \<and> audit_new_count a mod word_of_nat (auto_verify_interval a) \<noteq> 0
      then (False, skip)
      else (True, a))"

definition auto_verify_step :: "(string \<Rightarrow> string) \<Rightarrow> 'k auditor \<Rightarrow> 'k auditor" where
  "auto_verify_step blake3 a =
     (case should_auto_verify a of
        (False, a') \<Rightarrow> a'
      | (True, a') \<Rightarrow>
          if verify blake3 a' then a' else a'\<lparr>auto_verify_failure_count := auto_verify_failure_count a' + 1\<rparr>)"

section \<open>Anchors\<close>

definition persist_anchor :: "(audit_anchor \<Rightarrow> string) \<Rightarrow> bool \<Rightarrow> audit_anchor \<Rightarrow> 'k auditor \<Rightarrow> 'k auditor" where
  "persist_anchor ser_anchor written an a =
     (case anchor_log a of
        None \<Rightarrow> a
      | Some ls \<Rightarrow> if written then a\<lparr>anchor_log := Some (ls @ [ser_anchor an])\<rparr> else a)"

definition record_anchor ::
  "(audit_anchor \<Rightarrow> string) \<Rightarrow> bool \<Rightarrow> audit_anchor \<Rightarrow> 'k anchor_chain_builder \<Rightarrow> 'k auditor \<Rightarrow> 'k auditor" where
  "record_anchor ser_anchor written an b a =
     (let a' = persist_anchor ser_anchor written an (a\<lparr>anchor_builder := Some b\<rparr>) in
      a'\<lparr>anchors := anchors a' @ [an]\<rparr>)"

definition seal_anchor_now ::
  "'k ed25519 \<Rightarrow> (string \<Rightarrow> string) \<Rightarrow> (audit_anchor \<Rightarrow> string) \<Rightarrow> bool \<Rightarrow> 'k auditor \<Rightarrow>
   (anchor_error + audit_anchor) \<times> 'k auditor" where
  "seal_anchor_now ed blake3 ser_anchor written a =
     (case anchor_builder a of
        None \<Rightarrow> (Inl (AnchorHash (utf8 [233, 148, 154, 231, 130, 185, 233, 147, 190, 230, 156, 170, 233, 133, 141, 231, 189,
       174, 239, 188, 136, 229, 133, 136, 232, 176, 131, 231, 148, 168] @ '' with_anchor'' @
     utf8 [239, 188, 137])), a)
      | Some b \<Rightarrow>
          (case seal ed blake3 (length (entries a)) (aud_last_hash a) b of
             Inl e \<Rightarrow> (Inl e, a)
           | Inr (an, b') \<Rightarrow> (Inr an, record_anchor ser_anchor written an b' a)))"

text \<open>The automatic anchor at the end of \<open>audit_new\<close>.\<close>

definition auto_anchor ::
  "'k ed25519 \<Rightarrow> (string \<Rightarrow> string) \<Rightarrow> (audit_anchor \<Rightarrow> string) \<Rightarrow> bool \<Rightarrow> 'k auditor \<Rightarrow> 'k auditor" where
  "auto_anchor ed blake3 ser_anchor written a =
     (case anchor_builder a of
        None \<Rightarrow> a
      | Some b \<Rightarrow>
          (let fresh = length (entries a) - next_fact_lo b in
           if anchor_interval a > 0 \<and> fresh \<ge> anchor_interval a then
             (case seal ed blake3 (length (entries a)) (aud_last_hash a) b of
                Inl e \<Rightarrow> a
              | Inr (an, b') \<Rightarrow> record_anchor ser_anchor written an b' a)
           else a))"

text \<open>Lines of the anchor log that do not parse are skipped.\<close>

definition load_anchor_log :: "(string \<Rightarrow> string + audit_anchor) \<Rightarrow> string list \<Rightarrow> audit_anchor list" where
  "load_anchor_log de_anchor lines =
     concat (map (\<lambda>line. if trim line = [] then []
                          else case de_anchor line of Inr an \<Rightarrow> [an] | Inl _ \<Rightarrow> []) lines)"

text \<open>
  \<open>with_anchor\<close> and \<open>with_anchor_persisted\<close>: the log file is \<open>None\<close> without a path, \<open>Some (Inl e)\<close> when it
  cannot be read.
\<close>

definition with_anchor_impl ::
  "(string \<Rightarrow> string + audit_anchor) \<Rightarrow> 'k audit_signer \<Rightarrow> string \<Rightarrow> string \<Rightarrow> string \<Rightarrow> usize \<Rightarrow>
   (string + string list) option \<Rightarrow> 'k auditor \<Rightarrow> 'k auditor" where
  "with_anchor_impl de_anchor s kid eng ses interval file a =
     (let a0 = a\<lparr>anchor_builder := Some (anchor_builder_new s kid eng ses), anchor_interval := interval\<rparr> in
      case file of
        None \<Rightarrow> a0\<lparr>anchor_log := None\<rparr>
      | Some (Inl e) \<Rightarrow> a0\<lparr>anchor_log := Some []\<rparr>
      | Some (Inr lines) \<Rightarrow>
          (let restored = load_anchor_log de_anchor lines;
               a1 = a0\<lparr>anchors := restored, anchor_log := Some lines\<rparr> in
           if restored = [] then a1
           else a1\<lparr>anchor_builder := Some (new_with_prev s kid eng ses (anchor_hash (last restored))
                     (seq (last restored) + 1) (hi (fact_range (last restored))))\<rparr>))"

fun entry_heads :: "(string \<Rightarrow> string) \<Rightarrow> audit_entry list \<Rightarrow> string list" where
  "entry_heads blake3 [] = []"
| "entry_heads blake3 (e # es) = chain_step blake3 (ae_prev_hash e) (ae_content_hash e) # entry_heads blake3 es"

definition anchor_beyond :: "audit_anchor \<Rightarrow> nat \<Rightarrow> string" where
  "anchor_beyond an n =
     (utf8 [233, 148, 154, 231, 130, 185] @ ''['') @ dec_nat (unat (seq an)) @ ''] fact_hi='' @ dec_nat (hi (fact_range an)) @ ('' '' @
     utf8 [232, 182, 133, 229, 135, 186, 229, 183, 178, 229, 174, 161, 232, 174, 161, 230, 157,
       161, 231, 155, 174, 230, 149, 176] @ '' '')
     @ dec_nat n @ (utf8 [239, 188, 136, 233, 148, 154, 231, 130, 185, 228, 184, 142, 229, 174, 161, 232, 174,
       161, 232, 191, 155, 229, 186, 166, 228, 184, 141, 231, 172, 166, 239, 188, 137])"

text \<open>
  The message shows the first 16 bytes of both hashes; the code panics here when byte 16 of a stored
  \<open>chain_head\<close> is inside a character, which no hexadecimal hash has.
\<close>

definition anchor_unbound :: "audit_anchor \<Rightarrow> string \<Rightarrow> string" where
  "anchor_unbound an expect =
     (utf8 [233, 148, 154, 231, 130, 185] @ ''['') @ dec_nat (unat (seq an)) @ (''] '' @
     utf8 [233, 147, 190, 229, 164, 180, 231, 187, 145, 229, 174, 154, 229, 164, 177, 232, 180,
       165] @ '': '' @ utf8 [233, 148, 154, 231, 130, 185, 229, 163, 176, 231, 167, 176] @ '' '') @ take 16 (chain_head an)
     @ (utf8 [226, 128, 166] @ '' '' @ utf8 [233, 135, 141, 231, 174, 151] @ '' '') @ take 16 expect @ (utf8 [226, 128, 166, 239, 188, 136, 228, 186, 139, 229, 174, 158, 233, 147, 190, 232, 162,
       171, 231, 175, 161, 230, 148, 185] @ ''/'' @
     utf8 [230, 155, 191, 230, 141, 162, 239, 188, 137])"

fun check_heads :: "string list \<Rightarrow> nat \<Rightarrow> audit_anchor list \<Rightarrow> string + unit" where
  "check_heads heads n [] = Inr ()"
| "check_heads heads n (an # ans) =
     and_then (ok_or (anchor_beyond an n) (list_get heads (hi (fact_range an)))) (\<lambda>expect.
     if expect \<noteq> chain_head an then Inl (anchor_unbound an expect) else check_heads heads n ans)"

definition verify_anchors :: "'k ed25519 \<Rightarrow> (string \<Rightarrow> string) \<Rightarrow> key_table \<Rightarrow> 'k auditor \<Rightarrow> string + unit" where
  "verify_anchors ed blake3 keys a =
     and_then (map_err anchor_error_display (verify_anchor_chain ed blake3 (anchors a) keys)) (\<lambda>_.
     check_heads (genesis # entry_heads blake3 (entries a)) (length (entries a)) (anchors a))"

section \<open>Auditing new facts\<close>

definition entry_of :: "(string \<Rightarrow> string) \<Rightarrow> (serde \<Rightarrow> string) \<Rightarrow> u64 \<Rightarrow> string \<Rightarrow> fact \<Rightarrow> audit_entry" where
  "entry_of blake3 ser time prev f =
     \<lparr>ae_fact_id = fact_id_of f, ae_fact_type = type_name f, ae_logical_time = time,
      ae_content_hash = fact_hash blake3 ser f, ae_prev_hash = prev, ae_cause = extract_cause f\<rparr>"

fun audit_facts :: "(string \<Rightarrow> string) \<Rightarrow> (serde \<Rightarrow> string) \<Rightarrow> usize \<Rightarrow> fact list \<Rightarrow> 'k auditor \<Rightarrow> 'k auditor" where
  "audit_facts blake3 ser i [] a = a"
| "audit_facts blake3 ser i (f # fs) a =
     (let (time, c) = tick (aud_clock a);
          e = entry_of blake3 ser time (aud_last_hash a) f in
      audit_facts blake3 ser (i + 1) fs
        (a\<lparr>aud_clock := c, aud_last_hash := chain_step blake3 (aud_last_hash a) (ae_content_hash e),
          aud_index := bt_put (fact_id_of f) i (aud_index a), entries := entries a @ [e]\<rparr>))"

definition audit_new ::
  "'k ed25519 \<Rightarrow> (string \<Rightarrow> string) \<Rightarrow> (serde \<Rightarrow> string) \<Rightarrow> (audit_anchor \<Rightarrow> string) \<Rightarrow> bool \<Rightarrow>
   's facts_log \<Rightarrow> 'k auditor \<Rightarrow> nat \<times> 'k auditor" where
  "audit_new ed blake3 ser ser_anchor written l a =
     (let a0 = a\<lparr>audit_new_count := audit_new_count a + 1\<rparr>;
          history_len = length (history l);
          start = length (entries a0) in
      if start \<ge> history_len then (0, a0\<lparr>last_audited_version := version l\<rparr>)
      else
        (let fs = map snd (fst (for_each_fact_from start l));
             a1 = (audit_facts blake3 ser start fs a0)\<lparr>last_audited_version := version l\<rparr> in
         (history_len - start, auto_verify_step blake3 (auto_anchor ed blake3 ser_anchor written a1))))"

section \<open>Causes\<close>

text \<open>
  \<open>causal_chain\<close>: the loop follows causes until there is none, or an identifier has no entry; it does not
  end on a cycle.  An index out of range, on which the code panics, is \<open>Inl\<close>.
\<close>

partial_function (option) causal_loop ::
  "(fact_id \<times> usize) list \<Rightarrow> audit_entry list \<Rightarrow> fact_id option \<Rightarrow> audit_entry list \<Rightarrow> (usize + audit_entry list) option" where
  "causal_loop ix es current chain =
     (case current of
        None \<Rightarrow> Some (Inr chain)
      | Some cur_id \<Rightarrow>
          (case bt_get cur_id ix of
             None \<Rightarrow> Some (Inr chain)
           | Some i \<Rightarrow>
               (case list_get es i of
                  None \<Rightarrow> Some (Inl i)
                | Some e \<Rightarrow> causal_loop ix es (ae_cause e) (chain @ [e]))))"

definition causal_chain :: "fact_id \<Rightarrow> 'k auditor \<Rightarrow> (usize + audit_entry list) option" where
  "causal_chain fid a = causal_loop (aud_index a) (entries a) (Some fid) []"

section \<open>Loading from a write-ahead log\<close>

definition load_checks :: "(string \<Rightarrow> string) \<Rightarrow> (serde \<Rightarrow> string) \<Rightarrow> usize \<Rightarrow> string \<Rightarrow> wal_record \<Rightarrow> load_error option" where
  "load_checks blake3 ser idx prev r =
     (let f = wal_fact r; fid = fact_id_of f; recomputed = fact_hash blake3 ser f;
          content = unwrap_or recomputed (wal_content_hash r);
          chain = chain_step blake3 prev content in
      if wal_content_hash r \<noteq> None \<and> wal_content_hash r \<noteq> Some recomputed
      then Some (ContentHashMismatch idx fid (the (wal_content_hash r)) recomputed)
      else if wal_prev_hash r \<noteq> None \<and> wal_prev_hash r \<noteq> Some prev
      then Some (LoadChainBroken idx fid (the (wal_prev_hash r)) prev)
      else if wal_chain_hash r \<noteq> None \<and> wal_chain_hash r \<noteq> Some chain
      then Some (ChainHashMismatch idx fid (the (wal_chain_hash r)) chain)
      else None)"

definition loaded_entry :: "(string \<Rightarrow> string) \<Rightarrow> (serde \<Rightarrow> string) \<Rightarrow> usize \<Rightarrow> wal_record \<Rightarrow> audit_entry" where
  "loaded_entry blake3 ser idx r =
     (let f = wal_fact r in
      \<lparr>ae_fact_id = fact_id_of f, ae_fact_type = static_type (type_name f), ae_logical_time = word_of_nat idx + 1,
       ae_content_hash = unwrap_or (fact_hash blake3 ser f) (wal_content_hash r),
       ae_prev_hash = unwrap_or genesis (wal_prev_hash r), ae_cause = extract_cause f\<rparr>)"

text \<open>The entries, the index and the recomputed chain, or the first error with what was built before it.\<close>

fun load_loop ::
  "(string \<Rightarrow> string) \<Rightarrow> (serde \<Rightarrow> string) \<Rightarrow> usize \<Rightarrow> string \<Rightarrow> wal_record list \<Rightarrow>
   audit_entry list \<Rightarrow> (fact_id \<times> usize) list \<Rightarrow>
   (load_error option \<times> string) \<times> audit_entry list \<times> (fact_id \<times> usize) list" where
  "load_loop blake3 ser idx prev [] es ix = ((None, prev), es, ix)"
| "load_loop blake3 ser idx prev (r # rs) es ix =
     (case load_checks blake3 ser idx prev r of
        Some e \<Rightarrow> ((Some e, prev), es, ix)
      | None \<Rightarrow>
          load_loop blake3 ser (idx + 1)
            (chain_step blake3 prev (unwrap_or (fact_hash blake3 ser (wal_fact r)) (wal_content_hash r))) rs
            (es @ [loaded_entry blake3 ser idx r]) (bt_put (fact_id_of (wal_fact r)) idx ix))"

definition load_from_tier1_wal ::
  "(string \<Rightarrow> string) \<Rightarrow> (serde \<Rightarrow> string) \<Rightarrow> (string \<Rightarrow> string + serde) \<Rightarrow> disk \<Rightarrow> 'k auditor \<Rightarrow>
   (load_error + unit) \<times> 'k auditor" where
  "load_from_tier1_wal blake3 ser de d a =
     (case read_wal_with_hash de d of
        Inl e \<Rightarrow> (Inl (LoadIoError (wal_error_display e)), a)
      | Inr records \<Rightarrow>
          (let ((err, prev), es, ix) = load_loop blake3 ser 0 genesis records [] bt_new;
               a0 = a\<lparr>entries := es, aud_index := ix, aud_last_hash := genesis, last_audited_version := 0,
                      audit_new_count := 0\<rparr> in
           case err of
             Some e \<Rightarrow> (Inl e, a0)
           | None \<Rightarrow>
               (Inr (), a0\<lparr>aud_last_hash :=
                   (if list_ex has_hash records then unwrap_or prev (wal_chain_hash (last records)) else prev),
                 aud_clock := advance_to (word_of_nat (length records)) (aud_clock a0),
                 last_audited_version := word_of_nat (length records)\<rparr>)))"

section \<open>Export and import\<close>

definition entry_json :: "audit_entry \<Rightarrow> serde" where
  "entry_json e = serde_map
     [(''fact_id'', num (ae_fact_id e)), (''fact_type'', SString (ae_fact_type e)),
      (''logical_time'', num (ae_logical_time e)), (''content_hash'', SString (ae_content_hash e)),
      (''prev_hash'', SString (ae_prev_hash e)),
      (''cause'', case ae_cause e of None \<Rightarrow> SNull | Some c \<Rightarrow> num c)]"

definition entry_to_json_line :: "(serde \<Rightarrow> string) \<Rightarrow> audit_entry \<Rightarrow> string" where
  "entry_to_json_line ser e = ser (entry_json e)"

definition report_json :: "'k auditor \<Rightarrow> serde" where
  "report_json a = serde_map
     [(''last_audited_version'', num (last_audited_version a)),
      (''entry_count'', num (word_of_nat (length (entries a)))), (''last_hash'', SString (aud_last_hash a)),
      (''entries'', SArray (map entry_json (entries a)))]"

definition report :: "(serde \<Rightarrow> string) \<Rightarrow> 'k auditor \<Rightarrow> string" where
  "report pretty a = pretty (report_json a)"

definition export_json :: "'k auditor \<Rightarrow> serde" where
  "export_json a = serde_map
     [(''version'', SString ''1.0''), (''last_hash'', SString (aud_last_hash a)),
      (''last_audited_version'', num (last_audited_version a)),
      (''entry_count'', num (word_of_nat (length (entries a)))),
      (''entries'', SArray (map entry_json (entries a)))]"

definition export :: "(serde \<Rightarrow> string) \<Rightarrow> 'k auditor \<Rightarrow> string" where
  "export pretty a = pretty (export_json a)"

definition get_as :: "(serde \<Rightarrow> 'a option) \<Rightarrow> string \<Rightarrow> serde \<Rightarrow> 'a option" where
  "get_as conv k v = Option.bind (s_get k v) conv"

definition read_entry :: "serde \<Rightarrow> u64 \<Rightarrow> string \<Rightarrow> audit_entry" where
  "read_entry v fid ty =
     \<lparr>ae_fact_id = fid, ae_fact_type = static_type ty,
      ae_logical_time = unwrap_or 0 (get_as s_as_u64 ''logical_time'' v),
      ae_content_hash = unwrap_or [] (get_as s_as_str ''content_hash'' v),
      ae_prev_hash = unwrap_or [] (get_as s_as_str ''prev_hash'' v),
      ae_cause = get_as s_as_u64 ''cause'' v\<rparr>"

fun import_entries ::
  "nat \<Rightarrow> serde list \<Rightarrow> audit_entry list \<Rightarrow> (fact_id \<times> usize) list \<Rightarrow>
   string option \<times> audit_entry list \<times> (fact_id \<times> usize) list" where
  "import_entries idx [] es ix = (None, es, ix)"
| "import_entries idx (v # vs) es ix =
     (case get_as s_as_u64 ''fact_id'' v of
        None \<Rightarrow> (Some (''Entry '' @ dec_nat idx @ '' missing '' @ squote ''fact_id''), es, ix)
      | Some fid \<Rightarrow>
          (case get_as s_as_str ''fact_type'' v of
             None \<Rightarrow> (Some (''Entry '' @ dec_nat idx @ '' missing '' @ squote ''fact_type''), es, ix)
           | Some ty \<Rightarrow> import_entries (idx + 1) vs (es @ [read_entry v fid ty]) (bt_put fid idx ix)))"

definition max_time :: "audit_entry list \<Rightarrow> u64" where
  "max_time es = foldl max 0 (map ae_logical_time es)"

text \<open>The part of \<open>import\<close> after the checks of the outer object.\<close>

definition import_chain :: "serde \<Rightarrow> serde list \<Rightarrow> 'k auditor \<Rightarrow> (string + unit) \<times> 'k auditor" where
  "import_chain parsed arr a =
     (let (err, es, ix) = import_entries 0 arr [] bt_new;
          a0 = a\<lparr>entries := es, aud_index := ix, aud_last_hash := genesis, last_audited_version := 0,
                 audit_new_count := 0\<rparr> in
      case err of
        Some e \<Rightarrow> (Inl e, a0)
      | None \<Rightarrow>
          (Inr (), a0\<lparr>aud_last_hash := unwrap_or genesis (get_as s_as_str ''last_hash'' parsed),
             last_audited_version := unwrap_or 0 (get_as s_as_u64 ''last_audited_version'' parsed),
             aud_clock := advance_to (max_time es) (aud_clock a0)\<rparr>))"

definition import_audit :: "(string \<Rightarrow> string + serde) \<Rightarrow> string \<Rightarrow> 'k auditor \<Rightarrow> (string + unit) \<times> 'k auditor" where
  "import_audit de json_str a =
     (case de json_str of
        Inl e \<Rightarrow> (Inl (''JSON parse error: '' @ e), a)
      | Inr parsed \<Rightarrow>
          (case get_as s_as_str ''version'' parsed of
             None \<Rightarrow> (Inl (''Missing '' @ squote ''version'' @ '' field''), a)
           | Some ver \<Rightarrow>
               if ver \<noteq> ''1.0'' then (Inl (''Unsupported version: '' @ ver @ '' (expected 1.0)''), a)
               else
                 (case get_as s_as_array ''entries'' parsed of
                    None \<Rightarrow> (Inl (''Missing '' @ squote ''entries'' @ '' array''), a)
                  | Some arr \<Rightarrow> import_chain parsed arr a)))"

definition import_and_verify ::
  "(string \<Rightarrow> string) \<Rightarrow> (string \<Rightarrow> string + serde) \<Rightarrow> string \<Rightarrow> 'k auditor \<Rightarrow> (string + bool) \<times> 'k auditor" where
  "import_and_verify blake3 de json_str a =
     (case import_audit de json_str a of
        (Inl e, a') \<Rightarrow> (Inl e, a')
      | (Inr _, a') \<Rightarrow> (Inr (verify blake3 a'), a'))"

definition MAX_DECOMPRESSED_BYTES :: nat where
  "MAX_DECOMPRESSED_BYTES = 256 * 1024 * 1024"

text \<open>\<open>gunzip n\<close> decodes at most \<open>n\<close> bytes to text; \<open>gzip\<close> is the encoder.\<close>

definition export_compressed :: "(string \<Rightarrow> string + byte list) \<Rightarrow> (serde \<Rightarrow> string) \<Rightarrow> 'k auditor \<Rightarrow> string + byte list" where
  "export_compressed gzip pretty a = gzip (export pretty a)"

definition import_compressed ::
  "(nat \<Rightarrow> byte list \<Rightarrow> string + string) \<Rightarrow> (string \<Rightarrow> string + serde) \<Rightarrow> byte list \<Rightarrow> 'k auditor \<Rightarrow>
   (string + unit) \<times> 'k auditor" where
  "import_compressed gunzip de compressed a =
     (case gunzip (MAX_DECOMPRESSED_BYTES + 1) compressed of
        Inl e \<Rightarrow> (Inl (''Decompression error: '' @ e), a)
      | Inr decompressed \<Rightarrow>
          if length decompressed > MAX_DECOMPRESSED_BYTES
          then (Inl (''Decompressed audit export exceeds '' @ dec_nat MAX_DECOMPRESSED_BYTES
                 @ '' bytes limit (possible compressed bomb)''), a)
          else import_audit de decompressed a)"

definition import_compressed_and_verify ::
  "(string \<Rightarrow> string) \<Rightarrow> (nat \<Rightarrow> byte list \<Rightarrow> string + string) \<Rightarrow> (string \<Rightarrow> string + serde) \<Rightarrow> byte list \<Rightarrow>
   'k auditor \<Rightarrow> (string + bool) \<times> 'k auditor" where
  "import_compressed_and_verify blake3 gunzip de compressed a =
     (case import_compressed gunzip de compressed a of
        (Inl e, a') \<Rightarrow> (Inl e, a')
      | (Inr _, a') \<Rightarrow> (Inr (verify blake3 a'), a'))"

section \<open>The former log of the auditor\<close>

definition corrupt_remedy :: string where
  "corrupt_remedy =
     [CHR 0x0A] @ ''Remediation:'' @ [CHR 0x0A] @
     ''  1. Do NOT delete or edit the WAL file - it is evidence for forensic audit.'' @ [CHR 0x0A] @
     ''  2. Back up the entire data directory before any further action.'' @ [CHR 0x0A] @
     ''  3. Restore from a verified backup/snapshot if one exists.'' @ [CHR 0x0A] @
     ''  4. If no backup exists, keep this file and re-initialize the session; the corrupt file can be submitted for later analysis.''"

definition corrupt_line :: "string \<Rightarrow> string \<Rightarrow> nat \<Rightarrow> string \<Rightarrow> string" where
  "corrupt_line what path line_no reason =
     ''[EVO-AUDIT-WAL-CORRUPT] audit WAL '' @ what @ ''; refusing to load (audit integrity policy: no silent skip).''
     @ [CHR 0x0A] @ ''File: '' @ path @ ''; Line: '' @ dec_nat line_no @ ''; Reason: '' @ reason @ ''.'' @ corrupt_remedy"

definition wal_entry :: "(string \<Rightarrow> string + serde) \<Rightarrow> string \<Rightarrow> nat \<Rightarrow> string \<Rightarrow> string + audit_entry" where
  "wal_entry de path line_no line =
     and_then (map_err (\<lambda>e. corrupt_line ''is corrupted'' path line_no (''invalid JSON: '' @ e)) (de line)) (\<lambda>v.
     and_then (ok_or (corrupt_line ''entry rejected'' path line_no (''missing '' @ squote ''fact_id'' @ '' field''))
       (get_as s_as_u64 ''fact_id'' v)) (\<lambda>fid.
     map_ok (read_entry v fid)
       (ok_or (corrupt_line ''entry rejected'' path line_no (''missing '' @ squote ''fact_type'' @ '' field''))
         (get_as s_as_str ''fact_type'' v))))"

fun load_wal_lines ::
  "(string \<Rightarrow> string) \<Rightarrow> (string \<Rightarrow> string + serde) \<Rightarrow> string \<Rightarrow> nat \<Rightarrow> string list \<Rightarrow> 'k auditor \<Rightarrow>
   (string + unit) \<times> 'k auditor" where
  "load_wal_lines blake3 de path idx [] a = (Inr (), a)"
| "load_wal_lines blake3 de path idx (line # lines) a =
     (if trim line = [] then load_wal_lines blake3 de path (idx + 1) lines a
      else
        (case wal_entry de path (idx + 1) line of
           Inl e \<Rightarrow> (Inl e, a)
         | Inr e \<Rightarrow>
             load_wal_lines blake3 de path (idx + 1) lines
               (a\<lparr>aud_index := bt_put (ae_fact_id e) (length (entries a)) (aud_index a), entries := entries a @ [e],
                 aud_last_hash := chain_step blake3 (ae_prev_hash e) (ae_content_hash e),
                 aud_clock := advance_to (ae_logical_time e) (aud_clock a)\<rparr>)))"

text \<open>\<open>load_from_wal\<close>; the file is \<open>None\<close> when it does not exist.\<close>

definition load_from_wal ::
  "(string \<Rightarrow> string) \<Rightarrow> (string \<Rightarrow> string + serde) \<Rightarrow> string \<Rightarrow> string list option \<Rightarrow> 'k auditor \<Rightarrow>
   (string + unit) \<times> 'k auditor" where
  "load_from_wal blake3 de path file a =
     (case file of
        None \<Rightarrow> (Inr (), a)
      | Some lines \<Rightarrow>
          (case load_wal_lines blake3 de path 0 lines a of
             (Inl e, a') \<Rightarrow> (Inl e, a')
           | (Inr _, a') \<Rightarrow> (Inr (), a'\<lparr>aud_wal_path := Some path\<rparr>)))"

section \<open>The entries of a sequence of facts\<close>

fun audited :: "(string \<Rightarrow> string) \<Rightarrow> (serde \<Rightarrow> string) \<Rightarrow> u64 \<Rightarrow> string \<Rightarrow> fact list \<Rightarrow> audit_entry list" where
  "audited blake3 ser t prev [] = []"
| "audited blake3 ser t prev (f # fs) =
     entry_of blake3 ser (t + 1) prev f # audited blake3 ser (t + 1) (chain_step blake3 prev (fact_hash blake3 ser f)) fs"

fun indexed :: "usize \<Rightarrow> fact list \<Rightarrow> (fact_id \<times> usize) list \<Rightarrow> (fact_id \<times> usize) list" where
  "indexed i [] m = m"
| "indexed i (f # fs) m = indexed (i + 1) fs (bt_put (fact_id_of f) i m)"

lemma length_audited [simp]: "length (audited blake3 ser t prev fs) = length fs"
  by (induction fs arbitrary: t prev) simp_all

lemma audited_append:
  "audited blake3 ser t prev (fs @ gs) =
     audited blake3 ser t prev fs @ audited blake3 ser (t + word_of_nat (length fs)) (chain_from blake3 ser prev fs) gs"
  by (induction fs arbitrary: t prev) (simp_all add: chain_from_def add_ac)

lemma indexed_append: "indexed i (fs @ gs) m = indexed (i + length fs) gs (indexed i fs m)"
  by (induction fs arbitrary: i m) simp_all

lemma chain_from_Cons:
  "chain_from blake3 ser prev (f # fs) = chain_from blake3 ser (chain_step blake3 prev (fact_hash blake3 ser f)) fs"
  by (simp add: chain_from_def)

lemma chain_from_append: "chain_from blake3 ser prev (fs @ gs) = chain_from blake3 ser (chain_from blake3 ser prev fs) gs"
  by (simp add: chain_from_def)

lemma verify_audited: "verify_entries blake3 prev (audited blake3 ser t prev fs)"
  by (induction fs arbitrary: t prev) (simp_all add: entry_of_def)

lemma contents_audited: "verify_contents blake3 ser i (zip (audited blake3 ser t prev fs) fs) = Inr ()"
  by (induction fs arbitrary: i t prev) (simp_all add: entry_of_def)

lemma heads_audited: "entry_heads blake3 (audited blake3 ser t prev fs) = map (\<lambda>n. chain_from blake3 ser prev (take n fs)) [1..<Suc (length fs)]"
proof (induction fs arbitrary: t prev)
  case (Cons f fs)
  have "map (\<lambda>n. chain_from blake3 ser prev (take n (f # fs))) [1..<Suc (Suc (length fs))] =
    chain_step blake3 prev (fact_hash blake3 ser f) #
    map (\<lambda>n. chain_from blake3 ser (chain_step blake3 prev (fact_hash blake3 ser f)) (take n fs)) [1..<Suc (length fs)]"
    by (auto simp: upt_conv_Cons map_Suc_upt [symmetric] chain_from_def simp del: upt_Suc)
  with Cons show ?case by (simp add: entry_of_def del: upt_Suc)
qed simp

text \<open>The auditor is exactly at the end of a sequence of facts.\<close>

definition audits :: "(string \<Rightarrow> string) \<Rightarrow> (serde \<Rightarrow> string) \<Rightarrow> fact list \<Rightarrow> 'k auditor \<Rightarrow> bool" where
  "audits blake3 ser fs a \<longleftrightarrow>
     entries a = audited blake3 ser 0 genesis fs \<and> aud_last_hash a = chain_from blake3 ser genesis fs \<and>
     aud_clock a = word_of_nat (length fs) \<and> aud_index a = indexed 0 fs bt_new"

lemma audits_length: "audits blake3 ser fs a \<Longrightarrow> length (entries a) = length fs"
  by (simp add: audits_def)

lemma audit_facts_frame:
  "anchors (audit_facts blake3 ser i gs a) = anchors a"
  "anchor_builder (audit_facts blake3 ser i gs a) = anchor_builder a"
  "auto_verify_failure_count (audit_facts blake3 ser i gs a) = auto_verify_failure_count a"
  by (induction gs arbitrary: i a) (simp_all add: tick_def Let_def)

lemma audit_facts_audits:
  "audits blake3 ser fs a \<Longrightarrow> audits blake3 ser (fs @ gs) (audit_facts blake3 ser (length fs) gs a)"
proof (induction gs arbitrary: fs a)
  case (Cons g gs)
  let ?a = "a\<lparr>aud_clock := aud_clock a + 1, aud_last_hash := chain_step blake3 (aud_last_hash a) (fact_hash blake3 ser g),
    aud_index := bt_put (fact_id_of g) (length fs) (aud_index a),
    entries := entries a @ [entry_of blake3 ser (aud_clock a + 1) (aud_last_hash a) g]\<rparr>"
  have "audits blake3 ser (fs @ [g]) ?a"
    using Cons.prems by (simp add: audits_def audited_append indexed_append chain_from_def add_ac)
  from Cons.IH [OF this] show ?case by (simp add: tick_def entry_of_def)
qed simp

lemma record_anchor_frame:
  "entries (record_anchor sa w an b a) = entries a" "aud_last_hash (record_anchor sa w an b a) = aud_last_hash a"
  "aud_clock (record_anchor sa w an b a) = aud_clock a" "aud_index (record_anchor sa w an b a) = aud_index a"
  "auto_verify_failure_count (record_anchor sa w an b a) = auto_verify_failure_count a"
  "anchors (record_anchor sa w an b a) = anchors a @ [an]" "anchor_builder (record_anchor sa w an b a) = Some b"
  by (simp_all add: record_anchor_def persist_anchor_def Let_def split: option.splits)

lemma seal_total: "\<exists>an b'. seal ed blake3 n h b = Inr (an, b')"
  by (simp add: seal_def compute_anchor_hash_def Let_def result_simps)

text \<open>Either the automatic anchor is what \<open>seal_anchor_now\<close> would record, or nothing changes.\<close>

lemma auto_anchor_cases:
  obtains (skipped) "auto_anchor ed blake3 sa w a = a"
  | (sealed) an b b' where "anchor_builder a = Some b"
      "seal ed blake3 (length (entries a)) (aud_last_hash a) b = Inr (an, b')"
      "auto_anchor ed blake3 sa w a = record_anchor sa w an b' a"
proof (cases "anchor_builder a")
  case None
  then show thesis using skipped by (simp add: auto_anchor_def)
next
  case (Some b)
  obtain an b' where s: "seal ed blake3 (length (entries a)) (aud_last_hash a) b = Inr (an, b')"
    using seal_total by blast
  show thesis
  proof (cases "anchor_interval a > 0 \<and> length (entries a) - next_fact_lo b \<ge> anchor_interval a")
    case True
    then show thesis using sealed Some s by (simp add: auto_anchor_def)
  next
    case False
    then have "auto_anchor ed blake3 sa w a = a" using Some by (auto simp: auto_anchor_def Let_def)
    then show thesis by (rule skipped)
  qed
qed

lemma auto_verify_frame:
  assumes "verify blake3 a"
  shows "entries (auto_verify_step blake3 a) = entries a" "aud_last_hash (auto_verify_step blake3 a) = aud_last_hash a"
    "aud_clock (auto_verify_step blake3 a) = aud_clock a" "aud_index (auto_verify_step blake3 a) = aud_index a"
    "auto_verify_failure_count (auto_verify_step blake3 a) = auto_verify_failure_count a"
    "anchors (auto_verify_step blake3 a) = anchors a" "anchor_builder (auto_verify_step blake3 a) = anchor_builder a"
  using assms by (simp_all add: auto_verify_step_def should_auto_verify_def Let_def verify_def split: prod.splits bool.splits if_splits)

lemma audits_record [simp]: "audits blake3 ser fs (record_anchor sa w an b a) = audits blake3 ser fs a"
  by (simp add: audits_def record_anchor_frame)

lemma audits_auto_verify: "verify blake3 a \<Longrightarrow> audits blake3 ser fs (auto_verify_step blake3 a) = audits blake3 ser fs a"
  by (simp add: audits_def auto_verify_frame)

lemma audits_verify: "audits blake3 ser fs a \<Longrightarrow> verify blake3 a"
  by (simp add: audits_def verify_def verify_audited)

lemma audits_verify_deep: "audits blake3 ser fs a \<Longrightarrow> verify_deep blake3 ser fs a = Inr ()"
  by (simp add: verify_deep_def audits_verify) (simp add: audits_def contents_audited)

section \<open>The auditor beside a growing log\<close>

text \<open>
  A log and the auditor that holds it: appends, which the backend may refuse, audits and anchors in any
  order, from a fresh log and an auditor with any configuration.
\<close>

definition fresh_auditor :: "'k auditor \<Rightarrow> bool" where
  "fresh_auditor a \<longleftrightarrow> entries a = [] \<and> aud_last_hash a = genesis \<and> aud_clock a = 0 \<and> aud_index a = bt_new \<and>
     auto_verify_failure_count a = 0 \<and> anchors a = []"

inductive audit_life ::
  "'k ed25519 \<Rightarrow> (string \<Rightarrow> string) \<Rightarrow> (serde \<Rightarrow> string) \<Rightarrow> key_table \<Rightarrow> 's facts_log \<Rightarrow> 'k auditor \<Rightarrow> bool"
  for ed blake3 ser keys where
  al_start: "l = log_new \<or> (\<exists>st. l = with_wal_store st) \<Longrightarrow> fresh_auditor a \<Longrightarrow>
    anchor_builder a = Some (anchor_builder_new s kid eng ses) \<Longrightarrow> signer_known ed keys s kid \<Longrightarrow>
    audit_life ed blake3 ser keys l a"
| al_append: "audit_life ed blake3 ser keys l a \<Longrightarrow> version l \<noteq> - 1 \<Longrightarrow>
    audit_life ed blake3 ser keys (snd (append store blake3 ser f l)) a"
| al_audit: "audit_life ed blake3 ser keys l a \<Longrightarrow>
    audit_life ed blake3 ser keys l (snd (audit_new ed blake3 ser sa w l a))"
| al_seal: "audit_life ed blake3 ser keys l a \<Longrightarrow>
    audit_life ed blake3 ser keys l (snd (seal_anchor_now ed blake3 sa w a))"

text \<open>What the pair satisfies: the auditor is at a prefix of the history, its anchors name heads of it.\<close>

definition anchors_at :: "(string \<Rightarrow> string) \<Rightarrow> (serde \<Rightarrow> string) \<Rightarrow> fact list \<Rightarrow> audit_anchor list \<Rightarrow> bool" where
  "anchors_at blake3 ser fs ans \<longleftrightarrow>
     (\<forall>an \<in> set ans. hi (fact_range an) \<le> length fs \<and>
        chain_head an = chain_from blake3 ser genesis (take (hi (fact_range an)) fs))"

definition audit_inv ::
  "'k ed25519 \<Rightarrow> (string \<Rightarrow> string) \<Rightarrow> (serde \<Rightarrow> string) \<Rightarrow> key_table \<Rightarrow> 's facts_log \<Rightarrow> 'k auditor \<Rightarrow> bool" where
  "audit_inv ed blake3 ser keys l a \<longleftrightarrow>
     last_hash l = chain_from blake3 ser genesis (map snd (history l)) \<and>
     (\<exists>fs gs b. map snd (history l) = fs @ gs \<and> audits blake3 ser fs a \<and> anchors_at blake3 ser fs (anchors a) \<and>
        auto_verify_failure_count a = 0 \<and> anchor_builder a = Some b \<and> anchor_life ed blake3 keys (anchors a) b)"

lemma audit_invI:
  assumes "last_hash l = chain_from blake3 ser genesis (map snd (history l))" "map snd (history l) = fs @ gs"
    "audits blake3 ser fs a" "anchors_at blake3 ser fs (anchors a)" "auto_verify_failure_count a = 0"
    "anchor_builder a = Some b" "anchor_life ed blake3 keys (anchors a) b"
  shows "audit_inv ed blake3 ser keys l a"
  unfolding audit_inv_def using assms by blast

lemma audit_invE:
  assumes "audit_inv ed blake3 ser keys l a"
  obtains fs gs b where "last_hash l = chain_from blake3 ser genesis (map snd (history l))" "map snd (history l) = fs @ gs"
    "audits blake3 ser fs a" "anchors_at blake3 ser fs (anchors a)" "auto_verify_failure_count a = 0"
    "anchor_builder a = Some b" "anchor_life ed blake3 keys (anchors a) b"
  using assms unfolding audit_inv_def by blast

lemma anchors_at_append: "anchors_at blake3 ser fs ans \<Longrightarrow> anchors_at blake3 ser (fs @ gs) ans"
  by (auto simp: anchors_at_def)

lemma sealed_at:
  assumes "audits blake3 ser fs a" "seal ed blake3 (length (entries a)) (aud_last_hash a) b = Inr (an, b')"
    "anchors_at blake3 ser fs ans"
  shows "anchors_at blake3 ser fs (ans @ [an])"
  using assms by (auto simp: anchors_at_def audits_def seal_def Let_def compute_anchor_hash_def result_simps)

lemma record_step_history: "history (record_step vb f l) = history l @ [(vb, f)]"
proof -
  let ?m = "index_fact vb f (length (history l)) (push_history vb f l)"
  obtain l' e where e: "apply_fact_to_state f ?m = (l', e)" by fastforce
  from apply_fact_frame(1) [OF e] e show ?thesis by (simp add: record_step_def log_frames)
qed

lemma append_history:
  assumes "version l \<noteq> - 1" "last_hash l = chain_from blake3 ser genesis (map snd (history l))" "l' = snd (append store blake3 ser f l)"
  shows "last_hash l' = chain_from blake3 ser genesis (map snd (history l')) \<and>
    (history l' = history l \<or> history l' = history l @ [(version l, f)])"
  using assms(1)
proof (cases rule: append_outcome [of l store blake3 ser f])
  case (failed e)
  then show ?thesis using assms by simp
next
  case (written l1)
  then have "history l' = history l @ [(version l, f)]" "last_hash l' = chain_step blake3 (last_hash l) (fact_hash blake3 ser f)"
    using assms(3) by (auto simp: record_step_history)
  then show ?thesis using assms(2) by (simp add: chain_from_def)
qed

lemma audit_new_audits:
  assumes hist: "map snd (history l) = fs @ gs" and at: "audits blake3 ser fs a" "anchors_at blake3 ser fs (anchors a)"
    and b: "anchor_builder a = Some b" "anchor_life ed blake3 keys (anchors a) b"
    and new: "audit_new ed blake3 ser sa w l a = (n, a')"
  shows "n = length gs" "audits blake3 ser (fs @ gs) a'" "auto_verify_failure_count a' = auto_verify_failure_count a"
    "\<exists>b'. anchor_builder a' = Some b' \<and> anchor_life ed blake3 keys (anchors a') b' \<and> anchors_at blake3 ser (fs @ gs) (anchors a')"
proof -
  have len: "length (history l) = length fs + length gs" using arg_cong [OF hist, of length] by simp
  let ?a0 = "a\<lparr>audit_new_count := audit_new_count a + 1\<rparr>"
  have at0: "audits blake3 ser fs ?a0" using at(1) by (simp add: audits_def)
  have "n = length gs \<and> audits blake3 ser (fs @ gs) a' \<and> auto_verify_failure_count a' = auto_verify_failure_count a \<and>
    (\<exists>b'. anchor_builder a' = Some b' \<and> anchor_life ed blake3 keys (anchors a') b' \<and> anchors_at blake3 ser (fs @ gs) (anchors a'))"
  proof (cases "gs = []")
    case True
    then have "n = 0" "a' = ?a0\<lparr>last_audited_version := version l\<rparr>"
      using new len audits_length [OF at(1)] by (auto simp: audit_new_def Let_def)
    then show ?thesis using True at b by (simp add: audits_def)
  next
    case False
    let ?a1 = "(audit_facts blake3 ser (length fs) gs ?a0)\<lparr>last_audited_version := version l\<rparr>"
    let ?a2 = "auto_anchor ed blake3 sa w ?a1"
    have gs: "map snd (drop (length fs) (history l)) = gs" using hist by (simp add: drop_map [symmetric])
    have n: "n = length gs" and a': "a' = auto_verify_step blake3 ?a2"
      using new len False audits_length [OF at(1)] gs by (auto simp: audit_new_def for_each_fact_from_def Let_def)
    have at1: "audits blake3 ser (fs @ gs) ?a1"
      using audit_facts_audits [OF at0, of gs] by (simp add: audits_def)
    have f1: "anchors ?a1 = anchors a" "anchor_builder ?a1 = Some b" "auto_verify_failure_count ?a1 = auto_verify_failure_count a"
      using b by (simp_all add: audit_facts_frame)
    have "audits blake3 ser (fs @ gs) ?a2 \<and> auto_verify_failure_count ?a2 = auto_verify_failure_count a \<and>
      (\<exists>b'. anchor_builder ?a2 = Some b' \<and> anchor_life ed blake3 keys (anchors ?a2) b' \<and> anchors_at blake3 ser (fs @ gs) (anchors ?a2))"
    proof (cases rule: auto_anchor_cases [of ed blake3 sa w ?a1])
      case skipped
      then show ?thesis using at1 f1 b at(2) by (simp add: anchors_at_append)
    next
      case (sealed an b0 b')
      have "audits blake3 ser (fs @ gs) ?a2"
        unfolding sealed(3) audits_record by (rule at1)
      moreover have "anchor_life ed blake3 keys (anchors a @ [an]) b'"
        using b(2) f1(2) sealed by (auto intro: life_seal)
      moreover have "anchors_at blake3 ser (fs @ gs) (anchors a @ [an])"
        using sealed_at [OF at1 sealed(2)] at(2) by (simp add: anchors_at_append)
      ultimately show ?thesis using sealed f1 by (simp add: record_anchor_frame)
    qed
    then show ?thesis
      using n audits_verify [of blake3 ser "fs @ gs" ?a2] unfolding a'
      by (auto simp: auto_verify_frame audits_auto_verify)
  qed
  then show "n = length gs" "audits blake3 ser (fs @ gs) a'" "auto_verify_failure_count a' = auto_verify_failure_count a"
    "\<exists>b'. anchor_builder a' = Some b' \<and> anchor_life ed blake3 keys (anchors a') b' \<and> anchors_at blake3 ser (fs @ gs) (anchors a')"
    by blast+
qed

lemma audit_life_inv: "audit_life ed blake3 ser keys l a \<Longrightarrow> audit_inv ed blake3 ser keys l a"
proof (induction rule: audit_life.induct)
  case (al_start l a s kid eng ses)
  then have "last_hash l = genesis" "history l = []" by (auto simp: log_new_def with_wal_store_def)
  moreover have "audits blake3 ser [] a" "anchors a = []" "auto_verify_failure_count a = 0"
    using al_start(2) by (simp_all add: fresh_auditor_def audits_def chain_from_def)
  ultimately show ?case
    using al_start(3,4) life_new [of ed keys s kid blake3 eng ses] by (simp add: audit_inv_def chain_from_def anchors_at_def)
next
  case (al_append l a store f)
  let ?l = "snd (append store blake3 ser f l)"
  from al_append.IH obtain fs gs b where i: "last_hash l = chain_from blake3 ser genesis (map snd (history l))"
    "map snd (history l) = fs @ gs" "audits blake3 ser fs a" "anchors_at blake3 ser fs (anchors a)"
    "auto_verify_failure_count a = 0" "anchor_builder a = Some b" "anchor_life ed blake3 keys (anchors a) b"
    by (rule audit_invE)
  from append_history [OF al_append.hyps(2) i(1) refl, of store f]
  have "last_hash ?l = chain_from blake3 ser genesis (map snd (history ?l))" "\<exists>hs. map snd (history ?l) = fs @ hs"
    using i(2) by auto
  then show ?case using i(3-) by (auto intro: audit_invI)
next
  case (al_audit l a sa w)
  from al_audit.IH obtain fs gs b where i: "last_hash l = chain_from blake3 ser genesis (map snd (history l))"
    "map snd (history l) = fs @ gs" "audits blake3 ser fs a" "anchors_at blake3 ser fs (anchors a)"
    "auto_verify_failure_count a = 0" "anchor_builder a = Some b" "anchor_life ed blake3 keys (anchors a) b"
    by (rule audit_invE)
  obtain n a' where n: "audit_new ed blake3 ser sa w l a = (n, a')" by fastforce
  note new = audit_new_audits [OF i(2-4,6,7) n]
  from new(4) obtain b' where "anchor_builder a' = Some b'" "anchor_life ed blake3 keys (anchors a') b'"
    "anchors_at blake3 ser (fs @ gs) (anchors a')" by blast
  with new(2,3) i(1,2,5) n show ?case by (intro audit_invI [where fs = "fs @ gs" and gs = "[]"]) auto
next
  case (al_seal l a sa w)
  from al_seal.IH obtain fs gs b where i: "last_hash l = chain_from blake3 ser genesis (map snd (history l))"
    "map snd (history l) = fs @ gs" "audits blake3 ser fs a" "anchors_at blake3 ser fs (anchors a)"
    "auto_verify_failure_count a = 0" "anchor_builder a = Some b" "anchor_life ed blake3 keys (anchors a) b"
    by (rule audit_invE)
  obtain an b' where s: "seal ed blake3 (length (entries a)) (aud_last_hash a) b = Inr (an, b')" using seal_total by blast
  then have "snd (seal_anchor_now ed blake3 sa w a) = record_anchor sa w an b' a"
    using i(6) by (simp add: seal_anchor_now_def)
  then show ?case
    using i sealed_at [OF i(3) s i(4)] life_seal [OF i(7) s]
    by (intro audit_invI [where fs = fs and gs = gs and b = b']) (simp_all add: record_anchor_frame)
qed

section \<open>Anchors against the entries\<close>

lemma heads_get:
  "list_get (genesis # entry_heads blake3 (audited blake3 ser t genesis fs)) n =
     (if n \<le> length fs then Some (chain_from blake3 ser genesis (take n fs)) else None)"
proof (cases n)
  case 0
  then show ?thesis by (simp add: list_get_def chain_from_def)
next
  case (Suc m)
  then show ?thesis by (auto simp: list_get_def heads_audited chain_from_def simp del: upt_Suc)
qed

lemma check_heads_ok:
  "anchors_at blake3 ser fs ans \<Longrightarrow> check_heads (genesis # entry_heads blake3 (audited blake3 ser t genesis fs)) n ans = Inr ()"
proof (induction ans)
  case (Cons an ans)
  then show ?case by (simp add: anchors_at_def heads_get result_simps)
qed simp

lemma binding_ok:
  "anchors_at blake3 ser fs ans \<Longrightarrow> is_ok (binding_loop blake3 ser (fs @ gs) c ans)"
  by (induction ans arbitrary: c) (auto simp: anchors_at_def compute_chain_hash_from Let_def)

lemma check_heads_cong:
  "(\<And>an. an \<in> set ans \<Longrightarrow> list_get hs (hi (fact_range an)) = list_get hs' (hi (fact_range an))) \<Longrightarrow>
   check_heads hs n ans = check_heads hs' n ans"
  by (induction ans) (simp_all cong: if_cong)

lemma entry_heads_map: "entry_heads blake3 es = map (\<lambda>e. chain_step blake3 (ae_prev_hash e) (ae_content_hash e)) es"
  by (induction es) simp_all

section \<open>Properties\<close>

text \<open>
  C19: the auditor follows the log.  At any point of a run in which facts are appended, audited and
  anchored in any order, an audit adds exactly the facts that were not yet audited, once and in order;
  afterwards its entries are those of the whole history, its chain head is the chain head of the log,
  and both the link check and the check against the facts succeed.
\<close>

theorem audit_follows_log:
  assumes "audit_life ed blake3 ser keys l a" "audit_new ed blake3 ser sa w l a = (n, a')"
  shows "n = length (history l) - length (entries a) \<and>
    entries a' = audited blake3 ser 0 genesis (map snd (history l)) \<and> aud_last_hash a' = last_hash l \<and>
    verify blake3 a' \<and> verify_deep blake3 ser (map snd (history l)) a' = Inr () \<and> auto_verify_failure_count a' = 0"
proof -
  from audit_life_inv [OF assms(1)] obtain fs gs b where i: "last_hash l = chain_from blake3 ser genesis (map snd (history l))"
    "map snd (history l) = fs @ gs" "audits blake3 ser fs a" "anchors_at blake3 ser fs (anchors a)"
    "auto_verify_failure_count a = 0" "anchor_builder a = Some b" "anchor_life ed blake3 keys (anchors a) b"
    by (rule audit_invE)
  note new = audit_new_audits [OF i(2-4,6,7) assms(2)]
  have "length (history l) = length fs + length gs" using arg_cong [OF i(2), of length] by simp
  then show ?thesis
    using new(1-3) i audits_length [OF i(3)] audits_verify [OF new(2)] audits_verify_deep [OF new(2)]
    by (simp add: audits_def)
qed

definition sample_auditor :: "byte list auditor" where
  "sample_auditor = with_anchor_impl (\<lambda>_. Inl []) sample_signer ''k'' ''e'' ''s'' 1 None (new_with_auto_verify True 0 1)"

lemma sample_audit_start: "audit_life sample_ed blake3 ser sample_keys log_new sample_auditor"
  by (rule al_start [of _ _ sample_signer "''k''" "''e''" "''s''"])
    (simp_all add: sample_auditor_def with_anchor_impl_def new_with_auto_verify_def auditor_new_def fresh_auditor_def
      clock_new_def signer_known_def sample_signer_def from_bytes_def verifying_hex_def sample_ed_def sample_keys_def)

lemma sample_audit_one:
  "audit_life sample_ed blake3 ser sample_keys (snd (append store blake3 ser (Stable 1 0) log_new)) sample_auditor"
  by (rule al_append [OF sample_audit_start]) (simp add: log_new_def)

theorem audit_follows_log_witness:
  "let l = snd (append memory_wal_append sample_blake3 unary_ser (Stable 1 0) log_new);
       r = audit_new sample_ed sample_blake3 unary_ser (\<lambda>_. []) True l sample_auditor in
   fst r = 1 \<and> entries (snd r) = audited sample_blake3 unary_ser 0 genesis [Stable 1 0] \<and>
   aud_last_hash (snd r) = last_hash l \<and> verify sample_blake3 (snd r) \<and>
   verify_deep sample_blake3 unary_ser [Stable 1 0] (snd r) = Inr () \<and> auto_verify_failure_count (snd r) = 0"
proof -
  let ?l = "snd (append memory_wal_append sample_blake3 unary_ser (Stable 1 0) log_new)"
  have "history ?l = [(0, Stable 1 0)]" by (simp add: append_def append_memory_def log_new_def push_history_def index_fact_def)
  moreover have "entries sample_auditor = []"
    by (simp add: sample_auditor_def with_anchor_impl_def new_with_auto_verify_def auditor_new_def)
  ultimately show ?thesis
    using audit_follows_log [OF sample_audit_one [of sample_blake3 unary_ser memory_wal_append] prod.collapse [symmetric],
        of "\<lambda>_. []" True]
    by (simp add: Let_def)
qed

text \<open>
  The anchors of a run bind its facts.  All anchors the auditor has recorded, automatic and on
  request, verify against the key table and against its entries, and bind the facts of the log when
  checked by the independent verifier.
\<close>

theorem auditor_anchors_verify:
  assumes "ed25519_laws ed" "audit_life ed blake3 ser keys l a"
  shows "verify_anchors ed blake3 keys a = Inr () \<and> is_ok (verify_binding blake3 ser (map snd (history l)) (anchors a))"
proof -
  from audit_life_inv [OF assms(2)] obtain fs gs b where i: "last_hash l = chain_from blake3 ser genesis (map snd (history l))"
    "map snd (history l) = fs @ gs" "audits blake3 ser fs a" "anchors_at blake3 ser fs (anchors a)"
    "auto_verify_failure_count a = 0" "anchor_builder a = Some b" "anchor_life ed blake3 keys (anchors a) b"
    by (rule audit_invE)
  then show ?thesis
    using anchor_life_ok [OF assms(1) i(7)] binding_ok [OF i(4)]
    by (simp add: verify_anchors_def verify_binding_def audits_def check_heads_ok result_simps)
qed

theorem auditor_anchors_verify_witness:
  "verify_anchors sample_ed sample_blake3 sample_keys
     (snd (seal_anchor_now sample_ed sample_blake3 (\<lambda>_. []) True sample_auditor)) = Inr () \<and>
   is_ok (verify_binding sample_blake3 unary_ser
     (map snd (history (snd (append memory_wal_append sample_blake3 unary_ser (Stable 1 0) log_new))))
     (anchors (snd (seal_anchor_now sample_ed sample_blake3 (\<lambda>_. []) True sample_auditor))))"
  by (rule auditor_anchors_verify [OF sample_ed_laws al_seal [OF sample_audit_one]])

text \<open>
  What \<open>verify_anchors\<close> looks at.  It recomputes the head at an anchor from the stored previous hash
  of the single entry before it, so its answer does not change when every other entry is replaced.
\<close>

theorem verify_anchors_sees_anchored_only:
  assumes "length es = length (entries a)"
    and "\<And>an i. an \<in> set (anchors a) \<Longrightarrow> hi (fact_range an) = Suc i \<Longrightarrow> i < length es \<Longrightarrow> es ! i = entries a ! i"
  shows "verify_anchors ed blake3 keys (a\<lparr>entries := es\<rparr>) = verify_anchors ed blake3 keys a"
proof -
  have "list_get (genesis # entry_heads blake3 es) (hi (fact_range an)) =
      list_get (genesis # entry_heads blake3 (entries a)) (hi (fact_range an))" if "an \<in> set (anchors a)" for an
    using assms that by (cases "hi (fact_range an)") (auto simp: list_get_def entry_heads_map)
  then have "check_heads (genesis # entry_heads blake3 es) n (anchors a) =
      check_heads (genesis # entry_heads blake3 (entries a)) n (anchors a)" for n
    by (rule check_heads_cong)
  then show ?thesis by (simp add: verify_anchors_def assms(1))
qed

definition two_entries :: "byte list auditor" where
  "two_entries = sample_auditor\<lparr>entries := audited sample_blake3 unary_ser 0 genesis [Stable 1 0, Stable 2 0],
     anchors := [(sample_anchor sample_blake3)\<lparr>fact_range := \<lparr>lo = 0, hi = 2\<rparr>\<rparr>]\<rparr>"

theorem verify_anchors_sees_anchored_only_witness:
  "verify_anchors sample_ed sample_blake3 sample_keys
     (two_entries\<lparr>entries := [entry_of sample_blake3 unary_ser 7 ''forged'' (Error 9 ''x''), entries two_entries ! 1]\<rparr>) =
   verify_anchors sample_ed sample_blake3 sample_keys two_entries"
  by (rule verify_anchors_sees_anchored_only) (auto simp: two_entries_def sample_anchor_def)

section \<open>Loading what was written\<close>

lemma load_loop_chained:
  "hash_chained blake3 ser prev rs \<Longrightarrow>
   load_loop blake3 ser idx prev rs es ix =
     ((None, chain_from blake3 ser prev (map wal_fact rs)),
      es @ map (\<lambda>e. e\<lparr>ae_fact_type := static_type (ae_fact_type e)\<rparr>) (audited blake3 ser (word_of_nat idx) prev (map wal_fact rs)),
      indexed idx (map wal_fact rs) ix)"
proof (induction rs arbitrary: idx prev es ix)
  case (Cons r rs)
  then show ?case
    by (simp add: load_checks_def loaded_entry_def entry_of_def Let_def chain_from_Cons unwrap_or_def add.commute)
qed (simp add: chain_from_def)

lemma load_loop_error:
  assumes "\<And>r. r \<in> set rs \<Longrightarrow> wal_content_hash r \<noteq> None \<and> wal_prev_hash r \<noteq> None \<and> wal_chain_hash r \<noteq> None"
  shows "fst (fst (load_loop blake3 ser idx prev rs es ix)) = None \<longleftrightarrow> hash_chained blake3 ser prev rs"
  using assms
proof (induction rs arbitrary: idx prev es ix)
  case (Cons r rs)
  have "wal_content_hash r \<noteq> None \<and> wal_prev_hash r \<noteq> None \<and> wal_chain_hash r \<noteq> None" using Cons.prems by simp
  then show ?case
    using Cons.IH Cons.prems by (auto simp: load_checks_def Let_def unwrap_or_def split: option.splits)
qed simp

lemma life_records:
  assumes "json_text ser de" "log_life blake3 ser de limit l"
  obtains w d rs where "wal l = Some (w, d)" "read_wal_with_hash de d = Inr rs" "hash_chained blake3 ser genesis rs"
    "map wal_fact rs = map snd (history l)" "last_hash l = chain_from blake3 ser genesis (map wal_fact rs)"
    "rs = [] \<or> wal_chain_hash (last rs) = Some (last_hash l)"
proof -
  obtain w d data where st: "wal l = Some (w, d)" "writer_inv w d (map (record_line ser) data)"
    "synced blake3 ser l (map record_of data)" "read_wal_with_hash de d = Inr (map record_of data)"
    "history l = map (\<lambda>r. (version_before r, wal_fact r)) (map record_of data)"
    by (rule life_data [OF assms])
  then show thesis
    by (intro that [of w d "map record_of data"]) (auto simp: synced_def compute_chain_hash_from o_def)
qed


definition sample_file_log :: "(wal_writer \<times> disk) facts_log" where
  "sample_file_log = snd (append (file_store (\<lambda>_. None) unary_ser) sample_blake3 unary_ser (Stable 1 0) (with_wal_options 0 []))"

lemma sample_file_life: "log_life sample_blake3 unary_ser unary_de 0 sample_file_log"
  unfolding sample_file_log_def
  by (intro log_life.intros) (simp_all add: with_wal_options_def with_wal_store_def log_new_def)

lemma unary_json_text: "json_text unary_ser unary_de"
  by (simp add: json_text_def unary_ser_laws)


text \<open>
  C21: loading detects tampering.  On records that carry their three hashes, loading succeeds exactly when
  every record stores the hash of its fact, the chain before it and the chain after it; then the head it
  reports is the chain hash of the facts that were read.
\<close>

theorem load_detects_tampering:
  assumes "read_wal_with_hash de d = Inr rs"
    and "\<And>r. r \<in> set rs \<Longrightarrow> wal_content_hash r \<noteq> None \<and> wal_prev_hash r \<noteq> None \<and> wal_chain_hash r \<noteq> None"
  shows "(fst (load_from_tier1_wal blake3 ser de d a) = Inr () \<longleftrightarrow> hash_chained blake3 ser genesis rs) \<and>
    (fst (load_from_tier1_wal blake3 ser de d a) = Inr () \<longrightarrow>
      aud_last_hash (snd (load_from_tier1_wal blake3 ser de d a)) = compute_chain_hash blake3 ser (map wal_fact rs))"
proof -
  have err: "fst (load_from_tier1_wal blake3 ser de d a) = Inr () \<longleftrightarrow>
      fst (fst (load_loop blake3 ser 0 genesis rs [] bt_new)) = None"
    using assms(1) by (auto simp: load_from_tier1_wal_def Let_def split: prod.splits option.splits)
  have head: "aud_last_hash (snd (load_from_tier1_wal blake3 ser de d a)) = compute_chain_hash blake3 ser (map wal_fact rs)"
    if "hash_chained blake3 ser genesis rs"
  proof -
    have "rs \<noteq> [] \<Longrightarrow> wal_chain_hash (last rs) = Some (chain_from blake3 ser genesis (map wal_fact rs))"
      using that by (cases rs rule: rev_cases) (auto simp: hash_chained_snoc Let_def chain_from_def)
    moreover have "list_ex has_hash rs \<Longrightarrow> rs \<noteq> []" by auto
    ultimately show ?thesis
      using assms(1) load_loop_chained [OF that, of 0 "[]" bt_new]
      by (auto simp: load_from_tier1_wal_def compute_chain_hash_from unwrap_or_def)
  qed
  show ?thesis using err head load_loop_error [OF assms(2), of rs blake3 ser 0 genesis "[]" bt_new] by auto
qed

definition sample_disk :: disk where
  "sample_disk = snd (append_record_with_hash unary_ser 0 (Stable 1 0) ''tampered'' genesis ''h''
     (fst (create_with_options 0 [])) (snd (create_with_options 0 [])))"

lemma sample_disk_read: "read_wal_with_hash unary_de sample_disk = Inr [hash_record 0 (Stable 1 0) ''tampered'' genesis ''h'']"
proof -
  let ?data = "[(0, Stable 1 0, ''tampered'', genesis, ''h'')] :: record_data list"
  have "write_records unary_ser ?data (fst (create_with_options 0 [])) (snd (create_with_options 0 [])) =
      append_record_with_hash unary_ser 0 (Stable 1 0) ''tampered'' genesis ''h''
        (fst (create_with_options 0 [])) (snd (create_with_options 0 []))"
    by (simp add: split_beta)
  then have "writer_inv (fst (append_record_with_hash unary_ser 0 (Stable 1 0) ''tampered'' genesis ''h''
        (fst (create_with_options 0 [])) (snd (create_with_options 0 [])))) sample_disk (map (record_line unary_ser) ?data)"
    using write_records_inv [of "fst (create_with_options 0 [])" "snd (create_with_options 0 [])" "[]" unary_ser ?data] create_inv [of 0]
    by (simp add: sample_disk_def)
  then show ?thesis
    using read_written [of _ sample_disk unary_ser ?data unary_de] by (simp add: unary_ser_laws record_of_def)
qed

theorem load_detects_tampering_witness:
  "fst (load_from_tier1_wal sample_blake3 unary_ser unary_de sample_disk sample_auditor) \<noteq> Inr ()"
proof -
  have "\<not> hash_chained sample_blake3 unary_ser genesis [hash_record 0 (Stable 1 0) ''tampered'' genesis ''h'']"
    by (auto simp: hash_record_def Let_def fact_hash_def content_hash_def sample_blake3_def dest: arg_cong [of _ _ length])
  then show ?thesis
    using load_detects_tampering [OF sample_disk_read, of sample_blake3 unary_ser sample_auditor] by (simp add: hash_record_def)
qed

section \<open>Export, import and causes\<close>

fun entry_index :: "usize \<Rightarrow> audit_entry list \<Rightarrow> (fact_id \<times> usize) list \<Rightarrow> (fact_id \<times> usize) list" where
  "entry_index i [] m = m"
| "entry_index i (e # es) m = entry_index (i + 1) es (bt_put (ae_fact_id e) i m)"

lemma entry_json_fields:
  "get_as s_as_u64 ''fact_id'' (entry_json e) = Some (ae_fact_id e)"
  "get_as s_as_str ''fact_type'' (entry_json e) = Some (ae_fact_type e)"
  "get_as s_as_u64 ''logical_time'' (entry_json e) = Some (ae_logical_time e)"
  "get_as s_as_str ''content_hash'' (entry_json e) = Some (ae_content_hash e)"
  "get_as s_as_str ''prev_hash'' (entry_json e) = Some (ae_prev_hash e)"
  "get_as s_as_u64 ''cause'' (entry_json e) = ae_cause e"
  by (simp_all add: get_as_def entry_json_def s_get_map as_u64_num split: option.splits)

lemma read_entry_json: "read_entry (entry_json e) (ae_fact_id e) ty = e\<lparr>ae_fact_type := static_type ty\<rparr>"
  by (simp add: read_entry_def entry_json_fields unwrap_or_def)

lemma import_entries_json:
  "import_entries idx (map entry_json es) acc ix =
     (None, acc @ map (\<lambda>e. e\<lparr>ae_fact_type := static_type (ae_fact_type e)\<rparr>) es, entry_index idx es ix)"
  by (induction es arbitrary: idx acc ix) (simp_all add: entry_json_fields read_entry_json)

lemma verify_entries_retyped:
  "verify_entries blake3 prev (map (\<lambda>e. e\<lparr>ae_fact_type := static_type (ae_fact_type e)\<rparr>) es) = verify_entries blake3 prev es"
  by (induction es arbitrary: prev) simp_all

lemma export_fields:
  "get_as s_as_str ''version'' (export_json a) = Some ''1.0''"
  "get_as s_as_array ''entries'' (export_json a) = Some (map entry_json (entries a))"
  "get_as s_as_str ''last_hash'' (export_json a) = Some (aud_last_hash a)"
  "get_as s_as_u64 ''last_audited_version'' (export_json a) = Some (last_audited_version a)"
  by (simp_all add: get_as_def export_json_def s_get_map as_u64_num)

lemma causal_loop_cycle:
  assumes "bt_get c ix = Some i" "list_get es i = Some e" "ae_cause e = Some c"
  shows "causal_loop ix es (Some c) chain = None"
proof -
  have "ix' = ix \<longrightarrow> es' = es \<longrightarrow> current \<noteq> Some c" if "causal_loop ix' es' current chain = Some r" for ix' es' current chain r
    using that
    by (rule causal_loop.raw_induct [where P = "\<lambda>ix' es' current chain r. ix' = ix \<longrightarrow> es' = es \<longrightarrow> current \<noteq> Some c", rotated])
      (auto simp: assms, blast)
  then show ?thesis by (cases "causal_loop ix es (Some c) chain") (auto, blast)
qed

text \<open>One step of the loop, for identifiers with an entry in range.\<close>

lemma causal_loop_step:
  "bt_get c ix = Some i \<Longrightarrow> i < length es \<Longrightarrow> causal_loop ix es (Some c) chain = causal_loop ix es (ae_cause (es ! i)) (chain @ [es ! i])"
  by (subst causal_loop.simps) (simp add: list_get_def)

lemma causal_loop_end:
  "causal_loop ix es None chain = Some (Inr chain)"
  "bt_get c ix = None \<Longrightarrow> causal_loop ix es (Some c) chain = Some (Inr chain)"
  by (subst causal_loop.simps, simp)+

lemma causal_loop_ends:
  assumes range: "\<And>c j. bt_get c ix = Some j \<Longrightarrow> j < length es"
    and earlier: "\<And>i c j. i < length es \<Longrightarrow> ae_cause (es ! i) = Some c \<Longrightarrow> bt_get c ix = Some j \<Longrightarrow> j < i"
  shows "bt_get c ix = Some i \<Longrightarrow>
    \<exists>tl. causal_loop ix es (Some c) chain = Some (Inr (chain @ es ! i # tl)) \<and> length tl \<le> i \<and>
      successively (\<lambda>e e'. \<exists>c j. ae_cause e = Some c \<and> bt_get c ix = Some j \<and> e' = es ! j) (es ! i # tl)"
proof (induction i arbitrary: c chain rule: less_induct)
  case (less i)
  have i: "i < length es" by (rule range [OF less.prems])
  show ?case
  proof (cases "\<exists>c' j. ae_cause (es ! i) = Some c' \<and> bt_get c' ix = Some j")
    case True
    then obtain c' j where j: "ae_cause (es ! i) = Some c'" "bt_get c' ix = Some j" by blast
    then have "j < i" using earlier i by blast
    from less.IH [OF this j(2), of "chain @ [es ! i]"] obtain tl where
      "causal_loop ix es (Some c') (chain @ [es ! i]) = Some (Inr (chain @ es ! i # es ! j # tl))" "length tl \<le> j"
      "successively (\<lambda>e e'. \<exists>c j. ae_cause e = Some c \<and> bt_get c ix = Some j \<and> e' = es ! j) (es ! j # tl)"
      by auto
    then show ?thesis
      using j \<open>j < i\<close> causal_loop_step [OF less.prems i, of chain] by (intro exI [of _ "es ! j # tl"]) auto
  next
    case False
    then have "causal_loop ix es (ae_cause (es ! i)) (chain @ [es ! i]) = Some (Inr (chain @ [es ! i]))"
      by (cases "ae_cause (es ! i)") (auto simp: causal_loop_end)
    then show ?thesis using causal_loop_step [OF less.prems i, of chain] by (intro exI [of _ "[]"]) simp
  qed
qed

text \<open>
  An exported audit is imported unchanged: entries in order, head, version and a verdict of the link
  check that is the same, whatever the importing auditor held before.  Assumed of the external code:
  parsing inverts printing.  As with loading, type names outside the table become \<open>Unknown\<close>.
\<close>

theorem import_inverts_export:
  assumes "de (pretty (export_json a)) = Inr (export_json a)"
  shows "\<exists>b'. import_audit de (export pretty a) b = (Inr (), b') \<and>
    entries b' = map (\<lambda>e. e\<lparr>ae_fact_type := static_type (ae_fact_type e)\<rparr>) (entries a) \<and>
    aud_index b' = entry_index 0 (entries a) bt_new \<and> aud_last_hash b' = aud_last_hash a \<and>
    last_audited_version b' = last_audited_version a \<and> verify blake3 b' = verify blake3 a"
  using assms
  by (simp add: import_audit_def export_def export_fields import_chain_def import_entries_json verify_def
      verify_entries_retyped unwrap_or_def)

theorem import_inverts_export_witness:
  "\<exists>b'. import_audit unary_de (export unary_ser two_entries) sample_auditor = (Inr (), b') \<and>
    entries b' = map (\<lambda>e. e\<lparr>ae_fact_type := static_type (ae_fact_type e)\<rparr>) (entries two_entries) \<and>
    aud_index b' = entry_index 0 (entries two_entries) bt_new \<and> aud_last_hash b' = aud_last_hash two_entries \<and>
    last_audited_version b' = last_audited_version two_entries \<and>
    verify sample_blake3 b' = verify sample_blake3 two_entries"
  by (rule import_inverts_export) (simp add: unary_ser_laws)

definition index_in_range :: "'k auditor \<Rightarrow> bool" where
  "index_in_range a \<longleftrightarrow> (\<forall>c j. bt_get c (aud_index a) = Some j \<longrightarrow> j < length (entries a))"

definition causes_earlier :: "'k auditor \<Rightarrow> bool" where
  "causes_earlier a \<longleftrightarrow> (\<forall>i c j. i < length (entries a) \<longrightarrow> ae_cause (entries a ! i) = Some c \<longrightarrow>
     bt_get c (aud_index a) = Some j \<longrightarrow> j < i)"

definition next_cause :: "'k auditor \<Rightarrow> audit_entry \<Rightarrow> audit_entry \<Rightarrow> bool" where
  "next_cause a e e' \<longleftrightarrow> (\<exists>c j. ae_cause e = Some c \<and> bt_get c (aud_index a) = Some j \<and> e' = entries a ! j)"

text \<open>
  C22: tracing causes.  When every cause that has an entry has an earlier one, the trace of a fact ends
  after at most as many steps as there are entries and each entry in it is followed by the entry of its
  cause; an entry that names itself as its cause makes the loop run forever.
\<close>

theorem causal_chain_outcome:
  assumes "index_in_range a"
  shows "(causes_earlier a \<longrightarrow>
      (\<exists>chain. causal_chain fid a = Some (Inr chain) \<and> length chain \<le> length (entries a) \<and>
        (chain = [] \<longleftrightarrow> bt_get fid (aud_index a) = None) \<and> successively (next_cause a) chain)) \<and>
    (bt_get fid (aud_index a) = Some i \<and> ae_cause (entries a ! i) = Some fid \<longrightarrow> causal_chain fid a = None)"
proof (intro conjI impI)
  have range: "\<And>c j. bt_get c (aud_index a) = Some j \<Longrightarrow> j < length (entries a)"
    using assms by (simp add: index_in_range_def)
  show "\<exists>chain. causal_chain fid a = Some (Inr chain) \<and> length chain \<le> length (entries a) \<and>
        (chain = [] \<longleftrightarrow> bt_get fid (aud_index a) = None) \<and> successively (next_cause a) chain" if "causes_earlier a"
  proof (cases "bt_get fid (aud_index a)")
    case None
    then show ?thesis by (simp add: causal_chain_def causal_loop_end)
  next
    case (Some j)
    have "\<exists>tl. causal_loop (aud_index a) (entries a) (Some fid) [] = Some (Inr ([] @ entries a ! j # tl)) \<and> length tl \<le> j \<and>
        successively (\<lambda>e e'. \<exists>c j. ae_cause e = Some c \<and> bt_get c (aud_index a) = Some j \<and> e' = entries a ! j) (entries a ! j # tl)"
      using that Some range by (intro causal_loop_ends) (auto simp: causes_earlier_def)
    then obtain tl where
      "causal_chain fid a = Some (Inr (entries a ! j # tl))" "length tl \<le> j" "successively (next_cause a) (entries a ! j # tl)"
      by (auto simp: causal_chain_def next_cause_def [abs_def])
    then show ?thesis using Some range [OF Some] by (intro exI [of _ "entries a ! j # tl"]) auto
  qed
  show "causal_chain fid a = None" if "bt_get fid (aud_index a) = Some i \<and> ae_cause (entries a ! i) = Some fid"
    using that range by (auto simp: causal_chain_def list_get_def intro: causal_loop_cycle)
qed

definition self_caused :: "byte list auditor" where
  "self_caused = sample_auditor\<lparr>entries := [(entry_of sample_blake3 unary_ser 1 genesis (Stable 5 0))\<lparr>ae_cause := Some 5\<rparr>],
     aud_index := [(5, 0)]\<rparr>"

theorem causal_chain_outcome_witness: "causal_chain 5 self_caused = None"
proof -
  have "index_in_range self_caused"
    by (auto simp: index_in_range_def self_caused_def split: if_splits)
  from causal_chain_outcome [OF this, of 5 0] show ?thesis by (simp add: self_caused_def)
qed

text \<open>
  A log in the old format, without hashes, loads; but every loaded entry has the genesis value as its
  previous hash, so with two records the link check fails on what was just loaded.
\<close>

theorem old_format_load_not_verified:
  assumes "read_wal_with_hash de d = Inr [r, r']" "\<And>x. length (blake3 x) = 64"
    and "wal_content_hash r = None" "wal_prev_hash r = None" "wal_chain_hash r = None"
    and "wal_content_hash r' = None" "wal_prev_hash r' = None" "wal_chain_hash r' = None"
  shows "fst (load_from_tier1_wal blake3 ser de d a) = Inr () \<and> \<not> verify blake3 (snd (load_from_tier1_wal blake3 ser de d a))"
proof -
  have "genesis \<noteq> chain_step blake3 genesis h" for h
    using assms(2) [of "genesis @ h"] by (auto simp: chain_step_def genesis_def dest: arg_cong [of _ _ length])
  then show ?thesis
    using assms by (simp add: load_from_tier1_wal_def load_checks_def loaded_entry_def verify_def unwrap_or_def Let_def has_hash_def)
qed

end
