(* ===== verification/SharedLog.thy ===== *)
theory SharedLog
  imports Auditor
begin

text \<open>
  Facts shared between sessions, \<open>evorule-governance/src/shared_facts_log.rs\<close>: the ledger with its
  metadata, its anchors and its recovery.  The read-write lock is not modelled: every operation runs
  under it.  The metadata file is the \<open>SharedFactsMetadata\<close> value last written to it; the derived
  serialization of that type is the parameter \<open>meta_text\<close> where its text is hashed, and a file that
  cannot be read or parsed is an error argument of the recovery.
\<close>

section \<open>State\<close>

record shared_fact =
  sf_fact_id :: fact_id
  sf_path :: string
  sf_value :: json
  sf_source_session_id :: u64
  sf_version :: u64
  sf_origin_fact_id :: "u64 option"

record shared_anchor =
  sa_seq :: u64
  sa_records :: u64
  sa_chain_head :: string
  sa_metadata_digest :: string
  sa_anchor_hash :: string
  sa_key_id :: string
  sa_engine_id :: string
  sa_signature :: string

record shared_metadata =
  m_next_fact_id :: u64
  m_fact_sources :: "(u64 \<times> u64) list"
  m_fact_origins :: "(u64 \<times> u64) list"
  m_used_at_startup :: "(u64 \<times> u64 list) list"
  m_rolled_up :: "u64 list"
  m_anchors :: "shared_anchor list"

definition metadata_default :: shared_metadata where
  "metadata_default = \<lparr>m_next_fact_id = 0, m_fact_sources = bt_new, m_fact_origins = bt_new,
     m_used_at_startup = bt_new, m_rolled_up = [], m_anchors = []\<rparr>"

definition SHARED_LEDGER_ANCHOR_GENESIS :: string where
  "SHARED_LEDGER_ANCHOR_GENESIS = ''shared-anchor-genesis''"

definition shared_signature_payload :: "shared_anchor \<Rightarrow> string" where
  "shared_signature_payload a = join_on (CHR ''|'')
     [''evorule-shared-anchor/1'', dec_nat (unat (sa_seq a)), dec_nat (unat (sa_records a)), sa_chain_head a,
      sa_metadata_digest a, sa_key_id a, sa_engine_id a]"

definition compute_hash :: "(string \<Rightarrow> string) \<Rightarrow> string \<Rightarrow> shared_anchor \<Rightarrow> string" where
  "compute_hash blake3 prev a = blake3 (join_on (CHR ''|'')
     [prev, dec_nat (unat (sa_seq a)), dec_nat (unat (sa_records a)), sa_chain_head a, sa_key_id a,
      sa_engine_id a, sa_metadata_digest a])"

record shared_anchor_report =
  anchor_count :: usize
  binding_chain_head_match :: bool
  binding_metadata_match :: bool

record rollup_outcome =
  marked :: usize
  unknown_ids :: "fact_id list"

text \<open>\<open>metadata_file\<close>: \<open>None\<close> without a path, otherwise what the file holds, if it exists.\<close>

record ('s, 'k) shared_log =
  sl_log :: "'s facts_log"
  sl_next_fact_id :: u64
  fact_sources :: "(fact_id \<times> u64) list"
  fact_origins :: "(fact_id \<times> u64) list"
  sl_signer :: "'k audit_signer option"
  sl_key_id :: string
  sl_engine_id :: string
  sl_interval :: u64
  records_since_anchor :: u64
  sl_anchors :: "shared_anchor list"
  used_at_startup :: "(u64 \<times> fact_id list) list"
  rolled_up :: "fact_id list"
  metadata_file :: "shared_metadata option option"

definition shared_with :: "'s facts_log \<Rightarrow> ('s, 'k) shared_log" where
  "shared_with l =
     \<lparr>sl_log = l, sl_next_fact_id = 1, fact_sources = bt_new, fact_origins = bt_new, sl_signer = None,
      sl_key_id = [], sl_engine_id = [], sl_interval = 0, records_since_anchor = 0, sl_anchors = [],
      used_at_startup = bt_new, rolled_up = [], metadata_file = None\<rparr>"

definition shared_new :: "('s, 'k) shared_log" where
  "shared_new = shared_with log_new"

definition shared_with_wal :: "disk \<Rightarrow> (wal_writer \<times> disk, 'k) shared_log" where
  "shared_with_wal d = shared_with (with_wal_options 0 d)"

text \<open>A \<open>BTreeSet\<close> is the sorted list of its elements.\<close>

definition set_insert :: "'a::linorder \<Rightarrow> 'a list \<Rightarrow> 'a list" where
  "set_insert x xs = (if x \<in> set xs then xs else insort x xs)"

section \<open>Metadata\<close>

definition metadata_of :: "('s, 'k) shared_log \<Rightarrow> shared_metadata" where
  "metadata_of s =
     \<lparr>m_next_fact_id = sl_next_fact_id s, m_fact_sources = fact_sources s, m_fact_origins = fact_origins s,
      m_used_at_startup = used_at_startup s, m_rolled_up = rolled_up s, m_anchors = sl_anchors s\<rparr>"

text \<open>\<open>write_metadata_atomic\<close> replaces the file or leaves it; a failure is logged and ignored.\<close>

definition persist_metadata :: "bool \<Rightarrow> ('s, 'k) shared_log \<Rightarrow> ('s, 'k) shared_log" where
  "persist_metadata written s =
     (case metadata_file s of
        None \<Rightarrow> s
      | Some _ \<Rightarrow> if written then s\<lparr>metadata_file := Some (Some (metadata_of s))\<rparr> else s)"

definition metadata_digest ::
  "(string \<Rightarrow> string) \<Rightarrow> (shared_metadata \<Rightarrow> string) \<Rightarrow> ('s, 'k) shared_log \<Rightarrow> string" where
  "metadata_digest blake3 meta_text s = blake3 (meta_text ((metadata_of s)\<lparr>m_anchors := []\<rparr>))"

section \<open>Anchors\<close>

definition shared_with_anchor ::
  "'k audit_signer \<Rightarrow> string \<Rightarrow> string \<Rightarrow> u64 \<Rightarrow> ('s, 'k) shared_log \<Rightarrow> ('s, 'k) shared_log" where
  "shared_with_anchor signer kid eng interval s =
     s\<lparr>sl_signer := Some signer, sl_key_id := kid, sl_engine_id := eng, sl_interval := interval\<rparr>"

definition shared_prev :: "shared_anchor list \<Rightarrow> string" where
  "shared_prev as = (if as = [] then SHARED_LEDGER_ANCHOR_GENESIS else sa_anchor_hash (last as))"

definition shared_seal ::
  "'k ed25519 \<Rightarrow> (string \<Rightarrow> string) \<Rightarrow> (shared_metadata \<Rightarrow> string) \<Rightarrow> bool \<Rightarrow> ('s, 'k) shared_log \<Rightarrow>
   (facts_log_error + shared_anchor) \<times> ('s, 'k) shared_log" where
  "shared_seal ed blake3 meta_text written s =
     (case sl_signer s of
        None \<Rightarrow> (Inl (WalError ''anchor not configured''), s)
      | Some signer \<Rightarrow>
          (let a0 = \<lparr>sa_seq = word_of_nat (length (sl_anchors s)), sa_records = word_of_nat (length (history (sl_log s))),
                     sa_chain_head = last_hash (sl_log s), sa_metadata_digest = metadata_digest blake3 meta_text s,
                     sa_anchor_hash = [], sa_key_id = sl_key_id s, sa_engine_id = sl_engine_id s, sa_signature = []\<rparr>;
               a1 = a0\<lparr>sa_anchor_hash := compute_hash blake3 (shared_prev (sl_anchors s)) a0\<rparr>;
               a = a1\<lparr>sa_signature := hex_encode (signature_bytes ed signer (shared_signature_payload a1))\<rparr> in
           (Inr a, persist_metadata written (s\<lparr>sl_anchors := sl_anchors s @ [a], records_since_anchor := 0\<rparr>))))"

definition anchor_err :: "string \<Rightarrow> nat \<Rightarrow> facts_log_error" where
  "anchor_err what i = WalError (''shared anchor '' @ what @ '' at ['' @ dec_nat i @ '']'')"

definition check_shared_signature :: "'k ed25519 \<Rightarrow> nat \<Rightarrow> string \<Rightarrow> shared_anchor \<Rightarrow> facts_log_error + unit" where
  "check_shared_signature ed i key a =
     and_then (map_err (\<lambda>e. WalError (''bad pubkey: '' @ sign_error_display e)) (hex_decode key)) (\<lambda>pk.
     if length pk \<noteq> 32 then Inl (WalError ''bad pubkey length'')
     else
       and_then (map_err (\<lambda>e. WalError (''bad signature: '' @ sign_error_display e)) (hex_decode (sa_signature a))) (\<lambda>sig.
       if length sig \<noteq> 64 then Inl (WalError ''bad signature length'')
       else
         and_then (map_err (\<lambda>e. WalError (sign_error_display e)) (verify_signature ed pk (shared_signature_payload a) sig)) (\<lambda>ok.
         if ok then Inr () else Inl (anchor_err ''signature invalid'' i))))"

fun verify_shared_from ::
  "'k ed25519 \<Rightarrow> (string \<Rightarrow> string) \<Rightarrow> key_table \<Rightarrow> nat \<Rightarrow> string \<Rightarrow> shared_anchor list \<Rightarrow> facts_log_error + unit" where
  "verify_shared_from ed blake3 keys i prev [] = Inr ()"
| "verify_shared_from ed blake3 keys i prev (a # as) =
     (if sa_seq a \<noteq> word_of_nat i then Inl (anchor_err ''seq broken'' i)
      else if compute_hash blake3 prev a \<noteq> sa_anchor_hash a then Inl (anchor_err ''chain broken'' i)
      else
        and_then (ok_or (WalError (''unknown anchor key '' @ sa_key_id a)) (bt_get (sa_key_id a) keys)) (\<lambda>key.
        and_then (check_shared_signature ed i key a) (\<lambda>_.
        verify_shared_from ed blake3 keys (i + 1) (sa_anchor_hash a) as)))"

definition verify_shared_anchors ::
  "'k ed25519 \<Rightarrow> (string \<Rightarrow> string) \<Rightarrow> (shared_metadata \<Rightarrow> string) \<Rightarrow> key_table \<Rightarrow> bool \<Rightarrow> ('s, 'k) shared_log \<Rightarrow>
   facts_log_error + shared_anchor_report" where
  "verify_shared_anchors ed blake3 meta_text keys check_binding s =
     map_ok (\<lambda>_.
       let as = sl_anchors s; bound = (check_binding \<and> as \<noteq> []) in
       \<lparr>anchor_count = length as,
        binding_chain_head_match = (bound \<and> sa_chain_head (last as) = last_hash (sl_log s)),
        binding_metadata_match = (bound \<and> sa_metadata_digest (last as) = metadata_digest blake3 meta_text s)\<rparr>)
     (verify_shared_from ed blake3 keys 0 SHARED_LEDGER_ANCHOR_GENESIS (sl_anchors s))"

section \<open>Appending\<close>

text \<open>
  \<open>append_inner\<close>, with the anchor sealed when the interval is reached; the two flags say whether the
  metadata writes succeed.  The identifier is consumed even when the append fails.
\<close>

definition count_record :: "('s, 'k) shared_log \<Rightarrow> ('s, 'k) shared_log" where
  "count_record s = s\<lparr>records_since_anchor := records_since_anchor s + 1\<rparr>"

definition seal_if_due ::
  "'k ed25519 \<Rightarrow> (string \<Rightarrow> string) \<Rightarrow> (shared_metadata \<Rightarrow> string) \<Rightarrow> bool \<Rightarrow> ('s, 'k) shared_log \<Rightarrow> ('s, 'k) shared_log" where
  "seal_if_due ed blake3 meta_text written s =
     (if sl_interval s > 0 \<and> records_since_anchor s \<ge> sl_interval s
      then snd (shared_seal ed blake3 meta_text written s) else s)"

definition record_source :: "fact_id \<Rightarrow> u64 \<Rightarrow> u64 option \<Rightarrow> ('s, 'k) shared_log \<Rightarrow> ('s, 'k) shared_log" where
  "record_source fid source origin s =
     s\<lparr>fact_sources := bt_put fid source (fact_sources s),
       fact_origins := (case origin of None \<Rightarrow> fact_origins s | Some x \<Rightarrow> bt_put fid x (fact_origins s))\<rparr>"

definition append_inner ::
  "'k ed25519 \<Rightarrow> 's store_op \<Rightarrow> (string \<Rightarrow> string) \<Rightarrow> (serde \<Rightarrow> string) \<Rightarrow> (shared_metadata \<Rightarrow> string) \<Rightarrow> bool \<Rightarrow> bool \<Rightarrow>
   string \<Rightarrow> json \<Rightarrow> u64 \<Rightarrow> u64 option \<Rightarrow> ('s, 'k) shared_log \<Rightarrow> (facts_log_error + u64) \<times> ('s, 'k) shared_log" where
  "append_inner ed store blake3 ser meta_text written written' path v source origin s =
     (let fid = sl_next_fact_id s in
      case checked_inc_u64 fid of
        None \<Rightarrow> (Inl VersionOverflow, s)
      | Some nxt \<Rightarrow>
          (let s1 = s\<lparr>sl_next_fact_id := nxt\<rparr>;
               (r, l) = append store blake3 ser (PayloadUpdate fid path v) (sl_log s1);
               s2 = s1\<lparr>sl_log := l\<rparr> in
           case r of
             Inl e \<Rightarrow> (Inl e, s2)
           | Inr ver \<Rightarrow>
               (Inr ver, seal_if_due ed blake3 meta_text written'
                  (count_record (persist_metadata written (record_source fid source origin s2))))))"

definition shared_append where
  "shared_append ed store blake3 ser meta_text written written' path v source s =
     append_inner ed store blake3 ser meta_text written written' path v source None s"

definition append_with_origin where
  "append_with_origin ed store blake3 ser meta_text written written' path v source origin s =
     append_inner ed store blake3 ser meta_text written written' path v source origin s"

definition shared_rotate_wal :: "'s rotate_op \<Rightarrow> ('s, 'k) shared_log \<Rightarrow> (facts_log_error + bool) \<times> ('s, 'k) shared_log" where
  "shared_rotate_wal rot s = (let (r, l) = rotate_wal rot (sl_log s) in (r, s\<lparr>sl_log := l\<rparr>))"

section \<open>Queries\<close>

definition origin_fact_id :: "fact_id \<Rightarrow> ('s, 'k) shared_log \<Rightarrow> u64 option" where
  "origin_fact_id fid s = bt_get fid (fact_origins s)"

definition source_session_id :: "fact_id \<Rightarrow> ('s, 'k) shared_log \<Rightarrow> u64 option" where
  "source_session_id fid s = bt_get fid (fact_sources s)"

definition visible_fact :: "('s, 'k) shared_log \<Rightarrow> u64 \<times> fact \<Rightarrow> shared_fact option" where
  "visible_fact s x =
     (case snd x of
        PayloadUpdate fid path v \<Rightarrow>
          if fid \<in> set (rolled_up s) then None
          else Some \<lparr>sf_fact_id = fid, sf_path = path, sf_value = v,
                 sf_source_session_id = unwrap_or 0 (bt_get fid (fact_sources s)), sf_version = fst x,
                 sf_origin_fact_id = bt_get fid (fact_origins s)\<rparr>
      | _ \<Rightarrow> None)"

definition shared_by_path_prefix :: "string \<Rightarrow> ('s, 'k) shared_log \<Rightarrow> shared_fact list" where
  "shared_by_path_prefix prefix s = List.map_filter (visible_fact s) (facts_by_path_prefix prefix (sl_log s))"

fun find_fact :: "fact_id \<Rightarrow> (u64 \<times> fact) list \<Rightarrow> (u64 \<times> string \<times> json) option" where
  "find_fact fid [] = None"
| "find_fact fid ((ver, f) # hs) =
     (case f of
        PayloadUpdate i path v \<Rightarrow> if i = fid then Some (ver, path, v) else find_fact fid hs
      | _ \<Rightarrow> find_fact fid hs)"

definition fact_by_id :: "fact_id \<Rightarrow> ('s, 'k) shared_log \<Rightarrow> shared_fact option" where
  "fact_by_id fid s =
     (case bt_get fid (fact_sources s) of
        None \<Rightarrow> None
      | Some source \<Rightarrow>
          map_option (\<lambda>(ver, path, v).
            \<lparr>sf_fact_id = fid, sf_path = path, sf_value = v, sf_source_session_id = source, sf_version = ver,
             sf_origin_fact_id = bt_get fid (fact_origins s)\<rparr>)
            (find_fact fid (history_with_versions (sl_log s))))"

definition shared_version :: "('s, 'k) shared_log \<Rightarrow> u64" where
  "shared_version s = version (sl_log s)"

definition record_used_at_startup :: "bool \<Rightarrow> u64 \<Rightarrow> fact_id list \<Rightarrow> ('s, 'k) shared_log \<Rightarrow> ('s, 'k) shared_log" where
  "record_used_at_startup written session ids s =
     persist_metadata written (s\<lparr>used_at_startup := bt_put session ids (used_at_startup s)\<rparr>)"

definition get_used_at_startup :: "u64 \<Rightarrow> ('s, 'k) shared_log \<Rightarrow> fact_id list option" where
  "get_used_at_startup session s = bt_get session (used_at_startup s)"

definition get_sessions_using_fact :: "fact_id \<Rightarrow> ('s, 'k) shared_log \<Rightarrow> u64 list" where
  "get_sessions_using_fact fid s = map fst (filter (\<lambda>(_, ids). fid \<in> set ids) (used_at_startup s))"

fun mark_loop :: "fact_id list \<Rightarrow> ('s, 'k) shared_log \<Rightarrow> rollup_outcome \<Rightarrow> rollup_outcome \<times> ('s, 'k) shared_log" where
  "mark_loop [] s out = (out, s)"
| "mark_loop (i # is) s out =
     (if bt_contains i (fact_sources s)
      then mark_loop is (s\<lparr>rolled_up := set_insert i (rolled_up s)\<rparr>) (out\<lparr>marked := marked out + 1\<rparr>)
      else mark_loop is s (out\<lparr>unknown_ids := unknown_ids out @ [i]\<rparr>))"

definition mark_as_rollup :: "bool \<Rightarrow> fact_id list \<Rightarrow> ('s, 'k) shared_log \<Rightarrow> rollup_outcome \<times> ('s, 'k) shared_log" where
  "mark_as_rollup written ids s =
     (let (out, s') = mark_loop ids s \<lparr>marked = 0, unknown_ids = []\<rparr> in (out, persist_metadata written s'))"

definition is_rolled_up :: "fact_id \<Rightarrow> ('s, 'k) shared_log \<Rightarrow> bool" where
  "is_rolled_up fid s = (fid \<in> set (rolled_up s))"

definition shared_reset :: "('s, 'k) shared_log \<Rightarrow> ('s, 'k) shared_log" where
  "shared_reset s =
     s\<lparr>sl_log := log_reset (sl_log s), sl_next_fact_id := 1, fact_sources := bt_new, used_at_startup := bt_new,
       rolled_up := []\<rparr>"

section \<open>Recovery\<close>

definition update_id :: "fact \<Rightarrow> u64 option" where
  "update_id f = (case f of PayloadUpdate fid _ _ \<Rightarrow> Some fid | _ \<Rightarrow> None)"

definition detect_orphan_facts :: "'s facts_log \<Rightarrow> (fact_id \<times> u64) list \<Rightarrow> facts_log_error + u64 list" where
  "detect_orphan_facts l sources =
     map_ok (\<lambda>fs. filter (\<lambda>i. \<not> bt_contains i sources) (sorted_list_of_set (set (List.map_filter update_id fs))))
       (read_from 0 l)"

definition verify_causal_consistency :: "('s, 'k) shared_log \<Rightarrow> facts_log_error + u64 list" where
  "verify_causal_consistency s = detect_orphan_facts (sl_log s) (fact_sources s)"

fun verify_records ::
  "(string \<Rightarrow> string) \<Rightarrow> (serde \<Rightarrow> string) \<Rightarrow> nat \<Rightarrow> string \<Rightarrow> wal_record list \<Rightarrow> facts_log_error + unit" where
  "verify_records blake3 ser idx prev [] = Inr ()"
| "verify_records blake3 ser idx prev (r # rs) =
     (let f = wal_fact r; num_id = dec_nat (unat (fact_id_of f)); content = fact_hash blake3 ser f;
          chain = chain_step blake3 prev content in
      if wal_content_hash r \<noteq> None \<and> wal_content_hash r \<noteq> Some content
      then Inl (WalError (''shared facts WAL content_hash mismatch at fact '' @ num_id))
      else if wal_prev_hash r \<noteq> None \<and> wal_prev_hash r \<noteq> Some prev
      then Inl (WalError (''shared facts WAL chain broken at index '' @ dec_nat idx @ '' (fact '' @ num_id @ '')''))
      else if wal_chain_hash r \<noteq> None \<and> wal_chain_hash r \<noteq> Some chain
      then Inl (WalError (''shared facts WAL chain_hash mismatch at fact '' @ num_id))
      else verify_records blake3 ser (idx + 1) chain rs)"

definition verify_wal_chain ::
  "(string \<Rightarrow> string) \<Rightarrow> (serde \<Rightarrow> string) \<Rightarrow> (string \<Rightarrow> string + serde) \<Rightarrow> disk \<Rightarrow> facts_log_error + unit" where
  "verify_wal_chain blake3 ser de d =
     and_then (map_err (\<lambda>e. WalError (wal_error_display e)) (read_wal_with_hash de d))
       (verify_records blake3 ser 0 genesis)"

text \<open>
  \<open>recover\<close>: the disk of the log, empty when there is none, and the metadata file: an error, no file, or
  its value.  The orphans it logs are those of \<open>verify_causal_consistency\<close>.
\<close>

definition recover_log ::
  "(string \<Rightarrow> string) \<Rightarrow> (serde \<Rightarrow> string) \<Rightarrow> (string \<Rightarrow> string + serde) \<Rightarrow> disk \<Rightarrow>
   facts_log_error + (wal_writer \<times> disk) facts_log" where
  "recover_log blake3 ser de d =
     (if bt_contains 0 d
      then and_then (verify_wal_chain blake3 ser de d) (\<lambda>_. recover_with_options blake3 ser de 0 d)
      else Inr (with_wal_options 0 d))"

definition shared_recover ::
  "(string \<Rightarrow> string) \<Rightarrow> (serde \<Rightarrow> string) \<Rightarrow> (string \<Rightarrow> string + serde) \<Rightarrow> disk \<Rightarrow> string + shared_metadata option \<Rightarrow>
   facts_log_error + (wal_writer \<times> disk, 'k) shared_log" where
  "shared_recover blake3 ser de d file =
     and_then (recover_log blake3 ser de d) (\<lambda>l.
     and_then (map_err (\<lambda>e. WalError (''metadata '' @ e)) file) (\<lambda>m.
     let meta = unwrap_or metadata_default m in
     Inr ((shared_with l)\<lparr>sl_next_fact_id := max (m_next_fact_id meta) 1, fact_sources := m_fact_sources meta,
       fact_origins := m_fact_origins meta, used_at_startup := m_used_at_startup meta,
       rolled_up := m_rolled_up meta, sl_anchors := m_anchors meta, metadata_file := Some m\<rparr>)))"

section \<open>Frames\<close>

definition ids_of :: "'s facts_log \<Rightarrow> fact_id list" where
  "ids_of l = map (fact_id_of \<circ> snd) (history l)"

definition bare_metadata :: "shared_metadata \<Rightarrow> shared_metadata" where
  "bare_metadata m = m\<lparr>m_next_fact_id := 0\<rparr>"

lemma persist_frame [simp]:
  "sl_log (persist_metadata w s) = sl_log s" "fact_sources (persist_metadata w s) = fact_sources s"
  "sl_next_fact_id (persist_metadata w s) = sl_next_fact_id s" "metadata_of (persist_metadata w s) = metadata_of s"
  "sl_anchors (persist_metadata w s) = sl_anchors s" "sl_signer (persist_metadata w s) = sl_signer s"
  "fact_origins (persist_metadata w s) = fact_origins s" "rolled_up (persist_metadata w s) = rolled_up s"
  "sl_key_id (persist_metadata w s) = sl_key_id s"
  by (simp_all add: persist_metadata_def metadata_of_def split: option.splits)

lemma persist_file: "metadata_file s = Some m \<Longrightarrow> metadata_file (persist_metadata True s) = Some (Some (metadata_of s))"
  by (simp add: persist_metadata_def)

lemma seal_frame [simp]:
  "sl_log (snd (shared_seal ed blake3 mt w s)) = sl_log s" "fact_sources (snd (shared_seal ed blake3 mt w s)) = fact_sources s"
  "sl_next_fact_id (snd (shared_seal ed blake3 mt w s)) = sl_next_fact_id s"
  "fact_origins (snd (shared_seal ed blake3 mt w s)) = fact_origins s"
  "rolled_up (snd (shared_seal ed blake3 mt w s)) = rolled_up s"
  by (simp_all add: shared_seal_def Let_def split: option.splits)

lemma seal_due_frame [simp]:
  "sl_log (seal_if_due ed blake3 mt w s) = sl_log s" "fact_sources (seal_if_due ed blake3 mt w s) = fact_sources s"
  "sl_next_fact_id (seal_if_due ed blake3 mt w s) = sl_next_fact_id s"
  "fact_origins (seal_if_due ed blake3 mt w s) = fact_origins s" "rolled_up (seal_if_due ed blake3 mt w s) = rolled_up s"
  by (simp_all add: seal_if_due_def)

lemma count_frame [simp]:
  "sl_log (count_record s) = sl_log s" "fact_sources (count_record s) = fact_sources s"
  "sl_next_fact_id (count_record s) = sl_next_fact_id s" "metadata_of (count_record s) = metadata_of s"
  "metadata_file (count_record s) = metadata_file s" "fact_origins (count_record s) = fact_origins s"
  "rolled_up (count_record s) = rolled_up s"
  by (simp_all add: count_record_def metadata_of_def)

lemma source_frame [simp]:
  "sl_log (record_source i x o' s) = sl_log s" "fact_sources (record_source i x o' s) = bt_put i x (fact_sources s)"
  "sl_next_fact_id (record_source i x o' s) = sl_next_fact_id s" "metadata_file (record_source i x o' s) = metadata_file s"
  "rolled_up (record_source i x o' s) = rolled_up s"
  by (simp_all add: record_source_def)

lemma mark_loop_frame:
  assumes "mark_loop is s out = (out', s')"
  shows "sl_log s' = sl_log s" "fact_sources s' = fact_sources s" "sl_next_fact_id s' = sl_next_fact_id s"
    "metadata_file s' = metadata_file s"
  using assms by (induction "is" s out rule: mark_loop.induct) (auto split: if_splits)

section \<open>Identifiers, sources and the metadata file\<close>

definition sl_inv :: "('s, 'k) shared_log \<Rightarrow> bool" where
  "sl_inv s \<longleftrightarrow>
     (\<forall>x \<in> set (history (sl_log s)). update_id (snd x) \<noteq> None) \<and> distinct (ids_of (sl_log s)) \<and>
     (\<forall>i. bt_contains i (fact_sources s) \<longleftrightarrow> i \<in> set (ids_of (sl_log s))) \<and>
     (\<forall>i \<in> set (ids_of (sl_log s)). i < sl_next_fact_id s) \<and> sl_next_fact_id s \<noteq> 0"

text \<open>The metadata file has everything but the last identifiers that were consumed by failed appends.\<close>

definition file_ok :: "('s, 'k) shared_log \<Rightarrow> bool" where
  "file_ok s \<longleftrightarrow>
     (\<exists>m. metadata_file s = Some m \<and> bare_metadata (unwrap_or metadata_default m) = bare_metadata (metadata_of s) \<and>
        (\<forall>i \<in> set (ids_of (sl_log s)). i < max (m_next_fact_id (unwrap_or metadata_default m)) 1))"

lemma file_ok_written:
  assumes "sl_inv s" "metadata_file s = Some (Some (metadata_of s))"
  shows "file_ok s"
  using assms by (auto simp: file_ok_def sl_inv_def metadata_of_def unwrap_or_def max.strict_coboundedI1)

lemma seal_file:
  assumes "metadata_file s = Some m"
  shows "metadata_file (snd (shared_seal ed blake3 mt True s)) =
    (if sl_signer s = None then Some m else Some (Some (metadata_of (snd (shared_seal ed blake3 mt True s)))))"
  using assms by (simp add: shared_seal_def Let_def persist_file split: option.splits)

lemma seal_none: "sl_signer s = None \<Longrightarrow> snd (shared_seal ed blake3 mt w s) = s"
  by (simp add: shared_seal_def)

lemma seal_due_file:
  assumes "metadata_file s = Some (Some (metadata_of s))"
  shows "metadata_file (seal_if_due ed blake3 mt True s) = Some (Some (metadata_of (seal_if_due ed blake3 mt True s)))"
  using assms seal_file [OF assms, of ed blake3 mt] seal_none [of s ed blake3 mt True] by (auto simp: seal_if_due_def)

lemma checked_inc_greater:
  assumes "checked_inc_u64 v = Some n"
  shows "v < n" "x < v \<Longrightarrow> x < n" "n \<noteq> 0"
proof -
  have "unat n = unat v + 1" using assms by (auto simp: checked_inc_u64_def unat_inc_u64 split: if_splits)
  then show "v < n" by (simp add: word_less_nat_alt)
  then show "x < n" if "x < v" using that by (rule order.strict_trans [rotated])
  show "n \<noteq> 0" using \<open>v < n\<close> by auto
qed

lemma bt_contains_put [simp]: "bt_contains j (bt_put k v m) \<longleftrightarrow> j = k \<or> bt_contains j m"
  by (simp add: bt_contains_def)

text \<open>The three outcomes of an append: no identifier left, refused by the log, recorded.\<close>

lemma append_inner_cases:
  assumes "version (sl_log s) \<noteq> - 1"
  obtains (exhausted) "append_inner ed store blake3 ser mt w w' path v source origin s = (Inl VersionOverflow, s)"
  | (refused) e nxt where "checked_inc_u64 (sl_next_fact_id s) = Some nxt"
      "append_inner ed store blake3 ser mt w w' path v source origin s =
         (Inl e, s\<lparr>sl_next_fact_id := nxt, sl_log := snd (append store blake3 ser (PayloadUpdate (sl_next_fact_id s) path v) (sl_log s))\<rparr>)"
      "history (snd (append store blake3 ser (PayloadUpdate (sl_next_fact_id s) path v) (sl_log s))) = history (sl_log s)"
  | (recorded) ver nxt s2 where "checked_inc_u64 (sl_next_fact_id s) = Some nxt"
      "s2 = s\<lparr>sl_next_fact_id := nxt, sl_log := snd (append store blake3 ser (PayloadUpdate (sl_next_fact_id s) path v) (sl_log s))\<rparr>"
      "append_inner ed store blake3 ser mt w w' path v source origin s =
         (Inr ver, seal_if_due ed blake3 mt w' (count_record (persist_metadata w (record_source (sl_next_fact_id s) source origin s2))))"
      "history (sl_log s2) = history (sl_log s) @ [(version (sl_log s), PayloadUpdate (sl_next_fact_id s) path v)]"
proof (cases "checked_inc_u64 (sl_next_fact_id s)")
  case None
  then show thesis using exhausted by (simp add: append_inner_def Let_def)
next
  case (Some nxt)
  let ?f = "PayloadUpdate (sl_next_fact_id s) path v"
  show thesis
    using assms
  proof (cases rule: append_outcome [of _ store blake3 ser ?f])
    case (failed e)
    then show thesis using Some by (intro refused [of nxt "WalError e"]) (auto simp: append_inner_def Let_def)
  next
    case (written l1)
    then have "history (snd (append store blake3 ser ?f (sl_log s))) = history (sl_log s) @ [(version (sl_log s), ?f)]"
      by (auto simp: record_step_history)
    then show thesis using Some written
      by (intro recorded [of nxt _ "version (record_step (version (sl_log s)) ?f l1)"]) (auto simp: append_inner_def Let_def)
  qed
qed

lemma append_inner_inv:
  assumes "sl_inv s" "version (sl_log s) \<noteq> - 1"
  shows "sl_inv (snd (append_inner ed store blake3 ser mt w w' path v source origin s))"
  using assms(2)
proof (cases rule: append_inner_cases [of _ ed store blake3 ser mt w w' path v source origin])
  case exhausted
  then show ?thesis using assms(1) by simp
next
  case (refused e nxt)
  then show ?thesis using assms(1) checked_inc_greater by (auto simp: sl_inv_def ids_of_def)
next
  case (recorded ver nxt s2)
  then have "ids_of (sl_log s2) = ids_of (sl_log s) @ [sl_next_fact_id s]" by (simp add: ids_of_def)
  then show ?thesis
    using recorded assms(1) checked_inc_greater [OF recorded(1)] by (auto simp: sl_inv_def update_id_def)
qed

lemma append_inner_file:
  assumes "sl_inv s" "file_ok s" "version (sl_log s) \<noteq> - 1"
  shows "file_ok (snd (append_inner ed store blake3 ser mt True True path v source origin s))"
  using assms(3)
proof (cases rule: append_inner_cases [of _ ed store blake3 ser mt True True path v source origin])
  case exhausted
  then show ?thesis using assms(2) by simp
next
  case (refused e nxt)
  then show ?thesis using assms(2) by (auto simp: file_ok_def ids_of_def metadata_of_def bare_metadata_def)
next
  case (recorded ver nxt s2)
  let ?s3 = "count_record (persist_metadata True (record_source (sl_next_fact_id s) source origin s2))"
  from assms(2) obtain m where "metadata_file s = Some m" by (auto simp: file_ok_def)
  with recorded(2) have "metadata_file ?s3 = Some (Some (metadata_of ?s3))" by (simp add: persist_file)
  then show ?thesis
    using seal_due_file append_inner_inv [OF assms(1,3)] recorded(3) by (metis file_ok_written snd_conv)
qed

section \<open>The life of a ledger on files\<close>

text \<open>
  Started without files, any number of operations, and restarts from the disk and the metadata file.
  Writes of the log may be refused; writes of the metadata succeed.
\<close>

inductive shared_life ::
  "'k ed25519 \<Rightarrow> (string \<Rightarrow> string) \<Rightarrow> (serde \<Rightarrow> string) \<Rightarrow> (string \<Rightarrow> string + serde) \<Rightarrow> (shared_metadata \<Rightarrow> string) \<Rightarrow>
   (wal_writer \<times> disk, 'k) shared_log \<Rightarrow> bool"
  for ed blake3 ser de mt where
  sl_start: "shared_recover blake3 ser de [] (Inr None) = Inr s \<Longrightarrow> shared_life ed blake3 ser de mt s"
| sl_append: "shared_life ed blake3 ser de mt s \<Longrightarrow> canonical_json v \<Longrightarrow> version (sl_log s) \<noteq> - 1 \<Longrightarrow>
    shared_life ed blake3 ser de mt
      (snd (append_inner ed (file_store os ser) blake3 ser mt True True path v source origin s))"
| sl_mark: "shared_life ed blake3 ser de mt s \<Longrightarrow> shared_life ed blake3 ser de mt (snd (mark_as_rollup True ids s))"
| sl_used: "shared_life ed blake3 ser de mt s \<Longrightarrow> shared_life ed blake3 ser de mt (record_used_at_startup True session ids s)"
| sl_anchor: "shared_life ed blake3 ser de mt s \<Longrightarrow>
    shared_life ed blake3 ser de mt (shared_with_anchor signer kid eng interval s)"
| sl_seal: "shared_life ed blake3 ser de mt s \<Longrightarrow> shared_life ed blake3 ser de mt (snd (shared_seal ed blake3 mt True s))"
| sl_rotate: "shared_life ed blake3 ser de mt s \<Longrightarrow>
    shared_life ed blake3 ser de mt (snd (shared_rotate_wal (file_rotate os') s))"
| sl_restart: "shared_life ed blake3 ser de mt s \<Longrightarrow>
    shared_recover blake3 ser de (snd (the (wal (sl_log s)))) (Inr (the (metadata_file s))) = Inr s' \<Longrightarrow>
    shared_life ed blake3 ser de mt s'"

lemma verify_records_chained: "hash_chained blake3 ser prev rs \<Longrightarrow> verify_records blake3 ser idx prev rs = Inr ()"
  by (induction rs arbitrary: idx prev) (auto simp: Let_def)

lemma life_main_file:
  assumes "json_text ser de" "log_life blake3 ser de limit l"
  shows "bt_contains 0 (snd (the (wal l)))"
  using log_life_durable [OF assms]
  by (auto simp: durable_with_def file_holds_def writer_inv_def segments_def bt_contains_def)

lemma life_log_inv:
  assumes "json_text ser de"
  shows "log_life blake3 ser de limit l \<Longrightarrow> log_inv l \<and> compacted l = None"
proof (induction rule: log_life.induct)
  case created
  then show ?case by (simp add: with_wal_options_def log_inv_new) (simp add: with_wal_store_def log_new_def)
next
  case (appended l f os)
  have "compacted (snd (append (file_store os ser) blake3 ser f l)) = compacted l"
    using appended.hyps(3)
  proof (cases rule: append_outcome [of _ "file_store os ser" blake3 ser f])
    case (written l1)
    let ?m = "index_fact (version l) f (length (history l1)) (push_history (version l) f l1)"
    obtain l' e where e: "apply_fact_to_state f ?m = (l', e)" by fastforce
    from apply_fact_frame(7) [OF e] e written show ?thesis by (auto simp: record_step_def log_frames)
  qed simp
  then show ?case using appended append_inv by auto
next
  case (rotated l os')
  then show ?case by (auto simp: rotate_wal_def log_inv_hash split: option.splits sum.splits)
next
  case (restarted l l')
  from recover_durable [OF assms log_life_durable [OF assms restarted.hyps(1)]] restarted.hyps(2)
  have "l' = (in_memory l)\<lparr>wal := Some (append_with_options limit (snd (the (wal l))))\<rparr>" by simp
  then show ?case using restarted.IH by (simp add: in_memory_def log_inv_hash)
qed

lemma recovered_log:
  assumes "json_text ser de" "log_life blake3 ser de 0 l"
  obtains l' where "recover_log blake3 ser de (snd (the (wal l))) = Inr l'" "log_life blake3 ser de 0 l'"
    "history l' = history l" "last_hash l' = last_hash l" "version l' = version l"
    "recover_with_options blake3 ser de 0 (snd (the (wal l))) = Inr l'"
proof -
  from assms obtain w d rs where r: "wal l = Some (w, d)" "read_wal_with_hash de d = Inr rs" "hash_chained blake3 ser genesis rs"
    by (rule life_records)
  let ?l = "(in_memory l)\<lparr>wal := Some (append_with_options 0 d)\<rparr>"
  have rec: "recover_with_options blake3 ser de 0 d = Inr ?l"
    using recover_durable [OF assms(1) log_life_durable [OF assms], of 0] r(1) by simp
  have "verify_wal_chain blake3 ser de d = Inr ()"
    using r by (simp add: verify_wal_chain_def verify_records_chained result_simps)
  then have "recover_log blake3 ser de d = Inr ?l"
    using life_main_file [OF assms] r(1) rec by (simp add: recover_log_def result_simps)
  moreover have "log_life blake3 ser de 0 ?l" using restarted [OF assms(2)] r(1) rec by simp
  ultimately show thesis using r(1) rec by (intro that [of ?l]) (simp_all add: in_memory_def)
qed

lemma recovered_shared:
  fixes s :: "(wal_writer \<times> disk, 'k) shared_log"
  assumes "json_text ser de" "log_life blake3 ser de 0 (sl_log s)" "sl_inv s" "file_ok s"
  obtains s' :: "(wal_writer \<times> disk, 'k) shared_log" where "shared_recover blake3 ser de (snd (the (wal (sl_log s)))) (Inr (the (metadata_file s))) = Inr s'"
    "log_life blake3 ser de 0 (sl_log s')" "sl_inv s'" "file_ok s'" "history (sl_log s') = history (sl_log s)"
    "last_hash (sl_log s') = last_hash (sl_log s)" "version (sl_log s') = version (sl_log s)"
    "bare_metadata (metadata_of s') = bare_metadata (metadata_of s)"
proof -
  obtain l' where l: "recover_log blake3 ser de (snd (the (wal (sl_log s)))) = Inr l'" "log_life blake3 ser de 0 l'"
    "history l' = history (sl_log s)" "last_hash l' = last_hash (sl_log s)" "version l' = version (sl_log s)"
    using assms(1,2) by (rule recovered_log)
  from assms(4) obtain m where m: "metadata_file s = Some m" "bare_metadata (unwrap_or metadata_default m) = bare_metadata (metadata_of s)"
    "\<forall>i \<in> set (ids_of (sl_log s)). i < max (m_next_fact_id (unwrap_or metadata_default m)) 1"
    by (auto simp: file_ok_def)
  define meta where "meta = unwrap_or metadata_default m"
  let ?s = "(shared_with l')\<lparr>sl_next_fact_id := max (m_next_fact_id meta) 1, fact_sources := m_fact_sources meta,
     fact_origins := m_fact_origins meta, used_at_startup := m_used_at_startup meta,
     rolled_up := m_rolled_up meta, sl_anchors := m_anchors meta, metadata_file := Some m\<rparr>"
  have bare: "bare_metadata (metadata_of ?s) = bare_metadata (metadata_of s)"
    using m(2) by (cases meta) (simp add: meta_def [symmetric] bare_metadata_def metadata_of_def)
  then have src: "m_fact_sources meta = fact_sources s" by (simp add: bare_metadata_def metadata_of_def)
  have ids: "ids_of l' = ids_of (sl_log s)" using l(3) by (simp add: ids_of_def)
  have "max (m_next_fact_id meta) 1 \<noteq> 0" by (metis max.cobounded2 word_le_0_iff zero_neq_one)
  then have "sl_inv ?s" using assms(3) m(3) src ids l(3) by (simp add: sl_inv_def shared_with_def meta_def)
  moreover have "file_ok ?s"
    unfolding file_ok_def bare by (rule exI [of _ m]) (use m ids in \<open>simp add: shared_with_def\<close>)
  ultimately show thesis
    using l m(1) bare by (intro that [of ?s]) (simp_all add: shared_recover_def shared_with_def meta_def Let_def result_simps)
qed

lemma shared_life_inv:
  fixes s :: "(wal_writer \<times> disk, 'k) shared_log"
  assumes "json_text ser de"
  shows "shared_life ed blake3 ser de mt s \<Longrightarrow> log_life blake3 ser de 0 (sl_log s) \<and> sl_inv s \<and> file_ok s"
proof (induction rule: shared_life.induct)
  case (sl_start s)
  then have "s = (shared_with (with_wal_options 0 []))\<lparr>metadata_file := Some None\<rparr>"
    by (simp add: shared_recover_def recover_log_def bt_contains_def result_simps unwrap_or_def metadata_default_def shared_with_def)
  then show ?case
    using log_life.created [of blake3 ser de 0]
    by (simp add: sl_inv_def file_ok_def ids_of_def shared_with_def with_wal_options_def with_wal_store_def log_new_def
        bt_contains_def unwrap_or_def metadata_default_def metadata_of_def bare_metadata_def bt_new_def)
next
  case (sl_append s v os path source origin)
  let ?f = "PayloadUpdate (sl_next_fact_id s) path v"
  have l: "log_life blake3 ser de 0 (snd (append (file_store os ser) blake3 ser ?f (sl_log s)))"
    using sl_append by (intro appended) auto
  have "log_life blake3 ser de 0 (sl_log (snd (append_inner ed (file_store os ser) blake3 ser mt True True path v source origin s)))"
    using sl_append.hyps(3)
    by (cases rule: append_inner_cases [of _ ed "file_store os ser" blake3 ser mt True True path v source origin])
      (use l sl_append.IH in auto)
  then show ?case using sl_append by (simp add: append_inner_inv append_inner_file)
next
  case (sl_mark s ids)
  obtain out s' where m: "mark_loop ids s \<lparr>marked = 0, unknown_ids = []\<rparr> = (out, s')" by fastforce
  note f = mark_loop_frame [OF m]
  from sl_mark obtain meta where "metadata_file s = Some meta" by (auto simp: file_ok_def)
  with f m have "metadata_file (snd (mark_as_rollup True ids s)) = Some (Some (metadata_of (snd (mark_as_rollup True ids s))))"
    by (simp add: mark_as_rollup_def persist_file)
  moreover have "sl_inv (snd (mark_as_rollup True ids s))" "sl_log (snd (mark_as_rollup True ids s)) = sl_log s"
    using sl_mark.IH f m by (simp_all add: mark_as_rollup_def sl_inv_def)
  ultimately show ?case using sl_mark.IH file_ok_written by simp
next
  case (sl_used s session ids)
  then obtain meta where "metadata_file s = Some meta" by (auto simp: file_ok_def)
  then have "metadata_file (record_used_at_startup True session ids s) =
      Some (Some (metadata_of (record_used_at_startup True session ids s)))"
    by (simp add: record_used_at_startup_def persist_file)
  moreover have "sl_inv (record_used_at_startup True session ids s)" "sl_log (record_used_at_startup True session ids s) = sl_log s"
    using sl_used.IH by (simp_all add: record_used_at_startup_def sl_inv_def)
  ultimately show ?case using sl_used.IH file_ok_written by simp
next
  case (sl_anchor s signer kid eng interval)
  then show ?case by (simp add: shared_with_anchor_def sl_inv_def file_ok_def metadata_of_def)
next
  case (sl_seal s)
  then obtain meta where m: "metadata_file s = Some meta" by (auto simp: file_ok_def)
  show ?case
  proof (cases "sl_signer s")
    case None
    then show ?thesis using sl_seal.IH by (simp add: seal_none)
  next
    case (Some signer)
    then have "metadata_file (snd (shared_seal ed blake3 mt True s)) = Some (Some (metadata_of (snd (shared_seal ed blake3 mt True s))))"
      using seal_file [OF m] by simp
    moreover have "sl_inv (snd (shared_seal ed blake3 mt True s))" using sl_seal.IH by (simp add: sl_inv_def)
    ultimately show ?thesis using sl_seal.IH file_ok_written by simp
  qed
next
  case (sl_rotate s os')
  let ?l = "snd (rotate_wal (file_rotate os') (sl_log s))"
  have "history ?l = history (sl_log s)" by (simp add: rotate_wal_def split: option.splits sum.splits)
  moreover have "log_life blake3 ser de 0 ?l" using sl_rotate.IH by (auto intro: rotated)
  ultimately show ?case
    using sl_rotate.IH by (auto simp: shared_rotate_wal_def sl_inv_def file_ok_def ids_of_def metadata_of_def split: prod.splits)
next
  case (sl_restart s s')
  from sl_restart.IH have i: "log_life blake3 ser de 0 (sl_log s)" "sl_inv s" "file_ok s" by auto
  obtain t :: "(wal_writer \<times> disk, 'k) shared_log" where "shared_recover blake3 ser de (snd (the (wal (sl_log s)))) (Inr (the (metadata_file s))) = Inr t"
    "log_life blake3 ser de 0 (sl_log t)" "sl_inv t" "file_ok t"
    using assms i by (rule recovered_shared)
  with sl_restart.hyps(2) show ?case by simp
qed

section \<open>Looking facts up\<close>

lemma find_fact_in:
  "distinct (map (fact_id_of \<circ> snd) hs) \<Longrightarrow> (ver, PayloadUpdate fid path v) \<in> set hs \<Longrightarrow>
   find_fact fid hs = Some (ver, path, v)"
proof (induction hs)
  case (Cons x hs)
  then show ?case by (cases x; cases "snd x") (force split: fact.splits)+
qed simp

lemma update_id_Some: "update_id f = Some i \<longleftrightarrow> (\<exists>p v. f = PayloadUpdate i p v)"
  by (cases f) (auto simp: update_id_def)

lemma orphans_of:
  assumes "log_inv l" "compacted l = None"
  shows "detect_orphan_facts l sources =
    Inr (filter (\<lambda>i. \<not> bt_contains i sources) (sorted_list_of_set (set (List.map_filter update_id (map snd (history l))))))"
proof -
  have "read_from 0 l = Inr (map snd (history l))"
    using assms read_start [of l 0] by (simp add: read_from_def log_inv_def versions_inv_def sorted_append)
  then show ?thesis by (simp add: detect_orphan_facts_def)
qed

lemma map_filter_ids:
  assumes "\<forall>x \<in> set (history l). update_id (snd x) \<noteq> None"
  shows "List.map_filter update_id (map snd (history l)) = ids_of l"
proof -
  have "List.map_filter update_id (map snd hs) = map (fact_id_of \<circ> snd) hs" if "\<forall>x \<in> set hs. update_id (snd x) \<noteq> None" for hs
    using that by (induction hs) (auto simp: update_id_Some, simp add: update_id_def)
  with assms show ?thesis by (simp add: ids_of_def)
qed

section \<open>Properties\<close>


definition sample_ledger :: "(wal_writer \<times> disk, byte list) shared_log" where
  "sample_ledger = (shared_with (with_wal_options 0 []))\<lparr>metadata_file := Some None\<rparr>"

lemma sample_ledger_start: "shared_life sample_ed sample_blake3 unary_ser unary_de (\<lambda>_. []) sample_ledger"
  by (rule sl_start)
    (simp add: sample_ledger_def shared_recover_def recover_log_def bt_contains_def result_simps unwrap_or_def
      metadata_default_def shared_with_def)

definition sample_ledger_one :: "(wal_writer \<times> disk, byte list) shared_log" where
  "sample_ledger_one = snd (append_inner sample_ed (file_store (\<lambda>_. None) unary_ser) sample_blake3 unary_ser (\<lambda>_. []) True True
     ''shared.a'' Null 100 None sample_ledger)"

lemma sample_ledger_life: "shared_life sample_ed sample_blake3 unary_ser unary_de (\<lambda>_. []) sample_ledger_one"
  unfolding sample_ledger_one_def
  by (rule sl_append [OF sample_ledger_start])
    (simp_all add: sample_ledger_def shared_with_def with_wal_options_def with_wal_store_def log_new_def)


text \<open>
  Recovery of a ledger.  At any point of its life, recovery from the log files and the metadata file
  passes the check of the whole chain and gives back the history, the chain head, the version, and all
  metadata, the anchors included.
\<close>

theorem ledger_recovers:
  fixes s :: "(wal_writer \<times> disk, 'k) shared_log"
  assumes "json_text ser de" "shared_life ed blake3 ser de mt s"
  shows "\<exists>s' :: (wal_writer \<times> disk, 'k) shared_log.
    shared_recover blake3 ser de (snd (the (wal (sl_log s)))) (Inr (the (metadata_file s))) = Inr s' \<and>
    history (sl_log s') = history (sl_log s) \<and> last_hash (sl_log s') = last_hash (sl_log s) \<and>
    version (sl_log s') = version (sl_log s) \<and> bare_metadata (metadata_of s') = bare_metadata (metadata_of s)"
proof -
  from shared_life_inv [OF assms] have i: "log_life blake3 ser de 0 (sl_log s)" "sl_inv s" "file_ok s" by auto
  obtain t :: "(wal_writer \<times> disk, 'k) shared_log" where "shared_recover blake3 ser de (snd (the (wal (sl_log s)))) (Inr (the (metadata_file s))) = Inr t"
    "history (sl_log t) = history (sl_log s)" "last_hash (sl_log t) = last_hash (sl_log s)"
    "version (sl_log t) = version (sl_log s)" "bare_metadata (metadata_of t) = bare_metadata (metadata_of s)"
    using assms(1) i by (rule recovered_shared)
  then show ?thesis by blast
qed

theorem ledger_recovers_witness:
  "\<exists>s' :: (wal_writer \<times> disk, byte list) shared_log.
    shared_recover sample_blake3 unary_ser unary_de (snd (the (wal (sl_log sample_ledger_one))))
        (Inr (the (metadata_file sample_ledger_one))) = Inr s' \<and>
    history (sl_log s') = history (sl_log sample_ledger_one) \<and> last_hash (sl_log s') = last_hash (sl_log sample_ledger_one) \<and>
    version (sl_log s') = version (sl_log sample_ledger_one) \<and>
    bare_metadata (metadata_of s') = bare_metadata (metadata_of sample_ledger_one)"
  by (rule ledger_recovers [OF unary_json_text sample_ledger_life])

lemma find_fact_append:
  "find_fact fid (hs @ ts) = (case find_fact fid hs of None \<Rightarrow> find_fact fid ts | Some r \<Rightarrow> Some r)"
  by (induction fid hs rule: find_fact.induct) (auto split: fact.splits)

lemma append_inner_ok:
  assumes "version (sl_log s) \<noteq> - 1" "append_inner ed store blake3 ser mt w w' path v source origin s = (Inr ver, s')"
  shows "sl_log s' = snd (append store blake3 ser (PayloadUpdate (sl_next_fact_id s) path v) (sl_log s))"
    "history (sl_log s') = history (sl_log s) @ [(version (sl_log s), PayloadUpdate (sl_next_fact_id s) path v)]"
    "fact_sources s' = bt_put (sl_next_fact_id s) source (fact_sources s)"
    "\<not> w \<Longrightarrow> \<not> w' \<Longrightarrow> metadata_file s' = metadata_file s"
proof -
  have unwritten: "metadata_file (seal_if_due ed blake3 mt False t) = metadata_file t" for t
    by (simp add: seal_if_due_def shared_seal_def persist_metadata_def Let_def split: option.splits)
  have "sl_log s' = snd (append store blake3 ser (PayloadUpdate (sl_next_fact_id s) path v) (sl_log s)) \<and>
    history (sl_log s') = history (sl_log s) @ [(version (sl_log s), PayloadUpdate (sl_next_fact_id s) path v)] \<and>
    fact_sources s' = bt_put (sl_next_fact_id s) source (fact_sources s) \<and>
    (\<not> w \<longrightarrow> \<not> w' \<longrightarrow> metadata_file s' = metadata_file s)"
    using assms(1)
  proof (cases rule: append_inner_cases [of _ ed store blake3 ser mt w w' path v source origin])
    case (recorded ver' nxt s2)
    have unpersisted: "metadata_file (persist_metadata False t) = metadata_file t" for t
      by (simp add: persist_metadata_def split: option.splits)
    have s': "s' = seal_if_due ed blake3 mt w' (count_record (persist_metadata w (record_source (sl_next_fact_id s) source origin s2)))"
      using recorded(3) assms(2) by simp
    show ?thesis unfolding s' using recorded(2,4) by (auto simp: unwritten unpersisted)
  qed (use assms(2) in auto)
  then show "sl_log s' = snd (append store blake3 ser (PayloadUpdate (sl_next_fact_id s) path v) (sl_log s))"
    "history (sl_log s') = history (sl_log s) @ [(version (sl_log s), PayloadUpdate (sl_next_fact_id s) path v)]"
    "fact_sources s' = bt_put (sl_next_fact_id s) source (fact_sources s)"
    "\<not> w \<Longrightarrow> \<not> w' \<Longrightarrow> metadata_file s' = metadata_file s" by blast+
qed

lemma orphans_in_life:
  assumes "json_text ser de" "log_life blake3 ser de 0 (sl_log s)" "\<forall>x \<in> set (history (sl_log s)). update_id (snd x) \<noteq> None"
  shows "verify_causal_consistency s =
    Inr (filter (\<lambda>i. \<not> bt_contains i (fact_sources s)) (sorted_list_of_set (set (ids_of (sl_log s)))))"
  using life_log_inv [OF assms(1,2)] assms(3) by (simp add: verify_causal_consistency_def orphans_of map_filter_ids)

lemma singleton_list: "distinct xs \<Longrightarrow> set xs = {x} \<Longrightarrow> xs = [x]"
  by (cases xs) (auto simp: subset_singleton_iff)

lemma filter_new_id:
  assumes "finite A" "(x :: u64) \<notin> A"
  shows "filter (\<lambda>i. i \<notin> A) (sorted_list_of_set (insert x A)) = [x]"
proof -
  define L where "L = sorted_list_of_set (insert x A)"
  have "set L = insert x A" "distinct L" unfolding L_def using assms(1) by (intro set_sorted_list_of_set distinct_sorted_list_of_set; simp)+
  with assms(2) have "filter (\<lambda>i. i \<notin> A) L = [x]" by (intro singleton_list) auto
  then show ?thesis by (simp add: L_def)
qed

text \<open>
  A crash between the two writes of an append changes who wrote what.  When the log has a fact but the
  metadata write was lost, recovery counts the identifier of that fact again and reports it as an orphan;
  the next append takes the same identifier, after which the lookup returns the first fact as the work
  of the second session and the consistency check reports nothing.
\<close>

theorem crash_reattributes_fact:
  fixes s s1 s2 s3 :: "(wal_writer \<times> disk, 'k) shared_log"
  assumes json: "json_text ser de" and life: "shared_life ed blake3 ser de mt s" "metadata_file s = Some (Some (metadata_of s))"
    and first: "canonical_json v" "version (sl_log s) \<noteq> - 1"
      "append_inner ed (file_store os ser) blake3 ser mt False False path v source origin s = (Inr ver, s1)"
    and restart: "shared_recover blake3 ser de (snd (the (wal (sl_log s1)))) (Inr (the (metadata_file s1))) = Inr s2"
    and second: "canonical_json v'" "version (sl_log s2) \<noteq> - 1"
      "append_inner ed (file_store os' ser) blake3 ser mt w w' path' v' source' origin' s2 = (Inr ver', s3)"
  shows "verify_causal_consistency s2 = Inr [sl_next_fact_id s] \<and> verify_causal_consistency s3 = Inr [] \<and>
    map snd (history (sl_log s3)) = map snd (history (sl_log s)) @
      [PayloadUpdate (sl_next_fact_id s) path v, PayloadUpdate (sl_next_fact_id s) path' v'] \<and>
    fact_by_id (sl_next_fact_id s) s3 = Some \<lparr>sf_fact_id = sl_next_fact_id s, sf_path = path, sf_value = v,
      sf_source_session_id = source', sf_version = version (sl_log s), sf_origin_fact_id = origin_fact_id (sl_next_fact_id s) s3\<rparr>"
proof -
  let ?i = "sl_next_fact_id s"
  from shared_life_inv [OF json life(1)] have inv: "log_life blake3 ser de 0 (sl_log s)" "sl_inv s" by auto
  note one = append_inner_ok [OF first(2,3)]
  have l1: "log_life blake3 ser de 0 (sl_log s1)" unfolding one(1) using inv(1) first by (intro appended) auto
  obtain l' where l': "recover_log blake3 ser de (snd (the (wal (sl_log s1)))) = Inr l'" "log_life blake3 ser de 0 l'"
    "history l' = history (sl_log s1)"
    using json l1 by (rule recovered_log)
  have "max ?i 1 = ?i" using inv(2) by (metis max.absorb1 sl_inv_def linorder_not_less word_less_1)
  then have s2: "sl_log s2 = l'" "sl_next_fact_id s2 = ?i" "fact_sources s2 = fact_sources s"
    using restart l'(1) life(2) one(4)
    by (auto simp: shared_recover_def result_simps Let_def unwrap_or_def metadata_of_def shared_with_def)
  note two = append_inner_ok [OF second(2,3), unfolded s2]
  have l3: "log_life blake3 ser de 0 (sl_log s3)" unfolding two(1) using l'(2) second s2(1) by (intro appended) auto
  have hist: "history l' = history (sl_log s) @ [(version (sl_log s), PayloadUpdate ?i path v)]" using l'(3) one(2) by simp
  have new: "?i \<notin> set (ids_of (sl_log s))" using inv(2) by (auto simp: sl_inv_def)
  have ids: "set (ids_of l') = insert ?i (set (ids_of (sl_log s)))" "set (ids_of (sl_log s3)) = insert ?i (set (ids_of (sl_log s)))"
    using hist two(2) by (auto simp: ids_of_def)
  have src: "bt_contains i (fact_sources s) \<longleftrightarrow> i \<in> set (ids_of (sl_log s))" for i using inv(2) by (simp add: sl_inv_def)
  have upd: "\<forall>x \<in> set (history l'). update_id (snd x) \<noteq> None" "\<forall>x \<in> set (history (sl_log s3)). update_id (snd x) \<noteq> None"
    using inv(2) hist two(2) by (auto simp: sl_inv_def update_id_def)
  have "verify_causal_consistency s2 = Inr [?i]"
    using orphans_in_life [OF json, of blake3 s2] l'(2) upd(1) s2 filter_new_id [OF _ new] by (simp add: ids src del: sorted_list_of_set_insert_remove)
  moreover have "verify_causal_consistency s3 = Inr []"
    using orphans_in_life [OF json l3 upd(2)] by (simp add: ids two(3) src filter_empty_conv del: sorted_list_of_set_insert_remove)
  moreover have "find_fact ?i (history (sl_log s3)) = Some (version (sl_log s), path, v)"
  proof -
    have "distinct (map (fact_id_of \<circ> snd) (history l'))"
      using inv(2) new by (simp add: hist sl_inv_def ids_of_def)
    then have "find_fact ?i (history l') = Some (version (sl_log s), path, v)"
      by (rule find_fact_in) (simp add: hist)
    then show ?thesis by (simp add: two(2) find_fact_append)
  qed
  ultimately show ?thesis
    using hist two by (simp add: fact_by_id_def history_with_versions_def origin_fact_id_def)
qed

lemma append_update_accepted:
  fixes l :: "(wal_writer \<times> disk) facts_log"
  assumes "wal l = Some st" "version l \<noteq> - 1"
  shows "fst (append (file_store (\<lambda>_. None) ser) blake3 ser (PayloadUpdate i path v) l) = Inr (version l + 1)"
    "version (snd (append (file_store (\<lambda>_. None) ser) blake3 ser (PayloadUpdate i path v) l)) = version l + 1"
  using assms
  by (simp_all add: append_def file_store_def append_memory_def bump_log_version_def checked_inc_u64_def push_history_def
      index_fact_def Let_def)

lemma append_inner_accepted:
  fixes s :: "(wal_writer \<times> disk, 'k) shared_log"
  assumes "wal (sl_log s) = Some st" "version (sl_log s) \<noteq> - 1" "sl_next_fact_id s \<noteq> - 1"
  shows "\<exists>s'. append_inner ed (file_store (\<lambda>_. None) ser) blake3 ser mt w w' path v source origin s = (Inr (version (sl_log s) + 1), s') \<and>
    version (sl_log s') = version (sl_log s) + 1"
  using assms append_update_accepted [OF assms(1,2), of ser blake3 "sl_next_fact_id s" path v]
  by (simp add: append_inner_def checked_inc_u64_def Let_def split_beta)

lemma life_has_wal:
  assumes "json_text ser de" "log_life blake3 ser de limit l"
  shows "\<exists>st. wal l = Some st"
  using log_life_durable [OF assms] by (auto simp: durable_with_def)

lemma sample_ledger_state:
  "metadata_file sample_ledger_one = Some (Some (metadata_of sample_ledger_one))"
  "sl_next_fact_id sample_ledger_one = 2" "version (sl_log sample_ledger_one) = 1"
  by (simp_all add: sample_ledger_one_def append_inner_def sample_ledger_def shared_with_def with_wal_options_def
      with_wal_store_def log_new_def checked_inc_u64_def append_def file_store_def append_memory_def bump_log_version_def
      push_history_def index_fact_def create_with_options_def Let_def split_beta record_source_def count_record_def
      persist_metadata_def seal_if_due_def metadata_of_def)

theorem crash_reattributes_fact_witness:
  "\<exists>s1 s2 s3 :: (wal_writer \<times> disk, byte list) shared_log.
    append_inner sample_ed (file_store (\<lambda>_. None) unary_ser) sample_blake3 unary_ser (\<lambda>_. []) False False
      ''shared.b'' Null 100 None sample_ledger_one = (Inr 2, s1) \<and>
    shared_recover sample_blake3 unary_ser unary_de (snd (the (wal (sl_log s1)))) (Inr (the (metadata_file s1))) = Inr s2 \<and>
    append_inner sample_ed (file_store (\<lambda>_. None) unary_ser) sample_blake3 unary_ser (\<lambda>_. []) True True
      ''shared.c'' (Bool True) 200 None s2 = (Inr 3, s3) \<and>
    verify_causal_consistency s2 = Inr [2] \<and> verify_causal_consistency s3 = Inr [] \<and>
    fact_by_id 2 s3 = Some \<lparr>sf_fact_id = 2, sf_path = ''shared.b'', sf_value = Null, sf_source_session_id = 200,
      sf_version = 1, sf_origin_fact_id = origin_fact_id 2 s3\<rparr>"
proof -
  let ?s = "sample_ledger_one"
  have life: "log_life sample_blake3 unary_ser unary_de 0 (sl_log ?s)"
    using shared_life_inv [OF unary_json_text sample_ledger_life] by simp
  obtain s1 where s1: "append_inner sample_ed (file_store (\<lambda>_. None) unary_ser) sample_blake3 unary_ser (\<lambda>_. []) False False
      ''shared.b'' Null 100 None ?s = (Inr 2, s1)" "version (sl_log s1) = 2"
    using append_inner_accepted [of ?s] life_has_wal [OF unary_json_text life] sample_ledger_state by fastforce
  have v: "version (sl_log ?s) \<noteq> - 1" by (simp add: sample_ledger_state)
  note one = append_inner_ok [OF v s1(1)]
  have l1: "log_life sample_blake3 unary_ser unary_de 0 (sl_log s1)" unfolding one(1) using life v by (intro appended) auto
  obtain l' where l': "recover_log sample_blake3 unary_ser unary_de (snd (the (wal (sl_log s1)))) = Inr l'"
    "log_life sample_blake3 unary_ser unary_de 0 l'" "version l' = version (sl_log s1)"
    using unary_json_text l1 by (rule recovered_log)
  have m: "metadata_file s1 = Some (Some (metadata_of ?s))" using one(4) sample_ledger_state(1) by simp
  obtain s2 :: "(wal_writer \<times> disk, byte list) shared_log" where s2:
    "shared_recover sample_blake3 unary_ser unary_de (snd (the (wal (sl_log s1)))) (Inr (the (metadata_file s1))) = Inr s2"
    "sl_log s2 = l'" "sl_next_fact_id s2 = 2"
    using l'(1) m sample_ledger_state(2) by (simp add: shared_recover_def result_simps Let_def unwrap_or_def shared_with_def metadata_of_def)
  obtain s3 where s3: "append_inner sample_ed (file_store (\<lambda>_. None) unary_ser) sample_blake3 unary_ser (\<lambda>_. []) True True
      ''shared.c'' (Bool True) 200 None s2 = (Inr 3, s3)"
    using append_inner_accepted [of s2] life_has_wal [OF unary_json_text l'(2)] s2 l'(3) s1(2) by fastforce
  have v2: "version (sl_log s2) \<noteq> - 1" using s2(2) l'(3) s1(2) by simp
  from crash_reattributes_fact [OF unary_json_text sample_ledger_life sample_ledger_state(1) _ v s1(1) s2(1) _ v2 s3]
  show ?thesis using s1(1) s2(1) s3 by (auto simp: sample_ledger_state)
qed

section \<open>Anchors of the ledger\<close>

lemma verify_shared_append:
  "verify_shared_from ed blake3 keys i prev (as @ bs) =
     and_then (verify_shared_from ed blake3 keys i prev as) (\<lambda>_.
       verify_shared_from ed blake3 keys (i + length as) (if as = [] then prev else sa_anchor_hash (last as)) bs)"
proof (induction as arbitrary: i prev)
  case (Cons a as)
  then show ?case by (auto simp: and_then_def split: sum.splits)
qed (simp add: result_simps)

text \<open>
  Sealing the ledger.  When the anchors so far verify and the signer is in the key table, the anchor
  that is sealed next verifies behind them, and right after sealing the report says that the last anchor
  matches both the chain of the ledger and its metadata, whether or not the metadata write succeeded.
\<close>

theorem shared_seal_verifies:
  assumes "ed25519_laws ed" "sl_signer s = Some signer" "signer_known ed keys signer (sl_key_id s)"
    and "verify_shared_anchors ed blake3 mt keys b s = Inr r"
  shows "verify_shared_anchors ed blake3 mt keys True (snd (shared_seal ed blake3 mt w s)) =
    Inr \<lparr>anchor_count = anchor_count r + 1, binding_chain_head_match = True, binding_metadata_match = True\<rparr>"
proof -
  obtain a where a: "fst (shared_seal ed blake3 mt w s) = Inr a" "sl_anchors (snd (shared_seal ed blake3 mt w s)) = sl_anchors s @ [a]"
    "sa_seq a = word_of_nat (length (sl_anchors s))" "sa_key_id a = sl_key_id s"
    "sa_anchor_hash a = compute_hash blake3 (shared_prev (sl_anchors s)) a"
    "sa_signature a = hex_encode (ed_sign ed (signing signer) (shared_signature_payload a))"
    "sa_chain_head a = last_hash (sl_log s)" "sa_metadata_digest a = metadata_digest blake3 mt s"
    using assms(2) by (simp add: shared_seal_def Let_def compute_hash_def shared_signature_payload_def signature_bytes_def)
  have old: "verify_shared_from ed blake3 keys 0 SHARED_LEDGER_ANCHOR_GENESIS (sl_anchors s) = Inr ()"
    and r: "anchor_count r = length (sl_anchors s)"
    using assms(4) by (auto simp: verify_shared_anchors_def Let_def result_simps)
  have "length (ed_public ed (signing signer)) = 32" "length (ed_sign ed (signing signer) (shared_signature_payload a)) = 64"
    "ed_verify ed (ed_public ed (signing signer)) (shared_signature_payload a) (ed_sign ed (signing signer) (shared_signature_payload a)) = Inr True"
    using assms(1) by (simp_all add: ed25519_laws_def)
  then have "check_shared_signature ed i (verifying_hex signer) a = Inr ()" for i
    using a(6) assms(3) by (simp add: check_shared_signature_def verify_signature_def verifying_hex_def signer_known_def result_simps)
  then have new: "verify_shared_from ed blake3 keys 0 SHARED_LEDGER_ANCHOR_GENESIS (sl_anchors s @ [a]) = Inr ()"
    using old a assms(3) by (simp add: verify_shared_append shared_prev_def signer_known_def result_simps)
  have "metadata_digest blake3 mt (snd (shared_seal ed blake3 mt w s)) = metadata_digest blake3 mt s"
    using assms(2) by (simp add: shared_seal_def Let_def metadata_digest_def) (simp add: metadata_of_def)
  then show ?thesis
    using new a r by (simp add: verify_shared_anchors_def Let_def result_simps)
qed

theorem shared_seal_verifies_witness:
  "let s = shared_with_anchor sample_signer ''k'' ''e'' 0 sample_ledger_one in
   verify_shared_anchors sample_ed sample_blake3 (\<lambda>_. []) sample_keys True
     (snd (shared_seal sample_ed sample_blake3 (\<lambda>_. []) True s)) =
   Inr \<lparr>anchor_count = 0 + 1, binding_chain_head_match = True, binding_metadata_match = True\<rparr>"
proof -
  let ?s = "shared_with_anchor sample_signer ''k'' ''e'' 0 sample_ledger_one"
  have "sl_anchors sample_ledger_one = []"
    by (simp add: sample_ledger_one_def append_inner_def sample_ledger_def shared_with_def with_wal_options_def
      with_wal_store_def log_new_def checked_inc_u64_def append_def file_store_def append_memory_def bump_log_version_def
      push_history_def index_fact_def create_with_options_def Let_def split_beta record_source_def count_record_def
      persist_metadata_def seal_if_due_def metadata_of_def)
  then have "verify_shared_anchors sample_ed sample_blake3 (\<lambda>_. []) sample_keys False ?s =
      Inr \<lparr>anchor_count = 0, binding_chain_head_match = False, binding_metadata_match = False\<rparr>"
    by (simp add: verify_shared_anchors_def shared_with_anchor_def result_simps)
  note seal = shared_seal_verifies [OF sample_ed_laws _ _ this, of sample_signer True]
  have "sl_signer ?s = Some sample_signer" "signer_known sample_ed sample_keys sample_signer (sl_key_id ?s)"
    by (simp_all add: shared_with_anchor_def signer_known_def sample_signer_def from_bytes_def verifying_hex_def
        sample_ed_def sample_keys_def)
  from seal [OF this] show ?thesis unfolding Let_def shared_anchor_report.simps .
qed

end
