(* ===== verification/Permission.thy ===== *)
theory Permission
  imports SharedLog
begin

text \<open>
  The permission layer of the governance crate: the context of an I/O call (\<open>io_context.rs\<close> of the
  reactor), permission entries with their life cycle (\<open>permission/entry.rs\<close>), the evaluation of their
  conditions on the domain evaluator (\<open>permission/condition.rs\<close>), the versioned table rebuilt from the
  shared ledger (\<open>permission/table.rs\<close>), the static route policy (\<open>permission/route_policy.rs\<close>) and the
  gate that combines them (\<open>permission/gate.rs\<close>).  The serde derivations of the entry, the default policy
  and the route policy are parameters of the operations that use them.  The lemmas show the table to be a
  map that \<open>store_entry\<close> and \<open>remove\<close> update, decisions to be deny-overrides and the route policy to tighten.
\<close>

section \<open>The context of a call\<close>

datatype caller_role = Human | Llm | UnknownCaller

fun caller_role_as_str :: "caller_role \<Rightarrow> string" where
  "caller_role_as_str Human = ''human''"
| "caller_role_as_str Llm = ''llm''"
| "caller_role_as_str UnknownCaller = ''unknown''"

definition from_str_opt :: "string \<Rightarrow> caller_role" where
  "from_str_opt s = (if s = ''human'' then Human else if s = ''llm'' then Llm else UnknownCaller)"

record io_call_context =
  ctx_cause :: fact_id
  v_trigger :: u64
  ctx_role :: caller_role
  cause_chain :: "fact_id list"
  ctx_tenant_id :: "string option"

definition io_context_new :: "fact_id \<Rightarrow> u64 \<Rightarrow> string option \<Rightarrow> io_call_context" where
  "io_context_new cause v tenant =
     \<lparr>ctx_cause = cause, v_trigger = v, ctx_role = UnknownCaller, cause_chain = [], ctx_tenant_id = tenant\<rparr>"

section \<open>Permission entries\<close>

datatype permission_state = Draft | Candidate | Active | Rejected

fun permission_state_debug :: "permission_state \<Rightarrow> string" where
  "permission_state_debug Draft = ''Draft''"
| "permission_state_debug Candidate = ''Candidate''"
| "permission_state_debug Active = ''Active''"
| "permission_state_debug Rejected = ''Rejected''"

definition is_active :: "permission_state \<Rightarrow> bool" where
  "is_active st = (st = Active)"

definition is_candidate :: "permission_state \<Rightarrow> bool" where
  "is_candidate st = (st = Candidate)"

datatype effect = Allow | Deny

datatype subject_type = User | Role | Rule | LlmAgent | AnySubject

record subject =
  subject_type :: subject_type
  subject_id :: string

definition subject_any :: subject where
  "subject_any = \<lparr>subject_type = AnySubject, subject_id = []\<rparr>"

definition subject_human :: "string \<Rightarrow> subject" where
  "subject_human name = \<lparr>subject_type = User, subject_id = name\<rparr>"

datatype resource_type = FactResource | IoAction | Api | SharedResource

record resource =
  resource_type :: resource_type
  resource_path :: string

record permission_entry =
  pe_id :: string
  pe_version :: u64
  pe_state :: permission_state
  pe_subject :: subject
  pe_resource :: resource
  pe_action :: string
  pe_effect :: effect
  pe_conditions :: "serde option"
  pe_tenant_id :: "string option"
  pe_cause :: "string option"
  pe_updated_by :: string

datatype permission_error =
    NotFound string
  | InvalidState string
  | ConditionFailed string
  | PermissionJson string
  | StoreFailed string

fun permission_error_display :: "permission_error \<Rightarrow> string" where
  "permission_error_display (NotFound s) = ''permission entry not found: '' @ s"
| "permission_error_display (InvalidState s) = ''invalid permission state: '' @ s"
| "permission_error_display (ConditionFailed s) = ''condition evaluation failed: '' @ s"
| "permission_error_display (PermissionJson s) = ''permission serialization error: '' @ s"
| "permission_error_display (StoreFailed s) = ''permission store error: '' @ s"

definition permission_entry_new :: "string \<Rightarrow> subject \<Rightarrow> resource \<Rightarrow> effect \<Rightarrow> permission_entry" where
  "permission_entry_new i sub res eff =
     \<lparr>pe_id = i, pe_version = 1, pe_state = Draft, pe_subject = sub, pe_resource = res, pe_action = ''*'',
      pe_effect = eff, pe_conditions = None, pe_tenant_id = None, pe_cause = None, pe_updated_by = ''unknown''\<rparr>"

definition submit :: "permission_entry \<Rightarrow> permission_error + permission_entry" where
  "submit e =
     (if pe_state e = Draft then Inr (e\<lparr>pe_state := Candidate\<rparr>)
      else Inl (InvalidState (''only Draft can be submitted, current = '' @ permission_state_debug (pe_state e))))"

definition review :: "bool \<Rightarrow> permission_entry \<Rightarrow> permission_error + permission_entry" where
  "review approve e =
     (if pe_state e = Candidate then Inr (e\<lparr>pe_state := (if approve then Active else Rejected)\<rparr>)
      else Inl (InvalidState (''only Candidate can be reviewed, current = '' @ permission_state_debug (pe_state e))))"

section \<open>Values and conditions\<close>

text \<open>
  The conversions of \<open>permission/mod.rs\<close>: the first is the same function as the one of the audit chain,
  the second keeps only numbers in the range of \<open>i64\<close>; everything else becomes \<open>Null\<close>.
\<close>

fun perm_to_serde :: "json \<Rightarrow> serde" where
  "perm_to_serde Null = SNull"
| "perm_to_serde (Bool b) = SBool b"
| "perm_to_serde (Integer i) = SNumber (sint i)"
| "perm_to_serde (U64 v) = SNumber (uint v)"
| "perm_to_serde (String s) = SString s"
| "perm_to_serde (Array arr) = SArray (map perm_to_serde arr)"
| "perm_to_serde (Object obj) = serde_map (map (\<lambda>(k, v). (k, perm_to_serde v)) obj)"

fun perm_to_tcb :: "serde \<Rightarrow> json" where
  "perm_to_tcb SNull = Null"
| "perm_to_tcb (SBool b) = Bool b"
| "perm_to_tcb (SNumber n) = (if in_i64 n then Integer (word_of_int n) else Null)"
| "perm_to_tcb (SFloat t) = Null"
| "perm_to_tcb (SString s) = String s"
| "perm_to_tcb (SArray arr) = Array (map perm_to_tcb arr)"
| "perm_to_tcb (SObject m) =
     Object (foldl (\<lambda>obj (k, v). bt_put k v obj) bt_new (map (\<lambda>(k, v). (k, perm_to_tcb v)) m))"

definition build_conditions_exec_state :: "io_call_context \<Rightarrow> json \<Rightarrow> json" where
  "build_conditions_exec_state ctx payload =
     (let c0 = bt_put ''caller_role'' (String (caller_role_as_str (ctx_role ctx)))
                 (bt_put ''v_trigger'' (Integer (v_trigger ctx)) (bt_put ''cause'' (Integer (ctx_cause ctx)) bt_new));
          c = (case ctx_tenant_id ctx of Some tenant \<Rightarrow> bt_put ''tenant_id'' (String tenant) c0 | None \<Rightarrow> c0);
          inner = bt_put ''payload'' payload (bt_put ''ctx'' (Object c) bt_new) in
      Object (bt_put ''__exec__'' (Object inner) bt_new))"

definition evaluate_conditions :: "serde \<Rightarrow> io_call_context \<Rightarrow> json \<Rightarrow> permission_error + bool" where
  "evaluate_conditions conditions ctx payload =
     (if conditions = SNull \<or> s_as_object conditions = Some [] then Inr True
      else map_err (\<lambda>e. ConditionFailed (tcb_error_display e))
             (evaluate_domain (perm_to_tcb conditions) (build_conditions_exec_state ctx payload)))"

section \<open>The table\<close>

definition ENTRY_PREFIX :: string where
  "ENTRY_PREFIX = ''shared.__permission__.entry.''"

definition DEFAULT_POLICY_PATH :: string where
  "DEFAULT_POLICY_PATH = ''shared.__permission__.default_policy''"

definition TOMBSTONE_KEY :: string where
  "TOMBSTONE_KEY = ''__deleted''"

record default_policy =
  human_effect :: effect
  llm_effect :: effect
  unknown_effect :: effect

definition default_policy_default :: default_policy where
  "default_policy_default = \<lparr>human_effect = Deny, llm_effect = Deny, unknown_effect = Deny\<rparr>"

datatype verdict = VerdictAllow | VerdictDeny | VerdictCandidate

record permission_table =
  pt_entries :: "permission_entry list"
  pt_default_policy :: default_policy
  pt_version :: u64

definition table_empty :: permission_table where
  "table_empty = \<lparr>pt_entries = [], pt_default_policy = default_policy_default, pt_version = 0\<rparr>"

definition table_get :: "string \<Rightarrow> permission_table \<Rightarrow> permission_entry option" where
  "table_get i t = List.find (\<lambda>e. pe_id e = i) (pt_entries t)"

text \<open>\<open>trim_start_matches\<close> with the prefix of entries: every repetition of the prefix is removed.\<close>

function trim_entry_prefix :: "string \<Rightarrow> string" where
  "trim_entry_prefix s = (case strip_prefix ENTRY_PREFIX s of Some r \<Rightarrow> trim_entry_prefix r | None \<Rightarrow> s)"
  by pat_completeness auto

termination
  by (relation "measure length") (auto simp: strip_prefix_Some_iff ENTRY_PREFIX_def)

declare trim_entry_prefix.simps [simp del]

type_synonym latest_map = "(string \<times> u64 \<times> json) list"

definition latest_step :: "u64 \<Rightarrow> latest_map \<Rightarrow> shared_fact \<Rightarrow> latest_map" where
  "latest_step v_shared m f =
     (if sf_version f \<ge> v_shared then m
      else let i = trim_entry_prefix (sf_path f) in
        case bt_get i m of
          Some (prev_v, _) \<Rightarrow> if prev_v \<ge> sf_version f then m else bt_put i (sf_version f, sf_value f) m
        | None \<Rightarrow> bt_put i (sf_version f, sf_value f) m)"

definition latest_entries :: "u64 \<Rightarrow> ('s, 'k) shared_log \<Rightarrow> latest_map" where
  "latest_entries v_shared s = foldl (latest_step v_shared) bt_new (shared_by_path_prefix ENTRY_PREFIX s)"

definition is_tombstone :: "serde \<Rightarrow> bool" where
  "is_tombstone sv =
     (Option.bind (Option.bind (s_as_object sv) (bt_get TOMBSTONE_KEY)) s_as_bool = Some True)"

fun load_entries :: "(serde \<Rightarrow> string + permission_entry) \<Rightarrow> latest_map \<Rightarrow> permission_error + permission_entry list" where
  "load_entries de_entry [] = Inr []"
| "load_entries de_entry ((i, ver, v) # m) =
     (let sv = perm_to_serde v in
      if is_tombstone sv then load_entries de_entry m
      else and_then (map_err PermissionJson (de_entry sv)) (\<lambda>e.
           map_ok (\<lambda>es. e\<lparr>pe_id := i, pe_version := ver\<rparr> # es) (load_entries de_entry m)))"

text \<open>\<open>Iterator::max_by_key\<close>: of several maxima the last one.\<close>

definition newest :: "shared_fact option \<Rightarrow> shared_fact \<Rightarrow> shared_fact option" where
  "newest acc f = (case acc of None \<Rightarrow> Some f | Some g \<Rightarrow> Some (if sf_version f \<ge> sf_version g then f else g))"

definition load_default_policy :: "(serde \<Rightarrow> string + default_policy) \<Rightarrow> ('s, 'k) shared_log \<Rightarrow> u64 \<Rightarrow> default_policy" where
  "load_default_policy de_policy s v_shared =
     (case foldl newest None (filter (\<lambda>f. sf_version f \<le> v_shared \<and> sf_path f = DEFAULT_POLICY_PATH)
             (shared_by_path_prefix DEFAULT_POLICY_PATH s)) of
        Some f \<Rightarrow> (case de_policy (perm_to_serde (sf_value f)) of Inr p \<Rightarrow> p | Inl _ \<Rightarrow> default_policy_default)
      | None \<Rightarrow> default_policy_default)"

definition snapshot_at ::
  "(serde \<Rightarrow> string + permission_entry) \<Rightarrow> (serde \<Rightarrow> string + default_policy) \<Rightarrow> ('s, 'k) shared_log \<Rightarrow> u64 \<Rightarrow>
   permission_error + permission_table" where
  "snapshot_at de_entry de_policy s v_shared =
     and_then (load_entries de_entry (latest_entries v_shared s)) (\<lambda>es.
     Inr \<lparr>pt_entries = es, pt_default_policy = load_default_policy de_policy s v_shared, pt_version = v_shared\<rparr>)"

definition subject_matches :: "subject \<Rightarrow> string \<Rightarrow> bool" where
  "subject_matches sub role_key = (subject_type sub = AnySubject \<or> subject_id sub = role_key)"

definition action_matches :: "string \<Rightarrow> string \<Rightarrow> bool" where
  "action_matches rule_action action = (rule_action = ''*'' \<or> rule_action = action)"

definition resource_matches :: "resource \<Rightarrow> string \<Rightarrow> bool" where
  "resource_matches res target =
     (let pattern = resource_path res in
      if pattern = [] then False
      else case strip_suffix_char (CHR ''*'') pattern of
             Some prefix \<Rightarrow> starts_with prefix target
           | None \<Rightarrow> target = pattern)"

text \<open>The loop over the entries: \<open>Inl\<close> is the early return, \<open>Inr\<close> the two flags after the loop.\<close>

fun evaluate_loop ::
  "io_call_context \<Rightarrow> string \<Rightarrow> string \<Rightarrow> json \<Rightarrow> permission_entry list \<Rightarrow> bool \<Rightarrow> bool \<Rightarrow> verdict + (bool \<times> bool)" where
  "evaluate_loop ctx target action payload [] candidate allowed = Inr (candidate, allowed)"
| "evaluate_loop ctx target action payload (e # es) candidate allowed =
     (let role_key = caller_role_as_str (ctx_role ctx);
          hit = (subject_matches (pe_subject e) role_key \<and> action_matches (pe_action e) action \<and>
                 resource_matches (pe_resource e) target) in
      if is_candidate (pe_state e) then evaluate_loop ctx target action payload es (candidate \<or> hit) allowed
      else if \<not> is_active (pe_state e) then evaluate_loop ctx target action payload es candidate allowed
      else if \<not> hit then evaluate_loop ctx target action payload es candidate allowed
      else case (case pe_conditions e of None \<Rightarrow> Inr True | Some c \<Rightarrow> evaluate_conditions c ctx payload) of
             Inl _ \<Rightarrow> Inl VerdictDeny
           | Inr False \<Rightarrow> evaluate_loop ctx target action payload es candidate allowed
           | Inr True \<Rightarrow>
               (case pe_effect e of
                  Deny \<Rightarrow> Inl VerdictDeny
                | Allow \<Rightarrow> evaluate_loop ctx target action payload es candidate True))"

fun role_effect :: "default_policy \<Rightarrow> caller_role \<Rightarrow> effect" where
  "role_effect p Human = human_effect p"
| "role_effect p Llm = llm_effect p"
| "role_effect p UnknownCaller = unknown_effect p"

fun effect_verdict :: "effect \<Rightarrow> verdict" where
  "effect_verdict Allow = VerdictAllow"
| "effect_verdict Deny = VerdictDeny"

definition table_evaluate :: "permission_table \<Rightarrow> io_call_context \<Rightarrow> string \<Rightarrow> string \<Rightarrow> json option \<Rightarrow> verdict" where
  "table_evaluate t ctx target action payload =
     (case evaluate_loop ctx target action (unwrap_or Null payload) (pt_entries t) False False of
        Inl v \<Rightarrow> v
      | Inr (candidate, allowed) \<Rightarrow>
          if allowed then VerdictAllow
          else if candidate then VerdictCandidate
          else effect_verdict (role_effect (pt_default_policy t) (ctx_role ctx)))"

definition path_for :: "string \<Rightarrow> string \<Rightarrow> string" where
  "path_for prefix i = prefix @ i"

definition store_entry where
  "store_entry ed store blake3 ser meta_text written written' ser_entry e session s =
     (case ser_entry e of
        Inl m \<Rightarrow> (Inl (PermissionJson m), s)
      | Inr sv \<Rightarrow>
          (let (r, s') = shared_append ed store blake3 ser meta_text written written'
                           (path_for ENTRY_PREFIX (pe_id e)) (perm_to_tcb sv) session s in
           (map_err (\<lambda>err. StoreFailed (facts_log_error_display err)) r, s')))"

definition remove_entry where
  "remove_entry ed store blake3 ser meta_text written written' i session s =
     (let (r, s') = shared_append ed store blake3 ser meta_text written written' (path_for ENTRY_PREFIX i)
                      (perm_to_tcb (SObject [(TOMBSTONE_KEY, SBool True)])) session s in
      (map_ok (\<lambda>_. ()) (map_err (\<lambda>err. StoreFailed (facts_log_error_display err)) r), s'))"

definition set_default_policy where
  "set_default_policy ed store blake3 ser meta_text written written' ser_policy p session s =
     (case ser_policy p of
        Inl m \<Rightarrow> (Inl (PermissionJson m), s)
      | Inr sv \<Rightarrow>
          (let (r, s') = shared_append ed store blake3 ser meta_text written written'
                           DEFAULT_POLICY_PATH (perm_to_tcb sv) session s in
           (map_err (\<lambda>err. StoreFailed (facts_log_error_display err)) r, s')))"

section \<open>The route policy\<close>

datatype route_decision = RouteAllow | RouteDeny | RouteAsk

fun route_decision_debug :: "route_decision \<Rightarrow> string" where
  "route_decision_debug RouteAllow = ''Allow''"
| "route_decision_debug RouteDeny = ''Deny''"
| "route_decision_debug RouteAsk = ''Ask''"

record per_role_default =
  human_route :: route_decision
  llm_route :: route_decision
  unknown_route :: route_decision

definition per_role_default_default :: per_role_default where
  "per_role_default_default = \<lparr>human_route = RouteAllow, llm_route = RouteAllow, unknown_route = RouteAllow\<rparr>"

record route_rule =
  rr_caller_role :: string
  rr_io_type :: string
  rr_target :: string
  rr_decision :: route_decision

record route_policy =
  rp_version :: "32 word"
  rp_default :: per_role_default
  unattended :: route_decision
  rp_rules :: "route_rule list"

datatype route_policy_error = RouteJson string | RouteInvalid string

fun route_policy_error_display :: "route_policy_error \<Rightarrow> string" where
  "route_policy_error_display (RouteJson e) = ''route policy deserialization failed: '' @ e"
| "route_policy_error_display (RouteInvalid e) = ''route policy validation failed: '' @ e"

fun validate_rules :: "nat \<Rightarrow> route_rule list \<Rightarrow> route_policy_error + unit" where
  "validate_rules i [] = Inr ()"
| "validate_rules i (r # rs) =
     (if rr_caller_role r = [] \<or> rr_io_type r = [] \<or> rr_target r = []
      then Inl (RouteInvalid (''rule['' @ dec_nat i @ ''] has empty field (caller_role/io_type/target must be non-empty)''))
      else validate_rules (i + 1) rs)"

definition route_validate :: "route_policy \<Rightarrow> route_policy_error + unit" where
  "route_validate p =
     (if rp_version p \<noteq> 1 then Inl (RouteInvalid (''unsupported schema version: '' @ dec_nat (unat (rp_version p))))
      else if unattended p \<noteq> RouteDeny
      then Inl (RouteInvalid (''ask_fallback.unattended only allows '' @ [CHR 39] @ ''deny'' @ [CHR 39] @ '', got '' @
             route_decision_debug (unattended p)))
      else validate_rules 0 (rp_rules p))"

definition from_json_str :: "(string \<Rightarrow> string + route_policy) \<Rightarrow> string \<Rightarrow> route_policy_error + route_policy" where
  "from_json_str de_route text =
     and_then (map_err RouteJson (de_route text)) (\<lambda>p. map_ok (\<lambda>_. p) (route_validate p))"

definition role_matches :: "string \<Rightarrow> string \<Rightarrow> bool" where
  "role_matches pattern role = (pattern = ''*'' \<or> pattern = role)"

definition pattern_matches :: "string \<Rightarrow> string \<Rightarrow> bool" where
  "pattern_matches pattern v =
     (if pattern = ''*'' then True
      else case strip_suffix_char (CHR ''*'') pattern of
             Some prefix \<Rightarrow> starts_with prefix v
           | None \<Rightarrow> pattern = v)"

definition decide :: "route_policy \<Rightarrow> string \<Rightarrow> string \<Rightarrow> string \<Rightarrow> route_decision" where
  "decide p role io_type target =
     (case List.find (\<lambda>r. role_matches (rr_caller_role r) role \<and> pattern_matches (rr_io_type r) io_type \<and>
                     pattern_matches (rr_target r) target) (rp_rules p) of
        Some r \<Rightarrow> rr_decision r
      | None \<Rightarrow> if role = ''human'' then human_route (rp_default p)
                else if role = ''llm'' then llm_route (rp_default p)
                else unknown_route (rp_default p))"

section \<open>The gate\<close>

text \<open>The ledger the gate reads is shared with its writers, so a check takes it as it is at that moment.\<close>

record permission_gate =
  resource_prefix :: string
  caller_role_resolver :: "(io_call_context \<Rightarrow> caller_role) option"
  gate_route_policy :: "route_policy option"

definition gate_new :: permission_gate where
  "gate_new = \<lparr>resource_prefix = ''io:'', caller_role_resolver = None, gate_route_policy = None\<rparr>"

definition with_caller_role_resolver :: "(io_call_context \<Rightarrow> caller_role) \<Rightarrow> permission_gate \<Rightarrow> permission_gate" where
  "with_caller_role_resolver f g = g\<lparr>caller_role_resolver := Some f\<rparr>"

definition with_route_policy :: "route_policy \<Rightarrow> permission_gate \<Rightarrow> permission_gate" where
  "with_route_policy p g = g\<lparr>gate_route_policy := Some p\<rparr>"

definition with_resource_prefix :: "string \<Rightarrow> permission_gate \<Rightarrow> permission_gate" where
  "with_resource_prefix p g = g\<lparr>resource_prefix := p\<rparr>"

definition route_target :: "json option \<Rightarrow> string" where
  "route_target payload =
     unwrap_or [] (Option.bind (Option.bind payload (json_get ''target'')) as_str)"

definition static_route :: "route_policy option \<Rightarrow> io_call_context \<Rightarrow> string \<Rightarrow> json option \<Rightarrow> string option" where
  "static_route policy ctx io_type payload =
     (case policy of
        None \<Rightarrow> None
      | Some p \<Rightarrow>
          (case decide p (caller_role_as_str (ctx_role ctx)) io_type (route_target payload) of
             RouteDeny \<Rightarrow> Some ''deny''
           | RouteAsk \<Rightarrow> if ctx_role ctx \<noteq> Human then Some ''ask-fallback'' else None
           | RouteAllow \<Rightarrow> None))"

definition check_routed ::
  "(serde \<Rightarrow> string + permission_entry) \<Rightarrow> (serde \<Rightarrow> string + default_policy) \<Rightarrow> permission_gate \<Rightarrow> ('s, 'k) shared_log \<Rightarrow>
   io_call_context \<Rightarrow> string \<Rightarrow> json option \<Rightarrow> (verdict \<times> string option) \<times> io_call_context" where
  "check_routed de_entry de_policy g s ctx io_type payload =
     (let ctx1 = (case caller_role_resolver g of Some f \<Rightarrow> ctx\<lparr>ctx_role := f ctx\<rparr> | None \<Rightarrow> ctx);
          ctx2 = ctx1\<lparr>v_trigger := shared_version s\<rparr> in
      case static_route (gate_route_policy g) ctx2 io_type payload of
        Some route \<Rightarrow> ((VerdictDeny, Some route), ctx2)
      | None \<Rightarrow>
          (case snapshot_at de_entry de_policy s (v_trigger ctx2) of
             Inl _ \<Rightarrow> ((VerdictDeny, None), ctx2)
           | Inr table \<Rightarrow> ((table_evaluate table ctx2 (resource_prefix g @ io_type) ''io'' payload, None), ctx2)))"

definition gate_check where
  "gate_check de_entry de_policy g s ctx io_type payload = fst (fst (check_routed de_entry de_policy g s ctx io_type payload))"

section \<open>Decisions are deny-overrides\<close>

text \<open>When an entry concerns a call, and when it blocks it, grants it or leaves it to a reviewer.\<close>

definition concerns :: "io_call_context \<Rightarrow> string \<Rightarrow> string \<Rightarrow> permission_entry \<Rightarrow> bool" where
  "concerns ctx target action e \<longleftrightarrow>
     subject_matches (pe_subject e) (caller_role_as_str (ctx_role ctx)) \<and> action_matches (pe_action e) action \<and>
     resource_matches (pe_resource e) target"

definition condition_of :: "io_call_context \<Rightarrow> json \<Rightarrow> permission_entry \<Rightarrow> permission_error + bool" where
  "condition_of ctx payload e = (case pe_conditions e of None \<Rightarrow> Inr True | Some c \<Rightarrow> evaluate_conditions c ctx payload)"

definition blocks :: "io_call_context \<Rightarrow> string \<Rightarrow> string \<Rightarrow> json \<Rightarrow> permission_entry \<Rightarrow> bool" where
  "blocks ctx target action payload e \<longleftrightarrow>
     pe_state e = Active \<and> concerns ctx target action e \<and>
     (\<not> is_ok (condition_of ctx payload e) \<or> condition_of ctx payload e = Inr True \<and> pe_effect e = Deny)"

definition grants :: "io_call_context \<Rightarrow> string \<Rightarrow> string \<Rightarrow> json \<Rightarrow> permission_entry \<Rightarrow> bool" where
  "grants ctx target action payload e \<longleftrightarrow>
     pe_state e = Active \<and> concerns ctx target action e \<and> condition_of ctx payload e = Inr True \<and> pe_effect e = Allow"

definition awaits :: "io_call_context \<Rightarrow> string \<Rightarrow> string \<Rightarrow> permission_entry \<Rightarrow> bool" where
  "awaits ctx target action e \<longleftrightarrow> pe_state e = Candidate \<and> concerns ctx target action e"

lemmas decision_defs = blocks_def grants_def awaits_def concerns_def condition_of_def is_active_def is_candidate_def

lemma evaluate_loop_Cons:
  "evaluate_loop ctx target action payload (e # es) candidate allowed =
     (if blocks ctx target action payload e then Inl VerdictDeny
      else evaluate_loop ctx target action payload es (candidate \<or> awaits ctx target action e)
             (allowed \<or> grants ctx target action payload e))"
  by (cases "pe_state e"; cases "pe_effect e"; cases "pe_conditions e")
    (auto simp: decision_defs Let_def split: sum.splits bool.splits)

lemma evaluate_loop_spec:
  "evaluate_loop ctx target action payload es candidate allowed =
     (if \<exists>e \<in> set es. blocks ctx target action payload e then Inl VerdictDeny
      else Inr (candidate \<or> (\<exists>e \<in> set es. awaits ctx target action e),
                allowed \<or> (\<exists>e \<in> set es. grants ctx target action payload e)))"
  by (induction es arbitrary: candidate allowed) (auto simp: evaluate_loop_Cons simp del: evaluate_loop.simps(2))

text \<open>
  C38: decisions are deny-overrides.  The table denies exactly when an active entry that concerns the call
  denies it or has a condition that cannot be evaluated; otherwise it allows when an active entry grants
  the call, otherwise it waits when a candidate entry concerns it, and otherwise the default policy of the
  caller's role decides.  The order of the entries plays no part.
\<close>

theorem evaluate_deny_overrides:
  "table_evaluate t ctx target action payload =
     (if \<exists>e \<in> set (pt_entries t). blocks ctx target action (unwrap_or Null payload) e then VerdictDeny
      else if \<exists>e \<in> set (pt_entries t). grants ctx target action (unwrap_or Null payload) e then VerdictAllow
      else if \<exists>e \<in> set (pt_entries t). awaits ctx target action e then VerdictCandidate
      else effect_verdict (role_effect (pt_default_policy t) (ctx_role ctx)))"
  by (simp add: table_evaluate_def evaluate_loop_spec)

text \<open>
  The route policy tightens and never grants.  With a policy, the gate either answers as the same gate
  without one, or denies and names the route; so a call is allowed only by the table rebuilt from the
  ledger at its present version, and never for a route the policy denies or, without a human, escalates.
\<close>

theorem route_policy_only_tightens:
  "check_routed de_entry de_policy (g\<lparr>gate_route_policy := Some p\<rparr>) s ctx io_type payload =
     (let plain = check_routed de_entry de_policy (g\<lparr>gate_route_policy := None\<rparr>) s ctx io_type payload;
          decision = decide p (caller_role_as_str (ctx_role (snd plain))) io_type (route_target payload) in
      if decision = RouteDeny then ((VerdictDeny, Some ''deny''), snd plain)
      else if decision = RouteAsk \<and> ctx_role (snd plain) \<noteq> Human then ((VerdictDeny, Some ''ask-fallback''), snd plain)
      else plain)"
  by (auto simp: check_routed_def static_route_def Let_def split: option.splits sum.splits route_decision.splits)

section \<open>The ledger under the table\<close>

definition ledger_ok :: "('s, 'k) shared_log \<Rightarrow> bool" where
  "ledger_ok s \<longleftrightarrow>
     log_inv (sl_log s) \<and> sorted_wrt (<) (map fst (history (sl_log s)) @ [version (sl_log s)]) \<and>
     sl_inv s \<and> set (rolled_up s) \<subseteq> set (ids_of (sl_log s))"

lemma append_update_version:
  assumes "version l \<noteq> - 1"
  shows "version (snd (append store blake3 ser (PayloadUpdate i path v) l)) =
    (if is_ok (fst (append store blake3 ser (PayloadUpdate i path v) l)) then version l + 1 else version l)"
  using assms
proof (cases rule: append_outcome [of _ store blake3 ser "PayloadUpdate i path v"])
  case (written l1)
  then have "version l1 = version l" by auto
  with written assms show ?thesis
    by (simp add: record_step_def bump_log_version_def checked_inc_u64_def log_frames)
qed simp

lemma append_inner_effect:
  assumes "version (sl_log s) \<noteq> - 1" "append_inner ed store blake3 ser mt w w' path v source origin s = (r, s')"
  shows "rolled_up s' = rolled_up s"
    "is_ok r \<Longrightarrow> history (sl_log s') = history (sl_log s) @ [(version (sl_log s), PayloadUpdate (sl_next_fact_id s) path v)]"
    "\<not> is_ok r \<Longrightarrow> history (sl_log s') = history (sl_log s)"
    "version (sl_log s') = (if is_ok r then version (sl_log s) + 1 else version (sl_log s))"
    "log_inv (sl_log s) \<Longrightarrow> log_inv (sl_log s')"
proof -
  let ?a = "append store blake3 ser (PayloadUpdate (sl_next_fact_id s) path v) (sl_log s)"
  note v = append_update_version [OF assms(1), of store blake3 ser "sl_next_fact_id s" path v]
  note i = append_inv [OF _ assms(1), of store blake3 ser "PayloadUpdate (sl_next_fact_id s) path v"]
  have "rolled_up s' = rolled_up s \<and> (is_ok r \<longrightarrow> history (sl_log s') = history (sl_log s) @ [(version (sl_log s), PayloadUpdate (sl_next_fact_id s) path v)]) \<and>
    (\<not> is_ok r \<longrightarrow> history (sl_log s') = history (sl_log s)) \<and>
    version (sl_log s') = (if is_ok r then version (sl_log s) + 1 else version (sl_log s)) \<and>
    (log_inv (sl_log s) \<longrightarrow> log_inv (sl_log s'))"
    using assms(1)
  proof (cases rule: append_inner_cases [of _ ed store blake3 ser mt w w' path v source origin])
    case exhausted
    then show ?thesis using assms(2) by auto
  next
    case (refused e nxt)
    then have "\<not> is_ok (fst ?a)" by (auto simp: append_inner_def Let_def split_beta split: sum.splits)
    then show ?thesis using refused assms(2) v i by auto
  next
    case (recorded ver nxt s2)
    then have "is_ok (fst ?a)" by (auto simp: append_inner_def Let_def split_beta split: sum.splits)
    moreover have "s' = seal_if_due ed blake3 mt w' (count_record (persist_metadata w (record_source (sl_next_fact_id s) source origin s2)))" "r = Inr ver"
      using recorded(3) assms(2) by auto
    ultimately show ?thesis using recorded(2,4) v i by auto
  qed
  then show "rolled_up s' = rolled_up s"
    "is_ok r \<Longrightarrow> history (sl_log s') = history (sl_log s) @ [(version (sl_log s), PayloadUpdate (sl_next_fact_id s) path v)]"
    "\<not> is_ok r \<Longrightarrow> history (sl_log s') = history (sl_log s)"
    "version (sl_log s') = (if is_ok r then version (sl_log s) + 1 else version (sl_log s))"
    "log_inv (sl_log s) \<Longrightarrow> log_inv (sl_log s')" by blast+
qed

lemma append_inner_ledger:
  assumes "ledger_ok s" "version (sl_log s) \<noteq> - 1" "append_inner ed store blake3 ser mt w w' path v source origin s = (r, s')"
  shows "ledger_ok s'"
proof -
  note e = append_inner_effect [OF assms(2,3)]
  have "sl_inv s'" using append_inner_inv [of s] assms by (metis ledger_ok_def snd_conv)
  moreover have "version (sl_log s) < version (sl_log s) + 1"
    using assms(2) by (simp add: word_less_nat_alt unat_inc_u64)
  moreover have "x < version (sl_log s) + 1" if "x < version (sl_log s)" for x
    using that \<open>version (sl_log s) < version (sl_log s) + 1\<close> by (rule order.strict_trans)
  ultimately show ?thesis
    using assms(1) e by (cases "is_ok r") (auto simp: ledger_ok_def sorted_wrt_append ids_of_def)
qed

lemma mark_loop_rolled_up:
  assumes "mark_loop is s out = (out', s')"
  shows "set (rolled_up s') \<subseteq> set (rolled_up s) \<union> {i. bt_contains i (fact_sources s)}"
  using assms by (induction "is" s out rule: mark_loop.induct) (auto simp: set_insert_def set_insort_key split: if_splits)

lemma bare_metadata_rolled_up: "bare_metadata (metadata_of s) = bare_metadata (metadata_of t) \<Longrightarrow> rolled_up s = rolled_up t"
  by (simp add: bare_metadata_def metadata_of_def)

lemma shared_life_ledger:
  fixes s :: "(wal_writer \<times> disk, 'k) shared_log"
  assumes "json_text ser de"
  shows "shared_life ed blake3 ser de mt s \<Longrightarrow> ledger_ok s"
proof (induction rule: shared_life.induct)
  case (sl_start s)
  then have "shared_life ed blake3 ser de mt s" by (rule shared_life.sl_start)
  with shared_life_inv [OF assms this] life_log_inv [OF assms] have "sl_inv s" "log_inv (sl_log s)" by auto
  moreover have "s = (shared_with (with_wal_options 0 []))\<lparr>metadata_file := Some None\<rparr>"
    using sl_start
    by (simp add: shared_recover_def recover_log_def bt_contains_def result_simps unwrap_or_def metadata_default_def shared_with_def)
  ultimately show ?case
    by (simp add: ledger_ok_def shared_with_def with_wal_options_def with_wal_store_def log_new_def)
next
  case (sl_append s v os path source origin)
  show ?case by (rule append_inner_ledger [OF sl_append.IH sl_append.hyps(3) prod.collapse [symmetric]])
next
  case (sl_mark s ids)
  obtain out s' where m: "mark_loop ids s \<lparr>marked = 0, unknown_ids = []\<rparr> = (out, s')" by fastforce
  show ?case
    using sl_mark.IH m mark_loop_frame [OF m] mark_loop_rolled_up [OF m] by (auto simp: mark_as_rollup_def ledger_ok_def sl_inv_def)
next
  case (sl_used s session ids)
  then show ?case by (simp add: record_used_at_startup_def ledger_ok_def sl_inv_def)
next
  case (sl_anchor s signer kid eng interval)
  then show ?case by (simp add: shared_with_anchor_def ledger_ok_def sl_inv_def)
next
  case (sl_seal s)
  then show ?case by (simp add: ledger_ok_def sl_inv_def)
next
  case (sl_rotate s os')
  then show ?case
    by (auto simp: shared_rotate_wal_def rotate_wal_def ledger_ok_def sl_inv_def ids_of_def log_inv_hash
        split: prod.splits option.splits sum.splits)
next
  case (sl_restart s s')
  have i: "log_life blake3 ser de 0 (sl_log s)" "sl_inv s" "file_ok s" using shared_life_inv [OF assms sl_restart.hyps(1)] by auto
  obtain t :: "(wal_writer \<times> disk, 'k) shared_log" where t:
    "shared_recover blake3 ser de (snd (the (wal (sl_log s)))) (Inr (the (metadata_file s))) = Inr t"
    "log_life blake3 ser de 0 (sl_log t)" "sl_inv t" "history (sl_log t) = history (sl_log s)"
    "version (sl_log t) = version (sl_log s)" "bare_metadata (metadata_of t) = bare_metadata (metadata_of s)"
    using assms i by (rule recovered_shared)
  then have "ledger_ok t"
    using sl_restart.IH life_log_inv [OF assms t(2)] bare_metadata_rolled_up [OF t(6)] by (simp add: ledger_ok_def ids_of_def)
  with t(1) sl_restart.hyps(2) show ?case by simp
qed

section \<open>What the table is rebuilt from\<close>

text \<open>Version, path and value of the updates under a prefix that are not rolled up.\<close>

definition visible :: "string \<Rightarrow> ('s, 'k) shared_log \<Rightarrow> (u64 \<times> string \<times> json) set" where
  "visible prefix s = {(ver, path, v). starts_with prefix path \<and>
     (\<exists>fid. (ver, PayloadUpdate fid path v) \<in> set (history (sl_log s)) \<and> fid \<notin> set (rolled_up s))}"

lemma visible_triple:
  "(\<exists>f. visible_fact s x = Some f \<and> (sf_version f, sf_path f, sf_value f) = (ver, path, v)) \<longleftrightarrow>
     (\<exists>fid. x = (ver, PayloadUpdate fid path v) \<and> fid \<notin> set (rolled_up s))"
  by (cases x; cases "snd x") (auto simp: visible_fact_def)

lemma map_filter_set: "y \<in> set (List.map_filter g xs) \<longleftrightarrow> (\<exists>x \<in> set xs. g x = Some y)"
  by (force simp: List.map_filter_def)

lemma shared_query:
  assumes "log_inv (sl_log s)"
  shows "(\<lambda>f. (sf_version f, sf_path f, sf_value f)) ` set (shared_by_path_prefix prefix s) = visible prefix s"
proof -
  have q: "set (facts_by_path_prefix prefix (sl_log s)) = set (filter (updates_under prefix) (history (sl_log s)))"
    using assms by (intro mset_eq_setD path_query_mset) (simp add: log_inv_def)
  have "y \<in> (\<lambda>f. (sf_version f, sf_path f, sf_value f)) ` set (shared_by_path_prefix prefix s) \<longleftrightarrow> y \<in> visible prefix s" for y
  proof -
    obtain ver path v where y: "y = (ver, path, v)" by (rule prod_cases3)
    have "y \<in> (\<lambda>f. (sf_version f, sf_path f, sf_value f)) ` set (shared_by_path_prefix prefix s) \<longleftrightarrow>
        (\<exists>x \<in> set (filter (updates_under prefix) (history (sl_log s))).
           \<exists>f. visible_fact s x = Some f \<and> (sf_version f, sf_path f, sf_value f) = (ver, path, v))"
      unfolding y image_iff Bex_def shared_by_path_prefix_def map_filter_set q by metis
    also have "\<dots> \<longleftrightarrow> y \<in> visible prefix s"
      unfolding visible_triple by (auto simp: y visible_def updates_under_def)
    finally show ?thesis .
  qed
  then show ?thesis by blast
qed

lemma visible_versions: "map sf_version (List.map_filter (visible_fact s) xs) = map fst (filter (\<lambda>x. visible_fact s x \<noteq> None) xs)"
  by (induction xs) (auto simp: List.map_filter_simps visible_fact_def split: fact.splits option.splits if_splits)

lemma shared_query_distinct:
  assumes "ledger_ok s"
  shows "distinct (map sf_version (shared_by_path_prefix prefix s))"
proof -
  have "mset (map fst (facts_by_path_prefix prefix (sl_log s))) = mset (map fst (filter (updates_under prefix) (history (sl_log s))))"
    unfolding mset_map using assms by (intro arg_cong [of _ _ "image_mset fst"] path_query_mset) (simp add: ledger_ok_def log_inv_def)
  moreover have "distinct (map fst (history (sl_log s)))"
    using assms by (auto simp: ledger_ok_def sorted_wrt_append strict_sorted_iff)
  ultimately have "distinct (map fst (facts_by_path_prefix prefix (sl_log s)))"
    using distinct_map_filter mset_eq_imp_distinct_iff by blast
  then show ?thesis by (simp add: shared_by_path_prefix_def visible_versions distinct_map_filter)
qed

text \<open>Keeping the first of the highest versions, on pairs of a version and a value.\<close>

definition pick :: "(u64 \<times> 'a) option \<Rightarrow> u64 \<times> 'a \<Rightarrow> (u64 \<times> 'a) option" where
  "pick acc x = (case acc of None \<Rightarrow> Some x | Some y \<Rightarrow> if fst y \<ge> fst x then acc else Some x)"

lemma pick_Some:
  "\<exists>x. foldl pick (Some a) xs = Some x \<and> x \<in> insert a (set xs) \<and> (\<forall>y \<in> insert a (set xs). fst y \<le> fst x)"
proof (induction xs arbitrary: a)
  case (Cons z zs)
  define b where "b = (if fst z \<le> fst a then a else z)"
  have b: "pick (Some a) z = Some b" "b \<in> {a, z}" "fst a \<le> fst b" "fst z \<le> fst b" by (auto simp: b_def pick_def)
  from Cons.IH [of b] obtain x where x: "foldl pick (Some b) zs = Some x" "x \<in> insert b (set zs)"
    "\<forall>y \<in> insert b (set zs). fst y \<le> fst x" by blast
  then have "fst b \<le> fst x" by simp
  then have "fst a \<le> fst x" "fst z \<le> fst x" using b(3,4) by (blast intro: order_trans)+
  then show ?case using x b(1,2) by (intro exI [of _ x]) auto
qed simp

lemma pick_max:
  assumes "distinct (map fst xs)"
  shows "foldl pick None xs = Some x \<longleftrightarrow> x \<in> set xs \<and> (\<forall>y \<in> set xs. fst y \<le> fst x)"
proof (cases "xs = []")
  case False
  then obtain z zs where "xs = z # zs" by (cases xs) auto
  moreover have "pick None z = Some z" by (simp add: pick_def)
  ultimately obtain y where y: "foldl pick None xs = Some y" "y \<in> set xs" "\<forall>u \<in> set xs. fst u \<le> fst y"
    using pick_Some [of z zs] by auto
  have "x = y" if "x \<in> set xs" "\<forall>u \<in> set xs. fst u \<le> fst x"
  proof -
    have "fst x = fst y" using that y by (simp add: order_antisym)
    then show ?thesis using assms that(1) y(2) by (auto simp: distinct_map dest: inj_onD)
  qed
  then show ?thesis using y by auto
qed simp

definition entry_pair :: "shared_fact \<Rightarrow> u64 \<times> json" where
  "entry_pair f = (sf_version f, sf_value f)"

lemma latest_fold:
  "bt_get i (foldl (latest_step v) m fs) =
     foldl pick (bt_get i m) (map entry_pair (filter (\<lambda>f. sf_version f < v \<and> trim_entry_prefix (sf_path f) = i) fs))"
  by (induction fs arbitrary: m)
    (auto simp: latest_step_def Let_def entry_pair_def pick_def not_le split: option.splits)

lemma latest_sorted: "bt_sorted m \<Longrightarrow> bt_sorted (foldl (latest_step v) m fs)"
  by (induction fs arbitrary: m) (auto simp: latest_step_def Let_def split: option.splits)

lemma latest_entries_sorted: "bt_sorted (latest_entries v s)"
  by (simp add: latest_entries_def latest_sorted bt_new_def)

text \<open>The updates of one entry before a version, and the newest of them.\<close>

definition updates_of :: "string \<Rightarrow> u64 \<Rightarrow> ('s, 'k) shared_log \<Rightarrow> (u64 \<times> json) set" where
  "updates_of i v s = {(ver, val). ver < v \<and> (\<exists>path. (ver, path, val) \<in> visible ENTRY_PREFIX s \<and> trim_entry_prefix path = i)}"

lemma latest_entries_get:
  assumes "ledger_ok s"
  shows "bt_get i (latest_entries v s) = Some x \<longleftrightarrow> x \<in> updates_of i v s \<and> (\<forall>y \<in> updates_of i v s. fst y \<le> fst x)"
proof -
  let ?P = "\<lambda>f. sf_version f < v \<and> trim_entry_prefix (sf_path f) = i"
  let ?fs = "filter ?P (shared_by_path_prefix ENTRY_PREFIX s)"
  have "distinct (map fst (map entry_pair ?fs))"
    using shared_query_distinct [OF assms, of ENTRY_PREFIX] by (simp add: entry_pair_def comp_def distinct_map_filter)
  moreover have "set (map entry_pair ?fs) = updates_of i v s"
  proof -
    have "(ver, val) \<in> updates_of i v s \<longleftrightarrow> (\<exists>f \<in> set ?fs. (ver, val) = entry_pair f)" for ver val
      unfolding updates_of_def shared_query [symmetric, OF conjunct1 [OF assms [unfolded ledger_ok_def]]] image_iff
      by (auto simp: entry_pair_def)
    then show ?thesis by (auto simp: image_iff)
  qed
  ultimately show ?thesis
    using pick_max [of "map entry_pair ?fs" x] by (simp add: latest_entries_def latest_fold bt_new_def)
qed

lemma latest_entries_eqI:
  assumes "ledger_ok s" "ledger_ok s'" "\<And>i. updates_of i v s = updates_of i v' s'"
  shows "latest_entries v s = latest_entries v' s'"
proof -
  have "bt_get i (latest_entries v s) = bt_get i (latest_entries v' s')" for i
    using assms by (intro option_eqI) (simp add: latest_entries_get)
  then show ?thesis by (rule btree.entries_ext [OF latest_entries_sorted latest_entries_sorted])
qed

section \<open>Reading back what was written\<close>

lemma trim_entry_path: "\<not> starts_with ENTRY_PREFIX i \<Longrightarrow> trim_entry_prefix (ENTRY_PREFIX @ i) = i"
  by (subst trim_entry_prefix.simps, simp, subst trim_entry_prefix.simps, simp add: strip_prefix_def)

lemma visible_append:
  assumes "ledger_ok s" "version (sl_log s) \<noteq> - 1" "append_inner ed store blake3 ser mt w w' path v source origin s = (r, s')"
  shows "visible prefix s' = (if is_ok r \<and> starts_with prefix path then insert (version (sl_log s), path, v) (visible prefix s)
    else visible prefix s)"
proof -
  note e = append_inner_effect [OF assms(2,3)]
  have "sl_next_fact_id s \<notin> set (rolled_up s)" using assms(1) by (auto simp: ledger_ok_def sl_inv_def)
  then show ?thesis by (cases "is_ok r") (auto simp: visible_def e)
qed

lemma visible_before: "ledger_ok s \<Longrightarrow> (ver, path, v) \<in> visible prefix s \<Longrightarrow> ver < version (sl_log s)"
  by (force simp: visible_def ledger_ok_def sorted_wrt_append)

lemma updates_of_append:
  assumes "ledger_ok s" "version (sl_log s) \<noteq> - 1" "append_inner ed store blake3 ser mt w w' path val source origin s = (r, s')"
  shows "updates_of i v s' = (if is_ok r \<and> starts_with ENTRY_PREFIX path \<and> version (sl_log s) < v \<and> trim_entry_prefix path = i
    then insert (version (sl_log s), val) (updates_of i v s) else updates_of i v s)"
  by (auto simp: updates_of_def visible_append [OF assms])

definition loaded_permission :: "(serde \<Rightarrow> string + permission_entry) \<Rightarrow> string \<Rightarrow> u64 \<times> json \<Rightarrow> permission_entry option" where
  "loaded_permission de_entry i x =
     (if is_tombstone (perm_to_serde (snd x)) then None
      else case de_entry (perm_to_serde (snd x)) of Inl _ \<Rightarrow> None | Inr e \<Rightarrow> Some (e\<lparr>pe_id := i, pe_version := fst x\<rparr>))"

lemma load_entries_find:
  "bt_sorted m \<Longrightarrow> load_entries de_entry m = Inr es \<Longrightarrow>
   List.find (\<lambda>e. pe_id e = i) es = Option.bind (bt_get i m) (loaded_permission de_entry i)"
proof (induction m arbitrary: es)
  case (Cons x m)
  obtain j ver v where x: "x = (j, ver, v)" by (rule prod_cases3)
  have absent: "bt_get j m = None" using Cons.prems(1) by (auto simp: x bt_get_None_iff)
  show ?case
  proof (cases "is_tombstone (perm_to_serde v)")
    case True
    then have "List.find (\<lambda>e. pe_id e = i) es = Option.bind (bt_get i m) (loaded_permission de_entry i)"
      using Cons by (simp add: x Let_def)
    moreover have "loaded_permission de_entry j (ver, v) = None" using True by (simp add: loaded_permission_def)
    ultimately show ?thesis using absent by (simp add: x)
  next
    case False
    then obtain e es' where e: "de_entry (perm_to_serde v) = Inr e" "load_entries de_entry m = Inr es'"
      "es = e\<lparr>pe_id := j, pe_version := ver\<rparr> # es'"
      using Cons.prems(2) by (auto simp: x Let_def and_then_def map_err_def map_ok_def split: sum.splits)
    then have "List.find (\<lambda>e. pe_id e = i) es' = Option.bind (bt_get i m) (loaded_permission de_entry i)"
      using Cons by (simp add: x)
    moreover have "loaded_permission de_entry j (ver, v) = Some (e\<lparr>pe_id := j, pe_version := ver\<rparr>)"
      using False e(1) by (simp add: loaded_permission_def)
    ultimately show ?thesis using e(3) by (auto simp: x)
  qed
qed simp

lemma is_ok_map_ok [simp]: "is_ok (map_ok f r) = is_ok r"
  by (cases r) (simp_all add: map_ok_def)

lemma load_entries_ok:
  "is_ok (load_entries de_entry m) \<longleftrightarrow>
     (\<forall>(i, ver, v) \<in> set m. is_tombstone (perm_to_serde v) \<or> is_ok (de_entry (perm_to_serde v)))"
proof (induction m)
  case (Cons x m)
  then show ?case
    by (cases x; cases "de_entry (perm_to_serde (snd (snd x)))") (auto simp: Let_def and_then_def map_err_def)
qed simp

lemma snapshot_lookup:
  assumes "snapshot_at de_entry de_policy s v = Inr t"
  shows "table_get i t = Option.bind (bt_get i (latest_entries v s)) (loaded_permission de_entry i)"
proof -
  from assms have "load_entries de_entry (latest_entries v s) = Inr (pt_entries t)"
    by (auto simp: snapshot_at_def and_then_def split: sum.splits)
  from load_entries_find [OF latest_entries_sorted this] show ?thesis by (simp add: table_get_def)
qed

lemma latest_after_append:
  assumes ok: "ledger_ok s" "version (sl_log s) \<noteq> - 1" and i: "\<not> starts_with ENTRY_PREFIX i"
    and a: "append_inner ed store blake3 ser mt w w' (ENTRY_PREFIX @ i) val source origin s = (Inr ver, s')"
  shows "bt_get j (latest_entries (version (sl_log s')) s') =
    (if j = i then Some (version (sl_log s), val) else bt_get j (latest_entries (version (sl_log s)) s))"
proof -
  have ok': "ledger_ok s'" by (rule append_inner_ledger [OF ok a])
  have v': "version (sl_log s') = version (sl_log s) + 1" using append_inner_effect(4) [OF ok(2) a] by simp
  have lt: "version (sl_log s) < version (sl_log s')"
    unfolding v' using ok(2) by (simp add: word_less_nat_alt unat_inc_u64)
  have old: "updates_of j (version (sl_log s')) s = updates_of j (version (sl_log s)) s" for j
    using visible_before [OF ok(1)] lt by (fastforce simp: updates_of_def)
  have new: "updates_of j (version (sl_log s')) s' =
      (if j = i then insert (version (sl_log s), val) (updates_of j (version (sl_log s)) s) else updates_of j (version (sl_log s)) s)"
    using lt i by (simp add: updates_of_append [OF ok a] old trim_entry_path)
  have below: "fst y < version (sl_log s)" if "y \<in> updates_of i (version (sl_log s)) s" for y
    using that by (auto simp: updates_of_def)
  show ?thesis
  proof (cases "j = i")
    case True
    then show ?thesis unfolding if_P [OF True] latest_entries_get [OF ok'] new using below by (auto simp: less_imp_le)
  next
    case False
    then show ?thesis unfolding if_not_P [OF False] using ok(1) ok' by (intro option_eqI) (simp add: latest_entries_get new)
  qed
qed

text \<open>The default policy is read from the newest update of its path.\<close>

lemma newest_pick:
  "distinct (map sf_version fs) \<Longrightarrow> (\<And>g. acc = Some g \<Longrightarrow> sf_version g \<notin> sf_version ` set fs) \<Longrightarrow>
   map_option entry_pair (foldl newest acc fs) = foldl pick (map_option entry_pair acc) (map entry_pair fs)"
proof (induction fs arbitrary: acc)
  case (Cons f fs)
  have "map_option entry_pair (newest acc f) = pick (map_option entry_pair acc) (entry_pair f)"
    using Cons.prems(2) by (auto simp: newest_def pick_def entry_pair_def split: option.splits)
  moreover have "sf_version g \<notin> sf_version ` set fs" if "newest acc f = Some g" for g
    using that Cons.prems by (auto simp: newest_def split: option.splits if_splits)
  ultimately show ?case using Cons by simp
qed simp

definition policy_updates :: "u64 \<Rightarrow> ('s, 'k) shared_log \<Rightarrow> (u64 \<times> json) set" where
  "policy_updates v s = {(ver, val). ver \<le> v \<and> (ver, DEFAULT_POLICY_PATH, val) \<in> visible DEFAULT_POLICY_PATH s}"

definition policy_value :: "(serde \<Rightarrow> string + default_policy) \<Rightarrow> json \<Rightarrow> default_policy" where
  "policy_value de_policy v = (case de_policy (perm_to_serde v) of Inr p \<Rightarrow> p | Inl _ \<Rightarrow> default_policy_default)"

lemma load_default_policy_pick:
  assumes "ledger_ok s"
  obtains fs where "distinct (map fst fs)" "set fs = policy_updates v s"
    "load_default_policy de_policy s v =
       (case foldl pick None fs of None \<Rightarrow> default_policy_default | Some x \<Rightarrow> policy_value de_policy (snd x))"
proof -
  let ?fs = "filter (\<lambda>f. sf_version f \<le> v \<and> sf_path f = DEFAULT_POLICY_PATH) (shared_by_path_prefix DEFAULT_POLICY_PATH s)"
  have d: "distinct (map sf_version ?fs)"
    using shared_query_distinct [OF assms, of DEFAULT_POLICY_PATH] by (simp add: distinct_map_filter)
  then have "distinct (map fst (map entry_pair ?fs))" by (simp add: entry_pair_def comp_def)
  moreover have "(ver, val) \<in> policy_updates v s \<longleftrightarrow> (\<exists>f \<in> set ?fs. (ver, val) = entry_pair f)" for ver val
    unfolding policy_updates_def shared_query [symmetric, OF conjunct1 [OF assms [unfolded ledger_ok_def]]] image_iff
    by (auto simp: entry_pair_def)
  then have "set (map entry_pair ?fs) = policy_updates v s" by (auto simp: image_iff)
  moreover have pk: "map_option entry_pair (foldl newest None ?fs) = foldl pick None (map entry_pair ?fs)"
    using newest_pick [OF d, of None] by simp
  have "load_default_policy de_policy s v =
      (case foldl pick None (map entry_pair ?fs) of None \<Rightarrow> default_policy_default | Some x \<Rightarrow> policy_value de_policy (snd x))"
    unfolding pk [symmetric] by (simp add: load_default_policy_def policy_value_def entry_pair_def split: option.splits)
  ultimately show thesis by (rule that)
qed

lemma load_default_policy_eqI:
  assumes "ledger_ok s" "ledger_ok s'" "policy_updates v s = policy_updates v' s'"
  shows "load_default_policy de_policy s v = load_default_policy de_policy s' v'"
proof -
  obtain fs where fs: "distinct (map fst fs)" "set fs = policy_updates v s" "load_default_policy de_policy s v =
      (case foldl pick None fs of None \<Rightarrow> default_policy_default | Some x \<Rightarrow> policy_value de_policy (snd x))"
    using assms(1) by (rule load_default_policy_pick)
  obtain gs where gs: "distinct (map fst gs)" "set gs = policy_updates v' s'" "load_default_policy de_policy s' v' =
      (case foldl pick None gs of None \<Rightarrow> default_policy_default | Some x \<Rightarrow> policy_value de_policy (snd x))"
    using assms(2) by (rule load_default_policy_pick)
  have "foldl pick None fs = foldl pick None gs"
    using pick_max [OF fs(1)] pick_max [OF gs(1)] fs(2) gs(2) assms(3) by (intro option_eqI) simp
  then show ?thesis using fs(3) gs(3) by simp
qed

lemma policy_updates_append:
  assumes "ledger_ok s" "version (sl_log s) \<noteq> - 1" "append_inner ed store blake3 ser mt w w' path val source origin s = (r, s')"
  shows "policy_updates v s' = (if is_ok r \<and> path = DEFAULT_POLICY_PATH \<and> version (sl_log s) \<le> v
    then insert (version (sl_log s), val) (policy_updates v s) else policy_updates v s)"
  by (auto simp: policy_updates_def visible_append [OF assms] starts_with_def)

lemma policy_updates_present:
  "ledger_ok s \<Longrightarrow> version (sl_log s) \<le> v \<Longrightarrow> version (sl_log s) \<le> v' \<Longrightarrow> policy_updates v s = policy_updates v' s"
  using visible_before [of s] by (fastforce simp: policy_updates_def)

section \<open>The table is a map that writes update, and its past is fixed\<close>

lemma entry_append_table:
  assumes ok: "ledger_ok s" "version (sl_log s) \<noteq> - 1" and i: "\<not> starts_with ENTRY_PREFIX i"
    and a: "append_inner ed store blake3 ser mt w w' (ENTRY_PREFIX @ i) val source origin s = (Inr ver, s')"
    and val: "is_tombstone (perm_to_serde val) \<or> is_ok (de_entry (perm_to_serde val))"
    and t: "snapshot_at de_entry de_policy s (shared_version s) = Inr t"
  shows "\<exists>t'. snapshot_at de_entry de_policy s' (shared_version s') = Inr t' \<and> pt_default_policy t' = pt_default_policy t \<and>
    (\<forall>j. table_get j t' = (if j = i then loaded_permission de_entry i (shared_version s, val) else table_get j t))"
proof -
  let ?v = "version (sl_log s)" and ?v' = "version (sl_log s')"
  have ok': "ledger_ok s'" by (rule append_inner_ledger [OF ok a])
  have get: "bt_get j (latest_entries ?v' s') = (if j = i then Some (?v, val) else bt_get j (latest_entries ?v s))" for j
    by (rule latest_after_append [OF ok i a])
  have "is_ok (load_entries de_entry (latest_entries ?v s))"
    using t by (auto simp: snapshot_at_def shared_version_def and_then_def split: sum.splits)
  then have "is_tombstone (perm_to_serde x) \<or> is_ok (de_entry (perm_to_serde x))"
    if "(j, ver, x) \<in> set (latest_entries ?v' s')" for j ver x
  proof (cases "j = i")
    case True
    then show ?thesis using that val get [of j] by (simp add: bt_get_in_iff [OF latest_entries_sorted, symmetric])
  next
    case False
    then have "(j, ver, x) \<in> set (latest_entries ?v s)"
      using that get [of j] by (simp add: bt_get_in_iff [OF latest_entries_sorted, symmetric])
    then show ?thesis using \<open>is_ok (load_entries de_entry (latest_entries ?v s))\<close> unfolding load_entries_ok by fast
  qed
  then have "is_ok (load_entries de_entry (latest_entries ?v' s'))" unfolding load_entries_ok by fast
  then obtain t' where t': "snapshot_at de_entry de_policy s' ?v' = Inr t'"
    by (auto simp: snapshot_at_def and_then_def is_ok_def split: sum.splits)
  have "table_get j t' = (if j = i then loaded_permission de_entry i (?v, val) else table_get j t)" for j
    using snapshot_lookup [OF t', of j] snapshot_lookup [OF t, of j] get [of j] by (simp add: shared_version_def)
  moreover have "pt_default_policy t' = pt_default_policy t"
  proof -
    have "ENTRY_PREFIX @ i \<noteq> DEFAULT_POLICY_PATH" by (simp add: ENTRY_PREFIX_def DEFAULT_POLICY_PATH_def)
    then have "policy_updates ?v' s' = policy_updates ?v' s" by (simp add: policy_updates_append [OF ok a])
    also have "\<dots> = policy_updates ?v s"
      using append_inner_effect(4) [OF ok(2) a] ok by (intro policy_updates_present) (simp_all add: word_le_nat_alt unat_inc_u64)
    finally have "load_default_policy de_policy s' ?v' = load_default_policy de_policy s ?v"
      by (rule load_default_policy_eqI [OF ok' ok(1)])
    then show ?thesis using t t' by (auto simp: snapshot_at_def shared_version_def and_then_def split: sum.splits)
  qed
  ultimately show ?thesis using t' by (auto simp: shared_version_def)
qed

text \<open>What is assumed of the serde derivation at one entry, and of its passage through the ledger.\<close>

definition entry_serde :: "(permission_entry \<Rightarrow> string + serde) \<Rightarrow> (serde \<Rightarrow> string + permission_entry) \<Rightarrow> permission_entry \<Rightarrow> bool" where
  "entry_serde ser_entry de_entry e \<longleftrightarrow>
     (case ser_entry e of
        Inl _ \<Rightarrow> False
      | Inr sv \<Rightarrow> perm_to_serde (perm_to_tcb sv) = sv \<and> \<not> is_tombstone sv \<and> de_entry sv = Inr e)"

lemma store_entry_ok:
  assumes "entry_serde ser_entry de_entry e"
    "store_entry ed store blake3 ser mt w w' ser_entry e session s = (Inr ver, s')"
  obtains sv where "append_inner ed store blake3 ser mt w w' (ENTRY_PREFIX @ pe_id e) (perm_to_tcb sv) session None s = (Inr ver, s')"
    "perm_to_serde (perm_to_tcb sv) = sv" "\<not> is_tombstone sv" "de_entry sv = Inr e"
  using assms
  by (auto simp: entry_serde_def store_entry_def shared_append_def path_for_def map_err_def Let_def split: sum.splits prod.splits)

lemma tombstone_written: "is_tombstone (perm_to_serde (perm_to_tcb (SObject [(TOMBSTONE_KEY, SBool True)])))"
  by (simp add: is_tombstone_def serde_map_def bt_new_def)

lemma remove_entry_ok:
  assumes "remove_entry ed store blake3 ser mt w w' i session s = (Inr (), s')"
  obtains ver where "append_inner ed store blake3 ser mt w w' (ENTRY_PREFIX @ i)
      (perm_to_tcb (SObject [(TOMBSTONE_KEY, SBool True)])) session None s = (Inr ver, s')"
  using assms
  by (auto simp: remove_entry_def shared_append_def path_for_def map_err_def map_ok_def Let_def split: sum.splits prod.splits)

text \<open>
  The table is a map, and storing an entry updates it.  At any point of the life of a ledger whose
  table can be rebuilt, storing an entry makes the table of the new version hold that entry under its
  name, with the version it was written at, and leaves every other entry and the default policy as they
  were.  Assumed of the serde derivations: the entry is read back from what it is written as, which
  holds no number outside the range of \<open>i64\<close>; the name of the entry does not repeat the path prefix.
\<close>

theorem store_entry_updates_table:
  fixes s s' :: "(wal_writer \<times> disk, 'k) shared_log"
  assumes "json_text ser de" "shared_life ed blake3 ser de mt s" "shared_version s \<noteq> - 1"
    and "entry_serde ser_entry de_entry e" "\<not> starts_with ENTRY_PREFIX (pe_id e)"
    and "snapshot_at de_entry de_policy s (shared_version s) = Inr t"
    and "store_entry ed (file_store os ser) blake3 ser mt True True ser_entry e session s = (Inr ver, s')"
  shows "\<exists>t'. snapshot_at de_entry de_policy s' (shared_version s') = Inr t' \<and> pt_default_policy t' = pt_default_policy t \<and>
    (\<forall>j. table_get j t' = (if j = pe_id e then Some (e\<lparr>pe_version := shared_version s\<rparr>) else table_get j t))"
proof -
  from assms(4,7) obtain sv where sv: "append_inner ed (file_store os ser) blake3 ser mt True True (ENTRY_PREFIX @ pe_id e)
      (perm_to_tcb sv) session None s = (Inr ver, s')" "perm_to_serde (perm_to_tcb sv) = sv" "\<not> is_tombstone sv" "de_entry sv = Inr e"
    by (rule store_entry_ok)
  have "version (sl_log s) \<noteq> - 1" using assms(3) by (simp add: shared_version_def)
  moreover have "is_tombstone (perm_to_serde (perm_to_tcb sv)) \<or> is_ok (de_entry (perm_to_serde (perm_to_tcb sv)))"
    using sv(2,4) by simp
  moreover have "loaded_permission de_entry (pe_id e) (shared_version s, perm_to_tcb sv) = Some (e\<lparr>pe_version := shared_version s\<rparr>)"
    using sv(2-) by (simp add: loaded_permission_def)
  ultimately show ?thesis
    using entry_append_table [OF shared_life_ledger [OF assms(1,2)] _ assms(5) sv(1) _ assms(6)] by auto
qed

definition sample_permission :: permission_entry where
  "sample_permission =
     (permission_entry_new ''deny-io'' subject_any \<lparr>resource_type = IoAction, resource_path = ''io:*''\<rparr> Deny)\<lparr>pe_state := Active\<rparr>"

abbreviation "sample_ser_entry \<equiv> \<lambda>_ :: permission_entry. Inr (SString ''entry'') :: string + serde"

abbreviation "sample_de_entry \<equiv> \<lambda>_ :: serde. Inr sample_permission :: string + permission_entry"

abbreviation "sample_de_policy \<equiv> \<lambda>_ :: serde. Inl ''none'' :: string + default_policy"

lemma sample_entry_serde:
  "entry_serde sample_ser_entry sample_de_entry sample_permission" "\<not> starts_with ENTRY_PREFIX (pe_id sample_permission)"
  by (simp_all add: entry_serde_def is_tombstone_def sample_permission_def permission_entry_new_def ENTRY_PREFIX_def starts_with_def)

lemma sample_snapshot: "\<exists>t. snapshot_at sample_de_entry de_policy s v = Inr t"
proof -
  have "is_ok (load_entries sample_de_entry (latest_entries v s))" by (simp add: load_entries_ok)
  then show ?thesis by (auto simp: snapshot_at_def and_then_def is_ok_def split: sum.splits)
qed

lemma sample_store:
  "\<exists>s'. store_entry sample_ed (file_store (\<lambda>_. None) unary_ser) sample_blake3 unary_ser (\<lambda>_. []) True True
     sample_ser_entry sample_permission 7 sample_ledger_one = (Inr 2, s')"
proof -
  have "log_life sample_blake3 unary_ser unary_de 0 (sl_log sample_ledger_one)"
    using shared_life_inv [OF unary_json_text sample_ledger_life] by simp
  then obtain s' where "append_inner sample_ed (file_store (\<lambda>_. None) unary_ser) sample_blake3 unary_ser (\<lambda>_. []) True True
      (ENTRY_PREFIX @ pe_id sample_permission) (String ''entry'') 7 None sample_ledger_one = (Inr 2, s')"
    using append_inner_accepted [of sample_ledger_one] life_has_wal [OF unary_json_text] sample_ledger_state by fastforce
  then show ?thesis by (simp add: store_entry_def shared_append_def path_for_def map_err_def)
qed

lemma sample_version: "shared_version sample_ledger_one = 1"
  by (simp add: shared_version_def sample_ledger_state)

theorem store_entry_updates_table_witness:
  "\<exists>s' t'. store_entry sample_ed (file_store (\<lambda>_. None) unary_ser) sample_blake3 unary_ser (\<lambda>_. []) True True
      sample_ser_entry sample_permission 7 sample_ledger_one = (Inr 2, s') \<and>
    snapshot_at sample_de_entry sample_de_policy s' (shared_version s') = Inr t' \<and>
    table_get ''deny-io'' t' = Some (sample_permission\<lparr>pe_version := 1\<rparr>)"
proof -
  obtain s' where s': "store_entry sample_ed (file_store (\<lambda>_. None) unary_ser) sample_blake3 unary_ser (\<lambda>_. []) True True
      sample_ser_entry sample_permission 7 sample_ledger_one = (Inr 2, s')" using sample_store by blast
  obtain t where "snapshot_at sample_de_entry sample_de_policy sample_ledger_one (shared_version sample_ledger_one) = Inr t"
    using sample_snapshot by blast
  from store_entry_updates_table [OF unary_json_text sample_ledger_life _ sample_entry_serde this s'] s' show ?thesis
    by (auto simp: sample_version) (auto simp: sample_permission_def permission_entry_new_def)
qed

text \<open>Removing an entry takes it out of the table and leaves everything else, by the same law.\<close>

theorem remove_entry_updates_table:
  fixes s s' :: "(wal_writer \<times> disk, 'k) shared_log"
  assumes "json_text ser de" "shared_life ed blake3 ser de mt s" "shared_version s \<noteq> - 1" "\<not> starts_with ENTRY_PREFIX i"
    and "snapshot_at de_entry de_policy s (shared_version s) = Inr t"
    and "remove_entry ed (file_store os ser) blake3 ser mt True True i session s = (Inr (), s')"
  shows "\<exists>t'. snapshot_at de_entry de_policy s' (shared_version s') = Inr t' \<and> pt_default_policy t' = pt_default_policy t \<and>
    (\<forall>j. table_get j t' = (if j = i then None else table_get j t))"
proof -
  from assms(6) obtain ver where a: "append_inner ed (file_store os ser) blake3 ser mt True True (ENTRY_PREFIX @ i)
      (perm_to_tcb (SObject [(TOMBSTONE_KEY, SBool True)])) session None s = (Inr ver, s')"
    by (rule remove_entry_ok)
  have "version (sl_log s) \<noteq> - 1" using assms(3) by (simp add: shared_version_def)
  moreover have "loaded_permission de_entry i (shared_version s, perm_to_tcb (SObject [(TOMBSTONE_KEY, SBool True)])) = None"
    using tombstone_written by (simp add: loaded_permission_def del: perm_to_tcb.simps)
  ultimately show ?thesis
    using entry_append_table [OF shared_life_ledger [OF assms(1,2)] _ assms(4) a disjI1 [OF tombstone_written] assms(5)]
    by (auto simp del: perm_to_tcb.simps)
qed

text \<open>
  The past of the table is fixed.  Whatever is appended to the ledger, the table of every earlier
  version is rebuilt as before, and the table of the version at the time of the append keeps its entries,
  so a recorded decision can be replayed.
\<close>

theorem snapshot_frozen:
  fixes s s' :: "(wal_writer \<times> disk, 'k) shared_log"
  assumes "json_text ser de" "shared_life ed blake3 ser de mt s" "shared_version s \<noteq> - 1"
    and "append_inner ed (file_store os ser) blake3 ser mt True True path val source origin s = (r, s')"
  shows "(v < shared_version s \<longrightarrow> snapshot_at de_entry de_policy s' v = snapshot_at de_entry de_policy s v) \<and>
    map_ok pt_entries (snapshot_at de_entry de_policy s' (shared_version s)) =
    map_ok pt_entries (snapshot_at de_entry de_policy s (shared_version s))"
proof -
  have v0: "version (sl_log s) \<noteq> - 1" using assms(3) by (simp add: shared_version_def)
  have ok: "ledger_ok s" by (rule shared_life_ledger [OF assms(1,2)])
  have ok': "ledger_ok s'" by (rule append_inner_ledger [OF ok v0 assms(4)])
  have le: "latest_entries v s' = latest_entries v s" if "v \<le> version (sl_log s)" for v
    using that by (intro latest_entries_eqI [OF ok' ok]) (auto simp: updates_of_append [OF ok v0 assms(4)])
  have pol: "load_default_policy de_policy s' v = load_default_policy de_policy s v" if "v < version (sl_log s)"
    using that by (intro load_default_policy_eqI [OF ok' ok]) (auto simp: policy_updates_append [OF ok v0 assms(4)])
  show ?thesis
    using le [of v] le [of "version (sl_log s)"] pol
    by (auto simp: snapshot_at_def shared_version_def and_then_def map_ok_def split: sum.splits)
qed

theorem snapshot_frozen_witness:
  "snapshot_at sample_de_entry sample_de_policy
     (snd (append_inner sample_ed (file_store (\<lambda>_. None) unary_ser) sample_blake3 unary_ser (\<lambda>_. []) True True
        (ENTRY_PREFIX @ ''a'') Null 7 None sample_ledger_one)) 0 =
   snapshot_at sample_de_entry sample_de_policy sample_ledger_one 0"
  by (rule mp [OF conjunct1 [OF snapshot_frozen [OF unary_json_text sample_ledger_life _ prod.collapse [symmetric]]]])
    (simp_all add: sample_version)

text \<open>
  The default policy of the present version is not fixed: the bound on its updates includes the version
  itself, so a policy written next is read back as the policy of the version before it.
\<close>

theorem default_policy_reaches_back:
  fixes s s' :: "(wal_writer \<times> disk, 'k) shared_log"
  assumes "json_text ser de" "shared_life ed blake3 ser de mt s" "shared_version s \<noteq> - 1"
    and "ser_policy p = Inr sv" "de_policy (perm_to_serde (perm_to_tcb sv)) = Inr p"
    and "set_default_policy ed (file_store os ser) blake3 ser mt True True ser_policy p session s = (Inr ver, s')"
  shows "load_default_policy de_policy s' (shared_version s) = p"
proof -
  have v0: "version (sl_log s) \<noteq> - 1" using assms(3) by (simp add: shared_version_def)
  have ok: "ledger_ok s" by (rule shared_life_ledger [OF assms(1,2)])
  have a: "append_inner ed (file_store os ser) blake3 ser mt True True DEFAULT_POLICY_PATH (perm_to_tcb sv) session None s = (Inr ver, s')"
    using assms(4,6) by (auto simp: set_default_policy_def shared_append_def map_err_def Let_def split: sum.splits prod.splits)
  obtain fs where fs: "distinct (map fst fs)" "set fs = policy_updates (version (sl_log s)) s'"
    "load_default_policy de_policy s' (version (sl_log s)) =
       (case foldl pick None fs of None \<Rightarrow> default_policy_default | Some x \<Rightarrow> policy_value de_policy (snd x))"
    using append_inner_ledger [OF ok v0 a] by (rule load_default_policy_pick)
  have "foldl pick None fs = Some (version (sl_log s), perm_to_tcb sv)"
    unfolding pick_max [OF fs(1)] fs(2) policy_updates_append [OF ok v0 a] by (auto simp: policy_updates_def)
  then show ?thesis using fs(3) assms(5) by (simp add: policy_value_def shared_version_def)
qed

text \<open>
  A stored prohibition is enforced at once: after an active, unconditional entry with effect deny has
  been stored, the gate denies every call the entry concerns, whatever the gate is configured with and
  whatever else the ledger holds.
\<close>

lemma stored_deny_enforced:
  fixes s s' :: "(wal_writer \<times> disk, 'k) shared_log"
  assumes "json_text ser de" "shared_life ed blake3 ser de mt s" "shared_version s \<noteq> - 1"
    and "entry_serde ser_entry de_entry e" "\<not> starts_with ENTRY_PREFIX (pe_id e)"
    and "pe_state e = Active" "pe_effect e = Deny" "pe_conditions e = None"
    and "store_entry ed (file_store os ser) blake3 ser mt True True ser_entry e session s = (Inr ver, s')"
    and "concerns (snd (check_routed de_entry de_policy g s' ctx io_type payload)) (resource_prefix g @ io_type) ''io'' e"
  shows "gate_check de_entry de_policy g s' ctx io_type payload = VerdictDeny"
proof (cases "snapshot_at de_entry de_policy s' (shared_version s')")
  case (Inl err)
  then show ?thesis by (auto simp: gate_check_def check_routed_def Let_def split: option.splits)
next
  case (Inr t)
  from assms(4,9) obtain sv where sv: "append_inner ed (file_store os ser) blake3 ser mt True True (ENTRY_PREFIX @ pe_id e)
      (perm_to_tcb sv) session None s = (Inr ver, s')" "perm_to_serde (perm_to_tcb sv) = sv" "\<not> is_tombstone sv" "de_entry sv = Inr e"
    by (rule store_entry_ok)
  have v0: "version (sl_log s) \<noteq> - 1" using assms(3) by (simp add: shared_version_def)
  have "table_get (pe_id e) t = loaded_permission de_entry (pe_id e) (version (sl_log s), perm_to_tcb sv)"
    using snapshot_lookup [OF Inr, of "pe_id e"] latest_after_append [OF shared_life_ledger [OF assms(1,2)] v0 assms(5) sv(1), of "pe_id e"]
    by (simp add: shared_version_def)
  also have "\<dots> = Some (e\<lparr>pe_version := version (sl_log s)\<rparr>)" using sv(2-) by (simp add: loaded_permission_def)
  finally have mem: "e\<lparr>pe_version := version (sl_log s)\<rparr> \<in> set (pt_entries t)"
    by (auto simp: table_get_def find_Some_iff)
  let ?ctx = "snd (check_routed de_entry de_policy g s' ctx io_type payload)"
  have "blocks ?ctx (resource_prefix g @ io_type) ''io'' p (e\<lparr>pe_version := version (sl_log s)\<rparr>)" for p
    using assms(6-8,10) by (simp add: decision_defs)
  with mem have "table_evaluate t ?ctx (resource_prefix g @ io_type) ''io'' payload = VerdictDeny"
    by (auto simp: table_evaluate_def evaluate_loop_spec)
  with Inr show ?thesis
    by (auto simp: gate_check_def check_routed_def Let_def split: option.splits)
qed

end
