(* ===== verification/Subscriber.thy ===== *)
theory Subscriber
  imports Permission
begin

text \<open>
  The consumer of I/O requests: the circuit breaker of a session (\<open>circuit_breaker.rs\<close>), the dispatcher
  over registered handlers (\<open>io_dispatcher.rs\<close> of the reactor) and the subscriber that checks, dispatches,
  retries and answers (\<open>io_subscriber.rs\<close>).  Handlers act on the world outside, a value of type \<open>'w\<close>; the
  clock, the state of the command channel and the ledger at the moment of a check are inputs of a step.
  The lemmas show when the breaker trips, that nothing is dispatched unless the gate allows it, and that
  every request is answered exactly once.
\<close>

section \<open>The circuit breaker\<close>

text \<open>An \<open>Instant\<close> and a \<open>Duration\<close> are nanoseconds; \<open>Instant::checked_sub\<close> is undefined below zero.\<close>

definition CIRCUIT_BREAKER_ATTR :: string where
  "CIRCUIT_BREAKER_ATTR = ''meta_security.circuit_breaker''"

record circuit_config =
  threshold :: "32 word"
  window :: nat

record circuit_state =
  cc_config :: circuit_config
  deny_times :: "nat list"
  tripped_until :: "nat option"

definition circuit_new :: "circuit_config \<Rightarrow> circuit_state" where
  "circuit_new config = \<lparr>cc_config = config, deny_times = [], tripped_until = None\<rparr>"

definition is_tripped :: "nat \<Rightarrow> circuit_state \<Rightarrow> bool \<times> circuit_state" where
  "is_tripped now c =
     (case tripped_until c of
        Some until \<Rightarrow> if now < until then (True, c) else (False, c\<lparr>tripped_until := None, deny_times := []\<rparr>)
      | None \<Rightarrow> (False, c))"

definition signal_value :: "u64 \<Rightarrow> u64 \<Rightarrow> u64 \<Rightarrow> json" where
  "signal_value thr window_secs n =
     object_from_pairs [(''family'', String ''off_allowlist_anchors''), (''threshold'', Integer thr),
       (''window_secs'', Integer window_secs), (''count'', Integer n)]"

definition as_secs :: "nat \<Rightarrow> nat" where
  "as_secs d = d div 1000000000"

definition record_deny :: "nat \<Rightarrow> circuit_state \<Rightarrow> json option \<times> circuit_state" where
  "record_deny now c =
     (let config = cc_config c in
      if threshold config = 0 then (None, c)
      else
        (let kept = (if window config \<le> now then dropWhile (\<lambda>t. t < now - window config) (deny_times c) else deny_times c);
             times = kept @ [now] in
         if (word_of_nat (length times) :: 32 word) < threshold config then (None, c\<lparr>deny_times := times\<rparr>)
         else (Some (signal_value (ucast (threshold config)) (word_of_nat (as_secs (window config))) (word_of_nat (length times))),
               c\<lparr>tripped_until := Some (now + window config), deny_times := []\<rparr>)))"

section \<open>The dispatcher\<close>

type_synonym 'w handler = "json \<Rightarrow> 'w \<Rightarrow> (string + json) \<times> 'w"

type_synonym 'w io_dispatcher = "(string \<times> 'w handler) list"

definition dispatcher_new :: "'w io_dispatcher" where
  "dispatcher_new = []"

definition register :: "string \<Rightarrow> 'w handler \<Rightarrow> 'w io_dispatcher \<Rightarrow> 'w io_dispatcher" where
  "register io_type h d = bt_put io_type h d"

definition dispatch :: "'w io_dispatcher \<Rightarrow> string \<Rightarrow> json \<Rightarrow> 'w \<Rightarrow> (string + json) \<times> 'w" where
  "dispatch d io_type params w =
     (case bt_get io_type d of
        Some h \<Rightarrow> h params w
      | None \<Rightarrow> (Inl (''no handler registered for IoType: '' @ io_type), w))"

definition dispatcher_contains :: "string \<Rightarrow> 'w io_dispatcher \<Rightarrow> bool" where
  "dispatcher_contains io_type d = bt_contains io_type d"

definition known_types :: "'w io_dispatcher \<Rightarrow> string list" where
  "known_types d = map fst d"

section \<open>The subscriber\<close>

definition ID_OFFSET :: u64 where "ID_OFFSET = 10000"
definition MAX_RETRIES :: nat where "MAX_RETRIES = 3"

text \<open>
  \<open>str::to_lowercase\<close>: only the ASCII letters are converted here.  The characters outside ASCII whose lower
  case has an ASCII letter are the Kelvin sign and the capital I with a dot, which gives an \<open>i\<close> before a
  combining mark; no searched text has a \<open>k\<close> or ends its \<open>i\<close> that way.
\<close>

definition lower_char :: "char \<Rightarrow> char" where
  "lower_char c = (let n = of_char c :: nat in if 65 \<le> n \<and> n \<le> 90 then char_of (n + 32) else c)"

definition is_retryable_error :: "string \<Rightarrow> bool" where
  "is_retryable_error err =
     (let lower = map lower_char err in
      if contains ''timeout'' lower \<or> contains ''timed out'' lower then True
      else if contains ''connection'' lower then True
      else if contains ''temporarily'' lower \<or> contains ''temporary'' lower then True
      else list_ex (\<lambda>code. contains code lower) [''500'', ''502'', ''503'', ''504''])"

datatype io_subscriber_error = ChannelClosed | CommandClosed string

fun io_subscriber_error_display :: "io_subscriber_error \<Rightarrow> string" where
  "io_subscriber_error_display ChannelClosed = ''Event channel closed''"
| "io_subscriber_error_display (CommandClosed e) = ''Command channel closed: '' @ e"

text \<open>\<open>io_errors\<close> stands for the calls of \<open>inc_io_errors\<close> on the metrics collector.\<close>

record 'w io_subscriber =
  dispatcher :: "'w io_dispatcher"
  sub_next_id :: u64
  io_errors :: "string list"
  skip :: "(string \<Rightarrow> json \<Rightarrow> bool) option"
  gate :: "permission_gate option"
  circuit :: "circuit_state option"

definition subscriber_new :: "'w io_dispatcher \<Rightarrow> 'w io_subscriber" where
  "subscriber_new d = \<lparr>dispatcher = d, sub_next_id = ID_OFFSET, io_errors = [], skip = None, gate = None, circuit = None\<rparr>"

definition with_permission_gate :: "permission_gate \<Rightarrow> 'w io_subscriber \<Rightarrow> 'w io_subscriber" where
  "with_permission_gate g u = u\<lparr>gate := Some g\<rparr>"

definition permission_gate_enabled :: "'w io_subscriber \<Rightarrow> bool" where
  "permission_gate_enabled u = (gate u \<noteq> None)"

definition with_circuit_breaker :: "circuit_state \<Rightarrow> 'w io_subscriber \<Rightarrow> 'w io_subscriber" where
  "with_circuit_breaker c u = u\<lparr>circuit := Some c\<rparr>"

definition with_skip :: "(string \<Rightarrow> json \<Rightarrow> bool) \<Rightarrow> 'w io_subscriber \<Rightarrow> 'w io_subscriber" where
  "with_skip p u = u\<lparr>skip := Some p\<rparr>"

definition next_fact_id :: "'w io_subscriber \<Rightarrow> fact_id \<times> 'w io_subscriber" where
  "next_fact_id u = (sub_next_id u, u\<lparr>sub_next_id := sub_next_id u + 1\<rparr>)"

text \<open>
  The environment of one request: two readings of the clock, whether the command channel takes the signal
  and whether it takes the response.  A step returns the facts that were sent, the new world and the result.
\<close>

record moment =
  now_check :: nat
  now_deny :: nat
  signal_sent :: bool
  response_sent :: bool

type_synonym 'w outcome = "fact list \<times> 'w \<times> (io_subscriber_error + unit) \<times> 'w io_subscriber"

definition send_response :: "moment \<Rightarrow> fact_id \<Rightarrow> json \<Rightarrow> string option \<Rightarrow> fact list \<Rightarrow> 'w \<Rightarrow> 'w io_subscriber \<Rightarrow> 'w outcome" where
  "send_response e request_id res err sent w u =
     (let (i, u') = next_fact_id u in
      if response_sent e then (sent @ [IoResponse i request_id res err], w, Inr (), u')
      else (sent, w, Inl (CommandClosed (''request_id='' @ fact_id_display request_id)), u'))"

definition count_error :: "string \<Rightarrow> 'w io_subscriber \<Rightarrow> 'w io_subscriber" where
  "count_error io_type u = u\<lparr>io_errors := io_errors u @ [io_type]\<rparr>"

definition signal_instruction :: "json \<Rightarrow> json" where
  "signal_instruction signal =
     object_from_pairs [(''type'', String ''set''),
       (''params'', object_from_pairs [(''attr'', String CIRCUIT_BREAKER_ATTR), (''operation'', String ''set''), (''value'', signal)])]"

text \<open>Counting a denial of the static layer: a trip sends the signal command.\<close>

definition count_denial :: "moment \<Rightarrow> string option \<Rightarrow> 'w io_subscriber \<Rightarrow> fact list \<times> 'w io_subscriber" where
  "count_denial e route u =
     (case (route, circuit u) of
        (Some _, Some c) \<Rightarrow>
          (case record_deny (now_deny e) c of
             (None, c') \<Rightarrow> ([], u\<lparr>circuit := Some c'\<rparr>)
           | (Some signal, c') \<Rightarrow>
               (let (i, u') = next_fact_id (u\<lparr>circuit := Some c'\<rparr>) in
                (if signal_sent e then [Command i (signal_instruction signal)] else [], u')))
      | _ \<Rightarrow> ([], u))"

definition deny_reason :: "verdict \<Rightarrow> string" where
  "deny_reason v = (if v = VerdictCandidate then ''pending permission approval (fail-closed)'' else ''denied by permission gate'')"

definition denied_error :: "string \<Rightarrow> verdict \<Rightarrow> string option \<Rightarrow> string" where
  "denied_error io_type v route =
     ''permission denied'' @ (case route of Some r \<Rightarrow> '' (route='' @ r @ '')'' | None \<Rightarrow> []) @ '': io_type='' @ io_type @ '' '' @
     deny_reason v @ '', resource='' @ ''io:'' @ io_type"

text \<open>The retry loop: result and number of attempts.\<close>

function dispatch_loop :: "'w io_dispatcher \<Rightarrow> string \<Rightarrow> json \<Rightarrow> nat \<Rightarrow> 'w \<Rightarrow> (string + json) \<times> 'w \<times> nat" where
  "dispatch_loop d io_type params attempt w =
     (case dispatch d io_type params w of
        (Inr res, w') \<Rightarrow> (Inr res, w', attempt + 1)
      | (Inl err, w') \<Rightarrow>
          if attempt + 1 \<le> MAX_RETRIES \<and> is_retryable_error err then dispatch_loop d io_type params (attempt + 1) w'
          else (Inl err, w', attempt + 1))"
  by pat_completeness auto

termination
  by (relation "measure (\<lambda>(d, io_type, params, attempt, w). MAX_RETRIES + 1 - attempt)") auto

declare dispatch_loop.simps [simp del]

definition dispatch_and_respond ::
  "(serde \<Rightarrow> string + permission_entry) \<Rightarrow> (serde \<Rightarrow> string + default_policy) \<Rightarrow> ('s, 'k) shared_log \<Rightarrow> moment \<Rightarrow>
   fact_id \<Rightarrow> fact_id \<Rightarrow> string \<Rightarrow> json \<Rightarrow> 'w \<Rightarrow> 'w io_subscriber \<Rightarrow> 'w outcome" where
  "dispatch_and_respond de_entry de_policy s e request_id cause io_type params w u =
     (let (tripped, u1) = (case circuit u of
            Some c \<Rightarrow> (let (b, c') = is_tripped (now_check e) c in (b, u\<lparr>circuit := Some c'\<rparr>))
          | None \<Rightarrow> (False, u)) in
      if tripped then
        send_response e request_id Null (Some (''circuit breaker tripped (circuit=tripped): io_type='' @ io_type @ '' '' @
          ''egress denied until window expiry'')) [] w (count_error io_type u1)
      else case gate u1 of
        None \<Rightarrow>
          send_response e request_id Null (Some (''permission gate not assembled (fail-closed): this subscriber '' @
            ''requires with_permission_gate(..) before it dispatches I/O'')) [] w (count_error io_type u1)
      | Some g \<Rightarrow>
          (let ((v, route), ctx) = check_routed de_entry de_policy g s (io_context_new cause 0 None) io_type (Some params) in
           if v \<noteq> VerdictAllow then
             (let (sent, u2) = count_denial e route u1 in
              send_response e request_id Null (Some (denied_error io_type v route)) sent w (count_error io_type u2))
           else
             (case dispatch_loop (dispatcher u1) io_type params 0 w of
                (Inr res, w', _) \<Rightarrow> send_response e request_id res None [] w' u1
              | (Inl err, w', _) \<Rightarrow>
                  (let (sent, w'', r, u2) = send_response e request_id Null (Some err) [] w' u1 in
                   (sent, w'', r, count_error io_type u2)))))"

definition handle_event ::
  "(serde \<Rightarrow> string + permission_entry) \<Rightarrow> (serde \<Rightarrow> string + default_policy) \<Rightarrow> ('s, 'k) shared_log \<Rightarrow> moment \<Rightarrow>
   fact \<Rightarrow> 'w \<Rightarrow> 'w io_subscriber \<Rightarrow> 'w outcome" where
  "handle_event de_entry de_policy s e f w u =
     (case f of
        IoRequest i cause io_type params \<Rightarrow>
          if (case skip u of Some p \<Rightarrow> p io_type params | None \<Rightarrow> False) then ([], w, Inr (), u)
          else dispatch_and_respond de_entry de_policy s e i cause io_type params w u
      | _ \<Rightarrow> ([], w, Inr (), u))"

text \<open>
  What the event channel delivers: a fact, with the ledger and the moment of its handling, a lag, or the
  end.  The loop ends with the channel or with the first response that could not be sent.
\<close>

datatype ('s, 'k) channel_event = Received "('s, 'k) shared_log" moment fact | Lagged nat | Closed

fun subscriber_run ::
  "(serde \<Rightarrow> string + permission_entry) \<Rightarrow> (serde \<Rightarrow> string + default_policy) \<Rightarrow> ('s, 'k) channel_event list \<Rightarrow>
   fact list \<Rightarrow> 'w \<Rightarrow> 'w io_subscriber \<Rightarrow> 'w outcome" where
  "subscriber_run de_entry de_policy [] sent w u = (sent, w, Inr (), u)"
| "subscriber_run de_entry de_policy (Closed # evs) sent w u = (sent, w, Inr (), u)"
| "subscriber_run de_entry de_policy (Lagged n # evs) sent w u = subscriber_run de_entry de_policy evs sent w u"
| "subscriber_run de_entry de_policy (Received s e f # evs) sent w u =
     (case handle_event de_entry de_policy s e f w u of
        (out, w', Inl err, u') \<Rightarrow> (sent @ out, w', Inl err, u')
      | (out, w', Inr _, u') \<Rightarrow> subscriber_run de_entry de_policy evs (sent @ out) w' u')"

section \<open>When the breaker trips\<close>

text \<open>Denials at the given times, none of which trips the breaker.\<close>

inductive quiet_denials :: "circuit_config \<Rightarrow> nat list \<Rightarrow> circuit_state \<Rightarrow> bool" for config where
  quiet_start: "quiet_denials config [] (circuit_new config)"
| quiet_step: "quiet_denials config ts c \<Longrightarrow> record_deny t c = (None, c') \<Longrightarrow> quiet_denials config (ts @ [t]) c'"

lemma dropWhile_old: "sorted ts \<Longrightarrow> dropWhile (\<lambda>t. t < n) ts = filter (\<lambda>t. n \<le> t) ts" for n :: nat
proof (induction ts)
  case (Cons t ts)
  then show ?case by (cases "t < n") (auto simp: not_less intro!: filter_True [symmetric])
qed simp

lemma kept_denials:
  fixes wnd :: nat
  assumes "sorted (ts @ [now])" and d: "d = (if ts = [] then [] else filter (\<lambda>x. last ts \<le> x + wnd) ts)"
  shows "(if wnd \<le> now then dropWhile (\<lambda>x. x < now - wnd) d else d) = filter (\<lambda>x. now \<le> x + wnd) ts"
proof (cases "ts = []")
  case False
  then have "last ts \<le> now" using assms(1) by (auto simp: sorted_append)
  have "sorted ts" using assms(1) by (simp add: sorted_append)
  then have "sorted d" using d sorted_filter [of "\<lambda>x. x" ts] by simp
  then show ?thesis
    using False \<open>last ts \<le> now\<close> by (auto simp: dropWhile_old d intro!: filter_cong)
qed (simp add: d)

lemma quiet_denials_state:
  "quiet_denials config ts c \<Longrightarrow> threshold config \<noteq> 0 \<Longrightarrow> sorted ts \<Longrightarrow>
   cc_config c = config \<and> tripped_until c = None \<and>
   deny_times c = (if ts = [] then [] else filter (\<lambda>t. last ts \<le> t + window config) ts)"
proof (induction rule: quiet_denials.induct)
  case quiet_start
  then show ?case by (simp add: circuit_new_def)
next
  case (quiet_step ts c now c')
  then have ih: "cc_config c = config" "tripped_until c = None"
    "deny_times c = (if ts = [] then [] else filter (\<lambda>t. last ts \<le> t + window config) ts)" by (auto simp: sorted_append)
  have "(if window config \<le> now then dropWhile (\<lambda>t. t < now - window config) (deny_times c) else deny_times c) =
      filter (\<lambda>t. now \<le> t + window config) ts"
    by (rule kept_denials [OF quiet_step.prems(2) ih(3)])
  then show ?case
    using quiet_step.hyps(2) ih(1,2) quiet_step.prems(1) by (auto simp: record_deny_def Let_def split: if_splits)
qed

text \<open>
  The breaker trips exactly when it should.  After denials at times that do not decrease and did not
  trip it, a further denial trips it exactly when the denials within the window, that one included, reach
  the threshold; it then refuses for exactly the length of the window and starts afresh afterwards.
\<close>

theorem circuit_trips_exactly:
  assumes "threshold config \<noteq> 0" "quiet_denials config ts c" "sorted (ts @ [now])" "length ts + 1 < 2 ^ 32"
  shows "(fst (record_deny now c) \<noteq> None \<longleftrightarrow> unat (threshold config) \<le> length (filter (\<lambda>t. now \<le> t + window config) (ts @ [now]))) \<and>
    (fst (record_deny now c) \<noteq> None \<longrightarrow>
      is_tripped t (snd (record_deny now c)) =
        (if t < now + window config then (True, snd (record_deny now c)) else (False, circuit_new config)))"
proof -
  have c: "cc_config c = config" "tripped_until c = None"
    "deny_times c = (if ts = [] then [] else filter (\<lambda>t. last ts \<le> t + window config) ts)"
    using quiet_denials_state [OF assms(2,1)] assms(3) by (auto simp: sorted_append)
  have kept: "(if window config \<le> now then dropWhile (\<lambda>t. t < now - window config) (deny_times c) else deny_times c) @ [now] =
      filter (\<lambda>t. now \<le> t + window config) (ts @ [now])"
    using kept_denials [OF assms(3) c(3)] by simp
  let ?n = "length (filter (\<lambda>t. now \<le> t + window config) (ts @ [now]))"
  have "?n < 2 ^ 32" using assms(4) le_less_trans [OF length_filter_le] by fastforce
  moreover have "(word_of_nat m :: 32 word) < x \<longleftrightarrow> m < unat x" if "m < 2 ^ 32" for m x
    using that by (simp add: word_less_nat_alt unat_of_nat take_bit_nat_eq_self)
  ultimately have "(word_of_nat ?n :: 32 word) < threshold config \<longleftrightarrow> ?n < unat (threshold config)" by blast
  then show ?thesis
    unfolding record_deny_def Let_def c(1) kept if_not_P [OF assms(1)]
    using c(1) by (cases "?n < unat (threshold config)") (simp_all add: is_tripped_def circuit_new_def)
qed

definition sample_config :: circuit_config where
  "sample_config = \<lparr>threshold = 2, window = 100\<rparr>"

theorem circuit_trips_exactly_witness:
  "fst (record_deny 60 (snd (record_deny 50 (circuit_new sample_config)))) \<noteq> None \<and>
   fst (record_deny 151 (snd (record_deny 50 (circuit_new sample_config)))) = None"
proof -
  have "record_deny 50 (circuit_new sample_config) = (None, (circuit_new sample_config)\<lparr>deny_times := [50]\<rparr>)"
    by (simp add: record_deny_def circuit_new_def sample_config_def Let_def)
  with quiet_step [OF quiet_start this]
  have q: "quiet_denials sample_config [50] (snd (record_deny 50 (circuit_new sample_config)))" by simp
  have "threshold sample_config \<noteq> 0" by (simp add: sample_config_def)
  from circuit_trips_exactly [OF this q, of 60] circuit_trips_exactly [OF this q, of 151] show ?thesis
    by (simp add: sample_config_def)
qed

section \<open>Requests and answers\<close>

lemma send_response_cases:
  assumes "send_response e i res err sent w u = (out, w', r, u')"
  shows "w' = w" "u' = u\<lparr>sub_next_id := sub_next_id u + 1\<rparr>"
    "response_sent e \<Longrightarrow> out = sent @ [IoResponse (sub_next_id u) i res err] \<and> r = Inr ()"
    "\<not> response_sent e \<Longrightarrow> out = sent \<and> r = Inl (CommandClosed (''request_id='' @ fact_id_display i))"
  using assms by (auto simp: send_response_def next_fact_id_def split: if_splits)

lemma count_denial_frame:
  assumes "count_denial e route u = (sent, u')"
  shows "skip u' = skip u" "gate u' = gate u" "dispatcher u' = dispatcher u" "list_all (\<lambda>f. \<exists>i j. f = Command i j) sent"
  using assms
  by (auto simp: count_denial_def next_fact_id_def split: option.splits prod.splits)

text \<open>The requests a subscriber answers for, and the requests that answers name.\<close>

fun answer_to :: "fact \<Rightarrow> fact_id option" where
  "answer_to (IoResponse _ request_id _ _) = Some request_id"
| "answer_to _ = None"

definition answered :: "fact list \<Rightarrow> fact_id list" where
  "answered fs = List.map_filter answer_to fs"

lemma answered_simps [simp]: "answered [] = []" "answered (xs @ ys) = answered xs @ answered ys"
  "answered (IoResponse i j res err # xs) = j # answered xs"
  by (simp_all add: answered_def List.map_filter_def)

lemma answered_commands: "list_all (\<lambda>f. \<exists>i j. f = Command i j) fs \<Longrightarrow> answered fs = []"
  by (induction fs) (auto simp: answered_def List.map_filter_def)

definition wanted :: "(string \<Rightarrow> json \<Rightarrow> bool) option \<Rightarrow> fact \<Rightarrow> fact_id list" where
  "wanted sk f =
     (case f of
        IoRequest i _ io_type params \<Rightarrow> if (case sk of Some p \<Rightarrow> p io_type params | None \<Rightarrow> False) then [] else [i]
      | _ \<Rightarrow> [])"

fun requests :: "(string \<Rightarrow> json \<Rightarrow> bool) option \<Rightarrow> ('s, 'k) channel_event list \<Rightarrow> fact_id list" where
  "requests sk [] = []"
| "requests sk (Closed # evs) = []"
| "requests sk (Lagged n # evs) = requests sk evs"
| "requests sk (Received s e f # evs) = wanted sk f @ requests sk evs"

definition circuit_check :: "moment \<Rightarrow> 'w io_subscriber \<Rightarrow> bool \<times> 'w io_subscriber" where
  "circuit_check e u =
     (case circuit u of
        Some c \<Rightarrow> (let (b, c') = is_tripped (now_check e) c in (b, u\<lparr>circuit := Some c'\<rparr>))
      | None \<Rightarrow> (False, u))"

lemma circuit_check_frame:
  "circuit_check e u = (b, u1) \<Longrightarrow> skip u1 = skip u \<and> gate u1 = gate u \<and> dispatcher u1 = dispatcher u \<and> sub_next_id u1 = sub_next_id u"
  by (auto simp: circuit_check_def Let_def split: option.splits prod.splits)

lemma count_error_frame [simp]:
  "skip (count_error t u) = skip u" "gate (count_error t u) = gate u" "dispatcher (count_error t u) = dispatcher u"
  "sub_next_id (count_error t u) = sub_next_id u" "circuit (count_error t u) = circuit u"
  by (simp_all add: count_error_def)

text \<open>The four ways a request is handled: refused by the breaker, for want of a gate, by the gate, or dispatched.\<close>

lemma dispatch_and_respond_cases:
  assumes "dispatch_and_respond de_entry de_policy s e i cause io_type params w u = (out, w', r, u')"
  obtains (refused) sent res err u2 where "send_response e i res err sent w u2 = (out, w', r, u')" "answered sent = []"
      "skip u2 = skip u" "gate u2 = gate u" "dispatcher u2 = dispatcher u" "res = Null" "err \<noteq> None"
  | (dispatched) g rs n u1 u3 where "gate u = Some g" "fst (circuit_check e u) = False"
      "gate_check de_entry de_policy g s (io_context_new cause 0 None) io_type (Some params) = VerdictAllow"
      "skip u1 = skip u" "gate u1 = gate u" "dispatcher u1 = dispatcher u"
      "dispatch_loop (dispatcher u) io_type params 0 w = (rs, w', n)"
      "send_response e i (case rs of Inr v \<Rightarrow> v | Inl _ \<Rightarrow> Null) (case rs of Inr _ \<Rightarrow> None | Inl m \<Rightarrow> Some m) [] w' u1 = (out, w', r, u3)"
      "u' = (case rs of Inr _ \<Rightarrow> u3 | Inl _ \<Rightarrow> count_error io_type u3)"
proof -
  obtain tripped u1 where c: "circuit_check e u = (tripped, u1)" by fastforce
  note f = circuit_check_frame [OF c]
  note d = assms [unfolded dispatch_and_respond_def, folded circuit_check_def, unfolded c]
  show thesis
  proof (cases "tripped \<or> gate u = None")
    case True
    then obtain err where "send_response e i Null (Some err) [] w (count_error io_type u1) = (out, w', r, u')"
      using d f by (cases tripped) auto
    then show thesis by (rule refused) (use f in simp_all)
  next
    case False
    then obtain g where g: "gate u = Some g" "\<not> tripped" by blast
    obtain v route ctx where k: "check_routed de_entry de_policy g s (io_context_new cause 0 None) io_type (Some params) = ((v, route), ctx)"
      by (metis prod.collapse)
    show thesis
    proof (cases "v = VerdictAllow")
      case False
      obtain sent u2 where n: "count_denial e route u1 = (sent, u2)" by fastforce
      note fd = count_denial_frame [OF n]
      from d g f k False n have "send_response e i Null (Some (denied_error io_type v route)) sent w (count_error io_type u2) = (out, w', r, u')"
        by simp
      then show thesis by (rule refused) (use fd f answered_commands [OF fd(4)] in simp_all)
    next
      case True
      obtain rs w2 n where l: "dispatch_loop (dispatcher u) io_type params 0 w = (rs, w2, n)" by (metis prod.collapse)
      obtain out2 w3 r3 u3 where sr: "send_response e i (case rs of Inr v \<Rightarrow> v | Inl _ \<Rightarrow> Null) (case rs of Inr _ \<Rightarrow> None | Inl m \<Rightarrow> Some m) [] w2 u1 =
          (out2, w3, r3, u3)" by (metis prod.collapse)
      have "w3 = w2" using send_response_cases(1) [OF sr] .
      with d g f k True l sr have "out = out2" "w' = w2" "r = r3" "u' = (case rs of Inr _ \<Rightarrow> u3 | Inl _ \<Rightarrow> count_error io_type u3)"
        by (auto split: sum.splits)
      with sr \<open>w3 = w2\<close> l show thesis using g f k True c
        by (intro dispatched [of g u1 rs n u3]) (auto simp: gate_check_def)
    qed
  qed
qed

lemma dispatch_frame:
  assumes "dispatch_and_respond de_entry de_policy s e i cause io_type params w u = (out, w', r, u')"
  shows "skip u' = skip u \<and> gate u' = gate u \<and> dispatcher u' = dispatcher u" (is ?frame)
    and "(if response_sent e then answered out = [i] \<and> r = Inr ()
      else answered out = [] \<and> r = Inl (CommandClosed (''request_id='' @ fact_id_display i)))" (is ?answer)
proof -
  have "?frame \<and> ?answer"
    using assms
  proof (cases rule: dispatch_and_respond_cases)
    case (refused sent res err u2)
    from send_response_cases [OF refused(1)] refused(2-) show ?thesis by (cases "response_sent e") auto
  next
    case (dispatched g rs n u1 u3)
    from send_response_cases [OF dispatched(8)] dispatched(1-7,9) show ?thesis by (cases "response_sent e") (auto split: sum.splits)
  qed
  then show ?frame ?answer by blast+
qed

lemma handle_event_cases:
  assumes "handle_event de_entry de_policy s e f w u = (out, w', r, u')"
  obtains (idle) "out = []" "w' = w" "r = Inr ()" "u' = u" "wanted (skip u) f = []"
  | (handled) i cause io_type params where "f = IoRequest i cause io_type params" "wanted (skip u) f = [i]"
      "dispatch_and_respond de_entry de_policy s e i cause io_type params w u = (out, w', r, u')"
  using assms by (cases f) (auto simp: handle_event_def wanted_def split: if_splits)

lemma handle_event_frame:
  assumes "handle_event de_entry de_policy s e f w u = (out, w', r, u')"
  shows "skip u' = skip u \<and> gate u' = gate u \<and> dispatcher u' = dispatcher u"
    "r = Inr () \<Longrightarrow> answered out = wanted (skip u) f"
    "r = Inl err \<Longrightarrow> \<exists>i. wanted (skip u) f = [i] \<and> answered out = [] \<and> err = CommandClosed (''request_id='' @ fact_id_display i)"
proof -
  have "(skip u' = skip u \<and> gate u' = gate u \<and> dispatcher u' = dispatcher u) \<and>
    (r = Inr () \<longrightarrow> answered out = wanted (skip u) f) \<and>
    (r = Inl err \<longrightarrow> (\<exists>i. wanted (skip u) f = [i] \<and> answered out = [] \<and> err = CommandClosed (''request_id='' @ fact_id_display i)))"
    using assms
  proof (cases rule: handle_event_cases)
    case (handled i cause io_type params)
    from dispatch_frame [OF handled(3)] handled(2) show ?thesis by (cases "response_sent e") auto
  qed simp
  then show "skip u' = skip u \<and> gate u' = gate u \<and> dispatcher u' = dispatcher u"
    "r = Inr () \<Longrightarrow> answered out = wanted (skip u) f"
    "r = Inl err \<Longrightarrow> \<exists>i. wanted (skip u) f = [i] \<and> answered out = [] \<and> err = CommandClosed (''request_id='' @ fact_id_display i)"
    by blast+
qed

lemma subscriber_run_Received:
  assumes "subscriber_run de_entry de_policy (Received s e f # evs) sent0 w u = (sent, w', r, u')"
  obtains (failed) out err where "handle_event de_entry de_policy s e f w u = (out, w', Inl err, u')" "r = Inl err" "sent = sent0 @ out"
  | (next_event) out w1 u1 where "handle_event de_entry de_policy s e f w u = (out, w1, Inr (), u1)"
      "subscriber_run de_entry de_policy evs (sent0 @ out) w1 u1 = (sent, w', r, u')"
proof -
  obtain out w1 r1 u1 where h: "handle_event de_entry de_policy s e f w u = (out, w1, r1, u1)" by (metis prod.collapse)
  show thesis
  proof (cases r1)
    case (Inl err)
    with assms h have "sent = sent0 @ out" "w1 = w'" "r = Inl err" "u1 = u'" by simp_all
    with h Inl show thesis by (intro failed [of out err]) simp_all
  next
    case (Inr x)
    with assms h have "subscriber_run de_entry de_policy evs (sent0 @ out) w1 u1 = (sent, w', r, u')" by simp
    with h Inr show thesis by (intro next_event [of out w1 u1]) simp_all
  qed
qed

text \<open>
  C39: every request is answered exactly once.  A run that ends in order has sent one response for each
  request that is not left to an external executor, in the order of the requests, whatever the breaker,
  the gate and the handlers do; a run that fails has answered all requests before the one whose response
  the command channel did not take, and the error names that request.
\<close>

theorem subscriber_answers_once:
  assumes "subscriber_run de_entry de_policy evs [] w u = (sent, w', r, u')"
  shows "case r of
      Inr _ \<Rightarrow> answered sent = requests (skip u) evs
    | Inl err \<Rightarrow> \<exists>i rest. requests (skip u) evs = answered sent @ i # rest \<and>
        err = CommandClosed (''request_id='' @ fact_id_display i)"
proof -
  have "case r of
      Inr _ \<Rightarrow> answered sent = answered sent0 @ requests (skip u) evs
    | Inl err \<Rightarrow> \<exists>i rest. answered sent0 @ requests (skip u) evs = answered sent @ i # rest \<and>
        err = CommandClosed (''request_id='' @ fact_id_display i)"
    if "subscriber_run de_entry de_policy evs sent0 w u = (sent, w', r, u')" for sent0
    using that
  proof (induction evs arbitrary: sent0 w u)
    case (Cons ev evs)
    show ?case
    proof (cases ev)
      case (Received s e f)
      with Cons.prems have "subscriber_run de_entry de_policy (Received s e f # evs) sent0 w u = (sent, w', r, u')" by simp
      then show ?thesis
      proof (cases rule: subscriber_run_Received)
        case (failed out err)
        from handle_event_frame(3) [OF failed(1) refl] obtain i where
          "wanted (skip u) f = [i]" "answered out = []" "err = CommandClosed (''request_id='' @ fact_id_display i)"
          by blast
        then show ?thesis using Received failed(2,3) by simp
      next
        case (next_event out w1 u1)
        note fr = handle_event_frame(1,2) [OF next_event(1)]
        from Cons.IH [OF next_event(2)] fr show ?thesis using Received by (simp split: sum.splits)
      qed
    next
      case (Lagged n)
      then show ?thesis using Cons.IH [of sent0 w u] Cons.prems by (cases r) simp_all
    next
      case Closed
      then show ?thesis using Cons.prems by (cases r) simp_all
    qed
  qed (cases r; simp)
  from this [OF assms] show ?thesis by (cases r) simp_all
qed

definition sample_moment :: moment where
  "sample_moment = \<lparr>now_check = 0, now_deny = 0, signal_sent = True, response_sent = True\<rparr>"

text \<open>A handler that counts its executions, and a ledger whose default policy allows everything.\<close>

definition sample_subscriber :: "nat io_subscriber" where
  "sample_subscriber = with_permission_gate gate_new (subscriber_new (register ''echo'' (\<lambda>params n. (Inr params, n + 1)) dispatcher_new))"

definition open_ledger :: "(unit, byte list) shared_log" where
  "open_ledger = snd (append_inner sample_ed (\<lambda>_ _ _ _ _ st. Inr st) sample_blake3 (\<lambda>_. []) (\<lambda>_. []) True True
     DEFAULT_POLICY_PATH Null 7 None shared_new)"

definition open_policy :: default_policy where
  "open_policy = \<lparr>human_effect = Allow, llm_effect = Allow, unknown_effect = Allow\<rparr>"

abbreviation "sample_run \<equiv> subscriber_run sample_de_entry (\<lambda>_. Inr open_policy)
  [Received open_ledger sample_moment (IoRequest 5 1 ''echo'' Null)] [] 0 sample_subscriber"

lemma sample_run_result: "fst sample_run = [IoResponse 10000 5 Null None]" "fst (snd sample_run) = 1" "fst (snd (snd sample_run)) = Inr ()"
  by code_simp+

theorem subscriber_answers_once_witness: "answered (fst sample_run) = [5]"
proof -
  obtain sent w' r u' where run: "sample_run = (sent, w', r, u')" by (metis prod.collapse)
  with sample_run_result have "sent = [IoResponse 10000 5 Null None]" "r = Inr ()" by simp_all
  with subscriber_answers_once [OF run] run show ?thesis
    by (simp add: wanted_def sample_subscriber_def with_permission_gate_def subscriber_new_def)
qed

text \<open>The world after a number of executions, all but the last of which failed transiently.\<close>

fun attempts :: "'w io_dispatcher \<Rightarrow> string \<Rightarrow> json \<Rightarrow> nat \<Rightarrow> 'w \<Rightarrow> 'w \<Rightarrow> bool" where
  "attempts d io_type params 0 w w' \<longleftrightarrow> w' = w"
| "attempts d io_type params (Suc n) w w' \<longleftrightarrow>
     attempts d io_type params n (snd (dispatch d io_type params w)) w' \<and>
     (n = 0 \<or> (\<exists>err. fst (dispatch d io_type params w) = Inl err \<and> is_retryable_error err))"

lemma dispatch_loop_attempts:
  "dispatch_loop d io_type params k w = (res, w', m) \<Longrightarrow> k \<le> MAX_RETRIES \<Longrightarrow>
   \<exists>n. 0 < n \<and> m = k + n \<and> m \<le> MAX_RETRIES + 1 \<and> attempts d io_type params n w w'"
proof (induction d io_type params k w rule: dispatch_loop.induct)
  case (1 d io_type params k w)
  obtain r1 w1 where d1: "dispatch d io_type params w = (r1, w1)" by fastforce
  show ?case
  proof (cases "\<exists>err. r1 = Inl err \<and> k + 1 \<le> MAX_RETRIES \<and> is_retryable_error err")
    case True
    then obtain err where err: "r1 = Inl err" "k + 1 \<le> MAX_RETRIES" "is_retryable_error err" by blast
    with "1.prems"(1) d1 have "dispatch_loop d io_type params (k + 1) w1 = (res, w', m)" by (simp add: dispatch_loop.simps [of _ _ _ k])
    with "1.IH" [OF d1 [symmetric] err(1)] err obtain n where
      "0 < n" "m = k + 1 + n" "m \<le> MAX_RETRIES + 1" "attempts d io_type params n w1 w'" by auto
    then show ?thesis using d1 err by (intro exI [of _ "Suc n"]) auto
  next
    case False
    with "1.prems" d1 have "w' = w1" "m = k + 1" by (auto simp: dispatch_loop.simps [of _ _ _ k] split: sum.splits if_splits)
    then show ?thesis using d1 "1.prems"(2) by (intro exI [of _ 1]) auto
  qed
qed

lemma handle_event_world:
  assumes "handle_event de_entry de_policy s e f w u = (out, w', r, u')" "w' \<noteq> w"
  shows "\<exists>i cause io_type params g n. f = IoRequest i cause io_type params \<and> gate u = Some g \<and> fst (circuit_check e u) = False \<and>
    gate_check de_entry de_policy g s (io_context_new cause 0 None) io_type (Some params) = VerdictAllow \<and>
    n \<le> MAX_RETRIES + 1 \<and> attempts (dispatcher u) io_type params n w w'"
  using assms(1)
proof (cases rule: handle_event_cases)
  case idle
  then show ?thesis using assms(2) by simp
next
  case (handled i cause io_type params)
  from handled(3) show ?thesis
  proof (cases rule: dispatch_and_respond_cases)
    case (refused sent res err u2)
    then show ?thesis using send_response_cases(1) [OF refused(1)] assms(2) by simp
  next
    case (dispatched g rs n u1 u3)
    from dispatch_loop_attempts [OF dispatched(7)] obtain k where "0 < k" "k \<le> MAX_RETRIES + 1"
      "attempts (dispatcher u) io_type params k w w'" by auto
    with handled(1) dispatched(1-3) show ?thesis by blast
  qed
qed



end
