(* ===== verification/McuWal.thy ===== *)
theory McuWal
  imports Auditor
begin

text \<open>
  The write-ahead log of the microcontroller kernel: \<open>evorule-mcu/src/error.rs\<close>, \<open>wal.rs\<close> (record, line,
  the RAM backend) and \<open>wal_flash.rs\<close> (flash medium, page scan, recovery and the flash backend).

  The two traits of the sources are records of operations, \<open>flash_ops\<close> for \<open>FlashMedium\<close> and
  \<open>store_ops\<close> for \<open>McuWalStore\<close>; their contracts are the locales \<open>flash_medium\<close> and \<open>mcu_store\<close>,
  interpreted on the RAM medium, the RAM backend and the flash backend.  Offsets and lengths are natural
  numbers: they are bounded by the size of a medium that lies in memory.
\<close>

section \<open>Errors\<close>

datatype mcu_error =
    PackError string
  | SerdeError string
  | HashFailed string
  | RecordIndex nat nat
  | IoPaused u64 string
  | MVersionOverflow
  | FactIdOverflow
  | WalFull
  | FlashProgramViolated nat
  | FlashRange nat
  | WalCorrupted string
  | WalRecordTooLarge nat nat

fun mcu_error_display :: "mcu_error \<Rightarrow> string" where
  "mcu_error_display (PackError msg) = ''rule pack error: '' @ msg"
| "mcu_error_display (SerdeError msg) = ''serialize error: '' @ msg"
| "mcu_error_display (HashFailed msg) = ''hash error: '' @ msg"
| "mcu_error_display (RecordIndex i n) = ''WAL record index '' @ dec_nat i @ '' out of range (len '' @ dec_nat n @ '')''"
| "mcu_error_display (IoPaused i ty) = ''io paused: IoRequest '' @ dec_nat (unat i) @ '' (io_type='' @ ty @
     '') is on the audit chain; perform the I/O (IoBridge) and call resume_io to continue''"
| "mcu_error_display MVersionOverflow = ''state version overflow''"
| "mcu_error_display FactIdOverflow = ''fact id overflow''"
| "mcu_error_display WalFull = ''flash WAL ring full; audit chain never silently drops records, '' @
     ''export or erase via the operations path first''"
| "mcu_error_display (FlashProgramViolated off) = ''flash program violated 1->0 rule at offset '' @ dec_nat off"
| "mcu_error_display (FlashRange off) = ''flash offset '' @ dec_nat off @ '' out of range''"
| "mcu_error_display (WalCorrupted msg) = ''wal medium corrupted: '' @ msg"
| "mcu_error_display (WalRecordTooLarge n ps) = ''wal line '' @ dec_nat n @ '' bytes exceeds page size '' @ dec_nat ps"

section \<open>Records, lines and the RAM backend\<close>

record mcu_wal_record =
  mr_version_before :: u64
  mr_fact :: fact
  mr_content_hash :: string
  mr_prev_hash :: string
  mr_chain_hash :: string

definition wal_line_json :: "(serde \<Rightarrow> string) \<Rightarrow> u64 \<Rightarrow> fact \<Rightarrow> string \<Rightarrow> string \<Rightarrow> string \<Rightarrow> string" where
  "wal_line_json ser vb f ch ph kh = ser (serde_map
     [(''version_before'', num vb), (''fact'', fact_to_stable_json f), (''content_hash'', SString ch),
      (''prev_hash'', SString ph), (''chain_hash'', SString kh)])"

definition mcu_line :: "(serde \<Rightarrow> string) \<Rightarrow> mcu_wal_record \<Rightarrow> string" where
  "mcu_line ser r =
     wal_line_json ser (mr_version_before r) (mr_fact r) (mr_content_hash r) (mr_prev_hash r) (mr_chain_hash r)"

text \<open>The interface \<open>McuWalStore\<close>.\<close>

record 's store_ops =
  op_append :: "u64 \<Rightarrow> fact \<Rightarrow> string \<Rightarrow> string \<Rightarrow> string \<Rightarrow> 's \<Rightarrow> (mcu_error + unit) \<times> 's"
  op_tail :: "'s \<Rightarrow> string"
  op_len :: "'s \<Rightarrow> nat"
  op_line :: "nat \<Rightarrow> 's \<Rightarrow> mcu_error + string"

definition op_is_empty :: "'s store_ops \<Rightarrow> 's \<Rightarrow> bool" where
  "op_is_empty ops s \<longleftrightarrow> op_len ops s = 0"

record ram_wal_store =
  ram_records :: "mcu_wal_record list"

definition ram_wal_new :: ram_wal_store where
  "ram_wal_new = \<lparr>ram_records = []\<rparr>"

definition ram_append_record :: "u64 \<Rightarrow> fact \<Rightarrow> string \<Rightarrow> string \<Rightarrow> string \<Rightarrow> ram_wal_store \<Rightarrow> (mcu_error + unit) \<times> ram_wal_store" where
  "ram_append_record vb f ch ph kh s =
     (Inr (), s\<lparr>ram_records := ram_records s @
        [\<lparr>mr_version_before = vb, mr_fact = f, mr_content_hash = ch, mr_prev_hash = ph, mr_chain_hash = kh\<rparr>]\<rparr>)"

definition ram_chain_tail_hash :: "ram_wal_store \<Rightarrow> string" where
  "ram_chain_tail_hash s = (if ram_records s = [] then ''genesis'' else mr_chain_hash (last (ram_records s)))"

definition ram_len :: "ram_wal_store \<Rightarrow> nat" where
  "ram_len s = length (ram_records s)"

definition ram_line_json :: "(serde \<Rightarrow> string) \<Rightarrow> nat \<Rightarrow> ram_wal_store \<Rightarrow> mcu_error + string" where
  "ram_line_json ser i s =
     (if i < length (ram_records s) then Inr (mcu_line ser (ram_records s ! i))
      else Inl (RecordIndex i (length (ram_records s))))"

definition ram_store :: "(serde \<Rightarrow> string) \<Rightarrow> ram_wal_store store_ops" where
  "ram_store ser = \<lparr>op_append = ram_append_record, op_tail = ram_chain_tail_hash, op_len = ram_len, op_line = ram_line_json ser\<rparr>"

section \<open>Flash medium\<close>

text \<open>The interface \<open>FlashMedium\<close>: an operation that fails leaves the medium as it was.\<close>

record 'm flash_ops =
  fm_page_size :: "'m \<Rightarrow> nat"
  fm_page_count :: "'m \<Rightarrow> nat"
  fm_read :: "nat \<Rightarrow> nat \<Rightarrow> 'm \<Rightarrow> mcu_error + byte list"
  fm_program :: "nat \<Rightarrow> byte list \<Rightarrow> 'm \<Rightarrow> mcu_error + 'm"
  fm_erase_page :: "nat \<Rightarrow> 'm \<Rightarrow> mcu_error + 'm"

record ram_flash =
  rf_data :: "byte list"
  rf_page_size :: nat

text \<open>A page size of zero fails the assertion of the constructor.\<close>

definition ram_flash_new :: "nat \<Rightarrow> nat \<Rightarrow> ram_flash option" where
  "ram_flash_new ps pc =
     (if ps = 0 then None else Some \<lparr>rf_data = replicate (min (ps * pc) (2 ^ 64 - 1)) 255, rf_page_size = ps\<rparr>)"

definition ram_page_count :: "ram_flash \<Rightarrow> nat" where
  "ram_page_count m = length (rf_data m) div rf_page_size m"

definition ram_read :: "nat \<Rightarrow> nat \<Rightarrow> ram_flash \<Rightarrow> mcu_error + byte list" where
  "ram_read offset n m =
     (if offset + n > length (rf_data m) then Inl (FlashRange offset) else Inr (take n (drop offset (rf_data m))))"

text \<open>All bytes are checked before the first one is written: programming can only clear bits.\<close>

definition program_allowed :: "byte \<Rightarrow> byte \<Rightarrow> bool" where
  "program_allowed old b \<longleftrightarrow> and old b = b"

fun first_violation :: "nat \<Rightarrow> byte list \<Rightarrow> byte list \<Rightarrow> nat option" where
  "first_violation i (old # olds) (b # bs) = (if program_allowed old b then first_violation (i + 1) olds bs else Some i)"
| "first_violation i _ _ = None"

definition ram_program :: "nat \<Rightarrow> byte list \<Rightarrow> ram_flash \<Rightarrow> mcu_error + ram_flash" where
  "ram_program offset bytes m =
     (let n = length bytes in
      if offset + n > length (rf_data m) then Inl (FlashRange offset)
      else case first_violation offset (drop offset (rf_data m)) bytes of
        Some i \<Rightarrow> Inl (FlashProgramViolated i)
      | None \<Rightarrow> Inr (m\<lparr>rf_data := take offset (rf_data m) @ map2 and (take n (drop offset (rf_data m))) bytes @
                                 drop (offset + n) (rf_data m)\<rparr>))"

text \<open>
  The product of page and page size is checked against the width of \<open>usize\<close>; the sum with the page size
  is not, but the backend erases pages below the page count only.
\<close>

definition ram_erase_page :: "nat \<Rightarrow> ram_flash \<Rightarrow> mcu_error + ram_flash" where
  "ram_erase_page page m =
     (let start = page * rf_page_size m; stop = start + rf_page_size m in
      if start \<ge> 2 ^ 64 then Inl (FlashRange page)
      else if stop > length (rf_data m) then Inl (FlashRange start)
      else Inr (m\<lparr>rf_data := take start (rf_data m) @ replicate (rf_page_size m) 255 @ drop stop (rf_data m)\<rparr>))"

definition ram_flash_ops :: "ram_flash flash_ops" where
  "ram_flash_ops = \<lparr>fm_page_size = rf_page_size, fm_page_count = ram_page_count, fm_read = ram_read,
     fm_program = ram_program, fm_erase_page = ram_erase_page\<rparr>"

section \<open>Scanning a page\<close>

text \<open>A \<open>String\<close> and the bytes it is made of; \<open>from_utf8\<close> accepts the well-formed sequences.\<close>

definition bytes_of :: "string \<Rightarrow> byte list" where
  "bytes_of s = map of_char s"

definition str_of :: "byte list \<Rightarrow> string" where
  "str_of bs = map (\<lambda>b. char_of (unat b)) bs"

definition continues :: "byte \<Rightarrow> bool" where
  "continues b \<longleftrightarrow> 0x80 \<le> b \<and> b \<le> 0xBF"

text \<open>The bytes a second byte may have, given the first one.\<close>

definition second_ok :: "byte \<Rightarrow> byte \<Rightarrow> bool" where
  "second_ok b c \<longleftrightarrow>
     (if b = 0xE0 then 0xA0 \<le> c \<and> c \<le> 0xBF
      else if b = 0xED then 0x80 \<le> c \<and> c \<le> 0x9F
      else if b = 0xF0 then 0x90 \<le> c \<and> c \<le> 0xBF
      else if b = 0xF4 then 0x80 \<le> c \<and> c \<le> 0x8F
      else continues c)"

fun utf8_valid :: "byte list \<Rightarrow> bool" where
  "utf8_valid [] = True"
| "utf8_valid (b # bs) =
     (if b < 0x80 then utf8_valid bs
      else if 0xC2 \<le> b \<and> b \<le> 0xDF then (case bs of c # r \<Rightarrow> continues c \<and> utf8_valid r | _ \<Rightarrow> False)
      else if 0xE0 \<le> b \<and> b \<le> 0xEF then
        (case bs of c # d # r \<Rightarrow> second_ok b c \<and> continues d \<and> utf8_valid r | _ \<Rightarrow> False)
      else if 0xF0 \<le> b \<and> b \<le> 0xF4 then
        (case bs of c # d # e # r \<Rightarrow> second_ok b c \<and> continues d \<and> continues e \<and> utf8_valid r | _ \<Rightarrow> False)
      else False)"

abbreviation newline :: byte where
  "newline \<equiv> 10"

record page_scan =
  ps_rows :: "(nat \<times> nat) list"
  ps_polluted :: bool
  ps_first_free :: "nat option"

text \<open>The loop of the scan: the rows, where the last row starts, and the first free byte.\<close>

fun scan_rows :: "nat \<Rightarrow> nat \<Rightarrow> byte list \<Rightarrow> (nat \<times> nat) list \<times> nat \<times> nat option" where
  "scan_rows i row_start [] = ([], row_start, None)"
| "scan_rows i row_start (b # bs) =
     (if b = 255 then ([], row_start, Some i)
      else if b = newline then
        (case scan_rows (i + 1) (i + 1) bs of (rows, rest) \<Rightarrow> ((row_start, i) # rows, rest))
      else scan_rows (i + 1) row_start bs)"

definition scan_page :: "byte list \<Rightarrow> nat \<Rightarrow> mcu_error + page_scan" where
  "scan_page data page =
     (case scan_rows 0 0 data of (rows, row_start, first_free) \<Rightarrow>
        (case first_free of
           None \<Rightarrow> Inr \<lparr>ps_rows = rows, ps_polluted = False, ps_first_free = None\<rparr>
         | Some free \<Rightarrow>
             if \<exists>b \<in> set (drop free data). b \<noteq> 255
             then Inl (WalCorrupted (''page '' @ dec_nat page @ '': non-0xFF byte after free space boundary''))
             else Inr \<lparr>ps_rows = rows, ps_polluted = row_start < free, ps_first_free = Some free\<rparr>))"

section \<open>The flash backend\<close>

record 'm flash_wal =
  fl_medium :: 'm
  fl_lines :: "string list"
  fl_offsets :: "nat list"
  fl_tail_hash :: string
  fl_active_page :: nat
  fl_write_offset :: nat
  fl_polluted :: bool
  fl_page_size :: nat

definition line_chain_hash :: "(string \<Rightarrow> string + serde) \<Rightarrow> string \<Rightarrow> nat \<Rightarrow> mcu_error + string" where
  "line_chain_hash de line page =
     (case de line of
        Inl e \<Rightarrow> Inl (WalCorrupted (''page '' @ dec_nat page @ '': line is not valid JSON: '' @ e))
      | Inr v \<Rightarrow>
          (case (case s_get ''chain_hash'' v of None \<Rightarrow> None | Some h \<Rightarrow> s_as_str h) of
             None \<Rightarrow> Inl (WalCorrupted (''page '' @ dec_nat page @ '': line missing chain_hash field''))
           | Some h \<Rightarrow> Inr h))"

text \<open>The rows of a page are taken into the store in order.\<close>

fun open_rows ::
  "(string \<Rightarrow> string + serde) \<Rightarrow> nat \<Rightarrow> nat \<Rightarrow> byte list \<Rightarrow> (nat \<times> nat) list \<Rightarrow> 'm flash_wal \<Rightarrow> mcu_error + 'm flash_wal" where
  "open_rows de page base buf [] st = Inr st"
| "open_rows de page base buf ((start, stop) # rows) st =
     (let bs = take (stop - start) (drop start buf); line = str_of bs in
      if \<not> utf8_valid bs then Inl (WalCorrupted (''page '' @ dec_nat page @ '': line is not valid UTF-8''))
      else and_then (line_chain_hash de line page) (\<lambda>h.
        open_rows de page base buf rows
          (st\<lparr>fl_tail_hash := h, fl_offsets := fl_offsets st @ [base + start], fl_lines := fl_lines st @ [line]\<rparr>)))"

text \<open>One page of the recovery; the flag says whether an empty page was seen.\<close>

definition open_page ::
  "'m flash_ops \<Rightarrow> (string \<Rightarrow> string + serde) \<Rightarrow> nat \<Rightarrow> bool \<times> 'm flash_wal \<Rightarrow> mcu_error + (bool \<times> 'm flash_wal)" where
  "open_page ops de page = (\<lambda>(saw_empty, st).
     (let ps = fl_page_size st; base = page * ps in
      and_then (fm_read ops base ps (fl_medium st)) (\<lambda>buf.
      if list_all (\<lambda>b. b = 255) buf then Inr (True, st)
      else if saw_empty
      then Inl (WalCorrupted (''page '' @ dec_nat page @ '': data page after empty page (ring hole)''))
      else
        and_then (scan_page buf page) (\<lambda>scan.
        and_then (open_rows de page base buf (ps_rows scan) st) (\<lambda>st'.
        Inr (saw_empty, st'\<lparr>fl_active_page := page, fl_write_offset := unwrap_or ps (ps_first_free scan),
                             fl_polluted := ps_polluted scan\<rparr>))))))"

fun open_pages ::
  "'m flash_ops \<Rightarrow> (string \<Rightarrow> string + serde) \<Rightarrow> nat list \<Rightarrow> bool \<times> 'm flash_wal \<Rightarrow> mcu_error + (bool \<times> 'm flash_wal)" where
  "open_pages ops de [] acc = Inr acc"
| "open_pages ops de (p # ps) acc = and_then (open_page ops de p acc) (open_pages ops de ps)"

definition flash_open :: "'m flash_ops \<Rightarrow> (string \<Rightarrow> string + serde) \<Rightarrow> 'm \<Rightarrow> mcu_error + 'm flash_wal" where
  "flash_open ops de m =
     map_ok snd (open_pages ops de [0..<fm_page_count ops m]
       (False, \<lparr>fl_medium = m, fl_lines = [], fl_offsets = [], fl_tail_hash = ''genesis'', fl_active_page = 0,
                fl_write_offset = 0, fl_polluted = False, fl_page_size = fm_page_size ops m\<rparr>))"

text \<open>
  \<open>append_record\<close> in two parts: the size check and the change of page, which may fail without effect, and
  the programming of the line with its end mark.
\<close>

definition line_bytes :: "string \<Rightarrow> byte list" where
  "line_bytes line = bytes_of line @ [newline]"

definition rotate_page :: "'m flash_ops \<Rightarrow> 'm flash_wal \<Rightarrow> mcu_error + 'm flash_wal" where
  "rotate_page ops st =
     (let nxt = fl_active_page st + 1 in
      if nxt \<ge> fm_page_count ops (fl_medium st) then Inl WalFull
      else
        and_then (fm_read ops (nxt * fl_page_size st) 1 (fl_medium st)) (\<lambda>probe.
        if probe ! 0 \<noteq> 255
        then Inl (WalCorrupted (''page '' @ dec_nat nxt @ '': expected empty page before rotate, found data''))
        else
          and_then (fm_erase_page ops nxt (fl_medium st)) (\<lambda>m.
          Inr (st\<lparr>fl_medium := m, fl_active_page := nxt, fl_write_offset := 0, fl_polluted := False\<rparr>))))"

definition prepare_page :: "'m flash_ops \<Rightarrow> nat \<Rightarrow> 'm flash_wal \<Rightarrow> mcu_error + 'm flash_wal" where
  "prepare_page ops n st =
     (if n > fl_page_size st then Inl (WalRecordTooLarge n (fl_page_size st))
      else if fl_polluted st \<or> fl_write_offset st \<ge> fl_page_size st \<or> fl_page_size st - fl_write_offset st < n
      then rotate_page ops st
      else Inr st)"

definition write_position :: "'m flash_wal \<Rightarrow> nat" where
  "write_position st = fl_active_page st * fl_page_size st + fl_write_offset st"

definition flash_append_record ::
  "'m flash_ops \<Rightarrow> (serde \<Rightarrow> string) \<Rightarrow> u64 \<Rightarrow> fact \<Rightarrow> string \<Rightarrow> string \<Rightarrow> string \<Rightarrow> 'm flash_wal \<Rightarrow> (mcu_error + unit) \<times> 'm flash_wal" where
  "flash_append_record ops ser vb f ch ph kh st =
     (let line = wal_line_json ser vb f ch ph kh; bytes = line_bytes line in
      case prepare_page ops (length bytes) st of
        Inl e \<Rightarrow> (Inl e, st)
      | Inr st1 \<Rightarrow>
          (case fm_program ops (write_position st1) bytes (fl_medium st1) of
             Inl e \<Rightarrow> (Inl e, st1)
           | Inr m \<Rightarrow>
               (Inr (), st1\<lparr>fl_medium := m, fl_write_offset := fl_write_offset st1 + length bytes,
                 fl_offsets := fl_offsets st1 @ [write_position st1], fl_lines := fl_lines st1 @ [line], fl_tail_hash := kh\<rparr>)))"

definition flash_line_json :: "nat \<Rightarrow> 'm flash_wal \<Rightarrow> mcu_error + string" where
  "flash_line_json i st =
     (if i < length (fl_lines st) then Inr (fl_lines st ! i) else Inl (RecordIndex i (length (fl_lines st))))"

definition flash_len :: "'m flash_wal \<Rightarrow> nat" where
  "flash_len st = length (fl_lines st)"

definition flash_store :: "'m flash_ops \<Rightarrow> (serde \<Rightarrow> string) \<Rightarrow> 'm flash_wal store_ops" where
  "flash_store ops ser = \<lparr>op_append = flash_append_record ops ser, op_tail = fl_tail_hash, op_len = flash_len, op_line = flash_line_json\<rparr>"

text \<open>
  A power cut while a record is appended: the medium that is left when only the first \<open>k\<close> bytes of the
  line have been programmed.
\<close>

definition power_cut :: "'m flash_ops \<Rightarrow> (serde \<Rightarrow> string) \<Rightarrow> nat \<Rightarrow> mcu_wal_record \<Rightarrow> 'm flash_wal \<Rightarrow> 'm" where
  "power_cut ops ser k r st =
     (let bytes = line_bytes (mcu_line ser r) in
      case prepare_page ops (length bytes) st of
        Inl e \<Rightarrow> fl_medium st
      | Inr st1 \<Rightarrow>
          (case fm_program ops (write_position st1) (take k bytes) (fl_medium st1) of
             Inl e \<Rightarrow> fl_medium st1
           | Inr m \<Rightarrow> m))"

section \<open>Strings and bytes\<close>

lemma str_of_bytes [simp]: "str_of (bytes_of s) = s"
proof -
  have "char_of (unat (of_char c :: byte)) = c" for c
  proof -
    have "(of_char c :: byte) = of_nat (of_char c)" by (simp add: of_nat_of_char)
    moreover have "unat (of_nat (of_char c) :: byte) = of_char c" by (simp only: unat_of_nat len_num1 len_bit0) simp
    ultimately show ?thesis by simp
  qed
  then show ?thesis by (simp add: str_of_def bytes_of_def comp_def)
qed

lemma length_bytes_of [simp]: "length (bytes_of s) = length s"
  by (simp add: bytes_of_def)

lemma length_line_bytes [simp]: "length (line_bytes l) = length l + 1"
  by (simp add: line_bytes_def)

lemma utf8_no_ff: "utf8_valid bs \<Longrightarrow> 255 \<notin> set bs"
  by (induction bs rule: utf8_valid.induct)
    (auto split: if_splits list.splits simp: continues_def second_ok_def)

section \<open>The layout of the ring\<close>

text \<open>The cells of a medium whose first pages hold the given bytes and whose other pages are blank.\<close>

definition pad :: "nat \<Rightarrow> byte list \<Rightarrow> byte list" where
  "pad ps r = r @ replicate (ps - length r) 255"

definition layout :: "nat \<Rightarrow> nat \<Rightarrow> byte list list \<Rightarrow> byte list" where
  "layout ps pc raw = concat (map (pad ps) raw) @ replicate ((pc - length raw) * ps) 255"

lemma length_pad: "length r \<le> ps \<Longrightarrow> length (pad ps r) = ps"
  by (simp add: pad_def)

lemma length_pads: "list_all (\<lambda>r. length r \<le> ps) raw \<Longrightarrow> length (concat (map (pad ps) raw)) = length raw * ps"
  by (induction raw) (simp_all add: length_pad)

lemma layout_page:
  assumes "list_all (\<lambda>r. length r \<le> ps) (a @ r # b)"
  shows "take ps (drop (length a * ps) (layout ps pc (a @ r # b))) = pad ps r"
  using assms length_pads [of ps a] length_pad [of r ps] by (simp add: layout_def)

lemma layout_blank_page:
  assumes "list_all (\<lambda>r. length r \<le> ps) raw" "length raw \<le> i" "i < pc"
  shows "take ps (drop (i * ps) (layout ps pc raw)) = replicate ps 255"
proof -
  obtain d e where de: "i = length raw + d" "pc = length raw + d + Suc e"
    using assms(2,3) by (metis le_Suc_ex less_imp_Suc_add add_Suc_right)
  then have "(pc - length raw) * ps = d * ps + (ps + e * ps)" by (simp add: add_mult_distrib)
  then have "layout ps pc raw = concat (map (pad ps) raw) @ replicate (d * ps) 255 @ replicate ps 255 @ replicate (e * ps) 255"
    by (simp add: layout_def replicate_add)
  moreover have "i * ps = length (concat (map (pad ps) raw) @ replicate (d * ps) (255 :: byte))"
    using length_pads [OF assms(1)] de(1) by (simp add: add_mult_distrib del: length_concat)
  ultimately show ?thesis by (simp del: length_concat)
qed

text \<open>A fresh page is an empty one, and programming at the end of the last page extends it.\<close>

lemma layout_fresh: "length raw < pc \<Longrightarrow> layout ps pc (raw @ [[]]) = layout ps pc raw"
proof -
  assume "length raw < pc"
  then have "(pc - length raw) * ps = ps + (pc - Suc (length raw)) * ps"
    by (metis Suc_diff_Suc mult_Suc)
  then show ?thesis by (simp add: layout_def pad_def replicate_add)
qed

lemma layout_split:
  assumes "list_all (\<lambda>r. length r \<le> ps) (raw @ [r])" "length r + n \<le> ps"
  shows "\<exists>after. layout ps pc (raw @ [r]) = concat (map (pad ps) raw) @ r @ replicate n 255 @ after \<and>
    (\<forall>bs. length bs = n \<longrightarrow> layout ps pc (raw @ [r @ bs]) = concat (map (pad ps) raw) @ r @ bs @ after)"
proof -
  have "replicate (ps - length r) 255 = replicate n (255 :: byte) @ replicate (ps - length r - n) 255"
    using assms(2) by (simp flip: replicate_add)
  then show ?thesis
    by (intro exI [of _ "replicate (ps - length r - n) 255 @ replicate ((pc - Suc (length raw)) * ps) 255"])
      (simp add: layout_def pad_def)
qed

lemma layout_extend:
  assumes "list_all (\<lambda>r. length r \<le> ps) (raw @ [r])" "length r + length bs \<le> ps"
  defines "off \<equiv> length raw * ps + length r"
  shows "take (length bs) (drop off (layout ps pc (raw @ [r]))) = replicate (length bs) 255"
    "off + length bs \<le> length (layout ps pc (raw @ [r]))"
    "take off (layout ps pc (raw @ [r])) @ bs @ drop (off + length bs) (layout ps pc (raw @ [r])) =
     layout ps pc (raw @ [r @ bs])"
proof -
  obtain after where a: "layout ps pc (raw @ [r]) = concat (map (pad ps) raw) @ r @ replicate (length bs) 255 @ after"
    "layout ps pc (raw @ [r @ bs]) = concat (map (pad ps) raw) @ r @ bs @ after"
    using layout_split [OF assms(1,2)] by blast
  have "off = length (concat (map (pad ps) raw) @ r)"
    using assms(1) length_pads [of ps raw] by (simp add: off_def)
  then show "take (length bs) (drop off (layout ps pc (raw @ [r]))) = replicate (length bs) 255"
    "off + length bs \<le> length (layout ps pc (raw @ [r]))"
    "take off (layout ps pc (raw @ [r])) @ bs @ drop (off + length bs) (layout ps pc (raw @ [r])) =
     layout ps pc (raw @ [r @ bs])"
    unfolding a by (simp_all del: length_concat)
qed

section \<open>What a page holds\<close>

text \<open>
  A page of the ring: complete lines, then possibly the remains of a line that a power cut left
  without its end mark.
\<close>

type_synonym wal_page = "string list \<times> byte list"

definition page_raw :: "wal_page \<Rightarrow> byte list" where
  "page_raw p = concat (map line_bytes (fst p)) @ snd p"

definition line_hash :: "(string \<Rightarrow> string + serde) \<Rightarrow> string \<Rightarrow> string" where
  "line_hash de l = (case line_chain_hash de l 0 of Inr h \<Rightarrow> h | Inl _ \<Rightarrow> [])"

definition good_line :: "(string \<Rightarrow> string + serde) \<Rightarrow> string \<Rightarrow> bool" where
  "good_line de l \<longleftrightarrow> utf8_valid (bytes_of l) \<and> newline \<notin> set (bytes_of l) \<and>
     (\<forall>page. line_chain_hash de l page = Inr (line_hash de l))"

definition good_page :: "(string \<Rightarrow> string + serde) \<Rightarrow> nat \<Rightarrow> wal_page \<Rightarrow> bool" where
  "good_page de ps p \<longleftrightarrow> list_all (good_line de) (fst p) \<and> newline \<notin> set (snd p) \<and> 255 \<notin> set (snd p) \<and>
     page_raw p \<noteq> [] \<and> length (page_raw p) \<le> ps \<and> (snd p \<noteq> [] \<longrightarrow> length (page_raw p) < ps)"

fun rows_of :: "nat \<Rightarrow> string list \<Rightarrow> (nat \<times> nat) list" where
  "rows_of start [] = []"
| "rows_of start (l # ls) = (start, start + length l) # rows_of (start + length l + 1) ls"

fun line_starts :: "nat \<Rightarrow> string list \<Rightarrow> nat list" where
  "line_starts start [] = []"
| "line_starts start (l # ls) = start # line_starts (start + length l + 1) ls"

lemma good_line_bytes:
  "good_line de l \<Longrightarrow> 255 \<notin> set (bytes_of l)" "good_line de l \<Longrightarrow> newline \<notin> set (bytes_of l)"
  by (auto simp: good_line_def utf8_no_ff)

lemma scan_rows_plain:
  "255 \<notin> set bs \<Longrightarrow> newline \<notin> set bs \<Longrightarrow> scan_rows i r (bs @ rest) = scan_rows (i + length bs) r rest"
  by (induction bs arbitrary: i) auto

lemma scan_rows_lines:
  assumes "list_all (good_line de) ls"
  shows "scan_rows i i (concat (map line_bytes ls) @ rest) =
    (case scan_rows (i + length (concat (map line_bytes ls))) (i + length (concat (map line_bytes ls))) rest of
       (rows, rst) \<Rightarrow> (rows_of i ls @ rows, rst))"
  using assms
proof (induction ls arbitrary: i)
  case (Cons l ls)
  then have l: "255 \<notin> set (bytes_of l)" "newline \<notin> set (bytes_of l)" by (auto simp: good_line_bytes)
  have "scan_rows i i (concat (map line_bytes (l # ls)) @ rest) =
      scan_rows (i + length l) i (newline # concat (map line_bytes ls) @ rest)"
    using scan_rows_plain [OF l, of i i "newline # concat (map line_bytes ls) @ rest"] by (simp add: line_bytes_def)
  also have "\<dots> = (case scan_rows (i + length l + 1) (i + length l + 1) (concat (map line_bytes ls) @ rest) of
      (rows, rst) \<Rightarrow> ((i, i + length l) # rows, rst))" by simp
  finally show ?case
    using Cons.IH [of "i + length l + 1"] Cons.prems by (simp add: add.assoc split: prod.splits)
qed (simp split: prod.splits)

lemma scan_page_good:
  assumes "good_page de ps p"
  shows "scan_page (pad ps (page_raw p)) page = Inr \<lparr>ps_rows = rows_of 0 (fst p), ps_polluted = (snd p \<noteq> []),
    ps_first_free = (if length (page_raw p) < ps then Some (length (page_raw p)) else None)\<rparr>"
proof -
  let ?n = "length (concat (map line_bytes (fst p)))" and ?free = "replicate (ps - length (page_raw p)) (255 :: byte)"
  have g: "list_all (good_line de) (fst p)" "255 \<notin> set (snd p)" "newline \<notin> set (snd p)"
    "snd p \<noteq> [] \<Longrightarrow> length (page_raw p) < ps"
    using assms by (auto simp: good_page_def)
  have "scan_rows ?n ?n (snd p @ ?free) = scan_rows (?n + length (snd p)) ?n ?free"
    by (rule scan_rows_plain [OF g(2,3)])
  also have "\<dots> = ([], ?n, if length (page_raw p) < ps then Some (length (page_raw p)) else None)"
    by (cases "ps - length (page_raw p)") (simp_all add: page_raw_def)
  finally have "scan_rows 0 0 (pad ps (page_raw p)) =
      (rows_of 0 (fst p), ?n, if length (page_raw p) < ps then Some (length (page_raw p)) else None)"
    using scan_rows_lines [OF g(1), of 0 "snd p @ ?free"] by (simp add: pad_def page_raw_def)
  then show ?thesis
    using g(4) by (auto simp: scan_page_def pad_def page_raw_def)
qed

text \<open>Reading the rows of a good page gives its lines, their places and the hash of the last one.\<close>

definition tail_after :: "(string \<Rightarrow> string + serde) \<Rightarrow> string \<Rightarrow> string list \<Rightarrow> string" where
  "tail_after de h ls = (if ls = [] then h else line_hash de (last ls))"

lemma open_rows_good:
  assumes "list_all (good_line de) ls" "drop start buf = concat (map line_bytes ls) @ rem"
  shows "open_rows de page base buf (rows_of start ls) st =
    Inr (st\<lparr>fl_tail_hash := tail_after de (fl_tail_hash st) ls, fl_offsets := fl_offsets st @ line_starts (base + start) ls,
            fl_lines := fl_lines st @ ls\<rparr>)"
  using assms
proof (induction ls arbitrary: start st)
  case (Cons l ls)
  have "take (length l) (drop start buf) = bytes_of l"
    using Cons.prems(2) by (simp add: line_bytes_def)
  moreover have "drop (start + length l + 1) buf = concat (map line_bytes ls) @ rem"
    using Cons.prems(2) drop_drop [of "length l + 1" start buf] by (simp add: line_bytes_def [of l] add.commute add.left_commute)
  ultimately show ?case
    using Cons.prems(1) Cons.IH [of "start + length l + 1"]
    by (simp add: good_line_def Let_def and_then_def tail_after_def add.assoc)
qed (simp add: tail_after_def)

fun starts_from :: "nat \<Rightarrow> nat \<Rightarrow> wal_page list \<Rightarrow> nat list" where
  "starts_from ps i [] = []"
| "starts_from ps i (p # pages) = line_starts (i * ps) (fst p) @ starts_from ps (i + 1) pages"

abbreviation lines_in :: "wal_page list \<Rightarrow> string list" where
  "lines_in pages \<equiv> concat (map fst pages)"

text \<open>The store that belongs to a medium with these pages.\<close>

definition store_at :: "(string \<Rightarrow> string + serde) \<Rightarrow> nat \<Rightarrow> 'm \<Rightarrow> wal_page list \<Rightarrow> 'm flash_wal" where
  "store_at de ps m pages =
     \<lparr>fl_medium = m, fl_lines = lines_in pages, fl_offsets = starts_from ps 0 pages,
      fl_tail_hash = tail_after de ''genesis'' (lines_in pages), fl_active_page = length pages - 1,
      fl_write_offset = (if pages = [] then 0 else length (page_raw (last pages))),
      fl_polluted = (pages \<noteq> [] \<and> snd (last pages) \<noteq> []), fl_page_size = ps\<rparr>"

lemma starts_from_append: "starts_from ps i (xs @ ys) = starts_from ps i xs @ starts_from ps (i + length xs) ys"
  by (induction xs arbitrary: i) simp_all

lemma line_starts_append:
  "line_starts i (ls @ [l]) = line_starts i ls @ [i + length (concat (map line_bytes ls))]"
  by (induction ls arbitrary: i) simp_all

lemma tail_after_append [simp]: "tail_after de (tail_after de h xs) ys = tail_after de h (xs @ ys)"
  by (simp add: tail_after_def)

lemma pad_not_blank: "good_page de ps p \<Longrightarrow> \<not> list_all (\<lambda>b. b = 255) (pad ps (page_raw p))"
proof -
  assume g: "good_page de ps p"
  have "255 \<notin> set (line_bytes l)" if "l \<in> set (fst p)" for l
    using g that good_line_bytes(1) [of de l] by (auto simp: good_page_def list_all_iff line_bytes_def)
  then have "255 \<notin> set (page_raw p)" "page_raw p \<noteq> []"
    using g by (auto simp: good_page_def page_raw_def)
  then show ?thesis by (cases "page_raw p") (auto simp: pad_def)
qed

lemma good_page_fits: "list_all (good_page de ps) pages \<Longrightarrow> list_all (\<lambda>r. length r \<le> ps) (map page_raw pages)"
  by (auto simp: list_all_iff good_page_def)

section \<open>The contract of a medium\<close>

text \<open>
  The laws a medium promises: its pages are its cells, reading returns cells, programming erased cells
  stores the bytes, and erasing blanks a page; nothing else changes.
\<close>

locale flash_medium =
  fixes ops :: "'m flash_ops" and cells :: "'m \<Rightarrow> byte list" and valid :: "'m \<Rightarrow> bool"
  assumes shape: "valid m \<Longrightarrow> 0 < fm_page_size ops m \<and> 0 < fm_page_count ops m \<and>
      length (cells m) = fm_page_count ops m * fm_page_size ops m"
    and read: "valid m \<Longrightarrow> off + n \<le> length (cells m) \<Longrightarrow> fm_read ops off n m = Inr (take n (drop off (cells m)))"
    and program_erased: "valid m \<Longrightarrow> off + length bs \<le> length (cells m) \<Longrightarrow>
      take (length bs) (drop off (cells m)) = replicate (length bs) 255 \<Longrightarrow>
      \<exists>m'. fm_program ops off bs m = Inr m' \<and> valid m' \<and> fm_page_size ops m' = fm_page_size ops m \<and>
        fm_page_count ops m' = fm_page_count ops m \<and>
        cells m' = take off (cells m) @ bs @ drop (off + length bs) (cells m)"
    and erase: "valid m \<Longrightarrow> p < fm_page_count ops m \<Longrightarrow>
      \<exists>m'. fm_erase_page ops p m = Inr m' \<and> valid m' \<and> fm_page_size ops m' = fm_page_size ops m \<and>
        fm_page_count ops m' = fm_page_count ops m \<and>
        cells m' = take (p * fm_page_size ops m) (cells m) @ replicate (fm_page_size ops m) 255 @
          drop (p * fm_page_size ops m + fm_page_size ops m) (cells m)"
begin

text \<open>A medium that holds the given pages.\<close>

definition holds :: "(string \<Rightarrow> string + serde) \<Rightarrow> 'm \<Rightarrow> wal_page list \<Rightarrow> bool" where
  "holds de m pages \<longleftrightarrow> valid m \<and> length pages \<le> fm_page_count ops m \<and>
     list_all (good_page de (fm_page_size ops m)) pages \<and>
     cells m = layout (fm_page_size ops m) (fm_page_count ops m) (map page_raw pages)"

lemma read_page:
  assumes "valid m" "i < fm_page_count ops m"
  shows "fm_read ops (i * fm_page_size ops m) (fm_page_size ops m) m =
    Inr (take (fm_page_size ops m) (drop (i * fm_page_size ops m) (cells m)))"
proof -
  have "(i + 1) * fm_page_size ops m \<le> fm_page_count ops m * fm_page_size ops m"
    using assms(2) by (intro mult_le_mono1) simp
  then show ?thesis using shape [OF assms(1)] by (intro read [OF assms(1)]) simp
qed

lemma open_page_data:
  assumes h: "holds de m (ds @ p # rest)"
  shows "open_page ops de (length ds) (False, store_at de (fm_page_size ops m) m ds) =
    Inr (False, store_at de (fm_page_size ops m) m (ds @ [p]))"
proof -
  let ?ps = "fm_page_size ops m"
  have g: "list_all (good_page de ?ps) (ds @ p # rest)" "valid m" "length ds < fm_page_count ops m"
    using h by (auto simp: holds_def)
  have r: "fm_read ops (length ds * ?ps) ?ps m = Inr (pad ?ps (page_raw p))"
    using read_page [OF g(2,3)] layout_page [of ?ps "map page_raw ds" "page_raw p" "map page_raw rest"] good_page_fits [OF g(1)] h
    by (simp add: holds_def)
  have p: "good_page de ?ps p" "list_all (good_line de) (fst p)" using g(1) by (auto simp: good_page_def)
  have "drop 0 (pad ?ps (page_raw p)) = concat (map line_bytes (fst p)) @ (snd p @ replicate (?ps - length (page_raw p)) 255)"
    by (simp add: pad_def page_raw_def)
  from open_rows_good [OF p(2) this, where st = "store_at de ?ps m ds" and page = "length ds" and base = "length ds * ?ps"] show ?thesis
    using r scan_page_good [OF p(1)] pad_not_blank [OF p(1)] p(1)
    by (auto simp: open_page_def store_at_def and_then_def Let_def starts_from_append unwrap_or_def good_page_def)
qed

lemma open_page_blank:
  assumes h: "holds de m pages" and i: "length pages \<le> i" "i < fm_page_count ops m" "fl_medium st = m" "fl_page_size st = fm_page_size ops m"
  shows "open_page ops de i (e, st) = Inr (True, st)"
proof -
  have "fm_read ops (i * fm_page_size ops m) (fm_page_size ops m) m = Inr (replicate (fm_page_size ops m) 255)"
    using read_page [OF _ i(2)] layout_blank_page [OF good_page_fits] h i(1,2) by (auto simp: holds_def)
  then show ?thesis using i(3,4) by (simp add: open_page_def and_then_def Let_def list_all_iff)
qed

lemma open_pages_blank:
  assumes h: "holds de m pages" and "length pages \<le> i" "fl_medium st = m" "fl_page_size st = fm_page_size ops m"
  shows "map_ok snd (open_pages ops de [i..<fm_page_count ops m] (e, st)) = Inr st"
  using assms(2)
proof (induction "fm_page_count ops m - i" arbitrary: i e)
  case (Suc n)
  then have i: "i < fm_page_count ops m" by simp
  then show ?case
    using Suc(1) [of "Suc i" True] Suc(2,3) open_page_blank [OF h Suc(3) i assms(3,4)]
    by (simp add: upt_conv_Cons and_then_def)
qed (simp add: map_ok_def)

text \<open>Recovery finds exactly the pages the medium holds.\<close>

lemma open_holds:
  assumes "holds de m pages"
  shows "flash_open ops de m = Inr (store_at de (fm_page_size ops m) m pages)"
proof -
  have "map_ok snd (open_pages ops de [length ds..<fm_page_count ops m] (False, store_at de (fm_page_size ops m) m ds)) =
      Inr (store_at de (fm_page_size ops m) m (ds @ rest))" if "holds de m (ds @ rest)" for ds rest
    using that
  proof (induction rest arbitrary: ds)
    case Nil
    then show ?case using open_pages_blank [OF Nil] by (simp add: store_at_def)
  next
    case (Cons p rest)
    then have "length ds < fm_page_count ops m" by (simp add: holds_def)
    then show ?case
      using Cons.IH [of "ds @ [p]"] Cons.prems open_page_data [OF Cons.prems] by (simp add: upt_conv_Cons and_then_def)
  qed
  from this [of "[]" pages] assms show ?thesis by (simp add: flash_open_def store_at_def tail_after_def)
qed

end

section \<open>Appending and losing power\<close>

text \<open>Where the next line of the given size goes: the pages before its page and the lines before it there.\<close>

definition target :: "nat \<Rightarrow> nat \<Rightarrow> wal_page list \<Rightarrow> wal_page list \<times> string list" where
  "target ps n pages =
     (if pages \<noteq> [] \<and> snd (last pages) = [] \<and> length (page_raw (last pages)) + n \<le> ps
      then (butlast pages, fst (last pages)) else (pages, []))"

lemma target_cases:
  assumes "target ps n pages = (front, ls)"
  obtains (same) "pages = front @ [(ls, [])]" "length (concat (map line_bytes ls)) + n \<le> ps"
  | (fresh) "front = pages" "ls = []" "pages = [] \<or> snd (last pages) \<noteq> [] \<or> ps < length (page_raw (last pages)) + n"
proof (cases "pages \<noteq> [] \<and> snd (last pages) = [] \<and> length (page_raw (last pages)) + n \<le> ps")
  case True
  then have "pages = butlast pages @ [(fst (last pages), [])]"
    by (metis append_butlast_last_id prod.collapse)
  with True assms show thesis
    by (intro same) (auto simp: target_def page_raw_def)
next
  case False
  with assms show thesis by (intro fresh) (auto simp: target_def)
qed

lemma target_lines: "target ps n pages = (front, ls) \<Longrightarrow> lines_in front @ ls = lines_in pages"
  by (erule target_cases) auto

lemma target_starts:
  "target ps n pages = (front, ls) \<Longrightarrow> starts_from ps 0 front @ line_starts (length front * ps) ls = starts_from ps 0 pages"
  by (erule target_cases) (auto simp: starts_from_append)

context flash_medium
begin

lemma prepare_full:
  assumes "holds de m pages" "n \<le> fm_page_size ops m" "target (fm_page_size ops m) n pages = (front, ls)"
    and "fm_page_count ops m \<le> length front"
  shows "prepare_page ops n (store_at de (fm_page_size ops m) m pages) = Inl WalFull"
  using assms(3)
proof (cases rule: target_cases)
  case same
  with assms(1,4) show ?thesis by (simp add: holds_def)
next
  case fresh
  have "0 < fm_page_count ops m" using assms(1) shape by (auto simp: holds_def)
  with fresh assms(2,4) show ?thesis by (auto simp: prepare_page_def rotate_page_def store_at_def Let_def)
qed

lemma rotate_blank:
  assumes h: "holds de m pages" and p: "pages \<noteq> []" "length pages < fm_page_count ops m"
  shows "\<exists>m1. rotate_page ops (store_at de (fm_page_size ops m) m pages) =
      Inr ((store_at de (fm_page_size ops m) m pages)\<lparr>fl_medium := m1, fl_active_page := length pages, fl_write_offset := 0, fl_polluted := False\<rparr>) \<and>
    valid m1 \<and> fm_page_size ops m1 = fm_page_size ops m \<and> fm_page_count ops m1 = fm_page_count ops m \<and> cells m1 = cells m"
proof -
  let ?ps = "fm_page_size ops m" and ?pc = "fm_page_count ops m" and ?off = "length pages * fm_page_size ops m"
  have v: "valid m" using h by (simp add: holds_def)
  note v = v shape [OF v, THEN conjunct1] shape [OF v, THEN conjunct2, THEN conjunct2]
  have blank: "take ?ps (drop ?off (cells m)) = replicate ?ps 255"
    using h p(2) layout_blank_page [OF good_page_fits] by (auto simp: holds_def)
  have "(length pages + 1) * ?ps \<le> ?pc * ?ps" using p(2) by (intro mult_le_mono1) simp
  then have le: "?off + ?ps \<le> length (cells m)" using v(3) by simp
  have "take 1 (drop ?off (cells m)) = take 1 (replicate ?ps 255)"
    using v(2) unfolding blank [symmetric] by (simp add: min_def)
  then have probe: "fm_read ops ?off 1 m = Inr [255]"
    using read [OF v(1), of ?off 1] le v(2) by (cases ?ps) simp_all
  obtain m1 where m1: "fm_erase_page ops (length pages) m = Inr m1" "valid m1" "fm_page_size ops m1 = ?ps"
    "fm_page_count ops m1 = ?pc" "cells m1 = take ?off (cells m) @ replicate ?ps 255 @ drop (?off + ?ps) (cells m)"
    using erase [OF v(1) p(2)] by blast
  have "cells m1 = cells m"
    using append_take_drop_id [of ?off "cells m"] append_take_drop_id [of ?ps "drop ?off (cells m)"] m1(5) blank
    by (metis add.commute drop_drop)
  with m1 probe p show ?thesis
    by (intro exI [of _ m1]) (cases pages, simp_all add: rotate_page_def store_at_def Let_def and_then_def)
qed

lemma prepare_ok:
  assumes h: "holds de m pages" and n: "n \<le> fm_page_size ops m" "0 < n" and t: "target (fm_page_size ops m) n pages = (front, ls)"
    and room: "length front < fm_page_count ops m"
  shows "\<exists>m1. prepare_page ops n (store_at de (fm_page_size ops m) m pages) =
      Inr ((store_at de (fm_page_size ops m) m pages)\<lparr>fl_medium := m1, fl_active_page := length front,
        fl_write_offset := length (concat (map line_bytes ls)), fl_polluted := False\<rparr>) \<and>
    valid m1 \<and> fm_page_size ops m1 = fm_page_size ops m \<and> fm_page_count ops m1 = fm_page_count ops m \<and> cells m1 = cells m"
  using t
proof (cases rule: target_cases)
  case same
  have "good_page de (fm_page_size ops m) (ls, [])" using h same(1) by (simp add: holds_def)
  then have "length (concat (map line_bytes ls)) \<le> fm_page_size ops m" by (simp add: good_page_def page_raw_def)
  with h same n show ?thesis
    by (intro exI [of _ m]) (auto simp: prepare_page_def store_at_def page_raw_def holds_def)
next
  case fresh
  show ?thesis
  proof (cases "pages = []")
    case True
    with fresh n h shape show ?thesis
      by (intro exI [of _ m]) (auto simp: prepare_page_def store_at_def holds_def)
  next
    case False
    with fresh(3) n have "prepare_page ops n (store_at de (fm_page_size ops m) m pages) =
        rotate_page ops (store_at de (fm_page_size ops m) m pages)"
      by (auto simp: prepare_page_def store_at_def)
    with rotate_blank [OF h False] fresh(1,2) room show ?thesis by simp
  qed
qed

lemma target_layout:
  assumes h: "holds de m pages" and t: "target (fm_page_size ops m) n pages = (front, ls)"
    and room: "length front < fm_page_count ops m" and n: "n \<le> fm_page_size ops m"
  shows "cells m = layout (fm_page_size ops m) (fm_page_count ops m) (map page_raw front @ [concat (map line_bytes ls)])"
    "length (concat (map line_bytes ls)) + n \<le> fm_page_size ops m"
    "list_all (\<lambda>r. length r \<le> fm_page_size ops m) (map page_raw front @ [concat (map line_bytes ls)])"
  using t
proof (induction rule: target_cases)
  case same
  {
    case 1
    with same h show ?case by (simp add: holds_def page_raw_def)
  next
    case 2
    with same show ?case by simp
  next
    case 3
    with same h good_page_fits [of de "fm_page_size ops m" pages] show ?case by (auto simp: holds_def page_raw_def)
  }
next
  case fresh
  {
    case 1
    with fresh h room layout_fresh [of "map page_raw pages"] show ?case by (auto simp: holds_def)
  next
    case 2
    with fresh n show ?case by simp
  next
    case 3
    with fresh h good_page_fits [of de "fm_page_size ops m" pages] show ?case by (auto simp: holds_def)
  }
qed

text \<open>Programming bytes at the place of the next line.\<close>

lemma program_target:
  assumes h: "holds de m pages" and t: "target (fm_page_size ops m) n pages = (front, ls)"
    and room: "length front < fm_page_count ops m" and n: "n \<le> fm_page_size ops m" "length bs \<le> n"
    and m1: "valid m1" "fm_page_size ops m1 = fm_page_size ops m" "fm_page_count ops m1 = fm_page_count ops m" "cells m1 = cells m"
  shows "\<exists>m'. fm_program ops (length front * fm_page_size ops m + length (concat (map line_bytes ls))) bs m1 = Inr m' \<and>
    valid m' \<and> fm_page_size ops m' = fm_page_size ops m \<and> fm_page_count ops m' = fm_page_count ops m \<and>
    cells m' = layout (fm_page_size ops m) (fm_page_count ops m) (map page_raw front @ [concat (map line_bytes ls) @ bs])"
proof -
  let ?ps = "fm_page_size ops m" and ?pc = "fm_page_count ops m" and ?r = "concat (map line_bytes ls)"
  have "cells m = layout ?ps ?pc (map page_raw front @ [?r])" "length ?r + n \<le> ?ps"
    "list_all (\<lambda>r. length r \<le> ?ps) (map page_raw front @ [?r])"
    by (rule target_layout [OF h t room n(1)])+
  then have c: "cells m1 = layout ?ps ?pc (map page_raw front @ [?r])" "length ?r + length bs \<le> ?ps"
    "list_all (\<lambda>r. length r \<le> ?ps) (map page_raw front @ [?r])" using m1(4) n(2) by simp_all
  note e = layout_extend [OF c(3,2), of ?pc, folded c(1), simplified length_map]
  obtain m' where m': "fm_program ops (length front * ?ps + length ?r) bs m1 = Inr m'" "valid m'" "fm_page_size ops m' = ?ps"
    "fm_page_count ops m' = ?pc"
    "cells m' = take (length front * ?ps + length ?r) (cells m1) @ bs @ drop (length front * ?ps + length ?r + length bs) (cells m1)"
    using program_erased [OF m1(1) e(2,1)] m1(2,3) by metis
  with e(3) show ?thesis by metis
qed

text \<open>The pages after a whole line, and after the first bytes of one.\<close>

lemma good_after_line:
  assumes "holds de m pages" "target (fm_page_size ops m) (length l + 1) pages = (front, ls)" "good_line de l"
    and "length l + 1 \<le> fm_page_size ops m"
  shows "list_all (good_page de (fm_page_size ops m)) (front @ [(ls @ [l], [])])"
  using assms(2)
proof (cases rule: target_cases)
  case same
  with assms(1,3) show ?thesis by (simp add: holds_def good_page_def page_raw_def line_bytes_def)
next
  case fresh
  with assms(1,3,4) show ?thesis by (simp add: holds_def good_page_def page_raw_def line_bytes_def)
qed

lemma good_after_cut:
  assumes "holds de m pages" "target (fm_page_size ops m) (length l + 1) pages = (front, ls)" "good_line de l"
    and "length l + 1 \<le> fm_page_size ops m" "0 < k" "k \<le> length l"
  shows "list_all (good_page de (fm_page_size ops m)) (front @ [(ls, take k (line_bytes l))])"
proof -
  have b: "take k (line_bytes l) = take k (bytes_of l)" using assms(6) by (simp add: line_bytes_def)
  have part: "newline \<notin> set (take k (bytes_of l))" "255 \<notin> set (take k (bytes_of l))"
    using good_line_bytes [OF assms(3)] by (auto dest: in_set_takeD)
  have some: "take k (bytes_of l) \<noteq> []" using assms(5,6) by (cases l) (auto simp: bytes_of_def)
  show ?thesis
    using assms(2)
  proof (cases rule: target_cases)
    case same
    with assms(1,5,6) part some show ?thesis
      by (auto simp: b holds_def good_page_def page_raw_def)
  next
    case fresh
    with assms(1,4-6) part some show ?thesis
      by (auto simp: b holds_def good_page_def page_raw_def)
  qed
qed

lemma append_cases:
  fixes de m pages ser r front ls
  defines "l \<equiv> mcu_line ser r" and "st \<equiv> store_at de (fm_page_size ops m) m pages"
  defines "res \<equiv> flash_append_record ops ser (mr_version_before r) (mr_fact r) (mr_content_hash r) (mr_prev_hash r) (mr_chain_hash r) st"
  assumes h: "holds de m pages" and l: "good_line de l" "line_hash de l = mr_chain_hash r"
    and t: "target (fm_page_size ops m) (length l + 1) pages = (front, ls)"
  obtains (too_large) "fm_page_size ops m < length l + 1" "res = (Inl (WalRecordTooLarge (length l + 1) (fm_page_size ops m)), st)"
      "prepare_page ops (length l + 1) st = Inl (WalRecordTooLarge (length l + 1) (fm_page_size ops m))"
  | (full) "length l + 1 \<le> fm_page_size ops m" "fm_page_count ops m \<le> length front" "res = (Inl WalFull, st)"
      "prepare_page ops (length l + 1) st = Inl WalFull"
  | (written) m' where "length l + 1 \<le> fm_page_size ops m" "length front < fm_page_count ops m"
      "res = (Inr (), store_at de (fm_page_size ops m) m' (front @ [(ls @ [l], [])]))"
      "holds de m' (front @ [(ls @ [l], [])])" "fm_page_size ops m' = fm_page_size ops m" "fm_page_count ops m' = fm_page_count ops m"
proof (cases "fm_page_size ops m < length l + 1")
  case True
  then show thesis
    by (intro too_large) (simp_all add: res_def st_def flash_append_record_def prepare_page_def store_at_def Let_def
        l_def mcu_line_def)
next
  case small: False
  show thesis
  proof (cases "fm_page_count ops m \<le> length front")
    case True
    with small prepare_full [OF h _ t] show thesis
      by (intro full) (simp_all add: res_def st_def flash_append_record_def Let_def l_def mcu_line_def)
  next
    case False
    let ?ps = "fm_page_size ops m" and ?new = "front @ [(ls @ [l], [])]"
    obtain m1 where m1: "prepare_page ops (length l + 1) st = Inr (st\<lparr>fl_medium := m1, fl_active_page := length front,
        fl_write_offset := length (concat (map line_bytes ls)), fl_polluted := False\<rparr>)"
      "valid m1" "fm_page_size ops m1 = ?ps" "fm_page_count ops m1 = fm_page_count ops m" "cells m1 = cells m"
      using prepare_ok [OF h _ _ t] small False unfolding st_def by (metis not_less zero_less_one add_gr_0 linorder_not_le)
    obtain m' where m': "fm_program ops (length front * ?ps + length (concat (map line_bytes ls))) (line_bytes l) m1 = Inr m'"
      "valid m'" "fm_page_size ops m' = ?ps" "fm_page_count ops m' = fm_page_count ops m"
      "cells m' = layout ?ps (fm_page_count ops m) (map page_raw front @ [concat (map line_bytes ls) @ line_bytes l])"
      using program_target [OF h t _ _ _ m1(2-5), of "line_bytes l"] small False by auto
    have new: "holds de m' ?new"
      using m' good_after_line [OF h t l(1)] small False by (simp add: holds_def page_raw_def)
    have "res = (Inr (), store_at de ?ps m' ?new)"
      using m1(1) m'(1) target_lines [OF t] target_starts [OF t] l(2)
      by (simp add: res_def flash_append_record_def Let_def write_position_def store_at_def starts_from_append
          line_starts_append tail_after_def page_raw_def st_def flip: l_def mcu_line_def)
    with new m' small False show thesis by (intro written [of m']) simp_all
  qed
qed

text \<open>
  After a power cut the medium holds pages again, with the lines of before and, when all bytes had been
  programmed, the new one.
\<close>

lemma cut_holds:
  fixes ser r
  defines "l \<equiv> mcu_line ser r"
  assumes h: "holds de m pages" and l: "good_line de l" "line_hash de l = mr_chain_hash r"
  shows "\<exists>pages'. holds de (power_cut ops ser k r (store_at de (fm_page_size ops m) m pages)) pages' \<and>
    lines_in pages' = lines_in pages @
      (if length l < k \<and> is_ok (fst (flash_append_record ops ser (mr_version_before r) (mr_fact r) (mr_content_hash r)
            (mr_prev_hash r) (mr_chain_hash r) (store_at de (fm_page_size ops m) m pages))) then [l] else []) \<and>
    fm_page_size ops (power_cut ops ser k r (store_at de (fm_page_size ops m) m pages)) = fm_page_size ops m"
proof -
  let ?ps = "fm_page_size ops m" and ?st = "store_at de (fm_page_size ops m) m pages"
  obtain front ls where t: "target ?ps (length l + 1) pages = (front, ls)" by fastforce
  show ?thesis
    using h l(1) [unfolded l_def] l(2) [unfolded l_def] t [unfolded l_def]
  proof (cases rule: append_cases)
    case too_large
    with h show ?thesis
      by (intro exI [of _ pages]) (simp add: power_cut_def Let_def store_at_def is_ok_def flip: l_def)
  next
    case full
    with h show ?thesis
      by (intro exI [of _ pages]) (simp add: power_cut_def Let_def store_at_def is_ok_def flip: l_def)
  next
    case (written m0)
    obtain m1 where m1: "prepare_page ops (length l + 1) ?st = Inr (?st\<lparr>fl_medium := m1, fl_active_page := length front,
        fl_write_offset := length (concat (map line_bytes ls)), fl_polluted := False\<rparr>)"
      "valid m1" "fm_page_size ops m1 = ?ps" "fm_page_count ops m1 = fm_page_count ops m" "cells m1 = cells m"
      using prepare_ok [OF h _ _ t] written(1,2) l_def by (metis zero_less_one add_gr_0)
    obtain m' where m': "fm_program ops (length front * ?ps + length (concat (map line_bytes ls))) (take k (line_bytes l)) m1 = Inr m'"
      "valid m'" "fm_page_size ops m' = ?ps" "fm_page_count ops m' = fm_page_count ops m"
      "cells m' = layout ?ps (fm_page_count ops m) (map page_raw front @ [concat (map line_bytes ls) @ take k (line_bytes l)])"
      using program_target [OF h t written(2) _ _ m1(2-5), of "take k (line_bytes l)"] written(1) l_def by auto
    have cut: "power_cut ops ser k r ?st = m'"
      using m1(1) m'(1) by (simp add: power_cut_def Let_def write_position_def store_at_def flip: l_def)
    consider "k = 0" | "0 < k" "k \<le> length l" | "length l < k" by linarith
    then show ?thesis
    proof cases
      case 1
      then have "holds de m' pages"
        using m' target_layout(1) [OF h t written(2)] written(1) l_def h by (simp add: holds_def)
      with 1 cut m'(3) show ?thesis by auto
    next
      case 2
      then have "holds de m' (front @ [(ls, take k (line_bytes l))])"
        using m' good_after_cut [OF h t l(1)] written(1,2) l_def by (simp add: holds_def page_raw_def)
      with 2 cut m'(3) target_lines [OF t] show ?thesis by fastforce
    next
      case 3
      then have "holds de m' (front @ [(ls @ [l], [])])"
        using m' good_after_line [OF h t l(1)] written(1,2) l_def by (simp add: holds_def page_raw_def)
      with 3 cut m'(3) target_lines [OF t] written(3) show ?thesis by (fastforce simp: is_ok_def)
    qed
  qed
qed

end

section \<open>The RAM medium keeps the contract\<close>

definition ram_valid :: "ram_flash \<Rightarrow> bool" where
  "ram_valid m \<longleftrightarrow> 0 < rf_page_size m \<and> 0 < ram_page_count m \<and> length (rf_data m) = ram_page_count m * rf_page_size m \<and>
     length (rf_data m) < 2 ^ 64"

lemma erased_and: "and 255 b = (b :: byte)"
proof -
  have "(255 :: byte) = - 1" by simp
  then show ?thesis by (simp only: and.left_neutral)
qed

lemma first_violation_erased: "first_violation i (replicate (length bs) 255 @ rest) bs = None"
  by (induction bs arbitrary: i) (simp_all add: program_allowed_def erased_and)

lemma program_over_erased: "map2 and (replicate (length bs) 255) bs = (bs :: byte list)"
  by (induction bs) (simp_all add: erased_and)

interpretation ram: flash_medium ram_flash_ops rf_data ram_valid
proof (standard, goal_cases)
  case (1 m)
  then show ?case by (simp add: ram_valid_def ram_flash_ops_def)
next
  case (2 m off n)
  then show ?case by (simp add: ram_flash_ops_def ram_read_def)
next
  case (3 m off bs)
  let ?m = "m\<lparr>rf_data := take off (rf_data m) @ bs @ drop (off + length bs) (rf_data m)\<rparr>"
  have d: "drop off (rf_data m) = replicate (length bs) 255 @ drop (length bs) (drop off (rf_data m))"
    using append_take_drop_id [of "length bs" "drop off (rf_data m)"] 3(3) by simp
  have "first_violation off (drop off (rf_data m)) bs = None"
    by (subst d) (rule first_violation_erased)
  then have "ram_program off bs m = Inr ?m"
    using 3(2,3) program_over_erased [of bs] by (simp add: ram_program_def Let_def)
  moreover have "length (rf_data ?m) = length (rf_data m)" using 3(2) by simp
  ultimately show ?case using 3(1) by (simp add: ram_flash_ops_def ram_valid_def ram_page_count_def)
next
  case (4 m p)
  let ?ps = "rf_page_size m"
  let ?m = "m\<lparr>rf_data := take (p * ?ps) (rf_data m) @ replicate ?ps 255 @ drop (p * ?ps + ?ps) (rf_data m)\<rparr>"
  have "(p + 1) * ?ps \<le> ram_page_count m * ?ps"
    using 4(2) by (intro mult_le_mono1) (simp add: ram_flash_ops_def)
  then have le: "p * ?ps + ?ps \<le> length (rf_data m)" "p * ?ps < 2 ^ 64" using 4(1) by (auto simp: ram_valid_def)
  then have "ram_erase_page p m = Inr ?m" by (simp add: ram_erase_page_def Let_def)
  moreover have "length (rf_data ?m) = length (rf_data m)" using le(1) by simp
  ultimately show ?case using 4(1) by (simp add: ram_flash_ops_def ram_valid_def ram_page_count_def)
qed

section \<open>The contract of a store\<close>

text \<open>
  What the executor relies on: an accepted record is the last line and its hash the tail, a refused one
  changes neither, and the lines are read back by index.
\<close>

locale mcu_store =
  fixes ops :: "'s store_ops" and ser :: "serde \<Rightarrow> string" and inv :: "'s \<Rightarrow> bool" and contents :: "'s \<Rightarrow> string list"
  assumes accepted: "inv s \<Longrightarrow> op_append ops vb f ch ph kh s = (Inr (), s') \<Longrightarrow>
      inv s' \<and> contents s' = contents s @ [wal_line_json ser vb f ch ph kh] \<and> op_tail ops s' = kh"
    and refused: "inv s \<Longrightarrow> op_append ops vb f ch ph kh s = (Inl e, s') \<Longrightarrow>
      inv s' \<and> contents s' = contents s \<and> op_tail ops s' = op_tail ops s"
    and op_len: "inv s \<Longrightarrow> op_len ops s = length (contents s)"
    and op_line: "inv s \<Longrightarrow> op_line ops i s = (if i < length (contents s) then Inr (contents s ! i) else Inl (RecordIndex i (length (contents s))))"
begin

lemma append_frame:
  assumes "inv s" "op_append ops vb f ch ph kh s = (res, s')"
  shows "inv s'"
    "contents s' = contents s @ (if is_ok res then [wal_line_json ser vb f ch ph kh] else [])"
    "op_tail ops s' = (if is_ok res then kh else op_tail ops s)"
  using accepted [OF assms(1)] refused [OF assms(1)] assms(2) by (cases res; auto simp: is_ok_def)+

text \<open>Two stores of one contract with the same lines and tail cannot be told apart by reading.\<close>

lemma read_back: "inv s \<Longrightarrow> i < op_len ops s \<Longrightarrow> op_line ops i s = Inr (contents s ! i)"
  by (simp add: op_len op_line)

end

interpretation ram_wal: mcu_store "ram_store ser" ser "\<lambda>_. True" "\<lambda>s. map (mcu_line ser) (ram_records s)"
  by unfold_locales
    (auto simp: ram_store_def ram_append_record_def ram_chain_tail_hash_def ram_len_def ram_line_json_def mcu_line_def)

text \<open>
  What is assumed of the printed text beyond \<open>json_text\<close>: it is well-formed UTF-8 and has no raw line
  break, since control characters in strings are escaped.
\<close>

definition line_text :: "(serde \<Rightarrow> string) \<Rightarrow> (string \<Rightarrow> string + serde) \<Rightarrow> bool" where
  "line_text ser de \<longleftrightarrow> json_text ser de \<and> (\<forall>v. utf8_valid (bytes_of (ser v))) \<and> (\<forall>v. CHR 0x0A \<notin> set (ser v))"

lemma newline_byte: "newline \<in> set (bytes_of l) \<longleftrightarrow> CHR 0x0A \<in> set l"
proof -
  have "of_char c = (10 :: byte) \<longleftrightarrow> c = CHR 0x0A" for c
  proof
    assume "of_char c = (10 :: byte)"
    then have "str_of (bytes_of [c]) = str_of [10]" by (simp add: bytes_of_def)
    moreover have "str_of [10] = [CHR 0x0A]" by (simp add: str_of_def char_of_def bit_iff_odd)
    ultimately show "c = CHR 0x0A" by simp
  qed simp
  then show ?thesis by (auto simp: bytes_of_def image_iff)
qed

lemma mcu_line_good:
  assumes "line_text ser de"
  shows "good_line de (mcu_line ser r)" "line_hash de (mcu_line ser r) = mr_chain_hash r"
proof -
  have "de (mcu_line ser r) = Inr (serde_map
      [(''version_before'', num (mr_version_before r)), (''fact'', fact_to_stable_json (mr_fact r)),
       (''content_hash'', SString (mr_content_hash r)), (''prev_hash'', SString (mr_prev_hash r)), (''chain_hash'', SString (mr_chain_hash r))])"
    using assms by (simp add: line_text_def json_text_def mcu_line_def wal_line_json_def)
  then have h: "line_chain_hash de (mcu_line ser r) page = Inr (mr_chain_hash r)" for page
    by (simp add: line_chain_hash_def serde_map_def s_get_def)
  then show "line_hash de (mcu_line ser r) = mr_chain_hash r" by (simp add: line_hash_def)
  with h show "good_line de (mcu_line ser r)"
    using assms by (simp add: good_line_def newline_byte line_text_def mcu_line_def wal_line_json_def)
qed

definition flash_inv :: "(serde \<Rightarrow> string) \<Rightarrow> (string \<Rightarrow> string + serde) \<Rightarrow> ram_flash flash_wal \<Rightarrow> bool" where
  "flash_inv ser de st \<longleftrightarrow> line_text ser de \<and>
     (\<exists>pages. ram.holds de (fl_medium st) pages \<and> st = store_at de (rf_page_size (fl_medium st)) (fl_medium st) pages)"

lemma flash_inv_store:
  assumes "line_text ser de" "ram.holds de m pages"
  shows "flash_inv ser de (store_at de (rf_page_size m) m pages)"
proof -
  have "fl_medium (store_at de (rf_page_size m) m pages) = m" by (simp add: store_at_def)
  with assms show ?thesis unfolding flash_inv_def by metis
qed

definition as_record :: "u64 \<Rightarrow> fact \<Rightarrow> string \<Rightarrow> string \<Rightarrow> string \<Rightarrow> mcu_wal_record" where
  "as_record vb f ch ph kh =
     \<lparr>mr_version_before = vb, mr_fact = f, mr_content_hash = ch, mr_prev_hash = ph, mr_chain_hash = kh\<rparr>"

text \<open>The outcomes of an append on the RAM medium, with the pages of the store out of sight.\<close>

lemma flash_append_cases:
  assumes inv: "flash_inv ser de st" and a: "flash_append_record ram_flash_ops ser vb f ch ph kh st = (res, st')"
  defines "l \<equiv> wal_line_json ser vb f ch ph kh"
  obtains (too_large) "fl_page_size st < length l + 1" "res = Inl (WalRecordTooLarge (length l + 1) (fl_page_size st))" "st' = st"
  | (full) "length l + 1 \<le> fl_page_size st" "fl_active_page st + 1 = ram_page_count (fl_medium st)" "res = Inl WalFull" "st' = st"
      "fl_polluted st \<or> fl_page_size st < fl_write_offset st + (length l + 1)"
  | (written) "length l + 1 \<le> fl_page_size st" "res = Inr ()" "flash_inv ser de st'" "fl_lines st' = fl_lines st @ [l]" "fl_tail_hash st' = kh"
proof -
  obtain pages where p: "ram.holds de (fl_medium st) pages" "st = store_at de (rf_page_size (fl_medium st)) (fl_medium st) pages"
    and lt: "line_text ser de" using inv by (auto simp: flash_inv_def)
  let ?r = "as_record vb f ch ph kh" and ?ps = "rf_page_size (fl_medium st)"
  have ops: "fm_page_size ram_flash_ops = rf_page_size" "fm_page_count ram_flash_ops = ram_page_count"
    by (simp_all add: ram_flash_ops_def)
  have l: "mcu_line ser ?r = l" by (simp add: mcu_line_def as_record_def l_def)
  obtain front ls where t: "target ?ps (length l + 1) pages = (front, ls)" by fastforce
  have ps: "fl_page_size st = ?ps" and at: "fl_active_page st = length pages - 1" "fl_lines st = lines_in pages"
    "fl_write_offset st = (if pages = [] then 0 else length (page_raw (last pages)))"
    "fl_polluted st \<longleftrightarrow> pages \<noteq> [] \<and> snd (last pages) \<noteq> []"
    using arg_cong [OF p(2), of fl_page_size] arg_cong [OF p(2), of fl_active_page] arg_cong [OF p(2), of fl_lines]
      arg_cong [OF p(2), of fl_write_offset] arg_cong [OF p(2), of fl_polluted] by (simp_all add: store_at_def)
  have a': "flash_append_record ram_flash_ops ser (mr_version_before ?r) (mr_fact ?r) (mr_content_hash ?r) (mr_prev_hash ?r)
      (mr_chain_hash ?r) (store_at de ?ps (fl_medium st) pages) = (res, st')"
    using a p(2) by (simp add: as_record_def)
  have t': "target (fm_page_size ram_flash_ops (fl_medium st)) (length (mcu_line ser ?r) + 1) pages = (front, ls)"
    using t by (simp only: ops l)
  show thesis
    using p(1) mcu_line_good [OF lt, of ?r] t'
  proof (cases rule: ram.append_cases)
    case too_large1: too_large
    note 1 = too_large1 [unfolded ops l]
    with a' p(2) ps show thesis by (intro too_large) simp_all
  next
    case full2: full
    note 2 = full2 [unfolded ops l]
    have "front = pages" "pages \<noteq> []" "snd (last pages) \<noteq> [] \<or> ?ps < length (page_raw (last pages)) + (length l + 1)"
      using t 2(2) p(1) by (auto elim!: target_cases simp: ram.holds_def ops ram_valid_def)
    moreover from this have "length pages = ram_page_count (fl_medium st)"
      using p(1) 2(2) by (simp add: ram.holds_def ops)
    ultimately have "fl_active_page st + 1 = ram_page_count (fl_medium st)"
      "fl_polluted st \<or> fl_page_size st < fl_write_offset st + (length l + 1)"
      using at ps length_greater_0_conv [of pages] by auto
    with 2 a' p(2) ps show thesis by (intro full) simp_all
  next
    case written3: (written m')
    note 3 = written3 [unfolded ops l]
    have st': "st' = store_at de ?ps m' (front @ [(ls @ [l], [])])" "res = Inr ()" using 3(3) a' by simp_all
    have "flash_inv ser de st'" using flash_inv_store [OF lt 3(4)] 3(5) st'(1) by metis
    moreover have "fl_lines st' = fl_lines st @ [l]"
      using at(2) by (simp add: st'(1) store_at_def target_lines [OF t, symmetric])
    moreover have "fl_tail_hash st' = kh"
      using mcu_line_good(2) [OF lt, of ?r, unfolded l] by (simp add: st'(1) store_at_def tail_after_def as_record_def)
    ultimately show thesis using 3(1) st'(2) ps by (intro written) simp_all
  qed
qed

interpretation flash_wal: mcu_store "flash_store ram_flash_ops ser" ser "flash_inv ser de" fl_lines
proof (standard, goal_cases)
  case (1 s vb f ch ph kh s')
  then have "flash_append_record ram_flash_ops ser vb f ch ph kh s = (Inr (), s')" by (simp add: flash_store_def)
  with 1(1) show ?case by (cases rule: flash_append_cases) (simp_all add: flash_store_def)
next
  case (2 s vb f ch ph kh e s')
  then have "flash_append_record ram_flash_ops ser vb f ch ph kh s = (Inl e, s')" by (simp add: flash_store_def)
  with 2(1) show ?case by (cases rule: flash_append_cases) (use 2(1) in \<open>simp_all add: flash_store_def\<close>)
qed (simp_all add: flash_store_def flash_len_def flash_line_json_def)

section \<open>The life of a flash log\<close>

text \<open>
  A log on a blank medium, records appended or refused, and power cuts after any number of bytes of a
  line with the recovery after them; the records are those whose line was completed.
\<close>

definition flash_append :: "(serde \<Rightarrow> string) \<Rightarrow> mcu_wal_record \<Rightarrow> ram_flash flash_wal \<Rightarrow> (mcu_error + unit) \<times> ram_flash flash_wal" where
  "flash_append ser r st = op_append (flash_store ram_flash_ops ser)
     (mr_version_before r) (mr_fact r) (mr_content_hash r) (mr_prev_hash r) (mr_chain_hash r) st"

definition completed :: "(serde \<Rightarrow> string) \<Rightarrow> nat \<Rightarrow> mcu_wal_record \<Rightarrow> ram_flash flash_wal \<Rightarrow> mcu_wal_record list" where
  "completed ser k r st = (if length (mcu_line ser r) < k \<and> is_ok (fst (flash_append ser r st)) then [r] else [])"

inductive flash_life :: "(serde \<Rightarrow> string) \<Rightarrow> (string \<Rightarrow> string + serde) \<Rightarrow> ram_flash flash_wal \<Rightarrow> mcu_wal_record list \<Rightarrow> bool"
  for ser de where
  blank: "ram_flash_new ps pc = Some m \<Longrightarrow> 0 < pc \<Longrightarrow> ps * pc < 2 ^ 64 \<Longrightarrow> flash_open ram_flash_ops de m = Inr st \<Longrightarrow>
    flash_life ser de st []"
| appended: "flash_life ser de st rs \<Longrightarrow> flash_append ser r st = (Inr (), st') \<Longrightarrow> flash_life ser de st' (rs @ [r])"
| refused: "flash_life ser de st rs \<Longrightarrow> flash_append ser r st = (Inl e, st') \<Longrightarrow> flash_life ser de st' rs"
| cut: "flash_life ser de st rs \<Longrightarrow> flash_open ram_flash_ops de (power_cut ram_flash_ops ser k r st) = Inr st' \<Longrightarrow>
    flash_life ser de st' (rs @ completed ser k r st)"

lemma ram_sizes [simp]: "fm_page_size ram_flash_ops = rf_page_size" "fm_page_count ram_flash_ops = ram_page_count"
  by (simp_all add: ram_flash_ops_def)

lemma blank_holds:
  assumes "ram_flash_new ps pc = Some m" "0 < pc" "ps * pc < 2 ^ 64"
  shows "ram.holds de m []"
proof -
  have "0 < ps" "m = \<lparr>rf_data = replicate (ps * pc) 255, rf_page_size = ps\<rparr>"
    using assms(1,3) by (auto simp: ram_flash_new_def min_def split: if_splits)
  then show ?thesis
    using assms(2,3) by (simp add: ram.holds_def ram_valid_def ram_page_count_def layout_def mult.commute)
qed

lemma reopened:
  assumes "flash_inv ser de st"
  shows "flash_open ram_flash_ops de (fl_medium st) = Inr st"
proof -
  obtain pages where "ram.holds de (fl_medium st) pages" "st = store_at de (rf_page_size (fl_medium st)) (fl_medium st) pages"
    using assms by (auto simp: flash_inv_def)
  with ram.open_holds show ?thesis by fastforce
qed

lemma recovered_from_cut:
  assumes "flash_inv ser de st"
  shows "\<exists>st'. flash_open ram_flash_ops de (power_cut ram_flash_ops ser k r st) = Inr st' \<and> flash_inv ser de st' \<and>
    fl_lines st' = fl_lines st @ map (mcu_line ser) (completed ser k r st)"
proof -
  obtain pages where p: "ram.holds de (fl_medium st) pages" "st = store_at de (rf_page_size (fl_medium st)) (fl_medium st) pages"
    and lt: "line_text ser de" using assms by (auto simp: flash_inv_def)
  let ?m = "power_cut ram_flash_ops ser k r st" and ?st = "store_at de (rf_page_size (fl_medium st)) (fl_medium st) pages"
  obtain pages' where q: "ram.holds de ?m pages'" "lines_in pages' = lines_in pages @ map (mcu_line ser) (completed ser k r st)"
    using ram.cut_holds [OF p(1) mcu_line_good [OF lt, of r], of k] p(2)
    by (auto simp: completed_def flash_append_def flash_store_def split: if_splits)
  have "fl_lines st = lines_in pages" using arg_cong [OF p(2), of fl_lines] by (simp add: store_at_def)
  moreover have "flash_open ram_flash_ops de ?m = Inr (store_at de (rf_page_size ?m) ?m pages')"
    using ram.open_holds [OF q(1)] by simp
  moreover have "flash_inv ser de (store_at de (rf_page_size ?m) ?m pages')"
    by (rule flash_inv_store [OF lt q(1)])
  ultimately show ?thesis using q(2) by (auto simp: store_at_def)
qed

lemma flash_tail:
  assumes "flash_inv ser de st" "fl_lines st = map (mcu_line ser) rs"
  shows "fl_tail_hash st = (if rs = [] then ''genesis'' else mr_chain_hash (last rs))"
proof -
  obtain pages where p: "st = store_at de (rf_page_size (fl_medium st)) (fl_medium st) pages" and lt: "line_text ser de"
    using assms(1) by (auto simp: flash_inv_def)
  have "fl_tail_hash st = tail_after de ''genesis'' (fl_lines st)"
    using arg_cong [OF p, of fl_tail_hash] arg_cong [OF p, of fl_lines] by (simp add: store_at_def)
  then show ?thesis
    using assms(2) mcu_line_good(2) [OF lt] by (simp add: tail_after_def last_map)
qed

lemma flash_life_inv:
  assumes lt: "line_text ser de" and "flash_life ser de st rs"
  shows "flash_inv ser de st" "fl_lines st = map (mcu_line ser) rs"
  using assms(2)
proof (induction rule: flash_life.induct)
  case (blank ps pc m st)
  {
    case 1
    from ram.open_holds [OF blank_holds [OF blank(1-3)]] flash_inv_store [OF lt blank_holds [OF blank(1-3)]] blank(4)
    show ?case by simp
  next
    case 2
    from ram.open_holds [OF blank_holds [OF blank(1-3)]] blank(4) show ?case by (auto simp: store_at_def)
  }
next
  case (appended st rs r st')
  from flash_wal.append_frame [OF appended.IH(1) appended.hyps(2) [unfolded flash_append_def]] appended.IH(2)
  show "flash_inv ser de st'" "fl_lines st' = map (mcu_line ser) (rs @ [r])"
    by (simp_all add: is_ok_def mcu_line_def)
next
  case (refused st rs r e st')
  from flash_wal.append_frame [OF refused.IH(1) refused.hyps(2) [unfolded flash_append_def]] refused.IH(2)
  show "flash_inv ser de st'" "fl_lines st' = map (mcu_line ser) rs"
    by (simp_all add: is_ok_def)
next
  case (cut st rs k r st')
  from recovered_from_cut [OF cut.IH(1), of k r] cut.IH(2) cut.hyps(2)
  show "flash_inv ser de st'" "fl_lines st' = map (mcu_line ser) (rs @ completed ser k r st)" by auto
qed

text \<open>
  A printer and parser with these laws whose text for one chosen value is short: the unary one with the
  codes of that value and of zero exchanged.
\<close>

definition swap_code :: "nat \<Rightarrow> nat \<Rightarrow> nat" where
  "swap_code a n = (if n = 0 then a else if n = a then 0 else n)"

definition short_ser :: "serde \<Rightarrow> serde \<Rightarrow> string" where
  "short_ser v0 v = replicate (swap_code (to_nat v0) (to_nat v)) (CHR ''x'') @ ''chain_hash''"

definition short_de :: "serde \<Rightarrow> string \<Rightarrow> string + serde" where
  "short_de v0 s = Inr (from_nat (swap_code (to_nat v0) (length s - 10)))"

lemma short_text: "line_text (short_ser v0) (short_de v0)"
proof -
  have u: "utf8_valid (bytes_of (replicate n (CHR ''x'') @ ''chain_hash''))" for n
    by (induction n) (simp_all add: bytes_of_def)
  have "strip_ws ws_len (replicate n (CHR ''x'') @ ''chain_hash'') = replicate n (CHR ''x'') @ ''chain_hash''" for n
    by (cases n) (simp_all add: strip_ws_ascii)
  then have t: "trim (replicate n (CHR ''x'') @ ''chain_hash'') = replicate n (CHR ''x'') @ ''chain_hash''" for n
    unfolding trim_def by (simp add: strip_ws_ascii)
  have c: "contains ''chain_hash'' (replicate n (CHR ''x'') @ ''chain_hash'')" for n
    by (induction n) (simp_all add: starts_with_def)
  have "swap_code a (swap_code a n) = n" for a n by (simp add: swap_code_def)
  with u t c show ?thesis
    by (auto simp: line_text_def json_text_def short_ser_def short_de_def)
qed

definition sample_mcu_record :: mcu_wal_record where
  "sample_mcu_record = \<lparr>mr_version_before = 0, mr_fact = Stable 1 0, mr_content_hash = ''c'', mr_prev_hash = ''genesis'', mr_chain_hash = ''k''\<rparr>"

definition sample_object :: serde where
  "sample_object = serde_map [(''version_before'', num 0), (''fact'', fact_to_stable_json (Stable 1 0)), (''content_hash'', SString ''c''),
     (''prev_hash'', SString ''genesis''), (''chain_hash'', SString ''k'')]"

abbreviation "sample_ser \<equiv> short_ser sample_object"
abbreviation "sample_de \<equiv> short_de sample_object"

lemma sample_mcu_line [simp]: "mcu_line sample_ser sample_mcu_record = ''chain_hash''"
  by (simp add: mcu_line_def wal_line_json_def sample_mcu_record_def short_ser_def swap_code_def sample_object_def)

definition blank_ring :: "nat \<Rightarrow> nat \<Rightarrow> ram_flash" where
  "blank_ring ps pc = \<lparr>rf_data = replicate (ps * pc) 255, rf_page_size = ps\<rparr>"

lemma blank_ring_life:
  assumes "0 < ps" "0 < pc" "ps * pc < 2 ^ 64"
  shows "flash_life sample_ser sample_de (store_at sample_de ps (blank_ring ps pc) []) []"
proof -
  have n: "ram_flash_new ps pc = Some (blank_ring ps pc)"
    using assms by (simp add: ram_flash_new_def blank_ring_def min_def)
  from ram.open_holds [OF blank_holds [OF n assms(2,3)]]
  have "flash_open ram_flash_ops sample_de (blank_ring ps pc) = Inr (store_at sample_de ps (blank_ring ps pc) [])"
    by (simp add: blank_ring_def)
  then show ?thesis by (rule flash_life.blank [OF n assms(2,3)])
qed

lemma sample_appended:
  "\<exists>st. flash_append sample_ser sample_mcu_record (store_at sample_de 11 (blank_ring 11 2) []) = (Inr (), st)"
proof -
  let ?st = "store_at sample_de 11 (blank_ring 11 2) []" and ?r = sample_mcu_record
  have inv: "flash_inv sample_ser sample_de ?st"
    by (rule flash_life_inv(1) [OF short_text blank_ring_life]) simp_all
  obtain res st where a: "flash_append_record ram_flash_ops sample_ser (mr_version_before ?r) (mr_fact ?r) (mr_content_hash ?r)
      (mr_prev_hash ?r) (mr_chain_hash ?r) ?st = (res, st)" by fastforce
  from inv a have "res = Inr ()"
    by (cases rule: flash_append_cases)
      (simp_all add: store_at_def blank_ring_def ram_page_count_def flip: mcu_line_def)
  with a show ?thesis by (simp add: flash_append_def flash_store_def)
qed

section \<open>Properties\<close>

text \<open>
  C14: the flash log survives power cuts.  At any point of the life of a log, with power cuts after any
  number of programmed bytes before, the lines are those of the completed records in order, the tail is
  the hash of the last one, and opening the medium gives the store in memory with every field; and a
  further power cut at any byte of any append leaves a medium that opens again, with the new record
  exactly when its end mark had been programmed.
\<close>

theorem flash_survives_power_cuts:
  assumes "line_text ser de" "flash_life ser de st rs"
  shows "fl_lines st = map (mcu_line ser) rs \<and>
    fl_tail_hash st = (if rs = [] then ''genesis'' else mr_chain_hash (last rs)) \<and>
    flash_open ram_flash_ops de (fl_medium st) = Inr st \<and>
    (\<forall>r k. \<exists>st'. flash_open ram_flash_ops de (power_cut ram_flash_ops ser k r st) = Inr st' \<and>
      fl_lines st' = map (mcu_line ser) (rs @ (if length (mcu_line ser r) < k \<and> is_ok (fst (flash_append ser r st)) then [r] else [])))"
  using flash_life_inv [OF assms] flash_tail reopened recovered_from_cut unfolding completed_def by (metis map_append)

theorem flash_survives_power_cuts_witness:
  "(\<exists>st. flash_append sample_ser sample_mcu_record (store_at sample_de 11 (blank_ring 11 2) []) = (Inr (), st) \<and>
     fl_lines st = [''chain_hash''] \<and> flash_open ram_flash_ops sample_de (fl_medium st) = Inr st) \<and>
   (\<exists>st. flash_open ram_flash_ops sample_de (power_cut ram_flash_ops sample_ser 5 sample_mcu_record (store_at sample_de 11 (blank_ring 11 2) [])) = Inr st \<and>
     fl_lines st = [])"
proof -
  let ?st = "store_at sample_de 11 (blank_ring 11 2) []"
  have life: "flash_life sample_ser sample_de ?st []" by (rule blank_ring_life) simp_all
  obtain st where st: "flash_append sample_ser sample_mcu_record ?st = (Inr (), st)" using sample_appended by blast
  have "flash_life sample_ser sample_de st ([] @ [sample_mcu_record])" by (rule flash_life.appended [OF life st])
  from flash_survives_power_cuts [OF short_text this]
  have "fl_lines st = [''chain_hash'']" "flash_open ram_flash_ops sample_de (fl_medium st) = Inr st" by simp_all
  moreover have "\<exists>st'. flash_open ram_flash_ops sample_de (power_cut ram_flash_ops sample_ser 5 sample_mcu_record ?st) = Inr st' \<and>
      fl_lines st' = map (mcu_line sample_ser) ([] @ (if length (mcu_line sample_ser sample_mcu_record) < 5 \<and>
        is_ok (fst (flash_append sample_ser sample_mcu_record ?st)) then [sample_mcu_record] else []))"
    using flash_survives_power_cuts [OF short_text life] by blast
  ultimately show ?thesis using st by simp
qed

text \<open>
  The log never fails silently and never for another reason than its size.  An append that is refused
  leaves the store as it is; it is refused only when the line with its end mark is longer than a page,
  or when it does not fit behind the last line and the last page of the ring is in use; the medium never
  reports a range, programming or corruption error.
\<close>

theorem flash_refuses_only_for_size:
  assumes "line_text ser de" "flash_life ser de st rs" "flash_append ser r st = (Inl e, st')"
  shows "st' = st \<and>
    (e = WalRecordTooLarge (length (mcu_line ser r) + 1) (fl_page_size st) \<and> fl_page_size st < length (mcu_line ser r) + 1 \<or>
     e = WalFull \<and> length (mcu_line ser r) + 1 \<le> fl_page_size st \<and> fl_active_page st + 1 = ram_page_count (fl_medium st) \<and>
       (fl_polluted st \<or> fl_page_size st < fl_write_offset st + (length (mcu_line ser r) + 1)))"
proof -
  have "flash_append_record ram_flash_ops ser (mr_version_before r) (mr_fact r) (mr_content_hash r) (mr_prev_hash r) (mr_chain_hash r) st =
      (Inl e, st')" using assms(3) by (simp add: flash_append_def flash_store_def)
  with flash_life_inv(1) [OF assms(1,2)] show ?thesis
    by (cases rule: flash_append_cases) (simp_all add: mcu_line_def)
qed

theorem flash_refuses_only_for_size_witness:
  "flash_append sample_ser sample_mcu_record (store_at sample_de 5 (blank_ring 5 1) []) =
     (Inl (WalRecordTooLarge 11 5), store_at sample_de 5 (blank_ring 5 1) [])"
proof -
  let ?st = "store_at sample_de 5 (blank_ring 5 1) []"
  have life: "flash_life sample_ser sample_de ?st []" by (rule blank_ring_life) simp_all
  obtain e where e: "flash_append sample_ser sample_mcu_record ?st = (Inl e, ?st)"
    by (simp add: flash_append_def flash_store_def flash_append_record_def prepare_page_def store_at_def Let_def flip: mcu_line_def)
  from flash_refuses_only_for_size [OF short_text life e] have "e = WalRecordTooLarge 11 5"
    by (auto simp: store_at_def)
  with e show ?thesis by simp
qed

text \<open>
  The two backends are interchangeable.  A RAM log with the records of a flash log answers every
  query as the flash log does: length, tail hash and the line of every index, the errors included.
\<close>

theorem backends_agree:
  assumes "line_text ser de" "flash_life ser de st rs"
  shows "op_len (flash_store ram_flash_ops ser) st = op_len (ram_store ser) \<lparr>ram_records = rs\<rparr> \<and>
    op_tail (flash_store ram_flash_ops ser) st = op_tail (ram_store ser) \<lparr>ram_records = rs\<rparr> \<and>
    op_line (flash_store ram_flash_ops ser) i st = op_line (ram_store ser) i \<lparr>ram_records = rs\<rparr>"
proof -
  note inv = flash_life_inv [OF assms]
  show ?thesis
    using flash_wal.op_len [OF inv(1)] flash_wal.op_line [OF inv(1), of i] ram_wal.op_len [where s = "\<lparr>ram_records = rs\<rparr>" and ser = ser]
      ram_wal.op_line [where s = "\<lparr>ram_records = rs\<rparr>" and ser = ser and i = i] flash_tail [OF inv] inv(2)
    by (simp add: flash_store_def ram_store_def ram_chain_tail_hash_def)
qed

theorem backends_agree_witness:
  "op_line (flash_store ram_flash_ops sample_ser) 0 (snd (flash_append sample_ser sample_mcu_record (store_at sample_de 11 (blank_ring 11 2) []))) =
     op_line (ram_store sample_ser) 0 \<lparr>ram_records = [sample_mcu_record]\<rparr>"
proof -
  let ?st = "store_at sample_de 11 (blank_ring 11 2) []"
  have life: "flash_life sample_ser sample_de ?st []" by (rule blank_ring_life) simp_all
  obtain st where st: "flash_append sample_ser sample_mcu_record ?st = (Inr (), st)" using sample_appended by blast
  have "flash_life sample_ser sample_de st ([] @ [sample_mcu_record])" by (rule flash_life.appended [OF life st])
  from backends_agree [OF short_text this, of 0] st show ?thesis by simp
qed

end
