(* ===== verification/McuExec.thy ===== *)
theory McuExec
  imports McuWal
begin

text \<open>
  The synchronous executor of the microcontroller kernel: \<open>evorule-mcu/src/clock.rs\<close>, \<open>pack.rs\<close> (rule
  packs and their wire form) and \<open>exec.rs\<close>.  The executor is a record over the backend, which it reaches
  through the operations of \<open>store_ops\<close> only; a method that can fail is a function from the executor to a
  result and the executor after it, so the state an early return leaves behind is part of the model.
  \<open>postcard\<close> and the derived \<open>Debug\<close> form of a value are parameters.
\<close>

section \<open>The clock\<close>

definition clock_advance :: "u64 \<Rightarrow> u64" where
  "clock_advance t = saturating_add_u64 t 1"

section \<open>Rule packs\<close>

datatype wire_value =
    WNull
  | WBool bool
  | WInt i64
  | WStr string
  | WArray "wire_value list"
  | WObject "(string \<times> wire_value) list"
  | WUint u64

record wire_rules =
  wire_rules_of :: "wire_value list"

fun tcb_to_wire :: "json \<Rightarrow> wire_value" where
  "tcb_to_wire Null = WNull"
| "tcb_to_wire (Bool b) = WBool b"
| "tcb_to_wire (Integer i) = WInt i"
| "tcb_to_wire (U64 u) = WUint u"
| "tcb_to_wire (String s) = WStr s"
| "tcb_to_wire (Array arr) = WArray (map tcb_to_wire arr)"
| "tcb_to_wire (Object obj) = WObject (map (\<lambda>(k, v). (k, tcb_to_wire v)) obj)"

fun wire_to_tcb :: "wire_value \<Rightarrow> json" where
  "wire_to_tcb WNull = Null"
| "wire_to_tcb (WBool b) = Bool b"
| "wire_to_tcb (WInt i) = Integer i"
| "wire_to_tcb (WUint u) = U64 u"
| "wire_to_tcb (WStr s) = String s"
| "wire_to_tcb (WArray arr) = Array (map wire_to_tcb arr)"
| "wire_to_tcb (WObject ps) = Object (foldl (\<lambda>m (k, v). bt_put k v m) bt_new (map (\<lambda>(k, v). (k, wire_to_tcb v)) ps))"

text \<open>A rule pack is its list of rules.\<close>

type_synonym rule_pack = "json list"

definition from_rules :: "json list \<Rightarrow> mcu_error + rule_pack" where
  "from_rules rules =
     (if length rules > MAX_TRANSFORM_RULES
      then Inl (PackError (''rule count '' @ dec_nat (length rules) @ '' exceeds transform limit '' @ dec_nat MAX_TRANSFORM_RULES))
      else Inr rules)"

definition to_evopack :: "(wire_rules \<Rightarrow> string + byte list) \<Rightarrow> rule_pack \<Rightarrow> mcu_error + byte list" where
  "to_evopack encode pack =
     map_err (\<lambda>e. PackError (''postcard encode failed: '' @ e)) (encode \<lparr>wire_rules_of = map tcb_to_wire pack\<rparr>)"

definition from_evopack :: "(byte list \<Rightarrow> string + wire_rules) \<Rightarrow> byte list \<Rightarrow> mcu_error + rule_pack" where
  "from_evopack decode bytes =
     and_then (map_err (\<lambda>e. PackError (''postcard decode failed: '' @ e)) (decode bytes)) (\<lambda>wire.
     from_rules (map wire_to_tcb (wire_rules_of wire)))"

section \<open>The executor\<close>

definition DEFAULT_MAX_QUEUE_LEN :: nat where
  "DEFAULT_MAX_QUEUE_LEN = 1024"

definition DEFAULT_MAX_STEPS_PER_RUN :: u64 where
  "DEFAULT_MAX_STEPS_PER_RUN = 10000"

record run_report =
  steps_executed :: u64
  ticks :: u64
  report_version :: u64
  report_tail_hash :: string

record pending_io =
  pio_request_id :: u64
  pio_io_type :: string
  pio_params :: json

record pending_io_state =
  pend_request_id :: fact_id
  pend_io_type :: string
  pend_params :: json
  pend_instruction :: json
  pend_cause :: fact_id

record 's mcu_executor =
  mx_pack :: rule_pack
  mx_payload :: json
  mx_queue :: "(json \<times> fact_id) list"
  mx_version :: u64
  mx_next_fact_id :: u64
  mx_wal :: 's
  mx_clock :: u64
  mx_max_queue_len :: nat
  mx_max_steps :: u64
  mx_pendings :: "pending_io_state list"
  mx_io_recovery :: bool

text \<open>What an executor is used with: the backend, the hash function, the printers.\<close>

record 's mcu_env =
  env_ops :: "'s store_ops"
  env_blake3 :: "string \<Rightarrow> string"
  env_ser :: "serde \<Rightarrow> string"
  env_debug :: "json \<Rightarrow> string"

definition with_mcu_store :: "rule_pack \<Rightarrow> json \<Rightarrow> nat \<Rightarrow> u64 \<Rightarrow> 's \<Rightarrow> 's mcu_executor" where
  "with_mcu_store pack initial_payload max_queue max_steps w =
     \<lparr>mx_pack = pack, mx_payload = initial_payload, mx_queue = [], mx_version = 0, mx_next_fact_id = 0, mx_wal = w,
      mx_clock = 0, mx_max_queue_len = max_queue, mx_max_steps = max_steps, mx_pendings = [], mx_io_recovery = False\<rparr>"

definition with_options :: "rule_pack \<Rightarrow> json \<Rightarrow> nat \<Rightarrow> u64 \<Rightarrow> ram_wal_store mcu_executor" where
  "with_options pack initial_payload max_queue max_steps = with_mcu_store pack initial_payload max_queue max_steps ram_wal_new"

definition executor_new :: "rule_pack \<Rightarrow> ram_wal_store mcu_executor" where
  "executor_new pack = with_options pack empty_object DEFAULT_MAX_QUEUE_LEN DEFAULT_MAX_STEPS_PER_RUN"

subsection \<open>Methods that can fail\<close>

type_synonym ('s, 'a) act = "'s mcu_executor \<Rightarrow> (mcu_error + 'a) \<times> 's mcu_executor"

definition bind_act :: "('s, 'a) act \<Rightarrow> ('a \<Rightarrow> ('s, 'b) act) \<Rightarrow> ('s, 'b) act" where
  "bind_act a k e = (case a e of (Inl err, e') \<Rightarrow> (Inl err, e') | (Inr x, e') \<Rightarrow> k x e')"

definition ret :: "'a \<Rightarrow> ('s, 'a) act" where
  "ret x e = (Inr x, e)"

definition modify :: "('s mcu_executor \<Rightarrow> 's mcu_executor) \<Rightarrow> ('s, unit) act" where
  "modify g e = (Inr (), g e)"

definition next_fact :: "('s, fact_id) act" where
  "next_fact e =
     (if mx_next_fact_id e = - 1 then (Inl FactIdOverflow, e)
      else (Inr (mx_next_fact_id e + 1), e\<lparr>mx_next_fact_id := mx_next_fact_id e + 1\<rparr>))"

definition bump :: "('s, unit) act" where
  "bump e = (if mx_version e = - 1 then (Inl MVersionOverflow, e) else (Inr (), e\<lparr>mx_version := mx_version e + 1\<rparr>))"

definition append_fact :: "'s mcu_env \<Rightarrow> fact \<Rightarrow> ('s, unit) act" where
  "append_fact env f e =
     (let version_before = mx_version e;
          ch = fact_hash (env_blake3 env) (env_ser env) f;
          ph = op_tail (env_ops env) (mx_wal e);
          kh = chain_step (env_blake3 env) ph ch;
          (r, w) = op_append (env_ops env) version_before f ch ph kh (mx_wal e) in
      (r, e\<lparr>mx_wal := w\<rparr>))"

text \<open>A fresh identifier and the fact that carries it.\<close>

definition emit :: "'s mcu_env \<Rightarrow> (fact_id \<Rightarrow> fact) \<Rightarrow> ('s, fact_id) act" where
  "emit env mk = bind_act next_fact (\<lambda>i. bind_act (append_fact env (mk i)) (\<lambda>_. ret i))"

definition mcu_report :: "'s mcu_env \<Rightarrow> nat \<Rightarrow> 's mcu_executor \<Rightarrow> run_report" where
  "mcu_report env executed e =
     \<lparr>steps_executed = word_of_nat executed, ticks = word_of_nat executed, report_version = mx_version e,
      report_tail_hash = op_tail (env_ops env) (mx_wal e)\<rparr>"

subsection \<open>One instruction\<close>

definition mcu_inject_io_result :: "string \<Rightarrow> json \<Rightarrow> json \<Rightarrow> json" where
  "mcu_inject_io_result io_type res p =
     (let m = (case p of Object m \<Rightarrow> m | _ \<Rightarrow> bt_new);
          m1 = (if bt_contains ''__io_results__'' m then m else bt_put ''__io_results__'' empty_object m) in
      Object (case bt_get ''__io_results__'' m1 of
                Some (Object c) \<Rightarrow> bt_put ''__io_results__'' (Object (bt_put io_type res c)) m1
              | _ \<Rightarrow> m1))"

text \<open>The queue after a transition: what was pushed gets the current cause, the rest keeps its own.\<close>

definition align_causes :: "fact_id \<Rightarrow> (json \<times> fact_id) list \<Rightarrow> json list \<Rightarrow> (json \<times> fact_id) list" where
  "align_causes cause old new_queue =
     (let old_causes = map snd old; new_count = length new_queue - length old in
      map (\<lambda>i. (new_queue ! i, if i < new_count then cause else unwrap_or cause (list_get old_causes (i - new_count))))
        [0..<length new_queue])"

definition clear_recovery :: "'s mcu_executor \<Rightarrow> 's mcu_executor" where
  "clear_recovery e =
     (if mx_io_recovery e
      then e\<lparr>mx_payload := (case mx_payload e of Object m \<Rightarrow> Object (bt_del ''__io_results__'' m) | p \<Rightarrow> p), mx_io_recovery := False\<rparr>
      else e)"

text \<open>An error, an empty queue and a stable mark: how a limit ends a run.\<close>

definition abandon_run :: "'s mcu_env \<Rightarrow> string \<Rightarrow> nat \<Rightarrow> ('s, run_report option) act" where
  "abandon_run env msg executed =
     bind_act (emit env (\<lambda>i. Error i msg)) (\<lambda>_.
     bind_act (modify (\<lambda>e. e\<lparr>mx_queue := []\<rparr>)) (\<lambda>_ e.
     bind_act (emit env (\<lambda>i. Stable i (mx_version e))) (\<lambda>_ e'. (Inr (Some (mcu_report env executed e')), e')) e))"

definition mcu_apply_transition :: "'s mcu_env \<Rightarrow> fact_id \<Rightarrow> nat \<Rightarrow> json \<Rightarrow> json list \<Rightarrow> rule_hit list \<Rightarrow> ('s, run_report option) act" where
  "mcu_apply_transition env cause executed new_payload new_queue hits e =
     (let e1 = e\<lparr>mx_payload := new_payload, mx_queue := align_causes cause (mx_queue e) new_queue\<rparr>;
          n = length (mx_queue e1) in
      if mx_max_queue_len e1 > 0 \<and> n \<ge> mx_max_queue_len e1
      then abandon_run env (''Queue length '' @ dec_nat n @ '' exceeds max '' @ dec_nat (mx_max_queue_len e1)) executed e1
      else
        (let e2 = clear_recovery e1 in
         bind_act (emit env (\<lambda>i. StateTransition i cause (mx_payload e2) (map fst (mx_queue e2)))) (\<lambda>st_id.
         bind_act bump (\<lambda>_.
         bind_act (emit env (\<lambda>i. TransitionTrace i st_id (map from_rule_hit hits))) (\<lambda>_. ret None))) e2))"

definition mcu_exec_instruction :: "'s mcu_env \<Rightarrow> json \<Rightarrow> fact_id \<Rightarrow> nat \<Rightarrow> nat \<Rightarrow> ('s, run_report option) act" where
  "mcu_exec_instruction env instr cause step executed e =
     (case execute_transition (mx_pack e) instr (mx_payload e) (map fst (mx_queue e)) of
        Inr (TState new_payload new_queue hits) \<Rightarrow> mcu_apply_transition env cause executed new_payload new_queue hits e
      | Inr (TIgnored instruction_type reason hits) \<Rightarrow>
          bind_act (emit env (\<lambda>i. Error i (''Instruction ignored by TCB: type='' @ instruction_type @ '', reason='' @ reason
            @ '', instruction='' @ env_debug env instr))) (\<lambda>err_id.
          bind_act (emit env (\<lambda>i. TransitionTrace i err_id (map from_rule_hit hits))) (\<lambda>_. ret None)) e
      | Inr (THalted rule_index reason) \<Rightarrow>
          bind_act (emit env (\<lambda>i. Violation i cause (word_of_nat rule_index) reason instr)) (\<lambda>_. ret None) e
      | Inr (TIoRequired io_type params) \<Rightarrow>
          bind_act (emit env (\<lambda>i. IoRequest i cause io_type params)) (\<lambda>i.
          bind_act (modify (\<lambda>e. e\<lparr>mx_pendings := mx_pendings e @
            [\<lparr>pend_request_id = i, pend_io_type = io_type, pend_params = params, pend_instruction = instr, pend_cause = cause\<rparr>]\<rparr>)) (\<lambda>_ e'.
          (Inl (IoPaused i io_type), e'))) e
      | Inl err \<Rightarrow>
          bind_act (emit env (\<lambda>i. Error i (''TCB error at step '' @ dec_nat step @ '': '' @ tcb_error_display err
            @ '' (instruction: '' @ env_debug env instr @ '')''))) (\<lambda>_. ret None) e)"

subsection \<open>The loop\<close>

text \<open>
  One pass for a queue that is not empty, and what follows when it is empty.  The counters of steps are
  natural numbers: they stay below the number of identifiers.
\<close>

definition drain_pass :: "'s mcu_env \<Rightarrow> nat \<Rightarrow> nat \<Rightarrow> json \<Rightarrow> fact_id \<Rightarrow> ('s, run_report option) act" where
  "drain_pass env step executed instr cause e =
     (if mx_max_steps e > 0 \<and> step \<ge> unat (mx_max_steps e)
      then abandon_run env (''max steps per run exceeded: '' @ dec_nat (unat (mx_max_steps e))) executed e
      else mcu_exec_instruction env instr cause (step + 1) (executed + 1) (e\<lparr>mx_clock := clock_advance (mx_clock e)\<rparr>))"

definition finish_drain :: "'s mcu_env \<Rightarrow> nat \<Rightarrow> nat \<Rightarrow> ('s, run_report) act" where
  "finish_drain env step executed e =
     (if step > 0
      then bind_act (emit env (\<lambda>i. Stable i (mx_version e))) (\<lambda>_ e'. (Inr (mcu_report env executed e'), e')) e
      else (Inr (mcu_report env executed e), e))"

subsubsection \<open>Every pass consumes an identifier\<close>

text \<open>
  A relation between the executor before and after that every part of a method keeps, the methods
  keep; this is used for the identifiers here and for the log below.
\<close>

definition keeps :: "('s mcu_executor \<Rightarrow> 's mcu_executor \<Rightarrow> bool) \<Rightarrow> ('s, 'a) act \<Rightarrow> bool" where
  "keeps R a \<longleftrightarrow> (\<forall>e. R e (snd (a e)))"

lemma keepsD: "keeps R a \<Longrightarrow> a e = (r, e') \<Longrightarrow> R e e'"
  by (metis keeps_def snd_conv)

lemma keeps_bind:
  assumes "transp R" "keeps R a" "\<And>x. keeps R (k x)"
  shows "keeps R (bind_act a k)"
  unfolding keeps_def
proof
  fix e
  obtain r e' where a: "a e = (r, e')" by fastforce
  have "R e e'" using keepsD [OF assms(2) a] .
  moreover have "R e' (snd (k x e'))" for x using assms(3) by (simp add: keeps_def)
  ultimately show "R e (snd (bind_act a k e))"
    using transpD [OF assms(1)] by (cases r) (auto simp: bind_act_def a)
qed

lemma keeps_ret: "reflp R \<Longrightarrow> keeps R (ret x)"
  by (simp add: keeps_def ret_def reflpD)

lemma keeps_modify: "(\<And>e. R e (g e)) \<Longrightarrow> keeps R (modify g)"
  by (simp add: keeps_def modify_def)

text \<open>
  The facts an executor emits; what a relation has to be kept by, for all methods to keep it.
\<close>

locale kept =
  fixes env :: "'s mcu_env" and R :: "'s mcu_executor \<Rightarrow> 's mcu_executor \<Rightarrow> bool"
  assumes refl: "reflp R" and trans: "transp R"
    and emit: "(\<And>i. fact_id_of (mk i) = i) \<Longrightarrow> keeps R (emit env mk)"
    and bump: "keeps R bump"
    and fields: "R e e' \<longleftrightarrow> R e (e'\<lparr>mx_payload := p, mx_queue := q, mx_clock := c, mx_pendings := ps, mx_io_recovery := b\<rparr>)"
begin

lemma frame:
  assumes "mx_pack e' = mx_pack e" "mx_version e' = mx_version e" "mx_next_fact_id e' = mx_next_fact_id e" "mx_wal e' = mx_wal e"
    "mx_max_queue_len e' = mx_max_queue_len e" "mx_max_steps e' = mx_max_steps e"
  shows "R e e'"
proof -
  have "e' = e\<lparr>mx_payload := mx_payload e', mx_queue := mx_queue e', mx_clock := mx_clock e', mx_pendings := mx_pendings e',
      mx_io_recovery := mx_io_recovery e'\<rparr>" using assms by simp
  then show ?thesis using fields reflpD [OF refl] by metis
qed

lemma then_keeps: "R e e1 \<Longrightarrow> keeps R a \<Longrightarrow> R e (snd (a e1))"
  using transpD [OF trans] by (auto simp: keeps_def)

lemma keeps_read: "(\<And>e. keeps R (k e)) \<Longrightarrow> keeps R (\<lambda>e. k e e)"
  by (simp add: keeps_def)

lemma keeps_report: "keeps R (\<lambda>e. (f e, e))"
  by (simp add: keeps_def reflpD [OF refl])

lemmas keeps_intros = keeps_bind [OF trans] keeps_ret [OF refl] keeps_modify keeps_report emit bump

lemma abandon_run: "keeps R (abandon_run env msg n)"
  unfolding abandon_run_def
  by (intro keeps_intros frame keeps_read [where k = "\<lambda>e. bind_act (McuExec.emit env (\<lambda>i. Stable i (mx_version e))) _"]) simp_all

lemma apply_transition: "keeps R (mcu_apply_transition env cause n p q hits)"
  unfolding keeps_def
proof
  fix e :: "'s mcu_executor"
  let ?e1 = "e\<lparr>mx_payload := p, mx_queue := align_causes cause (mx_queue e) q\<rparr>"
  have c: "R e (clear_recovery ?e1)" by (rule frame) (simp_all add: clear_recovery_def)
  have e1: "R e ?e1" by (rule frame) simp_all
  have ab: "R e (snd (abandon_run env msg n ?e1))" for msg by (rule then_keeps [OF e1 abandon_run])
  have ok: "R e (snd (bind_act (McuExec.emit env (\<lambda>i. StateTransition i cause pl qu)) (\<lambda>j. bind_act McuExec.bump (\<lambda>_.
      bind_act (McuExec.emit env (\<lambda>i. TransitionTrace i j hs)) (\<lambda>_. ret None))) (clear_recovery ?e1)))" for pl qu hs
    by (intro then_keeps [OF c] keeps_intros) simp_all
  show "R e (snd (mcu_apply_transition env cause n p q hits e))"
    unfolding mcu_apply_transition_def Let_def by (simp only: ab ok split: if_split) blast
qed

lemma exec_instruction: "keeps R (mcu_exec_instruction env instr cause st n)"
proof -
  have io: "keeps R (bind_act (McuExec.emit env (\<lambda>i. IoRequest i cause ty ps)) (\<lambda>i.
      bind_act (modify (\<lambda>e. e\<lparr>mx_pendings := mx_pendings e @ [f i]\<rparr>)) (\<lambda>_ e'. (Inl (IoPaused i ty), e'))))" for ty ps f
    by (intro keeps_intros frame) simp_all
  have ig: "keeps R (bind_act (McuExec.emit env (\<lambda>i. Error i msg)) (\<lambda>j.
      bind_act (McuExec.emit env (\<lambda>i. TransitionTrace i j hs)) (\<lambda>_. ret None)))" for msg hs
    by (intro keeps_intros) simp_all
  have one: "keeps R (bind_act (McuExec.emit env (\<lambda>i. Error i msg)) (\<lambda>_. ret None))"
    "keeps R (bind_act (McuExec.emit env (\<lambda>i. Violation i cause k reason instr)) (\<lambda>_. ret None))" for msg k reason
    by (intro keeps_intros; simp)+
  note all = io ig one apply_transition
  show ?thesis
    unfolding keeps_def
  proof
    fix e :: "'s mcu_executor"
    show "R e (snd (mcu_exec_instruction env instr cause st n e))"
    proof (cases "execute_transition (mx_pack e) instr (mx_payload e) (map fst (mx_queue e))")
      case (Inl err)
      show ?thesis
        unfolding mcu_exec_instruction_def Inl sum.case by (rule spec [OF one(1) [unfolded keeps_def]])
    next
      case (Inr t)
      show ?thesis
        unfolding mcu_exec_instruction_def Inr sum.case
        by (cases t; simp only: transition_result.case; rule spec [OF all(1) [unfolded keeps_def]]
            spec [OF all(2) [unfolded keeps_def]] spec [OF all(4) [unfolded keeps_def]] spec [OF all(5) [unfolded keeps_def]])
    qed
  qed
qed

lemma drain_pass: "keeps R (drain_pass env st n instr cause)"
  unfolding keeps_def
proof
  fix e :: "'s mcu_executor"
  have "R e (snd (mcu_exec_instruction env instr cause s m (e\<lparr>mx_clock := c\<rparr>)))" for s m c
    by (intro then_keeps exec_instruction frame) simp_all
  then show "R e (snd (drain_pass env st n instr cause e))"
    using abandon_run by (simp add: drain_pass_def keeps_def)
qed

lemma finish_drain: "keeps R (finish_drain env st n)"
proof -
  have "keeps R (\<lambda>e. bind_act (McuExec.emit env (\<lambda>i. Stable i (mx_version e))) (\<lambda>_ e'. (Inr (mcu_report env n e'), e')) e)"
    by (intro keeps_read [where k = "\<lambda>e. bind_act (McuExec.emit env (\<lambda>i. Stable i (mx_version e))) _"] keeps_intros) simp
  then show ?thesis by (simp add: keeps_def finish_drain_def reflpD [OF refl])
qed

end

text \<open>Identifiers never go back, and a pass that goes on has used at least one.\<close>

definition ids_grow :: "'s mcu_executor \<Rightarrow> 's mcu_executor \<Rightarrow> bool" where
  "ids_grow e e' \<longleftrightarrow> mx_next_fact_id e \<le> mx_next_fact_id e' \<and> mx_max_steps e' = mx_max_steps e"

lemma next_fact_cases:
  obtains "mx_next_fact_id e = - 1" "next_fact e = (Inl FactIdOverflow, e)"
  | "unat (mx_next_fact_id e + 1) = unat (mx_next_fact_id e) + 1"
    "next_fact e = (Inr (mx_next_fact_id e + 1), e\<lparr>mx_next_fact_id := mx_next_fact_id e + 1\<rparr>)"
proof (cases "mx_next_fact_id e = - 1")
  case False
  then have "1 + mx_next_fact_id e \<noteq> 0" by (metis add.commute add_eq_0_iff)
  from unatSuc [OF this] False that(2) show thesis by (simp add: next_fact_def add.commute)
qed (use that(1) in \<open>simp add: next_fact_def\<close>)

lemma append_fact_fields [simp]:
  "mx_next_fact_id (snd (append_fact env f e)) = mx_next_fact_id e" "mx_max_steps (snd (append_fact env f e)) = mx_max_steps e"
  "mx_version (snd (append_fact env f e)) = mx_version e"
  by (simp_all add: append_fact_def Let_def split: prod.split)

text \<open>What emitting a fact does: no identifier left, or the fact is offered to the backend under the next one.\<close>

lemma emit_cases:
  obtains (exhausted) "mx_next_fact_id e = - 1" "emit env mk e = (Inl FactIdOverflow, e)"
  | (offered) res e' where "unat (mx_next_fact_id e + 1) = unat (mx_next_fact_id e) + 1"
    "append_fact env (mk (mx_next_fact_id e + 1)) (e\<lparr>mx_next_fact_id := mx_next_fact_id e + 1\<rparr>) = (res, e')"
    "emit env mk e = (map_ok (\<lambda>_. mx_next_fact_id e + 1) res, e')"
proof (cases rule: next_fact_cases [of e])
  case 1
  then show thesis using exhausted by (simp add: emit_def bind_act_def)
next
  case 2
  obtain res e' where a: "append_fact env (mk (mx_next_fact_id e + 1)) (e\<lparr>mx_next_fact_id := mx_next_fact_id e + 1\<rparr>) = (res, e')"
    by fastforce
  with 2 show thesis
    by (intro offered [of res e']) (cases res; simp add: emit_def bind_act_def ret_def map_ok_def)+
qed

lemma emit_ids:
  assumes "emit env mk e = (res, e')"
  shows "ids_grow e e'" "res = Inr i \<Longrightarrow> mx_next_fact_id e < mx_next_fact_id e'"
proof -
  have "ids_grow e e' \<and> (\<forall>i. res = Inr i \<longrightarrow> mx_next_fact_id e < mx_next_fact_id e')"
  proof (cases rule: emit_cases [of e env mk])
    case exhausted
    with assms show ?thesis by (auto simp: ids_grow_def)
  next
    case (offered r e1)
    have "mx_next_fact_id e1 = mx_next_fact_id e + 1" "mx_max_steps e1 = mx_max_steps e"
      using arg_cong [OF offered(2), of "\<lambda>x. mx_next_fact_id (snd x)"] arg_cong [OF offered(2), of "\<lambda>x. mx_max_steps (snd x)"] by simp_all
    with offered(1,3) assms show ?thesis by (auto simp: ids_grow_def word_less_nat_alt word_le_nat_alt)
  qed
  then show "ids_grow e e'" "res = Inr i \<Longrightarrow> mx_next_fact_id e < mx_next_fact_id e'" by blast+
qed

interpretation ids: kept env ids_grow
proof (standard, goal_cases)
  case 1
  show ?case by (simp add: reflp_def ids_grow_def)
next
  case 2
  show ?case by (auto simp: transp_def ids_grow_def)
next
  case (3 mk)
  show ?case unfolding keeps_def using emit_ids(1) by (metis prod.collapse)
next
  case 4
  show ?case by (simp add: keeps_def bump_def ids_grow_def)
next
  case (5 e e' p q c ps b)
  show ?case by (simp add: ids_grow_def)
qed

lemma bind_actE:
  assumes "bind_act a k e = (Inr x, e')"
  obtains y e1 where "a e = (Inr y, e1)" "k y e1 = (Inr x, e')"
  using assms by (auto simp: bind_act_def split: prod.splits sum.splits)

lemma emit_then_uses_id:
  assumes "bind_act (emit env mk) k e = (Inr x, e')" "\<And>i. keeps ids_grow (k i)"
  shows "mx_next_fact_id e < mx_next_fact_id e'"
proof -
  obtain i e1 where e1: "emit env mk e = (Inr i, e1)" "k i e1 = (Inr x, e')" using assms(1) by (rule bind_actE)
  from emit_ids(2) [OF e1(1)] keepsD [OF assms(2) e1(2)] show ?thesis by (auto simp: ids_grow_def)
qed

lemma abandon_run_ends: "abandon_run env msg n e \<noteq> (Inr None, e')"
  by (auto simp: abandon_run_def elim!: bind_actE)

lemma exec_instruction_uses_id:
  assumes "mcu_exec_instruction env instr cause st n e = (Inr None, e')"
  shows "mx_next_fact_id e < mx_next_fact_id e'"
proof (cases "execute_transition (mx_pack e) instr (mx_payload e) (map fst (mx_queue e))")
  case (Inl err)
  from emit_then_uses_id [OF assms [unfolded mcu_exec_instruction_def Inl sum.case]] show ?thesis
    by (simp add: ids.keeps_intros)
next
  case (Inr t)
  note eq = assms [unfolded mcu_exec_instruction_def Inr sum.case]
  show ?thesis
  proof (cases t)
    case (TState p q hits)
    note tr = eq [unfolded TState transition_result.case mcu_apply_transition_def Let_def]
    let ?e1 = "e\<lparr>mx_payload := p, mx_queue := align_causes cause (mx_queue e) q\<rparr>"
    have "mx_next_fact_id (clear_recovery ?e1) = mx_next_fact_id e" by (simp add: clear_recovery_def)
    moreover have "mx_next_fact_id (clear_recovery ?e1) < mx_next_fact_id e'"
      using tr by (auto simp: abandon_run_ends split: if_splits intro!: ids.keeps_intros elim!: emit_then_uses_id)
    ultimately show ?thesis by simp
  next
    case (TIgnored ty reason hits)
    from emit_then_uses_id [OF eq [unfolded TIgnored transition_result.case]] show ?thesis
      by (simp add: ids.keeps_intros)
  next
    case (THalted k reason)
    from emit_then_uses_id [OF eq [unfolded THalted transition_result.case]] show ?thesis
      by (simp add: ids.keeps_intros)
  next
    case (TIoRequired ty ps)
    with eq show ?thesis by (auto elim!: bind_actE)
  qed
qed

lemma drain_pass_goes_on:
  assumes "drain_pass env st n instr cause e = (Inr None, e')"
  shows "mx_next_fact_id e < mx_next_fact_id e'" "mx_max_steps e' = mx_max_steps e"
    "mx_max_steps e > 0 \<Longrightarrow> st < unat (mx_max_steps e)"
proof -
  have go: "\<not> (mx_max_steps e > 0 \<and> st \<ge> unat (mx_max_steps e))"
    "mcu_exec_instruction env instr cause (st + 1) (n + 1) (e\<lparr>mx_clock := clock_advance (mx_clock e)\<rparr>) = (Inr None, e')"
    using assms by (auto simp: drain_pass_def abandon_run_ends split: if_splits)
  from exec_instruction_uses_id [OF go(2)] show "mx_next_fact_id e < mx_next_fact_id e'" by simp
  from keepsD [OF ids.drain_pass assms] show "mx_max_steps e' = mx_max_steps e" by (simp add: ids_grow_def)
  from go(1) show "mx_max_steps e > 0 \<Longrightarrow> st < unat (mx_max_steps e)" by auto
qed

text \<open>
  The loop ends, even without a limit of steps: a pass that goes on has taken an identifier, and there
  are no more than \<open>2 ^ 64\<close> of them.
\<close>

function mcu_drain :: "'s mcu_env \<Rightarrow> nat \<Rightarrow> nat \<Rightarrow> ('s, run_report) act" where
  "mcu_drain env step executed e =
     (case mx_queue e of
        [] \<Rightarrow> finish_drain env step executed e
      | (instr, cause) # rest \<Rightarrow>
          (case drain_pass env step executed instr cause (e\<lparr>mx_queue := rest\<rparr>) of
             (Inl err, e') \<Rightarrow> (Inl err, e')
           | (Inr (Some rep), e') \<Rightarrow> (Inr rep, e')
           | (Inr None, e') \<Rightarrow> mcu_drain env (step + 1) (executed + 1) e'))"
  by pat_completeness auto
termination
proof (relation "measure (\<lambda>(env, step, executed, e). 2 ^ 64 - unat (mx_next_fact_id e))", goal_cases)
  case (2 env step executed e p rest instr cause r e' r')
  then have "drain_pass env step executed instr cause (e\<lparr>mx_queue := rest\<rparr>) = (Inr None, e')" by simp
  from drain_pass_goes_on(1) [OF this] have "unat (mx_next_fact_id e) < unat (mx_next_fact_id e')"
    by (simp add: word_less_nat_alt)
  moreover have "unat (mx_next_fact_id e') < 2 ^ 64" using unsigned_less [of "mx_next_fact_id e'"] by simp
  ultimately show ?case by simp
qed simp

declare mcu_drain.simps [simp del]

lemma drain_cases:
  obtains (finished) "mx_queue e = []" "mcu_drain env step executed e = finish_drain env step executed e"
  | (stopped) instr cause rest err e' where "mx_queue e = (instr, cause) # rest"
      "drain_pass env step executed instr cause (e\<lparr>mx_queue := rest\<rparr>) = (Inl err, e')" "mcu_drain env step executed e = (Inl err, e')"
  | (abandoned) instr cause rest rep e' where "mx_queue e = (instr, cause) # rest"
      "drain_pass env step executed instr cause (e\<lparr>mx_queue := rest\<rparr>) = (Inr (Some rep), e')" "mcu_drain env step executed e = (Inr rep, e')"
  | (again) instr cause rest e' where "mx_queue e = (instr, cause) # rest"
      "drain_pass env step executed instr cause (e\<lparr>mx_queue := rest\<rparr>) = (Inr None, e')"
      "mcu_drain env step executed e = mcu_drain env (step + 1) (executed + 1) e'"
proof (cases "mx_queue e")
  case Nil
  then show thesis using finished by (simp add: mcu_drain.simps [of env step executed e])
next
  case (Cons p rest)
  obtain instr cause where p: "p = (instr, cause)" by fastforce
  obtain r e' where d: "drain_pass env step executed instr cause (e\<lparr>mx_queue := rest\<rparr>) = (r, e')" by fastforce
  note eq = mcu_drain.simps [of env step executed e]
  show thesis
  proof (cases r)
    case (Inl err)
    with Cons p d eq show thesis by (intro stopped [of instr cause rest err e']) simp_all
  next
    case (Inr x)
    with Cons p d eq show thesis by (cases x) (auto intro: abandoned again)
  qed
qed

definition mcu_run :: "'s mcu_env \<Rightarrow> json \<Rightarrow> ('s, run_report) act" where
  "mcu_run env instruction =
     bind_act (emit env (\<lambda>i. Command i instruction)) (\<lambda>i.
     bind_act (modify (\<lambda>e. e\<lparr>mx_queue := mx_queue e @ [(instruction, i)]\<rparr>)) (\<lambda>_.
     mcu_drain env 0 0))"

text \<open>The first pending request with the identifier, and the others.\<close>

fun take_pending :: "u64 \<Rightarrow> pending_io_state list \<Rightarrow> (pending_io_state \<times> pending_io_state list) option" where
  "take_pending i [] = None"
| "take_pending i (p # ps) = (if pend_request_id p = i then Some (p, ps) else map_option (\<lambda>(q, qs). (q, p # qs)) (take_pending i ps))"

definition accept_outcome :: "'s mcu_env \<Rightarrow> u64 \<Rightarrow> json \<Rightarrow> string option \<Rightarrow> ('s, unit) act" where
  "accept_outcome env request_id res err e =
     (case take_pending request_id (mx_pendings e) of
        None \<Rightarrow>
          bind_act (emit env (\<lambda>i. Error i (''IoResponse for unknown/stale request_id '' @ dec_nat (unat request_id) @
            '' ignored (duplicate, late-after-timeout, or forged)''))) (\<lambda>_. ret ()) e
      | Some (p, ps) \<Rightarrow>
          (let e1 = e\<lparr>mx_pendings := ps\<rparr> in
           if is_null res \<or> err \<noteq> None then bump e1
           else bump (e1\<lparr>mx_payload := mcu_inject_io_result (pend_io_type p) res (mx_payload e1),
                         mx_queue := (pend_instruction p, pend_cause p) # mx_queue e1, mx_io_recovery := True\<rparr>)))"

definition resume_io :: "'s mcu_env \<Rightarrow> u64 \<Rightarrow> string + json \<Rightarrow> ('s, run_report) act" where
  "resume_io env request_id oc =
     (let (res, err) = (case oc of Inr v \<Rightarrow> (v, None) | Inl msg \<Rightarrow> (Null, Some msg)) in
      bind_act (emit env (\<lambda>i. IoResponse i request_id res err)) (\<lambda>_.
      bind_act (accept_outcome env request_id res err) (\<lambda>_.
      mcu_drain env 0 0)))"

definition pending_ios :: "'s mcu_executor \<Rightarrow> pending_io list" where
  "pending_ios e = map (\<lambda>p. \<lparr>pio_request_id = pend_request_id p, pio_io_type = pend_io_type p, pio_params = pend_params p\<rparr>) (mx_pendings e)"

section \<open>The log of an executor\<close>

text \<open>Records that continue a chain from a hash, and the hash they lead to.\<close>

fun linked :: "(string \<Rightarrow> string) \<Rightarrow> (serde \<Rightarrow> string) \<Rightarrow> string \<Rightarrow> mcu_wal_record list \<Rightarrow> bool" where
  "linked blake3 ser h [] = True"
| "linked blake3 ser h (r # rs) =
     (mr_prev_hash r = h \<and> mr_content_hash r = fact_hash blake3 ser (mr_fact r) \<and>
      mr_chain_hash r = chain_step blake3 h (mr_content_hash r) \<and> linked blake3 ser (mr_chain_hash r) rs)"

definition head_after :: "string \<Rightarrow> mcu_wal_record list \<Rightarrow> string" where
  "head_after h rs = (if rs = [] then h else mr_chain_hash (last rs))"

abbreviation record_ids :: "mcu_wal_record list \<Rightarrow> fact_id list" where
  "record_ids rs \<equiv> map (\<lambda>r. fact_id_of (mr_fact r)) rs"

lemma linked_append: "linked blake3 ser h (xs @ ys) \<longleftrightarrow> linked blake3 ser h xs \<and> linked blake3 ser (head_after h xs) ys"
  by (induction xs arbitrary: h) (auto simp: head_after_def)

lemma head_after_append: "head_after h (xs @ ys) = head_after (head_after h xs) ys"
  by (simp add: head_after_def)

text \<open>
  The log grows by records that continue its chain, carry identifiers in increasing order from the next
  one on, and versions that never go back.
\<close>

definition log_grew :: "('s \<Rightarrow> bool) \<Rightarrow> ('s \<Rightarrow> string list) \<Rightarrow> 's mcu_env \<Rightarrow> 's mcu_executor \<Rightarrow> 's mcu_executor \<Rightarrow> bool" where
  "log_grew invar contents env e e' \<longleftrightarrow> (invar (mx_wal e) \<longrightarrow>
     invar (mx_wal e') \<and> mx_next_fact_id e \<le> mx_next_fact_id e' \<and> mx_version e \<le> mx_version e' \<and>
     (\<exists>rs. contents (mx_wal e') = contents (mx_wal e) @ map (mcu_line (env_ser env)) rs \<and>
        linked (env_blake3 env) (env_ser env) (op_tail (env_ops env) (mx_wal e)) rs \<and>
        op_tail (env_ops env) (mx_wal e') = head_after (op_tail (env_ops env) (mx_wal e)) rs \<and>
        sorted_wrt (<) (mx_next_fact_id e # record_ids rs) \<and> (\<forall>i \<in> set (record_ids rs). i \<le> mx_next_fact_id e') \<and>
        sorted (mx_version e # map mr_version_before rs @ [mx_version e'])))"

locale mcu_machine = mcu_store "env_ops env" "env_ser env" invar contents
  for env :: "'s mcu_env" and invar :: "'s \<Rightarrow> bool" and contents :: "'s \<Rightarrow> string list"
begin

lemma log_grewI:
  assumes "invar (mx_wal e) \<Longrightarrow> invar (mx_wal e')" "mx_next_fact_id e \<le> mx_next_fact_id e'" "mx_version e \<le> mx_version e'"
    and "mx_wal e' = mx_wal e"
  shows "log_grew invar contents env e e'"
  using assms by (auto simp: log_grew_def head_after_def intro!: exI [of _ "[]"])

lemma emit_grew:
  assumes "\<And>i. fact_id_of (mk i) = i" "emit env mk e = (res, e')"
  shows "log_grew invar contents env e e'"
proof (cases rule: emit_cases [of e env mk])
  case exhausted
  with assms(2) show ?thesis by (auto intro: log_grewI)
next
  case (offered r e1)
  let ?i = "mx_next_fact_id e + 1" and ?f = "mk (mx_next_fact_id e + 1)" and ?h = "op_tail (env_ops env) (mx_wal e)"
  let ?ch = "fact_hash (env_blake3 env) (env_ser env) ?f"
  let ?r = "as_record (mx_version e) ?f ?ch ?h (chain_step (env_blake3 env) ?h ?ch)"
  obtain w where w: "op_append (env_ops env) (mx_version e) ?f ?ch ?h (chain_step (env_blake3 env) ?h ?ch) (mx_wal e) = (r, w)"
    and e1: "e1 = e\<lparr>mx_next_fact_id := ?i, mx_wal := w\<rparr>"
    using offered(2) by (auto simp: append_fact_def Let_def split: prod.splits)
  have lt: "mx_next_fact_id e < ?i" using offered(1) by (simp add: word_less_nat_alt)
  have "e' = e1" using assms(2) offered(3) by simp
  with e1 lt append_frame [OF _ w] assms(1) show ?thesis
    by (auto simp: log_grew_def head_after_def mcu_line_def as_record_def less_imp_le
        intro!: exI [of _ "if is_ok r then [?r] else []"])
qed

end

sublocale mcu_machine \<subseteq> grew: kept env "log_grew invar contents env"
proof (standard, goal_cases)
  case 1
  show ?case by (auto intro!: reflpI log_grewI)
next
  case 2
  show ?case
  proof (rule transpI)
    fix e1 e2 e3
    assume a: "log_grew invar contents env e1 e2" and b: "log_grew invar contents env e2 e3"
    show "log_grew invar contents env e1 e3"
      unfolding log_grew_def
    proof
      assume i1: "invar (mx_wal e1)"
      from a i1 obtain rs where r: "invar (mx_wal e2)" "mx_next_fact_id e1 \<le> mx_next_fact_id e2" "mx_version e1 \<le> mx_version e2"
        "contents (mx_wal e2) = contents (mx_wal e1) @ map (mcu_line (env_ser env)) rs"
        "linked (env_blake3 env) (env_ser env) (op_tail (env_ops env) (mx_wal e1)) rs"
        "op_tail (env_ops env) (mx_wal e2) = head_after (op_tail (env_ops env) (mx_wal e1)) rs"
        "sorted_wrt (<) (mx_next_fact_id e1 # record_ids rs)" "\<forall>i \<in> set (record_ids rs). i \<le> mx_next_fact_id e2"
        "sorted (mx_version e1 # map mr_version_before rs @ [mx_version e2])"
        unfolding log_grew_def by blast
      from b r(1) obtain ss where s: "invar (mx_wal e3)" "mx_next_fact_id e2 \<le> mx_next_fact_id e3" "mx_version e2 \<le> mx_version e3"
        "contents (mx_wal e3) = contents (mx_wal e2) @ map (mcu_line (env_ser env)) ss"
        "linked (env_blake3 env) (env_ser env) (op_tail (env_ops env) (mx_wal e2)) ss"
        "op_tail (env_ops env) (mx_wal e3) = head_after (op_tail (env_ops env) (mx_wal e2)) ss"
        "sorted_wrt (<) (mx_next_fact_id e2 # record_ids ss)" "\<forall>i \<in> set (record_ids ss). i \<le> mx_next_fact_id e3"
        "sorted (mx_version e2 # map mr_version_before ss @ [mx_version e3])"
        unfolding log_grew_def by blast
      have ids: "sorted_wrt (<) (mx_next_fact_id e1 # record_ids (rs @ ss))"
        "\<forall>i \<in> set (record_ids (rs @ ss)). i \<le> mx_next_fact_id e3"
        using r(2,7,8) s(2,7,8) by (fastforce simp: sorted_wrt_append)+
      have vs: "sorted (mx_version e1 # map mr_version_before (rs @ ss) @ [mx_version e3])"
        using r(3,9) s(3,9) by (fastforce simp: sorted_append)
      show "invar (mx_wal e3) \<and> mx_next_fact_id e1 \<le> mx_next_fact_id e3 \<and> mx_version e1 \<le> mx_version e3 \<and>
        (\<exists>ts. contents (mx_wal e3) = contents (mx_wal e1) @ map (mcu_line (env_ser env)) ts \<and>
          linked (env_blake3 env) (env_ser env) (op_tail (env_ops env) (mx_wal e1)) ts \<and>
          op_tail (env_ops env) (mx_wal e3) = head_after (op_tail (env_ops env) (mx_wal e1)) ts \<and>
          sorted_wrt (<) (mx_next_fact_id e1 # record_ids ts) \<and> (\<forall>i \<in> set (record_ids ts). i \<le> mx_next_fact_id e3) \<and>
          sorted (mx_version e1 # map mr_version_before ts @ [mx_version e3]))"
        using r s ids vs by (intro conjI exI [of _ "rs @ ss"]) (auto simp: linked_append head_after_append)
    qed
  qed
next
  case (3 mk)
  then show ?case unfolding keeps_def using emit_grew by (metis prod.collapse)
next
  case 4
  have "v \<le> v + 1" if "v \<noteq> - 1" for v :: u64
    using that by (metis add.commute add_eq_0_iff unatSuc word_le_nat_alt le_SucI le_refl)
  then show ?case by (auto simp: keeps_def bump_def intro!: log_grewI)
next
  case (5 e e' p q c ps b)
  show ?case by (simp add: log_grew_def)
qed

subsection \<open>Whole calls\<close>

context kept
begin

lemma drain: "R e (snd (mcu_drain env st n e))"
proof (induction "2 ^ 64 - unat (mx_next_fact_id e)" arbitrary: st n e rule: less_induct)
  case less
  show ?case
  proof (cases rule: drain_cases [of e env st n])
    case finished
    then show ?thesis using finish_drain by (simp add: keeps_def)
  next
    case (stopped instr cause rest err e')
    have "R e (e\<lparr>mx_queue := rest\<rparr>)" by (rule frame) simp_all
    from then_keeps [OF this drain_pass, of st n instr cause] stopped(2,3) show ?thesis by simp
  next
    case (abandoned instr cause rest rep e')
    have "R e (e\<lparr>mx_queue := rest\<rparr>)" by (rule frame) simp_all
    from then_keeps [OF this drain_pass, of st n instr cause] abandoned(2,3) show ?thesis by simp
  next
    case (again instr cause rest e')
    have "R e (e\<lparr>mx_queue := rest\<rparr>)" by (rule frame) simp_all
    from then_keeps [OF this drain_pass, of st n instr cause] again(2) have "R e e'" by simp
    moreover have "unat (mx_next_fact_id e) < unat (mx_next_fact_id e')"
      using drain_pass_goes_on(1) [OF again(2)] by (simp add: word_less_nat_alt)
    then have "R e' (snd (mcu_drain env (st + 1) (n + 1) e'))"
      using less [of e'] unsigned_less [of "mx_next_fact_id e'", where 'a = nat] by simp
    ultimately show ?thesis using again(3) transpD [OF trans] by metis
  qed
qed

lemma run: "keeps R (mcu_run env instruction)"
proof -
  have "keeps R (mcu_drain env 0 0)" using drain by (simp add: keeps_def)
  then show ?thesis unfolding mcu_run_def by (intro keeps_intros frame) simp_all
qed

lemma accept_outcome: "keeps R (accept_outcome env i res err)"
  unfolding keeps_def
proof
  fix e :: "'s mcu_executor"
  have er: "keeps R (bind_act (McuExec.emit env (\<lambda>i. Error i msg)) (\<lambda>_. ret ()))" for msg by (intro keeps_intros) simp
  show "R e (snd (accept_outcome env i res err e))"
  proof (cases "take_pending i (mx_pendings e)")
    case None
    show ?thesis unfolding accept_outcome_def None option.case by (rule spec [OF er [unfolded keeps_def]])
  next
    case (Some pp)
    obtain p ps where pp: "pp = (p, ps)" by fastforce
    have b: "R e (snd (McuExec.bump e1))" if "mx_pack e1 = mx_pack e" "mx_version e1 = mx_version e" "mx_next_fact_id e1 = mx_next_fact_id e"
      "mx_wal e1 = mx_wal e" "mx_max_queue_len e1 = mx_max_queue_len e" "mx_max_steps e1 = mx_max_steps e" for e1
      by (rule then_keeps [OF frame [OF that] bump])
    show ?thesis
      unfolding accept_outcome_def Some pp option.case prod.case Let_def
      by (cases "is_null res \<or> err \<noteq> None") (simp_all only: if_True if_False, (rule b; simp)+)
  qed
qed

lemma resume: "keeps R (resume_io env i oc)"
proof -
  have "keeps R (mcu_drain env 0 0)" using drain by (simp add: keeps_def)
  then show ?thesis
    unfolding resume_io_def Let_def by (cases oc) (auto intro!: keeps_intros accept_outcome)
qed

end

text \<open>The calls an executor receives between two starts.\<close>

inductive mcu_life :: "'s mcu_env \<Rightarrow> 's mcu_executor \<Rightarrow> 's mcu_executor \<Rightarrow> bool" for env e0 where
  started: "mcu_life env e0 e0"
| ran: "mcu_life env e0 e \<Longrightarrow> mcu_run env instruction e = (r, e') \<Longrightarrow> mcu_life env e0 e'"
| resumed: "mcu_life env e0 e \<Longrightarrow> resume_io env i oc e = (r, e') \<Longrightarrow> mcu_life env e0 e'"

context kept
begin

lemma life: "mcu_life env e0 e \<Longrightarrow> R e0 e"
proof (induction rule: mcu_life.induct)
  case started
  show ?case using refl by (rule reflpD)
next
  case (ran e instruction r e')
  from keepsD [OF run ran.hyps(2)] ran.IH show ?case using transpD [OF trans] by blast
next
  case (resumed e i oc r e')
  from keepsD [OF resume resumed.hyps(2)] resumed.IH show ?case using transpD [OF trans] by blast
qed

end

subsection \<open>The two backends\<close>

definition ram_env :: "(string \<Rightarrow> string) \<Rightarrow> (serde \<Rightarrow> string) \<Rightarrow> (json \<Rightarrow> string) \<Rightarrow> ram_wal_store mcu_env" where
  "ram_env blake3 ser debug = \<lparr>env_ops = ram_store ser, env_blake3 = blake3, env_ser = ser, env_debug = debug\<rparr>"

definition flash_env :: "(string \<Rightarrow> string) \<Rightarrow> (serde \<Rightarrow> string) \<Rightarrow> (json \<Rightarrow> string) \<Rightarrow> ram_flash flash_wal mcu_env" where
  "flash_env blake3 ser debug = \<lparr>env_ops = flash_store ram_flash_ops ser, env_blake3 = blake3, env_ser = ser, env_debug = debug\<rparr>"

interpretation ram_machine: mcu_machine "ram_env blake3 ser debug" "\<lambda>_. True" "\<lambda>s. map (mcu_line ser) (ram_records s)"
  unfolding mcu_machine_def ram_env_def mcu_env.simps by (rule ram_wal.mcu_store_axioms)

text \<open>For the flash backend the invariant is that the log has lived as its theory describes.\<close>

definition flash_lived :: "(serde \<Rightarrow> string) \<Rightarrow> (string \<Rightarrow> string + serde) \<Rightarrow> ram_flash flash_wal \<Rightarrow> bool" where
  "flash_lived ser de st \<longleftrightarrow> line_text ser de \<and> (\<exists>rs. flash_life ser de st rs)"

lemma flash_lived_inv: "flash_lived ser de st \<Longrightarrow> flash_inv ser de st"
  by (auto simp: flash_lived_def flash_life_inv)

lemma flash_lived_append:
  assumes "flash_lived ser de st" "op_append (flash_store ram_flash_ops ser) vb f ch ph kh st = (r, st')"
  shows "flash_lived ser de st'"
proof -
  obtain rs where rs: "line_text ser de" "flash_life ser de st rs" using assms(1) by (auto simp: flash_lived_def)
  have "flash_append ser (as_record vb f ch ph kh) st = (r, st')" using assms(2) by (simp add: flash_append_def as_record_def)
  with rs show ?thesis
    unfolding flash_lived_def by (cases r) (metis flash_life.refused, metis (full_types) flash_life.appended old.unit.exhaust)
qed

interpretation flash_machine: mcu_machine "flash_env blake3 ser debug" "flash_lived ser de" fl_lines
  unfolding mcu_machine_def flash_env_def mcu_env.simps
proof (rule mcu_store.intro, goal_cases)
  case (1 s vb f ch ph kh s')
  from flash_wal.accepted [OF flash_lived_inv [OF 1(1)] 1(2)] flash_lived_append [OF 1] show ?case by simp
next
  case (2 s vb f ch ph kh e s')
  from flash_wal.refused [OF flash_lived_inv [OF 2(1)] 2(2)] flash_lived_append [OF 2] show ?case by simp
next
  case (3 s)
  from flash_wal.op_len [OF flash_lived_inv [OF 3]] show ?case .
next
  case (4 s i)
  from flash_wal.op_line [OF flash_lived_inv [OF 4]] show ?case .
qed

subsection \<open>How a run ends\<close>

lemma append_fact_queue [simp]: "mx_queue (snd (append_fact env f e)) = mx_queue e"
  by (simp add: append_fact_def Let_def split: prod.split)

lemma emit_queue: "emit env mk e = (r, e') \<Longrightarrow> mx_queue e' = mx_queue e"
proof (cases rule: emit_cases [of e env mk])
  case (offered res e1)
  assume "emit env mk e = (r, e')"
  with offered(3) arg_cong [OF offered(2), of "\<lambda>x. mx_queue (snd x)"] show ?thesis by simp
qed simp

lemma abandon_run_report:
  assumes "abandon_run env msg n e = (Inr x, e')"
  shows "mx_queue e' = []" "x = Some (mcu_report env n e')"
  using assms by (auto simp: abandon_run_def modify_def dest!: emit_queue [where mk = "\<lambda>i. Stable i _"] elim!: bind_actE)

lemma apply_transition_report:
  assumes "mcu_apply_transition env cause n p q hits e = (Inr (Some rep), e')"
  shows "mx_queue e' = []" "rep = mcu_report env n e'"
  using assms by (auto simp: mcu_apply_transition_def Let_def ret_def split: if_splits dest: abandon_run_report elim!: bind_actE)

lemma exec_instruction_report:
  assumes "mcu_exec_instruction env instr cause st n e = (Inr (Some rep), e')"
  shows "mx_queue e' = []" "rep = mcu_report env n e'"
  using assms by (auto simp: mcu_exec_instruction_def ret_def split: sum.splits transition_result.splits
      dest: apply_transition_report elim!: bind_actE)

lemma drain_report:
  assumes "mcu_drain env st st e = (Inr rep, e')" "mx_max_steps e > 0 \<Longrightarrow> st \<le> unat (mx_max_steps e)"
  shows "mx_queue e' = [] \<and> (\<exists>n. rep = mcu_report env n e' \<and> (mx_max_steps e > 0 \<longrightarrow> n \<le> unat (mx_max_steps e)))"
  using assms
proof (induction "2 ^ 64 - unat (mx_next_fact_id e)" arbitrary: st e rule: less_induct)
  case less
  show ?case
  proof (cases rule: drain_cases [of e env st st])
    case finished
    with less.prems show ?thesis
      by (auto simp: finish_drain_def split: if_splits dest: emit_queue elim!: bind_actE)
  next
    case (stopped instr cause rest err e1)
    with less.prems show ?thesis by simp
  next
    case (abandoned instr cause rest rep1 e1)
    let ?e = "e\<lparr>mx_queue := rest\<rparr>"
    show ?thesis
    proof (cases "mx_max_steps e > 0 \<and> st \<ge> unat (mx_max_steps e)")
      case True
      with abandoned(2) have "abandon_run env (''max steps per run exceeded: '' @ dec_nat (unat (mx_max_steps e))) st ?e = (Inr (Some rep1), e1)"
        by (simp add: drain_pass_def)
      from abandon_run_report [OF this] abandoned(3) less.prems show ?thesis by auto
    next
      case False
      with abandoned(2) have "mcu_exec_instruction env instr cause (st + 1) (st + 1) (?e\<lparr>mx_clock := clock_advance (mx_clock ?e)\<rparr>) =
          (Inr (Some rep1), e1)" by (auto simp: drain_pass_def)
      from exec_instruction_report [OF this] abandoned(3) less.prems False show ?thesis
        by (auto intro!: exI [of _ "st + 1"])
    qed
  next
    case (again instr cause rest e1)
    note on = drain_pass_goes_on [OF again(2)]
    have "unat (mx_next_fact_id e) < unat (mx_next_fact_id e1)" using on(1) by (simp add: word_less_nat_alt)
    then have lt: "2 ^ 64 - unat (mx_next_fact_id e1) < 2 ^ 64 - unat (mx_next_fact_id e)"
      using unsigned_less [of "mx_next_fact_id e1", where 'a = nat] by simp
    have d: "mcu_drain env (st + 1) (st + 1) e1 = (Inr rep, e')" using again(3) less.prems(1) by simp
    have "mx_max_steps e1 > 0 \<Longrightarrow> st + 1 \<le> unat (mx_max_steps e1)" using on(2,3) by simp
    from less.hyps [OF lt d this] on(2) show ?thesis by simp
  qed
qed

lemma report_steps: "n \<le> unat (m :: u64) \<Longrightarrow> unat (steps_executed (mcu_report env n e)) \<le> unat m"
  using unsigned_less [of m, where 'a = nat] by (simp add: mcu_report_def unat_of_nat)

section \<open>Properties\<close>



text \<open>
  A run that reports has finished its work.  \<open>run\<close> and \<open>resume_io\<close> are total: every pass takes an
  identifier, and identifiers run out with an error.  When a call returns a report, the queue is empty,
  the report shows version and chain tail of the executor, and with a limit of steps it counts no more
  steps than the limit.
\<close>

theorem mcu_call_report:
  assumes "mcu_run env instruction e = (Inr rep, e') \<or> resume_io env i oc e = (Inr rep, e')"
  shows "mx_queue e' = [] \<and> report_version rep = mx_version e' \<and> report_tail_hash rep = op_tail (env_ops env) (mx_wal e') \<and>
    (mx_max_steps e > 0 \<longrightarrow> unat (steps_executed rep) \<le> unat (mx_max_steps e))"
proof -
  obtain e1 where e1: "mcu_drain env 0 0 e1 = (Inr rep, e')" "mx_max_steps e1 = mx_max_steps e"
    using assms
  proof
    assume "mcu_run env instruction e = (Inr rep, e')"
    then show thesis
      using that by (auto simp: mcu_run_def modify_def ids_grow_def dest!: emit_ids(1) elim!: bind_actE)
  next
    assume "resume_io env i oc e = (Inr rep, e')"
    then show thesis
      using that keepsD [OF ids.accept_outcome]
      by (fastforce simp: resume_io_def Let_def ids_grow_def split: sum.splits prod.splits dest!: emit_ids(1) elim!: bind_actE)
  qed
  from drain_report [OF e1(1)] e1(2) obtain n where
    "mx_queue e' = []" "rep = mcu_report env n e'" "mx_max_steps e > 0 \<longrightarrow> n \<le> unat (mx_max_steps e)" by auto
  then show ?thesis using report_steps by (auto simp: mcu_report_def)
qed

theorem mcu_call_report_witness:
  "\<exists>rep e'. mcu_run (ram_env sample_blake3 (\<lambda>_. ''x'') (\<lambda>_. [])) Null (executor_new []) = (Inr rep, e') \<and>
     mx_queue e' = [] \<and> unat (steps_executed rep) \<le> 10000"
proof -
  let ?e = "executor_new []" and ?env = "ram_env sample_blake3 (\<lambda>_. ''x'') (\<lambda>_. [])"
  have t: "execute_transition [] Null (Object []) [] =
      Inr (TIgnored ''unknown'' ''instruction not matched by any constitution rule'' [])" by code_simp
  note defs = executor_new_def with_options_def with_mcu_store_def ram_wal_new_def ram_env_def ram_store_def ram_append_record_def
    empty_object_def bt_new_def emit_def next_fact_def append_fact_def bind_act_def ret_def modify_def drain_pass_def
    mcu_exec_instruction_def finish_drain_def DEFAULT_MAX_STEPS_PER_RUN_def Let_def
  have "is_ok (fst (mcu_run ?env Null ?e))"
    by (simp add: mcu_run_def defs, subst mcu_drain.simps, simp add: defs t, subst mcu_drain.simps, simp add: defs is_ok_def)
  then obtain rep e' where r: "mcu_run ?env Null ?e = (Inr rep, e')"
    by (cases "mcu_run ?env Null ?e") (auto simp: is_ok_def split: sum.splits)
  have "mx_max_steps ?e = 10000"
    by (simp add: executor_new_def with_options_def with_mcu_store_def DEFAULT_MAX_STEPS_PER_RUN_def)
  with mcu_call_report [OF disjI1 [OF r]] r show ?thesis by auto
qed

section \<open>Rule packs\<close>

lemma wire_round_trip: "wf_json v \<Longrightarrow> wire_to_tcb (tcb_to_wire v) = v"
proof (induction v)
  case (Array xs)
  then show ?case by (simp add: list_all_iff map_idI)
next
  case (Object m)
  have "map (\<lambda>p. (fst p, wire_to_tcb (tcb_to_wire (snd p)))) m = m"
    using Object by (intro map_idI) (force simp: wf_map_iff snds.simps)
  then have "map (\<lambda>(k, v). (k, wire_to_tcb v)) (map (\<lambda>(k, v). (k, tcb_to_wire v)) m) = m"
    by (simp add: case_prod_beta comp_def)
  moreover have "foldl (\<lambda>m (k, v). bt_put k v m) bt_new m = m"
    using foldl_bt_put_sorted [of "[]" m] Object.prems by (simp add: bt_new_def wf_map_iff)
  ultimately show ?case by simp
qed simp_all

text \<open>
  Rule packs round trip.  With a codec that decodes what it encodes, a pack of at most 128 well-formed
  rules is read back as it was written, and a longer list of rules is refused when it is built and when
  it is loaded.
\<close>

theorem pack_round_trip:
  assumes "\<And>w. \<exists>bytes. encode w = Inr bytes \<and> decode bytes = Inr w" "list_all wf_json rules"
  shows "(length rules \<le> 128 \<longrightarrow> from_rules rules = Inr rules \<and>
      (\<exists>bytes. to_evopack encode rules = Inr bytes \<and> from_evopack decode bytes = Inr rules)) \<and>
    (length rules > 128 \<longrightarrow> \<not> is_ok (from_rules rules) \<and>
      (\<forall>bytes. to_evopack encode rules = Inr bytes \<longrightarrow> \<not> is_ok (from_evopack decode bytes)))"
proof -
  obtain bytes where b: "encode \<lparr>wire_rules_of = map tcb_to_wire rules\<rparr> = Inr bytes"
    "decode bytes = Inr \<lparr>wire_rules_of = map tcb_to_wire rules\<rparr>" using assms(1) by blast
  have "map (\<lambda>v. wire_to_tcb (tcb_to_wire v)) rules = rules"
    using assms(2) by (intro map_idI) (auto simp: list_all_iff wire_round_trip)
  then have "to_evopack encode rules = Inr bytes" "from_evopack decode bytes = from_rules rules"
    using b by (simp_all add: to_evopack_def from_evopack_def map_err_def and_then_def comp_def)
  then show ?thesis by (auto simp: from_rules_def MAX_TRANSFORM_RULES_def is_ok_def)
qed

instance wire_value :: countable
  by countable_datatype

text \<open>A codec with this law: as many zero bytes as the number of the rules.\<close>

definition unary_encode :: "wire_rules \<Rightarrow> string + byte list" where
  "unary_encode w = Inr (replicate (to_nat (wire_rules_of w)) 0)"

definition unary_decode :: "byte list \<Rightarrow> string + wire_rules" where
  "unary_decode bytes = Inr \<lparr>wire_rules_of = from_nat (length bytes)\<rparr>"

theorem pack_round_trip_witness:
  "\<exists>bytes. to_evopack unary_encode [Null, Bool True] = Inr bytes \<and> from_evopack unary_decode bytes = Inr [Null, Bool True]"
proof -
  have "\<exists>bytes. unary_encode w = Inr bytes \<and> unary_decode bytes = Inr w" for w
    by (simp add: unary_encode_def unary_decode_def)
  moreover have "list_all wf_json [Null, Bool True]" by simp
  ultimately show ?thesis using pack_round_trip [of unary_encode unary_decode "[Null, Bool True]"] by simp
qed

end
