(* ===== verification/ReactorState.thy ===== *)
theory ReactorState
  imports AuditChain
begin

text \<open>
  The state of the reactor, \<open>evorule-reactor/src/state.rs\<close>, with its phases (\<open>phase.rs\<close>), its structural
  checks (\<open>invariants.rs\<close>) and the stability detector (\<open>stable_detector.rs\<close>).  A \<open>VecDeque\<close> is a list,
  a \<open>BTreeSet\<close> a sorted map to unit as in the standard library, an \<open>Instant\<close> a number of nanoseconds.
\<close>

type_synonym instant = nat
type_synonym duration = nat

section \<open>Phases\<close>

datatype reactor_phase = Idle | Draining | Executing | AwaitingIo | PhaseStable | PhaseError

fun phase_as_str :: "reactor_phase \<Rightarrow> string" where
  "phase_as_str Idle = ''idle''"
| "phase_as_str Draining = ''draining''"
| "phase_as_str Executing = ''executing''"
| "phase_as_str AwaitingIo = ''awaiting_io''"
| "phase_as_str PhaseStable = ''stable''"
| "phase_as_str PhaseError = ''error''"

record phase_context =
  queue_empty :: bool
  pending_io :: nat
  ctx_steps :: nat
  drained_any :: bool

definition next_after_draining :: "phase_context \<Rightarrow> reactor_phase" where
  "next_after_draining ctx =
     (if pending_io ctx > 0 then AwaitingIo
      else if \<not> queue_empty ctx then Executing
      else if ctx_steps ctx > 0 then PhaseStable
      else Idle)"

definition post_execution :: "phase_context \<Rightarrow> reactor_phase" where
  "post_execution ctx = (if ctx_steps ctx > 0 then PhaseStable else Idle)"

definition next_after_executing :: "phase_context \<Rightarrow> reactor_phase" where
  "next_after_executing ctx =
     (if pending_io ctx > 0 then AwaitingIo
      else if queue_empty ctx then post_execution ctx
      else Executing)"

fun phase_next :: "reactor_phase \<Rightarrow> phase_context \<Rightarrow> reactor_phase" where
  "phase_next Idle ctx = Draining"
| "phase_next Draining ctx = next_after_draining ctx"
| "phase_next Executing ctx = next_after_executing ctx"
| "phase_next AwaitingIo ctx = Idle"
| "phase_next PhaseStable ctx = Idle"
| "phase_next PhaseError ctx = Idle"

section \<open>State\<close>

record reactor_state =
  payload :: json
  queue :: "json list"
  rs_version :: u64
  prev_version :: u64
  pending_io_count :: usize
  pending_requests :: "(fact_id \<times> unit) list"
  pending_io_instructions :: "(fact_id \<times> json \<times> fact_id) list"
  instruction_causes :: "fact_id list"
  pending_io_timestamps :: "(fact_id \<times> instant) list"
  pending_io_types :: "(fact_id \<times> io_type) list"
  io_recovery :: bool
  phase :: reactor_phase
  structural_invariant_violations :: u64

definition state_new :: reactor_state where
  "state_new =
     \<lparr>payload = empty_object, queue = [], rs_version = 0, prev_version = 0, pending_io_count = 0,
      pending_requests = bt_new, pending_io_instructions = bt_new, instruction_causes = [],
      pending_io_timestamps = bt_new, pending_io_types = bt_new, io_recovery = False, phase = Idle,
      structural_invariant_violations = 0\<rparr>"

text \<open>\<open>version += 1\<close> wraps in a release build.\<close>

definition bump_version :: "reactor_state \<Rightarrow> reactor_state" where
  "bump_version s = s\<lparr>prev_version := rs_version s, rs_version := rs_version s + 1\<rparr>"

definition state_is_stable :: "reactor_state \<Rightarrow> bool" where
  "state_is_stable s \<longleftrightarrow> queue s = [] \<and> pending_io_count s = 0"

definition queue_len :: "reactor_state \<Rightarrow> usize" where
  "queue_len s = length (queue s)"

definition pop_instruction :: "reactor_state \<Rightarrow> ((json \<times> fact_id) \<times> reactor_state) option" where
  "pop_instruction s =
     (case queue s of
        [] \<Rightarrow> None
      | instr # rest \<Rightarrow>
          (case instruction_causes s of
             [] \<Rightarrow> Some ((instr, 0), s\<lparr>queue := rest\<rparr>)
           | cause # causes \<Rightarrow> Some ((instr, cause), s\<lparr>queue := rest, instruction_causes := causes\<rparr>)))"

definition push_front :: "json \<Rightarrow> fact_id \<Rightarrow> reactor_state \<Rightarrow> reactor_state" where
  "push_front instruction cause s =
     s\<lparr>queue := instruction # queue s, instruction_causes := cause # instruction_causes s\<rparr>"

definition push_front_all :: "json list \<Rightarrow> fact_id \<Rightarrow> reactor_state \<Rightarrow> reactor_state" where
  "push_front_all instructions cause s = foldl (\<lambda>s instr. push_front instr cause s) s (rev instructions)"

definition push_back :: "json \<Rightarrow> fact_id \<Rightarrow> reactor_state \<Rightarrow> reactor_state" where
  "push_back instruction cause s =
     s\<lparr>queue := queue s @ [instruction], instruction_causes := instruction_causes s @ [cause]\<rparr>"

definition push_back_all :: "json list \<Rightarrow> fact_id \<Rightarrow> reactor_state \<Rightarrow> reactor_state" where
  "push_back_all instructions cause s = foldl (\<lambda>s instr. push_back instr cause s) s instructions"

definition clear_queue :: "reactor_state \<Rightarrow> reactor_state" where
  "clear_queue s = s\<lparr>queue := [], instruction_causes := []\<rparr>"

definition cause_at :: "nat \<Rightarrow> fact_id list \<Rightarrow> fact_id \<Rightarrow> nat \<Rightarrow> fact_id" where
  "cause_at new_count old_causes current_cause i =
     (if i < new_count then current_cause
      else unwrap_or current_cause (list_get old_causes (i - new_count)))"

definition update_queue_with_causes :: "json list \<Rightarrow> fact_id \<Rightarrow> reactor_state \<Rightarrow> reactor_state" where
  "update_queue_with_causes new_queue current_cause s =
     (let old_len = length (queue s);
          old_causes = instruction_causes s;
          new_count = length new_queue - old_len in
      s\<lparr>queue := new_queue,
        instruction_causes := map (cause_at new_count old_causes current_cause) [0..<length new_queue]\<rparr>)"

subsection \<open>Pending I/O\<close>

definition register_io_request_at :: "fact_id \<Rightarrow> io_type \<Rightarrow> instant \<Rightarrow> reactor_state \<Rightarrow> reactor_state" where
  "register_io_request_at i ty now s =
     (if bt_contains i (pending_requests s) then s
      else s\<lparr>pending_requests := bt_put i () (pending_requests s),
             pending_io_count := pending_io_count s + 1,
             pending_io_timestamps := bt_put i now (pending_io_timestamps s),
             pending_io_types := bt_put i ty (pending_io_types s)\<rparr>)"

definition get_io_type :: "fact_id \<Rightarrow> reactor_state \<Rightarrow> io_type option" where
  "get_io_type i s = bt_get i (pending_io_types s)"

definition complete_io_request :: "fact_id \<Rightarrow> reactor_state \<Rightarrow> bool \<times> reactor_state" where
  "complete_io_request i s =
     (if bt_contains i (pending_requests s)
      then (True, s\<lparr>pending_requests := bt_del i (pending_requests s),
                    pending_io_count := pending_io_count s - 1,
                    pending_io_timestamps := bt_del i (pending_io_timestamps s),
                    pending_io_types := bt_del i (pending_io_types s)\<rparr>)
      else (False, s))"

definition scan_io_timeouts_at :: "instant \<Rightarrow> duration \<Rightarrow> duration \<Rightarrow> reactor_state \<Rightarrow> fact_id list \<times> fact_id list" where
  "scan_io_timeouts_at now warn_timeout error_timeout s =
     (let ts = pending_io_timestamps s in
      (map fst (filter (\<lambda>(_, t). \<not> now - t \<ge> error_timeout \<and> now - t \<ge> warn_timeout) ts),
       map fst (filter (\<lambda>(_, t). now - t \<ge> error_timeout) ts)))"

definition force_remove_io_request :: "fact_id \<Rightarrow> reactor_state \<Rightarrow> reactor_state" where
  "force_remove_io_request i s =
     (if bt_contains i (pending_requests s)
      then s\<lparr>pending_requests := bt_del i (pending_requests s),
             pending_io_count := pending_io_count s - 1,
             pending_io_instructions := bt_del i (pending_io_instructions s),
             pending_io_timestamps := bt_del i (pending_io_timestamps s),
             pending_io_types := bt_del i (pending_io_types s)\<rparr>
      else s)"

definition save_io_instruction :: "fact_id \<Rightarrow> json \<Rightarrow> fact_id \<Rightarrow> reactor_state \<Rightarrow> reactor_state" where
  "save_io_instruction i instruction cause s =
     s\<lparr>pending_io_instructions := bt_put i (instruction, cause) (pending_io_instructions s)\<rparr>"

definition take_io_instruction :: "fact_id \<Rightarrow> reactor_state \<Rightarrow> (json \<times> fact_id) option \<times> reactor_state" where
  "take_io_instruction i s =
     (bt_get i (pending_io_instructions s),
      s\<lparr>pending_io_instructions := bt_del i (pending_io_instructions s)\<rparr>)"

definition clear_io_result :: "reactor_state \<Rightarrow> reactor_state" where
  "clear_io_result s =
     s\<lparr>payload := (case payload s of Object m \<Rightarrow> Object (bt_del ''__io_results__'' m) | p \<Rightarrow> p)\<rparr>"

definition clear_io_recovery :: "reactor_state \<Rightarrow> reactor_state" where
  "clear_io_recovery s = (clear_io_result s)\<lparr>io_recovery := False\<rparr>"

section \<open>Structural checks\<close>

datatype invariant_violation =
    IoCountMismatch usize usize usize
  | IoRecoveryWithoutResult
  | VersionDecreased u64 u64
  | ResultWithoutIoRecovery
  | RecoveryWhileAwaitingIo

fun violation_as_str :: "invariant_violation \<Rightarrow> string" where
  "violation_as_str (IoCountMismatch _ _ _) = ''io_count_mismatch''"
| "violation_as_str IoRecoveryWithoutResult = ''io_recovery_without_result''"
| "violation_as_str (VersionDecreased _ _) = ''version_decreased''"
| "violation_as_str ResultWithoutIoRecovery = ''result_without_io_recovery''"
| "violation_as_str RecoveryWhileAwaitingIo = ''recovery_while_awaiting_io''"

fun violation_display :: "invariant_violation \<Rightarrow> string" where
  "violation_display (IoCountMismatch n requests_len timestamps_len) =
     ''IoCountMismatch: count='' @ dec_nat n @ '', requests_len='' @ dec_nat requests_len
     @ '', timestamps_len='' @ dec_nat timestamps_len"
| "violation_display IoRecoveryWithoutResult =
     ''IoRecoveryWithoutResult: io_recovery=true but __io_results__ has no non-null result''"
| "violation_display (VersionDecreased current previous) =
     ''VersionDecreased: current='' @ dec_nat (unat current) @ '' < previous='' @ dec_nat (unat previous)"
| "violation_display ResultWithoutIoRecovery =
     ''ResultWithoutIoRecovery: __io_results__ has non-null result but io_recovery=false''"
| "violation_display RecoveryWhileAwaitingIo =
     ''RecoveryWhileAwaitingIo: pending_io>0, queue empty, io_recovery=true''"

definition has_io_result :: "json \<Rightarrow> bool" where
  "has_io_result p =
     (case json_get ''__io_results__'' p of
        Some (Object m) \<Rightarrow> list_ex (\<lambda>(_, v). \<not> is_null v) m
      | _ \<Rightarrow> False)"

definition check_io_count_consistency :: "reactor_state \<Rightarrow> invariant_violation list" where
  "check_io_count_consistency s =
     (let req_len = length (pending_requests s); ts_len = length (pending_io_timestamps s) in
      if pending_io_count s \<noteq> req_len \<or> pending_io_count s \<noteq> ts_len
      then [IoCountMismatch (pending_io_count s) req_len ts_len] else [])"

definition check_io_recovery_consistency :: "reactor_state \<Rightarrow> invariant_violation list" where
  "check_io_recovery_consistency s =
     (if io_recovery s \<and> \<not> has_io_result (payload s) then [IoRecoveryWithoutResult] else [])
     @ (if has_io_result (payload s) \<and> \<not> io_recovery s then [ResultWithoutIoRecovery] else [])"

definition check_version_monotonic :: "reactor_state \<Rightarrow> invariant_violation list" where
  "check_version_monotonic s =
     (if rs_version s < prev_version s then [VersionDecreased (rs_version s) (prev_version s)] else [])"

definition check_no_recovery_conflict :: "reactor_state \<Rightarrow> invariant_violation list" where
  "check_no_recovery_conflict s =
     (if pending_io_count s > 0 \<and> queue s = [] \<and> io_recovery s \<and> \<not> has_io_result (payload s)
      then [RecoveryWhileAwaitingIo] else [])"

definition check_invariants :: "reactor_state \<Rightarrow> invariant_violation list" where
  "check_invariants s =
     check_io_count_consistency s @ check_io_recovery_consistency s @ check_version_monotonic s
     @ check_no_recovery_conflict s"

section \<open>The stability detector\<close>

record stable_detector =
  stable_count :: usize
  threshold :: usize

definition detector_new :: stable_detector where
  "detector_new = \<lparr>stable_count = 0, threshold = 1\<rparr>"

definition with_threshold :: "usize \<Rightarrow> stable_detector" where
  "with_threshold t = \<lparr>stable_count = 0, threshold = max t 1\<rparr>"

definition is_stable :: "usize \<Rightarrow> usize \<Rightarrow> bool" where
  "is_stable q p \<longleftrightarrow> q = 0 \<and> p = 0"

definition observe :: "usize \<Rightarrow> usize \<Rightarrow> stable_detector \<Rightarrow> bool \<times> stable_detector" where
  "observe q p d =
     (let n = (if is_stable q p then saturating_inc_usize (stable_count d) else 0);
          d' = d\<lparr>stable_count := n\<rparr> in
      (n \<ge> threshold d, d'))"

definition detector_reset :: "stable_detector \<Rightarrow> stable_detector" where
  "detector_reset d = d\<lparr>stable_count := 0\<rparr>"

section \<open>Invariants of the state\<close>

text \<open>
  The registry of pending requests: the counter, the time stamps, the types and the saved instructions
  belong to the same requests.
\<close>

definition io_registry :: "reactor_state \<Rightarrow> bool" where
  "io_registry s \<longleftrightarrow>
     bt_sorted (pending_requests s) \<and> bt_sorted (pending_io_timestamps s) \<and> bt_sorted (pending_io_types s) \<and>
     bt_sorted (pending_io_instructions s) \<and>
     pending_io_count s = length (pending_requests s) \<and>
     fst ` set (pending_io_timestamps s) = fst ` set (pending_requests s) \<and>
     fst ` set (pending_io_types s) = fst ` set (pending_requests s)"

text \<open>Every queued instruction has its cause.\<close>

definition causes_sync :: "reactor_state \<Rightarrow> bool" where
  "causes_sync s \<longleftrightarrow> length (instruction_causes s) = length (queue s)"

lemma pop_instruction_SomeE:
  assumes "pop_instruction s = Some (x, s')"
  obtains q c where "s' = s\<lparr>queue := q, instruction_causes := c\<rparr>" "queue s = fst x # q"
    "causes_sync s \<longrightarrow> instruction_causes s = snd x # c"
proof (cases "instruction_causes s")
  case Nil
  then show thesis using assms that [where q = "queue s'" and c = "[]"]
    by (cases s) (auto simp: pop_instruction_def causes_sync_def split: list.splits)
next
  case (Cons c cs)
  then show thesis using assms that [where q = "queue s'" and c = cs]
    by (auto simp: pop_instruction_def causes_sync_def split: list.splits)
qed

text \<open>
  An invariant of the state that every primitive operation keeps; the handlers of the reactor are built
  from these, so they keep it.
\<close>

locale state_invariant =
  fixes I :: "reactor_state \<Rightarrow> bool"
  assumes I_new: "I state_new"
    and I_pop: "I s \<Longrightarrow> pop_instruction s = Some (x, s') \<Longrightarrow> I s'"
    and I_push_front: "I s \<Longrightarrow> I (push_front instr cause s)"
    and I_push_back: "I s \<Longrightarrow> I (push_back instr cause s)"
    and I_clear_queue: "I s \<Longrightarrow> I (clear_queue s)"
    and I_update_queue: "I s \<Longrightarrow> I (update_queue_with_causes q cause s)"
    and I_register: "I s \<Longrightarrow> I (register_io_request_at i ty now s)"
    and I_complete: "I s \<Longrightarrow> I (snd (complete_io_request i s))"
    and I_force_remove: "I s \<Longrightarrow> I (force_remove_io_request i s)"
    and I_save: "I s \<Longrightarrow> I (save_io_instruction i instr cause s)"
    and I_take: "I s \<Longrightarrow> I (snd (take_io_instruction i s))"
    and I_payload: "I s \<Longrightarrow> I (s\<lparr>payload := p\<rparr>)"
    and I_recovery: "I s \<Longrightarrow> I (s\<lparr>io_recovery := b\<rparr>)"
    and I_version: "I s \<Longrightarrow> I (bump_version s)"
    and I_phase: "I s \<Longrightarrow> I (s\<lparr>phase := ph\<rparr>)"
    and I_violations: "I s \<Longrightarrow> I (s\<lparr>structural_invariant_violations := n\<rparr>)"
begin

lemma I_push_front_all: "I s \<Longrightarrow> I (push_front_all instrs cause s)"
proof -
  have "I s \<Longrightarrow> I (foldl (\<lambda>s instr. push_front instr cause s) s xs)" for xs
    by (induction xs arbitrary: s) (auto intro: I_push_front)
  then show "I s \<Longrightarrow> ?thesis" by (simp add: push_front_all_def)
qed

lemma I_push_back_all: "I s \<Longrightarrow> I (push_back_all instrs cause s)"
  unfolding push_back_all_def by (induction instrs arbitrary: s) (auto intro: I_push_back)

lemma I_clear_io_recovery: "I s \<Longrightarrow> I (clear_io_recovery s)"
  unfolding clear_io_recovery_def clear_io_result_def by (intro I_recovery I_payload)

lemmas I_ops = I_push_front I_push_back I_clear_queue I_update_queue I_register I_complete I_force_remove
  I_save I_take I_payload I_recovery I_version I_phase I_violations I_clear_io_recovery

end

lemma length_bt_put_new: "\<not> bt_contains k m \<Longrightarrow> bt_sorted m \<Longrightarrow> length (bt_put k v m) = Suc (length m)"
  by (induction k v m rule: bt_put.induct) (auto simp: bt_contains_def)

lemma length_bt_del: "bt_contains k m \<Longrightarrow> bt_sorted m \<Longrightarrow> length (bt_del k m) = length m - 1"
proof (induction m)
  case (Cons p m)
  show ?case
  proof (cases "fst p = k")
    case True
    then have "\<forall>q \<in> set m. fst q \<noteq> k" using Cons.prems by (cases p) auto
    then have "bt_del k m = m" by (simp add: bt_del_def filter_id_conv)
    with True show ?thesis by (simp add: bt_del_def)
  next
    case False
    with Cons have "length (bt_del k m) = length m - 1" by (cases p) (simp add: bt_contains_def)
    moreover have "m \<noteq> []" using False Cons.prems by (cases p) (auto simp: bt_contains_def)
    ultimately show ?thesis using False by (simp add: bt_del_def)
  qed
qed (simp add: bt_contains_def)

lemma keys_bt_del [simp]: "fst ` set (bt_del k m) = fst ` set m - {k}"
  by (force simp: bt_del_def)

interpretation causes: state_invariant causes_sync
  by unfold_locales
    (auto simp: causes_sync_def state_new_def pop_instruction_def push_front_def push_back_def clear_queue_def
      update_queue_with_causes_def register_io_request_at_def complete_io_request_def force_remove_io_request_def
      save_io_instruction_def take_io_instruction_def bump_version_def Let_def split: list.splits)

text \<open>The registry is kept by the operations on requests; the others do not touch it.\<close>

lemma registry_register: "io_registry s \<Longrightarrow> io_registry (register_io_request_at i ty now s)"
  by (simp add: io_registry_def register_io_request_at_def length_bt_put_new)

lemma registry_complete: "io_registry s \<Longrightarrow> io_registry (snd (complete_io_request i s))"
  by (simp add: io_registry_def complete_io_request_def length_bt_del)

lemma registry_force_remove: "io_registry s \<Longrightarrow> io_registry (force_remove_io_request i s)"
  by (simp add: io_registry_def force_remove_io_request_def length_bt_del)

interpretation registry: state_invariant io_registry
proof unfold_locales
  show "io_registry state_new" by (simp add: io_registry_def state_new_def bt_new_def)
  show "io_registry s \<Longrightarrow> pop_instruction s = Some (x, s') \<Longrightarrow> io_registry s'" for s s' x
    by (elim pop_instruction_SomeE) (simp add: io_registry_def)
qed (simp_all add: registry_register registry_complete registry_force_remove,
    simp_all add: io_registry_def push_front_def push_back_def clear_queue_def update_queue_with_causes_def
      save_io_instruction_def take_io_instruction_def bump_version_def Let_def)

lemma registry_checks: "io_registry s \<Longrightarrow> check_io_count_consistency s = []"
proof -
  assume reg: "io_registry s"
  have "length (pending_io_timestamps s) = card (fst ` set (pending_io_timestamps s))"
    using reg bt_sorted_distinct by (metis io_registry_def distinct_card length_map set_map)
  moreover have "length (pending_requests s) = card (fst ` set (pending_requests s))"
    using reg bt_sorted_distinct by (metis io_registry_def distinct_card length_map set_map)
  ultimately show ?thesis using reg by (simp add: io_registry_def check_io_count_consistency_def)
qed

lemma registry_pending: "io_registry s \<Longrightarrow> pending_io_count s = 0 \<longleftrightarrow> pending_requests s = []"
  by (simp add: io_registry_def)

text \<open>The causes after a transition: new instructions get the current cause, old ones keep theirs.\<close>

lemma update_queue_causes:
  assumes "causes_sync s" "q = new @ queue s"
  shows "instruction_causes (update_queue_with_causes q cause s) =
    replicate (length new) cause @ instruction_causes s"
proof (rule nth_equalityI)
  show "length (instruction_causes (update_queue_with_causes q cause s)) =
      length (replicate (length new) cause @ instruction_causes s)"
    using assms by (simp add: update_queue_with_causes_def causes_sync_def Let_def)
  show "instruction_causes (update_queue_with_causes q cause s) ! i =
      (replicate (length new) cause @ instruction_causes s) ! i"
    if "i < length (instruction_causes (update_queue_with_causes q cause s))" for i
    using assms that by (auto simp: update_queue_with_causes_def causes_sync_def Let_def cause_at_def nth_append list_get_def)
qed

end
