(* ===== verification/Reactor.thy ===== *)
theory Reactor
  imports ReactorState FactsLog
begin

text \<open>
  The reactor, \<open>evorule-reactor/src/reactor.rs\<close>, with its pure twin \<open>pure.rs\<close> and its errors.  The task
  is a loop over the body \<open>main_iteration\<close>; what arrives from outside during one iteration (the two flags,
  the facts on the channel, what the wait for a fact ends with and the clock) is its argument \<open>inp\<close>.  The
  state of the task, the log and the broadcast events are the record \<open>machine\<close>.  Log messages of
  \<open>tracing\<close> are left out.  The argument \<open>x\<close> holds what is not code of the repository or not of this
  file: the storage backend, \<open>blake3\<close>, the printer of \<open>serde_json\<close> and the derived \<open>Debug\<close> text of a value.
\<close>

section \<open>Errors\<close>

datatype reactor_error =
    ChannelClosed
  | MaxRoundsExceeded usize usize
  | TcbError string
  | InvalidStateField string
  | Cancelled
  | TaskJoinError string

fun reactor_error_display :: "reactor_error \<Rightarrow> string" where
  "reactor_error_display ChannelClosed = ''fact channel closed''"
| "reactor_error_display (MaxRoundsExceeded rounds max_rounds) =
     ''max rounds exceeded: '' @ dec_nat rounds @ '' > '' @ dec_nat max_rounds"
| "reactor_error_display (TcbError message) = ''TCB error: '' @ message"
| "reactor_error_display (InvalidStateField fld) = ''invalid state: missing '' @ fld"
| "reactor_error_display Cancelled = ''reactor cancelled''"
| "reactor_error_display (TaskJoinError message) = ''task join error: '' @ message"

section \<open>The pure twin\<close>

datatype step_outcome =
    StateChanged
  | StepIgnored string string
  | StepIoRequired string json
  | StepHalted usize string
  | StepTcbError string

definition next_step :: "json list \<Rightarrow> usize \<Rightarrow> reactor_state \<Rightarrow> step_outcome option \<times> reactor_state" where
  "next_step core_eval max_queue_len s =
     (case pop_instruction s of
        None \<Rightarrow> (None, s)
      | Some ((instruction, cause), s1) \<Rightarrow>
          (case execute_transition core_eval instruction (payload s1) (queue s1) of
             Inr (TState new_payload new_queue _) \<Rightarrow>
               (let s2 = update_queue_with_causes new_queue cause (s1\<lparr>payload := new_payload\<rparr>);
                    s3 = (if io_recovery s2 then (clear_io_result s2)\<lparr>io_recovery := False\<rparr> else s2);
                    s4 = bump_version s3;
                    s5 = (if max_queue_len > 0 \<and> length (queue s4) \<ge> max_queue_len then clear_queue s4 else s4) in
                (Some StateChanged, s5))
           | Inr (TIgnored instruction_type reason _) \<Rightarrow> (Some (StepIgnored instruction_type reason), bump_version s1)
           | Inr (TIoRequired ty params) \<Rightarrow> (Some (StepIoRequired ty params), push_front instruction cause s1)
           | Inr (THalted rule_index reason) \<Rightarrow> (Some (StepHalted rule_index reason), s1)
           | Inl err \<Rightarrow> (Some (StepTcbError (tcb_error_display err)), s1)))"

definition apply_command :: "json \<Rightarrow> fact_id \<Rightarrow> reactor_state \<Rightarrow> reactor_state" where
  "apply_command instruction cause s = push_back instruction cause s"

definition apply_payload_update :: "string \<Rightarrow> json \<Rightarrow> reactor_state \<Rightarrow> reactor_error + reactor_state" where
  "apply_payload_update path v s =
     (case resolve_path_mut (\<lambda>_. v) (payload s) path of
        Some p \<Rightarrow> Inr (bump_version (s\<lparr>payload := p\<rparr>))
      | None \<Rightarrow>
          (if CHR ''.'' \<notin> set path \<and> CHR ''['' \<notin> set path
           then (case payload s of
                   Object m \<Rightarrow> Inr (bump_version (s\<lparr>payload := Object (bt_put path v m)\<rparr>))
                 | _ \<Rightarrow> Inl (InvalidStateField ''payload path does not exist''))
           else Inl (InvalidStateField ''payload path does not exist'')))"

definition pure_inject_io_result :: "io_type \<Rightarrow> json \<Rightarrow> reactor_state \<Rightarrow> reactor_error + reactor_state" where
  "pure_inject_io_result ty res s =
     (let err = InvalidStateField ''payload is not an object, cannot inject __io_results__'' in
      case payload s of
        Object m \<Rightarrow>
          (case unwrap_or empty_object (bt_get ''__io_results__'' m) of
             Object io_map \<Rightarrow> Inr (s\<lparr>payload := Object (bt_put ''__io_results__'' (Object (bt_put ty res io_map)) m)\<rparr>)
           | _ \<Rightarrow> Inl err)
      | _ \<Rightarrow> Inl err)"

definition resume_instruction :: "fact_id \<Rightarrow> reactor_state \<Rightarrow> reactor_state" where
  "resume_instruction request_id s =
     (case take_io_instruction request_id s of
        (Some (orig_instruction, orig_cause), s') \<Rightarrow> (push_front orig_instruction orig_cause s')\<lparr>io_recovery := True\<rparr>
      | (None, s') \<Rightarrow> s')"

text \<open>The result and the state: the request is completed even when the injection fails.\<close>

definition apply_io_response :: "fact_id \<Rightarrow> json \<Rightarrow> reactor_state \<Rightarrow> (reactor_error + bool) \<times> reactor_state" where
  "apply_io_response request_id res s =
     (let ty = get_io_type request_id s in
      case complete_io_request request_id s of
        (False, s1) \<Rightarrow> (Inr False, s1)
      | (True, s1) \<Rightarrow>
          if is_null res then (Inr True, bump_version (snd (take_io_instruction request_id s1)))
          else (case (case ty of Some t \<Rightarrow> pure_inject_io_result t res s1 | None \<Rightarrow> Inr s1) of
                  Inl e \<Rightarrow> (Inl e, s1)
                | Inr s2 \<Rightarrow> (Inr True, bump_version (resume_instruction request_id s2))))"

definition pure_is_stable :: "usize \<Rightarrow> usize \<Rightarrow> usize \<Rightarrow> bool" where
  "pure_is_stable q p n \<longleftrightarrow> q = 0 \<and> p = 0 \<and> n > 0"

definition register_io_request_pure :: "fact_id \<Rightarrow> io_type \<Rightarrow> json \<Rightarrow> reactor_state \<Rightarrow> reactor_state" where
  "register_io_request_pure i ty instruction s =
     (if bt_contains i (pending_requests s) then s
      else s\<lparr>pending_requests := bt_put i () (pending_requests s),
             pending_io_count := saturating_inc_usize (pending_io_count s),
             pending_io_types := bt_put i ty (pending_io_types s),
             pending_io_instructions := bt_put i (instruction, 0) (pending_io_instructions s)\<rparr>)"

section \<open>Configuration and machine\<close>

definition DEFAULT_MAX_QUEUE_LEN :: nat where
  "DEFAULT_MAX_QUEUE_LEN = 1000"

definition SNAPSHOT_UPDATE_INTERVAL :: nat where
  "SNAPSHOT_UPDATE_INTERVAL = 100"

definition nanos :: "nat \<Rightarrow> duration" where
  "nanos secs = secs * 1000000000"

record reactor_config =
  core_eval :: "json list"
  max_rounds :: usize
  max_queue_len :: usize
  io_warn_timeout :: duration
  io_error_timeout :: duration
  io_timeout_check_interval :: duration
  fact_id_start :: "u64 option"
  known_io_types :: "string list option"

definition builder_new :: "json list \<Rightarrow> reactor_config" where
  "builder_new rules =
     \<lparr>core_eval = rules, max_rounds = 10000, max_queue_len = DEFAULT_MAX_QUEUE_LEN,
      io_warn_timeout = nanos 30, io_error_timeout = nanos 60, io_timeout_check_interval = nanos 5,
      fact_id_start = None, known_io_types = None\<rparr>"

record pending_io_entry =
  entry_id :: fact_id
  entry_io_type :: io_type
  entry_started_at :: instant

record reactor_state_snapshot =
  snap_phase :: reactor_phase
  snap_version :: u64
  snap_violations :: u64
  snap_pending_io_count :: usize
  snap_pending_io :: "pending_io_entry list"
  snap_steps :: usize
  snap_queue_len :: usize
  snap_finished :: bool

record 's ext =
  ext_store :: "'s store_op"
  ext_blake3 :: "string \<Rightarrow> string"
  ext_ser :: "serde \<Rightarrow> string"
  ext_debug :: "json \<Rightarrow> string"

record 's machine =
  mstate :: reactor_state
  flog :: "'s facts_log"
  id_gen :: fact_id_generator
  steps :: usize
  events :: "fact list"
  interrupt_flag :: bool
  latest_invariants :: "usize \<times> invariant_violation list"
  snapshot_cell :: reactor_state_snapshot

type_synonym 's step = "'s machine \<Rightarrow> 's machine"

definition on_state :: "(reactor_state \<Rightarrow> reactor_state) \<Rightarrow> 's step" where
  "on_state g m = m\<lparr>mstate := g (mstate m)\<rparr>"

definition set_phase :: "reactor_phase \<Rightarrow> 's step" where
  "set_phase ph = on_state (\<lambda>s. s\<lparr>phase := ph\<rparr>)"

definition fresh_id :: "'s machine \<Rightarrow> fact_id \<times> 's machine" where
  "fresh_id m = (let (i, g) = next_id (id_gen m) in (i, m\<lparr>id_gen := g\<rparr>))"

definition update_snapshot_cell :: "bool \<Rightarrow> 's step" where
  "update_snapshot_cell finished m =
     (let s = mstate m in
      m\<lparr>snapshot_cell :=
        \<lparr>snap_phase = phase s, snap_version = rs_version s, snap_violations = structural_invariant_violations s,
         snap_pending_io_count = pending_io_count s,
         snap_pending_io =
           (if pending_io_count s > 0
            then concat (map (\<lambda>(i, started_at).
                   case bt_get i (pending_io_types s) of
                     Some ty \<Rightarrow> [\<lparr>entry_id = i, entry_io_type = ty, entry_started_at = started_at\<rparr>]
                   | None \<Rightarrow> []) (pending_io_timestamps s))
            else []),
         snap_steps = steps m, snap_queue_len = length (queue s), snap_finished = finished\<rparr>\<rparr>)"

section \<open>Emitting facts\<close>

text \<open>
  Append to the log, ignoring an error, and broadcast.  When the backend has failed for the third time in
  a row the log calls back: the session is to be interrupted and an error with the guidance is broadcast.
\<close>

definition emit_fact :: "'s ext \<Rightarrow> fact \<Rightarrow> 's step" where
  "emit_fact x f m =
     (let (r, l') = append (ext_store x) (ext_blake3 x) (ext_ser x) f (flog m);
          m1 = m\<lparr>flog := l'\<rparr>;
          m2 = (case r of
                  Inl (WalError guidance) \<Rightarrow>
                    if unat (wal_fail_count l') \<ge> WAL_FAIL_TERMINATE_THRESHOLD
                    then m1\<lparr>interrupt_flag := True, events := events m1 @ [Error (- 1) guidance]\<rparr>
                    else m1
                | _ \<Rightarrow> m1) in
      m2\<lparr>events := events m2 @ [f]\<rparr>)"

definition emit_error :: "'s ext \<Rightarrow> string \<Rightarrow> 's step" where
  "emit_error x msg m = (let (i, m1) = fresh_id m in emit_fact x (Error i msg) m1)"

definition emit_stable :: "'s ext \<Rightarrow> 's step" where
  "emit_stable x m = (let (i, m1) = fresh_id m in emit_fact x (Stable i (rs_version (mstate m1))) m1)"

definition emit_trace :: "'s ext \<Rightarrow> fact_id \<Rightarrow> rule_hit list \<Rightarrow> 's step" where
  "emit_trace x cause hits m =
     (let (i, m1) = fresh_id m in emit_fact x (TransitionTrace i cause (map from_rule_hit hits)) m1)"

section \<open>Handling a fact\<close>

fun put_nested :: "string list \<Rightarrow> json \<Rightarrow> json \<Rightarrow> reactor_error + json" where
  "put_nested [] v cur = Inl (InvalidStateField ''payload path is empty'')"
| "put_nested [fld] v cur =
     (case cur of
        Object m \<Rightarrow> Inr (Object (bt_put fld v m))
      | _ \<Rightarrow> Inl (InvalidStateField ''parent path is not an object''))"
| "put_nested (part # rest) v cur =
     (case cur of
        Object m \<Rightarrow>
          (let m' = (if bt_contains part m then m else bt_put part empty_object m) in
           case bt_get part m' of
             None \<Rightarrow> Inl (InvalidStateField ''failed to access nested path'')
           | Some nxt \<Rightarrow> map_ok (\<lambda>j. Object (bt_put part j m')) (put_nested rest v nxt))
      | _ \<Rightarrow> Inl (InvalidStateField ''intermediate path is not an object''))"

definition update_payload :: "string \<Rightarrow> json \<Rightarrow> reactor_state \<Rightarrow> reactor_error + reactor_state" where
  "update_payload path v s =
     (case resolve_path_mut (\<lambda>_. v) (payload s) path of
        Some p \<Rightarrow> Inr (s\<lparr>payload := p\<rparr>)
      | None \<Rightarrow>
          (let parts = split_on (CHR ''.'') path in
           if parts = [] then Inl (InvalidStateField ''payload path is empty'')
           else if length parts = 1 then
             (case payload s of
                Object m \<Rightarrow> Inr (s\<lparr>payload := Object (bt_put (last parts) v m)\<rparr>)
              | _ \<Rightarrow> Inl (InvalidStateField ''payload is not an object''))
           else map_ok (\<lambda>p. s\<lparr>payload := p\<rparr>) (put_nested parts v (payload s))))"

definition inject_io_result :: "io_type \<Rightarrow> json \<Rightarrow> reactor_state \<Rightarrow> reactor_error + reactor_state" where
  "inject_io_result ty res s = update_payload (''__io_results__.'' @ ty) res s"

text \<open>A response to a request that is still pending.\<close>

definition accept_response :: "fact_id \<Rightarrow> json \<Rightarrow> string option \<Rightarrow> reactor_state \<Rightarrow> reactor_error + reactor_state" where
  "accept_response request_id res err s =
     (let ty = get_io_type request_id s; s1 = snd (complete_io_request request_id s) in
      if is_null res \<or> err \<noteq> None
      then Inr (bump_version (snd (take_io_instruction request_id s1)))
      else
        and_then (case ty of Some t \<Rightarrow> inject_io_result t res s1 | None \<Rightarrow> Inr s1) (\<lambda>s2.
        Inr (bump_version (resume_instruction request_id s2))))"

fun handle_fact :: "'s ext \<Rightarrow> fact \<Rightarrow> 's machine \<Rightarrow> reactor_error + 's machine" where
  "handle_fact x (Command i instruction) m = Inr (on_state (push_back instruction i) m)"
| "handle_fact x (PayloadUpdate _ path v) m =
     map_ok (\<lambda>s. m\<lparr>mstate := bump_version s\<rparr>) (update_payload path v (mstate m))"
| "handle_fact x (IoResponse _ request_id res err) m =
     (if fst (complete_io_request request_id (mstate m))
      then map_ok (\<lambda>s. m\<lparr>mstate := s\<rparr>) (accept_response request_id res err (mstate m))
      else Inr (emit_error x (''IoResponse for unknown/stale request_id '' @ fact_id_display request_id
             @ '' ignored (duplicate, late-after-timeout, or forged)'') m))"
| "handle_fact x _ m = Inr m"

section \<open>Executing instructions\<close>

text \<open>How one pass of the inner loop ends: go round again, leave the loop, or start over.\<close>

datatype 's exec_exit = Again "'s machine" | Leave "'s machine" | ToMain "'s machine"

definition rounds_exceeded :: "reactor_config \<Rightarrow> 's ext \<Rightarrow> 's step" where
  "rounds_exceeded cfg x m =
     (let m1 = emit_error x (reactor_error_display (MaxRoundsExceeded (steps m) (max_rounds cfg))) (set_phase PhaseError m);
          m2 = (on_state clear_queue m1)\<lparr>steps := 0\<rparr> in
      set_phase Idle (emit_stable x (set_phase PhaseStable m2)))"

definition queue_exceeded :: "reactor_config \<Rightarrow> 's ext \<Rightarrow> 's step" where
  "queue_exceeded cfg x m =
     (let m1 = emit_error x (''Queue length '' @ dec_nat (length (queue (mstate m))) @ '' exceeds max ''
                 @ dec_nat (max_queue_len cfg)) (set_phase PhaseError m);
          m2 = emit_stable x (set_phase PhaseStable (on_state clear_queue m1)) in
      set_phase Idle (m2\<lparr>steps := 0\<rparr>))"

definition apply_transition ::
  "reactor_config \<Rightarrow> 's ext \<Rightarrow> fact_id \<Rightarrow> json \<Rightarrow> json list \<Rightarrow> rule_hit list \<Rightarrow> 's machine \<Rightarrow> 's exec_exit" where
  "apply_transition cfg x cause new_payload new_queue hits m =
     (let m1 = on_state (\<lambda>s. update_queue_with_causes new_queue cause (s\<lparr>payload := new_payload\<rparr>)) m in
      if length (queue (mstate m1)) \<ge> max_queue_len cfg \<and> max_queue_len cfg > 0
      then ToMain (queue_exceeded cfg x m1)
      else
        (let m2 = on_state (\<lambda>s. bump_version (if io_recovery s then clear_io_recovery s else s)) m1;
             (i, m3) = fresh_id m2;
             m4 = emit_fact x (StateTransition i cause (payload (mstate m3)) (queue (mstate m3))) m3 in
         Again (emit_trace x i hits m4)))"

definition ignore_instruction ::
  "'s ext \<Rightarrow> json \<Rightarrow> string \<Rightarrow> string \<Rightarrow> rule_hit list \<Rightarrow> 's step" where
  "ignore_instruction x instruction instruction_type reason hits m =
     (let (i, m1) = fresh_id (set_phase PhaseError m);
          m2 = emit_fact x (Error i (''Instruction ignored by TCB: type='' @ instruction_type @ '', reason=''
                 @ reason @ '', instruction='' @ ext_debug x instruction)) m1 in
      set_phase Idle (emit_trace x i hits m2))"

definition reject_instruction :: "'s ext \<Rightarrow> json \<Rightarrow> fact_id \<Rightarrow> usize \<Rightarrow> string \<Rightarrow> 's step" where
  "reject_instruction x instruction cause rule_index reason m =
     (let (i, m1) = fresh_id (set_phase PhaseError m) in
      set_phase Idle (emit_fact x (Violation i cause (word_of_nat rule_index) reason instruction) m1))"

definition request_io ::
  "reactor_config \<Rightarrow> 's ext \<Rightarrow> instant \<Rightarrow> json \<Rightarrow> fact_id \<Rightarrow> string \<Rightarrow> json \<Rightarrow> 's machine \<Rightarrow> 's exec_exit" where
  "request_io cfg x now instruction cause io_type_str params m =
     (let (i, m1) = fresh_id m in
      if (case known_io_types cfg of Some known \<Rightarrow> io_type_str \<notin> set known | None \<Rightarrow> False)
      then ToMain (set_phase Idle (emit_fact x (Error i (''unknown io_type: '' @ io_type_str
             @ '' (not in known_io_types, instruction: '' @ ext_debug x instruction @ '')'')) (set_phase PhaseError m1)))
      else
        (let m2 = on_state (\<lambda>s. save_io_instruction i instruction cause (register_io_request_at i io_type_str now s)) m1 in
         Leave (emit_fact x (IoRequest i cause io_type_str params) (set_phase AwaitingIo m2))))"

definition tcb_failed :: "'s ext \<Rightarrow> json \<Rightarrow> tcb_error \<Rightarrow> 's step" where
  "tcb_failed x instruction err m =
     set_phase Idle (emit_error x (''TCB error at step '' @ dec_nat (steps m) @ '': '' @ tcb_error_display err
       @ '' (instruction: '' @ ext_debug x instruction @ '')'') (set_phase PhaseError m))"

definition exec_instruction ::
  "reactor_config \<Rightarrow> 's ext \<Rightarrow> instant \<Rightarrow> json \<Rightarrow> fact_id \<Rightarrow> 's machine \<Rightarrow> 's exec_exit" where
  "exec_instruction cfg x now instruction cause m =
     (case execute_transition (core_eval cfg) instruction (payload (mstate m)) (queue (mstate m)) of
        Inr (TState new_payload new_queue hits) \<Rightarrow> apply_transition cfg x cause new_payload new_queue hits m
      | Inr (TIgnored instruction_type reason hits) \<Rightarrow> ToMain (ignore_instruction x instruction instruction_type reason hits m)
      | Inr (THalted rule_index reason) \<Rightarrow> ToMain (reject_instruction x instruction cause rule_index reason m)
      | Inr (TIoRequired ty params) \<Rightarrow> request_io cfg x now instruction cause ty params m
      | Inl err \<Rightarrow> ToMain (tcb_failed x instruction err m))"

definition exec_step :: "reactor_config \<Rightarrow> 's ext \<Rightarrow> instant \<Rightarrow> 's machine \<Rightarrow> 's exec_exit" where
  "exec_step cfg x now m =
     (if steps m \<ge> max_rounds cfg then ToMain (rounds_exceeded cfg x m)
      else
        (case pop_instruction (mstate m) of
           None \<Rightarrow> Leave m
         | Some ((instruction, cause), s) \<Rightarrow>
             (let m1 = m\<lparr>mstate := s, steps := steps m + 1\<rparr>;
                  m2 = (if steps m1 mod SNAPSHOT_UPDATE_INTERVAL = 0 then update_snapshot_cell False m1 else m1) in
              exec_instruction cfg x now instruction cause m2)))"

subsection \<open>What the steps leave alone\<close>

lemma emit_fact_frame [simp]:
  "mstate (emit_fact x f m) = mstate m" "id_gen (emit_fact x f m) = id_gen m" "steps (emit_fact x f m) = steps m"
  by (simp_all add: emit_fact_def Let_def split: prod.splits sum.splits facts_log_error.splits)

lemma fresh_id_frame [simp]:
  "mstate (snd (fresh_id m)) = mstate m" "steps (snd (fresh_id m)) = steps m" "flog (snd (fresh_id m)) = flog m"
  "events (snd (fresh_id m)) = events m" "interrupt_flag (snd (fresh_id m)) = interrupt_flag m"
  "fst (fresh_id m) = next_id_value (id_gen m)"
  by (simp_all add: fresh_id_def next_id_def)

lemma on_state_frame [simp]:
  "mstate (on_state g m) = g (mstate m)" "steps (on_state g m) = steps m" "flog (on_state g m) = flog m"
  "events (on_state g m) = events m" "id_gen (on_state g m) = id_gen m"
  "interrupt_flag (on_state g m) = interrupt_flag m"
  by (simp_all add: on_state_def)

lemma set_phase_frame [simp]:
  "mstate (set_phase ph m) = (mstate m)\<lparr>phase := ph\<rparr>" "steps (set_phase ph m) = steps m"
  "flog (set_phase ph m) = flog m" "events (set_phase ph m) = events m" "id_gen (set_phase ph m) = id_gen m"
  "interrupt_flag (set_phase ph m) = interrupt_flag m"
  by (simp_all add: set_phase_def)

lemma snapshot_cell_frame [simp]:
  "mstate (update_snapshot_cell b m) = mstate m" "steps (update_snapshot_cell b m) = steps m"
  "flog (update_snapshot_cell b m) = flog m" "events (update_snapshot_cell b m) = events m"
  "id_gen (update_snapshot_cell b m) = id_gen m" "interrupt_flag (update_snapshot_cell b m) = interrupt_flag m"
  by (simp_all add: update_snapshot_cell_def Let_def)

lemma emit_error_frame [simp]: "mstate (emit_error x msg m) = mstate m" "steps (emit_error x msg m) = steps m"
  by (simp_all add: emit_error_def case_prod_beta)

lemma emit_stable_frame [simp]: "mstate (emit_stable x m) = mstate m" "steps (emit_stable x m) = steps m"
  by (simp_all add: emit_stable_def case_prod_beta)

lemma emit_trace_frame [simp]: "mstate (emit_trace x c hs m) = mstate m" "steps (emit_trace x c hs m) = steps m"
  by (simp_all add: emit_trace_def case_prod_beta)

lemma apply_transition_steps: "apply_transition cfg x c p q hs m = Again m' \<Longrightarrow> steps m' = steps m"
  by (auto simp: apply_transition_def Let_def case_prod_beta split: if_splits)

lemma request_io_not_again: "request_io cfg x now i c ty ps m \<noteq> Again m'"
  by (simp add: request_io_def Let_def case_prod_beta)

lemma exec_instruction_Again:
  "exec_instruction cfg x now i c m = Again m' \<Longrightarrow> steps m' = steps m"
  by (auto simp: exec_instruction_def apply_transition_steps request_io_not_again split: sum.splits transition_result.splits)

lemma exec_step_Again:
  assumes "exec_step cfg x now m = Again m'"
  shows "steps m' = Suc (steps m)" "steps m < max_rounds cfg"
  using assms by (auto simp: exec_step_def Let_def dest!: exec_instruction_Again split: if_splits option.splits)

lemma exec_step_cases:
  obtains (exceeded) "max_rounds cfg \<le> steps m" "exec_step cfg x now m = ToMain (rounds_exceeded cfg x m)"
  | (empty) "steps m < max_rounds cfg" "queue (mstate m) = []" "exec_step cfg x now m = Leave m"
  | (run) i c s m2 where "steps m < max_rounds cfg" "pop_instruction (mstate m) = Some ((i, c), s)"
      "mstate m2 = s" "steps m2 = Suc (steps m)" "flog m2 = flog m" "events m2 = events m" "id_gen m2 = id_gen m"
      "interrupt_flag m2 = interrupt_flag m" "exec_step cfg x now m = exec_instruction cfg x now i c m2"
proof (cases "max_rounds cfg \<le> steps m")
  case True
  then show thesis using exceeded by (simp add: exec_step_def)
next
  case False
  show thesis
  proof (cases "pop_instruction (mstate m)")
    case None
    then show thesis using False empty by (auto simp: exec_step_def pop_instruction_def split: list.splits)
  next
    case (Some p)
    obtain i c s where p: "p = ((i, c), s)" by (metis prod.collapse)
    let ?m = "m\<lparr>mstate := s, steps := steps m + 1\<rparr>"
    let ?m2 = "if steps ?m mod SNAPSHOT_UPDATE_INTERVAL = 0 then update_snapshot_cell False ?m else ?m"
    show thesis
      using False Some by (intro run [of i c s ?m2]) (simp_all add: exec_step_def p Let_def)
  qed
qed

subsection \<open>The inner loop\<close>

text \<open>
  It ends: every pass that goes round again has counted a step, and at the limit of rounds it leaves.
\<close>

function exec_loop :: "reactor_config \<Rightarrow> 's ext \<Rightarrow> instant \<Rightarrow> 's machine \<Rightarrow> 's machine \<times> bool" where
  "exec_loop cfg x now m =
     (if pending_io_count (mstate m) \<noteq> 0 then (m, False)
      else (case exec_step cfg x now m of
              Again m' \<Rightarrow> exec_loop cfg x now m'
            | Leave m' \<Rightarrow> (m', False)
            | ToMain m' \<Rightarrow> (m', True)))"
  by pat_completeness auto
termination
  by (relation "measure (\<lambda>(cfg, x, now, m). max_rounds cfg - steps m)")
    (simp_all, metis exec_step_Again diff_less_mono2 lessI)

declare exec_loop.simps [simp del]

section \<open>The main loop\<close>

datatype await_result = Received fact | ChannelGone | TimedOut

record iteration_input =
  in_interrupt :: bool
  in_cancel_all :: bool
  in_drain :: "fact list"
  in_disconnected :: bool
  in_await :: await_result
  in_now :: instant

datatype 's loop_result = Continue "'s machine" | Finished "'s machine" | Failed reactor_error

definition run_invariant_check :: "'s step" where
  "run_invariant_check m =
     (let vs = check_invariants (mstate m) in
      (on_state (\<lambda>s. s\<lparr>structural_invariant_violations :=
          saturating_add_u64 (structural_invariant_violations s) (word_of_nat (length vs))\<rparr>) m)
        \<lparr>latest_invariants := (steps m, vs)\<rparr>)"

definition handle_interrupt :: "'s ext \<Rightarrow> 's step" where
  "handle_interrupt x m =
     (let m1 = emit_error x ''Execution interrupted by external request'' (set_phase PhaseError (m\<lparr>interrupt_flag := False\<rparr>));
          m2 = emit_stable x (set_phase PhaseStable m1) in
      set_phase Idle (m2\<lparr>steps := 0\<rparr>))"

definition remove_request :: "'s ext \<Rightarrow> (fact_id \<Rightarrow> string) \<Rightarrow> 's machine \<Rightarrow> fact_id \<Rightarrow> 's machine" where
  "remove_request x msg m i = on_state (force_remove_io_request i) (emit_error x (msg i) m)"

definition cancel_all :: "'s ext \<Rightarrow> 's step" where
  "cancel_all x m =
     foldl (remove_request x (\<lambda>i. ''I/O request '' @ fact_id_display i @ '' cancelled by external request'')) m
       (map fst (pending_io_timestamps (mstate m)))"

definition check_io_timeouts :: "reactor_config \<Rightarrow> 's ext \<Rightarrow> instant \<Rightarrow> 's step" where
  "check_io_timeouts cfg x now m =
     (if pending_io_count (mstate m) = 0 then m
      else
        (let error_ids = map fst (filter (\<lambda>(_, t). now - t \<ge> io_error_timeout cfg) (pending_io_timestamps (mstate m))) in
         foldl (remove_request x (\<lambda>i. ''I/O request '' @ fact_id_display i @ '' timed out after ''
             @ dec_nat (io_error_timeout cfg div nanos 1) @ ''s'')) m error_ids))"

fun drain :: "'s ext \<Rightarrow> fact list \<Rightarrow> 's machine \<Rightarrow> reactor_error + 's machine" where
  "drain x [] m = Inr m"
| "drain x (f # fs) m = and_then (handle_fact x f (emit_fact x f m)) (drain x fs)"

definition announce_stable :: "'s ext \<Rightarrow> 's step" where
  "announce_stable x m =
     (let m1 = emit_stable x (set_phase PhaseStable m) in set_phase Idle (m1\<lparr>steps := 0\<rparr>))"

definition execute_phase :: "reactor_config \<Rightarrow> 's ext \<Rightarrow> instant \<Rightarrow> 's machine \<Rightarrow> 's loop_result" where
  "execute_phase cfg x now m = Continue (fst (exec_loop cfg x now (set_phase Executing m)))"

definition main_iteration :: "reactor_config \<Rightarrow> 's ext \<Rightarrow> iteration_input \<Rightarrow> 's machine \<Rightarrow> 's loop_result" where
  "main_iteration cfg x inp m =
     (let m0 = run_invariant_check (update_snapshot_cell False m) in
      if interrupt_flag m0 \<or> in_interrupt inp then Continue (handle_interrupt x m0)
      else if in_cancel_all inp then Continue (cancel_all x m0)
      else
        (case drain x (in_drain inp) (set_phase Draining m0) of
           Inl e \<Rightarrow> Failed e
         | Inr m1 \<Rightarrow>
             if in_disconnected inp then Finished (update_snapshot_cell True m1)
             else if is_stable (length (queue (mstate m1))) (pending_io_count (mstate m1)) \<and> steps m1 > 0
             then Continue (announce_stable x m1)
             else if (queue (mstate m1) = [] \<or> pending_io_count (mstate m1) > 0) \<and> in_drain inp = []
             then
               (let m2 = set_phase AwaitingIo m1 in
                case in_await inp of
                  Received f \<Rightarrow>
                    (case handle_fact x f (emit_fact x f m2) of
                       Inl e \<Rightarrow> Failed e
                     | Inr m3 \<Rightarrow> execute_phase cfg x (in_now inp) m3)
                | ChannelGone \<Rightarrow> Finished (update_snapshot_cell True m2)
                | TimedOut \<Rightarrow> Continue (check_io_timeouts cfg x (in_now inp) m2))
             else execute_phase cfg x (in_now inp) m1))"

text \<open>\<open>run\<close> up to the loop: the state is seeded from a log that is not new.\<close>

definition run_start :: "reactor_config \<Rightarrow> 's facts_log \<Rightarrow> 's machine" where
  "run_start cfg l =
     (let (seed_payload, seed_queue, seed_version) = snapshot l;
          s = (if seed_version > 0
               then state_new\<lparr>payload := seed_payload, queue := seed_queue, rs_version := seed_version,
                      prev_version := saturating_sub_u64 seed_version 1\<rparr>
               else state_new) in
      \<lparr>mstate = s, flog = l,
       id_gen = (case fact_id_start cfg of None \<Rightarrow> id_gen_new | Some n \<Rightarrow> id_gen_resume n),
       steps = 0, events = [], interrupt_flag = False, latest_invariants = (0, []),
       snapshot_cell = \<lparr>snap_phase = Idle, snap_version = 0, snap_violations = 0, snap_pending_io_count = 0,
         snap_pending_io = [], snap_steps = 0, snap_queue_len = 0, snap_finished = False\<rparr>\<rparr>)"

inductive reactor_reachable :: "reactor_config \<Rightarrow> 's ext \<Rightarrow> 's facts_log \<Rightarrow> 's machine \<Rightarrow> bool"
  for cfg x l0 where
  started: "reactor_reachable cfg x l0 (run_start cfg l0)"
| iterated: "reactor_reachable cfg x l0 m \<Longrightarrow> main_iteration cfg x inp m = Continue m' \<Longrightarrow>
    reactor_reachable cfg x l0 m'"

section \<open>Invariants of the state through the loop\<close>

context state_invariant
begin

lemma I_update_payload: "update_payload path v s = Inr s' \<Longrightarrow> I s \<Longrightarrow> I s'"
  by (auto simp: update_payload_def Let_def map_ok_Inr_iff intro: I_payload split: option.splits if_splits json.splits)

lemma I_resume: "I s \<Longrightarrow> I (resume_instruction i s)"
  using I_take [of s i]
  by (auto simp: resume_instruction_def intro!: I_recovery I_push_front split: prod.splits option.splits)

lemma I_accept: "accept_response i res err s = Inr s' \<Longrightarrow> I s \<Longrightarrow> I s'"
  by (auto simp: accept_response_def Let_def and_then_Inr_iff inject_io_result_def
      intro!: I_version I_take I_resume I_complete dest: I_update_payload split: if_splits option.splits)

lemma I_handle: "handle_fact x f m = Inr m' \<Longrightarrow> I (mstate m) \<Longrightarrow> I (mstate m')"
  by (cases f) (auto simp: map_ok_Inr_iff intro!: I_push_back I_version elim: I_update_payload I_accept split: if_splits)

lemma I_drain: "drain x fs m = Inr m' \<Longrightarrow> I (mstate m) \<Longrightarrow> I (mstate m')"
proof (induction x fs m rule: drain.induct)
  case (2 x f fs m)
  then obtain m1 where m1: "handle_fact x f (emit_fact x f m) = Inr m1" "drain x fs m1 = Inr m'"
    by (auto simp: and_then_Inr_iff)
  have "I (mstate m1)" using I_handle [OF m1(1)] 2(3) by simp
  with 2(1) m1 show ?case by blast
qed simp

lemma I_remove: "I (mstate m) \<Longrightarrow> I (mstate (foldl (remove_request x msg) m ids))"
proof (induction ids arbitrary: m)
  case (Cons i ids)
  have "I (mstate (remove_request x msg m i))" using Cons.prems by (simp add: remove_request_def I_force_remove)
  then show ?case using Cons.IH by simp
qed simp

lemma I_apply_transition:
  "I (mstate m) \<Longrightarrow> apply_transition cfg x c p q hs m = e \<Longrightarrow>
   e = Again m' \<or> e = Leave m' \<or> e = ToMain m' \<Longrightarrow> I (mstate m')"
  by (auto simp: apply_transition_def queue_exceeded_def Let_def case_prod_beta split: if_splits intro!: I_ops)

lemma I_exec_instruction:
  assumes "I (mstate m)" "exec_instruction cfg x now i c m \<in> {Again m', Leave m', ToMain m'}"
  shows "I (mstate m')"
  using assms
  by (auto simp: exec_instruction_def ignore_instruction_def reject_instruction_def request_io_def tcb_failed_def
      Let_def case_prod_beta intro!: I_ops dest: I_apply_transition split: sum.splits transition_result.splits if_splits)

lemma I_exec_step:
  assumes "I (mstate m)" "exec_step cfg x now m \<in> {Again m', Leave m', ToMain m'}"
  shows "I (mstate m')"
proof (cases rule: exec_step_cases [of cfg m x now])
  case exceeded
  with assms show ?thesis by (auto simp: rounds_exceeded_def Let_def intro!: I_ops)
next
  case empty
  with assms show ?thesis by simp
next
  case (run i c s m2)
  then have "I (mstate m2)" using I_pop assms(1) by blast
  with assms(2) run(9) show ?thesis by (metis I_exec_instruction)
qed

lemma I_exec_loop: "I (mstate m) \<Longrightarrow> I (mstate (fst (exec_loop cfg x now m)))"
proof (induction cfg x now m rule: exec_loop.induct)
  case (1 cfg x now m)
  show ?case
    using 1 I_exec_step [of m cfg x now] unfolding exec_loop.simps [of cfg x now m]
    by (auto split: exec_exit.splits)
qed

lemma I_execute_phase: "execute_phase cfg x now m = Continue m' \<Longrightarrow> I (mstate m) \<Longrightarrow> I (mstate m')"
  by (auto simp: execute_phase_def intro!: I_exec_loop I_phase)

lemma I_main:
  assumes "main_iteration cfg x inp m = Continue m'" "I (mstate m)"
  shows "I (mstate m')"
proof -
  let ?m0 = "run_invariant_check (update_snapshot_cell False m)"
  have m0: "I (mstate ?m0)" using assms(2) by (simp add: run_invariant_check_def Let_def I_violations)
  consider "m' = handle_interrupt x ?m0" | "m' = cancel_all x ?m0"
    | m1 where "drain x (in_drain inp) (set_phase Draining ?m0) = Inr m1"
        "m' = announce_stable x m1 \<or> m' = check_io_timeouts cfg x (in_now inp) (set_phase AwaitingIo m1) \<or>
         execute_phase cfg x (in_now inp) m1 = Continue m' \<or>
         (\<exists>f m3. handle_fact x f (emit_fact x f (set_phase AwaitingIo m1)) = Inr m3 \<and>
            execute_phase cfg x (in_now inp) m3 = Continue m')"
    using assms(1)
    by (auto simp: main_iteration_def Let_def split: if_splits sum.splits await_result.splits)
  then show ?thesis
  proof cases
    case 1
    with m0 show ?thesis by (simp add: handle_interrupt_def Let_def I_phase)
  next
    case 2
    with m0 show ?thesis by (simp add: cancel_all_def I_remove)
  next
    case (3 m1)
    then have "I (mstate m1)" using m0 by (auto dest!: I_drain intro: I_phase)
    with 3(2) show ?thesis
      by (auto simp: announce_stable_def check_io_timeouts_def Let_def intro!: I_phase I_remove
          dest!: I_execute_phase I_handle)
  qed
qed

end

section \<open>Lemmas for the properties\<close>

lemma unat_max_u64: "unat (- 1 :: u64) = 18446744073709551615"
  by (simp add: unsigned_minus_1_eq_mask mask_eq_exp_minus_1)

lemma two_below_max:
  assumes "unat (v :: u64) + 2 < 2 ^ 64"
  shows "v \<noteq> - 1" "v + 1 \<noteq> - 1"
proof -
  show v: "v \<noteq> - 1" using assms unat_max_u64 by auto
  show "v + 1 \<noteq> - 1"
  proof
    assume "v + 1 = - 1"
    then have "unat (v + 1) = unat (- 1 :: u64)" by (rule arg_cong)
    with unat_inc_u64 [OF v] unat_max_u64 assms show False by simp
  qed
qed

lemma last_events_emit [simp]: "last (events (emit_fact x f m)) = f"
  by (simp add: emit_fact_def Let_def split: prod.splits sum.splits facts_log_error.splits)

lemma events_emit_mono: "set (events m) \<subseteq> set (events (emit_fact x f m))"
  by (auto simp: emit_fact_def Let_def split: prod.splits sum.splits facts_log_error.splits)

lemma emitted: "f \<in> set (events (emit_fact x f m))"
  by (auto simp: emit_fact_def Let_def split: prod.splits sum.splits facts_log_error.splits)

lemma flog_emit: "flog (emit_fact x f m) = snd (append (ext_store x) (ext_blake3 x) (ext_ser x) f (flog m))"
  by (simp add: emit_fact_def Let_def split: prod.splits sum.splits facts_log_error.splits)

lemma bt_contains_del [simp]: "bt_contains j (bt_del i m) \<longleftrightarrow> bt_contains j m \<and> j \<noteq> i"
  by (simp add: bt_contains_def)

lemma update_payload_frame:
  "update_payload path v s = Inr s' \<Longrightarrow> \<exists>p. s' = s\<lparr>payload := p\<rparr>"
  by (auto simp: update_payload_def Let_def map_ok_Inr_iff split: option.splits if_splits json.splits)

lemma resume_pending: "pending_requests (resume_instruction i s) = pending_requests s"
  by (simp add: resume_instruction_def take_io_instruction_def push_front_def split: option.splits prod.splits)

lemma accept_pending:
  assumes "accept_response i res err s = Inr s'"
  shows "pending_requests s' = pending_requests (snd (complete_io_request i s))"
  using assms
  by (auto simp: accept_response_def Let_def bump_version_def take_io_instruction_def and_then_Inr_iff resume_pending
      inject_io_result_def dest!: update_payload_frame split: if_splits option.splits)

text \<open>Removing requests one by one leaves the requests that are not listed.\<close>

lemma force_remove_requests:
  "pending_requests (force_remove_io_request i s) = bt_del i (pending_requests s)"
proof (cases "bt_contains i (pending_requests s)")
  case False
  then have "bt_del i (pending_requests s) = pending_requests s"
    by (auto simp: bt_contains_def bt_del_def bt_get_None_iff filter_id_conv image_iff)
  with False show ?thesis by (simp add: force_remove_io_request_def)
qed (simp add: force_remove_io_request_def)

lemma force_remove_frame:
  "payload (force_remove_io_request i s) = payload s" "queue (force_remove_io_request i s) = queue s"
  "rs_version (force_remove_io_request i s) = rs_version s"
  "instruction_causes (force_remove_io_request i s) = instruction_causes s"
  by (simp_all add: force_remove_io_request_def)

lemma remove_requests:
  "pending_requests (mstate (foldl (remove_request x msg) m ids)) =
     filter (\<lambda>p. fst p \<notin> set ids) (pending_requests (mstate m)) \<and>
   payload (mstate (foldl (remove_request x msg) m ids)) = payload (mstate m) \<and>
   queue (mstate (foldl (remove_request x msg) m ids)) = queue (mstate m) \<and>
   rs_version (mstate (foldl (remove_request x msg) m ids)) = rs_version (mstate m)"
proof (induction ids arbitrary: m)
  case (Cons i ids)
  have "filter (\<lambda>p. fst p \<notin> set ids) (bt_del i (pending_requests (mstate m))) =
      filter (\<lambda>p. fst p \<notin> set (i # ids)) (pending_requests (mstate m))"
    by (simp add: bt_del_def conj_commute)
  with Cons.IH [of "remove_request x msg m i"] show ?case
    by (simp add: remove_request_def force_remove_requests force_remove_frame)
qed simp

lemma run_start_registry: "io_registry (mstate (run_start cfg l))"
  by (simp add: run_start_def io_registry_def state_new_def bt_new_def snapshot_def)

lemma run_start_causes:
  "version l = 0 \<or> current_queue l = [] \<Longrightarrow> causes_sync (mstate (run_start cfg l))"
  by (auto simp: run_start_def causes_sync_def state_new_def snapshot_def word_gt_0)

text \<open>The log after an append that the backend does not refuse.\<close>

definition store_ok :: "'s ext \<Rightarrow> bool" where
  "store_ok x \<longleftrightarrow> (\<forall>vb f ch ph kh st. \<exists>st'. ext_store x vb f ch ph kh st = Inr st')"

lemma append_accepted:
  assumes "store_ok x" "version l \<noteq> - 1"
  obtains l1 kh where "l1 = l \<or> (\<exists>st. l1 = l\<lparr>wal := Some st, wal_fail_count := 0\<rparr>)"
    "append (ext_store x) (ext_blake3 x) (ext_ser x) f l =
       (Inr (version (record_step (version l) f l1)), (record_step (version l) f l1)\<lparr>last_hash := kh\<rparr>)"
  using assms(2)
proof (cases rule: append_outcome [of _ "ext_store x" "ext_blake3 x" "ext_ser x" f])
  case (failed e)
  show thesis
  proof (cases "wal l")
    case None
    with failed assms(2) show thesis by (simp add: append_def append_memory_ok Let_def)
  next
    case (Some st)
    obtain st' where "ext_store x (version l) f (fact_hash (ext_blake3 x) (ext_ser x) f) (last_hash l)
        (chain_step (ext_blake3 x) (last_hash l) (fact_hash (ext_blake3 x) (ext_ser x) f)) st = Inr st'"
      using assms(1) unfolding store_ok_def by blast
    with Some failed assms(2) show thesis by (simp add: append_def append_memory_ok Let_def)
  qed
next
  case (written l1)
  with that show thesis by blast
qed

lemma append_in_memory:
  assumes "wal l = None" "version l \<noteq> - 1"
  shows "version (snd (append store blake3 ser f l)) =
      (case f of StateTransition _ _ _ _ \<Rightarrow> version l + 1 | IoResponse _ _ _ _ \<Rightarrow> version l + 1
       | PayloadUpdate _ _ _ \<Rightarrow> version l + 1 | _ \<Rightarrow> version l)"
    "wal (snd (append store blake3 ser f l)) = None"
  using assms
  by (cases f; simp add: append_def append_memory_ok Let_def record_step_def bump_log_version_def checked_inc_u64_def
      index_fact_def push_history_def)+

lemma append_transition:
  assumes "store_ok x" "version l \<noteq> - 1"
    and l': "l' = snd (append (ext_store x) (ext_blake3 x) (ext_ser x) (StateTransition i c p q) l)"
  shows "current_snapshot l' = p" "current_queue l' = q" "version l' = version l + 1"
proof -
  obtain l1 kh where l1: "l1 = l \<or> (\<exists>st. l1 = l\<lparr>wal := Some st, wal_fail_count := 0\<rparr>)"
    "l' = (record_step (version l) (StateTransition i c p q) l1)\<lparr>last_hash := kh\<rparr>"
    using append_accepted [OF assms(1,2), of "StateTransition i c p q"] unfolding l' by (metis snd_conv)
  from l1(1) assms(2) show "current_snapshot l' = p" "current_queue l' = q" "version l' = version l + 1"
    unfolding l1(2) by (auto simp: record_step_def bump_log_version_def checked_inc_u64_def index_fact_def push_history_def)
qed

lemma append_trace:
  assumes "store_ok x" "version l \<noteq> - 1"
    and l': "l' = snd (append (ext_store x) (ext_blake3 x) (ext_ser x) (TransitionTrace i c hs) l)"
  shows "current_snapshot l' = current_snapshot l" "current_queue l' = current_queue l" "version l' = version l"
proof -
  obtain l1 kh where l1: "l1 = l \<or> (\<exists>st. l1 = l\<lparr>wal := Some st, wal_fail_count := 0\<rparr>)"
    "l' = (record_step (version l) (TransitionTrace i c hs) l1)\<lparr>last_hash := kh\<rparr>"
    using append_accepted [OF assms(1,2), of "TransitionTrace i c hs"] unfolding l' by (metis snd_conv)
  from l1(1) show "current_snapshot l' = current_snapshot l" "current_queue l' = current_queue l" "version l' = version l"
    unfolding l1(2) by (auto simp: record_step_def index_fact_def push_history_def)
qed

lemma exec_instruction_exits:
  "exec_instruction cfg x now i c m = ToMain m1 \<Longrightarrow> steps m1 = steps m \<or> steps m1 = 0"
  "exec_instruction cfg x now i c m = Leave m1 \<Longrightarrow> steps m1 = steps m \<and>
     (\<exists>ty params. execute_transition (core_eval cfg) i (payload (mstate m)) (queue (mstate m)) = Inr (TIoRequired ty params) \<and>
        request_io cfg x now i c ty params m = Leave m1)"
  by (auto simp: exec_instruction_def apply_transition_def queue_exceeded_def ignore_instruction_def reject_instruction_def
      request_io_def tcb_failed_def Let_def case_prod_beta split: sum.splits transition_result.splits if_splits)

lemma request_io_pending:
  assumes "request_io cfg x now i c ty params m = Leave m1" "pending_requests (mstate m) = []"
  shows "pending_io_count (mstate m1) > 0"
  using assms
  by (auto simp: request_io_def Let_def case_prod_beta save_io_instruction_def register_io_request_at_def bt_contains_def
      split: if_splits)

lemma exec_step_Leave:
  assumes "exec_step cfg x now m = Leave m1" "io_registry (mstate m)" "pending_io_count (mstate m) = 0"
  shows "steps m1 \<le> Suc (steps m)" "steps m < max_rounds cfg"
    "queue (mstate m1) = [] \<or> pending_io_count (mstate m1) > 0"
proof -
  have "steps m1 \<le> Suc (steps m) \<and> steps m < max_rounds cfg \<and>
      (queue (mstate m1) = [] \<or> pending_io_count (mstate m1) > 0)"
  proof (cases rule: exec_step_cases [of cfg m x now])
    case (run i c s m2)
    have "pending_requests s = []"
      using registry_pending [OF assms(2)] assms(3) run(2) by (auto elim: pop_instruction_SomeE)
    moreover from run(9) assms(1) have "exec_instruction cfg x now i c m2 = Leave m1" by simp
    from exec_instruction_exits(2) [OF this] obtain ty params
      where "steps m1 = steps m2" "request_io cfg x now i c ty params m2 = Leave m1" by blast
    ultimately have "pending_io_count (mstate m1) > 0" using request_io_pending run(3) by blast
    with \<open>steps m1 = steps m2\<close> run(1,4) show ?thesis by simp
  qed (use assms(1) in auto)
  then show "steps m1 \<le> Suc (steps m)" "steps m < max_rounds cfg"
    "queue (mstate m1) = [] \<or> pending_io_count (mstate m1) > 0" by auto
qed

lemma exec_step_ToMain:
  assumes "exec_step cfg x now m = ToMain m1"
  shows "steps m1 = 0 \<or> steps m1 = Suc (steps m) \<and> steps m < max_rounds cfg"
proof (cases rule: exec_step_cases [of cfg m x now])
  case exceeded
  with assms show ?thesis by (auto simp: rounds_exceeded_def Let_def)
next
  case (run i c s m2)
  with assms exec_instruction_exits(1) [of cfg x now i c m2 m1] show ?thesis by auto
qed (use assms in auto)

lemma apply_transition_Again:
  assumes "apply_transition cfg x c p q hs m = Again m'"
  defines "s1 \<equiv> update_queue_with_causes q c ((mstate m)\<lparr>payload := p\<rparr>)"
  defines "s' \<equiv> bump_version (if io_recovery s1 then clear_io_recovery s1 else s1)"
  obtains m4 where "m' = emit_trace x (next_id_value (id_gen m)) hs m4" "mstate m' = s'"
    "flog m4 = snd (append (ext_store x) (ext_blake3 x) (ext_ser x)
       (StateTransition (next_id_value (id_gen m)) c (payload s') (queue s')) (flog m))"
    "StateTransition (next_id_value (id_gen m)) c (payload s') (queue s') \<in> set (events m4)"
proof -
  let ?m1 = "on_state (\<lambda>s. update_queue_with_causes q c (s\<lparr>payload := p\<rparr>)) m"
  let ?m2 = "on_state (\<lambda>s. bump_version (if io_recovery s then clear_io_recovery s else s)) ?m1"
  let ?m4 = "emit_fact x (StateTransition (next_id_value (id_gen m)) c (payload s') (queue s')) (snd (fresh_id ?m2))"
  have "m' = emit_trace x (next_id_value (id_gen m)) hs ?m4"
    using assms(1) by (simp add: apply_transition_def Let_def case_prod_beta s1_def s'_def split: if_splits)
  with that [of ?m4] show thesis by (simp add: s1_def s'_def flog_emit emitted)
qed

lemma exec_instruction_AgainE:
  assumes "exec_instruction cfg x now i c m = Again m'"
  obtains p q hs where "execute_transition (core_eval cfg) i (payload (mstate m)) (queue (mstate m)) = Inr (TState p q hs)"
    "apply_transition cfg x c p q hs m = Again m'"
  using assms by (auto simp: exec_instruction_def request_io_not_again split: sum.splits transition_result.splits)

lemma flog_emit_trace:
  "\<exists>i. flog (emit_trace x c hs m) =
     snd (append (ext_store x) (ext_blake3 x) (ext_ser x) (TransitionTrace i c (map from_rule_hit hs)) (flog m))"
  by (auto simp: emit_trace_def case_prod_beta flog_emit)

lemma events_emit_trace: "set (events m) \<subseteq> set (events (emit_trace x c hs m))"
  using events_emit_mono [of "snd (fresh_id m)"] by (simp add: emit_trace_def case_prod_beta)

lemma logged_transition:
  assumes "store_ok x" "unat (version (flog m)) + 2 < 2 ^ 64"
    and "flog m4 = snd (append (ext_store x) (ext_blake3 x) (ext_ser x) (StateTransition i c p q) (flog m))"
  shows "current_snapshot (flog (emit_trace x k hs m4)) = p" "current_queue (flog (emit_trace x k hs m4)) = q"
    "version (flog (emit_trace x k hs m4)) = version (flog m) + 1"
proof -
  note v = two_below_max [OF assms(2)]
  have st: "current_snapshot (flog m4) = p" "current_queue (flog m4) = q" "version (flog m4) = version (flog m) + 1"
    using append_transition [OF assms(1) v(1) assms(3)] by auto
  have "version (flog m4) \<noteq> - 1"
    unfolding st(3) by (rule v(2))
  moreover obtain i where "flog (emit_trace x k hs m4) =
      snd (append (ext_store x) (ext_blake3 x) (ext_ser x) (TransitionTrace i k (map from_rule_hit hs)) (flog m4))"
    using flog_emit_trace by blast
  ultimately show "current_snapshot (flog (emit_trace x k hs m4)) = p" "current_queue (flog (emit_trace x k hs m4)) = q"
    "version (flog (emit_trace x k hs m4)) = version (flog m) + 1"
    using append_trace [OF assms(1)] st by metis+
qed

section \<open>Properties\<close>


definition sample_ext :: "wal_record list ext" where
  "sample_ext = \<lparr>ext_store = memory_wal_append, ext_blake3 = id, ext_ser = (\<lambda>_. []), ext_debug = (\<lambda>_. [])\<rparr>"


text \<open>
  C12: the executing phase ends.  It counts no more than \<open>max_rounds\<close> steps, and when it ends without
  handing back to the main loop for an error, a violation or a limit, the queue is empty or an I/O request
  is pending.
\<close>

theorem exec_loop_outcome:
  assumes "exec_loop cfg x now m = (m', restarted)" "io_registry (mstate m)" "steps m \<le> max_rounds cfg"
  shows "steps m' \<le> max_rounds cfg \<and>
    (\<not> restarted \<longrightarrow> queue (mstate m') = [] \<or> pending_io_count (mstate m') > 0)"
  using assms
proof (induction cfg x now m rule: exec_loop.induct)
  case (1 cfg x now m)
  show ?case
  proof (cases "pending_io_count (mstate m) = 0")
    case False
    with 1 show ?thesis by (simp add: exec_loop.simps [of cfg x now m])
  next
    case idle: True
    note loop = exec_loop.simps [of cfg x now m]
    show ?thesis
    proof (cases "exec_step cfg x now m")
      case (Again m1)
      then have "io_registry (mstate m1)" "steps m1 \<le> max_rounds cfg"
        using registry.I_exec_step [OF 1(3)] exec_step_Again [OF Again] by auto
      with 1 Again idle loop show ?thesis by simp
    next
      case (Leave m1)
      with exec_step_Leave [OF Leave 1(3) idle] 1 idle loop show ?thesis by auto
    next
      case (ToMain m1)
      with exec_step_ToMain [OF ToMain] 1 idle loop show ?thesis by auto
    qed
  qed
qed

theorem exec_loop_outcome_witness:
  "steps (fst (exec_loop (builder_new []) sample_ext 0 (run_start (builder_new []) log_new))) \<le> 10000"
proof -
  let ?m0 = "run_start (builder_new []) log_new :: wal_record list machine"
  obtain m b where r: "exec_loop (builder_new []) sample_ext 0 ?m0 = (m, b)" by fastforce
  have "steps ?m0 \<le> max_rounds (builder_new [])" by (simp add: run_start_def snapshot_def)
  with exec_loop_outcome [OF r run_start_registry] have "steps m \<le> max_rounds (builder_new [])" by blast
  then have "steps m \<le> 10000" by (simp add: builder_new_def)
  with r show ?thesis by simp
qed

text \<open>
  C9: a violating instruction has no effect.  If a top-level \<open>enforce\<close> rule holds for the next queued
  instruction, the step hands back to the main loop with payload, version and the recovery flag as they
  were and only that instruction gone from the queue; the last fact broadcast is the violation, naming the
  first such rule, the cause and the instruction, unless the evaluation itself failed, which is reported
  as an error.
\<close>

theorem violation_rejected:
  assumes "queue (mstate m) = instr # rest" "instruction_causes (mstate m) = c # cs" "steps m < max_rounds cfg"
    and "rule \<in> set (core_eval cfg)" "enforce_violated rule (build_exec_state instr (payload (mstate m)) rest)"
  shows "\<exists>m'. exec_step cfg x now m = ToMain m' \<and>
    payload (mstate m') = payload (mstate m) \<and> rs_version (mstate m') = rs_version (mstate m) \<and>
    io_recovery (mstate m') = io_recovery (mstate m) \<and> queue (mstate m') = rest \<and>
    ((\<exists>i reason. last (events m') = Violation (next_id_value (id_gen m)) c (word_of_nat i) reason instr \<and>
        i < length (core_eval cfg) \<and>
        enforce_violated (core_eval cfg ! i) (build_exec_state instr (payload (mstate m)) rest) \<and>
        (\<forall>k < i. \<not> enforce_violated (core_eval cfg ! k) (build_exec_state instr (payload (mstate m)) rest))) \<or>
     (\<exists>err msg. execute_transition (core_eval cfg) instr (payload (mstate m)) rest = Inl err \<and>
        last (events m') = Error (next_id_value (id_gen m)) msg))"
proof (cases rule: exec_step_cases [of cfg m x now])
  case (run i c' s m2)
  then have s: "i = instr" "c' = c" "s = (mstate m)\<lparr>queue := rest, instruction_causes := cs\<rparr>"
    using assms(1,2) by (auto simp: pop_instruction_def)
  let ?r = "execute_transition (core_eval cfg) instr (payload (mstate m)) rest"
  show ?thesis
  proof (cases ?r)
    case (Inl err)
    with run s show ?thesis
      by (auto simp: exec_instruction_def tcb_failed_def emit_error_def case_prod_beta)
  next
    case (Inr t)
    from Inr assms(4,5) obtain k reason where "t = THalted k reason" "k < length (core_eval cfg)"
      "enforce_violated (core_eval cfg ! k) (build_exec_state instr (payload (mstate m)) rest)"
      "\<forall>j < k. \<not> enforce_violated (core_eval cfg ! j) (build_exec_state instr (payload (mstate m)) rest)"
      by (rule violated_halts_first)
    with run s Inr show ?thesis
      by (auto simp: exec_instruction_def reject_instruction_def case_prod_beta)
  qed
qed (use assms in auto)


definition sample_machine :: "json list \<Rightarrow> wal_record list machine" where
  "sample_machine q = (run_start (builder_new []) log_new)\<lparr>mstate :=
     state_new\<lparr>payload := Object [], queue := q, instruction_causes := replicate (length q) 7\<rparr>\<rparr>"

theorem violation_rejected_witness:
  "\<exists>m'. exec_step (builder_new [sample_enforce]) sample_ext 0 (sample_machine [Null]) = ToMain m' \<and>
     payload (mstate m') = Object [] \<and> queue (mstate m') = []"
proof -
  have "rs_version (mstate (sample_machine [Null])) = 0" "queue (mstate (sample_machine [Null])) = Null # []"
    "instruction_causes (mstate (sample_machine [Null])) = 7 # []"
    "steps (sample_machine [Null]) < max_rounds (builder_new [sample_enforce])"
    "sample_enforce \<in> set (core_eval (builder_new [sample_enforce]))"
    and p: "payload (mstate (sample_machine [Null])) = Object []"
    by (simp_all add: sample_machine_def run_start_def snapshot_def builder_new_def state_new_def)
  from violation_rejected [OF this(2-5), of sample_ext 0] p sample_enforce_violated show ?thesis by auto
qed


text \<open>
  A response is consumed once.  After a response to a pending request was handled, the request is
  not pending, and any further response to it, whatever it carries, leaves the state as it is and is
  reported as an error.
\<close>

theorem response_consumed_once:
  assumes "handle_fact x (IoResponse j i res err) m = Inr m1" "bt_contains i (pending_requests (mstate m))"
  shows "\<not> bt_contains i (pending_requests (mstate m1)) \<and>
    (\<exists>m2 msg. handle_fact x (IoResponse j' i res' err') m1 = Inr m2 \<and> mstate m2 = mstate m1 \<and>
       last (events m2) = Error (next_id_value (id_gen m1)) msg)"
proof -
  from assms obtain s where "accept_response i res err (mstate m) = Inr s" "mstate m1 = s"
    by (auto simp: complete_io_request_def map_ok_Inr_iff)
  then have "pending_requests (mstate m1) = bt_del i (pending_requests (mstate m))"
    using accept_pending [of i res err "mstate m" s] assms(2) by (simp add: complete_io_request_def)
  then have "\<not> bt_contains i (pending_requests (mstate m1))" by simp
  then show ?thesis by (simp add: complete_io_request_def emit_error_def case_prod_beta)
qed

theorem response_consumed_once_witness:
  "\<exists>m1. handle_fact sample_ext (IoResponse 2 1 Null None)
      ((sample_machine [])\<lparr>mstate := register_io_request_at 1 ''http'' 0 state_new\<rparr>) = Inr m1 \<and>
    \<not> bt_contains 1 (pending_requests (mstate m1))"
proof -
  let ?m = "(sample_machine [])\<lparr>mstate := register_io_request_at 1 ''http'' 0 state_new\<rparr>"
  have p: "bt_contains 1 (pending_requests (mstate ?m))"
    by (simp add: register_io_request_at_def bt_contains_def)
  then obtain m1 where "handle_fact sample_ext (IoResponse 2 1 Null None) ?m = Inr m1"
    by (auto simp: accept_response_def complete_io_request_def)
  with response_consumed_once [OF this p] show ?thesis by blast
qed

text \<open>
  Cancelling and timing out remove exactly what they should.  Cancelling everything leaves no
  pending request; a timeout scan removes exactly the requests whose age has reached the limit; neither
  touches payload, queue or version.
\<close>

theorem io_cleanup_exact:
  fixes x :: "'s ext" and cfg now
  assumes "io_registry (mstate m)"
  defines "c \<equiv> mstate (cancel_all x m)" and "t \<equiv> mstate (check_io_timeouts cfg x now m)"
  shows "pending_requests c = [] \<and> pending_io_count c = 0 \<and>
    (\<forall>i. bt_contains i (pending_requests t) \<longleftrightarrow>
       (\<exists>since. bt_get i (pending_io_timestamps (mstate m)) = Some since \<and> now - since < io_error_timeout cfg)) \<and>
    payload c = payload (mstate m) \<and> queue c = queue (mstate m) \<and> rs_version c = rs_version (mstate m) \<and>
    payload t = payload (mstate m) \<and> queue t = queue (mstate m) \<and> rs_version t = rs_version (mstate m)"
proof -
  let ?ts = "pending_io_timestamps (mstate m)"
  have reg: "fst ` set ?ts = fst ` set (pending_requests (mstate m))" "bt_sorted ?ts"
    using assms(1) by (auto simp: io_registry_def)
  have "pending_requests c = []"
    using remove_requests [of x _ m "map fst ?ts"] reg(1) by (simp add: c_def cancel_all_def filter_empty_conv)
  moreover have "pending_io_count c = 0"
    using registry.I_remove [OF assms(1)] registry_pending \<open>pending_requests c = []\<close> by (simp add: c_def cancel_all_def)
  moreover have "bt_contains i (pending_requests t) \<longleftrightarrow>
      (\<exists>since. bt_get i ?ts = Some since \<and> now - since < io_error_timeout cfg)" for i
  proof (cases "pending_io_count (mstate m) = 0")
    case True
    then have "?ts = []" "pending_requests (mstate m) = []"
      using reg(1) registry_pending [OF assms(1)] by auto
    with True show ?thesis by (simp add: t_def check_io_timeouts_def bt_contains_def)
  next
    case False
    let ?ids = "map fst (filter (\<lambda>(_, s). io_error_timeout cfg \<le> now - s) ?ts)"
    have "pending_requests t = filter (\<lambda>p. fst p \<notin> set ?ids) (pending_requests (mstate m))"
      using False remove_requests [of x _ m ?ids] by (simp add: t_def check_io_timeouts_def)
    then have "bt_contains i (pending_requests t) \<longleftrightarrow> i \<in> fst ` set ?ts \<and> i \<notin> set ?ids"
      unfolding bt_contains_def bt_get_None_iff reg(1) by force
    also have "\<dots> \<longleftrightarrow> (\<exists>since. (i, since) \<in> set ?ts \<and> now - since < io_error_timeout cfg)"
      using bt_sorted_distinct [OF reg(2)] by (auto simp: not_le dest: eq_key_imp_eq_value) force+
    finally show ?thesis using bt_get_in_iff [OF reg(2)] by simp
  qed
  ultimately show ?thesis
    using remove_requests [of x _ m] by (auto simp: c_def t_def cancel_all_def check_io_timeouts_def Let_def)
qed

theorem io_cleanup_exact_witness:
  "pending_requests (mstate (cancel_all sample_ext
     ((sample_machine [])\<lparr>mstate := register_io_request_at 1 ''http'' 0 state_new\<rparr>))) = []"
proof -
  have "io_registry (mstate ((sample_machine [])\<lparr>mstate := register_io_request_at 1 ''http'' 0 state_new\<rparr>))"
    by (simp add: registry_register registry.I_new)
  from io_cleanup_exact [OF this] show ?thesis by blast
qed

text \<open>
  A stray response moves the log ahead of the reactor.  A response to a request that is not pending
  is first appended to the log, which counts a version for it, and then refused by the handler, which does
  not: after it the two versions differ by one.
\<close>

theorem stray_response_desynchronizes:
  assumes "\<not> bt_contains i (pending_requests (mstate m))" "wal (flog m) = None" "version (flog m) = rs_version (mstate m)"
    and "unat (version (flog m)) + 2 < 2 ^ 64"
  shows "\<exists>m'. drain x [IoResponse j i res err] m = Inr m' \<and> rs_version (mstate m') = rs_version (mstate m) \<and>
    version (flog m') = rs_version (mstate m') + 1"
proof -
  let ?l = "flog (emit_fact x (IoResponse j i res err) m)"
  note v = two_below_max [OF assms(4)]
  from v(1) have l: "version ?l = version (flog m) + 1" "wal ?l = None"
    using append_in_memory [OF assms(2)] by (simp_all add: flog_emit)
  have "version ?l \<noteq> - 1" unfolding l(1) by (rule v(2))
  then show ?thesis
    using assms(1,3) l append_in_memory [OF l(2)]
    by (simp add: complete_io_request_def emit_error_def case_prod_beta flog_emit)
qed

theorem stray_response_desynchronizes_witness:
  "\<exists>m'. drain sample_ext [IoResponse 2 1 Null None] (sample_machine []) = Inr m' \<and>
     rs_version (mstate m') = 0 \<and> version (flog m') = 1"
proof -
  have "\<not> bt_contains 1 (pending_requests (mstate (sample_machine [])))" "wal (flog (sample_machine [])) = None"
    "version (flog (sample_machine [])) = 0" "rs_version (mstate (sample_machine [])) = 0"
    by (simp_all add: sample_machine_def state_new_def run_start_def snapshot_def log_new_def bt_new_def bt_contains_def)
  with stray_response_desynchronizes [of 1 "sample_machine []" sample_ext 2 Null None] show ?thesis by auto
qed

end
