(* ===== verification/McuReactor.thy ===== *)
theory McuReactor
  imports McuExec Reactor
begin

text \<open>
  The microcontroller executor against the reactor.  \<open>evorule-mcu/src/exec.rs\<close> is written to emit, fact by
  fact, what the main loop of \<open>evorule-reactor/src/reactor.rs\<close> emits for the same rules; here the two
  models are related by a simulation over the passes of their loops, and the situations in which their
  logs differ are stated as theorems.
\<close>

section \<open>Matching states\<close>

text \<open>
  The same rules and limit of the queue, the same payload, queue with causes, version, next identifier and
  recovery flag; the facts broadcast by the reactor are those in the log of the executor, and both chains
  end in the same hash.
\<close>

definition matches :: "fact list \<Rightarrow> reactor_config \<Rightarrow> 's machine \<Rightarrow> ram_wal_store mcu_executor \<Rightarrow> bool" where
  "matches evs0 cfg m e \<longleftrightarrow>
     mx_pack e = core_eval cfg \<and> mx_max_queue_len e = max_queue_len cfg \<and>
     mx_payload e = payload (mstate m) \<and> causes_sync (mstate m) \<and>
     mx_queue e = zip (queue (mstate m)) (instruction_causes (mstate m)) \<and>
     mx_version e = rs_version (mstate m) \<and> mx_next_fact_id e + 1 = next_id_value (id_gen m) \<and>
     mx_io_recovery e = io_recovery (mstate m) \<and>
     events m = evs0 @ map mr_fact (ram_records (mx_wal e)) \<and>
     last_hash (flog m) = ram_chain_tail_hash (mx_wal e) \<and> \<not> interrupt_flag m"

abbreviation mcu_of :: "'s ext \<Rightarrow> ram_wal_store mcu_env" where
  "mcu_of x \<equiv> ram_env (ext_blake3 x) (ext_ser x) (ext_debug x)"

lemma matches_set_phase [simp]: "matches evs0 cfg (set_phase ph m) e = matches evs0 cfg m e"
  by (simp add: matches_def causes_sync_def)

lemma matches_steps [simp]: "matches evs0 cfg (m\<lparr>steps := n\<rparr>) e = matches evs0 cfg m e"
  by (simp add: matches_def)

lemma matches_clock [simp]: "matches evs0 cfg m (e\<lparr>mx_clock := c\<rparr>) = matches evs0 cfg m e"
  by (simp add: matches_def)

lemma matches_queue: "matches evs0 cfg m e \<Longrightarrow> map fst (mx_queue e) = queue (mstate m)"
  "matches evs0 cfg m e \<Longrightarrow> map snd (mx_queue e) = instruction_causes (mstate m)"
  by (simp_all add: matches_def causes_sync_def)

lemma matches_clear: "matches evs0 cfg m e \<Longrightarrow> matches evs0 cfg (on_state clear_queue m) (e\<lparr>mx_queue := []\<rparr>)"
  by (simp add: matches_def clear_queue_def causes_sync_def)

section \<open>Emitting\<close>

lemma append_chain:
  assumes "store_ok x"
  shows "last_hash (snd (append (ext_store x) (ext_blake3 x) (ext_ser x) f l)) =
      chain_step (ext_blake3 x) (last_hash l) (fact_hash (ext_blake3 x) (ext_ser x) f)"
    "fst (append (ext_store x) (ext_blake3 x) (ext_ser x) f l) \<noteq> Inl (WalError g)"
proof -
  have "last_hash (snd (append_memory vb f kh l1)) = kh \<and> fst (append_memory vb f kh l1) \<noteq> Inl (WalError g)" for vb kh and l1 :: "'a facts_log"
    by (cases f) (auto simp: append_memory_def apply_fact_to_state.simps bump_log_version_def index_fact_def push_history_def Let_def
        update_snapshot_def split: prod.splits option.splits if_splits)
  moreover obtain st' where "ext_store x (version l) f (fact_hash (ext_blake3 x) (ext_ser x) f) (last_hash l)
      (chain_step (ext_blake3 x) (last_hash l) (fact_hash (ext_blake3 x) (ext_ser x) f)) st = Inr (st' st)" for st
    using assms unfolding store_ok_def by metis
  ultimately show "last_hash (snd (append (ext_store x) (ext_blake3 x) (ext_ser x) f l)) =
      chain_step (ext_blake3 x) (last_hash l) (fact_hash (ext_blake3 x) (ext_ser x) f)"
    "fst (append (ext_store x) (ext_blake3 x) (ext_ser x) f l) \<noteq> Inl (WalError g)"
    by (cases "wal l"; simp add: append_def Let_def)+
qed

lemma emit_fact_ok:
  assumes "store_ok x"
  shows "events (emit_fact x f m) = events m @ [f]" "interrupt_flag (emit_fact x f m) = interrupt_flag m"
    "last_hash (flog (emit_fact x f m)) = chain_step (ext_blake3 x) (last_hash (flog m)) (fact_hash (ext_blake3 x) (ext_ser x) f)"
proof -
  obtain r l where a: "append (ext_store x) (ext_blake3 x) (ext_ser x) f (flog m) = (r, l)" by fastforce
  have "r \<noteq> Inl (WalError g)" for g using append_chain(2) [OF assms, of f "flog m"] a by simp
  then have "emit_fact x f m = m\<lparr>flog := l, events := events m @ [f]\<rparr>"
    by (auto simp: emit_fact_def a Let_def split: sum.splits facts_log_error.splits)
  then show "events (emit_fact x f m) = events m @ [f]" "interrupt_flag (emit_fact x f m) = interrupt_flag m"
    "last_hash (flog (emit_fact x f m)) = chain_step (ext_blake3 x) (last_hash (flog m)) (fact_hash (ext_blake3 x) (ext_ser x) f)"
    using append_chain(1) [OF assms, of f "flog m"] a by simp_all
qed

text \<open>A fact the executor emits is the fact the reactor emits under its next identifier.\<close>

lemma emit_matches:
  assumes "matches evs0 cfg m e" "store_ok x" "emit (mcu_of x) mk e = (Inr i, e')"
  shows "i = next_id_value (id_gen m) \<and> matches evs0 cfg (emit_fact x (mk (next_id_value (id_gen m))) (snd (fresh_id m))) e'"
proof (cases rule: emit_cases [of e "mcu_of x" mk])
  case exhausted
  with assms(3) show ?thesis by simp
next
  case (offered r e1)
  have i: "i = mx_next_fact_id e + 1" "e' = e1" using offered(3) assms(3) by (auto simp: map_ok_def split: sum.splits)
  have "e' = e\<lparr>mx_next_fact_id := i, mx_wal := mx_wal e'\<rparr>"
    "ram_records (mx_wal e') = ram_records (mx_wal e) @
       [as_record (mx_version e) (mk i) (fact_hash (ext_blake3 x) (ext_ser x) (mk i)) (ram_chain_tail_hash (mx_wal e))
         (chain_step (ext_blake3 x) (ram_chain_tail_hash (mx_wal e)) (fact_hash (ext_blake3 x) (ext_ser x) (mk i)))]"
    using offered(2) unfolding i by (auto simp: append_fact_def ram_env_def ram_store_def ram_append_record_def as_record_def Let_def)
  moreover have "id_gen (snd (fresh_id m)) = \<lparr>next_id_value = next_id_value (id_gen m) + 1\<rparr>"
    by (cases "id_gen m") (simp add: fresh_id_def next_id_def)
  moreover have "next_id_value (id_gen m) = i" using assms(1) i(1) by (simp add: matches_def)
  ultimately show ?thesis
    using assms(1) i(1) emit_fact_ok [OF assms(2), of "mk i" "snd (fresh_id m)"]
    by (cases e') (simp add: matches_def ram_chain_tail_hash_def as_record_def)
qed

section \<open>One pass\<close>

text \<open>The branches of the two loops, for a pass of the executor that goes on, ends the run or pauses it.\<close>

lemma ignore_matches:
  assumes "matches evs0 cfg m e" "store_ok x"
    and "bind_act (emit (mcu_of x) (\<lambda>i. Error i (''Instruction ignored by TCB: type='' @ ty @ '', reason='' @ reason
        @ '', instruction='' @ env_debug (mcu_of x) instr))) (\<lambda>err_id.
      bind_act (emit (mcu_of x) (\<lambda>i. TransitionTrace i err_id (map from_rule_hit hits))) (\<lambda>_. ret None)) e = (Inr r, e')"
  shows "matches evs0 cfg (ignore_instruction x instr ty reason hits m) e'"
proof -
  let ?err = "\<lambda>i. Error i (''Instruction ignored by TCB: type='' @ ty @ '', reason='' @ reason @ '', instruction='' @ ext_debug x instr)"
  obtain i e1 j where e1: "emit (mcu_of x) ?err e = (Inr i, e1)"
    "emit (mcu_of x) (\<lambda>j. TransitionTrace j i (map from_rule_hit hits)) e1 = (Inr j, e')"
    using assms(3) by (auto simp: ret_def ram_env_def elim!: bind_actE)
  from emit_matches [OF _ assms(2) e1(1), of evs0 cfg "set_phase PhaseError m"] assms(1)
  have i: "i = next_id_value (id_gen m)"
    "matches evs0 cfg (emit_fact x (?err (next_id_value (id_gen m))) (snd (fresh_id (set_phase PhaseError m)))) e1" by simp_all
  from emit_matches [OF i(2) assms(2) e1(2)] i(1) show ?thesis
    by (simp add: ignore_instruction_def emit_trace_def case_prod_beta)
qed

lemma reject_matches:
  assumes "matches evs0 cfg m e" "store_ok x"
    and "bind_act (emit (mcu_of x) (\<lambda>i. Violation i cause (word_of_nat k) reason instr)) (\<lambda>_. ret None) e = (Inr r, e')"
  shows "matches evs0 cfg (reject_instruction x instr cause k reason m) e'"
proof -
  obtain i where "emit (mcu_of x) (\<lambda>i. Violation i cause (word_of_nat k) reason instr) e = (Inr i, e')"
    using assms(3) by (auto simp: ret_def elim!: bind_actE)
  from emit_matches [OF _ assms(2) this, of evs0 cfg "set_phase PhaseError m"] assms(1) show ?thesis
    by (simp add: reject_instruction_def case_prod_beta)
qed

lemma emit_error_matches:
  assumes "matches evs0 cfg m e" "store_ok x" "emit (mcu_of x) (\<lambda>i. Error i msg) e = (Inr i, e')"
  shows "matches evs0 cfg (emit_error x msg m) e'"
  using emit_matches [OF assms] by (simp add: emit_error_def case_prod_beta)

lemma emit_stable_matches:
  assumes "matches evs0 cfg m e" "store_ok x" "emit (mcu_of x) (\<lambda>i. Stable i (mx_version e)) e = (Inr i, e')"
  shows "matches evs0 cfg (emit_stable x m) e'"
proof -
  have "mx_version e = rs_version (mstate m)" using assms(1) by (simp add: matches_def)
  with emit_matches [OF assms] show ?thesis by (simp add: emit_stable_def case_prod_beta)
qed

lemma failed_matches:
  assumes "matches evs0 cfg m e" "store_ok x"
    and "bind_act (emit (mcu_of x) (\<lambda>i. Error i (''TCB error at step '' @ dec_nat (steps m) @ '': '' @ tcb_error_display err
        @ '' (instruction: '' @ env_debug (mcu_of x) instr @ '')''))) (\<lambda>_. ret None) e = (Inr r, e')"
  shows "matches evs0 cfg (tcb_failed x instr err m) e'"
proof -
  obtain i where "emit (mcu_of x) (\<lambda>i. Error i (''TCB error at step '' @ dec_nat (steps m) @ '': '' @ tcb_error_display err
        @ '' (instruction: '' @ ext_debug x instr @ '')'')) e = (Inr i, e')"
    using assms(3) by (auto simp: ret_def ram_env_def elim!: bind_actE)
  from emit_error_matches [OF _ assms(2) this, of evs0 cfg "set_phase PhaseError m"] assms(1) show ?thesis
    by (simp add: tcb_failed_def)
qed

lemma exceeded_matches:
  assumes "matches evs0 cfg m e" "store_ok x"
    and "abandon_run (mcu_of x) (''Queue length '' @ dec_nat (length (mx_queue e)) @ '' exceeds max '' @ dec_nat (mx_max_queue_len e)) n e = (Inr r, e')"
  shows "matches evs0 cfg (queue_exceeded cfg x m) e'" "steps (queue_exceeded cfg x m) = 0" "queue (mstate (queue_exceeded cfg x m)) = []"
proof -
  let ?msg = "''Queue length '' @ dec_nat (length (queue (mstate m))) @ '' exceeds max '' @ dec_nat (max_queue_len cfg)"
  have len: "length (mx_queue e) = length (queue (mstate m))" "mx_max_queue_len e = max_queue_len cfg"
    using assms(1) by (simp_all add: matches_def causes_sync_def)
  obtain i e1 j where e1: "emit (mcu_of x) (\<lambda>i. Error i ?msg) e = (Inr i, e1)"
    "emit (mcu_of x) (\<lambda>i. Stable i (mx_version (e1\<lparr>mx_queue := []\<rparr>))) (e1\<lparr>mx_queue := []\<rparr>) = (Inr j, e')"
    using assms(3) unfolding len by (auto simp: abandon_run_def modify_def elim!: bind_actE)
  have "matches evs0 cfg (emit_error x ?msg (set_phase PhaseError m)) e1"
    by (rule emit_error_matches [OF _ assms(2) e1(1)]) (simp add: assms(1))
  from emit_stable_matches [OF _ assms(2) e1(2), of evs0 cfg "set_phase PhaseStable (on_state clear_queue (emit_error x ?msg (set_phase PhaseError m)))"]
    matches_clear [OF this]
  show "matches evs0 cfg (queue_exceeded cfg x m) e'" by (simp add: queue_exceeded_def Let_def)
qed (simp_all add: queue_exceeded_def Let_def clear_queue_def)

text \<open>The queues after a transition agree, and so do the payloads after a recovery.\<close>

lemma align_causes_zip:
  assumes "length cs = length q"
  shows "align_causes cause (zip q cs) new_queue =
    zip new_queue (map (cause_at (length new_queue - length q) cs cause) [0..<length new_queue])"
  by (rule nth_equalityI) (use assms in \<open>auto simp: align_causes_def cause_at_def Let_def\<close>)

lemma transition_matches:
  assumes "matches evs0 cfg m e"
  shows "matches evs0 cfg (on_state (\<lambda>s. update_queue_with_causes q cause (s\<lparr>payload := p\<rparr>)) m)
    (e\<lparr>mx_payload := p, mx_queue := align_causes cause (mx_queue e) q\<rparr>)"
  using assms
  by (auto simp: matches_def update_queue_with_causes_def causes_sync_def Let_def align_causes_zip)

lemma recovery_matches:
  assumes "matches evs0 cfg m e"
  shows "matches evs0 cfg (on_state (\<lambda>s. if io_recovery s then clear_io_recovery s else s) m) (clear_recovery e)"
  using assms
  by (auto simp: matches_def clear_recovery_def clear_io_recovery_def clear_io_result_def causes_sync_def split: json.splits)

lemma emit_fact_on_state: "emit_fact x f (on_state g m) = on_state g (emit_fact x f m)"
  by (auto simp: emit_fact_def on_state_def Let_def split: prod.splits sum.splits facts_log_error.splits)

lemma fresh_id_on_state: "snd (fresh_id (on_state g m)) = on_state g (snd (fresh_id m))"
  by (simp add: fresh_id_def on_state_def Let_def case_prod_beta)

lemma bump_matches:
  assumes "matches evs0 cfg m e" "bump e = (Inr u, e')"
  shows "matches evs0 cfg (on_state bump_version m) e'"
  using assms by (auto simp: matches_def bump_def bump_version_def causes_sync_def split: if_splits)

lemma apply_matches:
  assumes m: "matches evs0 cfg m e" "store_ok x" and a: "mcu_apply_transition (mcu_of x) cause n p q hits e = (Inr r, e')"
  shows "\<exists>m'. matches evs0 cfg m' e' \<and> pending_io_count (mstate m') = pending_io_count (mstate m) \<and>
    (case r of
       None \<Rightarrow> apply_transition cfg x cause p q hits m = Again m' \<and> steps m' = steps m
     | Some rep \<Rightarrow> apply_transition cfg x cause p q hits m = ToMain m' \<and> steps m' = 0 \<and> queue (mstate m') = [])"
proof -
  let ?m1 = "on_state (\<lambda>s. update_queue_with_causes q cause (s\<lparr>payload := p\<rparr>)) m"
  let ?e1 = "e\<lparr>mx_payload := p, mx_queue := align_causes cause (mx_queue e) q\<rparr>"
  have m1: "matches evs0 cfg ?m1 ?e1" by (rule transition_matches [OF m(1)])
  have len: "length (mx_queue ?e1) = length (queue (mstate ?m1))" "mx_max_queue_len ?e1 = max_queue_len cfg"
    using m1 by (simp_all add: matches_def causes_sync_def)
  have pend: "pending_io_count (mstate ?m1) = pending_io_count (mstate m)"
    by (simp add: update_queue_with_causes_def Let_def)
  show ?thesis
  proof (cases "max_queue_len cfg > 0 \<and> length (queue (mstate ?m1)) \<ge> max_queue_len cfg")
    case True
    then have ab: "abandon_run (mcu_of x) (''Queue length '' @ dec_nat (length (mx_queue ?e1)) @ '' exceeds max '' @ dec_nat (mx_max_queue_len ?e1)) n ?e1 = (Inr r, e')"
      using a unfolding mcu_apply_transition_def Let_def len by simp
    from exceeded_matches [OF m1 m(2) ab] True pend abandon_run_report(2) [OF ab] show ?thesis
      by (intro exI [of _ "queue_exceeded cfg x ?m1"])
        (simp add: apply_transition_def Let_def, simp add: queue_exceeded_def Let_def clear_queue_def)
  next
    case False
    let ?e2 = "clear_recovery ?e1" and ?m2 = "on_state (\<lambda>s. if io_recovery s then clear_io_recovery s else s) ?m1"
    let ?st = "\<lambda>i. StateTransition i cause (mx_payload ?e2) (map fst (mx_queue ?e2))"
    have "bind_act (emit (mcu_of x) ?st) (\<lambda>st_id. bind_act bump (\<lambda>_.
        bind_act (emit (mcu_of x) (\<lambda>i. TransitionTrace i st_id (map from_rule_hit hits))) (\<lambda>_. ret None))) ?e2 = (Inr r, e')"
      using a False unfolding mcu_apply_transition_def Let_def len by (auto split: if_splits)
    then obtain i e3 u e4 j where e3: "emit (mcu_of x) ?st ?e2 = (Inr i, e3)" "bump e3 = (Inr u, e4)"
      "emit (mcu_of x) (\<lambda>j. TransitionTrace j i (map from_rule_hit hits)) e4 = (Inr j, e')" and r: "r = None"
      by (auto simp: ret_def elim!: bind_actE)
    have m2: "matches evs0 cfg ?m2 ?e2" by (rule recovery_matches [OF m1])
    note e = emit_matches [OF m2 m(2) e3(1)]
    let ?m4 = "on_state bump_version (emit_fact x (?st (next_id_value (id_gen ?m2))) (snd (fresh_id ?m2)))"
    have m4: "matches evs0 cfg ?m4 e4" by (rule bump_matches [OF conjunct2 [OF e] e3(2)])
    have "matches evs0 cfg (emit_trace x i hits ?m4) e'"
      using emit_matches [OF m4 m(2) e3(3)] by (simp add: emit_trace_def case_prod_beta)
    moreover have "apply_transition cfg x cause p q hits m = Again (emit_trace x i hits ?m4)"
    proof -
      have pq: "mx_payload ?e2 = payload (mstate ?m2)" "map fst (mx_queue ?e2) = queue (mstate ?m2)"
        using m2 matches_queue(1) [OF m2] by (simp_all only: matches_def)
      have b: "on_state (\<lambda>s. bump_version (if io_recovery s then clear_io_recovery s else s)) ?m1 = on_state bump_version ?m2"
        by (simp add: on_state_def)
      have k: "payload (mstate (on_state bump_version ?m2)) = payload (mstate ?m2)"
        "queue (mstate (on_state bump_version ?m2)) = queue (mstate ?m2)" "id_gen (on_state bump_version ?m2) = id_gen ?m2"
        by (simp_all add: bump_version_def)
      have "apply_transition cfg x cause p q hits m =
          Again (emit_trace x (next_id_value (id_gen ?m2)) hits (emit_fact x (StateTransition (next_id_value (id_gen ?m2)) cause
            (payload (mstate ?m2)) (queue (mstate ?m2))) (snd (fresh_id (on_state bump_version ?m2)))))"
        using False unfolding apply_transition_def Let_def b case_prod_beta fresh_id_frame(1,6) k by auto
      then show ?thesis unfolding fresh_id_on_state emit_fact_on_state pq conjunct1 [OF e] .
    qed
    ultimately show ?thesis
      using r pend by (intro exI [of _ "emit_trace x i hits ?m4"])
        (simp add: bump_version_def clear_io_recovery_def clear_io_result_def update_queue_with_causes_def Let_def)
  qed
qed

text \<open>The executor pauses where the reactor registers the request and leaves its loop.\<close>

lemma request_matches:
  assumes "matches evs0 cfg m e" "store_ok x" "known_io_types cfg = None"
    and "emit (mcu_of x) (\<lambda>i. IoRequest i cause ty ps) e = (Inr i, e')"
  shows "\<exists>m'. request_io cfg x now instr cause ty ps m = Leave m' \<and> matches evs0 cfg m' (e'\<lparr>mx_pendings := pd\<rparr>) \<and>
    bt_contains i (pending_requests (mstate m'))"
proof -
  let ?g = "\<lambda>s. save_io_instruction (next_id_value (id_gen m)) instr cause (register_io_request_at (next_id_value (id_gen m)) ty now s)"
  let ?f = "IoRequest (next_id_value (id_gen m)) cause ty ps"
  let ?m' = "emit_fact x ?f (set_phase AwaitingIo (on_state ?g (snd (fresh_id m))))"
  have "?m' = set_phase AwaitingIo (on_state ?g (emit_fact x ?f (snd (fresh_id m))))"
    by (simp only: emit_fact_on_state set_phase_def)
  moreover have i: "i = next_id_value (id_gen m)" "matches evs0 cfg (emit_fact x ?f (snd (fresh_id m))) e'"
    using emit_matches [OF assms(1,2,4)] by simp_all
  then have "matches evs0 cfg (on_state ?g (emit_fact x ?f (snd (fresh_id m)))) (e'\<lparr>mx_pendings := pd\<rparr>)"
    by (simp add: matches_def save_io_instruction_def register_io_request_at_def causes_sync_def)
  ultimately have "matches evs0 cfg ?m' (e'\<lparr>mx_pendings := pd\<rparr>)" by simp
  moreover have "request_io cfg x now instr cause ty ps m = Leave ?m'"
    using assms(3) by (simp add: request_io_def case_prod_beta)
  moreover have "bt_contains i (pending_requests (mstate ?m'))"
    by (auto simp: i(1) save_io_instruction_def register_io_request_at_def bt_contains_def)
  ultimately show ?thesis by blast
qed

text \<open>What pauses a run.\<close>

definition pauses :: "('s, 'a) act \<Rightarrow> bool" where
  "pauses a \<longleftrightarrow> (\<exists>e e' i ty. a e = (Inl (IoPaused i ty), e'))"

lemma not_pauses:
  "\<not> pauses (ret y)" "\<not> pauses (modify g)" "\<not> pauses bump" "\<not> pauses (\<lambda>e. (Inr (h e), e))" "\<not> pauses (emit (mcu_of x) mk)"
proof -
  show "\<not> pauses (emit (mcu_of x) mk)"
    by (auto simp: pauses_def emit_def bind_act_def next_fact_def append_fact_def ram_env_def ram_store_def ram_append_record_def ret_def Let_def
        split: if_splits)
qed (auto simp: pauses_def ret_def modify_def bump_def)

lemma bind_not_pauses: "\<not> pauses a \<Longrightarrow> (\<And>y. \<not> pauses (k y)) \<Longrightarrow> \<not> pauses (bind_act a k)"
  unfolding pauses_def bind_act_def by (auto split: sum.splits prod.splits) 

lemma not_pausesD: "\<not> pauses a \<Longrightarrow> a e \<noteq> (Inl (IoPaused i ty), e')"
  by (auto simp: pauses_def)

lemma pauses_read: "(\<And>e. \<not> pauses (k e)) \<Longrightarrow> \<not> pauses (\<lambda>e. k e e)"
  by (auto simp: pauses_def)

lemma abandon_not_pauses: "\<not> pauses (abandon_run (mcu_of x) msg n)"
  unfolding abandon_run_def
  by (intro bind_not_pauses not_pauses pauses_read [where k = "\<lambda>e. bind_act (emit (mcu_of x) (\<lambda>i. Stable i (mx_version e))) _"])

lemma transition_not_pauses: "\<not> pauses (mcu_apply_transition (mcu_of x) cause n p q hits)"
proof -
  have a: "bind_act (emit (mcu_of x) mk) (\<lambda>j. bind_act bump (\<lambda>_. bind_act (emit (mcu_of x) (mk2 j)) (\<lambda>_. ret None))) e
      \<noteq> (Inl (IoPaused i ty), e')" for mk mk2 and e e' :: "ram_wal_store mcu_executor" and i ty
    by (intro not_pausesD bind_not_pauses not_pauses)
  have b: "abandon_run (mcu_of x) msg n e \<noteq> (Inl (IoPaused i ty), e')" for msg e e' i ty
    by (rule not_pausesD [OF abandon_not_pauses])
  show ?thesis unfolding pauses_def mcu_apply_transition_def Let_def by (simp only: a b split: if_split) auto
qed

text \<open>
  One instruction: the pass of the executor goes on where the reactor goes round or starts over, it has
  ended the run where the reactor has emptied its queue, and it pauses where the reactor leaves its loop.
\<close>

lemma outcome_cases:
  obtains (failed) err where "t = Inl err" | (state) np nq hits where "t = Inr (TState np nq hits)"
  | (ignored) ty reason hits where "t = Inr (TIgnored ty reason hits)" | (halted) k reason where "t = Inr (THalted k reason)"
  | (io) ty ps where "t = Inr (TIoRequired ty ps)"
  by (metis sum.exhaust transition_result.exhaust)

lemma instruction_goes_on:
  assumes m: "matches evs0 cfg m e" "store_ok x" "known_io_types cfg = None" and p: "pending_io_count (mstate m) = 0"
    and r: "mcu_exec_instruction (mcu_of x) instr cause (steps m) n e = (Inr None, e')"
  shows "\<exists>m'. matches evs0 cfg m' e' \<and> pending_io_count (mstate m') = 0 \<and> steps m' = steps m \<and>
        (exec_instruction cfg x now instr cause m = Again m' \<or> exec_instruction cfg x now instr cause m = ToMain m')"
proof -
  let ?t = "execute_transition (core_eval cfg) instr (payload (mstate m)) (queue (mstate m))"
  have t: "execute_transition (mx_pack e) instr (mx_payload e) (map fst (mx_queue e)) = ?t"
    using m(1) matches_queue(1) [OF m(1)] by (simp add: matches_def)
  note eq = r [unfolded mcu_exec_instruction_def t]
  show ?thesis
  proof (cases rule: outcome_cases [of ?t])
    case (failed err)
    from failed_matches [OF m(1,2) eq [unfolded failed sum.case]] show ?thesis
      using p by (intro exI [of _ "tcb_failed x instr err m"]) (simp add: exec_instruction_def failed, simp add: tcb_failed_def)
  next
    case (state np nq hits)
    from apply_matches [OF m(1,2) eq [unfolded state sum.case transition_result.case]] show ?thesis
      using p by (auto simp: exec_instruction_def state)
  next
    case (ignored ty reason hits)
    from ignore_matches [OF m(1,2) eq [unfolded ignored sum.case transition_result.case]] show ?thesis
      using p by (intro exI [of _ "ignore_instruction x instr ty reason hits m"])
        (simp add: exec_instruction_def ignored, simp add: ignore_instruction_def case_prod_beta)
  next
    case (halted k reason)
    from reject_matches [OF m(1,2) eq [unfolded halted sum.case transition_result.case]] show ?thesis
      using p by (intro exI [of _ "reject_instruction x instr cause k reason m"])
        (simp add: exec_instruction_def halted, simp add: reject_instruction_def case_prod_beta)
  next
    case (io ty ps)
    with eq show ?thesis by (auto elim!: bind_actE)
  qed
qed

lemma instruction_ends:
  assumes m: "matches evs0 cfg m e" "store_ok x" and p: "pending_io_count (mstate m) = 0"
    and r: "mcu_exec_instruction (mcu_of x) instr cause st n e = (Inr (Some rep), e')"
  shows "\<exists>m'. matches evs0 cfg m' e' \<and> pending_io_count (mstate m') = 0 \<and> steps m' = 0 \<and>
    exec_instruction cfg x now instr cause m = ToMain m'"
proof -
  let ?t = "execute_transition (core_eval cfg) instr (payload (mstate m)) (queue (mstate m))"
  have t: "execute_transition (mx_pack e) instr (mx_payload e) (map fst (mx_queue e)) = ?t"
    using m(1) matches_queue(1) [OF m(1)] by (simp add: matches_def)
  note eq = r [unfolded mcu_exec_instruction_def t]
  obtain np nq hits where s: "?t = Inr (TState np nq hits)"
    using eq by (auto simp: ret_def split: sum.splits transition_result.splits elim!: bind_actE)
  from apply_matches [OF m eq [unfolded s sum.case transition_result.case]] show ?thesis
    using p by (auto simp: exec_instruction_def s)
qed

lemma instruction_pauses:
  assumes m: "matches evs0 cfg m e" "store_ok x" "known_io_types cfg = None"
    and r: "mcu_exec_instruction (mcu_of x) instr cause st n e = (Inl (IoPaused i ty), e')"
  shows "\<exists>m'. matches evs0 cfg m' e' \<and> bt_contains i (pending_requests (mstate m')) \<and> exec_instruction cfg x now instr cause m = Leave m'"
proof -
  let ?t = "execute_transition (core_eval cfg) instr (payload (mstate m)) (queue (mstate m))"
  have t: "execute_transition (mx_pack e) instr (mx_payload e) (map fst (mx_queue e)) = ?t"
    using m(1) matches_queue(1) [OF m(1)] by (simp add: matches_def)
  note eq = r [unfolded mcu_exec_instruction_def t]
  have one: "bind_act (emit (mcu_of x) mk) (\<lambda>_. ret (None :: run_report option)) e \<noteq> (Inl (IoPaused i ty), e')"
    "bind_act (emit (mcu_of x) mk) (\<lambda>j. bind_act (emit (mcu_of x) (mk2 j)) (\<lambda>_. ret (None :: run_report option))) e \<noteq> (Inl (IoPaused i ty), e')"
    "mcu_apply_transition (mcu_of x) cause n p q hits e \<noteq> (Inl (IoPaused i ty), e')" for mk mk2 p q hits
    by (intro not_pausesD bind_not_pauses not_pauses transition_not_pauses)+
  obtain ty' ps where s: "?t = Inr (TIoRequired ty' ps)"
    using eq one by (cases rule: outcome_cases [of ?t]) (simp_all only: sum.case transition_result.case)
  obtain j e1 where e1: "emit (mcu_of x) (\<lambda>i. IoRequest i cause ty' ps) e = (Inr j, e1)" "i = j" "ty = ty'"
    "\<exists>pd. e' = e1\<lparr>mx_pendings := pd\<rparr>"
  proof -
    obtain a b where ab: "emit (mcu_of x) (\<lambda>i. IoRequest i cause ty' ps) e = (a, b)" by fastforce
    have "a \<noteq> Inl (IoPaused i ty)" using not_pausesD [OF not_pauses(5), of x "\<lambda>i. IoRequest i cause ty' ps" e i ty] ab by auto
    then obtain j where a: "a = Inr j" using eq [unfolded s sum.case transition_result.case bind_act_def ab] by (cases a) simp_all
    from eq [unfolded s sum.case transition_result.case bind_act_def ab a modify_def]
    have "j = i" "ty' = ty" "b\<lparr>mx_pendings := mx_pendings b @ [\<lparr>pend_request_id = j, pend_io_type = ty', pend_params = ps,
        pend_instruction = instr, pend_cause = cause\<rparr>]\<rparr> = e'" by (simp, simp, simp, blast)
    with ab a show thesis by (intro that [of i b]) (simp_all, metis)
  qed
  then obtain pd where "e' = e1\<lparr>mx_pendings := pd\<rparr>" by blast
  with request_matches [OF m e1(1), of now instr pd] e1(2) show ?thesis by (auto simp: exec_instruction_def s)
qed

section \<open>The loops\<close>

text \<open>
  The reactor left alone: iterations of its main loop in which no fact arrives, nobody interrupts and the
  clock reads \<open>now\<close>.
\<close>

definition quiet :: "instant \<Rightarrow> iteration_input" where
  "quiet now = \<lparr>in_interrupt = False, in_cancel_all = False, in_drain = [], in_disconnected = False, in_await = TimedOut, in_now = now\<rparr>"

inductive settles :: "reactor_config \<Rightarrow> 's ext \<Rightarrow> instant \<Rightarrow> 's machine \<Rightarrow> 's machine \<Rightarrow> bool" for cfg x now where
  here: "settles cfg x now m m"
| onwards: "main_iteration cfg x (quiet now) m = Continue m1 \<Longrightarrow> settles cfg x now m1 m2 \<Longrightarrow> settles cfg x now m m2"

text \<open>The reactor is at rest when no request is outstanding and the count of steps has been reset.\<close>

definition rested :: "'s machine \<Rightarrow> bool" where
  "rested m \<longleftrightarrow> pending_io_count (mstate m) = 0 \<and> steps m = 0"

lemma prepared:
  "matches evs0 cfg (run_invariant_check (update_snapshot_cell b m)) e = matches evs0 cfg m e"
  "steps (run_invariant_check (update_snapshot_cell b m)) = steps m"
  "queue (mstate (run_invariant_check (update_snapshot_cell b m))) = queue (mstate m)"
  "pending_io_count (mstate (run_invariant_check (update_snapshot_cell b m))) = pending_io_count (mstate m)"
  "interrupt_flag (run_invariant_check (update_snapshot_cell b m)) = interrupt_flag m"
  by (simp_all add: run_invariant_check_def Let_def matches_def causes_sync_def)

lemma reenter:
  assumes "matches evs0 cfg m e" "pending_io_count (mstate m) = 0" "queue (mstate m) \<noteq> []"
  obtains m' where "matches evs0 cfg m' e" "pending_io_count (mstate m') = 0" "steps m' = steps m" "queue (mstate m') = queue (mstate m)"
    "main_iteration cfg x (quiet now) m = Continue (fst (exec_loop cfg x now m'))"
proof -
  let ?m = "set_phase Executing (set_phase Draining (run_invariant_check (update_snapshot_cell False m)))"
  have "\<not> interrupt_flag m" using assms(1) by (simp add: matches_def)
  then show thesis
    using assms by (intro that [of ?m]) (simp_all add: prepared main_iteration_def quiet_def Let_def is_stable_def execute_phase_def)
qed

lemma stable_settles:
  assumes "matches evs0 cfg m e" "store_ok x" "pending_io_count (mstate m) = 0" "queue (mstate m) = []"
    and "finish_drain (mcu_of x) (steps m) n e = (Inr rep, e')"
  shows "\<exists>m'. settles cfg x now m m' \<and> matches evs0 cfg m' e' \<and> rested m'"
proof (cases "steps m > 0")
  case True
  let ?m = "set_phase PhaseStable (set_phase Draining (run_invariant_check (update_snapshot_cell False m)))"
  obtain i where "emit (mcu_of x) (\<lambda>i. Stable i (mx_version e)) e = (Inr i, e')"
    using assms(5) True by (auto simp: finish_drain_def elim!: bind_actE)
  from emit_stable_matches [OF _ assms(2) this, of evs0 cfg ?m] assms(1)
  have "matches evs0 cfg (set_phase Idle ((emit_stable x ?m)\<lparr>steps := 0\<rparr>)) e'" by (simp add: prepared)
  moreover have "main_iteration cfg x (quiet now) m = Continue (set_phase Idle ((emit_stable x ?m)\<lparr>steps := 0\<rparr>))"
    using assms True by (simp add: main_iteration_def quiet_def Let_def prepared is_stable_def announce_stable_def matches_def)
  moreover have "rested (set_phase Idle ((emit_stable x ?m)\<lparr>steps := 0\<rparr>))" using assms(3) by (simp add: rested_def prepared)
  ultimately show ?thesis by (blast intro: settles.intros)
next
  case False
  then show ?thesis using assms by (auto simp: finish_drain_def rested_def intro: settles.here)
qed

text \<open>The pass of the inner loop that the executor's pass stands for.\<close>

lemma pass_matches:
  assumes m: "matches evs0 cfg m e" "mx_queue e = (instr, cause) # rest" and lim: "steps m < max_rounds cfg"
  obtains m2 where "matches evs0 cfg m2 (e\<lparr>mx_queue := rest, mx_clock := c\<rparr>)" "steps m2 = Suc (steps m)"
    "pending_io_count (mstate m2) = pending_io_count (mstate m)" "exec_step cfg x now m = exec_instruction cfg x now instr cause m2"
proof (cases rule: exec_step_cases [of cfg m x now])
  case exceeded
  with lim show thesis by simp
next
  case empty
  with m matches_queue(1) [OF m(1)] show thesis by simp
next
  case (run i c s m2)
  obtain q cs where q: "queue (mstate m) = instr # q" "instruction_causes (mstate m) = cause # cs" "rest = zip q cs"
    using m by (cases "queue (mstate m)"; cases "instruction_causes (mstate m)") (auto simp: matches_def)
  have "i = instr" "c = cause" "s = (mstate m)\<lparr>queue := q, instruction_causes := cs\<rparr>"
    using run(2) q by (auto simp: pop_instruction_def)
  with run m q show thesis by (intro that [of m2]) (auto simp: matches_def causes_sync_def)
qed

lemma finish_not_pauses: "\<not> pauses (finish_drain (mcu_of x) st n)"
proof -
  have "\<not> pauses (\<lambda>e. bind_act (emit (mcu_of x) (\<lambda>i. Stable i (mx_version e))) (\<lambda>_ e'. (Inr (mcu_report (mcu_of x) n e'), e')) e)"
    by (intro bind_not_pauses not_pauses pauses_read [where k = "\<lambda>e. bind_act (emit (mcu_of x) (\<lambda>i. Stable i (mx_version e))) _"])
  then show ?thesis by (auto simp: pauses_def finish_drain_def split: if_splits)
qed

text \<open>How a call of the executor may end for the simulation: below the limit of steps, or with a pause.\<close>

fun undisturbed :: "u64 \<Rightarrow> mcu_error + run_report \<Rightarrow> bool" where
  "undisturbed limit (Inr rep) = (steps_executed rep < limit)"
| "undisturbed limit (Inl (IoPaused i ty)) = True"
| "undisturbed limit (Inl _) = False"

fun pass_ok :: "u64 \<Rightarrow> mcu_error + run_report option \<Rightarrow> bool" where
  "pass_ok limit (Inr None) = True"
| "pass_ok limit (Inr (Some rep)) = undisturbed limit (Inr rep)"
| "pass_ok limit (Inl err) = undisturbed limit (Inl err)"

lemma undisturbed_cases:
  assumes "undisturbed limit r"
  obtains rep where "r = Inr rep" "steps_executed rep < limit" | i ty where "r = Inl (IoPaused i ty)"
  using assms by (cases "(limit, r)" rule: undisturbed.cases) auto

lemma counted:
  assumes "steps_executed rep < limit" "steps_executed rep = word_of_nat n" "n \<le> unat limit"
  shows "n < unat limit"
proof -
  have "n < 2 ^ 64" using assms(3) unsigned_less [of limit, where 'a = nat] by simp
  then show ?thesis using assms(1,2) by (simp add: word_less_nat_alt unat_of_nat take_bit_nat_eq_self)
qed

lemma pass_below_limit:
  assumes "drain_pass (mcu_of x) st st instr cause e = (r, e')" "st \<le> unat (mx_max_steps e)" "0 < mx_max_steps e"
    and "pass_ok (mx_max_steps e) r"
  shows "st < unat (mx_max_steps e)"
    "mcu_exec_instruction (mcu_of x) instr cause (Suc st) (Suc st) (e\<lparr>mx_clock := clock_advance (mx_clock e)\<rparr>) = (r, e')"
proof -
  have "st < unat (mx_max_steps e)"
  proof (rule ccontr)
    assume above: "\<not> ?thesis"
    then have ab: "abandon_run (mcu_of x) (''max steps per run exceeded: '' @ dec_nat (unat (mx_max_steps e))) st e = (r, e')"
      using assms(1,3) unfolding drain_pass_def by (simp only: not_less simp_thms if_True)
    show False
    proof (cases r)
      case (Inl err)
      then have "undisturbed (mx_max_steps e) (Inl err)" using assms(4) by simp
      then obtain i ty where "err = IoPaused i ty" by (cases rule: undisturbed_cases) simp_all
      then show ?thesis using not_pausesD [OF abandon_not_pauses] ab Inl by blast
    next
      case (Inr y)
      from abandon_run_report(2) [OF ab [unfolded Inr]] assms(4) Inr
      have "steps_executed (mcu_report (mcu_of x) st e') < mx_max_steps e" by simp
      from counted [OF this _ assms(2)] above show ?thesis by (simp add: mcu_report_def)
    qed
  qed
  then show "st < unat (mx_max_steps e)"
    "mcu_exec_instruction (mcu_of x) instr cause (Suc st) (Suc st) (e\<lparr>mx_clock := clock_advance (mx_clock e)\<rparr>) = (r, e')"
    using assms(1) by (simp_all add: drain_pass_def)
qed

lemma pass_simulated:
  assumes m: "matches evs0 cfg m e" "mx_queue e = (instr, cause) # rest"
    and lim: "0 < mx_max_steps e" "unat (mx_max_steps e) \<le> max_rounds cfg" "steps m \<le> unat (mx_max_steps e)"
    and r: "drain_pass (mcu_of x) (steps m) (steps m) instr cause (e\<lparr>mx_queue := rest\<rparr>) = (r, e')"
      "pass_ok (mx_max_steps e) r"
  obtains m2 e2 where "matches evs0 cfg m2 e2" "pending_io_count (mstate m2) = pending_io_count (mstate m)" "steps m2 = Suc (steps m)"
    "mcu_exec_instruction (mcu_of x) instr cause (Suc (steps m)) (Suc (steps m)) e2 = (r, e')"
    "exec_step cfg x now m = exec_instruction cfg x now instr cause m2" "steps m < unat (mx_max_steps e)"
proof -
  have b: "steps m < unat (mx_max_steps e)" "mcu_exec_instruction (mcu_of x) instr cause (Suc (steps m)) (Suc (steps m))
      (e\<lparr>mx_queue := rest, mx_clock := clock_advance (mx_clock e)\<rparr>) = (r, e')"
    using pass_below_limit [OF r(1)] r(2) lim by simp_all
  from b(1) lim(2) have "steps m < max_rounds cfg" by simp
  from pass_matches [OF m this, of "clock_advance (mx_clock e)" x now] show thesis
    using b that by metis
qed

lemma drain_settles:
  assumes "matches evs0 cfg m e" "store_ok x" "known_io_types cfg = None" "pending_io_count (mstate m) = 0"
    "0 < mx_max_steps e" "unat (mx_max_steps e) \<le> max_rounds cfg" "steps m \<le> unat (mx_max_steps e)"
    "mcu_drain (mcu_of x) (steps m) (steps m) e = (r, e')" "undisturbed (mx_max_steps e) r"
  shows "\<exists>m'. settles cfg x now (fst (exec_loop cfg x now m)) m' \<and> matches evs0 cfg m' e' \<and> (is_ok r \<longrightarrow> rested m')"
  using assms
proof (induction "2 ^ 64 - unat (mx_next_fact_id e)" arbitrary: m e rule: less_induct)
  case less
  note m = less.prems(1) and p = less.prems(4) and lim = less.prems(5-7)
  show ?case
  proof (cases rule: drain_cases [of e "mcu_of x" "steps m" "steps m"])
    case finished
    have f: "finish_drain (mcu_of x) (steps m) (steps m) e = (r, e')" using finished less.prems(8) by simp
    obtain rep where r: "r = Inr rep" "steps_executed rep < mx_max_steps e"
      using undisturbed_cases [OF less.prems(9)] not_pausesD [OF finish_not_pauses] f by metis
    have "steps_executed rep = word_of_nat (steps m)"
      using f unfolding r(1) by (auto simp: finish_drain_def mcu_report_def split: if_splits elim!: bind_actE)
    from counted [OF r(2) this lim(3)] lim(2) have "steps m < max_rounds cfg" by simp
    moreover have "queue (mstate m) = []" using matches_queue(1) [OF m] finished(1) by simp
    ultimately have "exec_loop cfg x now m = (m, False)"
      using p by (simp add: exec_loop.simps [of cfg x now m] exec_step_def pop_instruction_def)
    with stable_settles [OF m less.prems(2) p \<open>queue (mstate m) = []\<close> f [unfolded r(1)], of now] show ?thesis by auto
  next
    case (stopped instr cause rest err e1)
    then have r: "r = Inl err" "e1 = e'" using less.prems(8) by simp_all
    then obtain i ty where err: "err = IoPaused i ty" using undisturbed_cases [OF less.prems(9)] by auto
    have "pass_ok (mx_max_steps e) (Inl err)" using less.prems(9) r(1) by simp
    from pass_simulated [OF m stopped(1) lim stopped(2) [unfolded r(2)] this, of now]
    obtain m2 e2 where m2: "matches evs0 cfg m2 e2" "mcu_exec_instruction (mcu_of x) instr cause (Suc (steps m)) (Suc (steps m)) e2 = (Inl err, e')"
      "exec_step cfg x now m = exec_instruction cfg x now instr cause m2" by blast
    from instruction_pauses [OF m2(1) less.prems(2,3) m2(2) [unfolded err], of now] m2(3) p r(1) show ?thesis
      by (auto simp: exec_loop.simps [of cfg x now m] is_ok_def intro: settles.here)
  next
    case (abandoned instr cause rest rep e1)
    then have r: "r = Inr rep" "e1 = e'" using less.prems(8) by simp_all
    have "pass_ok (mx_max_steps e) (Inr (Some rep))" using less.prems(9) r(1) by simp
    from pass_simulated [OF m abandoned(1) lim abandoned(2) [unfolded r(2)] this, of now, unfolded p]
    obtain m2 e2 where m2: "matches evs0 cfg m2 e2" "pending_io_count (mstate m2) = 0"
      "mcu_exec_instruction (mcu_of x) instr cause (Suc (steps m)) (Suc (steps m)) e2 = (Inr (Some rep), e')"
      "exec_step cfg x now m = exec_instruction cfg x now instr cause m2" by blast
    from instruction_ends [OF m2(1) less.prems(2) m2(2,3), of now] m2(4) p show ?thesis
      by (auto simp: exec_loop.simps [of cfg x now m] rested_def intro: settles.here)
  next
    case (again instr cause rest e1)
    from pass_simulated [OF m again(1) lim again(2) pass_ok.simps(1) [THEN iffD2, OF TrueI], of now, unfolded p]
    obtain m2 e2 where m2: "matches evs0 cfg m2 e2" "pending_io_count (mstate m2) = 0" "steps m2 = Suc (steps m)"
      "mcu_exec_instruction (mcu_of x) instr cause (Suc (steps m)) (Suc (steps m)) e2 = (Inr None, e1)"
      "exec_step cfg x now m = exec_instruction cfg x now instr cause m2" and b: "steps m < unat (mx_max_steps e)" by blast
    from instruction_goes_on [OF m2(1) less.prems(2,3) m2(2) m2(4) [folded m2(3)], of now] m2
    obtain m1 where m1: "matches evs0 cfg m1 e1" "pending_io_count (mstate m1) = 0" "steps m1 = Suc (steps m)"
      "exec_step cfg x now m = Again m1 \<or> exec_step cfg x now m = ToMain m1" by auto
    have e1: "mx_next_fact_id e < mx_next_fact_id e1" "mx_max_steps e1 = mx_max_steps e"
      using drain_pass_goes_on [OF again(2)] by simp_all
    have "2 ^ 64 - unat (mx_next_fact_id e1) < 2 ^ 64 - unat (mx_next_fact_id e)"
      using e1(1) unsigned_less [of "mx_next_fact_id e1", where 'a = nat] by (simp add: word_less_nat_alt)
    note IH = less.hyps [OF this _ less.prems(2,3), unfolded e1(2), OF _ _ lim(1,2) _ _ less.prems(9)]
    have d: "mcu_drain (mcu_of x) (Suc (steps m)) (Suc (steps m)) e1 = (r, e')" using again(3) less.prems(8) by simp
    from m1(4) show ?thesis
    proof
      assume "exec_step cfg x now m = Again m1"
      then have "exec_loop cfg x now m = exec_loop cfg x now m1" using p by (simp add: exec_loop.simps [of cfg x now m])
      with IH [OF m1(1,2)] m1(3) b d show ?thesis by simp
    next
      assume "exec_step cfg x now m = ToMain m1"
      then have l: "exec_loop cfg x now m = (m1, True)" using p by (simp add: exec_loop.simps [of cfg x now m])
      show ?thesis
      proof (cases "queue (mstate m1) = []")
        case True
        then have "mx_queue e1 = []" using matches_queue(1) [OF m1(1)] by simp
        then have f: "finish_drain (mcu_of x) (steps m1) (steps m1) e1 = (r, e')"
          using d m1(3) by (simp add: mcu_drain.simps [of _ _ _ e1])
        obtain rep where "r = Inr rep" using undisturbed_cases [OF less.prems(9)] not_pausesD [OF finish_not_pauses] f by metis
        with stable_settles [OF m1(1) less.prems(2) m1(2) True, of _ _ _ now] f l show ?thesis by auto
      next
        case False
        from reenter [OF m1(1,2) False, of x now]
        obtain m3 where m3: "matches evs0 cfg m3 e1" "pending_io_count (mstate m3) = 0" "steps m3 = steps m1"
          "main_iteration cfg x (quiet now) m1 = Continue (fst (exec_loop cfg x now m3))" by metis
        from IH [OF m3(1,2)] m3(3) m1(3) b d settles.onwards [OF m3(4)] l show ?thesis by auto
      qed
    qed
  qed
qed

section \<open>The properties\<close>

text \<open>
  C13: a run of the microcontroller leaves the log a server would leave.  Whenever the executor and the
  reactor are in matching states, with nothing outstanding, and a command runs on the executor to its end below the
  limit of steps, or until it pauses for an input, then the reactor that receives the same command under the next identifier, left alone
  afterwards, comes to a matching state: the same facts in the same order, the same payload, queue, causes
  and version, and the same head of the hash chain; after a run that ended it is ready for the next command.
\<close>

theorem run_matches_reactor:
  assumes "matches evs0 cfg m e" "store_ok x" "known_io_types cfg = None" "rested m"
    and "0 < mx_max_steps e" "unat (mx_max_steps e) \<le> max_rounds cfg"
    and "mcu_run (mcu_of x) instr e = (r, e')" "undisturbed (mx_max_steps e) r"
  shows "\<exists>m1 m'. main_iteration cfg x ((quiet now)\<lparr>in_drain := [Command (fst (fresh_id m)) instr]\<rparr>) (snd (fresh_id m)) = Continue m1 \<and>
    settles cfg x now m1 m' \<and> matches evs0 cfg m' e' \<and> (is_ok r \<longrightarrow> rested m')"
proof -
  have "\<not> pauses (emit (mcu_of x) (\<lambda>i. Command i instr))" by (rule not_pauses)
  then obtain i e1 where e1: "emit (mcu_of x) (\<lambda>i. Command i instr) e = (Inr i, e1)"
    "mcu_drain (mcu_of x) 0 0 (e1\<lparr>mx_queue := mx_queue e1 @ [(instr, i)]\<rparr>) = (r, e')"
    using assms(7,8) unfolding mcu_run_def bind_act_def modify_def pauses_def
    by (auto split: prod.splits sum.splits elim: undisturbed_cases)
  let ?c = "Command (next_id_value (id_gen m)) instr" and ?e = "e1\<lparr>mx_queue := mx_queue e1 @ [(instr, i)]\<rparr>"
  let ?m0 = "set_phase Draining (run_invariant_check (update_snapshot_cell False (snd (fresh_id m))))"
  have same: "mx_max_steps e1 = mx_max_steps e" using emit_ids(1) [OF e1(1)] by (simp add: ids_grow_def)
  have "snd (fresh_id (set_phase Draining (run_invariant_check (update_snapshot_cell False m)))) = ?m0"
    "id_gen (run_invariant_check (update_snapshot_cell False m)) = id_gen m"
    by (simp_all add: fresh_id_def set_phase_def on_state_def run_invariant_check_def update_snapshot_cell_def Let_def case_prod_beta)
  then have i: "i = next_id_value (id_gen m)" "matches evs0 cfg (emit_fact x ?c ?m0) e1"
    using emit_matches [OF _ assms(2) e1(1), of evs0 cfg "set_phase Draining (run_invariant_check (update_snapshot_cell False m))"] assms(1)
    by (simp_all add: prepared)
  let ?m1 = "set_phase Executing (on_state (push_back instr i) (emit_fact x ?c ?m0))"
  have m1: "matches evs0 cfg ?m1 ?e" using i(2) by (auto simp: matches_def push_back_def causes_sync_def)
  have "\<not> interrupt_flag m" using assms(1) by (simp add: matches_def)
  then have "main_iteration cfg x ((quiet now)\<lparr>in_drain := [Command (fst (fresh_id m)) instr]\<rparr>) (snd (fresh_id m)) = Continue (fst (exec_loop cfg x now ?m1))"
    using assms(4) i(1) by (simp add: rested_def main_iteration_def quiet_def Let_def prepared is_stable_def execute_phase_def and_then_def push_back_def)
  moreover have "\<exists>m'. settles cfg x now (fst (exec_loop cfg x now ?m1)) m' \<and> matches evs0 cfg m' e' \<and> (is_ok r \<longrightarrow> rested m')"
    by (rule drain_settles [OF m1 assms(2,3)]) (use assms(4-8) e1(2) same in \<open>simp_all add: rested_def push_back_def prepared\<close>)
  ultimately show ?thesis by blast
qed

text \<open>A new executor and a new reactor with the same rules and limit match.\<close>

lemma boot_matches:
  "matches [] ((builder_new pack)\<lparr>max_queue_len := q\<rparr>) (run_start ((builder_new pack)\<lparr>max_queue_len := q\<rparr>) log_new) (with_options pack empty_object q n)"
  by (simp add: matches_def builder_new_def run_start_def snapshot_def log_new_def with_options_def with_mcu_store_def ram_wal_new_def
      state_new_def causes_sync_def id_gen_new_def ram_chain_tail_hash_def genesis_def Let_def)

theorem run_matches_reactor_witness:
  "\<exists>r e' m1 m'. mcu_run (mcu_of sample_ext) Null (with_options [] empty_object 1000 10000) = (r, e') \<and>
     main_iteration (builder_new []) sample_ext ((quiet 0)\<lparr>in_drain := [Command 1 Null]\<rparr>) (snd (fresh_id (run_start (builder_new []) log_new))) =
       Continue m1 \<and> settles (builder_new []) sample_ext 0 m1 m' \<and> events m' = map mr_fact (ram_records (mx_wal e'))"
proof -
  let ?e = "with_options [] empty_object 1000 10000" and ?env = "mcu_of sample_ext" and ?m = "run_start (builder_new []) log_new"
  have t: "execute_transition [] Null (Object []) [] =
      Inr (TIgnored ''unknown'' ''instruction not matched by any constitution rule'' [])" by code_simp
  note defs = with_options_def with_mcu_store_def ram_wal_new_def ram_env_def ram_store_def ram_append_record_def sample_ext_def
    empty_object_def bt_new_def emit_def next_fact_def append_fact_def bind_act_def ret_def modify_def drain_pass_def
    mcu_exec_instruction_def finish_drain_def mcu_report_def Let_def
  have u: "undisturbed 10000 (fst (mcu_run ?env Null ?e))"
    by (simp add: mcu_run_def defs, subst mcu_drain.simps, simp add: defs t, subst mcu_drain.simps, simp add: defs)
  obtain r e' where r: "mcu_run ?env Null ?e = (r, e')" by fastforce
  have m: "matches [] (builder_new []) ?m ?e" using boot_matches [where pack = "[]" and q = 1000 and n = 10000]
    by (simp add: builder_new_def Reactor.DEFAULT_MAX_QUEUE_LEN_def)
  have s: "store_ok sample_ext" by (simp add: store_ok_def sample_ext_def memory_wal_append_def)
  have f: "fst (fresh_id ?m) = 1" by (simp add: run_start_def builder_new_def snapshot_def log_new_def id_gen_new_def Let_def)
  have "rested ?m" by (simp add: rested_def run_start_def snapshot_def log_new_def state_new_def Let_def)
  from run_matches_reactor [OF m s _ this _ _ r, of 0] u r show ?thesis
    unfolding f by (auto simp: builder_new_def with_options_def with_mcu_store_def matches_def)
qed

section \<open>Where the executor departs from its documentation\<close>

text \<open>
  The comment on \<open>append_fact\<close> promises a write-ahead log: first the log, then the memory.  For a transition
  it is the other way round.  When the backend refuses the record, the executor already has the new payload, and the log
  does not have it.
\<close>

lemma refused_transition_runs_ahead:
  assumes "\<And>v f ch ph kh. op_append (env_ops env) v f ch ph kh (mx_wal e) = (Inl err, mx_wal e)"
    and "mx_next_fact_id e \<noteq> - 1" "\<not> mx_io_recovery e" "mx_max_queue_len e = 0"
  shows "\<exists>e'. mcu_apply_transition env cause n p q hits e = (Inl err, e') \<and> mx_payload e' = p \<and> mx_wal e' = mx_wal e"
  using assms
  by (simp add: mcu_apply_transition_def clear_recovery_def emit_def bind_act_def next_fact_def append_fact_def Let_def)

text \<open>
  A failed response ends a run without a mark.  The loop of \<open>resume_io\<close> starts to count at zero again; when
  the failed request was the last work, the log ends with the response, where the reactor announces that
  it is stable.
\<close>

lemma failed_response_not_announced:
  assumes "mx_queue e = []" "take_pending i (mx_pendings e) = Some (p, ps)" "mx_next_fact_id e \<noteq> - 1" "mx_version e \<noteq> - 1"
  shows "\<exists>rep e'. resume_io (mcu_of x) i (Inl msg) e = (Inr rep, e') \<and>
    map mr_fact (ram_records (mx_wal e')) = map mr_fact (ram_records (mx_wal e)) @ [IoResponse (mx_next_fact_id e + 1) i Null (Some msg)]"
  using assms
  by (simp add: resume_io_def emit_def bind_act_def next_fact_def append_fact_def ram_env_def ram_store_def ram_append_record_def
      accept_outcome_def bump_def ret_def Let_def mcu_drain.simps finish_drain_def)

text \<open>
  An executor that is started on a log it recovered counts from the beginning: the first fact it appends has identifier 1
  and version 0, whatever the log holds.
\<close>

lemma restart_counts_anew:
  "\<exists>e'. emit env mk (with_mcu_store pack p q n w) = (map_ok (\<lambda>_. 1) (fst (append_fact env (mk 1) ((with_mcu_store pack p q n w)\<lparr>mx_next_fact_id := 1\<rparr>))), e')"
  by (auto simp: emit_def bind_act_def next_fact_def with_mcu_store_def ret_def map_ok_def split: prod.split sum.split)

end
