(* ===== verification/EvidVerify.thy ===== *)
theory EvidVerify
  imports McuExec
begin

text \<open>
  The independent verifier, \<open>evid-verify-core/src\<close>: the parser of facts (\<open>parse.rs\<close>), of exported
  documents and log lines (\<open>record.rs\<close>), the verdicts on them (\<open>verify.rs\<close>), the verification of anchors
  (\<open>seal.rs\<close>), and the handlers of the web build (\<open>evid-verify-wasm/src/handlers.rs\<close>).  The verifier
  trusts nobody: it recomputes every hash.  Shown is that it accepts what the loggers write, that what it
  accepts is bound by the last hash, and how it relates to the verifier of the governance crate.
\<close>

section \<open>Parsing facts\<close>

datatype parse_error = ParseError string

fun parse_reason :: "parse_error \<Rightarrow> string" where
  "parse_reason (ParseError r) = r"

definition parse_at :: "string \<Rightarrow> parse_error \<Rightarrow> parse_error" where
  "parse_at ctx e = ParseError (ctx @ '': '' @ parse_reason e)"

definition parse_error_display :: "parse_error \<Rightarrow> string" where
  "parse_error_display e = (utf8 [232, 167, 163, 230, 158, 144, 229, 164, 177, 232, 180, 165] @ '': '') @ parse_reason e"

text \<open>A loop that stops at the first error.\<close>

fun try_map :: "('a \<Rightarrow> 'e + 'b) \<Rightarrow> 'a list \<Rightarrow> 'e + 'b list" where
  "try_map f [] = Inr []"
| "try_map f (x # xs) = and_then (f x) (\<lambda>y. map_ok (\<lambda>ys. y # ys) (try_map f xs))"

lemma try_map_cong [fundef_cong]:
  "xs = ys \<Longrightarrow> (\<And>x. x \<in> set ys \<Longrightarrow> f x = g x) \<Longrightarrow> try_map f xs = try_map g ys"
  by (induction xs arbitrary: ys) auto

function ev_serde_to_tcb :: "serde \<Rightarrow> parse_error + json" where
  "ev_serde_to_tcb SNull = Inr Null"
| "ev_serde_to_tcb (SBool b) = Inr (Bool b)"
| "ev_serde_to_tcb (SNumber n) =
     (if in_i64 n then Inr (Integer (word_of_int n))
      else if 0 \<le> n \<and> n < 2 ^ 64 then Inr (U64 (word_of_int n))
      else Inl (ParseError (utf8 [230, 181, 174, 231, 130, 185, 230, 149, 176, 229, 173, 151, 230, 174, 181, 239, 188,
       136, 229, 174, 161, 232, 174, 161, 233, 147, 190, 228, 186, 139, 229, 174, 158, 228, 184,
       141, 230, 137, 191, 232, 189, 189, 230, 181, 174, 231, 130, 185, 239, 188, 137])))"
| "ev_serde_to_tcb (SFloat t) = Inl (ParseError (utf8 [230, 181, 174, 231, 130, 185, 230, 149, 176, 229, 173, 151, 230, 174, 181, 239, 188,
       136, 229, 174, 161, 232, 174, 161, 233, 147, 190, 228, 186, 139, 229, 174, 158, 228, 184,
       141, 230, 137, 191, 232, 189, 189, 230, 181, 174, 231, 130, 185, 239, 188, 137]))"
| "ev_serde_to_tcb (SString s) = Inr (String s)"
| "ev_serde_to_tcb (SArray arr) = map_ok Array (try_map ev_serde_to_tcb arr)"
| "ev_serde_to_tcb (SObject m) =
     map_ok (\<lambda>ps. Object (foldl (\<lambda>out (k, v). bt_put k v out) bt_new ps))
       (try_map (\<lambda>p. map_ok (\<lambda>v. (fst p, v)) (ev_serde_to_tcb (snd p))) m)"
  by pat_completeness auto
termination
  by (relation "measure size") (auto simp: less_Suc_eq_le size_list_estimation' elim!: size_list_estimation)

definition obj_of :: "serde \<Rightarrow> string \<Rightarrow> parse_error + (string \<times> serde) list" where
  "obj_of v what = ok_or (ParseError (what @ ('' '' @ utf8 [229, 186, 148, 228, 184, 186, 229, 175, 185, 232, 177, 161]))) (s_as_object v)"

definition req :: "(string \<times> serde) list \<Rightarrow> string \<Rightarrow> string \<Rightarrow> parse_error + serde" where
  "req obj key ctx = ok_or (ParseError (ctx @ ('' '' @ utf8 [231, 188, 186, 229, 173, 151, 230, 174, 181] @ '' '' @ utf8 [34]) @ key @ (utf8 [34]))) (bt_get key obj)"

definition req_as :: "(serde \<Rightarrow> 'a option) \<Rightarrow> string \<Rightarrow> (string \<times> serde) list \<Rightarrow> string \<Rightarrow> string \<Rightarrow> parse_error + 'a" where
  "req_as conv what obj key ctx =
     and_then (req obj key ctx) (\<lambda>v. ok_or (ParseError (ctx @ ''.'' @ key @ what)) (conv v))"

definition req_u64 :: "(string \<times> serde) list \<Rightarrow> string \<Rightarrow> string \<Rightarrow> parse_error + u64" where
  "req_u64 = req_as s_as_u64 ('' '' @
     utf8 [229, 186, 148, 228, 184, 186, 233, 157, 158, 232, 180, 159, 230, 149, 180, 230, 149,
       176, 239, 188, 136] @ ''u64 '' @ utf8 [229, 133, 168, 229, 159, 159, 239, 188, 137])"

definition req_str :: "(string \<times> serde) list \<Rightarrow> string \<Rightarrow> string \<Rightarrow> parse_error + string" where
  "req_str = req_as s_as_str ('' '' @ utf8 [229, 186, 148, 228, 184, 186, 229, 173, 151, 231, 172, 166, 228, 184, 178])"

definition req_array :: "(string \<times> serde) list \<Rightarrow> string \<Rightarrow> string \<Rightarrow> parse_error + serde list" where
  "req_array = req_as s_as_array ('' '' @ utf8 [229, 186, 148, 228, 184, 186, 230, 149, 176, 231, 187, 132])"

definition req_json :: "(string \<times> serde) list \<Rightarrow> string \<Rightarrow> string \<Rightarrow> parse_error + json" where
  "req_json obj key ctx = and_then (req obj key ctx) ev_serde_to_tcb"

definition opt_str_or_null :: "(string \<times> serde) list \<Rightarrow> string \<Rightarrow> string \<Rightarrow> parse_error + string option" where
  "opt_str_or_null obj key ctx =
     and_then (req obj key ctx) (\<lambda>v.
       case v of
         SNull \<Rightarrow> Inr None
       | SString s \<Rightarrow> Inr (Some s)
       | _ \<Rightarrow> Inl (ParseError (ctx @ ''.'' @ key @ ('' '' @
     utf8 [229, 186, 148, 228, 184, 186, 229, 173, 151, 231, 172, 166, 228, 184, 178, 230, 136,
       150] @ '' null''))))"

definition opt_attr_str :: "(string \<times> serde) list \<Rightarrow> string \<Rightarrow> string \<Rightarrow> parse_error + string option" where
  "opt_attr_str obj key ctx =
     (case bt_get key obj of
        None \<Rightarrow> Inr None
      | Some (SString s) \<Rightarrow> Inr (Some s)
      | Some _ \<Rightarrow> Inl (ParseError (ctx @ ''.'' @ key @ ('' '' @
     utf8 [229, 186, 148, 228, 184, 186, 229, 173, 151, 231, 172, 166, 228, 184, 178, 230, 136,
       150, 231, 188, 186, 231, 156, 129]))))"

definition ev_attr_from_json :: "serde \<Rightarrow> parse_error + trace_domain_attribution" where
  "ev_attr_from_json attr =
     and_then (obj_of attr ''domain_attr'') (\<lambda>a.
     let actx = ''TraceDomainAttribution'' in
     and_then (req_str a ''outcome'' actx) (\<lambda>oc.
     and_then (opt_attr_str a ''missing_reason'' actx) (\<lambda>mr.
     and_then (opt_attr_str a ''on_missing'' actx) (\<lambda>om.
     Inr \<lparr>trace_outcome = oc, trace_missing_reason = mr, trace_on_missing = om\<rparr>))))"

definition trace_hit_from_json :: "serde \<Rightarrow> parse_error + trace_hit" where
  "trace_hit_from_json v =
     and_then (obj_of v (''rule_hits '' @ utf8 [230, 157, 161, 231, 155, 174])) (\<lambda>obj.
     let ctx = ''TraceHit'' in
     and_then (case bt_get ''domain_attr'' obj of
                 None \<Rightarrow> Inr None
               | Some attr \<Rightarrow> map_ok Some (ev_attr_from_json attr)) (\<lambda>da.
     and_then (req_u64 obj ''index'' ctx) (\<lambda>ix.
     and_then (req_str obj ''instr_type'' ctx) (\<lambda>ty.
     and_then (and_then (req obj ''hit'' ctx) (\<lambda>h. ok_or (ParseError (ctx @ (''.hit '' @ utf8 [229, 186, 148, 228, 184, 186, 229, 184, 131, 229, 176, 148]))) (s_as_bool h))) (\<lambda>ht.
     Inr \<lparr>trace_index = ix, trace_instr_type = ty, trace_hit = ht, trace_domain_attr = da\<rparr>)))))"

definition ev_fact_from_json :: "serde \<Rightarrow> parse_error + fact" where
  "ev_fact_from_json v =
     and_then (obj_of v ''fact'') (\<lambda>obj.
     and_then (req_str obj ''type'' ''fact'') (\<lambda>ty.
     let ctx = ''Fact['' @ ty @ '']'' in
     if ty = ''Command'' then
       and_then (req_u64 obj ''id'' ctx) (\<lambda>i.
       and_then (req_json obj ''instruction'' ctx) (\<lambda>instruction.
       Inr (Command i instruction)))
     else if ty = ''PayloadUpdate'' then
       and_then (req_u64 obj ''id'' ctx) (\<lambda>i.
       and_then (req_str obj ''path'' ctx) (\<lambda>path.
       and_then (req_json obj ''value'' ctx) (\<lambda>val.
       Inr (PayloadUpdate i path val))))
     else if ty = ''StateTransition'' then
       and_then (req_u64 obj ''id'' ctx) (\<lambda>i.
       and_then (req_u64 obj ''cause'' ctx) (\<lambda>cause.
       and_then (req_json obj ''new_payload'' ctx) (\<lambda>new_payload.
       and_then (req_array obj ''new_queue'' ctx) (\<lambda>arr.
       and_then (try_map ev_serde_to_tcb arr) (\<lambda>new_queue.
       Inr (StateTransition i cause new_payload new_queue))))))
     else if ty = ''IoRequest'' then
       and_then (req_u64 obj ''id'' ctx) (\<lambda>i.
       and_then (req_u64 obj ''cause'' ctx) (\<lambda>cause.
       and_then (req_str obj ''io_type'' ctx) (\<lambda>io_type.
       and_then (req_json obj ''params'' ctx) (\<lambda>params.
       Inr (IoRequest i cause io_type params)))))
     else if ty = ''IoResponse'' then
       and_then (req_u64 obj ''id'' ctx) (\<lambda>i.
       and_then (req_u64 obj ''request_id'' ctx) (\<lambda>request_id.
       and_then (req_json obj ''result'' ctx) (\<lambda>res.
       and_then (opt_str_or_null obj ''error'' ctx) (\<lambda>err.
       Inr (IoResponse i request_id res err)))))
     else if ty = ''Stable'' then
       and_then (req_u64 obj ''id'' ctx) (\<lambda>i.
       and_then (req_u64 obj ''version'' ctx) (\<lambda>ver.
       Inr (Stable i ver)))
     else if ty = ''Error'' then
       and_then (req_u64 obj ''id'' ctx) (\<lambda>i.
       and_then (req_str obj ''message'' ctx) (\<lambda>message.
       Inr (Error i message)))
     else if ty = ''TransitionTrace'' then
       and_then (req_u64 obj ''id'' ctx) (\<lambda>i.
       and_then (req_u64 obj ''cause'' ctx) (\<lambda>cause.
       and_then (req_array obj ''rule_hits'' ctx) (\<lambda>arr.
       and_then (try_map trace_hit_from_json arr) (\<lambda>rule_hits.
       Inr (TransitionTrace i cause rule_hits)))))
     else if ty = ''Violation'' then
       and_then (req_u64 obj ''id'' ctx) (\<lambda>i.
       and_then (req_u64 obj ''cause'' ctx) (\<lambda>cause.
       and_then (req_u64 obj ''rule_index'' ctx) (\<lambda>rule_index.
       and_then (req_str obj ''reason'' ctx) (\<lambda>reason.
       and_then (req_json obj ''instruction'' ctx) (\<lambda>instruction.
       Inr (Violation i cause rule_index reason instruction))))))
     else Inl (ParseError ((utf8 [230, 156, 170, 231, 159, 165] @ '' Fact '' @ utf8 [229, 143, 152, 228, 189, 147] @
     '' '' @ utf8 [34]) @ ty @ (utf8 [34, 239, 188, 136] @ ''fail-closed'' @ utf8 [239, 188, 137])))))"

section \<open>Documents and lines\<close>

definition EXPORT_VERSION :: string where
  "EXPORT_VERSION = ''1.0''"

record export_entry =
  ee_content_hash :: string
  ee_fact :: fact
  ee_fact_id :: u64
  ee_fact_type :: string
  ee_fact_json_stable :: string
  ee_prev_hash :: string

record export_doc =
  doc_version :: string
  doc_entry_count :: u64
  doc_last_hash :: string
  doc_entries :: "export_entry list"

record wal_line =
  wl_content_hash :: string
  wl_chain_hash :: string
  wl_prev_hash :: string
  wl_fact :: fact

text \<open>\<open>record.rs\<close> has its own \<open>req_u64\<close>, with another message.\<close>

definition rec_req_u64 :: "(string \<times> serde) list \<Rightarrow> string \<Rightarrow> string \<Rightarrow> parse_error + u64" where
  "rec_req_u64 = req_as s_as_u64 ('' '' @
     utf8 [229, 186, 148, 228, 184, 186, 233, 157, 158, 232, 180, 159, 230, 149, 180, 230, 149, 176])"

definition parse_export_entry :: "nat \<Rightarrow> serde \<Rightarrow> parse_error + export_entry" where
  "parse_export_entry i e =
     (let ctx = ''entries['' @ dec_nat i @ '']'' in
      and_then (obj_of e ctx) (\<lambda>eo.
      and_then (and_then (req eo ''fact'' ctx) (\<lambda>v. map_err (parse_at ctx) (ev_fact_from_json v))) (\<lambda>f.
      and_then (req_str eo ''content_hash'' ctx) (\<lambda>ch.
      and_then (rec_req_u64 eo ''fact_id'' ctx) (\<lambda>fid.
      and_then (req_str eo ''fact_type'' ctx) (\<lambda>ty.
      and_then (req_str eo ''fact_json_stable'' ctx) (\<lambda>js.
      and_then (req_str eo ''prev_hash'' ctx) (\<lambda>ph.
      Inr \<lparr>ee_content_hash = ch, ee_fact = f, ee_fact_id = fid, ee_fact_type = ty, ee_fact_json_stable = js,
           ee_prev_hash = ph\<rparr>))))))))"

definition parse_export_doc :: "serde \<Rightarrow> parse_error + export_doc" where
  "parse_export_doc v =
     and_then (obj_of v (utf8 [229, 175, 188, 229, 135, 186, 230, 150, 135, 230, 161, 163])) (\<lambda>outer.
     and_then (case bt_get ''export'' outer of Some inner \<Rightarrow> obj_of inner ''export'' | None \<Rightarrow> Inr outer) (\<lambda>obj.
     let ctx = ''export'' in
     and_then (req_str obj ''version'' ctx) (\<lambda>ver.
     if ver \<noteq> EXPORT_VERSION
     then Inl (ParseError ((utf8 [228, 184, 141, 230, 148, 175, 230, 140, 129, 231, 154, 132, 229, 175, 188, 229, 135,
       186, 231, 137, 136, 230, 156, 172] @ '' '' @ utf8 [34]) @ ver @ (utf8 [34, 239, 188, 136, 230, 148, 175, 230, 140, 129] @ '' 1.0'' @ utf8 [239, 188, 140] @
     ''fail-closed'' @ utf8 [239, 188, 137])))
     else
     and_then (rec_req_u64 obj ''entry_count'' ctx) (\<lambda>n.
     and_then (req_str obj ''last_hash'' ctx) (\<lambda>lh.
     and_then (and_then (req obj ''entries'' ctx) (\<lambda>v. ok_or (ParseError (''export.entries '' @ utf8 [229, 186, 148, 228, 184, 186, 230, 149, 176, 231, 187, 132])) (s_as_array v))) (\<lambda>arr.
     and_then (try_map (\<lambda>(i, e). parse_export_entry i e) (zip [0..<length arr] arr)) (\<lambda>es.
     if word_of_nat (length es) \<noteq> n
     then Inl (ParseError (''entry_count('' @ dec_nat (unat n) @ ('') '' @ utf8 [228, 184, 142] @ '' entries '' @ utf8 [233, 149, 191, 229, 186, 166] @ ''('') @ dec_nat (length es) @ ('') '' @ utf8 [228, 184, 141, 231, 172, 166])))
     else Inr \<lparr>doc_version = ver, doc_entry_count = n, doc_last_hash = lh, doc_entries = es\<rparr>)))))))"

definition ev_parse_wal_line :: "serde \<Rightarrow> parse_error + wal_line" where
  "ev_parse_wal_line v =
     and_then (obj_of v (''WAL '' @ utf8 [232, 161, 140])) (\<lambda>obj.
     let ctx = ''wal'' in
     and_then (and_then (req obj ''fact'' ctx) (\<lambda>v. map_err (parse_at ctx) (ev_fact_from_json v))) (\<lambda>f.
     and_then (req_str obj ''content_hash'' ctx) (\<lambda>ch.
     and_then (req_str obj ''chain_hash'' ctx) (\<lambda>kh.
     and_then (req_str obj ''prev_hash'' ctx) (\<lambda>ph.
     Inr \<lparr>wl_content_hash = ch, wl_chain_hash = kh, wl_prev_hash = ph, wl_fact = f\<rparr>)))))"

definition export_doc_display :: "export_doc \<Rightarrow> string" where
  "export_doc_display d = (utf8 [229, 175, 188, 229, 135, 186, 230, 150, 135, 230, 161, 163] @ '' v'') @ doc_version d @ '': '' @ dec_nat (unat (doc_entry_count d)) @ ('' '' @ utf8 [230, 157, 161])"

section \<open>Verdicts\<close>

text \<open>
  \<open>short\<close> cuts a string after its sixteenth byte; \<open>None\<close> stands for the panic of slicing inside a
  character.  A string is the list of its bytes.
\<close>

definition char_boundary :: "nat \<Rightarrow> string \<Rightarrow> bool" where
  "char_boundary n s \<longleftrightarrow> n = length s \<or> n < length s \<and> \<not> (128 \<le> (of_char (s ! n) :: nat) \<and> (of_char (s ! n) :: nat) < 192)"

definition short_hash :: "string \<Rightarrow> string option" where
  "short_hash h =
     (if length h \<le> 16 then Some h
      else if char_boundary 16 h then Some (take 16 h @ (utf8 [226, 128, 166]))
      else None)"

datatype export_step = StepLink | StepContent | StepStable | StepTail

record entry_reject =
  er_step :: export_step
  er_reason :: string

record entry_verdict =
  ev_index :: nat
  ev_ok :: bool
  ev_reject :: "entry_reject option"

record export_report =
  xr_verdicts :: "entry_verdict list"
  xr_stopped_at :: "nat option"
  xr_tail_hash :: string
  xr_last_hash_matches :: bool

definition export_all_ok :: "export_report \<Rightarrow> bool" where
  "export_all_ok r \<longleftrightarrow> xr_stopped_at r = None \<and> xr_last_hash_matches r"

definition finish_export :: "entry_verdict list \<Rightarrow> nat option \<Rightarrow> string \<Rightarrow> export_doc \<Rightarrow> export_report" where
  "finish_export vs stopped tail doc =
     \<lparr>xr_verdicts = vs, xr_stopped_at = stopped, xr_tail_hash = tail, xr_last_hash_matches = (tail = doc_last_hash doc)\<rparr>"

text \<open>
  The four checks of one entry: \<open>Inl\<close> carries the rejection, which is \<open>None\<close> when the text of its reason
  cannot be made.  The recomputed hash is a hash: its first sixteen bytes are characters.
\<close>

definition check_entry ::
  "(string \<Rightarrow> string) \<Rightarrow> (serde \<Rightarrow> string) \<Rightarrow> (string \<Rightarrow> string + serde) \<Rightarrow> string \<Rightarrow> export_entry \<Rightarrow> entry_reject option + string" where
  "check_entry blake3 ser de prev e =
     (if ee_prev_hash e \<noteq> prev
      then Inl (Option.bind (short_hash (ee_prev_hash e)) (\<lambda>a. map_option (\<lambda>b.
        \<lparr>er_step = StepLink, er_reason = ''prev_hash='' @ a @ ('' '' @ utf8 [228, 184, 142, 230, 138, 152, 229, 143, 160, 233, 147, 190, 229, 164, 180] @
     ''='') @ b @ ('' '' @
     utf8 [228, 184, 141, 231, 172, 166, 239, 188, 136, 233, 147, 190, 230, 142, 165, 230, 150,
       173, 232, 163, 130, 239, 188, 137])\<rparr>) (short_hash prev)))
      else
        (let recomputed = fact_hash blake3 ser (ee_fact e) in
         if recomputed \<noteq> ee_content_hash e
         then Inl (Option.bind (short_hash (ee_content_hash e)) (\<lambda>a. map_option (\<lambda>b.
           \<lparr>er_step = StepContent, er_reason = (''content_hash '' @ utf8 [229, 164, 177, 233, 133, 141] @ '': '' @
     utf8 [229, 163, 176, 230, 152, 142] @ ''='') @ a @ ('' '' @ utf8 [233, 135, 141, 231, 174, 151] @ ''='') @ b\<rparr>) (short_hash recomputed)))
         else if de (ee_fact_json_stable e) \<noteq> Inr (fact_to_stable_json (ee_fact e))
         then Inl (Some \<lparr>er_step = StepStable,
           er_reason = (''fact_json_stable '' @ utf8 [229, 142, 159, 230, 150, 135, 228, 184, 142] @ '' fact '' @
     utf8 [229, 173, 151, 230, 174, 181, 233, 135, 141, 231, 174, 151, 231, 187, 147, 230, 158,
       156, 228, 184, 141, 228, 184, 128, 232, 135, 180, 239, 188, 136, 230, 136, 150, 229, 142,
       159, 230, 150, 135, 233, 157, 158, 230, 179, 149] @ '' JSON'' @ utf8 [239, 188, 137])\<rparr>)
         else if fact_id_of (ee_fact e) \<noteq> ee_fact_id e \<or> type_name (ee_fact e) \<noteq> ee_fact_type e
         then Inl (Some \<lparr>er_step = StepStable,
           er_reason = (utf8 [230, 157, 161, 231, 155, 174, 230, 138, 149, 229, 189, 177, 228, 184, 141, 231, 172,
       166] @ '': fact_id('') @ dec_nat (unat (ee_fact_id e)) @ '')/fact_type('' @ ee_fact_type e
             @ ('') '' @ utf8 [228, 184, 142] @ '' fact '' @
     utf8 [229, 173, 151, 230, 174, 181, 228, 184, 141, 228, 184, 128, 232, 135, 180])\<rparr>)
         else Inr (chain_step blake3 prev (ee_content_hash e))))"

fun export_loop ::
  "(string \<Rightarrow> string) \<Rightarrow> (serde \<Rightarrow> string) \<Rightarrow> (string \<Rightarrow> string + serde) \<Rightarrow> export_doc \<Rightarrow> nat \<Rightarrow> string \<Rightarrow> entry_verdict list \<Rightarrow>
   export_entry list \<Rightarrow> export_report option" where
  "export_loop blake3 ser de doc idx prev vs [] = Some (finish_export vs None prev doc)"
| "export_loop blake3 ser de doc idx prev vs (e # es) =
     (case check_entry blake3 ser de prev e of
        Inl None \<Rightarrow> None
      | Inl (Some rej) \<Rightarrow>
          Some (finish_export (vs @ [\<lparr>ev_index = idx, ev_ok = False, ev_reject = Some rej\<rparr>]) (Some idx) prev doc)
      | Inr kh \<Rightarrow>
          export_loop blake3 ser de doc (idx + 1) kh (vs @ [\<lparr>ev_index = idx, ev_ok = True, ev_reject = None\<rparr>]) es)"

definition verify_export ::
  "(string \<Rightarrow> string) \<Rightarrow> (serde \<Rightarrow> string) \<Rightarrow> (string \<Rightarrow> string + serde) \<Rightarrow> export_doc \<Rightarrow> export_report option" where
  "verify_export blake3 ser de doc = export_loop blake3 ser de doc 0 genesis [] (doc_entries doc)"

record wal_reject =
  wr_step :: nat
  wr_reason :: string

record wal_line_verdict =
  wv_index :: nat
  wv_ok :: bool
  wv_reject :: "wal_reject option"

record wal_report =
  wr_verdicts :: "wal_line_verdict list"
  wr_stopped_at :: "nat option"
  wr_tail_hash :: string

definition wal_all_ok :: "wal_report \<Rightarrow> bool" where
  "wal_all_ok r \<longleftrightarrow> wr_stopped_at r = None"

definition check_line :: "(string \<Rightarrow> string) \<Rightarrow> (serde \<Rightarrow> string) \<Rightarrow> string \<Rightarrow> wal_line \<Rightarrow> wal_reject option + string" where
  "check_line blake3 ser prev l =
     (if wl_prev_hash l \<noteq> prev
      then Inl (Option.bind (short_hash (wl_prev_hash l)) (\<lambda>a. map_option (\<lambda>b.
        \<lparr>wr_step = 1, wr_reason = ''prev_hash='' @ a @ ('' '' @ utf8 [228, 184, 142, 233, 147, 190, 229, 176, 190] @ ''='') @ b @ ('' '' @
     utf8 [228, 184, 141, 231, 172, 166, 239, 188, 136, 233, 147, 190, 230, 142, 165, 230, 150,
       173, 232, 163, 130, 239, 188, 137])\<rparr>) (short_hash prev)))
      else
        (let h = fact_hash blake3 ser (wl_fact l); folded = chain_step blake3 (wl_prev_hash l) (wl_content_hash l) in
         if h \<noteq> wl_content_hash l
         then Inl (Option.bind (short_hash (wl_content_hash l)) (\<lambda>a. map_option (\<lambda>b.
           \<lparr>wr_step = 2, wr_reason = (''content_hash '' @ utf8 [229, 164, 177, 233, 133, 141] @ '': '' @
     utf8 [229, 163, 176, 230, 152, 142] @ ''='') @ a @ ('' '' @ utf8 [233, 135, 141, 231, 174, 151] @ ''='') @ b\<rparr>) (short_hash h)))
         else if folded \<noteq> wl_chain_hash l
         then Inl (Option.bind (short_hash (wl_chain_hash l)) (\<lambda>a. map_option (\<lambda>b.
           \<lparr>wr_step = 3, wr_reason = (''chain_hash '' @ utf8 [229, 164, 177, 233, 133, 141] @ '': '' @
     utf8 [229, 163, 176, 230, 152, 142] @ ''='') @ a @ ('' '' @ utf8 [233, 135, 141, 231, 174, 151] @ ''='') @ b\<rparr>) (short_hash folded)))
         else Inr (wl_chain_hash l)))"

fun lines_loop ::
  "(string \<Rightarrow> string) \<Rightarrow> (serde \<Rightarrow> string) \<Rightarrow> nat \<Rightarrow> string \<Rightarrow> wal_line_verdict list \<Rightarrow> wal_line list \<Rightarrow> wal_report option" where
  "lines_loop blake3 ser idx prev vs [] = Some \<lparr>wr_verdicts = vs, wr_stopped_at = None, wr_tail_hash = prev\<rparr>"
| "lines_loop blake3 ser idx prev vs (l # ls) =
     (case check_line blake3 ser prev l of
        Inl None \<Rightarrow> None
      | Inl (Some rej) \<Rightarrow>
          Some \<lparr>wr_verdicts = vs @ [\<lparr>wv_index = idx, wv_ok = False, wv_reject = Some rej\<rparr>], wr_stopped_at = Some idx,
                wr_tail_hash = prev\<rparr>
      | Inr kh \<Rightarrow> lines_loop blake3 ser (idx + 1) kh (vs @ [\<lparr>wv_index = idx, wv_ok = True, wv_reject = None\<rparr>]) ls)"

definition verify_wal_lines :: "(string \<Rightarrow> string) \<Rightarrow> (serde \<Rightarrow> string) \<Rightarrow> wal_line list \<Rightarrow> wal_report option" where
  "verify_wal_lines blake3 ser ls = lines_loop blake3 ser 0 genesis [] ls"

section \<open>Anchors\<close>

record seal_range =
  sr_lo :: u64
  sr_hi :: u64

record anchor_seal =
  as_seq :: u64
  as_session_id :: string
  as_fact_range :: seal_range
  as_chain_head :: string
  as_key_id :: string
  as_engine_id :: string
  as_logical_time :: u64
  as_anchor_hash :: string
  as_signature :: string

definition seal_fields :: "anchor_seal \<Rightarrow> string list" where
  "seal_fields s =
     [as_session_id s, dec_nat (unat (as_seq s)), dec_nat (unat (sr_lo (as_fact_range s))), dec_nat (unat (sr_hi (as_fact_range s))),
      as_chain_head s, as_key_id s, as_engine_id s, dec_nat (unat (as_logical_time s))]"

definition seal_signature_payload :: "anchor_seal \<Rightarrow> string" where
  "seal_signature_payload s = join_on (CHR ''|'') (ANCHOR_FORMAT # seal_fields s)"

definition seal_hash :: "(string \<Rightarrow> string) \<Rightarrow> string \<Rightarrow> anchor_seal \<Rightarrow> string" where
  "seal_hash blake3 prev s = blake3 (join_on (CHR ''|'') (prev # seal_fields s))"

datatype seal_error =
    PayloadHashMismatch u64
  | SealSignatureInvalid u64
  | SealChainBroken u64 string
  | KeyMissing string
  | HexInvalid u64 string

fun seal_error_display :: "seal_error \<Rightarrow> string" where
  "seal_error_display (PayloadHashMismatch s) =
     (utf8 [233, 148, 154, 231, 130, 185] @ ''['') @ dec_nat (unat s) @ (''] '' @
     utf8 [232, 189, 189, 232, 141, 183, 229, 147, 136, 229, 184, 140, 228, 184, 141, 229, 140,
       185, 233, 133, 141, 239, 188, 136, 229, 173, 151, 230, 174, 181, 232, 162, 171, 231, 175,
       161, 230, 148, 185, 230, 136, 150] @ '' prev '' @
     utf8 [233, 147, 190, 230, 142, 165, 233, 148, 153, 232, 175, 175, 239, 188, 137])"
| "seal_error_display (SealSignatureInvalid s) = (utf8 [233, 148, 154, 231, 130, 185] @ ''['') @ dec_nat (unat s) @ (''] '' @
     utf8 [231, 173, 190, 229, 144, 141, 233, 170, 140, 232, 175, 129, 229, 164, 177, 232, 180, 165])"
| "seal_error_display (SealChainBroken s reason) = (utf8 [233, 148, 154, 231, 130, 185, 233, 147, 190, 230, 150, 173, 232, 163, 130, 228, 186,
       142] @ ''['') @ dec_nat (unat s) @ '']: '' @ reason"
| "seal_error_display (KeyMissing kid) = (utf8 [229, 175, 134, 233, 146, 165, 230, 160, 135, 232, 175, 134] @ '' '' @ utf8 [34]) @ kid @ (utf8 [34] @ '' '' @
     utf8 [230, 151, 160, 229, 175, 185, 229, 186, 148, 229, 133, 172, 233, 146, 165])"
| "seal_error_display (HexInvalid s reason) = (utf8 [233, 148, 154, 231, 130, 185] @ ''['') @ dec_nat (unat s) @ (''] hex '' @ utf8 [233, 157, 158, 230, 179, 149] @ '': '') @ reason"

fun seal_hex_pairs :: "string \<Rightarrow> byte list option" where
  "seal_hex_pairs (a # b # r) =
     (case (to_digit16 a, to_digit16 b) of
        (Some h, Some l) \<Rightarrow> map_option (\<lambda>out. word_of_nat (16 * h + l) # out) (seal_hex_pairs r)
      | _ \<Rightarrow> None)"
| "seal_hex_pairs _ = Some []"

definition seal_hex_decode :: "string \<Rightarrow> byte list option" where
  "seal_hex_decode hex = (if length hex mod 2 \<noteq> 0 then None else seal_hex_pairs hex)"

definition verify_seal :: "'k ed25519 \<Rightarrow> (string \<Rightarrow> string) \<Rightarrow> anchor_seal \<Rightarrow> string \<Rightarrow> string \<Rightarrow> seal_error + unit" where
  "verify_seal ed blake3 s prev verifying_key_hex =
     (if seal_hash blake3 prev s \<noteq> as_anchor_hash s then Inl (PayloadHashMismatch (as_seq s))
      else
        and_then (ok_or (HexInvalid (as_seq s) (utf8 [229, 133, 172, 233, 146, 165] @ '' hex '' @ utf8 [233, 157, 158, 230, 179, 149])) (seal_hex_decode verifying_key_hex)) (\<lambda>vk.
        if length vk \<noteq> 32 then Inl (HexInvalid (as_seq s) ((utf8 [229, 133, 172, 233, 146, 165, 233, 149, 191, 229, 186, 166] @ '' != 32: '') @ dec_nat (length vk)))
        else
        and_then (ok_or (HexInvalid (as_seq s) (utf8 [231, 173, 190, 229, 144, 141] @ '' hex '' @ utf8 [233, 157, 158, 230, 179, 149])) (seal_hex_decode (as_signature s))) (\<lambda>sig.
        if length sig \<noteq> 64 then Inl (HexInvalid (as_seq s) ((utf8 [231, 173, 190, 229, 144, 141, 233, 149, 191, 229, 186, 166] @ '' != 64: '') @ dec_nat (length sig)))
        else
        and_then (map_err (\<lambda>e. HexInvalid (as_seq s) ((utf8 [229, 133, 172, 233, 146, 165, 233, 157, 158, 230, 179, 149] @ '': '') @ e)) (ed_verify ed vk (seal_signature_payload s) sig)) (\<lambda>ok.
        if ok then Inr () else Inl (SealSignatureInvalid (as_seq s))))))"

text \<open>The counter of the loop is a \<open>u64\<close>; it stays below the number of seals.\<close>

fun verify_seals_from ::
  "'k ed25519 \<Rightarrow> (string \<Rightarrow> string) \<Rightarrow> key_table \<Rightarrow> u64 \<Rightarrow> string \<Rightarrow> u64 \<Rightarrow> anchor_seal list \<Rightarrow> seal_error + unit" where
  "verify_seals_from ed blake3 keys expected prev l [] = Inr ()"
| "verify_seals_from ed blake3 keys expected prev l (s # ss) =
     (if as_seq s \<noteq> expected
      then Inl (SealChainBroken (as_seq s) ((''seq '' @ utf8 [229, 186, 148, 228, 184, 186] @ '' '') @ dec_nat (unat expected) @ (utf8 [239, 188, 136] @ ''0 '' @ utf8 [232, 181, 183, 228, 184, 165, 230, 160, 188] @
     '' +1'' @ utf8 [239, 188, 137])))
      else if sr_lo (as_fact_range s) \<noteq> l
      then Inl (SealChainBroken (as_seq s) ((utf8 [229, 140, 186, 233, 151, 180, 230, 151, 160, 231, 188, 157, 230, 150, 173, 232, 163,
       130] @ '': lo='') @ dec_nat (unat (sr_lo (as_fact_range s))) @ ('' '' @ utf8 [230, 156, 159, 230, 156, 155] @ '' '') @ dec_nat (unat l)))
      else if sr_lo (as_fact_range s) > sr_hi (as_fact_range s)
      then Inl (SealChainBroken (as_seq s) (utf8 [229, 140, 186, 233, 151, 180, 229, 128, 146, 230, 140, 130, 239, 188, 136] @
     ''lo > hi'' @ utf8 [239, 188, 137]))
      else
        and_then (ok_or (KeyMissing (as_key_id s)) (bt_get (as_key_id s) keys)) (\<lambda>key.
        and_then (verify_seal ed blake3 s prev key) (\<lambda>_.
        verify_seals_from ed blake3 keys (expected + 1) (as_anchor_hash s) (sr_hi (as_fact_range s)) ss)))"

definition verify_seal_chain :: "'k ed25519 \<Rightarrow> (string \<Rightarrow> string) \<Rightarrow> anchor_seal list \<Rightarrow> key_table \<Rightarrow> seal_error + unit" where
  "verify_seal_chain ed blake3 seals keys = verify_seals_from ed blake3 keys 0 ANCHOR_GENESIS 0 seals"

section \<open>Handlers\<close>

definition or_null :: "serde option \<Rightarrow> serde" where
  "or_null v = unwrap_or SNull v"

definition refusal :: "string \<Rightarrow> serde" where
  "refusal msg = serde_map [(''ok'', SBool False), (''error'', SString msg)]"

fun step_name :: "export_step \<Rightarrow> string" where
  "step_name StepLink = ''link''" | "step_name StepContent = ''content''"
| "step_name StepStable = ''stable''" | "step_name StepTail = ''tail''"

definition entry_verdict_json :: "entry_verdict \<Rightarrow> serde" where
  "entry_verdict_json v = serde_map
     [(''index'', SNumber (int (ev_index v))), (''ok'', SBool (ev_ok v)),
      (''step'', or_null (map_option (\<lambda>r. SString (step_name (er_step r))) (ev_reject v))),
      (''reason'', or_null (map_option (\<lambda>r. SString (er_reason r)) (ev_reject v)))]"

definition handle_export ::
  "(string \<Rightarrow> string) \<Rightarrow> (serde \<Rightarrow> string) \<Rightarrow> (string \<Rightarrow> string + serde) \<Rightarrow> serde \<Rightarrow> serde option" where
  "handle_export blake3 ser de inp =
     (case parse_export_doc inp of
        Inl e \<Rightarrow> Some (refusal (parse_reason e))
      | Inr doc \<Rightarrow>
          map_option (\<lambda>rep. serde_map
            [(''ok'', SBool (export_all_ok rep)), (''verdicts'', SArray (map entry_verdict_json (xr_verdicts rep))),
             (''stopped_at'', or_null (map_option (\<lambda>n. SNumber (int n)) (xr_stopped_at rep))),
             (''tail_hash'', SString (xr_tail_hash rep)), (''last_hash_matches'', SBool (xr_last_hash_matches rep))])
          (verify_export blake3 ser de doc))"

definition line_verdict_json :: "wal_line_verdict \<Rightarrow> serde" where
  "line_verdict_json v = serde_map
     [(''index'', SNumber (int (wv_index v))), (''ok'', SBool (wv_ok v)),
      (''step'', or_null (map_option (\<lambda>r. SNumber (int (wr_step r))) (wv_reject v))),
      (''reason'', or_null (map_option (\<lambda>r. SString (wr_reason r)) (wv_reject v)))]"

definition WAL_SHAPE :: string where
  "WAL_SHAPE = (''WAL '' @
     utf8 [232, 190, 147, 229, 133, 165, 229, 186, 148, 228, 184, 186, 230, 149, 176, 231, 187,
       132, 230, 136, 150] @ '' {'' @ utf8 [34] @ ''lines'' @ utf8 [34] @ '':['' @
     utf8 [226, 128, 166] @ '']}'')"

definition wal_input :: "serde \<Rightarrow> serde list option" where
  "wal_input inp =
     (case inp of
        SArray a \<Rightarrow> Some a
      | SObject m \<Rightarrow> Option.bind (bt_get ''lines'' m) s_as_array
      | _ \<Rightarrow> None)"

definition parse_numbered_line :: "nat \<times> serde \<Rightarrow> string + wal_line" where
  "parse_numbered_line p =
     map_err (\<lambda>e. ''lines['' @ dec_nat (fst p) @ '']: '' @ parse_reason e) (ev_parse_wal_line (snd p))"

definition handle_wal :: "(string \<Rightarrow> string) \<Rightarrow> (serde \<Rightarrow> string) \<Rightarrow> serde \<Rightarrow> serde option" where
  "handle_wal blake3 ser inp =
     (case wal_input inp of
        None \<Rightarrow> Some (refusal WAL_SHAPE)
      | Some arr \<Rightarrow>
          (case try_map parse_numbered_line (zip [0..<length arr] arr) of
             Inl msg \<Rightarrow> Some (refusal msg)
           | Inr ls \<Rightarrow>
               map_option (\<lambda>rep. serde_map
                 [(''ok'', SBool (wal_all_ok rep)), (''verdicts'', SArray (map line_verdict_json (wr_verdicts rep))),
                  (''stopped_at'', or_null (map_option (\<lambda>n. SNumber (int n)) (wr_stopped_at rep))),
                  (''tail_hash'', SString (wr_tail_hash rep))])
               (verify_wal_lines blake3 ser ls)))"

text \<open>The derived deserializers of seals and keys are parameters.\<close>

definition handle_seals ::
  "'k ed25519 \<Rightarrow> (string \<Rightarrow> string) \<Rightarrow> (serde \<Rightarrow> string + anchor_seal list) \<Rightarrow> (serde \<Rightarrow> string + key_table) \<Rightarrow> serde \<Rightarrow> serde" where
  "handle_seals ed blake3 de_seals de_keys inp =
     (case s_as_object inp of
        None \<Rightarrow> refusal (utf8 [233, 148, 154, 231, 130, 185, 232, 190, 147, 229, 133, 165, 229, 186, 148, 228, 184,
       186, 229, 175, 185, 232, 177, 161] @ '' {'' @ utf8 [34] @ ''seals'' @ utf8 [34] @ '':['' @
     utf8 [226, 128, 166] @ ''], '' @ utf8 [34] @ ''keys'' @ utf8 [34] @ '':{'' @
     utf8 [226, 128, 166] @ ''}}'')
      | Some obj \<Rightarrow>
          (case bt_get ''seals'' obj of
             None \<Rightarrow> refusal (utf8 [231, 188, 186, 229, 173, 151, 230, 174, 181] @ '' '' @ utf8 [34] @ ''seals'' @
     utf8 [34])
           | Some seals_v \<Rightarrow>
               (case de_seals seals_v of
                  Inl e \<Rightarrow> refusal ((''seals '' @ utf8 [232, 167, 163, 230, 158, 144, 229, 164, 177, 232, 180, 165] @ '': '') @ e)
                | Inr seals \<Rightarrow>
                    (case bt_get ''keys'' obj of
                       None \<Rightarrow> refusal (utf8 [231, 188, 186, 229, 173, 151, 230, 174, 181] @ '' '' @ utf8 [34] @ ''keys'' @
     utf8 [34, 239, 188, 136, 229, 133, 172, 233, 146, 165, 232, 161, 168, 239, 188, 137])
                     | Some keys_v \<Rightarrow>
                         (case de_keys keys_v of
                            Inl e \<Rightarrow> refusal ((''keys '' @ utf8 [232, 167, 163, 230, 158, 144, 229, 164, 177, 232, 180, 165] @ '': '') @ e)
                          | Inr keys \<Rightarrow>
                              (case verify_seal_chain ed blake3 seals keys of
                                 Inr _ \<Rightarrow> serde_map [(''ok'', SBool True), (''seal_count'', SNumber (int (length seals)))]
                               | Inl e \<Rightarrow> refusal (seal_error_display e)))))))"

section \<open>What the parser reads back\<close>

text \<open>
  A number has no mark of its type: \<open>U64\<close> in the range of \<open>i64\<close> is read as \<open>Integer\<close>.  The hashed form does not change.
\<close>

fun canon :: "json \<Rightarrow> json" where
  "canon (U64 v) = (if uint v \<le> i64_max then Integer v else U64 v)"
| "canon (Array xs) = Array (map canon xs)"
| "canon (Object m) = Object (map (\<lambda>(k, v). (k, canon v)) m)"
| "canon j = j"

fun canon_fact :: "fact \<Rightarrow> fact" where
  "canon_fact (Command i j) = Command i (canon j)"
| "canon_fact (PayloadUpdate i p j) = PayloadUpdate i p (canon j)"
| "canon_fact (StateTransition i c p q) = StateTransition i c (canon p) (map canon q)"
| "canon_fact (IoRequest i c ty j) = IoRequest i c ty (canon j)"
| "canon_fact (IoResponse i r j e) = IoResponse i r (canon j) e"
| "canon_fact (Violation i c k r j) = Violation i c k r (canon j)"
| "canon_fact f = f"

fun wf_fact :: "fact \<Rightarrow> bool" where
  "wf_fact (Command _ j) = wf_json j"
| "wf_fact (PayloadUpdate _ _ j) = wf_json j"
| "wf_fact (StateTransition _ _ p q) = (wf_json p \<and> list_all wf_json q)"
| "wf_fact (IoRequest _ _ _ j) = wf_json j"
| "wf_fact (IoResponse _ _ j _) = wf_json j"
| "wf_fact (Violation _ _ _ _ j) = wf_json j"
| "wf_fact _ = True"

lemma try_map_map: "(\<And>x. x \<in> set xs \<Longrightarrow> f (g x) = Inr (h x)) \<Longrightarrow> try_map f (map g xs) = Inr (map h xs)"
  by (induction xs) auto

lemma read_value: "wf_json j \<Longrightarrow> ev_serde_to_tcb (tcb_to_serde j) = Inr (canon j)"
proof (induction j)
  case (Integer i)
  then show ?case by (simp add: in_i64_sint)
next
  case (U64 v)
  have "i64_min \<le> uint v" by (rule order_trans [of _ 0]) (simp_all add: i64_min_def)
  then show ?case using uint_u64_range [of v] by (simp add: in_i64_def)
next
  case (Array xs)
  then show ?case by (simp add: list_all_iff try_map_map [of xs _ tcb_to_serde canon])
next
  case (Object m)
  have m: "bt_sorted m" using Object.prems by (simp add: wf_map_iff)
  have "try_map (\<lambda>p. map_ok (\<lambda>v. (fst p, v)) (ev_serde_to_tcb (snd p))) (map (\<lambda>(k, v). (k, tcb_to_serde v)) m)
      = Inr (map (\<lambda>(k, v). (k, canon v)) m)"
    by (rule try_map_map) (use Object in \<open>force simp: wf_map_iff snds.simps\<close>)
  moreover have "foldl (\<lambda>out (k, v). bt_put k v out) bt_new (map (\<lambda>(k, v). (k, canon v)) m) = map (\<lambda>(k, v). (k, canon v)) m"
    using foldl_bt_put_sorted [of "[]" "map (\<lambda>(k, v). (k, canon v)) m"] m by (simp add: bt_new_def bt_sorted_map_snd)
  ultimately show ?case using m by (simp add: serde_map_sorted bt_sorted_map_snd)
qed simp_all

lemma serde_canon: "tcb_to_serde (canon j) = tcb_to_serde j"
proof (induction j)
  case (U64 v)
  have "sint v = uint v" if "uint v \<le> i64_max"
    unfolding sint_uint
    by (rule signed_take_bit_int_eq_self) (use that in \<open>auto simp: i64_max_def intro: order_trans [of _ 0]\<close>)
  then show ?case by simp
next
  case (Array xs)
  then show ?case by simp
next
  case (Object m)
  have "map (\<lambda>(k, v). (k, tcb_to_serde v)) (map (\<lambda>(k, v). (k, canon v)) m) = map (\<lambda>(k, v). (k, tcb_to_serde v)) m"
    using Object by (auto simp: snds.simps)
  then show ?case by (simp only: canon.simps tcb_to_serde.simps)
qed simp_all

lemma canon_canonical: "canonical_json j \<Longrightarrow> canon j = j"
proof (induction j)
  case (Object m)
  then show ?case by (auto simp: list_all_iff snds.simps intro!: map_idI)
qed (auto simp: list_all_iff intro: map_idI)

lemma stable_canon: "fact_to_stable_json (canon_fact f) = fact_to_stable_json f"
  by (cases f) (simp_all add: serde_canon comp_def)

lemma canon_fact_canonical: "canonical_fact f \<Longrightarrow> canon_fact f = f"
  by (cases f) (auto simp: canon_canonical list_all_iff intro: map_idI)

lemma hash_canon: "fact_hash blake3 ser (canon_fact f) = fact_hash blake3 ser f"
  by (simp add: fact_hash_def stable_canon)

lemma canon_fact_simps [simp]: "fact_id_of (canon_fact f) = fact_id_of f" "type_name (canon_fact f) = type_name f"
  by (cases f; simp)+

text \<open>Reading the members of an object that was written by its pairs.\<close>

fun members :: "serde \<Rightarrow> (string \<times> serde) list" where
  "members (SObject m) = m" | "members _ = []"

lemma written_members: "obj_of (serde_map ps) what = Inr (members (serde_map ps))"
  "bt_get k (members (serde_map ps)) = map_of (rev ps) k"
  using serde_map_object [of ps] by (auto simp: obj_of_def)

lemmas read_defs = written_members req_def req_as_def req_u64_def rec_req_u64_def req_str_def req_array_def req_json_def
  opt_str_or_null_def opt_attr_str_def as_u64_num

lemma read_attr: "ev_attr_from_json (trace_attr_to_json a) = Inr a"
  by (cases a) (simp add: ev_attr_from_json_def trace_attr_to_json_def read_defs Let_def split: option.split)

lemma read_hit: "trace_hit_from_json (trace_hit_to_json h) = Inr h"
  by (cases h) (simp add: trace_hit_from_json_def trace_hit_to_json_def read_defs read_attr Let_def split: option.split)

lemma read_fact:
  assumes "wf_fact f"
  shows "ev_fact_from_json (fact_to_stable_json f) = Inr (canon_fact f)"
proof (cases f)
  case (StateTransition i c p q)
  have "try_map ev_serde_to_tcb (map tcb_to_serde q) = Inr (map canon q)"
    by (rule try_map_map) (use assms in \<open>simp add: StateTransition list_all_iff read_value\<close>)
  with assms show ?thesis by (simp add: StateTransition ev_fact_from_json_def read_defs read_value Let_def)
next
  case (TransitionTrace i c hs)
  have "try_map trace_hit_from_json (map trace_hit_to_json hs) = Inr hs"
    using try_map_map [of hs trace_hit_from_json trace_hit_to_json id] by (simp add: read_hit)
  then show ?thesis by (simp add: TransitionTrace ev_fact_from_json_def read_defs Let_def)
next
  case (IoResponse i r j e)
  with assms show ?thesis by (cases e) (simp_all add: ev_fact_from_json_def read_defs read_value Let_def)
qed (use assms in \<open>simp_all add: ev_fact_from_json_def read_defs read_value Let_def\<close>)

lemma canonical_wf: "canonical_json j \<Longrightarrow> wf_json j"
proof (induction j)
  case (Object m)
  then show ?case by (force simp: wf_map_iff list_all_iff snds.simps)
qed (auto simp: list_all_iff)

lemma canonical_wf_fact: "canonical_fact f \<Longrightarrow> wf_fact f"
  by (cases f) (auto simp: canonical_wf list_all_iff)

text \<open>Whatever is read has sorted objects, and unsigned numbers only above the signed ones.\<close>

lemma try_map_set: "try_map f xs = Inr ys \<Longrightarrow> y \<in> set ys \<Longrightarrow> \<exists>x \<in> set xs. f x = Inr y"
  by (induction xs arbitrary: ys) (auto simp: and_then_def map_ok_def split: sum.splits)

lemma puts_canonical:
  "bt_sorted m \<Longrightarrow> list_all (\<lambda>p. canonical_json (snd p)) m \<Longrightarrow> list_all (\<lambda>p. canonical_json (snd p)) ps \<Longrightarrow>
   canonical_json (Object (foldl (\<lambda>out (k, v). bt_put k v out) m ps))"
proof (induction ps arbitrary: m)
  case (Cons p ps)
  have "list_all (\<lambda>p. canonical_json (snd p)) (bt_put (fst p) (snd p) m)"
    using Cons.prems set_bt_put [of "fst p" "snd p" m] by (force simp: list_all_iff)
  with Cons show ?case by (simp add: case_prod_beta)
qed simp

lemma read_canonical: "ev_serde_to_tcb v = Inr j \<Longrightarrow> canonical_json j"
proof (induction v arbitrary: j)
  case (SNumber n)
  then show ?case by (auto simp: in_i64_def i64_min_def uint_word_of_int_eq take_bit_int_eq_self split: if_splits)
next
  case (SArray xs)
  then obtain js where js: "try_map ev_serde_to_tcb xs = Inr js" "j = Array js" by (auto simp: map_ok_def split: sum.splits)
  have "canonical_json y" if "y \<in> set js" for y using try_map_set [OF js(1) that] SArray.IH by blast
  then show ?case by (simp add: js(2) list_all_iff)
next
  case (SObject m)
  then obtain ps where ps: "try_map (\<lambda>p. map_ok (\<lambda>v. (fst p, v)) (ev_serde_to_tcb (snd p))) m = Inr ps"
    "j = Object (foldl (\<lambda>out (k, v). bt_put k v out) bt_new ps)" by (auto simp: map_ok_def split: sum.splits)
  have "canonical_json (snd p)" if "p \<in> set ps" for p
    using try_map_set [OF ps(1) that] SObject.IH by (fastforce simp: map_ok_def snds.simps split: sum.splits)
  then show ?case unfolding ps(2) by (intro puts_canonical) (auto simp: list_all_iff bt_new_def)
qed simp_all

lemma and_then_Inr: "and_then r k = Inr y \<longleftrightarrow> (\<exists>x. r = Inr x \<and> k x = Inr y)"
  by (cases r) (auto simp: and_then_def)

lemma map_err_Inr: "map_err g r = Inr x \<longleftrightarrow> r = Inr x"
  by (cases r) (simp_all add: map_err_def)

lemma reads_canonical: "try_map ev_serde_to_tcb xs = Inr js \<Longrightarrow> list_all canonical_json js"
  by (auto simp: list_all_iff dest!: try_map_set intro: read_canonical)

lemma read_fact_canonical: "ev_fact_from_json v = Inr f \<Longrightarrow> canonical_fact f"
  unfolding ev_fact_from_json_def Let_def req_json_def
  by (auto simp: and_then_Inr split: if_splits intro: read_canonical reads_canonical)

section \<open>What the verdicts mean\<close>

text \<open>
  Both verdicts are one loop: it carries a hash, and stops at the first element that its check refuses.
  A check decides whether an element continues the chain, and gives the hash after it.
\<close>

fun links :: "(string \<Rightarrow> 'e \<Rightarrow> bool) \<Rightarrow> (string \<Rightarrow> 'e \<Rightarrow> string) \<Rightarrow> string \<Rightarrow> 'e list \<Rightarrow> bool" where
  "links sound nxt h [] = True"
| "links sound nxt h (x # xs) = (sound h x \<and> links sound nxt (nxt h x) xs)"

fun first_bad :: "(string \<Rightarrow> 'e \<Rightarrow> 'r + string) \<Rightarrow> nat \<Rightarrow> string \<Rightarrow> 'e list \<Rightarrow> nat option \<times> string" where
  "first_bad check n h [] = (None, h)"
| "first_bad check n h (x # xs) = (case check h x of Inl _ \<Rightarrow> (Some n, h) | Inr kh \<Rightarrow> first_bad check (n + 1) kh xs)"

locale link_check =
  fixes check :: "string \<Rightarrow> 'e \<Rightarrow> 'r + string" and sound :: "string \<Rightarrow> 'e \<Rightarrow> bool" and nxt :: "string \<Rightarrow> 'e \<Rightarrow> string"
  assumes check_iff: "check h x = Inr kh \<longleftrightarrow> sound h x \<and> kh = nxt h x"
begin

lemma first_bad_exact:
  assumes "first_bad check n h xs = (stop, t)"
  shows "case stop of
      None \<Rightarrow> links sound nxt h xs \<and> t = foldl nxt h xs
    | Some k \<Rightarrow> \<exists>i < length xs. k = n + i \<and> links sound nxt h (take i xs) \<and> t = foldl nxt h (take i xs) \<and> \<not> sound t (xs ! i)"
  using assms
proof (induction xs arbitrary: n h)
  case (Cons x xs)
  show ?case
  proof (cases "check h x")
    case (Inl r)
    with check_iff [of h x "nxt h x"] Cons.prems show ?thesis by auto
  next
    case (Inr kh)
    with check_iff [of h x kh] have x: "sound h x" "kh = nxt h x" by auto
    from Cons.prems Inr have "first_bad check (n + 1) kh xs = (stop, t)" by simp
    note IH = Cons.IH [OF this]
    show ?thesis
    proof (cases stop)
      case (Some k)
      with IH obtain i where i: "i < length xs" "k = n + 1 + i" "links sound nxt kh (take i xs)" "t = foldl nxt kh (take i xs)" "\<not> sound t (xs ! i)"
        by auto
      with x Some show ?thesis by (auto intro!: exI [of _ "Suc i"])
    qed (use IH x in simp)
  qed
qed simp

lemma first_bad_links: "links sound nxt h xs \<Longrightarrow> first_bad check n h xs = (None, foldl nxt h xs)"
proof (induction xs arbitrary: n h)
  case (Cons x xs)
  then show ?case using check_iff [of h x "nxt h x"] by simp
qed simp

end

definition line_sound :: "(string \<Rightarrow> string) \<Rightarrow> (serde \<Rightarrow> string) \<Rightarrow> string \<Rightarrow> wal_line \<Rightarrow> bool" where
  "line_sound blake3 ser h l \<longleftrightarrow>
     wl_prev_hash l = h \<and> wl_content_hash l = fact_hash blake3 ser (wl_fact l) \<and>
     wl_chain_hash l = chain_step blake3 h (fact_hash blake3 ser (wl_fact l))"

definition entry_sound :: "(string \<Rightarrow> string) \<Rightarrow> (serde \<Rightarrow> string) \<Rightarrow> (string \<Rightarrow> string + serde) \<Rightarrow> string \<Rightarrow> export_entry \<Rightarrow> bool" where
  "entry_sound blake3 ser de h e \<longleftrightarrow>
     ee_prev_hash e = h \<and> ee_content_hash e = fact_hash blake3 ser (ee_fact e) \<and>
     de (ee_fact_json_stable e) = Inr (fact_to_stable_json (ee_fact e)) \<and>
     ee_fact_id e = fact_id_of (ee_fact e) \<and> ee_fact_type e = type_name (ee_fact e)"

text \<open>The hash after a sound element is the one the log computes for its fact.\<close>

abbreviation after :: "(string \<Rightarrow> string) \<Rightarrow> (serde \<Rightarrow> string) \<Rightarrow> ('e \<Rightarrow> fact) \<Rightarrow> string \<Rightarrow> 'e \<Rightarrow> string" where
  "after blake3 ser fact_in h x \<equiv> chain_step blake3 h (fact_hash blake3 ser (fact_in x))"

lemma after_facts: "foldl (after blake3 ser fact_in) h xs = chain_from blake3 ser h (map fact_in xs)"
  by (induction xs arbitrary: h) (simp_all add: chain_from_def)

interpretation lines: link_check "check_line blake3 ser" "line_sound blake3 ser" "after blake3 ser wl_fact" for blake3 ser
  by unfold_locales (auto simp: check_line_def line_sound_def Let_def)

interpretation entries: link_check "check_entry blake3 ser de" "entry_sound blake3 ser de" "after blake3 ser ee_fact" for blake3 ser de
  by unfold_locales (auto simp: check_entry_def entry_sound_def Let_def)

lemma lines_loop_scan:
  "lines_loop blake3 ser n h vs ls = Some rep \<Longrightarrow> first_bad (check_line blake3 ser) n h ls = (wr_stopped_at rep, wr_tail_hash rep)"
  by (induction ls arbitrary: n h vs) (auto split: sum.splits option.splits)

lemma export_loop_scan:
  "export_loop blake3 ser de doc n h vs es = Some rep \<Longrightarrow>
     first_bad (check_entry blake3 ser de) n h es = (xr_stopped_at rep, xr_tail_hash rep) \<and>
     xr_last_hash_matches rep = (xr_tail_hash rep = doc_last_hash doc)"
  by (induction es arbitrary: n h vs) (auto simp: finish_export_def split: sum.splits option.splits)

lemma lines_loop_links:
  assumes "links (line_sound blake3 ser) (after blake3 ser wl_fact) h ls"
  shows "\<exists>vs'. lines_loop blake3 ser n h vs ls = Some \<lparr>wr_verdicts = vs', wr_stopped_at = None,
    wr_tail_hash = chain_from blake3 ser h (map wl_fact ls)\<rparr>"
  using assms
proof (induction ls arbitrary: n h vs)
  case (Cons l ls)
  then have "check_line blake3 ser h l = Inr (after blake3 ser wl_fact h l)" by (simp add: lines.check_iff)
  with Cons show ?case by (simp add: chain_from_def)
qed (simp add: chain_from_def)

section \<open>What is accepted\<close>

text \<open>The line of a record is read back as its hashes and its fact.\<close>

lemma read_line:
  assumes "wf_fact f"
  shows "ev_parse_wal_line (hash_record_json vb f ch ph kh) =
    Inr \<lparr>wl_content_hash = ch, wl_chain_hash = kh, wl_prev_hash = ph, wl_fact = canon_fact f\<rparr>"
  using read_fact [OF assms] by (simp add: ev_parse_wal_line_def hash_record_json_def read_defs wal_fact_same Let_def)

definition line_of :: "record_data \<Rightarrow> wal_line" where
  "line_of r = (case r of (vb, f, ch, ph, kh) \<Rightarrow> \<lparr>wl_content_hash = ch, wl_chain_hash = kh, wl_prev_hash = ph, wl_fact = f\<rparr>)"

definition line_json_of :: "record_data \<Rightarrow> serde" where
  "line_json_of r = (case r of (vb, f, ch, ph, kh) \<Rightarrow> hash_record_json vb f ch ph kh)"

lemma read_numbered:
  assumes "\<forall>(vb, f, ch, ph, kh) \<in> set data. canonical_fact f"
  shows "try_map parse_numbered_line (zip [n..<n + length data] (map line_json_of data)) = Inr (map line_of data)"
  using assms
proof (induction data arbitrary: n)
  case (Cons r data)
  obtain vb f ch ph kh where r: "r = (vb, f, ch, ph, kh)" by (cases r)
  then have "canonical_fact f" using Cons.prems by auto
  then have "parse_numbered_line (n, line_json_of r) = Inr (line_of r)"
    by (simp add: r parse_numbered_line_def line_json_of_def line_of_def read_line [OF canonical_wf_fact] canon_fact_canonical)
  moreover have "try_map parse_numbered_line (zip [Suc n..<Suc (n + length data)] (map line_json_of data)) = Inr (map line_of data)"
    using Cons.IH [of "Suc n"] Cons.prems by simp
  moreover have "[n..<Suc (n + length data)] = n # [Suc n..<Suc (n + length data)]" by (rule upt_conv_Cons) simp
  ultimately show ?case by simp
qed simp

lemma chained_links:
  "hash_chained blake3 ser h (map record_of data) \<longleftrightarrow> links (line_sound blake3 ser) (after blake3 ser wl_fact) h (map line_of data)"
proof (induction data arbitrary: h)
  case (Cons r data)
  then show ?case by (cases r) (auto simp: record_of_def line_of_def hash_record_def line_sound_def Let_def)
qed simp

lemma handler_accepts:
  assumes "\<forall>(vb, f, ch, ph, kh) \<in> set data. canonical_fact f" "hash_chained blake3 ser genesis (map record_of data)"
  shows "\<exists>out. handle_wal blake3 ser (SArray (map line_json_of data)) = Some out \<and> s_get ''ok'' out = Some (SBool True) \<and>
    s_get ''tail_hash'' out = Some (SString (chain_from blake3 ser genesis (map (\<lambda>r. wl_fact (line_of r)) data)))"
proof -
  obtain vs' where "verify_wal_lines blake3 ser (map line_of data) = Some \<lparr>wr_verdicts = vs', wr_stopped_at = None,
      wr_tail_hash = chain_from blake3 ser genesis (map wl_fact (map line_of data))\<rparr>"
    using lines_loop_links [OF assms(2) [unfolded chained_links], of 0 "[]"] unfolding verify_wal_lines_def by blast
  with read_numbered [OF assms(1), of 0] show ?thesis
    by (simp add: handle_wal_def wal_input_def wal_all_ok_def comp_def)
qed

section \<open>The two verifiers of anchors\<close>

definition seal_of :: "audit_anchor \<Rightarrow> anchor_seal" where
  "seal_of a = \<lparr>as_seq = seq a, as_session_id = session_id a,
     as_fact_range = \<lparr>sr_lo = word_of_nat (lo (fact_range a)), sr_hi = word_of_nat (hi (fact_range a))\<rparr>,
     as_chain_head = chain_head a, as_key_id = key_id a, as_engine_id = engine_id a, as_logical_time = logical_time a,
     as_anchor_hash = anchor_hash a, as_signature = signature a\<rparr>"

definition range_fits :: "audit_anchor \<Rightarrow> bool" where
  "range_fits a \<longleftrightarrow> lo (fact_range a) < 2 ^ 64 \<and> hi (fact_range a) < 2 ^ 64"

lemma hex_agree: "hex_decode h = Inr bs \<longleftrightarrow> seal_hex_decode h = Some bs"
proof -
  have "hex_pairs h = Inr bs \<longleftrightarrow> seal_hex_pairs h = Some bs" for h bs
    by (induction h arbitrary: bs rule: induct_list012) (auto simp: map_ok_def split: option.splits sum.splits, metis)
  then show ?thesis by (simp add: hex_decode_def seal_hex_decode_def)
qed

lemma unat_fits: "n < 2 ^ 64 \<Longrightarrow> unat (word_of_nat n :: u64) = n"
  by (simp add: unat_of_nat take_bit_nat_eq_self)

lemma fields_agree: "range_fits a \<Longrightarrow> seal_fields (seal_of a) = proto_fields (proto_of a)"
  by (simp add: seal_fields_def proto_fields_def seal_of_def proto_of_def range_fits_def unat_fits)

lemma ok_or_Inr: "ok_or e v = Inr x \<longleftrightarrow> v = Some x"
  by (cases v) (simp_all add: ok_or_def)

lemma verify_one_agrees:
  assumes "range_fits a"
  shows "verify_seal ed blake3 (seal_of a) prev key = Inr () \<longleftrightarrow> verify_one ed blake3 prev key a = Inr ()"
  unfolding verify_seal_def verify_one_def verify_anchor_signature_def seal_hash_def compute_anchor_hash_def seal_signature_payload_def
    signature_payload_v2_def fields_agree [OF assms] verify_signature_def
  by (auto simp: and_then_Inr ok_or_Inr map_err_Inr hex_agree seal_of_def split: if_splits)

lemma seals_from_agree:
  assumes "list_all range_fits as" "l < 2 ^ 64"
  shows "verify_seals_from ed blake3 keys (word_of_nat i) prev (word_of_nat l) (map seal_of as) = Inr () \<longleftrightarrow>
    verify_anchors_from ed blake3 keys i prev l as = Inr () \<and> (\<forall>a \<in> set as. lo (fact_range a) \<le> hi (fact_range a))"
  using assms
proof (induction as arbitrary: i prev l)
  case (Cons a as)
  have f: "range_fits a" "hi (fact_range a) < 2 ^ 64" "lo (fact_range a) < 2 ^ 64" using Cons.prems(1) by (auto simp: range_fits_def)
  have w: "(word_of_nat (lo (fact_range a)) :: u64) = word_of_nat l \<longleftrightarrow> lo (fact_range a) = l"
    "(word_of_nat (lo (fact_range a)) :: u64) > word_of_nat (hi (fact_range a)) \<longleftrightarrow> lo (fact_range a) > hi (fact_range a)"
    using f Cons.prems(2) by (metis unat_fits, simp add: word_less_nat_alt unat_fits)
  have r: "as_seq (seal_of a) = seq a" "as_fact_range (seal_of a) = \<lparr>sr_lo = word_of_nat (lo (fact_range a)), sr_hi = word_of_nat (hi (fact_range a))\<rparr>"
    "as_key_id (seal_of a) = key_id a" "as_anchor_hash (seal_of a) = anchor_hash a" by (simp_all add: seal_of_def)
  note IH = Cons.IH [OF _ f(2), of "Suc i" "anchor_hash a"]
  have "verify_seals_from ed blake3 keys (word_of_nat i) prev (word_of_nat l) (map seal_of (a # as)) = Inr () \<longleftrightarrow>
      seq a = word_of_nat i \<and> lo (fact_range a) = l \<and> lo (fact_range a) \<le> hi (fact_range a) \<and>
      (\<exists>key. bt_get (key_id a) keys = Some key \<and> verify_one ed blake3 prev key a = Inr ()) \<and>
      verify_seals_from ed blake3 keys (word_of_nat (Suc i)) (anchor_hash a) (word_of_nat (hi (fact_range a))) (map seal_of as) = Inr ()"
    using verify_one_agrees [OF f(1), of ed blake3 prev] w
    by (cases "lo (fact_range a) = l") (auto simp: r and_then_Inr ok_or_Inr add.commute)
  moreover have "verify_anchors_from ed blake3 keys i prev l (a # as) = Inr () \<longleftrightarrow>
      seq a = word_of_nat i \<and> lo (fact_range a) = l \<and>
      (\<exists>key. bt_get (key_id a) keys = Some key \<and> verify_one ed blake3 prev key a = Inr ()) \<and>
      verify_anchors_from ed blake3 keys (Suc i) (anchor_hash a) (hi (fact_range a)) as = Inr ()"
    by (auto simp: verify_anchors_from.simps and_then_Inr ok_or_Inr)
  ultimately show ?case using IH Cons.prems(1) by (simp del: of_nat_Suc) blast
qed simp

section \<open>Properties\<close>

lemma parsed_entry_canonical: "parse_export_entry i e = Inr x \<Longrightarrow> canonical_fact (ee_fact x)"
  unfolding parse_export_entry_def Let_def and_then_Inr map_err_Inr by (auto intro: read_fact_canonical)

lemma parsed_canonical:
  assumes "parse_export_doc v = Inr d"
  shows "list_all canonical_fact (map ee_fact (doc_entries d))"
proof -
  obtain arr where "try_map (\<lambda>(i, e). parse_export_entry i e) (zip [0..<length arr] arr) = Inr (doc_entries d)"
    using assms unfolding parse_export_doc_def Let_def by (auto simp: and_then_Inr split: if_splits)
  from try_map_set [OF this] show ?thesis by (fastforce simp: list_all_iff intro: parsed_entry_canonical)
qed



text \<open>
  C25: the verdict on a log is exact.  When the report names no line, every line continues the chain from
  the first to the last, and the reported hash is the chain hash of the facts; when it names a line, all
  lines before it continue the chain, that line does not, and the reported hash is the one reached
  before it.
\<close>

theorem wal_verdict_exact:
  assumes "verify_wal_lines blake3 ser ls = Some rep"
  shows "case wr_stopped_at rep of
      None \<Rightarrow> links (line_sound blake3 ser) (after blake3 ser wl_fact) genesis ls \<and>
        wr_tail_hash rep = compute_chain_hash blake3 ser (map wl_fact ls)
    | Some i \<Rightarrow> i < length ls \<and> links (line_sound blake3 ser) (after blake3 ser wl_fact) genesis (take i ls) \<and>
        wr_tail_hash rep = compute_chain_hash blake3 ser (map wl_fact (take i ls)) \<and> \<not> line_sound blake3 ser (wr_tail_hash rep) (ls ! i)"
  using lines.first_bad_exact [OF lines_loop_scan [OF assms [unfolded verify_wal_lines_def]]]
  by (auto simp: after_facts compute_chain_hash_from split: option.splits)

theorem wal_verdict_exact_witness:
  "\<exists>rep. verify_wal_lines sample_blake3 unary_ser
      [\<lparr>wl_content_hash = [], wl_chain_hash = [], wl_prev_hash = ''tampered'', wl_fact = Stable 1 0\<rparr>] = Some rep \<and>
    wr_stopped_at rep = Some 0 \<and> wr_tail_hash rep = genesis"
proof -
  let ?ls = "[\<lparr>wl_content_hash = [], wl_chain_hash = [], wl_prev_hash = ''tampered'', wl_fact = Stable 1 0\<rparr>]"
  obtain rep where rep: "verify_wal_lines sample_blake3 unary_ser ?ls = Some rep" "wr_stopped_at rep = Some 0"
    by (simp add: verify_wal_lines_def check_line_def short_hash_def genesis_def)
  with wal_verdict_exact [OF rep(1)] show ?thesis by (simp add: compute_chain_hash_def)
qed

text \<open>
  C26: an accepted export binds its facts.  Two documents that are accepted in full and claim the same
  last hash carry the same facts in the same order, unless two different texts with the same hash were
  found; and every entry carries the text, the identifier and the type of its fact.
\<close>

theorem accepted_export_binds:
  assumes "\<And>x. length (blake3 x) = 64" "inj ser"
    and "parse_export_doc v = Inr d" "verify_export blake3 ser de d = Some r" "export_all_ok r"
    and "parse_export_doc v' = Inr d'" "verify_export blake3 ser de d' = Some r'" "export_all_ok r'"
    and "doc_last_hash d = doc_last_hash d'"
  shows "(map ee_fact (doc_entries d) = map ee_fact (doc_entries d') \<or>
     collision blake3 (chain_inputs blake3 ser genesis (map ee_fact (doc_entries d))) (chain_inputs blake3 ser genesis (map ee_fact (doc_entries d')))) \<and>
    links (entry_sound blake3 ser de) (after blake3 ser ee_fact) genesis (doc_entries d)"
proof -
  have acc: "links (entry_sound blake3 ser de) (after blake3 ser ee_fact) genesis (doc_entries d) \<and>
      compute_chain_hash blake3 ser (map ee_fact (doc_entries d)) = doc_last_hash d"
    if "verify_export blake3 ser de d = Some r" "export_all_ok r" for d r
  proof -
    note scan = export_loop_scan [OF that(1) [unfolded verify_export_def]]
    with that(2) show ?thesis
      using entries.first_bad_exact [OF conjunct1 [OF scan]]
      by (auto simp: export_all_ok_def after_facts compute_chain_hash_from)
  qed
  from acc [OF assms(4,5)] acc [OF assms(7,8)] assms(9) chain_binds_facts [OF assms(1,2) parsed_canonical [OF assms(3)] parsed_canonical [OF assms(6)]]
  show ?thesis by auto
qed

text \<open>An exported document with one entry, and what it is parsed to.\<close>

definition sample_export :: serde where
  "sample_export = serde_map
     [(''version'', SString ''1.0''), (''entry_count'', num 1), (''last_hash'', SString (replicate 64 (CHR ''0''))),
      (''entries'', SArray [serde_map
        [(''content_hash'', SString (replicate 64 (CHR ''0''))), (''fact'', fact_to_stable_json (Stable 1 0)), (''fact_id'', num 1),
         (''fact_type'', SString ''Stable''), (''fact_json_stable'', SString (unary_ser (fact_to_stable_json (Stable 1 0)))), (''prev_hash'', SString genesis)]])]"

definition sample_doc :: export_doc where
  "sample_doc = \<lparr>doc_version = ''1.0'', doc_entry_count = 1, doc_last_hash = replicate 64 (CHR ''0''),
     doc_entries = [\<lparr>ee_content_hash = replicate 64 (CHR ''0''), ee_fact = Stable 1 0, ee_fact_id = 1, ee_fact_type = ''Stable'',
       ee_fact_json_stable = unary_ser (fact_to_stable_json (Stable 1 0)), ee_prev_hash = genesis\<rparr>]\<rparr>"

theorem accepted_export_binds_witness:
  "parse_export_doc sample_export = Inr sample_doc \<and>
   links (entry_sound sample_blake3 unary_ser unary_de) (after sample_blake3 unary_ser ee_fact) genesis (doc_entries sample_doc)"
proof -
  have f: "ev_fact_from_json (fact_to_stable_json (Stable 1 0)) = Inr (Stable 1 0)" by (simp add: read_fact del: fact_to_stable_json.simps)
  have p: "parse_export_doc sample_export = Inr sample_doc"
    using f by (simp add: parse_export_doc_def sample_export_def sample_doc_def parse_export_entry_def read_defs EXPORT_VERSION_def Let_def
        del: fact_to_stable_json.simps)
  obtain r where r: "verify_export sample_blake3 unary_ser unary_de sample_doc = Some r" "export_all_ok r"
    by (simp add: verify_export_def sample_doc_def check_entry_def fact_hash_def chain_step_def sample_blake3_def unary_ser_laws export_all_ok_def
        finish_export_def del: fact_to_stable_json.simps)
  have "length (sample_blake3 x) = 64" for x by (simp add: sample_blake3_def)
  moreover have "inj unary_ser" by (rule inj_on_inverseI [where g = "\<lambda>t. projr (unary_de t)"]) (simp add: unary_ser_laws)
  ultimately show ?thesis using accepted_export_binds [OF _ _ p r p r] p by blast
qed

text \<open>
  The two verifiers of anchor chains agree.  On anchors whose ranges are machine integers the
  independent verifier accepts exactly the chains that the governance crate accepts and in which no
  range is inverted.
\<close>

theorem seal_verifiers_agree:
  assumes "list_all range_fits as"
  shows "verify_seal_chain ed blake3 (map seal_of as) keys = Inr () \<longleftrightarrow>
    verify_anchor_chain ed blake3 as keys = Inr () \<and> (\<forall>a \<in> set as. lo (fact_range a) \<le> hi (fact_range a))"
  using seals_from_agree [OF assms, of 0 ed blake3 keys 0] by (simp add: verify_seal_chain_def verify_anchor_chain_def)

theorem seal_verifiers_agree_witness:
  "verify_seal_chain sample_ed sample_blake3 (map seal_of [sample_anchor sample_blake3]) sample_keys = Inr ()"
proof -
  have "verify_anchor_chain sample_ed sample_blake3 [sample_anchor sample_blake3] sample_keys = Inr ()"
    using sample_life_one [of sample_blake3] anchor_life_ok [OF sample_ed_laws] by blast
  moreover have "list_all range_fits [sample_anchor sample_blake3]" by (simp add: range_fits_def sample_anchor_def)
  moreover have "\<forall>a \<in> set [sample_anchor sample_blake3]. lo (fact_range a) \<le> hi (fact_range a)" by (simp add: sample_anchor_def)
  ultimately show ?thesis using seal_verifiers_agree [of "[sample_anchor sample_blake3]"] by blast
qed

text \<open>
  The parser inverts the hashed form.  A fact is read back from its hashed form as itself with every
  unsigned number that fits the signed range read as a signed one; the hashed form, and with it every hash,
  is the same, and a fact in canonical form is read back unchanged.
\<close>

theorem fact_read_back:
  assumes "wf_fact f"
  shows "ev_fact_from_json (fact_to_stable_json f) = Inr (canon_fact f) \<and>
    fact_to_stable_json (canon_fact f) = fact_to_stable_json f \<and> (canonical_fact f \<longrightarrow> canon_fact f = f)"
  using read_fact [OF assms] stable_canon canon_fact_canonical by blast

theorem fact_read_back_witness:
  "ev_fact_from_json (fact_to_stable_json (Command 1 (U64 5))) = Inr (Command 1 (Integer 5))"
  using fact_read_back [of "Command 1 (U64 5)"] by (simp add: i64_max_def del: fact_to_stable_json.simps)

text \<open>The log of a microcontroller is accepted in the same way, when its facts are in canonical form.\<close>

definition data_of :: "mcu_wal_record \<Rightarrow> record_data" where
  "data_of r = (mr_version_before r, mr_fact r, mr_content_hash r, mr_prev_hash r, mr_chain_hash r)"

lemma linked_chained: "linked blake3 ser h rs \<Longrightarrow> hash_chained blake3 ser h (map record_of (map data_of rs))"
  by (induction rs arbitrary: h) (auto simp: record_of_def data_of_def hash_record_def Let_def)

lemma mcu_lines_accepted:
  assumes "linked blake3 ser genesis rs" "list_all (\<lambda>r. canonical_fact (mr_fact r)) rs" "\<And>v. de (ser v) = Inr v"
  shows "\<exists>js out. try_map de (map (mcu_line ser) rs) = Inr js \<and> handle_wal blake3 ser (SArray js) = Some out \<and>
    s_get ''ok'' out = Some (SBool True)"
proof -
  have "try_map de (map (mcu_line ser) rs) = Inr (map (\<lambda>r. line_json_of (data_of r)) rs)"
    by (rule try_map_map) (simp add: assms(3) mcu_line_def wal_line_json_def line_json_of_def data_of_def hash_record_json_def wal_fact_same)
  moreover have "\<forall>(vb, f, ch, ph, kh) \<in> set (map data_of rs). canonical_fact f" using assms(2) by (auto simp: data_of_def list_all_iff)
  ultimately show ?thesis using handler_accepts [OF _ linked_chained [OF assms(1)]] by (fastforce simp: comp_def)
qed

section \<open>Where the verifier departs from its documentation\<close>

text \<open>
  The handlers are documented never to panic.  A document or log that claims a hash with a character of
  several bytes across the sixteenth byte makes the report of the mismatch panic.
\<close>

definition wide_hash :: string where
  "wide_hash = replicate 15 (CHR ''a'') @ utf8 [195, 169]"

lemma handler_panics:
  "handle_wal sample_blake3 unary_ser (SArray [hash_record_json 0 (Stable 1 0) [] wide_hash []]) = None"
proof -
  have "try_map parse_numbered_line (zip [0..<1] [hash_record_json 0 (Stable 1 0) [] wide_hash []]) =
      Inr [\<lparr>wl_content_hash = [], wl_chain_hash = [], wl_prev_hash = wide_hash, wl_fact = Stable 1 0\<rparr>]"
    by (simp add: parse_numbered_line_def read_line)
  moreover have "short_hash wide_hash = None" "wide_hash \<noteq> genesis" by code_simp+
  ultimately show ?thesis by (simp add: handle_wal_def wal_input_def verify_wal_lines_def check_line_def)
qed

text \<open>
  The auditor of the governance crate exports documents of version 1.0; the verifier accepts version 1.0, but
  refuses every such document that has an entry, because the entries do not carry the facts.
\<close>

lemma audit_export_refused:
  assumes "entries a \<noteq> []"
  shows "\<exists>e. parse_export_doc (export_json a) = Inl e"
proof -
  have "parse_export_entry i (entry_json x) = Inl e" if "e = ParseError (''entries['' @ dec_nat i @ '']'' @ ('' '' @ utf8 [231, 188, 186, 229, 173, 151, 230, 174, 181] @ '' '' @ utf8 [34]) @ ''fact'' @ (utf8 [34]))" for i x e
    using that by (simp add: parse_export_entry_def entry_json_def read_defs Let_def)
  then have "\<exists>e. try_map (\<lambda>(i, e). parse_export_entry i e) (zip [0..<length (entries a)] (map entry_json (entries a))) = Inl e"
    using assms by (cases "entries a") (simp_all add: upt_conv_Cons del: upt_Suc)
  then show ?thesis by (auto simp: parse_export_doc_def export_json_def read_defs EXPORT_VERSION_def Let_def)
qed

end
