(* ===== verification/TimeMachine.thy ===== *)
theory TimeMachine
  imports Auditor
begin

text \<open>
  The time machine, \<open>evorule-governance/src/time_machine.rs\<close>: the state at an earlier version is rebuilt
  from the facts (\<open>rewind\<close>), and two versions are compared (\<open>diff\<close>).  Shown is that a rewound state is the
  state the log had at that version, and that a difference is exact: applied to the first payload it gives
  the second.
\<close>

section \<open>Rebuilding a state\<close>

fun json_value_to_serde :: "json \<Rightarrow> serde" where
  "json_value_to_serde Null = SNull"
| "json_value_to_serde (Bool b) = SBool b"
| "json_value_to_serde (Integer i) = SNumber (sint i)"
| "json_value_to_serde (U64 v) = SNumber (uint v)"
| "json_value_to_serde (String s) = SString s"
| "json_value_to_serde (Array arr) = SArray (map json_value_to_serde arr)"
| "json_value_to_serde (Object m) = serde_map (map (\<lambda>(k, v). (k, json_value_to_serde v)) m)"

record rewind_snapshot =
  rw_payload :: serde
  rw_queue :: "serde list"
  rw_version :: u64

text \<open>
  The loop over the parts of a path but the last: missing objects are created on the way; what is done at
  the parent is an argument.
\<close>

fun navigate_parts :: "string list \<Rightarrow> (json \<Rightarrow> json) \<Rightarrow> json \<Rightarrow> json" where
  "navigate_parts [] at cur = at cur"
| "navigate_parts (part # parts) at cur =
     (case cur of
        Object m \<Rightarrow>
          (let m' = (if bt_contains part m then m else bt_put part empty_object m) in
           case bt_get part m' of
             None \<Rightarrow> Object m'
           | Some nxt \<Rightarrow> Object (bt_put part (navigate_parts parts at nxt) m'))
      | _ \<Rightarrow> cur)"

definition insert_field :: "string \<Rightarrow> json \<Rightarrow> json \<Rightarrow> json" where
  "insert_field fld v cur = (case cur of Object m \<Rightarrow> Object (bt_put fld v m) | _ \<Rightarrow> cur)"

definition tm_payload_update :: "json \<Rightarrow> string \<Rightarrow> json \<Rightarrow> json" where
  "tm_payload_update p path v =
     (case resolve_path_mut (\<lambda>_. v) p path of
        Some p' \<Rightarrow> p'
      | None \<Rightarrow>
          (let parts = split_on (CHR ''.'') path in
           if parts = [] then p
           else if length parts = 1 then insert_field (last parts) v p
           else navigate_parts (butlast parts) (insert_field (last parts) v) p))"

type_synonym moment = "json \<times> json list \<times> u64"

fun rewind_step :: "fact \<Rightarrow> moment \<Rightarrow> moment" where
  "rewind_step (StateTransition _ _ new_payload new_queue) (p, q, ver) = (new_payload, new_queue, ver + 1)"
| "rewind_step (IoResponse _ _ _ _) (p, q, ver) = (p, q, ver + 1)"
| "rewind_step (PayloadUpdate _ path v) (p, q, ver) = (tm_payload_update p path v, q, ver + 1)"
| "rewind_step _ m = m"

abbreviation moment_version :: "moment \<Rightarrow> u64" where
  "moment_version m \<equiv> snd (snd m)"

fun rewind_loop :: "u64 \<Rightarrow> fact list \<Rightarrow> moment \<Rightarrow> moment" where
  "rewind_loop target [] m = m"
| "rewind_loop target (f # fs) m =
     (let m' = rewind_step f m in if moment_version m' = target then m' else rewind_loop target fs m')"

definition rewind :: "fact list \<Rightarrow> u64 \<Rightarrow> rewind_snapshot option" where
  "rewind facts target =
     (if target = 0 then Some \<lparr>rw_payload = SObject [], rw_queue = [], rw_version = 0\<rparr>
      else
        (let (p, q, ver) = rewind_loop target facts (empty_object, [], 0) in
         if ver < target then None
         else Some \<lparr>rw_payload = json_value_to_serde p, rw_queue = map json_value_to_serde q, rw_version = ver\<rparr>))"

section \<open>Comparing two payloads\<close>

record payload_diff =
  pd_added :: "(string \<times> serde) list"
  pd_removed :: "(string \<times> serde) list"
  pd_changed :: "(string \<times> serde \<times> serde) list"
  pd_unchanged :: "string list"

definition diff_is_empty :: "payload_diff \<Rightarrow> bool" where
  "diff_is_empty d \<longleftrightarrow> pd_added d = [] \<and> pd_removed d = [] \<and> pd_changed d = []"

definition change_count :: "payload_diff \<Rightarrow> nat" where
  "change_count d = length (pd_added d) + length (pd_removed d) + length (pd_changed d)"

definition diff_summary :: "payload_diff \<Rightarrow> string" where
  "diff_summary d =
     ''diff: +'' @ dec_nat (length (pd_added d)) @ '' -'' @ dec_nat (length (pd_removed d)) @ '' ~'' @ dec_nat (length (pd_changed d))
     @ '' (='' @ dec_nat (length (pd_unchanged d)) @ '' unchanged)''"

datatype time_machine_error = TimeMachineError u64

fun time_machine_error_display :: "time_machine_error \<Rightarrow> string" where
  "time_machine_error_display (TimeMachineError ver) =
     ''time machine: rewind to version '' @ dec_nat (unat ver)
     @ '' unavailable (facts history insufficient or version out of range)''"

text \<open>The first loop, over the members of the first payload.\<close>

fun diff_members :: "serde \<Rightarrow> (string \<times> serde) list \<Rightarrow> payload_diff \<Rightarrow> payload_diff" where
  "diff_members b [] d = d"
| "diff_members b ((key, val_a) # m) d =
     diff_members b m
       (case s_get key b of
          Some val_b \<Rightarrow>
            if val_a = val_b then d\<lparr>pd_unchanged := pd_unchanged d @ [key]\<rparr>
            else d\<lparr>pd_changed := pd_changed d @ [(key, val_a, val_b)]\<rparr>
        | None \<Rightarrow> d\<lparr>pd_removed := pd_removed d @ [(key, val_a)]\<rparr>)"

definition compute_diff :: "serde \<Rightarrow> serde \<Rightarrow> payload_diff" where
  "compute_diff a b =
     (let d0 = \<lparr>pd_added = [], pd_removed = [], pd_changed = [], pd_unchanged = []\<rparr>;
          d1 = (case s_as_object a of Some m \<Rightarrow> diff_members b m d0 | None \<Rightarrow> d0) in
      case s_as_object b of
        Some m \<Rightarrow> d1\<lparr>pd_added := filter (\<lambda>(key, _). s_get key a = None) m\<rparr>
      | None \<Rightarrow> d1)"

definition tm_diff :: "fact list \<Rightarrow> u64 \<Rightarrow> u64 \<Rightarrow> time_machine_error + payload_diff" where
  "tm_diff facts v_a v_b =
     and_then (ok_or (TimeMachineError v_a) (map_option rw_payload (rewind facts v_a))) (\<lambda>a.
     and_then (ok_or (TimeMachineError v_b) (map_option rw_payload (rewind facts v_b))) (\<lambda>b.
     Inr (compute_diff a b)))"

section \<open>The same update as in the log\<close>

lemma value_serde_same: "json_value_to_serde = tcb_to_serde"
proof
  show "json_value_to_serde j = tcb_to_serde j" for j
  proof (induction j)
    case (Object m)
    then have "map (\<lambda>(k, v). (k, json_value_to_serde v)) m = map (\<lambda>(k, v). (k, tcb_to_serde v)) m" by (auto simp: snds.simps)
    then show ?case by (simp only: json_value_to_serde.simps tcb_to_serde.simps)
  qed simp_all
qed

lemma navigate_put_parts: "parts \<noteq> [] \<Longrightarrow> navigate_parts (butlast parts) (insert_field (last parts) v) p = put_parts parts v p"
proof (induction parts arbitrary: p)
  case (Cons part rest)
  show ?case
  proof (cases rest)
    case Nil
    then show ?thesis by (simp add: insert_field_def)
  next
    case (Cons b r)
    then have "navigate_parts (butlast (b # r)) (insert_field (last (b # r)) v) q = put_parts (b # r) v q" for q
      using Cons.IH by simp
    moreover have "butlast (part # b # r) = part # butlast (b # r)" "last (part # b # r) = last (b # r)" by simp_all
    ultimately show ?thesis unfolding Cons by (cases p) (simp_all only: navigate_parts.simps put_parts.simps json.case)
  qed
qed simp

lemma split_on_one: "split_on c s = [x] \<Longrightarrow> x = s"
  by (metis join_on.simps(2) join_split_on)

lemma update_same: "tm_payload_update p path v = update_snapshot path v p"
proof (cases "tl (split_on (CHR ''.'') path)")
  case Nil
  then have "split_on (CHR ''.'') path = [hd (split_on (CHR ''.'') path)]"
    by (metis list.collapse split_on_not_Nil)
  then have "split_on (CHR ''.'') path = [path]" by (metis split_on_one)
  then show ?thesis
    by (auto simp: tm_payload_update_def update_snapshot_def insert_field_def Let_def split: option.splits json.splits)
next
  case (Cons a r)
  then have "length (split_on (CHR ''.'') path) \<noteq> 1" by (metis One_nat_def Suc_length_conv length_0_conv list.distinct(1) list.sel(3))
  then show ?thesis
    by (simp add: tm_payload_update_def update_snapshot_def navigate_put_parts Let_def split: option.split)
qed

section \<open>Rewinding and replaying\<close>

lemma bump_snapshot:
  assumes "bump_log_version l = (l', None)"
  shows "snapshot l' = (current_snapshot l, current_queue l, version l + 1) \<and> version l' = version l + 1 \<and> version l < version l + 1"
  using assms
  by (auto simp: bump_log_version_def snapshot_def checked_inc_u64_def word_less_nat_alt unat_inc_u64 split: option.splits if_splits)

lemma apply_fact_moment:
  assumes "apply_fact_to_state f l = (l', None)"
  shows "snapshot l' = rewind_step f (snapshot l) \<and> (version l' = version l + 1 \<and> version l < version l' \<or> snapshot l' = snapshot l)"
proof (cases f)
  case (StateTransition x1 x2 x3 x4)
  then show ?thesis using assms bump_snapshot by (fastforce simp: snapshot_def)
next
  case (IoResponse x1 x2 x3 x4)
  then show ?thesis using assms bump_snapshot by (fastforce simp: snapshot_def)
next
  case (PayloadUpdate x1 x2 x3)
  then show ?thesis using assms bump_snapshot by (fastforce simp: snapshot_def update_same)
qed (use assms in \<open>auto simp: snapshot_def\<close>)

text \<open>One record of a replay that succeeds is one step of the rewinding.\<close>

lemma replay_one:
  assumes "replay_loop (r # rs) l = Inr l'"
  obtains l1 where "replay_loop rs l1 = Inr l'" "snapshot l1 = rewind_step (wal_fact r) (snapshot l)"
    "version l1 = version l + 1 \<and> version l < version l1 \<or> snapshot l1 = snapshot l"
    "\<And>rs. replay_loop (r # rs) l = replay_loop rs l1"
proof -
  let ?l = "index_fact (version_before r) (wal_fact r) (length (history l)) (push_history (version_before r) (wal_fact r) l)"
  have same: "snapshot ?l = snapshot l" "version ?l = version l" by (simp_all add: snapshot_def log_frames push_history_def)
  obtain l1 where step: "apply_fact_to_state (wal_fact r) ?l = (l1, None)"
    using assms by (cases "apply_fact_to_state (wal_fact r) ?l") (auto simp: log_frames Let_def split: option.splits)
  have all: "replay_loop (r # rs) l = replay_loop rs l1" for rs using step by (simp add: log_frames Let_def)
  note moment = apply_fact_moment [OF step, unfolded same]
  show thesis
    by (rule that [OF _ conjunct1 [OF moment] conjunct2 [OF moment] all]) (use assms all in \<open>simp only:\<close>)
qed

lemma moment_version_snapshot [simp]: "moment_version (snapshot l) = version l"
  by (simp add: snapshot_def)

lemma rewind_loop_step:
  "snapshot l1 = rewind_step f m \<Longrightarrow>
   rewind_loop target (f # fs) m = (if version l1 = target then snapshot l1 else rewind_loop target fs (snapshot l1))"
  by (drule sym) (simp add: Let_def)

lemma replay_versions_grow:
  "replay_loop rs l = Inr l' \<Longrightarrow> version l \<le> version l' \<and> (version l' = version l \<longrightarrow> snapshot l' = snapshot l)"
proof (induction rs arbitrary: l)
  case (Cons r rs)
  then obtain l1 where l1: "replay_loop rs l1 = Inr l'"
    "version l1 = version l + 1 \<and> version l < version l1 \<or> snapshot l1 = snapshot l"
    by (elim replay_one)
  then have "version l1 \<le> version l' \<and> (version l' = version l1 \<longrightarrow> snapshot l' = snapshot l1)" by (intro Cons.IH)
  with l1(2) show ?case by (auto simp: snapshot_def)
qed simp

lemma rewind_loop_meets:
  "replay_loop rs l = Inr l' \<Longrightarrow> version l < target \<Longrightarrow> replay_loop (take k rs) l = Inr lk \<Longrightarrow> version lk = target \<Longrightarrow>
   rewind_loop target (map wal_fact rs) (snapshot l) = snapshot lk"
proof (induction rs arbitrary: l k)
  case (Cons r rs)
  from Cons.prems(1) obtain l1 where l1: "replay_loop rs l1 = Inr l'" "snapshot l1 = rewind_step (wal_fact r) (snapshot l)"
    "\<And>rs. replay_loop (r # rs) l = replay_loop rs l1"
    by (elim replay_one) blast
  obtain k' where "replay_loop (take k' rs) l1 = Inr lk"
    using Cons.prems(2-) l1(3) by (cases k) auto
  moreover from replay_versions_grow [OF this] have "version l1 \<noteq> target \<Longrightarrow> version l1 < target"
    "version l1 = target \<Longrightarrow> snapshot lk = snapshot l1"
    using Cons.prems(4) by auto
  ultimately show ?case
    using Cons.IH [OF l1(1)] Cons.prems(4) by (simp add: rewind_loop_step [OF l1(2)] del: rewind_loop.simps)
qed auto

lemma rewind_loop_version:
  "replay_loop rs l = Inr l' \<Longrightarrow> version l < target \<Longrightarrow>
   moment_version (rewind_loop target (map wal_fact rs) (snapshot l)) = min target (version l')"
proof (induction rs arbitrary: l)
  case (Cons r rs)
  from Cons.prems(1) obtain l1 where l1: "replay_loop rs l1 = Inr l'" "snapshot l1 = rewind_step (wal_fact r) (snapshot l)"
    "version l1 = version l + 1 \<and> version l < version l1 \<or> snapshot l1 = snapshot l"
    by (elim replay_one)
  from l1(3) have "version l1 \<le> target" using Cons.prems(2) by (auto simp: snapshot_def inc_le)
  then consider "version l1 = target" | "version l1 < target" by fastforce
  then show ?case
  proof cases
    case 1
    then show ?thesis
      using replay_versions_grow [OF l1(1)] by (simp add: rewind_loop_step [OF l1(2)] min_def del: rewind_loop.simps)
  next
    case 2
    then show ?thesis
      using Cons.IH [OF l1(1)] by (simp add: rewind_loop_step [OF l1(2)] del: rewind_loop.simps)
  qed
qed (simp add: min.absorb2)

lemma rewind_loop_log_new: "snapshot log_new = (empty_object, [], 0)"
  by (simp add: snapshot_def log_new_def)

lemma rewind_zero:
  assumes "replay_loop rs log_new = Inr lk" "version lk = 0"
  shows "snapshot lk = (empty_object, [], 0)"
  using replay_versions_grow [OF assms(1)] assms(2) by (simp add: snapshot_def log_new_def)

text \<open>
  C27: the time machine reconstructs what replaying would.  When the records of a log replay, the versions
  that can be reached are exactly those up to the version of the log, and the state it gives for the
  version of any prefix of the records is the payload, the queue and the version that replaying that
  prefix gives.
\<close>

theorem rewind_is_replay:
  fixes l lk :: "'s facts_log"
  assumes "replay_loop rs log_new = Inr l"
  shows "(rewind (map wal_fact rs) target = None \<longleftrightarrow> version l < target) \<and>
    (replay_loop (take k rs) log_new = Inr lk \<longrightarrow>
     rewind (map wal_fact rs) (version lk) =
       Some \<lparr>rw_payload = tcb_to_serde (current_snapshot lk), rw_queue = map tcb_to_serde (current_queue lk), rw_version = version lk\<rparr>)"
proof -
  have new: "version (log_new :: 's facts_log) = 0" by (simp add: log_new_def)
  have "moment_version (rewind_loop target (map wal_fact rs) (empty_object, [], 0)) = min target (version l)" if "target \<noteq> 0"
    using rewind_loop_version [OF assms, of target] that unfolding rewind_loop_log_new new by (simp add: word_gt_0)
  then have "rewind (map wal_fact rs) target = None \<longleftrightarrow> version l < target"
    by (cases "target = 0"; cases "version l < target")
      (auto simp: rewind_def min.absorb1 min.absorb2 not_less word_gt_0 split: prod.split)
  moreover have "rewind (map wal_fact rs) (version lk) =
       Some \<lparr>rw_payload = tcb_to_serde (current_snapshot lk), rw_queue = map tcb_to_serde (current_queue lk), rw_version = version lk\<rparr>"
    if lk: "replay_loop (take k rs) log_new = Inr lk"
  proof (cases "version lk = 0")
    case True
    then show ?thesis
      using rewind_zero [OF lk] by (simp add: rewind_def snapshot_def empty_object_def serde_map_def bt_new_def)
  next
    case False
    then have "version (log_new :: 's facts_log) < version lk" unfolding new by (simp add: word_gt_0)
    then have "rewind_loop (version lk) (map wal_fact rs) (snapshot (log_new :: 's facts_log)) = snapshot lk"
      by (rule rewind_loop_meets [OF assms _ lk refl])
    then show ?thesis using False unfolding rewind_loop_log_new by (simp add: rewind_def snapshot_def value_serde_same)
  qed
  ultimately show ?thesis by blast
qed

section \<open>Differences are exact\<close>

definition patch :: "payload_diff \<Rightarrow> (string, serde) btree_map \<Rightarrow> (string, serde) btree_map" where
  "patch d m =
     (let m1 = foldl (\<lambda>m (k, _). bt_del k m) m (pd_removed d);
          m2 = foldl (\<lambda>m (k, _, v). bt_put k v m) m1 (pd_changed d) in
      foldl (\<lambda>m (k, v). bt_put k v m) m2 (pd_added d))"

definition differs :: "serde \<Rightarrow> string \<times> serde \<Rightarrow> bool" where
  "differs b kv \<longleftrightarrow> s_get (fst kv) b \<noteq> None \<and> s_get (fst kv) b \<noteq> Some (snd kv)"

lemma diff_members_lists:
  "diff_members b m d = \<lparr>pd_added = pd_added d,
     pd_removed = pd_removed d @ filter (\<lambda>(k, _). s_get k b = None) m,
     pd_changed = pd_changed d @ map (\<lambda>(k, v). (k, v, the (s_get k b))) (filter (differs b) m),
     pd_unchanged = pd_unchanged d @ map fst (filter (\<lambda>(k, v). s_get k b = Some v) m)\<rparr>"
  by (induction b m d rule: diff_members.induct) (auto simp: differs_def split: option.splits)

lemma dels_get: "bt_get j (foldl (\<lambda>m (k, _). bt_del k m) m ks) = (if j \<in> fst ` set ks then None else bt_get j m)"
  by (induction ks arbitrary: m) auto

lemma puts_get:
  "distinct (map fst ps) \<Longrightarrow>
   bt_get j (foldl (\<lambda>m (k, v). bt_put k v m) m ps) = (case map_of ps j of Some v \<Rightarrow> Some v | None \<Rightarrow> bt_get j m)"
proof (induction ps arbitrary: m)
  case (Cons p ps)
  moreover have "fst p = j \<Longrightarrow> map_of ps j = None" using Cons.prems by (auto simp: map_of_eq_None_iff)
  ultimately show ?case by (cases p) (auto split: option.split)
qed simp

lemma puts_sorted: "bt_sorted m \<Longrightarrow> bt_sorted (foldl (\<lambda>m (k, v). bt_put k v m) m ps)"
  by (induction ps arbitrary: m) auto

lemma dels_sorted: "bt_sorted m \<Longrightarrow> bt_sorted (foldl (\<lambda>m (k, _). bt_del k m) m ps)"
  by (induction ps arbitrary: m) auto

lemma changes_as_puts: "foldl (\<lambda>m (k, _, v). bt_put k v m) m cs = foldl (\<lambda>m (k, v). bt_put k v m) m (map (\<lambda>(k, _, v). (k, v)) cs)"
  by (induction cs arbitrary: m) auto

lemma distinct_fst_filter: "distinct (map fst m) \<Longrightarrow> distinct (map fst (filter P m))"
  by (induction m) auto

lemma map_of_filter_key: "map_of (filter (\<lambda>(k, _). P k) m) j = (if P j then map_of m j else None)"
  by (induction m) auto

lemma compute_diff_objects:
  "compute_diff (SObject m) (SObject m') =
     \<lparr>pd_added = filter (\<lambda>(k, _). bt_get k m = None) m',
      pd_removed = filter (\<lambda>(k, _). bt_get k m' = None) m,
      pd_changed = map (\<lambda>(k, v). (k, v, the (bt_get k m'))) (filter (differs (SObject m')) m),
      pd_unchanged = map fst (filter (\<lambda>(k, v). bt_get k m' = Some v) m)\<rparr>"
  by (simp add: compute_diff_def diff_members_lists s_get_def)

lemma patch_get:
  assumes "bt_sorted m" "bt_sorted m'"
  shows "bt_get j (patch (compute_diff (SObject m) (SObject m')) m) = bt_get j m'"
proof -
  let ?add = "filter (\<lambda>(k, _). bt_get k m = None) m'"
  let ?chg = "map (\<lambda>(k, v). (k, the (bt_get k m'))) (filter (differs (SObject m')) m)"
  have dist: "distinct (map fst ?add)" "distinct (map fst (filter (differs (SObject m')) m))"
    using assms by (auto intro: distinct_fst_filter bt_sorted_distinct)
  have keys: "map fst ?chg = map fst (filter (differs (SObject m')) m)" by auto
  have "patch (compute_diff (SObject m) (SObject m')) m =
      foldl (\<lambda>m (k, v). bt_put k v m) (foldl (\<lambda>m (k, v). bt_put k v m)
        (foldl (\<lambda>m (k, _). bt_del k m) m (filter (\<lambda>(k, _). bt_get k m' = None) m)) ?chg) ?add"
    by (simp add: patch_def compute_diff_objects changes_as_puts Let_def comp_def prod.case_distrib [of "\<lambda>x. case x of (k, _, v) \<Rightarrow> (k, v)"])
  then have got: "bt_get j (patch (compute_diff (SObject m) (SObject m')) m) =
      (case map_of ?add j of Some v \<Rightarrow> Some v | None \<Rightarrow>
        (case map_of ?chg j of Some v \<Rightarrow> Some v | None \<Rightarrow>
          (if j \<in> fst ` set (filter (\<lambda>(k, _). bt_get k m' = None) m) then None else bt_get j m)))"
    using dist unfolding keys [symmetric] by (simp only: puts_get dels_get)
  have add: "map_of ?add j = (if bt_get j m = None then bt_get j m' else None)"
    by (simp add: map_of_filter_key bt_get_def)
  show ?thesis
  proof (cases "bt_get j m")
    case None
    then have "j \<notin> fst ` set m" by (simp add: bt_get_None_iff)
    then have "map_of ?chg j = None" by (force simp: map_of_eq_None_iff)
    then show ?thesis unfolding got add using None by (simp split: option.split)
  next
    case (Some v)
    then have v: "(j, v) \<in> set m" "\<And>u. (j, u) \<in> set m \<longleftrightarrow> u = v" using assms(1) by (auto simp flip: bt_get_in_iff)
    have "map_of ?chg j = (if differs (SObject m') (j, v) then Some (the (bt_get j m')) else None)"
    proof (cases "differs (SObject m') (j, v)")
      case True
      then have "(j, the (bt_get j m')) \<in> set ?chg" using v(1) by force
      moreover have "distinct (map fst ?chg)" using dist(2) by (simp only: keys)
      ultimately show ?thesis using True by (simp only: map_of_eq_Some_iff if_True)
    next
      case False
      then show ?thesis using v(2) by (auto simp: map_of_eq_None_iff)
    qed
    moreover have "j \<in> fst ` set (filter (\<lambda>(k, _). bt_get k m' = None) m) \<longleftrightarrow> bt_get j m' = None" using v(1) by force
    ultimately show ?thesis unfolding got add using Some by (auto simp: differs_def s_get_def)
  qed
qed

lemma patch_exact:
  assumes "bt_sorted m" "bt_sorted m'"
  shows "patch (compute_diff (SObject m) (SObject m')) m = m'"
proof (rule sorted_entries_eq)
  show "map_of (patch (compute_diff (SObject m) (SObject m')) m) = map_of m'"
    using patch_get [OF assms] by (auto simp: bt_get_def)
  show "sorted_wrt (<) (map fst (patch (compute_diff (SObject m) (SObject m')) m))" "sorted_wrt (<) (map fst m')"
    using assms by (auto simp: patch_def changes_as_puts Let_def simp flip: bt_sorted_def intro!: puts_sorted dels_sorted)
qed

lemma payload_sorted: "json_value_to_serde j = SObject m \<Longrightarrow> bt_sorted m"
  by (cases j) (auto simp: serde_map_def bt_new_def intro!: puts_sorted)

lemma rewind_payload_sorted: "rewind facts ver = Some r \<Longrightarrow> rw_payload r = SObject m \<Longrightarrow> bt_sorted m"
  by (auto simp: rewind_def payload_sorted split: if_splits prod.splits)

lemma tm_diff_found:
  "rewind facts v_a = Some a \<Longrightarrow> rewind facts v_b = Some b \<Longrightarrow> tm_diff facts v_a v_b = Inr (compute_diff (rw_payload a) (rw_payload b))"
  by (simp add: tm_diff_def)

lemma diff_empty_iff:
  assumes "bt_sorted m" "bt_sorted m'"
  shows "diff_is_empty (compute_diff (SObject m) (SObject m')) \<longleftrightarrow> m = m'"
proof
  assume "diff_is_empty (compute_diff (SObject m) (SObject m'))"
  then have "patch (compute_diff (SObject m) (SObject m')) m = m" by (simp add: diff_is_empty_def patch_def)
  with patch_exact [OF assms] show "m = m'" by simp
next
  assume "m = m'"
  moreover have "\<not> differs (SObject m) x" "bt_get (fst x) m \<noteq> None" if "x \<in> set m" for x
    using that bt_get_in_iff [OF assms(1), of "fst x" "snd x"] by (auto simp: differs_def s_get_def)
  ultimately show "diff_is_empty (compute_diff (SObject m) (SObject m'))"
    by (fastforce simp: diff_is_empty_def compute_diff_objects filter_empty_conv)
qed


text \<open>
  Payloads that are not objects have an empty difference whatever they are: the summary of a change from
  one number to another counts no field.
\<close>

lemma scalar_change_unseen:
  "map_ok (\<lambda>d. (diff_is_empty d, diff_summary d))
     (tm_diff [StateTransition 1 0 (Integer 1) [], StateTransition 2 0 (Integer 2) []] 1 2)
   = Inr (True, ''diff: +0 -0 ~0 (=0 unchanged)'')"
  by code_simp

theorem rewind_is_replay_witness:
  "let rs = [hash_record 0 (PayloadUpdate 1 ''x'' (Integer 1)) [] [] [],
             hash_record 1 (StateTransition 2 1 (object_from_pairs [(''y'', Integer 2)]) []) [] [] []]
   in rewind (map wal_fact rs) 1 = Some \<lparr>rw_payload = SObject [(''x'', SNumber 1)], rw_queue = [], rw_version = 1\<rparr> \<and>
      rewind (map wal_fact rs) 3 = None"
proof -
  let ?rs = "[hash_record 0 (PayloadUpdate 1 ''x'' (Integer 1)) [] [] [],
             hash_record 1 (StateTransition 2 1 (object_from_pairs [(''y'', Integer 2)]) []) [] [] []]"
  obtain l :: "unit facts_log" where l: "replay_loop ?rs log_new = Inr l" "version l = 2"
    by (simp add: hash_record_def log_frames log_new_def bump_log_version_def checked_inc_u64_def Let_def)
  have upd: "update_snapshot ''x'' (Integer 1) empty_object = Object [(''x'', Integer 1)]" by code_simp
  obtain lk :: "unit facts_log" where lk: "replay_loop (take 1 ?rs) log_new = Inr lk" "version lk = 1"
    "current_snapshot lk = Object [(''x'', Integer 1)]" "current_queue lk = []"
    by (simp add: hash_record_def log_frames log_new_def bump_log_version_def checked_inc_u64_def upd push_history_def Let_def)
  show ?thesis
    using rewind_is_replay [OF l(1), of 3 1 lk] l(2) lk by (simp add: serde_map_def bt_new_def)
qed

end
