(* ===== verification/Sessions.thy ===== *)
theory Sessions
  imports Reactor TimeMachine
begin

text \<open>
  The session manager, \<open>evorule-governance/src/session.rs\<close>: a table of sessions in shards, each session a
  reactor with its log and its auditor; slots are reserved on an atomic counter before a session is built.
  Locks are not modelled as such: what runs under a lock is one step.  The directory of the logs, the
  clock and the failures of the operating system are inputs.

  Shown is that under every interleaving of creating, closing and reaping the counter is the number of
  sessions and of slots in use and never exceeds the limit, that the identifiers of sessions are fresh, also
  after a restart on a directory with logs, that a derived session starts from the state of its parent, and
  that a session derived from an archive starts from the state the archive recovers to.
\<close>

section \<open>The handle of a reactor and the session\<close>

datatype content_hash_scheme = TcbDisplay | AuditChainCompact

text \<open>
  \<open>evorule_reactor::content_hash\<close> succeeds on every value, so the fall-back to the printed form is not
  reached.
\<close>

definition compute_initial_hash :: "(string \<Rightarrow> string) \<Rightarrow> (serde \<Rightarrow> string) \<Rightarrow> json \<Rightarrow> string \<times> content_hash_scheme" where
  "compute_initial_hash blake3 ser p = (content_hash blake3 ser p, AuditChainCompact)"

definition DEFAULT_MAX_SESSIONS :: usize where
  "DEFAULT_MAX_SESSIONS = 1000"

definition DEFAULT_SESSION_TTL :: duration where
  "DEFAULT_SESSION_TTL = nanos (30 * 60)"

definition DEFAULT_SHARD_COUNT :: usize where
  "DEFAULT_SHARD_COUNT = 16"

definition DEFAULT_IO_WARN_TIMEOUT :: duration where
  "DEFAULT_IO_WARN_TIMEOUT = nanos 30"

definition DEFAULT_IO_ERROR_TIMEOUT :: duration where
  "DEFAULT_IO_ERROR_TIMEOUT = nanos 60"

definition DEFAULT_IO_TIMEOUT_CHECK_INTERVAL :: duration where
  "DEFAULT_IO_TIMEOUT_CHECK_INTERVAL = nanos 5"

type_synonym session_id = u64
type_synonym file_log = "(wal_writer \<times> disk) facts_log"

text \<open>
  The handle gives access to the snapshot cell of the running reactor; \<open>h_task_done\<close> is the state of the
  task, \<open>h_poisoned\<close> that of the lock of the cell.
\<close>

record reactor_handle =
  h_machine :: "(wal_writer \<times> disk) machine"
  h_task_done :: bool
  h_poisoned :: bool

definition h_cell :: "reactor_handle \<Rightarrow> reactor_state_snapshot option" where
  "h_cell h = (if h_poisoned h then None else Some (snapshot_cell (h_machine h)))"

definition h_is_finished :: "reactor_handle \<Rightarrow> bool" where
  "h_is_finished h = (if h_task_done h then True else unwrap_or False (map_option snap_finished (h_cell h)))"

definition h_unfinished :: "(reactor_state_snapshot \<Rightarrow> 'a) \<Rightarrow> reactor_handle \<Rightarrow> 'a option" where
  "h_unfinished f h = Option.bind (h_cell h) (\<lambda>snap. if snap_finished snap then None else Some (f snap))"

definition h_current_phase :: "reactor_handle \<Rightarrow> reactor_phase option" where
  "h_current_phase = h_unfinished snap_phase"

definition h_causal_depth :: "reactor_handle \<Rightarrow> usize option" where
  "h_causal_depth = h_unfinished (\<lambda>s. unat (snap_version s))"

definition h_structural_violations :: "reactor_handle \<Rightarrow> u64" where
  "h_structural_violations h = unwrap_or 0 (map_option snap_violations (h_cell h))"

definition h_pending_io_count :: "reactor_handle \<Rightarrow> usize option" where
  "h_pending_io_count = h_unfinished snap_pending_io_count"

definition h_current_step :: "reactor_handle \<Rightarrow> usize option" where
  "h_current_step = h_unfinished snap_steps"

record 'k session =
  se_handle :: reactor_handle
  se_config :: reactor_config
  se_auditor :: "'k auditor"
  se_auditor_poisoned :: bool
  se_parent :: "session_id option"
  se_initial_hash :: "string option"
  se_scheme :: content_hash_scheme
  se_created_at :: instant
  se_last_activity_ms :: u64

text \<open>The log is shared with the reactor: there is one, that of the running machine.\<close>

definition session_log :: "'k session \<Rightarrow> file_log" where
  "session_log s = flog (h_machine (se_handle s))"

definition se_is_finished :: "'k session \<Rightarrow> bool" where
  "se_is_finished s = h_is_finished (se_handle s)"

definition last_activity :: "'k session \<Rightarrow> instant" where
  "last_activity s = se_created_at s + unat (se_last_activity_ms s) * 1000000"

definition touch :: "instant \<Rightarrow> 'k session \<Rightarrow> 'k session" where
  "touch now s = s\<lparr>se_last_activity_ms := word_of_nat ((now - se_created_at s) div 1000000)\<rparr>"

section \<open>The auditor of a session\<close>

text \<open>Reads and writes behind the lock of the auditor, with the answer for a poisoned lock.\<close>

definition se_read :: "'a \<Rightarrow> ('k auditor \<Rightarrow> 'a) \<Rightarrow> 'k session \<Rightarrow> 'a" where
  "se_read dflt f s = (if se_auditor_poisoned s then dflt else f (se_auditor s))"

definition se_write :: "'a \<Rightarrow> ('k auditor \<Rightarrow> 'a \<times> 'k auditor) \<Rightarrow> 'k session \<Rightarrow> 'a \<times> 'k session" where
  "se_write dflt f s =
     (if se_auditor_poisoned s then (dflt, s)
      else (let (r, a) = f (se_auditor s) in (r, s\<lparr>se_auditor := a\<rparr>)))"

definition se_set_auto_verify :: "bool \<Rightarrow> usize \<Rightarrow> usize \<Rightarrow> 'k session \<Rightarrow> 'k session" where
  "se_set_auto_verify on limit interval s = snd (se_write () (\<lambda>a. ((), set_auto_verify on limit interval a)) s)"

definition se_is_auto_verify_enabled :: "'k session \<Rightarrow> bool" where
  "se_is_auto_verify_enabled = se_read False auto_verify"

definition se_seal_anchor_now ::
  "'k ed25519 \<Rightarrow> (string \<Rightarrow> string) \<Rightarrow> (audit_anchor \<Rightarrow> string) \<Rightarrow> bool \<Rightarrow> 'k session \<Rightarrow>
   (anchor_error + audit_anchor) \<times> 'k session" where
  "se_seal_anchor_now ed blake3 ser_anchor written =
     se_write (Inl (AnchorHash ((utf8 [229, 174, 161, 232, 174, 161, 229, 153, 168, 233, 148, 129, 228, 184, 173, 230, 175,
       146, 239, 188, 140, 230, 151, 160, 230, 179, 149, 229, 176, 129, 233, 148, 154, 231, 130,
       185])))) (seal_anchor_now ed blake3 ser_anchor written)"

definition se_anchors :: "'k session \<Rightarrow> audit_anchor list" where
  "se_anchors = se_read [] anchors"

definition se_verify_anchors :: "'k ed25519 \<Rightarrow> (string \<Rightarrow> string) \<Rightarrow> key_table \<Rightarrow> 'k session \<Rightarrow> string + unit" where
  "se_verify_anchors ed blake3 keys = se_read (Inl ((utf8 [229, 174, 161, 232, 174, 161, 229, 153, 168, 233, 148, 129, 228, 184, 173, 230, 175,
       146, 239, 188, 140, 230, 151, 160, 230, 179, 149, 233, 170, 140, 232, 175, 129, 233, 148,
       154, 231, 130, 185]))) (verify_anchors ed blake3 keys)"

definition se_audit_new ::
  "'k ed25519 \<Rightarrow> (string \<Rightarrow> string) \<Rightarrow> (serde \<Rightarrow> string) \<Rightarrow> (audit_anchor \<Rightarrow> string) \<Rightarrow> bool \<Rightarrow> 'k session \<Rightarrow> nat \<times> 'k session" where
  "se_audit_new ed blake3 ser ser_anchor written s =
     se_write 0 (audit_new ed blake3 ser ser_anchor written (session_log s)) s"

definition se_audit_report :: "(serde \<Rightarrow> string) \<Rightarrow> 'k session \<Rightarrow> string + string" where
  "se_audit_report pretty = se_read (Inl ''auditor mutex poisoned'') (\<lambda>a. Inr (report pretty a))"

definition se_audit_verify :: "(string \<Rightarrow> string) \<Rightarrow> 'k session \<Rightarrow> bool" where
  "se_audit_verify blake3 = se_read False (verify blake3)"

definition se_audit_export :: "(serde \<Rightarrow> string) \<Rightarrow> 'k session \<Rightarrow> string + string" where
  "se_audit_export pretty = se_read (Inl ''auditor mutex poisoned'') (\<lambda>a. Inr (export pretty a))"

definition imported :: "(string + bool) \<times> 'k auditor \<Rightarrow> (bool \<times> bool) \<times> 'k auditor" where
  "imported x = (case x of (Inr ok, a) \<Rightarrow> ((True, ok), a) | (Inl _, a) \<Rightarrow> ((False, False), a))"

definition se_audit_import ::
  "(string \<Rightarrow> string) \<Rightarrow> (string \<Rightarrow> string + serde) \<Rightarrow> string \<Rightarrow> 'k session \<Rightarrow> (bool \<times> bool) \<times> 'k session" where
  "se_audit_import blake3 de json_str = se_write (False, False) (\<lambda>a. imported (import_and_verify blake3 de json_str a))"

definition se_audit_export_compressed ::
  "(string \<Rightarrow> string + byte list) \<Rightarrow> (serde \<Rightarrow> string) \<Rightarrow> 'k session \<Rightarrow> byte list" where
  "se_audit_export_compressed gzip pretty =
     se_read [] (\<lambda>a. case export_compressed gzip pretty a of Inr data \<Rightarrow> data | Inl _ \<Rightarrow> [])"

definition se_audit_import_compressed ::
  "(string \<Rightarrow> string) \<Rightarrow> (nat \<Rightarrow> byte list \<Rightarrow> string + string) \<Rightarrow> (string \<Rightarrow> string + serde) \<Rightarrow> byte list \<Rightarrow> 'k session \<Rightarrow>
   (bool \<times> bool) \<times> 'k session" where
  "se_audit_import_compressed blake3 gunzip de compressed =
     se_write (False, False) (\<lambda>a. imported (import_compressed_and_verify blake3 gunzip de compressed a))"

definition se_causal_chain :: "fact_id \<Rightarrow> 'k session \<Rightarrow> (usize + audit_entry list) option" where
  "se_causal_chain i = se_read (Some (Inr [])) (causal_chain i)"

section \<open>The manager\<close>

datatype session_error =
    SessionNotFound session_id
  | LimitExceeded usize usize
  | InvalidVersion u64
  | WalUnavailable session_id facts_log_error
  | ArchiveCorrupted string

fun session_error_display :: "session_error \<Rightarrow> string" where
  "session_error_display (SessionNotFound i) = ''Session '' @ dec_nat (unat i) @ '' not found''"
| "session_error_display (LimitExceeded current bound) = ''Session limit exceeded: '' @ dec_nat current @ ''/'' @ dec_nat bound"
| "session_error_display (InvalidVersion ver) = ''Invalid version '' @ dec_nat (unat ver)"
| "session_error_display (WalUnavailable i e) =
     ''WAL unavailable, session creation rejected: session '' @ dec_nat (unat i) @ '': '' @ facts_log_error_display e"
| "session_error_display (ArchiveCorrupted reason) = ''Archive WAL integrity check failed: '' @ reason"

record session_anchor_config =
  sac_signer_seed :: "byte list"
  sac_key_id :: string
  sac_engine_id :: string
  sac_interval :: usize

record 'k session_manager =
  sm_core_eval :: "json list"
  sm_max_rounds :: usize
  sm_shards :: "(session_id, 'k session) btree_map list"
  sm_next_session_id :: u64
  sm_max_sessions :: usize
  sm_session_ttl :: duration
  sm_wal_dir :: "string option"
  sm_wal_fsync :: bool
  sm_max_wal_size_bytes :: u64
  sm_auto_verify :: bool
  sm_auto_verify_threshold :: usize
  sm_auto_verify_interval :: usize
  sm_io_warn_timeout :: duration
  sm_io_error_timeout :: duration
  sm_io_timeout_check_interval :: duration
  sm_count :: u64
  sm_pending_recycle :: "file_log list"
  sm_anchor_config :: "session_anchor_config option"

definition strip_suffix :: "string \<Rightarrow> string \<Rightarrow> string option" where
  "strip_suffix p s = map_option rev (strip_prefix (rev p) (rev s))"

text \<open>\<open>max_session_id_from_names\<close>: the loop over the names.\<close>

definition session_number :: "string \<Rightarrow> u64 option" where
  "session_number name =
     map_option word_of_nat (Option.bind (Option.bind (strip_prefix ''session_'' name) (strip_suffix ''.wal'')) parse_usize)"

definition max_session_id_from_names :: "string list \<Rightarrow> u64" where
  "max_session_id_from_names names =
     foldl (\<lambda>mx name. case session_number name of Some n \<Rightarrow> max mx n | None \<Rightarrow> mx) 0 names"

text \<open>The listing of the directory: none if it cannot be read; entries without a readable name are skipped.\<close>

definition scan_max_session_id :: "string option list option \<Rightarrow> u64" where
  "scan_max_session_id listing =
     (case listing of None \<Rightarrow> 0 | Some es \<Rightarrow> max_session_id_from_names (List.map_filter id es))"

definition with_limits_and_wal_and_auto_verify ::
  "string option list option \<Rightarrow> json list \<Rightarrow> usize \<Rightarrow> usize \<Rightarrow> duration \<Rightarrow> string option \<Rightarrow> usize \<Rightarrow> bool \<Rightarrow> u64 \<Rightarrow>
   bool \<Rightarrow> usize \<Rightarrow> usize \<Rightarrow> 'k session_manager" where
  "with_limits_and_wal_and_auto_verify listing rules rounds max_sessions ttl wal_dir shard_count wal_fsync max_wal on limit interval =
     (let initial_session_id = (case wal_dir of Some _ \<Rightarrow> scan_max_session_id listing | None \<Rightarrow> 0) + 1 in
      \<lparr>sm_core_eval = rules, sm_max_rounds = rounds, sm_shards = replicate shard_count bt_new,
       sm_next_session_id = initial_session_id, sm_max_sessions = max_sessions, sm_session_ttl = ttl,
       sm_wal_dir = wal_dir, sm_wal_fsync = wal_fsync, sm_max_wal_size_bytes = max_wal,
       sm_auto_verify = on, sm_auto_verify_threshold = limit,
       sm_auto_verify_interval = (if interval = 0 then 1 else interval),
       sm_io_warn_timeout = DEFAULT_IO_WARN_TIMEOUT, sm_io_error_timeout = DEFAULT_IO_ERROR_TIMEOUT,
       sm_io_timeout_check_interval = DEFAULT_IO_TIMEOUT_CHECK_INTERVAL,
       sm_count = 0, sm_pending_recycle = [], sm_anchor_config = None\<rparr>)"

definition with_limits_and_wal_full ::
  "string option list option \<Rightarrow> json list \<Rightarrow> usize \<Rightarrow> usize \<Rightarrow> duration \<Rightarrow> string option \<Rightarrow> usize \<Rightarrow> bool \<Rightarrow> u64 \<Rightarrow> 'k session_manager" where
  "with_limits_and_wal_full listing rules rounds max_sessions ttl wal_dir shard_count wal_fsync max_wal =
     with_limits_and_wal_and_auto_verify listing rules rounds max_sessions ttl wal_dir shard_count wal_fsync max_wal False 1000 1"

definition with_limits_and_wal_and_fsync ::
  "string option list option \<Rightarrow> json list \<Rightarrow> usize \<Rightarrow> usize \<Rightarrow> duration \<Rightarrow> string option \<Rightarrow> usize \<Rightarrow> bool \<Rightarrow> 'k session_manager" where
  "with_limits_and_wal_and_fsync listing rules rounds max_sessions ttl wal_dir shard_count wal_fsync =
     with_limits_and_wal_full listing rules rounds max_sessions ttl wal_dir shard_count wal_fsync (100 * 1024 * 1024)"

definition with_limits_and_wal ::
  "string option list option \<Rightarrow> json list \<Rightarrow> usize \<Rightarrow> usize \<Rightarrow> duration \<Rightarrow> string option \<Rightarrow> usize \<Rightarrow> 'k session_manager" where
  "with_limits_and_wal listing rules rounds max_sessions ttl wal_dir shard_count =
     with_limits_and_wal_and_fsync listing rules rounds max_sessions ttl wal_dir shard_count False"

definition with_limits :: "json list \<Rightarrow> usize \<Rightarrow> usize \<Rightarrow> duration \<Rightarrow> 'k session_manager" where
  "with_limits rules rounds max_sessions ttl = with_limits_and_wal None rules rounds max_sessions ttl None DEFAULT_SHARD_COUNT"

definition manager_new :: "json list \<Rightarrow> usize \<Rightarrow> 'k session_manager" where
  "manager_new rules rounds =
     with_limits_and_wal None rules rounds DEFAULT_MAX_SESSIONS DEFAULT_SESSION_TTL None DEFAULT_SHARD_COUNT"

definition with_anchor_config :: "session_anchor_config \<Rightarrow> 'k session_manager \<Rightarrow> 'k session_manager" where
  "with_anchor_config cfg m = m\<lparr>sm_anchor_config := Some cfg\<rparr>"

definition with_io_timeouts :: "duration option \<Rightarrow> duration option \<Rightarrow> duration option \<Rightarrow> 'k session_manager \<Rightarrow> 'k session_manager" where
  "with_io_timeouts warn err interval m =
     m\<lparr>sm_io_warn_timeout := unwrap_or (sm_io_warn_timeout m) warn, sm_io_error_timeout := unwrap_or (sm_io_error_timeout m) err,
       sm_io_timeout_check_interval := unwrap_or (sm_io_timeout_check_interval m) interval\<rparr>"

definition replace_core_eval :: "json list \<Rightarrow> 'k session_manager \<Rightarrow> json list \<times> 'k session_manager" where
  "replace_core_eval rules m = (sm_core_eval m, m\<lparr>sm_core_eval := rules\<rparr>)"

text \<open>The label is read from the counter of identifiers, which is already past the session that is built.\<close>

definition auditor_from_config :: "'k ed25519 \<Rightarrow> 'k session_manager \<Rightarrow> 'k auditor" where
  "auditor_from_config ed m =
     (let a = new_with_auto_verify (sm_auto_verify m) (sm_auto_verify_threshold m) (sm_auto_verify_interval m) in
      case sm_anchor_config m of
        Some cfg \<Rightarrow>
          with_anchor_impl (\<lambda>_. Inl []) (from_bytes ed (sac_signer_seed cfg)) (sac_key_id cfg) (sac_engine_id cfg)
            (''session-'' @ dec_nat (unat (sm_next_session_id m))) (sac_interval cfg) None a
      | None \<Rightarrow> a)"

section \<open>Slots, identifiers and the table\<close>

text \<open>
  \<open>reserve_session_slot\<close> in its atomic steps, the read of the counter and the exchange; the exchange fails
  when the counter has moved, and the loop starts again.
\<close>

definition load_slot :: "'k session_manager \<Rightarrow> session_error + u64" where
  "load_slot m =
     (if unat (sm_count m) \<ge> sm_max_sessions m then Inl (LimitExceeded (unat (sm_count m)) (sm_max_sessions m))
      else Inr (sm_count m))"

definition cas_slot :: "u64 \<Rightarrow> 'k session_manager \<Rightarrow> 'k session_manager option" where
  "cas_slot current m = (if sm_count m = current then Some (m\<lparr>sm_count := current + 1\<rparr>) else None)"

definition release_session_slot :: "'k session_manager \<Rightarrow> 'k session_manager" where
  "release_session_slot m = m\<lparr>sm_count := sm_count m - 1\<rparr>"

definition alloc_session_id :: "'k session_manager \<Rightarrow> session_id \<times> 'k session_manager" where
  "alloc_session_id m = (sm_next_session_id m, m\<lparr>sm_next_session_id := sm_next_session_id m + 1\<rparr>)"

text \<open>The shard of an identifier; without shards the remainder panics.\<close>

definition get_shard_idx :: "'k session_manager \<Rightarrow> session_id \<Rightarrow> usize option" where
  "get_shard_idx m i = (if sm_shards m = [] then None else Some (unat i mod length (sm_shards m)))"

definition on_shard ::
  "((session_id, 'k session) btree_map \<Rightarrow> (session_id, 'k session) btree_map) \<Rightarrow> usize \<Rightarrow> 'k session_manager \<Rightarrow> 'k session_manager" where
  "on_shard f j m = m\<lparr>sm_shards := (sm_shards m)[j := f (sm_shards m ! j)]\<rparr>"

text \<open>What an operation asks of its surroundings.\<close>

record 'k session_env =
  sv_ed :: "'k ed25519"
  sv_blake3 :: "string \<Rightarrow> string"
  sv_ser :: "serde \<Rightarrow> string"
  sv_disk :: "string \<Rightarrow> disk"
  sv_open_error :: "string \<Rightarrow> facts_log_error option"
  sv_write_error :: "u64 \<Rightarrow> wal_error option"
  sv_now :: instant

definition session_file :: "session_id \<Rightarrow> string" where
  "session_file i = ''session_'' @ dec_nat (unat i) @ ''.wal''"

definition create_facts_log :: "'k session_env \<Rightarrow> 'k session_manager \<Rightarrow> session_id \<Rightarrow> facts_log_error + file_log" where
  "create_facts_log v m i =
     (case sm_wal_dir m of
        Some dir \<Rightarrow>
          (let path = dir @ ''/'' @ session_file i in
           case sv_open_error v path of
             Some e \<Rightarrow> Inl e
           | None \<Rightarrow> Inr (with_wal_options (unat (sm_max_wal_size_bytes m)) (sv_disk v path)))
      | None \<Rightarrow> Inr log_new)"

definition session_reactor_config :: "json list \<Rightarrow> 'k session_manager \<Rightarrow> reactor_config" where
  "session_reactor_config rules m =
     (builder_new rules)\<lparr>max_rounds := sm_max_rounds m, io_warn_timeout := sm_io_warn_timeout m,
       io_error_timeout := sm_io_error_timeout m, io_timeout_check_interval := sm_io_timeout_check_interval m\<rparr>"

definition spawn_reactor :: "reactor_config \<Rightarrow> file_log \<Rightarrow> reactor_handle" where
  "spawn_reactor cfg l = \<lparr>h_machine = run_start cfg l, h_task_done = False, h_poisoned = False\<rparr>"

definition insert_session :: "session_id \<Rightarrow> 'k session \<Rightarrow> 'k session_manager \<Rightarrow> 'k session_manager option" where
  "insert_session i s m = map_option (\<lambda>j. on_shard (bt_put i s) j m) (get_shard_idx m i)"

section \<open>Creating sessions\<close>

text \<open>A session to be built: the parent and the state a derived session starts from, and its own rules.\<close>

record session_job =
  sj_parent :: "session_id option"
  sj_initial :: "(json \<times> u64) option"
  sj_rules :: "json list option"

definition open_session_log ::
  "'k session_env \<Rightarrow> 'k session_manager \<Rightarrow> session_id \<Rightarrow> session_job \<Rightarrow> facts_log_error + file_log" where
  "open_session_log v m i j =
     map_ok (\<lambda>l. case sj_initial j of
        None \<Rightarrow> l
      | Some (p, ver) \<Rightarrow> set_initial_state (file_store (sv_write_error v) (sv_ser v)) (sv_blake3 v) (sv_ser v) p ver l)
     (create_facts_log v m i)"

definition new_session :: "'k session_env \<Rightarrow> session_job \<Rightarrow> file_log \<Rightarrow> 'k session_manager \<Rightarrow> 'k session" where
  "new_session v j l m =
     (let cfg = session_reactor_config (unwrap_or (sm_core_eval m) (sj_rules j)) m;
          digest = map_option (\<lambda>(p, _). compute_initial_hash (sv_blake3 v) (sv_ser v) p) (sj_initial j) in
      \<lparr>se_handle = spawn_reactor cfg l, se_config = cfg, se_auditor = auditor_from_config (sv_ed v) m,
       se_auditor_poisoned = False, se_parent = sj_parent j, se_initial_hash = map_option fst digest,
       se_scheme = unwrap_or TcbDisplay (map_option snd digest),
       se_created_at = sv_now v, se_last_activity_ms = 0\<rparr>)"

text \<open>The order of the code: a slot, an identifier, the log, and last the entry in the table.  \<open>None\<close> is a panic.\<close>

definition create_session_with ::
  "'k session_env \<Rightarrow> session_job \<Rightarrow> 'k session_manager \<Rightarrow> ((session_error + session_id) \<times> 'k session_manager) option" where
  "create_session_with v j m =
     (case load_slot m of
        Inl e \<Rightarrow> Some (Inl e, m)
      | Inr current \<Rightarrow>
          (let (i, m1) = alloc_session_id (m\<lparr>sm_count := current + 1\<rparr>) in
           case open_session_log v m1 i j of
             Inl src \<Rightarrow> Some (Inl (WalUnavailable i src), release_session_slot m1)
           | Inr l \<Rightarrow> map_option (\<lambda>m2. (Inr i, m2)) (insert_session i (new_session v j l m1) m1)))"

definition create_session :: "'k session_env \<Rightarrow> 'k session_manager \<Rightarrow> ((session_error + session_id) \<times> 'k session_manager) option" where
  "create_session v m = create_session_with v \<lparr>sj_parent = None, sj_initial = None, sj_rules = None\<rparr> m"

definition create_session_from_initial_state_inner ::
  "'k session_env \<Rightarrow> session_id option \<Rightarrow> json \<Rightarrow> u64 \<Rightarrow> json list option \<Rightarrow> 'k session_manager \<Rightarrow>
   ((session_error + session_id) \<times> 'k session_manager) option" where
  "create_session_from_initial_state_inner v parent p ver rules m =
     create_session_with v \<lparr>sj_parent = parent, sj_initial = Some (p, ver), sj_rules = rules\<rparr> m"

definition create_session_from_initial_state ::
  "'k session_env \<Rightarrow> session_id option \<Rightarrow> json \<Rightarrow> u64 \<Rightarrow> 'k session_manager \<Rightarrow>
   ((session_error + session_id) \<times> 'k session_manager) option" where
  "create_session_from_initial_state v parent p ver m = create_session_from_initial_state_inner v parent p ver None m"

text \<open>\<open>rewind_payload\<close>: one fact, and the loop.\<close>

fun rewind_fact :: "u64 \<Rightarrow> fact \<Rightarrow> json \<times> u64 \<Rightarrow> json \<times> u64" where
  "rewind_fact vb (StateTransition _ _ new_payload _) (p, ver) = (new_payload, vb + 1)"
| "rewind_fact vb (IoResponse _ _ _ _) (p, ver) = (p, vb + 1)"
| "rewind_fact vb (PayloadUpdate _ path v) (p, ver) = (tm_payload_update p path v, vb + 1)"
| "rewind_fact vb _ pv = pv"

fun rewind_facts :: "u64 option \<Rightarrow> (u64 \<times> fact) list \<Rightarrow> json \<times> u64 \<Rightarrow> json \<times> u64" where
  "rewind_facts target [] pv = pv"
| "rewind_facts target ((vb, f) # h) pv =
     (let pv' = rewind_fact vb f pv in if Some (snd pv') = target then pv' else rewind_facts target h pv')"

definition rewind_payload :: "'s facts_log \<Rightarrow> u64 \<Rightarrow> json option" where
  "rewind_payload l target =
     (if target = 0 then Some empty_object
      else
        (let (p, ver) = rewind_facts (Some target) (history_with_versions l) (empty_object, 0) in
         if ver < target then None else Some p))"

fun check_archive :: "(string \<Rightarrow> string) \<Rightarrow> (serde \<Rightarrow> string) \<Rightarrow> string \<Rightarrow> wal_record list \<Rightarrow> session_error + unit" where
  "check_archive blake3 ser prev [] = Inr ()"
| "check_archive blake3 ser prev (r # rs) =
     (let content = fact_hash blake3 ser (wal_fact r); fid = dec_nat (unat (fact_id_of (wal_fact r))) in
      case wal_content_hash r of
        None \<Rightarrow> Inl (ArchiveCorrupted (''legacy (hashless) record at fact '' @ fid @ '' '' @ (utf8 [226, 128, 148]) @ '' cannot prove integrity''))
      | Some stored \<Rightarrow>
          if stored \<noteq> content then Inl (ArchiveCorrupted (''content_hash mismatch at fact '' @ fid))
          else
            (let chain = blake3 (prev @ content) in
             case wal_chain_hash r of
               Some stored_chain \<Rightarrow>
                 if stored_chain \<noteq> chain then Inl (ArchiveCorrupted (''chain_hash mismatch at fact '' @ fid))
                 else check_archive blake3 ser chain rs
             | None \<Rightarrow> check_archive blake3 ser chain rs))"

definition payload_from_wal_records ::
  "(string \<Rightarrow> string) \<Rightarrow> (serde \<Rightarrow> string) \<Rightarrow> wal_record list \<Rightarrow> u64 option \<Rightarrow> session_error + (json \<times> u64)" where
  "payload_from_wal_records blake3 ser records target =
     and_then (check_archive blake3 ser genesis records) (\<lambda>_.
     if target = Some 0 then Inr (empty_object, 0)
     else
       (let (p, ver) = rewind_facts target (map (\<lambda>r. (version_before r, wal_fact r)) records) (empty_object, 0) in
        case target of
          None \<Rightarrow> Inr (p, ver)
        | Some t \<Rightarrow> if ver \<ge> t then Inr (p, ver) else Inl (InvalidVersion t)))"

definition get_session :: "session_id \<Rightarrow> 'k session_manager \<Rightarrow> 'k session option option" where
  "get_session i m = map_option (\<lambda>j. bt_get i (sm_shards m ! j)) (get_shard_idx m i)"

definition create_session_from_parent_at_version_with_core_eval ::
  "'k session_env \<Rightarrow> session_id \<Rightarrow> u64 option \<Rightarrow> json list option \<Rightarrow> 'k session_manager \<Rightarrow>
   ((session_error + session_id) \<times> 'k session_manager) option" where
  "create_session_from_parent_at_version_with_core_eval v parent ver rules m =
     Option.bind (get_session parent m) (\<lambda>found.
     case and_then (ok_or (SessionNotFound parent) found) (\<lambda>s.
       case ver of
         Some t \<Rightarrow> ok_or (InvalidVersion t) (map_option (\<lambda>p. (p, t)) (rewind_payload (session_log s) t))
       | None \<Rightarrow> (let (p, _, cur) = snapshot (session_log s) in Inr (p, cur))) of
       Inl e \<Rightarrow> Some (Inl e, m)
     | Inr (p, t) \<Rightarrow> create_session_from_initial_state_inner v (Some parent) p t rules m)"

definition create_session_from_parent_at_version ::
  "'k session_env \<Rightarrow> session_id \<Rightarrow> u64 option \<Rightarrow> 'k session_manager \<Rightarrow> ((session_error + session_id) \<times> 'k session_manager) option" where
  "create_session_from_parent_at_version v parent ver m =
     create_session_from_parent_at_version_with_core_eval v parent ver None m"

definition create_session_from_parent ::
  "'k session_env \<Rightarrow> session_id \<Rightarrow> 'k session_manager \<Rightarrow> ((session_error + session_id) \<times> 'k session_manager) option" where
  "create_session_from_parent v parent m = create_session_from_parent_at_version v parent None m"

section \<open>Using, closing and reaping sessions\<close>

definition touch_session :: "instant \<Rightarrow> session_id \<Rightarrow> 'k session_manager \<Rightarrow> 'k session_manager option" where
  "touch_session now i m =
     map_option (\<lambda>j. on_shard (\<lambda>sh. case bt_get i sh of Some s \<Rightarrow> bt_put i (touch now s) sh | None \<Rightarrow> sh) j m) (get_shard_idx m i)"

text \<open>\<open>close_session\<close> in its two steps: out of the table, then the counter; the result is the handle.\<close>

definition remove_session :: "session_id \<Rightarrow> 'k session_manager \<Rightarrow> ((session_error + 'k session) \<times> 'k session_manager) option" where
  "remove_session i m =
     map_option (\<lambda>j. case bt_get i (sm_shards m ! j) of
        None \<Rightarrow> (Inl (SessionNotFound i), m)
      | Some s \<Rightarrow> (Inr s, on_shard (bt_del i) j m)) (get_shard_idx m i)"

definition subtract_count :: "nat \<Rightarrow> 'k session_manager \<Rightarrow> 'k session_manager" where
  "subtract_count n m = (if n > 0 then m\<lparr>sm_count := sm_count m - word_of_nat n\<rparr> else m)"

definition recycle :: "bool \<Rightarrow> 'k session \<Rightarrow> 'k session_manager \<Rightarrow> 'k session_manager" where
  "recycle pool_ok s m =
     (if sm_wal_dir m = None \<and> pool_ok then m\<lparr>sm_pending_recycle := sm_pending_recycle m @ [session_log s]\<rparr> else m)"

definition close_session ::
  "bool \<Rightarrow> session_id \<Rightarrow> 'k session_manager \<Rightarrow> ((session_error + reactor_handle) \<times> 'k session_manager) option" where
  "close_session pool_ok i m =
     map_option (\<lambda>(r, m1). case r of
        Inl e \<Rightarrow> (Inl e, m1)
      | Inr s \<Rightarrow> (Inr (se_handle s), recycle pool_ok s (subtract_count 1 m1))) (remove_session i m)"

definition session_ids :: "'k session_manager \<Rightarrow> session_id list" where
  "session_ids m = concat (map (map fst) (sm_shards m))"

definition list_sessions :: "'k session_manager \<Rightarrow> session_id list" where
  "list_sessions m = sort (session_ids m)"

text \<open>One shard of a sweep: the sessions that are kept, and how many are not.\<close>

definition sweep_shard :: "('k session \<Rightarrow> bool) \<Rightarrow> usize \<Rightarrow> 'k session_manager \<Rightarrow> nat \<times> 'k session_manager" where
  "sweep_shard dead j m =
     (length (filter (dead \<circ> snd) (sm_shards m ! j)), on_shard (filter (\<lambda>(_, s). \<not> dead s)) j m)"

fun sweep_shards :: "('k session \<Rightarrow> bool) \<Rightarrow> usize list \<Rightarrow> nat \<Rightarrow> 'k session_manager \<Rightarrow> nat \<times> 'k session_manager" where
  "sweep_shards dead [] n m = (n, m)"
| "sweep_shards dead (j # js) n m = (let (r, m') = sweep_shard dead j m in sweep_shards dead js (n + r) m')"

definition sweep :: "('k session \<Rightarrow> bool) \<Rightarrow> 'k session_manager \<Rightarrow> nat \<times> 'k session_manager" where
  "sweep dead m =
     (let (reaped, m') = sweep_shards dead [0..<length (sm_shards m)] 0 m in (reaped, subtract_count reaped m'))"

text \<open>
  \<open>reclaim_pending\<close>: whether a log is used elsewhere is the count of its references, given by the position;
  \<open>None\<close> is a poisoned lock.
\<close>

definition reclaim_pending :: "(nat \<Rightarrow> bool) option \<Rightarrow> 'k session_manager \<Rightarrow> 'k session_manager" where
  "reclaim_pending reusable m =
     (case reusable of
        None \<Rightarrow> m
      | Some free \<Rightarrow>
          m\<lparr>sm_pending_recycle :=
             map snd (filter (\<lambda>(n, _). \<not> free n) (zip [0..<length (sm_pending_recycle m)] (sm_pending_recycle m)))\<rparr>)"

definition reap_finished :: "(nat \<Rightarrow> bool) option \<Rightarrow> 'k session_manager \<Rightarrow> nat \<times> 'k session_manager" where
  "reap_finished reusable m = sweep se_is_finished (reclaim_pending reusable m)"

definition expired :: "instant \<Rightarrow> duration \<Rightarrow> 'k session \<Rightarrow> bool" where
  "expired now ttl s = (now - last_activity s > ttl)"

definition reap_expired_at :: "instant \<Rightarrow> 'k session_manager \<Rightarrow> nat \<times> 'k session_manager" where
  "reap_expired_at now m = sweep (expired now (sm_session_ttl m)) m"

definition reap_all :: "(nat \<Rightarrow> bool) option \<Rightarrow> instant \<Rightarrow> 'k session_manager \<Rightarrow> nat \<times> 'k session_manager" where
  "reap_all reusable now m =
     (let (finished, m1) = reap_finished reusable m; (old, m2) = reap_expired_at now m1 in (finished + old, m2))"

definition manager_len :: "'k session_manager \<Rightarrow> usize" where
  "manager_len m = unat (sm_count m)"

definition manager_is_empty :: "'k session_manager \<Rightarrow> bool" where
  "manager_is_empty m = (sm_count m = 0)"

section \<open>Interleavings\<close>

text \<open>
  The operations run in many threads on one manager.  A worker is the stage that a call has reached;
  \<open>Removing\<close> are the sessions that a call has taken out of the table and not yet from the counter.
\<close>

datatype worker =
    Loading session_job
  | Loaded session_job u64
  | Reserved session_job
  | Allocated session_job session_id
  | Opened session_job session_id file_log
  | Failing
  | Removing nat

text \<open>
  The runs from a manager: the number of identifiers handed out, the manager and the workers.  The rules of
  the manager are replaced through an exclusive reference, when no call is under way.
\<close>

inductive manager_run :: "'k session_manager \<Rightarrow> nat \<Rightarrow> 'k session_manager \<Rightarrow> worker multiset \<Rightarrow> bool" for m0 where
  started: "manager_run m0 0 m0 {#}"
| arrived: "manager_run m0 n m W \<Longrightarrow> manager_run m0 n m (add_mset (Loading j) W)"
| loaded: "manager_run m0 n m (add_mset (Loading j) W) \<Longrightarrow> load_slot m = Inr c \<Longrightarrow>
    manager_run m0 n m (add_mset (Loaded j c) W)"
| refused: "manager_run m0 n m (add_mset (Loading j) W) \<Longrightarrow> load_slot m = Inl e \<Longrightarrow> manager_run m0 n m W"
| exchanged: "manager_run m0 n m (add_mset (Loaded j c) W) \<Longrightarrow> cas_slot c m = Some m' \<Longrightarrow>
    manager_run m0 n m' (add_mset (Reserved j) W)"
| retried: "manager_run m0 n m (add_mset (Loaded j c) W) \<Longrightarrow> cas_slot c m = None \<Longrightarrow>
    manager_run m0 n m (add_mset (Loading j) W)"
| allocated: "manager_run m0 n m (add_mset (Reserved j) W) \<Longrightarrow> alloc_session_id m = (i, m') \<Longrightarrow>
    manager_run m0 (Suc n) m' (add_mset (Allocated j i) W)"
| opened: "manager_run m0 n m (add_mset (Allocated j i) W) \<Longrightarrow> open_session_log v m i j = Inr l \<Longrightarrow>
    manager_run m0 n m (add_mset (Opened j i l) W)"
| failed: "manager_run m0 n m (add_mset (Allocated j i) W) \<Longrightarrow> open_session_log v m i j = Inl e \<Longrightarrow>
    manager_run m0 n m (add_mset Failing W)"
| released: "manager_run m0 n m (add_mset Failing W) \<Longrightarrow> manager_run m0 n (release_session_slot m) W"
| registered: "manager_run m0 n m (add_mset (Opened j i l) W) \<Longrightarrow> insert_session i (new_session v j l m) m = Some m' \<Longrightarrow>
    manager_run m0 n m' W"
| removed: "manager_run m0 n m W \<Longrightarrow> remove_session i m = Some (Inr s, m') \<Longrightarrow>
    manager_run m0 n m' (add_mset (Removing 1) W)"
| sweeping: "manager_run m0 n m W \<Longrightarrow> manager_run m0 n m (add_mset (Removing 0) W)"
| swept: "manager_run m0 n m (add_mset (Removing k) W) \<Longrightarrow> a < length (sm_shards m) \<Longrightarrow> sweep_shard dead a m = (r, m') \<Longrightarrow>
    manager_run m0 n m' (add_mset (Removing (k + r)) W)"
| subtracted: "manager_run m0 n m (add_mset (Removing k) W) \<Longrightarrow> manager_run m0 n (subtract_count k m) W"
| progressed: "manager_run m0 n m W \<Longrightarrow> get_session i m = Some (Some s) \<Longrightarrow> insert_session i s' m = Some m' \<Longrightarrow>
    manager_run m0 n m' W"
| recycled: "manager_run m0 n m W \<Longrightarrow> manager_run m0 n (m\<lparr>sm_pending_recycle := ls\<rparr>) W"
| replaced: "manager_run m0 n m {#} \<Longrightarrow> manager_run m0 n (snd (replace_core_eval rules m)) {#}"

fun worker_slots :: "worker \<Rightarrow> nat" where
  "worker_slots (Loading _) = 0"
| "worker_slots (Loaded _ _) = 0"
| "worker_slots (Reserved _) = 1"
| "worker_slots (Allocated _ _) = 1"
| "worker_slots (Opened _ _ _) = 1"
| "worker_slots Failing = 1"
| "worker_slots (Removing n) = n"

fun worker_ids :: "worker \<Rightarrow> session_id multiset" where
  "worker_ids (Allocated _ i) = {#i#}"
| "worker_ids (Opened _ i _) = {#i#}"
| "worker_ids _ = {#}"

abbreviation slots_held :: "worker multiset \<Rightarrow> nat" where
  "slots_held W \<equiv> sum_mset (image_mset worker_slots W)"

abbreviation ids_held :: "worker multiset \<Rightarrow> session_id multiset" where
  "ids_held W \<equiv> sum_mset (image_mset worker_ids W)"

definition placed :: "nat \<Rightarrow> nat \<Rightarrow> (session_id, 'k session) btree_map \<Rightarrow> bool" where
  "placed n j sh \<longleftrightarrow> bt_sorted sh \<and> (\<forall>i \<in> fst ` set sh. unat i mod n = j)"

definition table_wf :: "'k session_manager \<Rightarrow> bool" where
  "table_wf m \<longleftrightarrow> (\<forall>j < length (sm_shards m). placed (length (sm_shards m)) j (sm_shards m ! j))"

definition used_ids :: "'k session_manager \<Rightarrow> worker multiset \<Rightarrow> session_id multiset" where
  "used_ids m W = mset (session_ids m) + ids_held W"

definition loaded_below :: "nat \<Rightarrow> worker multiset \<Rightarrow> bool" where
  "loaded_below n W \<longleftrightarrow> (\<forall>j c. Loaded j c \<in># W \<longrightarrow> unat c < n)"

definition manager_inv :: "'k session_manager \<Rightarrow> nat \<Rightarrow> 'k session_manager \<Rightarrow> worker multiset \<Rightarrow> bool" where
  "manager_inv m0 n m W \<longleftrightarrow>
     sm_max_sessions m = sm_max_sessions m0 \<and> sm_next_session_id m = sm_next_session_id m0 + word_of_nat n \<and> table_wf m \<and>
     (\<forall>i. count (used_ids m W) i \<le> 1) \<and> (\<forall>i. i \<in># used_ids m W \<longrightarrow> unat (i - sm_next_session_id m0) < n) \<and>
     unat (sm_count m) = length (session_ids m) + slots_held W \<and> unat (sm_count m) \<le> sm_max_sessions m0 \<and>
     loaded_below (sm_max_sessions m0) W"

lemma shard_update:
  assumes "a < length (sm_shards m)"
  shows "mset (session_ids (on_shard f a m)) + image_mset fst (mset (sm_shards m ! a)) =
    mset (session_ids m) + image_mset fst (mset (f (sm_shards m ! a)))"
proof -
  let ?sh = "sm_shards m"
  have "?sh = take a ?sh @ ?sh ! a # drop (Suc a) ?sh" using assms by (rule id_take_nth_drop)
  then have "mset (session_ids m) = mset (concat (map (map fst) (take a ?sh @ ?sh ! a # drop (Suc a) ?sh)))"
    unfolding session_ids_def by (rule arg_cong [where f = "\<lambda>x. mset (concat (map (map fst) x))"])
  then show ?thesis
    using assms by (simp add: session_ids_def on_shard_def upd_conv_take_nth_drop)
qed

lemma on_shard_frame [simp]:
  "length (sm_shards (on_shard f a m)) = length (sm_shards m)" "sm_count (on_shard f a m) = sm_count m"
  "sm_max_sessions (on_shard f a m) = sm_max_sessions m" "sm_next_session_id (on_shard f a m) = sm_next_session_id m"
  by (simp_all add: on_shard_def)

lemma on_shard_wf:
  assumes "table_wf m" "placed (length (sm_shards m)) a (sm_shards m ! a) \<Longrightarrow> placed (length (sm_shards m)) a (f (sm_shards m ! a))"
  shows "table_wf (on_shard f a m)"
proof -
  have "placed (length (sm_shards m)) j ((sm_shards m)[a := f (sm_shards m ! a)] ! j)" if "j < length (sm_shards m)" for j
    using assms that by (cases "j = a") (simp_all add: table_wf_def)
  then show ?thesis by (simp add: table_wf_def on_shard_def)
qed

lemma shard_idx: "get_shard_idx m i = Some a \<Longrightarrow> a < length (sm_shards m) \<and> a = unat i mod length (sm_shards m)"
  by (auto simp: get_shard_idx_def split: if_splits)

lemma mset_keys_put:
  "bt_sorted sh \<Longrightarrow> image_mset fst (mset (bt_put i s sh)) =
    (if i \<in> fst ` set sh then image_mset fst (mset sh) else add_mset i (image_mset fst (mset sh)))"
  by (induction i s sh rule: bt_put.induct) auto

lemma mset_keys_del: "bt_sorted sh \<Longrightarrow> i \<in> fst ` set sh \<Longrightarrow> image_mset fst (mset sh) = add_mset i (image_mset fst (mset (bt_del i sh)))"
proof (induction sh)
  case (Cons p sh)
  have "i \<notin> fst ` set sh \<Longrightarrow> bt_del i sh = sh" by (auto simp: bt_del_def filter_id_conv)
  moreover have "fst p = i \<Longrightarrow> i \<notin> fst ` set sh" using Cons.prems(1) by (cases p) auto
  moreover have "bt_sorted sh" using Cons.prems(1) by (cases p) auto
  ultimately show ?case using Cons by (auto simp: bt_del_def)
qed simp

lemma session_ids_elem:
  assumes "a < length (sm_shards m)" "i \<in> fst ` set (sm_shards m ! a)"
  shows "i \<in> set (session_ids m)"
  using assms nth_mem [OF assms(1)] by (force simp: session_ids_def)

lemma wf_placed: "table_wf m \<Longrightarrow> a < length (sm_shards m) \<Longrightarrow> placed (length (sm_shards m)) a (sm_shards m ! a)"
  by (simp add: table_wf_def)

text \<open>What the operations on the table do to its identifiers.\<close>

lemma ids_insert:
  assumes "table_wf m" "insert_session i s m = Some m'"
  shows "table_wf m' \<and> sm_count m' = sm_count m \<and> sm_max_sessions m' = sm_max_sessions m \<and>
    sm_next_session_id m' = sm_next_session_id m \<and>
    mset (session_ids m') = (if i \<in> set (session_ids m) then mset (session_ids m) else add_mset i (mset (session_ids m)))"
proof -
  obtain a where a: "get_shard_idx m i = Some a" "m' = on_shard (bt_put i s) a m"
    using assms(2) by (auto simp: insert_session_def)
  note idx = shard_idx [OF a(1)]
  have pl: "placed (length (sm_shards m)) a (sm_shards m ! a)" using wf_placed assms(1) idx by blast
  have mem: "i \<in> set (session_ids m) \<longleftrightarrow> i \<in> fst ` set (sm_shards m ! a)"
  proof
    assume "i \<in> set (session_ids m)"
    then obtain b where b: "b < length (sm_shards m)" "i \<in> fst ` set (sm_shards m ! b)"
      by (force simp: session_ids_def in_set_conv_nth)
    with wf_placed [OF assms(1) b(1)] idx have "b = a" by (auto simp: placed_def)
    with b show "i \<in> fst ` set (sm_shards m ! a)" by simp
  qed (use session_ids_elem idx in blast)
  have "table_wf m'"
    unfolding a(2) by (rule on_shard_wf [OF assms(1)]) (use idx in \<open>auto simp: placed_def\<close>)
  moreover have "mset (session_ids m') + image_mset fst (mset (sm_shards m ! a)) =
      mset (session_ids m) + (if i \<in> set (session_ids m) then image_mset fst (mset (sm_shards m ! a))
        else add_mset i (image_mset fst (mset (sm_shards m ! a))))"
    using shard_update [OF conjunct1 [OF idx], of "bt_put i s"] pl unfolding a(2) placed_def mem by (simp only: mset_keys_put)
  ultimately show ?thesis by (simp add: a(2) split: if_splits)
qed

lemma ids_remove:
  assumes "table_wf m" "remove_session i m = Some (Inr s, m')"
  shows "table_wf m' \<and> sm_count m' = sm_count m \<and> sm_max_sessions m' = sm_max_sessions m \<and>
    sm_next_session_id m' = sm_next_session_id m \<and> mset (session_ids m) = add_mset i (mset (session_ids m'))"
proof -
  obtain a where a: "get_shard_idx m i = Some a" "m' = on_shard (bt_del i) a m" "bt_get i (sm_shards m ! a) = Some s"
    using assms(2) by (auto simp: remove_session_def split: option.splits)
  note idx = shard_idx [OF a(1)]
  have pl: "placed (length (sm_shards m)) a (sm_shards m ! a)" using wf_placed assms(1) idx by blast
  have "i \<in> fst ` set (sm_shards m ! a)" using a(3) by (force dest: bt_get_Some_in)
  with pl have "image_mset fst (mset (sm_shards m ! a)) = add_mset i (image_mset fst (mset (bt_del i (sm_shards m ! a))))"
    by (simp add: mset_keys_del placed_def)
  moreover have "table_wf m'"
    unfolding a(2) by (rule on_shard_wf [OF assms(1)]) (auto simp: placed_def set_bt_del)
  ultimately show ?thesis
    using shard_update [of a m "bt_del i"] idx by (simp add: a(2))
qed

lemma ids_sweep:
  assumes "table_wf m" "a < length (sm_shards m)" "sweep_shard dead a m = (r, m')"
  shows "table_wf m' \<and> sm_count m' = sm_count m \<and> sm_max_sessions m' = sm_max_sessions m \<and>
    sm_next_session_id m' = sm_next_session_id m \<and>
    (\<exists>gone. mset (session_ids m) = gone + mset (session_ids m') \<and> size gone = r)"
proof -
  let ?sh = "sm_shards m ! a" and ?keep = "filter (\<lambda>(_, s). \<not> dead s) (sm_shards m ! a)"
  have m': "m' = on_shard (filter (\<lambda>(_, s). \<not> dead s)) a m" "r = length (filter (dead \<circ> snd) ?sh)"
    using assms(3) by (auto simp: sweep_shard_def)
  have "image_mset fst (mset xs) = image_mset fst (mset (filter (dead \<circ> snd) xs)) + image_mset fst (mset (filter (\<lambda>(_, s). \<not> dead s) xs))"
    for xs :: "(session_id \<times> 'a session) list"
    by (induction xs) auto
  note split = this [of ?sh]
  have "placed (length (sm_shards m)) a ?keep"
    using wf_placed [OF assms(1,2)] by (auto simp: placed_def bt_sorted_def sorted_wrt_map sorted_wrt_filter)
  then have "table_wf m'" unfolding m' by (intro on_shard_wf [OF assms(1)])
  moreover have "mset (session_ids m) = image_mset fst (mset (filter (dead \<circ> snd) ?sh)) + mset (session_ids m')"
    using shard_update [OF assms(2), of "filter (\<lambda>(_, s). \<not> dead s)"] split unfolding m'(1)
    by (simp add: ac_simps)
  moreover have "size (image_mset fst (mset (filter (dead \<circ> snd) ?sh))) = r" unfolding m'(2) by (metis length_map mset_map size_mset)
  ultimately show ?thesis unfolding m'(1) by auto
qed

text \<open>The counter moves by what a step takes or gives back; it never wraps, as it counts what is there.\<close>

lemma count_down:
  assumes "unat (c :: u64) = a + n"
  shows "unat (c - word_of_nat n) = a"
proof -
  have n: "unat (word_of_nat n :: u64) = n"
    using assms unsigned_less [of c, where 'a = nat] by (simp add: unat_of_nat take_bit_nat_eq_self)
  then have "word_of_nat n \<le> c" using assms by (simp add: word_le_nat_alt)
  with n show ?thesis using assms by (simp add: unat_sub)
qed

lemma count_up:
  assumes "unat (c :: u64) < n" "n < 2 ^ 64"
  shows "unat (c + 1) = Suc (unat c)"
proof -
  have "c \<noteq> - 1" using assms by (auto simp: unat_max_u64)
  then show ?thesis by (rule unat_inc_u64)
qed

lemma fresh_offset:
  assumes "n < 2 ^ 64"
  shows "unat ((a :: u64) + word_of_nat n - a) = n"
  using assms by (simp add: unat_of_nat take_bit_nat_eq_self)

lemma loaded_below_simps [simp]:
  "loaded_below n {#}"
  "loaded_below n (add_mset w W) \<longleftrightarrow> (\<forall>j c. w = Loaded j c \<longrightarrow> unat c < n) \<and> loaded_below n W"
  by (auto simp: loaded_below_def)

lemma manager_inv_frame:
  assumes "manager_inv m0 n m W" "sm_max_sessions m' = sm_max_sessions m" "sm_next_session_id m' = sm_next_session_id m"
    "table_wf m' \<and> used_ids m' W' \<subseteq># used_ids m W"
    "unat (sm_count m') = length (session_ids m') + slots_held W'" "unat (sm_count m') \<le> sm_max_sessions m0"
    "loaded_below (sm_max_sessions m0) W'"
  shows "manager_inv m0 n m' W'"
  using assms mset_subset_eqD [of "used_ids m' W'" "used_ids m W"] mset_subset_eq_count [of "used_ids m' W'" "used_ids m W"]
  unfolding manager_inv_def by (metis le_trans)

lemma manager_invD:
  assumes "manager_inv m0 n m W"
  shows "sm_max_sessions m = sm_max_sessions m0" "sm_next_session_id m = sm_next_session_id m0 + word_of_nat n" "table_wf m"
    "unat (sm_count m) = length (session_ids m) + slots_held W" "unat (sm_count m) \<le> sm_max_sessions m0"
    "loaded_below (sm_max_sessions m0) W" "\<And>i. count (used_ids m W) i \<le> 1"
    "\<And>i. i \<in># used_ids m W \<Longrightarrow> unat (i - sm_next_session_id m0) < n"
  using assms by (auto simp: manager_inv_def)

lemma table_frame [simp]:
  "session_ids (m\<lparr>sm_count := c\<rparr>) = session_ids m" "table_wf (m\<lparr>sm_count := c\<rparr>) = table_wf m"
  "session_ids (m\<lparr>sm_next_session_id := i\<rparr>) = session_ids m" "table_wf (m\<lparr>sm_next_session_id := i\<rparr>) = table_wf m"
  "session_ids (m\<lparr>sm_pending_recycle := ls\<rparr>) = session_ids m" "table_wf (m\<lparr>sm_pending_recycle := ls\<rparr>) = table_wf m"
  "session_ids (m\<lparr>sm_core_eval := rs\<rparr>) = session_ids m" "table_wf (m\<lparr>sm_core_eval := rs\<rparr>) = table_wf m"
  by (simp_all add: session_ids_def table_wf_def)

lemma size_ids: "mset (session_ids m) = M \<Longrightarrow> length (session_ids m) = size M"
  by (metis size_mset)

lemma inv_allocated:
  assumes "manager_inv m0 n m (add_mset (Reserved j) W)" "Suc n \<le> 2 ^ 64" "alloc_session_id m = (i, m')"
  shows "manager_inv m0 (Suc n) m' (add_mset (Allocated j i) W)"
proof -
  note inv = manager_invD [OF assms(1)]
  have i: "i = sm_next_session_id m0 + word_of_nat n" "m' = m\<lparr>sm_next_session_id := i + 1\<rparr>"
    using assms(3) inv(2) by (auto simp: alloc_session_id_def)
  then have off: "unat (i - sm_next_session_id m0) = n" using fresh_offset assms(2) by simp
  with inv(8) have new: "i \<notin># used_ids m (add_mset (Reserved j) W)" by blast
  have used: "used_ids m' (add_mset (Allocated j i) W) = add_mset i (used_ids m (add_mset (Reserved j) W))"
    by (simp add: used_ids_def i(2))
  have "count (used_ids m' (add_mset (Allocated j i) W)) x \<le> 1" for x
    using inv(7) [of x] new unfolding used by (auto simp: not_in_iff)
  moreover have "unat (x - sm_next_session_id m0) < Suc n" if "x \<in># used_ids m' (add_mset (Allocated j i) W)" for x
    using inv(8) [of x] off that unfolding used by (auto simp: less_Suc_eq)
  ultimately show ?thesis using inv i unfolding manager_inv_def by (simp add: ac_simps)
qed

lemma inv_registered:
  assumes "manager_inv m0 n m (add_mset (Opened j i l) W)" "insert_session i s m = Some m'"
  shows "manager_inv m0 n m' W"
proof -
  note inv = manager_invD [OF assms(1)]
  have "i \<notin> set (session_ids m)" using inv(7) [of i] by (auto simp: used_ids_def count_mset_0_iff simp flip: count_greater_zero_iff)
  with ids_insert [OF inv(3) assms(2)] have m': "table_wf m'" "sm_count m' = sm_count m" "sm_max_sessions m' = sm_max_sessions m"
    "sm_next_session_id m' = sm_next_session_id m" "mset (session_ids m') = add_mset i (mset (session_ids m))" by auto
  show ?thesis
    by (rule manager_inv_frame [OF assms(1)]) (use m' inv size_ids [OF m'(5)] in \<open>auto simp: used_ids_def\<close>)
qed

lemma inv_progressed:
  assumes "manager_inv m0 n m W" "get_session i m = Some (Some s)" "insert_session i s' m = Some m'"
  shows "manager_inv m0 n m' W"
proof -
  note inv = manager_invD [OF assms(1)]
  have "i \<in> set (session_ids m)"
    using assms(2) shard_idx by (force simp: get_session_def dest: bt_get_Some_in intro: session_ids_elem)
  with ids_insert [OF inv(3) assms(3)] have m': "table_wf m'" "sm_count m' = sm_count m" "sm_max_sessions m' = sm_max_sessions m"
    "sm_next_session_id m' = sm_next_session_id m" "mset (session_ids m') = mset (session_ids m)" by auto
  show ?thesis
    by (rule manager_inv_frame [OF assms(1)]) (use m' inv size_ids [OF m'(5)] in \<open>auto simp: used_ids_def\<close>)
qed

lemma inv_removed:
  assumes "manager_inv m0 n m W" "remove_session i m = Some (Inr s, m')"
  shows "manager_inv m0 n m' (add_mset (Removing 1) W)"
proof -
  note inv = manager_invD [OF assms(1)]
  from ids_remove [OF inv(3) assms(2)] have m': "table_wf m'" "sm_count m' = sm_count m" "sm_max_sessions m' = sm_max_sessions m"
    "sm_next_session_id m' = sm_next_session_id m" "mset (session_ids m) = add_mset i (mset (session_ids m'))" by auto
  show ?thesis
    by (rule manager_inv_frame [OF assms(1)]) (use m' inv size_ids [OF m'(5)] in \<open>auto simp: used_ids_def\<close>)
qed

lemma inv_swept:
  assumes "manager_inv m0 n m (add_mset (Removing k) W)" "a < length (sm_shards m)" "sweep_shard dead a m = (r, m')"
  shows "manager_inv m0 n m' (add_mset (Removing (k + r)) W)"
proof -
  note inv = manager_invD [OF assms(1)]
  from ids_sweep [OF inv(3) assms(2,3)] obtain gone where m': "table_wf m'" "sm_count m' = sm_count m"
    "sm_max_sessions m' = sm_max_sessions m" "sm_next_session_id m' = sm_next_session_id m"
    "mset (session_ids m) = gone + mset (session_ids m')" "size gone = r" by auto
  show ?thesis
    by (rule manager_inv_frame [OF assms(1)]) (use m' inv size_ids [OF m'(5)] in \<open>auto simp: used_ids_def\<close>)
qed

lemma inv_subtracted:
  assumes "manager_inv m0 n m (add_mset (Removing k) W)"
  shows "manager_inv m0 n (subtract_count k m) W"
proof -
  note inv = manager_invD [OF assms]
  have c: "unat (sm_count m - word_of_nat k) = length (session_ids m) + slots_held W"
    using inv(4) by (intro count_down) simp
  have m: "sm_count (subtract_count k m) = sm_count m - word_of_nat k" "session_ids (subtract_count k m) = session_ids m"
    "table_wf (subtract_count k m) = table_wf m" "sm_max_sessions (subtract_count k m) = sm_max_sessions m"
    "sm_next_session_id (subtract_count k m) = sm_next_session_id m"
    by (auto simp: subtract_count_def)
  show ?thesis
    by (rule manager_inv_frame [OF assms]) (use inv c in \<open>auto simp: m used_ids_def\<close>)
qed

lemma inv_released:
  assumes "manager_inv m0 n m (add_mset Failing W)"
  shows "manager_inv m0 n (release_session_slot m) W"
proof -
  note inv = manager_invD [OF assms]
  have "unat (sm_count m - word_of_nat 1) = length (session_ids m) + slots_held W"
    using inv(4) by (intro count_down) simp
  then show ?thesis
    by (intro manager_inv_frame [OF assms]) (use inv in \<open>auto simp: release_session_slot_def used_ids_def\<close>)
qed

lemma inv_exchanged:
  assumes "manager_inv m0 n m (add_mset (Loaded j c) W)" "cas_slot c m = Some m'" "sm_max_sessions m0 < 2 ^ 64"
  shows "manager_inv m0 n m' (add_mset (Reserved j) W)"
proof -
  note inv = manager_invD [OF assms(1)]
  have m': "m' = m\<lparr>sm_count := c + 1\<rparr>" "sm_count m = c" using assms(2) by (auto simp: cas_slot_def split: if_splits)
  have "unat c < sm_max_sessions m0" using inv(6) by simp
  then have "unat (c + 1) = Suc (unat c)" "unat c < sm_max_sessions m0" using count_up assms(3) by auto
  then show ?thesis
    by (intro manager_inv_frame [OF assms(1)]) (use inv in \<open>auto simp: m' used_ids_def\<close>)
qed

lemma manager_run_inv:
  assumes "sm_max_sessions m0 < 2 ^ 64" "sm_count m0 = 0" "session_ids m0 = []" "table_wf m0"
  shows "manager_run m0 n m W \<Longrightarrow> n \<le> 2 ^ 64 \<Longrightarrow> manager_inv m0 n m W"
proof (induction rule: manager_run.induct)
  case started
  then show ?case using assms by (simp add: manager_inv_def used_ids_def)
next
  case (arrived n m W j)
  then show ?case by (simp add: manager_inv_def used_ids_def)
next
  case (loaded n m j W c)
  then show ?case by (auto simp: manager_inv_def used_ids_def load_slot_def split: if_splits)
next
  case (refused n m j W e)
  then show ?case by (simp add: manager_inv_def used_ids_def)
next
  case (exchanged n m j c W m')
  then show ?case using assms(1) by (blast intro: inv_exchanged)
next
  case (retried n m j c W)
  then show ?case by (simp add: manager_inv_def used_ids_def)
next
  case (allocated n m j W i m')
  then show ?case by (intro inv_allocated) simp_all
next
  case (opened n m j i W v l)
  then show ?case by (simp add: manager_inv_def used_ids_def)
next
  case (failed n m j i W v e)
  then have "manager_inv m0 n m (add_mset (Allocated j i) W)" by simp
  from manager_inv_frame [OF this, of m "add_mset Failing W"] manager_invD [OF this] show ?case
    by (simp add: used_ids_def)
next
  case (released n m W)
  then show ?case by (intro inv_released) simp
next
  case (registered n m j i l W v m')
  then show ?case by (blast intro: inv_registered)
next
  case (removed n m W i s m')
  then show ?case by (blast intro: inv_removed)
next
  case (sweeping n m W)
  then show ?case by (simp add: manager_inv_def used_ids_def)
next
  case (swept n m k W a dead r m')
  then show ?case by (blast intro: inv_swept)
next
  case (subtracted n m k W)
  then show ?case by (intro inv_subtracted) simp
next
  case (progressed n m W i s s' m')
  then show ?case by (blast intro: inv_progressed)
next
  case (recycled n m W ls)
  then show ?case by (simp add: manager_inv_def used_ids_def)
next
  case (replaced n m rules)
  then show ?case by (simp add: manager_inv_def used_ids_def replace_core_eval_def)
qed

section \<open>Logs as they grow\<close>

text \<open>
  The versions that a log notes with its facts: each is the version reached by the facts before.  A log that
  starts from a new one and is only appended to has them; a compacted or derived one has not.
\<close>

fun version_after :: "u64 \<Rightarrow> fact \<Rightarrow> u64" where
  "version_after ver (StateTransition _ _ _ _) = ver + 1"
| "version_after ver (IoResponse _ _ _ _) = ver + 1"
| "version_after ver (PayloadUpdate _ _ _) = ver + 1"
| "version_after ver _ = ver"

fun stamps :: "u64 \<Rightarrow> (u64 \<times> fact) list \<Rightarrow> bool" where
  "stamps ver [] = True"
| "stamps ver ((vb, f) # h) = (vb = ver \<and> stamps (version_after ver f) h)"

definition end_version :: "u64 \<Rightarrow> (u64 \<times> fact) list \<Rightarrow> u64" where
  "end_version = foldl (\<lambda>ver x. version_after ver (snd x))"

definition stamped :: "'s facts_log \<Rightarrow> bool" where
  "stamped l \<longleftrightarrow> stamps 0 (history l) \<and> version l = end_version 0 (history l)"

lemma stamps_snoc: "stamps ver (h @ [(vb, f)]) \<longleftrightarrow> stamps ver h \<and> vb = end_version ver h"
  by (induction ver h rule: stamps.induct) (auto simp: end_version_def)

lemma rewind_fact_step: "rewind_fact ver f (p, ver) = (let (p', _, ver') = rewind_step f (p, q, ver) in (p', ver'))"
  by (cases f) auto

lemma rewind_step_version: "moment_version (rewind_step f (p, q, ver)) = version_after ver f"
  by (cases f) auto

lemma rewind_facts_loop:
  "stamps ver h \<Longrightarrow> rewind_facts (Some t) h (p, ver) = (let (p', _, ver') = rewind_loop t (map snd h) (p, q, ver) in (p', ver'))"
proof (induction h arbitrary: p q ver)
  case (Cons x h)
  obtain p1 q1 v1 where m: "rewind_step (snd x) (p, q, ver) = (p1, q1, v1)" by (metis prod.exhaust)
  then have "v1 = version_after ver (snd x)" using rewind_step_version [of "snd x" p q ver] by simp
  moreover have "rewind_fact ver (snd x) (p, ver) = (p1, v1)" by (simp add: rewind_fact_step [of _ _ _ q] m)
  ultimately show ?case
    using Cons.IH [of v1 p1 q1] Cons.prems m by (cases x) (simp add: Let_def)
qed simp

lemma rewind_facts_all:
  "stamps (version l) (map (\<lambda>r. (version_before r, wal_fact r)) rs) \<Longrightarrow> replay_loop rs l = Inr l' \<Longrightarrow>
   rewind_facts None (map (\<lambda>r. (version_before r, wal_fact r)) rs) (current_snapshot l, version l) = (current_snapshot l', version l')"
proof (induction rs arbitrary: l)
  case (Cons r rs)
  from Cons.prems(2) obtain l1 where l1: "replay_loop rs l1 = Inr l'" "snapshot l1 = rewind_step (wal_fact r) (snapshot l)"
    by (elim replay_one)
  have "version l1 = version_after (version l) (wal_fact r)"
    using l1(2) rewind_step_version [of "wal_fact r" "current_snapshot l" "current_queue l" "version l"]
    by (metis moment_version_snapshot snapshot_def)
  moreover have "rewind_fact (version l) (wal_fact r) (current_snapshot l, version l) = (current_snapshot l1, version l1)"
    using l1(2) [symmetric] by (simp add: rewind_fact_step [of _ _ _ "current_queue l"] snapshot_def)
  ultimately show ?case using Cons.IH [OF _ l1(1)] Cons.prems(1) by (simp add: Let_def)
qed simp

lemma apply_fact_end:
  assumes "version l \<noteq> - 1"
  shows "version (record_step vb f l) = version_after (version l) f"
proof -
  obtain l' where "apply_fact_to_state f (index_fact vb f (length (history l)) (push_history vb f l)) = (l', None)"
    using apply_fact_ok [of "index_fact vb f (length (history l)) (push_history vb f l)" f] assms
    by (metis log_frames prod.collapse)
  from apply_fact_moment [OF this] this show ?thesis
    using rewind_step_version by (metis fst_conv moment_version_snapshot record_step_def snapshot_def log_frames)
qed

lemma append_stamped:
  assumes "stamped l" "version l \<noteq> - 1"
  shows "stamped (snd (append store blake3 ser f l))"
  using assms(2)
proof (cases rule: append_outcome [of _ store blake3 ser f])
  case failed
  then show ?thesis using assms(1) by (simp add: stamped_def)
next
  case (written l1)
  then have "version l1 = version l" "history l1 = history l" by auto
  with written(2) assms show ?thesis
    by (simp add: stamped_def record_step_history apply_fact_end stamps_snoc) (simp add: end_version_def)
qed

lemma life_stamped:
  assumes "json_text ser de"
  shows "log_life blake3 ser de limit l \<Longrightarrow> stamped l"
proof (induction rule: log_life.induct)
  case created
  show ?case by (simp add: stamped_def with_wal_options_def with_wal_store_def log_new_def end_version_def)
next
  case (appended l f os)
  then show ?case by (intro append_stamped)
next
  case (rotated l os')
  then show ?case
    by (auto simp: rotate_wal_def stamped_def split: option.splits sum.splits)
next
  case (restarted l l')
  from log_life_durable [OF assms restarted(1)] restarted(2) have "l' = (in_memory l)\<lparr>wal := Some (append_with_options limit (snd (the (wal l))))\<rparr>"
    using recover_durable [OF assms] by (metis sum.inject(2))
  with restarted.IH show ?case by (simp add: stamped_def in_memory_def)
qed

text \<open>A log on files as its records: what it recovers from, with every prefix replayable.\<close>

lemma life_replay:
  assumes "json_text ser de" "log_life blake3 ser de limit l"
  obtains w d rs and l' :: file_log where "wal l = Some (w, d)" "read_wal_with_hash de d = Inr rs" "hash_chained blake3 ser genesis rs"
    "history l = map (\<lambda>r. (version_before r, wal_fact r)) rs" "replay_loop rs log_new = Inr l'"
    "snapshot l' = snapshot l"
proof -
  obtain w d data where st: "wal l = Some (w, d)" "writer_inv w d (map (record_line ser) data)"
    "synced blake3 ser l (map record_of data)" "read_wal_with_hash de d = Inr (map record_of data)"
    "history l = map (\<lambda>r. (version_before r, wal_fact r)) (map record_of data)"
    by (rule life_data [OF assms])
  then have "hash_chained blake3 ser genesis (map record_of data)"
    and rep: "replay_loop (map record_of data) log_new = Inr ((in_memory l)\<lparr>last_hash := genesis\<rparr>)"
    by (simp_all add: synced_def)
  from st(1,4) this(1) st(5) rep show thesis
    by (rule that) (simp add: snapshot_def in_memory_def)
qed

text \<open>Every session a log goes into is rewound along its own versions.\<close>

lemma rewind_payload_replay:
  fixes l lk l' :: "'s facts_log"
  assumes "stamped l" "history l = map (\<lambda>r. (version_before r, wal_fact r)) rs" "replay_loop rs log_new = Inr l'"
    "replay_loop (take k rs) log_new = Inr lk"
  shows "rewind_payload l (version lk) = Some (current_snapshot lk)"
proof (cases "version lk = 0")
  case True
  with rewind_zero [OF assms(4)] show ?thesis by (simp add: rewind_payload_def snapshot_def)
next
  case False
  then have "version (log_new :: 's facts_log) < version lk" by (simp add: log_new_def word_gt_0)
  then have "rewind_loop (version lk) (map wal_fact rs) (empty_object, [], 0) = snapshot lk"
    using rewind_loop_meets [OF assms(3) _ assms(4) refl] unfolding rewind_loop_log_new by simp
  moreover have "map snd (history l) = map wal_fact rs" using assms(2) by simp
  ultimately show ?thesis
    using rewind_facts_loop [of 0 "history l" "version lk" empty_object "[]"] assms(1) False
    by (simp add: rewind_payload_def history_with_versions_def stamped_def snapshot_def)
qed

section \<open>Derived sessions\<close>

lemma run_start_log: "flog (run_start cfg l) = l"
  by (simp add: run_start_def split: prod.split)

lemma run_start_seed:
  "payload (mstate (run_start cfg l)) = (if version l = 0 then empty_object else current_snapshot l)"
  "rs_version (mstate (run_start cfg l)) = version l"
  by (auto simp: run_start_def snapshot_def state_new_def word_gt_0 split: prod.split)

lemma create_facts_log_state:
  assumes "create_facts_log v m i = Inr l"
  shows "snapshot l = (empty_object, [], 0)" "history l = []" "version l \<noteq> - 1"
  using assms by (auto simp: create_facts_log_def snapshot_def with_wal_options_def with_wal_store_def log_new_def Let_def split: option.splits)

lemma set_initial_state_snapshot:
  assumes "version l \<noteq> - 1" "current_queue l = []"
  shows "snapshot (set_initial_state store blake3 ser p ver l) = (p, [], ver)"
proof -
  let ?l = "l\<lparr>next_anchor_id := saturating_add_u64 (next_anchor_id l) 1\<rparr>"
    and ?f = "PayloadUpdate (next_anchor_id l) ''__fork__.initial_state''
      (object_from_pairs [(''digest'', String (content_hash blake3 ser p)), (''version'', Integer ver)])"
  have "version ?l \<noteq> - 1" using assms by simp
  then have "current_queue (snd (append store blake3 ser ?f ?l)) = []"
  proof (cases rule: append_outcome [of _ store blake3 ser ?f])
    case failed
    then show ?thesis using assms(2) by simp
  next
    case (written l1)
    then have "current_queue l1 = []" "version l1 \<noteq> - 1" using assms by auto
    then show ?thesis unfolding written(2)
      by (simp add: record_step_def bump_log_version_def checked_inc_u64_def log_frames push_history_def index_fact_def)
  qed
  then show ?thesis by (simp add: set_initial_state_def snapshot_def Let_def)
qed

lemma get_inserted:
  assumes "insert_session i s m = Some m'"
  shows "get_session i' m' = (if i' = i then Some (Some s) else get_session i' m)"
proof -
  obtain a where a: "get_shard_idx m i = Some a" "m' = on_shard (bt_put i s) a m"
    using assms by (auto simp: insert_session_def)
  then have "get_shard_idx m' i' = get_shard_idx m i'"
    by (simp add: get_shard_idx_def on_shard_def)
  moreover have "a < length (sm_shards m)" using shard_idx [OF a(1)] by simp
  ultimately show ?thesis
    using a by (cases "get_shard_idx m i'") (auto simp: get_session_def on_shard_def nth_list_update)
qed

text \<open>What a successful creation leaves.\<close>

lemma create_session_with_outcome:
  assumes "create_session_with v j m = Some (r, m')"
  shows "case r of
      Inl (LimitExceeded c b) \<Rightarrow> m' = m \<and> unat (sm_count m) \<ge> sm_max_sessions m
    | Inl e \<Rightarrow> \<exists>src. e = WalUnavailable (sm_next_session_id m) src \<and> m' = m\<lparr>sm_next_session_id := sm_next_session_id m + 1\<rparr>
    | Inr i \<Rightarrow> i = sm_next_session_id m \<and> unat (sm_count m) < sm_max_sessions m \<and> sm_count m' = sm_count m + 1 \<and>
        (\<exists>l m1. open_session_log v m1 i j = Inr l \<and> get_session i m' = Some (Some (new_session v j l m1)) \<and>
          sm_core_eval m1 = sm_core_eval m \<and>
          (\<forall>i'. i' \<noteq> i \<longrightarrow> get_session i' m' = get_session i' m))"
proof (cases "load_slot m")
  case (Inl e)
  then show ?thesis using assms by (auto simp: create_session_with_def load_slot_def split: if_splits)
next
  case (Inr c)
  let ?i = "sm_next_session_id m" and ?m1 = "m\<lparr>sm_count := c + 1, sm_next_session_id := sm_next_session_id m + 1\<rparr>"
  have c: "c = sm_count m" "unat (sm_count m) < sm_max_sessions m" using Inr by (auto simp: load_slot_def split: if_splits)
  have get: "get_session i' ?m1 = get_session i' m" for i' by (simp add: get_session_def get_shard_idx_def)
  have "create_session_with v j m =
      (case open_session_log v ?m1 ?i j of
         Inl src \<Rightarrow> Some (Inl (WalUnavailable ?i src), release_session_slot ?m1)
       | Inr l \<Rightarrow> map_option (\<lambda>m2. (Inr ?i, m2)) (insert_session ?i (new_session v j l ?m1) ?m1))"
    by (simp add: create_session_with_def Inr alloc_session_id_def)
  with assms consider src where "open_session_log v ?m1 ?i j = Inl src" "r = Inl (WalUnavailable ?i src)" "m' = release_session_slot ?m1"
    | l where "open_session_log v ?m1 ?i j = Inr l" "r = Inr ?i" "insert_session ?i (new_session v j l ?m1) ?m1 = Some m'"
    by (auto split: sum.splits)
  then show ?thesis
  proof cases
    case 1
    then show ?thesis using c by (simp add: release_session_slot_def)
  next
    case (2 l)
    have "sm_count m' = sm_count m + 1" using 2(3) c(1) by (auto simp: insert_session_def)
    with 2 get_inserted [OF 2(3)] c(2) show ?thesis by (auto simp: get intro!: exI [of _ l] exI [of _ ?m1])
  qed
qed

lemma derived_session:
  assumes "open_session_log v m1 i \<lparr>sj_parent = par, sj_initial = Some (p, t), sj_rules = rules\<rparr> = Inr l"
    and "c = new_session v \<lparr>sj_parent = par, sj_initial = Some (p, t), sj_rules = rules\<rparr> l m1"
  shows "snapshot (session_log c) = (p, [], t)" "rs_version (mstate (h_machine (se_handle c))) = t"
    "t \<noteq> 0 \<Longrightarrow> payload (mstate (h_machine (se_handle c))) = p"
    "se_parent c = par" "se_initial_hash c = Some (content_hash (sv_blake3 v) (sv_ser v) p)" "se_scheme c = AuditChainCompact"
    "core_eval (se_config c) = unwrap_or (sm_core_eval m1) rules"
proof -
  obtain l0 where l0: "create_facts_log v m1 i = Inr l0"
    "l = set_initial_state (file_store (sv_write_error v) (sv_ser v)) (sv_blake3 v) (sv_ser v) p t l0"
    using assms(1) by (auto simp: open_session_log_def map_ok_Inr_iff)
  then have "snapshot l = (p, [], t)"
    using create_facts_log_state [OF l0(1)] set_initial_state_snapshot [of l0] by (simp add: snapshot_def)
  then show "snapshot (session_log c) = (p, [], t)" "rs_version (mstate (h_machine (se_handle c))) = t"
    "t \<noteq> 0 \<Longrightarrow> payload (mstate (h_machine (se_handle c))) = p"
    by (auto simp: assms(2) new_session_def session_log_def spawn_reactor_def run_start_log run_start_seed snapshot_def Let_def)
  show "se_parent c = par" "se_initial_hash c = Some (content_hash (sv_blake3 v) (sv_ser v) p)" "se_scheme c = AuditChainCompact"
    "core_eval (se_config c) = unwrap_or (sm_core_eval m1) rules"
    by (simp_all add: assms(2) new_session_def compute_initial_hash_def session_reactor_config_def builder_new_def Let_def)
qed

lemma check_archive_chained:
  "hash_chained blake3 ser prev rs \<Longrightarrow> check_archive blake3 ser prev rs = Inr ()"
  by (induction rs arbitrary: prev) (auto simp: Let_def chain_step_def)

lemma listed_found:
  assumes "table_wf m"
  shows "i \<in> set (session_ids m) \<longleftrightarrow> (\<exists>s. get_session i m = Some (Some s))"
proof
  assume "i \<in> set (session_ids m)"
  then obtain b where b: "b < length (sm_shards m)" "i \<in> fst ` set (sm_shards m ! b)"
    by (force simp: session_ids_def in_set_conv_nth)
  with wf_placed [OF assms b(1)] have "unat i mod length (sm_shards m) = b" by (auto simp: placed_def)
  moreover have "bt_get i (sm_shards m ! b) \<noteq> None" using b(2) by (simp add: bt_get_None_iff)
  ultimately show "\<exists>s. get_session i m = Some (Some s)" using b(1) by (auto simp: get_session_def get_shard_idx_def)
next
  assume "\<exists>s. get_session i m = Some (Some s)"
  then show "i \<in> set (session_ids m)"
    using shard_idx by (force simp: get_session_def dest: bt_get_Some_in intro: session_ids_elem)
qed

text \<open>The sequential operations are runs of the steps.\<close>

lemma create_session_run:
  assumes "manager_run m0 n m W" "create_session_with v j m = Some (r, m')"
  shows "\<exists>n' \<le> Suc n. manager_run m0 n' m' W"
proof (cases "load_slot m")
  case (Inl e)
  then show ?thesis using assms by (auto simp: create_session_with_def intro: exI [of _ n])
next
  case (Inr c)
  let ?m = "m\<lparr>sm_count := c + 1\<rparr>"
  have "cas_slot c m = Some ?m" using Inr by (auto simp: cas_slot_def load_slot_def split: if_splits)
  with Inr assms(1) have "manager_run m0 n ?m (add_mset (Reserved j) W)"
    by (blast intro: manager_run.arrived manager_run.loaded manager_run.exchanged)
  moreover obtain i m1 where al: "alloc_session_id ?m = (i, m1)" by fastforce
  ultimately have run: "manager_run m0 (Suc n) m1 (add_mset (Allocated j i) W)" by (rule manager_run.allocated)
  show ?thesis
  proof (cases "open_session_log v m1 i j")
    case (Inl src)
    with assms(2) Inr al have "m' = release_session_slot m1" by (simp add: create_session_with_def \<open>load_slot m = Inr c\<close>)
    with manager_run.released [OF manager_run.failed [OF run Inl]] show ?thesis by blast
  next
    case (Inr l)
    with assms(2) al have "insert_session i (new_session v j l m1) m1 = Some m'"
      by (auto simp: create_session_with_def \<open>load_slot m = Inr c\<close>)
    with manager_run.registered [OF manager_run.opened [OF run Inr]] show ?thesis by blast
  qed
qed

lemma close_session_run:
  assumes "manager_run m0 n m W" "close_session pool_ok i m = Some (r, m')"
  shows "manager_run m0 n m' W"
proof -
  from assms(2) obtain r1 m1 where m1: "remove_session i m = Some (r1, m1)" by (auto simp: close_session_def)
  with assms(2) have m': "m' = (case r1 of Inl e \<Rightarrow> m1 | Inr s \<Rightarrow> recycle pool_ok s (subtract_count 1 m1))"
    by (auto simp: close_session_def split: sum.splits)
  show ?thesis
  proof (cases r1)
    case (Inl e)
    then show ?thesis using m1 m' assms(1) by (auto simp: remove_session_def split: option.splits)
  next
    case (Inr s)
    with m1 have "manager_run m0 n (subtract_count 1 m1) W"
      using manager_run.subtracted [OF manager_run.removed [OF assms(1)]] by blast
    then show ?thesis using m' Inr by (auto simp: recycle_def intro: manager_run.recycled)
  qed
qed

lemma sweep_shards_run:
  "manager_run m0 n m (add_mset (Removing k) W) \<Longrightarrow> \<forall>a \<in> set as. a < length (sm_shards m) \<Longrightarrow>
   sweep_shards dead as k m = (r, m') \<Longrightarrow> manager_run m0 n m' (add_mset (Removing r) W)"
proof (induction as arbitrary: k m)
  case (Cons a as)
  obtain r1 m1 where s: "sweep_shard dead a m = (r1, m1)" by fastforce
  then have "length (sm_shards m1) = length (sm_shards m)" by (auto simp: sweep_shard_def)
  with Cons.prems s manager_run.swept [OF Cons.prems(1) _ s] show ?case by (intro Cons.IH) auto
qed simp

lemma sweep_run:
  assumes "manager_run m0 n m W" "sweep dead m = (r, m')"
  shows "manager_run m0 n m' W"
proof -
  obtain m1 where m1: "sweep_shards dead [0..<length (sm_shards m)] 0 m = (r, m1)" "m' = subtract_count r m1"
    using assms(2) by (auto simp: sweep_def split: prod.splits)
  then show ?thesis
    using sweep_shards_run [OF manager_run.sweeping [OF assms(1)] _ m1(1)] manager_run.subtracted by fastforce
qed

section \<open>Shown of the session manager\<close>

text \<open>
  C29: the limit on sessions holds under every interleaving.  Whatever calls that create, close and reap
  sessions do in parallel, the counter is the number of sessions in the table plus the slots that calls hold,
  it never exceeds the limit, no identifier is in the table twice, and an identifier is found exactly when it
  is listed.
\<close>

theorem session_limit_holds:
  assumes "sm_count m0 = 0" "session_ids m0 = []" "sm_max_sessions m0 < 2 ^ 64"
    and "manager_run m0 n m W" "n \<le> 2 ^ 64"
  shows "unat (sm_count m) = length (list_sessions m) + slots_held W \<and> unat (sm_count m) \<le> sm_max_sessions m0 \<and>
    distinct (list_sessions m) \<and> (i \<in> set (list_sessions m) \<longleftrightarrow> (\<exists>s. get_session i m = Some (Some s)))"
proof -
  have "sm_shards m0 ! j = []" if "j < length (sm_shards m0)" for j
    using assms(2) nth_mem [OF that] by (auto simp: session_ids_def)
  then have "table_wf m0" by (simp add: table_wf_def placed_def)
  with assms have "manager_inv m0 n m W" by (intro manager_run_inv)
  note inv = manager_invD [OF this]
  have "count (mset (session_ids m)) x \<le> 1" for x using inv(7) [of x] by (simp add: used_ids_def)
  then have "distinct (session_ids m)" by (metis distinct_count_atmost_1 count_mset_0_iff le_Suc_eq One_nat_def le_zero_eq count_eq_zero_iff set_mset_mset)
  moreover have "i \<in> set (session_ids m) \<longleftrightarrow> (\<exists>s. get_session i m = Some (Some s))"
    using listed_found [OF inv(3)] .
  ultimately show ?thesis using inv by (simp add: list_sessions_def)
qed

definition sample_session_env :: "byte list session_env" where
  "sample_session_env = \<lparr>sv_ed = sample_ed, sv_blake3 = sample_blake3, sv_ser = unary_ser, sv_disk = \<lambda>_. [],
     sv_open_error = \<lambda>_. None, sv_write_error = \<lambda>_. None, sv_now = 0\<rparr>"

text \<open>One session, created on a new manager.\<close>

lemma manager_new_fresh:
  "sm_count (manager_new rules rounds) = 0" "session_ids (manager_new rules rounds) = []"
  "sm_max_sessions (manager_new rules rounds) = 1000"
  by (simp_all add: manager_new_def with_limits_and_wal_def with_limits_and_wal_and_fsync_def with_limits_and_wal_full_def
      with_limits_and_wal_and_auto_verify_def session_ids_def bt_new_def DEFAULT_MAX_SESSIONS_def DEFAULT_SHARD_COUNT_def Let_def)

lemma create_in_memory:
  assumes "sm_wal_dir m = None" "sm_shards m \<noteq> []" "unat (sm_count m) < sm_max_sessions m"
  obtains m' where "create_session_with v j m = Some (Inr (sm_next_session_id m), m')" "sm_wal_dir m' = None"
    "sm_shards m' \<noteq> []" "sm_max_sessions m' = sm_max_sessions m" "sm_next_session_id m' = sm_next_session_id m + 1"
  using assms
  by (fastforce simp: create_session_with_def load_slot_def alloc_session_id_def open_session_log_def create_facts_log_def
      insert_session_def get_shard_idx_def on_shard_def)

lemma sample_created:
  obtains m where "create_session sample_session_env (manager_new [] 10) = Some (Inr 1, m)"
    "manager_run (manager_new [] 10) 0 (manager_new [] 10 :: byte list session_manager) {#}"
    "sm_wal_dir m = None" "sm_shards m \<noteq> []" "sm_max_sessions m = 1000" "sm_next_session_id m = 2"
proof -
  let ?m0 = "manager_new [] 10 :: byte list session_manager"
  have m0: "sm_wal_dir ?m0 = None" "sm_shards ?m0 \<noteq> []" "sm_next_session_id ?m0 = 1"
    by (simp_all add: manager_new_def with_limits_and_wal_def with_limits_and_wal_and_fsync_def
        with_limits_and_wal_full_def with_limits_and_wal_and_auto_verify_def DEFAULT_SHARD_COUNT_def Let_def)
  have "unat (sm_count ?m0) < sm_max_sessions ?m0" by (simp add: manager_new_fresh)
  then obtain m where m: "create_session_with sample_session_env \<lparr>sj_parent = None, sj_initial = None, sj_rules = None\<rparr> ?m0 =
      Some (Inr (sm_next_session_id ?m0), m)" "sm_wal_dir m = None" "sm_shards m \<noteq> []" "sm_max_sessions m = sm_max_sessions ?m0"
    "sm_next_session_id m = sm_next_session_id ?m0 + 1"
    by (rule create_in_memory [OF m0(1,2)])
  show thesis
    by (rule that [of m]) (use m in \<open>simp_all add: create_session_def m0(3) manager_new_fresh manager_run.started\<close>)
qed

theorem session_limit_holds_witness:
  "\<exists>m. create_session sample_session_env (manager_new [] 10) = Some (Inr 1, m) \<and>
    unat (sm_count m) = length (list_sessions m) \<and> distinct (list_sessions m)"
proof -
  obtain m :: "byte list session_manager" where m: "create_session sample_session_env (manager_new [] 10) = Some (Inr 1, m)"
    and run: "manager_run (manager_new [] 10) 0 (manager_new [] 10 :: byte list session_manager) {#}" by (rule sample_created)
  from create_session_run [OF run m [unfolded create_session_def]] obtain n where n: "n \<le> 1" "manager_run (manager_new [] 10) n m {#}" by auto
  have "n \<le> 2 ^ 64" using n(1) by simp
  from session_limit_holds [OF _ _ _ n(2) this] m show ?thesis by (simp add: manager_new_fresh)
qed

lemma session_number_file: "session_number (session_file i) = Some i"
proof -
  have "strip_suffix ''.wal'' (dec_nat (unat i) @ ''.wal'') = Some (dec_nat (unat i))"
    by (simp add: strip_suffix_def strip_prefix_def starts_with_iff)
  moreover have "unat i \<le> USIZE_MAX" using unsigned_less [of i, where 'a = nat] by (simp add: USIZE_MAX_def)
  ultimately show ?thesis by (simp add: session_number_def session_file_def strip_prefix_def starts_with_iff parse_usize_dec_nat)
qed

lemma max_session_id_ge:
  assumes "name \<in> set names" "session_number name = Some i"
  shows "i \<le> max_session_id_from_names names"
proof -
  have mono: "mx \<le> foldl (\<lambda>mx name. case session_number name of Some n \<Rightarrow> max mx n | None \<Rightarrow> mx) mx ns" for mx :: u64 and ns
    by (induction ns arbitrary: mx) (auto split: option.splits intro: order_trans [OF max.cobounded1])
  have "i \<le> foldl (\<lambda>mx name. case session_number name of Some n \<Rightarrow> max mx n | None \<Rightarrow> mx) mx names" for mx
    using assms by (induction names arbitrary: mx) (auto split: option.splits intro: order_trans [OF max.cobounded2 mono])
  then show ?thesis by (simp add: max_session_id_from_names_def)
qed

lemma offset_above:
  assumes "unat (i - (a + 1)) < n" "unat (a :: u64) + n < 2 ^ 64"
  shows "a < i"
proof -
  have a1: "unat (a + 1) = Suc (unat a)" using assms by (intro count_up [of a "unat a + n"]) auto
  have "unat ((a + 1) + (i - (a + 1))) = (Suc (unat a) + unat (i - (a + 1))) mod 2 ^ 64"
    using unat_word_ariths(1) [of "a + 1" "i - (a + 1)"] unfolding a1 by simp
  also have "\<dots> = Suc (unat a) + unat (i - (a + 1))" using assms by (intro mod_less) simp
  finally show ?thesis by (simp add: word_less_nat_alt)
qed

text \<open>
  C31: new sessions never overwrite an old log.  A manager started on a directory that could be listed numbers
  its sessions past every log it found there: no session that it creates, finished or under way, in any
  interleaving, writes to a file that was in the directory.
\<close>

theorem session_files_fresh:
  assumes "m0 = with_limits_and_wal_and_auto_verify (Some es) rules rounds max_sessions ttl (Some dir) shards fsync max_wal on limit interval"
    and "max_sessions < 2 ^ 64" "manager_run m0 n m W" "unat (scan_max_session_id (Some es)) + n < 2 ^ 64"
    and "i \<in># used_ids m W" "Some name \<in> set es"
  shows "session_file i \<noteq> name"
proof
  assume "session_file i = name"
  then have "session_number name = Some i" using session_number_file by metis
  moreover have "name \<in> set (List.map_filter id es)" using assms(6) by (force simp: List.map_filter_def)
  ultimately have le: "i \<le> scan_max_session_id (Some es)" by (simp add: scan_max_session_id_def max_session_id_ge)
  have m0: "sm_count m0 = 0" "session_ids m0 = []" "sm_max_sessions m0 = max_sessions"
    "sm_next_session_id m0 = scan_max_session_id (Some es) + 1" "table_wf m0"
    using assms(1) by (auto simp: with_limits_and_wal_and_auto_verify_def session_ids_def table_wf_def placed_def bt_new_def Let_def)
  then have "manager_inv m0 n m W" using assms by (intro manager_run_inv) auto
  from manager_invD(8) [OF this assms(5)] have "scan_max_session_id (Some es) < i"
    unfolding m0 using assms(4) by (rule offset_above)
  with le show False by simp
qed

theorem session_files_fresh_witness:
  "\<exists>(m :: byte list session_manager) W.
    manager_run (with_limits_and_wal (Some [Some ''session_7.wal'', None]) [] 10 5 0 (Some ''wal'') 2) 1 m W \<and>
    8 \<in># used_ids m W \<and> session_file 8 \<noteq> ''session_7.wal''"
proof -
  let ?m0 = "with_limits_and_wal (Some [Some ''session_7.wal'', None]) [] 10 5 0 (Some ''wal'') 2 :: byte list session_manager"
    and ?j = "\<lparr>sj_parent = None, sj_initial = None, sj_rules = None\<rparr>"
  have "dec_nat 7 = ''7''" by code_simp
  then have "session_number ''session_7.wal'' = Some 7" using session_number_file [of 7] by (simp add: session_file_def)
  then have scan: "scan_max_session_id (Some [Some ''session_7.wal'', None]) = 7"
    by (simp add: scan_max_session_id_def max_session_id_from_names_def List.map_filter_def)
  have m0: "sm_count ?m0 = 0" "sm_max_sessions ?m0 = 5" "sm_next_session_id ?m0 = 8"
    by (simp_all add: with_limits_and_wal_def with_limits_and_wal_and_fsync_def with_limits_and_wal_full_def
        with_limits_and_wal_and_auto_verify_def scan Let_def)
  have "manager_run ?m0 0 ?m0 {#Loaded ?j 0#}"
    by (intro manager_run.loaded manager_run.arrived manager_run.started) (simp add: load_slot_def m0)
  then have "manager_run ?m0 0 (?m0\<lparr>sm_count := 1\<rparr>) {#Reserved ?j#}"
    by (rule manager_run.exchanged) (simp add: cas_slot_def m0)
  then have run: "manager_run ?m0 (Suc 0) (?m0\<lparr>sm_count := 1, sm_next_session_id := 9\<rparr>) {#Allocated ?j 8#}"
    by (rule manager_run.allocated) (simp add: alloc_session_id_def m0)
  have used: "8 \<in># used_ids (?m0\<lparr>sm_count := 1, sm_next_session_id := 9\<rparr>) {#Allocated ?j 8#}"
    by (simp add: used_ids_def)
  have eq: "?m0 = with_limits_and_wal_and_auto_verify (Some [Some ''session_7.wal'', None]) [] 10 5 0 (Some ''wal'') 2 False
      (100 * 1024 * 1024) False 1000 1"
    unfolding with_limits_and_wal_def with_limits_and_wal_and_fsync_def with_limits_and_wal_full_def ..
  have "session_file 8 \<noteq> ''session_7.wal''"
    by (rule session_files_fresh [OF eq _ run _ used]) (simp_all add: scan)
  with run used show ?thesis unfolding One_nat_def by blast
qed

text \<open>
  A derived session starts from the state of its parent.  The state is that of the log of the parent now,
  or the one at the version asked for; the log of the new session reports it, the reactor of the new session
  holds it unless the version is 0, its hash and the parent are recorded, and no other session changes.
\<close>

theorem fork_starts_from_parent:
  assumes "get_session parent m = Some (Some s)"
    and "create_session_from_parent_at_version_with_core_eval v parent ver rules m = Some (Inr i, m')"
  shows "\<exists>p t c. (case ver of None \<Rightarrow> (\<exists>q. snapshot (session_log s) = (p, q, t)) | Some u \<Rightarrow> t = u \<and> rewind_payload (session_log s) u = Some p) \<and>
    get_session i m' = Some (Some c) \<and> snapshot (session_log c) = (p, [], t) \<and>
    rs_version (mstate (h_machine (se_handle c))) = t \<and> (t \<noteq> 0 \<longrightarrow> payload (mstate (h_machine (se_handle c))) = p) \<and>
    se_parent c = Some parent \<and> se_initial_hash c = Some (content_hash (sv_blake3 v) (sv_ser v) p) \<and>
    core_eval (se_config c) = unwrap_or (sm_core_eval m) rules \<and>
    (\<forall>i'. i' \<noteq> i \<longrightarrow> get_session i' m' = get_session i' m)"
proof -
  obtain p t where pt: "case ver of None \<Rightarrow> (\<exists>q. snapshot (session_log s) = (p, q, t)) | Some u \<Rightarrow> t = u \<and> rewind_payload (session_log s) u = Some p"
    and create: "create_session_with v \<lparr>sj_parent = Some parent, sj_initial = Some (p, t), sj_rules = rules\<rparr> m = Some (Inr i, m')"
  proof (cases ver)
    case None
    obtain p q t where "snapshot (session_log s) = (p, q, t)" by (metis prod.exhaust)
    with None assms that show thesis
      by (simp add: create_session_from_parent_at_version_with_core_eval_def create_session_from_initial_state_inner_def)
  next
    case (Some u)
    with assms obtain p where "rewind_payload (session_log s) u = Some p"
      by (cases "rewind_payload (session_log s) u") (simp_all add: create_session_from_parent_at_version_with_core_eval_def)
    with Some assms that show thesis
      by (simp add: create_session_from_parent_at_version_with_core_eval_def create_session_from_initial_state_inner_def)
  qed
  from create_session_with_outcome [OF create] obtain l m1 where
    new: "open_session_log v m1 i \<lparr>sj_parent = Some parent, sj_initial = Some (p, t), sj_rules = rules\<rparr> = Inr l"
      "get_session i m' = Some (Some (new_session v \<lparr>sj_parent = Some parent, sj_initial = Some (p, t), sj_rules = rules\<rparr> l m1))"
      "sm_core_eval m1 = sm_core_eval m" "\<forall>i'. i' \<noteq> i \<longrightarrow> get_session i' m' = get_session i' m"
    by auto
  show ?thesis
    using derived_session [OF new(1) refl] pt new(2-4) by (intro exI [of _ p] exI [of _ t]) auto
qed

theorem fork_starts_from_parent_witness:
  "\<exists>m m' c. create_session sample_session_env (manager_new [] 10) = Some (Inr 1, m) \<and>
    create_session_from_parent sample_session_env 1 m = Some (Inr 2, m') \<and>
    get_session 2 m' = Some (Some c) \<and> se_parent c = Some 1 \<and> core_eval (se_config c) = sm_core_eval m"
proof -
  obtain m :: "byte list session_manager" where m: "create_session sample_session_env (manager_new [] 10) = Some (Inr 1, m)"
    "sm_wal_dir m = None" "sm_shards m \<noteq> []" "sm_max_sessions m = 1000" "sm_next_session_id m = 2" by (rule sample_created)
  from create_session_with_outcome [OF m(1) [unfolded create_session_def]] obtain s where
    s: "get_session 1 m = Some (Some s)" and c: "sm_count m = 1" by (auto simp: manager_new_fresh)
  obtain p q t where snap: "snapshot (session_log s) = (p, q, t)" by (metis prod.exhaust)
  obtain m' where "create_session_with sample_session_env \<lparr>sj_parent = Some 1, sj_initial = Some (p, t), sj_rules = None\<rparr> m = Some (Inr 2, m')"
    using create_in_memory [OF m(2,3), of sample_session_env] m(4,5) c by auto
  then have fork: "create_session_from_parent_at_version_with_core_eval sample_session_env 1 None None m = Some (Inr 2, m')"
    by (simp add: create_session_from_parent_at_version_with_core_eval_def create_session_from_initial_state_inner_def s snap)
  from fork_starts_from_parent [OF s fork] obtain c where "get_session 2 m' = Some (Some c)" "se_parent c = Some 1"
    "core_eval (se_config c) = sm_core_eval m" by auto
  with m(1) fork show ?thesis
    by (auto simp: create_session_from_parent_def create_session_from_parent_at_version_def)
qed



text \<open>
  The versions of an archive are not part of what is hashed, and the hash a record is linked to is not read:
  a record that claims another version passes the check and is taken up at that version.
\<close>

lemma archive_versions_unchecked:
  fixes f defines "f \<equiv> IoResponse 1 1 Null None"
  shows "payload_from_wal_records blake3 ser
      [hash_record vb f (fact_hash blake3 ser f) ph (chain_step blake3 genesis (fact_hash blake3 ser f))] None = Inr (empty_object, vb + 1)"
  by (simp add: f_def payload_from_wal_records_def hash_record_def chain_step_def Let_def)

text \<open>A record that has lost its chain hash is accepted, although a record without hashes is refused.\<close>

lemma archive_without_chain_accepted:
  assumes "wal_fact r = f" "wal_content_hash r = Some (fact_hash blake3 ser f)" "wal_chain_hash r = None"
  shows "check_archive blake3 ser prev [r] = Inr ()"
  using assms by (simp add: Let_def)

text \<open>The anchors of a session carry the number after its own.\<close>

lemma anchors_name_next_session:
  assumes "create_session_with v j m = Some (Inr i, m')" "sm_anchor_config m = Some cfg"
  shows "\<exists>c b. get_session i m' = Some (Some c) \<and> anchor_builder (se_auditor c) = Some b \<and> b_session_id b = ''session-'' @ dec_nat (unat (i + 1))"
proof -
  obtain c l where i: "i = sm_next_session_id m"
    and ins: "insert_session i (new_session v j l (m\<lparr>sm_count := c + 1, sm_next_session_id := i + 1\<rparr>))
      (m\<lparr>sm_count := c + 1, sm_next_session_id := i + 1\<rparr>) = Some m'"
    using assms(1) by (auto simp: create_session_with_def alloc_session_id_def split: sum.splits)
  show ?thesis
    using get_inserted [OF ins, of i] assms(2)
    by (simp add: new_session_def auditor_from_config_def with_anchor_impl_def anchor_builder_new_def Let_def)
qed

text \<open>
  A version whose facts are no longer in memory is not refused: rewinding a compacted log to a version before
  the compaction gives its last payload.
\<close>

lemma compacted_version_gives_last:
  "history l = [(5, StateTransition 1 0 p [])] \<Longrightarrow> rewind_payload l 2 = Some p"
  by (simp add: rewind_payload_def history_with_versions_def Let_def)

text \<open>A derived session at version 0 has its payload in the log, and its reactor starts without it.\<close>

lemma payload_lost_at_version_zero:
  assumes "open_session_log v m i \<lparr>sj_parent = par, sj_initial = Some (p, 0), sj_rules = rules\<rparr> = Inr l"
    and "c = new_session v \<lparr>sj_parent = par, sj_initial = Some (p, 0), sj_rules = rules\<rparr> l m"
  shows "current_snapshot (session_log c) = p" "payload (mstate (h_machine (se_handle c))) = empty_object"
proof -
  have "current_snapshot (session_log c) = p" "version (session_log c) = 0"
    using derived_session(1) [OF assms] by (simp_all add: snapshot_def)
  then show "current_snapshot (session_log c) = p" "payload (mstate (h_machine (se_handle c))) = empty_object"
    by (auto simp: assms(2) new_session_def session_log_def spawn_reactor_def run_start_log run_start_seed Let_def)
qed

text \<open>The counter of identifiers wraps on the largest number a log can have, and starts again below every other.\<close>

lemma session_counter_wraps:
  "scan_max_session_id (Some [Some (session_file (- 1))]) + 1 = 0"
  by (simp add: scan_max_session_id_def max_session_id_from_names_def List.map_filter_def session_number_file)

section \<open>Reaping is exact\<close>

lemma sweep_shards_effect:
  "distinct as \<Longrightarrow> \<forall>a \<in> set as. a < length (sm_shards m) \<Longrightarrow> sweep_shards dead as n m = (r, m') \<Longrightarrow>
   length (sm_shards m') = length (sm_shards m) \<and> sm_session_ttl m' = sm_session_ttl m \<and>
   (\<forall>j < length (sm_shards m). sm_shards m' ! j = (if j \<in> set as then filter (\<lambda>(_, s). \<not> dead s) (sm_shards m ! j) else sm_shards m ! j)) \<and>
   r = n + (\<Sum>j\<leftarrow>as. length (filter (dead \<circ> snd) (sm_shards m ! j)))"
proof (induction as arbitrary: n m)
  case (Cons a as)
  let ?m1 = "on_shard (filter (\<lambda>(_, s). \<not> dead s)) a m"
  have shards: "sm_shards ?m1 ! j = (if j = a then filter (\<lambda>(_, s). \<not> dead s) (sm_shards m ! j) else sm_shards m ! j)"
    if "j < length (sm_shards m)" for j
    using that by (auto simp: on_shard_def)
  have sum: "(\<Sum>j\<leftarrow>as. length (filter (dead \<circ> snd) (sm_shards ?m1 ! j))) = (\<Sum>j\<leftarrow>as. length (filter (dead \<circ> snd) (sm_shards m ! j)))"
    using Cons.prems(1,2) by (intro arg_cong [where f = sum_list] map_cong refl) (auto simp: shards)
  have ttl: "sm_session_ttl ?m1 = sm_session_ttl m" by (simp add: on_shard_def)
  have "sweep_shards dead as (n + length (filter (dead \<circ> snd) (sm_shards m ! a))) ?m1 = (r, m')"
    using Cons.prems(3) by (simp add: sweep_shard_def)
  from Cons.IH [OF _ _ this] Cons.prems(1,2) show ?case unfolding sum ttl
    by (auto simp: shards o_def)
qed simp

lemma get_filtered: "bt_sorted sh \<Longrightarrow> bt_get i (filter (\<lambda>(_, s). \<not> dead s) sh) = Some s \<longleftrightarrow> bt_get i sh = Some s \<and> \<not> dead s"
  by (subst bt_get_in_iff) (auto simp: bt_get_in_iff bt_sorted_def sorted_wrt_map sorted_wrt_filter)

lemma sweep_exact:
  assumes "table_wf m" "sweep dead m = (r, m')"
  shows "get_session i m' = Some (Some s) \<longleftrightarrow> get_session i m = Some (Some s) \<and> \<not> dead s"
    and "length (session_ids m) = r + length (session_ids m')"
proof -
  obtain m1 where m1: "sweep_shards dead [0..<length (sm_shards m)] 0 m = (r, m1)" "m' = subtract_count r m1"
    using assms(2) by (auto simp: sweep_def split: prod.splits)
  have shards: "sm_shards m' = sm_shards m1" by (simp add: m1(2) subtract_count_def)
  have eff: "length (sm_shards m1) = length (sm_shards m)"
    "\<And>j. j < length (sm_shards m) \<Longrightarrow> sm_shards m1 ! j = filter (\<lambda>(_, s). \<not> dead s) (sm_shards m ! j)"
    "r = (\<Sum>j\<leftarrow>[0..<length (sm_shards m)]. length (filter (dead \<circ> snd) (sm_shards m ! j)))"
    using sweep_shards_effect [OF _ _ m1(1)] by auto
  then have idx: "get_shard_idx m' i = get_shard_idx m i" by (auto simp: get_shard_idx_def shards)
  show "get_session i m' = Some (Some s) \<longleftrightarrow> get_session i m = Some (Some s) \<and> \<not> dead s"
    using get_filtered [of "sm_shards m ! the (get_shard_idx m i)" i dead s] wf_placed [OF assms(1)] shard_idx [of m i]
    by (cases "get_shard_idx m i") (auto simp: get_session_def idx shards eff placed_def)
  have len: "length (session_ids m2) = (\<Sum>j\<leftarrow>[0..<length (sm_shards m2)]. length (sm_shards m2 ! j))" for m2 :: "'a session_manager"
  proof -
    have "length (session_ids m2) = sum_list (map length (sm_shards m2))" by (simp add: session_ids_def length_concat o_def)
    also have "map length (sm_shards m2) = map length (map ((!) (sm_shards m2)) [0..<length (sm_shards m2)])" by (simp only: map_nth)
    finally show ?thesis by (simp add: o_def)
  qed
  have part: "length sh = length (filter (dead \<circ> snd) sh) + length (filter (\<lambda>(_, s). \<not> dead s) sh)" for sh :: "(session_id \<times> 'a session) list"
    by (induction sh) auto
  have "map (\<lambda>j. length (sm_shards m ! j)) [0..<length (sm_shards m)] =
      map (\<lambda>j. length (filter (dead \<circ> snd) (sm_shards m ! j)) + length (sm_shards m1 ! j)) [0..<length (sm_shards m)]"
  proof (rule map_cong [OF refl])
    fix j
    assume "j \<in> set [0..<length (sm_shards m)]"
    then have "sm_shards m1 ! j = filter (\<lambda>(_, s). \<not> dead s) (sm_shards m ! j)" by (intro eff(2)) simp
    then show "length (sm_shards m ! j) = length (filter (dead \<circ> snd) (sm_shards m ! j)) + length (sm_shards m1 ! j)"
      using part by metis
  qed
  then have "length (session_ids m) = r + (\<Sum>j\<leftarrow>[0..<length (sm_shards m)]. length (sm_shards m1 ! j))"
    unfolding len [of m] eff(3) by (simp only: sum_list_addf)
  then show "length (session_ids m) = r + length (session_ids m')"
    unfolding len [of m'] shards eff(1) .
qed

text \<open>
  Reaping removes exactly the idle sessions.  After the sessions idle for longer than the time to live are
  reaped, a session is in the table exactly when it was and is not one of these, and the number returned is
  the number of those removed.
\<close>

theorem reap_exact:
  assumes "table_wf m" "reap_expired_at now m = (r, m')"
  shows "(get_session i m' = Some (Some s) \<longleftrightarrow> get_session i m = Some (Some s) \<and> now - last_activity s \<le> sm_session_ttl m) \<and>
    length (list_sessions m) = r + length (list_sessions m')"
  using sweep_exact(1) [OF assms(1), of "expired now (sm_session_ttl m)" r m' i s]
    sweep_exact(2) [OF assms(1), of "expired now (sm_session_ttl m)" r m'] assms(2)
  by (auto simp: reap_expired_at_def expired_def list_sessions_def)

theorem reap_exact_witness:
  "\<exists>m r m'. create_session sample_session_env (manager_new [] 10) = Some (Inr 1, m) \<and>
    reap_expired_at 0 m = (r, m') \<and> length (list_sessions m) = r + length (list_sessions m')"
proof -
  obtain m :: "byte list session_manager" where m: "create_session sample_session_env (manager_new [] 10) = Some (Inr 1, m)"
    and run: "manager_run (manager_new [] 10) 0 (manager_new [] 10 :: byte list session_manager) {#}" by (rule sample_created)
  from create_session_run [OF run m [unfolded create_session_def]] obtain n where n: "n \<le> 1" "manager_run (manager_new [] 10) n m {#}" by auto
  have "table_wf (manager_new [] 10 :: byte list session_manager)"
    by (simp add: table_wf_def placed_def manager_new_def with_limits_and_wal_def with_limits_and_wal_and_fsync_def
        with_limits_and_wal_full_def with_limits_and_wal_and_auto_verify_def bt_new_def Let_def)
  then have "table_wf m" using manager_invD(3) [OF manager_run_inv [OF _ _ _ _ n(2)]] n(1) by (simp add: manager_new_fresh)
  moreover obtain r m' where "reap_expired_at 0 m = (r, m')" by fastforce
  ultimately show ?thesis using reap_exact m by blast
qed

end
