(* ===== verification/RuleValidation.thy ===== *)
theory RuleValidation
  imports Transition Wal
begin

text \<open>
  The check of rule sets before they are used, \<open>evorule-governance/src/rule_validation.rs\<close>: the static checks,
  which decide, and the analysis of risks, which only warns.  The debug print of a value, whose length is
  compared with a bound, is a parameter.

  Shown is what an accepted rule set is good for: its rules run in the engine without an error about an unknown
  instruction, an unknown operation or too many rules, when the instructions nested in its branches pass the
  same checks, which the validator does not make; and that the limit on nesting is exact, one level above
  that of the engine.
\<close>

section \<open>Results\<close>

definition VALID_TRANSFORM_TYPES :: "string list" where
  "VALID_TRANSFORM_TYPES = [''branch'', ''set'', ''push'', ''io_request'']"

definition BRANCH_REQUIRED :: "string list" where
  "BRANCH_REQUIRED = [''domain'']"

definition SET_REQUIRED :: "string list" where
  "SET_REQUIRED = [''attr'', ''operation'', ''value'']"

definition PUSH_REQUIRED :: "string list" where
  "PUSH_REQUIRED = [''instructions'']"

definition IO_REQUEST_REQUIRED :: "string list" where
  "IO_REQUEST_REQUIRED = [''io_type'']"

definition VALID_OPERATIONS :: "string list" where
  "VALID_OPERATIONS = [''set'', ''add'', ''sub'']"

definition RV_MAX_TRANSFORM_RULES :: usize where
  "RV_MAX_TRANSFORM_RULES = 128"

definition MAX_NESTING_DEPTH :: usize where
  "MAX_NESTING_DEPTH = 64"

definition MAX_IO_PARAMS_SIZE :: usize where
  "MAX_IO_PARAMS_SIZE = 1024 * 10"

definition INFINITE_LOOP_DEPTH_THRESHOLD :: usize where
  "INFINITE_LOOP_DEPTH_THRESHOLD = 5"

record validation_check =
  vc_name :: string
  vc_passed :: bool
  vc_level :: string
  vc_message :: string
  vc_index :: int

record static_validation =
  st_checks :: "validation_check list"
  st_error_count :: usize
  st_warn_count :: usize

record security_analysis =
  sa_checks :: "validation_check list"
  sa_risk_count :: usize
  sa_risk_level :: string

record validation_summary =
  su_total_transforms :: usize
  su_total_errors :: usize
  su_total_warnings :: usize
  su_total_risks :: usize

record validation_result =
  vr_passed :: bool
  vr_static :: static_validation
  vr_security :: security_analysis
  vr_summary :: validation_summary

text \<open>\<open>t.get(k).and_then(as_str)\<close>, a parameter, an array parameter, and the join of strings.\<close>

definition str_at :: "string \<Rightarrow> json \<Rightarrow> string option" where
  "str_at k t = do { v \<leftarrow> json_get k t; as_str v }"

definition param_at :: "string \<Rightarrow> json \<Rightarrow> json option" where
  "param_at k t = do { p \<leftarrow> json_get ''params'' t; json_get k p }"

definition children_at :: "string \<Rightarrow> json \<Rightarrow> json list option" where
  "children_at k t = do { v \<leftarrow> param_at k t; as_array v }"

fun join_with :: "string \<Rightarrow> string list \<Rightarrow> string" where
  "join_with sep [] = []"
| "join_with sep [s] = s"
| "join_with sep (s # t # ts) = s @ sep @ join_with sep (t # ts)"

definition at_rule :: "int \<Rightarrow> string" where
  "at_rule idx = ''transform['' @ dec_int idx @ '']''"

section \<open>The static checks\<close>

definition check_transform_count :: "json list \<Rightarrow> validation_check" where
  "check_transform_count transforms =
     (let ok = (length transforms \<le> RV_MAX_TRANSFORM_RULES) in
      \<lparr>vc_name = ''transform_count_limit'', vc_passed = ok, vc_level = (if ok then ''info'' else ''error''),
       vc_message = ''Transform '' @ (utf8 [230, 149, 176, 233, 135, 143]) @ '': '' @ dec_nat (length transforms) @ '' ('' @ (utf8 [228, 184, 138, 233, 153, 144]) @ '': '' @ dec_nat RV_MAX_TRANSFORM_RULES @ '', ''
         @ (if ok then (utf8 [229, 144, 136, 232, 167, 132]) else (utf8 [232, 182, 133, 229, 135, 186, 233, 153, 144, 229, 136, 182])) @ '')'',
       vc_index = -1\<rparr>)"

definition check_type_exists :: "json \<Rightarrow> int \<Rightarrow> validation_check" where
  "check_type_exists t idx =
     (let has_type = (str_at ''type'' t \<noteq> None) in
      \<lparr>vc_name = ''type_exists'', vc_passed = has_type, vc_level = (if has_type then ''info'' else ''error''),
       vc_message = (if has_type then at_rule idx @ '' '' @ (utf8 [231, 154, 132]) @ '' type '' @ (utf8 [229, 173, 151, 230, 174, 181, 229, 173, 152, 229, 156, 168])
                     else at_rule idx @ '' '' @ (utf8 [231, 188, 186, 229, 176, 145]) @ '' '' @ squote ''type'' @ '' '' @ (utf8 [229, 173, 151, 230, 174, 181])),
       vc_index = idx\<rparr>)"

definition check_type_valid :: "string \<Rightarrow> int \<Rightarrow> validation_check" where
  "check_type_valid type_str idx =
     (let valid = (type_str \<in> set VALID_TRANSFORM_TYPES) in
      \<lparr>vc_name = ''type_valid'', vc_passed = valid, vc_level = (if valid then ''info'' else ''error''),
       vc_message =
         (if valid then at_rule idx @ '' '' @ (utf8 [231, 154, 132]) @ '' type '' @ squote type_str @ '' '' @ (utf8 [230, 152, 175, 229, 144, 136, 230, 179, 149, 229, 133, 131, 230, 140, 135, 228, 187, 164])
          else at_rule idx @ '' '' @ (utf8 [231, 154, 132]) @ '' type '' @ squote type_str @ '' '' @ (utf8 [228, 184, 141, 229, 156, 168, 231, 153, 189, 229, 144, 141, 229, 141, 149, 228, 184, 173]) @ '' ('' @ (utf8 [229, 144, 136, 230, 179, 149, 229, 128, 188]) @ '': ''
            @ join_with '', '' VALID_TRANSFORM_TYPES @ '')''),
       vc_index = idx\<rparr>)"

definition required_params :: "string \<Rightarrow> string list option" where
  "required_params type_str =
     (if type_str = ''branch'' then Some BRANCH_REQUIRED
      else if type_str = ''set'' then Some SET_REQUIRED
      else if type_str = ''push'' then Some PUSH_REQUIRED
      else if type_str = ''io_request'' then Some IO_REQUEST_REQUIRED
      else None)"

definition bad_operation :: "json \<Rightarrow> string \<Rightarrow> string list" where
  "bad_operation t type_str =
     (if type_str = ''set'' then
        (case do { v \<leftarrow> param_at ''operation'' t; as_str v } of
           Some op \<Rightarrow>
             if op \<in> set VALID_OPERATIONS then []
             else [''operation '' @ squote op @ '' '' @ (utf8 [228, 184, 141, 229, 156, 168, 229, 144, 136, 230, 179, 149, 229, 128, 188, 228, 184, 173]) @ '' ('' @ join_with '', '' VALID_OPERATIONS @ '')'']
         | None \<Rightarrow> [])
      else [])"

definition large_params :: "(json \<Rightarrow> string) \<Rightarrow> json \<Rightarrow> string \<Rightarrow> string list" where
  "large_params dbg t type_str =
     (if type_str = ''io_request'' then
        (case json_get ''params'' t of
           Some params \<Rightarrow>
             if length (dbg params) > MAX_IO_PARAMS_SIZE
             then [''io_request '' @ (utf8 [229, 143, 130, 230, 149, 176, 232, 191, 135, 229, 164, 167]) @ '': '' @ dec_nat (length (dbg params)) @ '' '' @ (utf8 [229, 173, 151, 232, 138, 130]) @ '' ('' @ (utf8 [228, 184, 138, 233, 153, 144]) @ '': '' @ dec_nat MAX_IO_PARAMS_SIZE @ '' '' @ (utf8 [229, 173, 151, 232, 138, 130]) @ '')'']
             else []
         | None \<Rightarrow> [])
      else [])"

definition check_params_complete :: "(json \<Rightarrow> string) \<Rightarrow> json \<Rightarrow> string \<Rightarrow> int \<Rightarrow> validation_check" where
  "check_params_complete dbg t type_str idx =
     (case required_params type_str of
        None \<Rightarrow>
          \<lparr>vc_name = ''params_complete'', vc_passed = True, vc_level = ''info'',
           vc_message = at_rule idx @ '' '' @ (utf8 [231, 154, 132]) @ '' type '' @ squote type_str @ '' '' @ (utf8 [230, 151, 160, 233, 156, 128, 230, 160, 161, 233, 170, 140, 229, 143, 130, 230, 149, 176]), vc_index = idx\<rparr>
      | Some required \<Rightarrow>
          (let missing = filter (\<lambda>k. param_at k t = None) required;
               op_checks = (if missing = [] then bad_operation t type_str else []);
               io_checks = (if missing = [] then large_params dbg t type_str else []);
               extra = op_checks @ io_checks;
               ok = (missing = [] \<and> extra = []);
               msg_parts = (if missing = [] then [] else [(utf8 [231, 188, 186, 229, 176, 145, 229, 191, 133, 229, 161, 171, 229, 143, 130, 230, 149, 176]) @ '': '' @ join_with '', '' missing]) @ extra in
           \<lparr>vc_name = ''params_complete'', vc_passed = ok,
            vc_level = (if ok then ''info''
                        else if missing \<noteq> [] \<or> io_checks \<noteq> [] \<or> op_checks \<noteq> [] then ''error''
                        else ''warn''),
            vc_message = (if msg_parts = [] then at_rule idx @ '' '' @ (utf8 [231, 154, 132]) @ '' params '' @ (utf8 [229, 143, 130, 230, 149, 176, 229, 174, 140, 229, 164, 135])
                          else at_rule idx @ '': '' @ join_with ''; '' msg_parts),
            vc_index = idx\<rparr>))"

lemma size_children_at: "children_at k t = Some cs \<Longrightarrow> size_list size cs < size t"
  by (auto simp: children_at_def param_at_def bind_eq_Some_conv dest!: size_json_get size_as_array)

function (sequential) check_branch_nested :: "json \<Rightarrow> int \<Rightarrow> usize \<Rightarrow> validation_check list"
  and nested_children :: "json list \<Rightarrow> int \<Rightarrow> usize \<Rightarrow> validation_check list"
where
  "check_branch_nested t idx depth =
     (if depth > MAX_NESTING_DEPTH
      then [\<lparr>vc_name = ''nesting_depth'', vc_passed = False, vc_level = ''error'',
             vc_message = at_rule idx @ '' '' @ (utf8 [231, 154, 132, 229, 181, 140, 229, 165, 151, 230, 183, 177, 229, 186, 166, 232, 182,
       133, 232, 191, 135]) @ '' '' @ dec_nat MAX_NESTING_DEPTH @ '' '' @ (utf8 [229, 177, 130]), vc_index = idx\<rparr>]
      else
        (case children_at ''on_true'' t of Some cs \<Rightarrow> nested_children cs idx (depth + 1) | None \<Rightarrow> []) @
        (case children_at ''on_false'' t of Some cs \<Rightarrow> nested_children cs idx (depth + 1) | None \<Rightarrow> []))"
| "nested_children [] idx depth = []"
| "nested_children (child # cs) idx depth =
     (if str_at ''type'' child = Some ''branch'' then check_branch_nested child idx depth else []) @ nested_children cs idx depth"
  by pat_completeness auto
termination
  by (relation "measure (\<lambda>x. case x of Inl (t, _) \<Rightarrow> 2 * size t + 1 | Inr (cs, _) \<Rightarrow> 2 * size_list size cs)")
    (auto dest!: size_children_at)

declare check_branch_nested.simps [simp del]

text \<open>The index of a rule, cast to 32 bits.\<close>

definition rule_index :: "nat \<Rightarrow> int" where
  "rule_index i = signed_take_bit 31 (int i)"

definition check_rule :: "(json \<Rightarrow> string) \<Rightarrow> nat \<Rightarrow> json \<Rightarrow> validation_check list" where
  "check_rule dbg i t =
     (let idx = rule_index i in
      check_type_exists t idx #
      (case str_at ''type'' t of
         Some type_str \<Rightarrow> [check_type_valid type_str idx, check_params_complete dbg t type_str idx]
       | None \<Rightarrow> []) @
      (if str_at ''type'' t = Some ''branch'' then check_branch_nested t idx 0 else []))"

definition perform_static_validation :: "(json \<Rightarrow> string) \<Rightarrow> json list \<Rightarrow> validation_check list" where
  "perform_static_validation dbg transforms =
     check_transform_count transforms #
     (if transforms = []
      then [\<lparr>vc_name = ''non_empty'', vc_passed = False, vc_level = ''error'',
             vc_message = ''Transform '' @ (utf8 [229, 136, 151, 232, 161, 168, 228, 184, 186, 231, 169, 186, 239, 188, 140, 232, 135,
       179, 229, 176, 145, 233, 156, 128, 232, 166, 129, 228, 184, 128, 230, 157, 161, 232, 167,
       132, 229, 136, 153]), vc_index = -1\<rparr>]
      else concat (map (\<lambda>(i, t). check_rule dbg i t) (zip [0..<length transforms] transforms)))"

section \<open>The analysis of risks\<close>

definition warn_check :: "string \<Rightarrow> bool \<Rightarrow> string \<Rightarrow> validation_check" where
  "warn_check name risk msg =
     \<lparr>vc_name = name, vc_passed = \<not> risk, vc_level = (if risk then ''warn'' else ''info''), vc_message = msg, vc_index = -1\<rparr>"

definition loop_domain :: "json \<Rightarrow> bool" where
  "loop_domain t =
     (case param_at ''domain'' t of
        None \<Rightarrow> False
      | Some domain \<Rightarrow>
          str_at ''type'' domain = Some ''instruction'' \<and>
          Option.bind (str_at ''instruction_type'' domain) control_flow_parse = Some WhileLoop)"

function (sequential) collect_loop_risk_signals :: "json list \<Rightarrow> bool \<times> bool \<Rightarrow> bool \<times> bool" where
  "collect_loop_risk_signals [] acc = acc"
| "collect_loop_risk_signals (t # ts) (has_loop, has_change) =
     (if str_at ''type'' t = Some ''branch'' then
        (let a0 = (has_loop \<or> loop_domain t, has_change);
             a1 = (case children_at ''on_true'' t of Some sub \<Rightarrow> collect_loop_risk_signals sub a0 | None \<Rightarrow> a0);
             a2 = (case children_at ''on_false'' t of Some sub \<Rightarrow> collect_loop_risk_signals sub a1 | None \<Rightarrow> a1) in
         collect_loop_risk_signals ts a2)
      else collect_loop_risk_signals ts (has_loop, has_change \<or> str_at ''type'' t = Some ''set''))"
  by pat_completeness auto
termination
  by (relation "measure (\<lambda>(ts, _). size_list size ts)") (auto dest!: size_children_at)

definition check_infinite_loop_risk :: "json list \<Rightarrow> validation_check" where
  "check_infinite_loop_risk transforms =
     (let (has_loop, has_change) = collect_loop_risk_signals transforms (False, False);
          risk = (has_loop \<and> \<not> has_change) in
      warn_check ''infinite_loop'' risk
        (if risk then (utf8 [230, 163, 128, 230, 181, 139, 229, 136, 176] @ '' while_loop '' @
     utf8 [228, 189, 134, 230, 156, 170, 230, 137, 190, 229, 136, 176, 231, 138, 182, 230, 128,
       129, 229, 143, 152, 230, 155, 180, 230, 140, 135, 228, 187, 164] @ '' (set)'' @
     utf8 [239, 188, 140, 229, 143, 175, 232, 131, 189, 229, 175, 188, 232, 135, 180, 230, 151,
       160, 233, 153, 144, 229, 190, 170, 231, 142, 175])
         else if has_loop then (''while_loop '' @
     utf8 [229, 173, 152, 229, 156, 168, 233, 133, 141, 229, 165, 151, 231, 154, 132, 231, 138,
       182, 230, 128, 129, 229, 143, 152, 230, 155, 180, 230, 140, 135, 228, 187, 164, 239, 188,
       140, 229, 190, 170, 231, 142, 175, 229, 143, 175, 231, 187, 136, 230, 173, 162])
         else (utf8 [230, 156, 170, 230, 163, 128, 230, 181, 139, 229, 136, 176] @ '' while_loop '' @
     utf8 [230, 140, 135, 228, 187, 164])))"

function (sequential) measure_nesting_depth :: "json \<Rightarrow> usize \<Rightarrow> usize"
  and nesting_children :: "json list \<Rightarrow> usize \<Rightarrow> usize \<Rightarrow> usize"
where
  "measure_nesting_depth t depth =
     (let m1 = (case children_at ''on_true'' t of Some cs \<Rightarrow> nesting_children cs depth depth | None \<Rightarrow> depth) in
      case children_at ''on_false'' t of Some cs \<Rightarrow> nesting_children cs depth m1 | None \<Rightarrow> m1)"
| "nesting_children [] depth mx = mx"
| "nesting_children (child # cs) depth mx =
     nesting_children cs depth
       (if str_at ''type'' child = Some ''branch'' then max mx (measure_nesting_depth child (depth + 1)) else mx)"
  by pat_completeness auto
termination
  by (relation "measure (\<lambda>x. case x of Inl (t, _) \<Rightarrow> 2 * size t + 1 | Inr (cs, _) \<Rightarrow> 2 * size_list size cs)")
    (auto dest!: size_children_at)

declare measure_nesting_depth.simps [simp del]

definition check_recursive_nesting :: "json list \<Rightarrow> validation_check" where
  "check_recursive_nesting transforms =
     (let max_depth = foldl (\<lambda>mx t. if str_at ''type'' t = Some ''branch'' then max mx (measure_nesting_depth t 0) else mx) 0 transforms;
          risk = (max_depth \<ge> INFINITE_LOOP_DEPTH_THRESHOLD) in
      warn_check ''recursive_nesting'' risk
        ((utf8 [230, 156, 128, 229, 164, 167, 229, 181, 140, 229, 165, 151, 230, 183, 177, 229, 186, 166]) @ '': '' @ dec_nat max_depth @ '' '' @ (utf8 [229, 177, 130]) @
         (if risk then '' ('' @ (utf8 [232, 182, 133, 232, 191, 135, 233, 152, 136, 229, 128, 188]) @ '' '' @ dec_nat INFINITE_LOOP_DEPTH_THRESHOLD @ (utf8 [239, 188, 140, 229, 187, 186, 232, 174, 174, 230, 139, 134, 229, 136, 134]) @ '')'' else [])))"

function (sequential) count_io_in_loop_body :: "json \<Rightarrow> usize"
  and count_io_children :: "json list \<Rightarrow> usize"
where
  "count_io_in_loop_body t =
     (case children_at ''on_true'' t of Some cs \<Rightarrow> count_io_children cs | None \<Rightarrow> 0) +
     (case children_at ''on_false'' t of Some cs \<Rightarrow> count_io_children cs | None \<Rightarrow> 0)"
| "count_io_children [] = 0"
| "count_io_children (child # cs) =
     (if str_at ''type'' child = Some ''io_request'' then 1
      else if str_at ''type'' child = Some ''branch'' then count_io_in_loop_body child
      else 0) + count_io_children cs"
  by pat_completeness auto
termination
  by (relation "measure (\<lambda>x. case x of Inl t \<Rightarrow> 2 * size t + 1 | Inr cs \<Rightarrow> 2 * size_list size cs)")
    (auto dest!: size_children_at)

declare count_io_in_loop_body.simps [simp del]

definition check_unbounded_io :: "json list \<Rightarrow> validation_check" where
  "check_unbounded_io transforms =
     (let n = sum_list (map (\<lambda>t. if str_at ''type'' t = Some ''branch'' then count_io_in_loop_body t else 0) transforms);
          risk = (n > 0) in
      warn_check ''unbounded_io'' risk
        (if risk then (utf8 [230, 163, 128, 230, 181, 139, 229, 136, 176]) @ '' '' @ dec_nat n @ '' '' @ (utf8 [229, 164, 132] @ '' io_request '' @
     utf8 [229, 143, 175, 232, 131, 189, 229, 156, 168, 229, 190, 170, 231, 142, 175, 228, 189,
       147, 229, 134, 133, 230, 137, 167, 232, 161, 140, 239, 188, 140, 229, 143, 175, 232, 131,
       189, 229, 175, 188, 232, 135, 180, 230, 151, 160, 233, 153, 144, 229, 136, 182] @
     '' I/O '' @ utf8 [232, 176, 131, 231, 148, 168])
         else (utf8 [230, 156, 170, 230, 163, 128, 230, 181, 139, 229, 136, 176, 229, 190, 170, 231, 142,
       175, 228, 189, 147, 229, 134, 133, 231, 154, 132] @ '' io_request'')))"

definition cleans_up :: "json \<Rightarrow> bool" where
  "cleans_up t \<longleftrightarrow> str_at ''type'' t = Some ''set'' \<and>
     (case param_at ''value'' t of Some v \<Rightarrow> is_array v \<or> is_null v | None \<Rightarrow> False)"

definition check_payload_growth :: "json list \<Rightarrow> validation_check" where
  "check_payload_growth transforms =
     (let push_count = length (filter (\<lambda>t. str_at ''type'' t = Some ''push'') transforms);
          has_cleanup = list_ex cleans_up transforms;
          risk = (push_count > 3 \<and> \<not> has_cleanup) in
      warn_check ''payload_growth'' risk
        (if risk then (utf8 [230, 163, 128, 230, 181, 139, 229, 136, 176]) @ '' '' @ dec_nat push_count @ '' '' @ (utf8 [229, 164, 132] @ '' push '' @
     utf8 [230, 140, 135, 228, 187, 164, 228, 189, 134, 230, 156, 170, 230, 137, 190, 229, 136,
       176, 230, 184, 133, 231, 144, 134, 230, 147, 141, 228, 189, 156, 239, 188, 140, 229, 143,
       175, 232, 131, 189, 229, 175, 188, 232, 135, 180] @ '' payload '' @
     utf8 [230, 151, 160, 231, 149, 140, 229, 162, 158, 233, 149, 191])
         else (''push '' @ utf8 [230, 140, 135, 228, 187, 164]) @ '' '' @ dec_nat push_count @ '' '' @ (utf8 [229, 164, 132]) @ (if has_cleanup then (utf8 [239, 188, 140, 230, 156, 137, 233, 133, 141, 229, 165, 151, 230, 184, 133, 231, 144,
       134, 230, 147, 141, 228, 189, 156]) else [])))"

definition self_references :: "nat \<times> json \<Rightarrow> string list" where
  "self_references it =
     (case it of (i, t) \<Rightarrow>
        if str_at ''type'' t = Some ''branch'' then
          (case param_at ''domain'' t of
             None \<Rightarrow> []
           | Some domain \<Rightarrow>
               if str_at ''type'' domain = Some ''instruction'' then
                 (case (str_at ''instruction_type'' domain, children_at ''on_true'' t) of
                    (Some inst_type, Some on_true) \<Rightarrow>
                      concat (map (\<lambda>child. case str_at ''type'' child of
                          Some child_type \<Rightarrow>
                            if child_type = inst_type \<or> child_type = ''branch''
                            then [''transform['' @ dec_nat i @ ''] '' @ (utf8 [229, 140, 185, 233, 133, 141]) @ '' '' @ squote inst_type @ '' '' @ (utf8 [228, 189, 134, 228, 189, 147, 229, 134, 133, 229, 140, 133, 229, 144, 171, 229, 144,
       140, 231, 177, 187, 229, 158, 139, 230, 140, 135, 228, 187, 164])]
                            else []
                        | None \<Rightarrow> []) on_true)
                  | _ \<Rightarrow> [])
               else [])
        else [])"

definition check_self_reference :: "json list \<Rightarrow> validation_check" where
  "check_self_reference transforms =
     (let self_refs = concat (map self_references (zip [0..<length transforms] transforms)) in
      warn_check ''self_reference'' (self_refs \<noteq> [])
        (if self_refs \<noteq> [] then (utf8 [230, 163, 128, 230, 181, 139, 229, 136, 176, 232, 135, 170, 229, 188, 149, 231, 148,
       168, 233, 163, 142, 233, 153, 169]) @ '': '' @ join_with ''; '' self_refs else (utf8 [230, 156, 170, 230, 163, 128, 230, 181, 139, 229, 136, 176, 232, 135, 170, 229, 188,
       149, 231, 148, 168])))"

definition perform_security_analysis :: "json list \<Rightarrow> validation_check list" where
  "perform_security_analysis transforms =
     [check_infinite_loop_risk transforms, check_recursive_nesting transforms, check_unbounded_io transforms,
      check_payload_growth transforms, check_self_reference transforms]"

section \<open>The entry points\<close>

definition at_level :: "string \<Rightarrow> validation_check list \<Rightarrow> nat" where
  "at_level l cs = length (filter (\<lambda>c. vc_level c = l) cs)"

definition validate_rules :: "(json \<Rightarrow> string) \<Rightarrow> json list \<Rightarrow> validation_result" where
  "validate_rules dbg transforms =
     (let static_checks = perform_static_validation dbg transforms;
          errors = at_level ''error'' static_checks;
          warns = at_level ''warn'' static_checks;
          security_checks = perform_security_analysis transforms;
          risk_count = at_level ''error'' security_checks + at_level ''warn'' security_checks;
          total_warnings = warns + at_level ''warn'' security_checks;
          risk_level = (if errors > 0 \<or> risk_count > 3 then ''high'' else if total_warnings > 0 then ''medium'' else ''low'') in
      \<lparr>vr_passed = (errors = 0),
       vr_static = \<lparr>st_checks = static_checks, st_error_count = errors, st_warn_count = warns\<rparr>,
       vr_security = \<lparr>sa_checks = security_checks, sa_risk_count = risk_count, sa_risk_level = risk_level\<rparr>,
       vr_summary = \<lparr>su_total_transforms = length transforms, su_total_errors = errors,
                     su_total_warnings = total_warnings, su_total_risks = risk_count\<rparr>\<rparr>)"

definition extract_transforms :: "serde \<Rightarrow> string + serde list" where
  "extract_transforms j =
     (case j of
        SObject m \<Rightarrow>
          (case Option.bind (bt_get ''transform'' m) s_as_array of
             Some arr \<Rightarrow> Inr arr
           | None \<Rightarrow>
               (case Option.bind (bt_get ''transforms'' m) s_as_array of
                  Some arr \<Rightarrow> Inr arr
                | None \<Rightarrow> Inr [j]))
      | SArray arr \<Rightarrow> Inr arr
      | _ \<Rightarrow> Inl ((''JSON '' @
     utf8 [229, 191, 133, 233, 161, 187, 230, 152, 175, 229, 175, 185, 232, 177, 161, 230, 136,
       150, 230, 149, 176, 231, 187, 132])))"

definition validate_rules_from_json :: "(string \<Rightarrow> string + serde) \<Rightarrow> (json \<Rightarrow> string) \<Rightarrow> string \<Rightarrow> string + validation_result" where
  "validate_rules_from_json de dbg json_str =
     and_then (map_err (\<lambda>e. (''JSON '' @ utf8 [232, 167, 163, 230, 158, 144, 229, 164, 177, 232, 180, 165]) @ '': '' @ e) (de json_str)) (\<lambda>parsed.
     map_ok (\<lambda>ts. validate_rules dbg (map serde_to_tcb ts)) (extract_transforms parsed))"

section \<open>What an accepted rule is\<close>

text \<open>
  A rule the static checks accept on its own: a known type, the required parameters, and for \<open>set\<close> no
  unknown operation.  \<open>typed_rule\<close> asks the same of the instructions nested in its branches.
\<close>

definition rule_ok :: "json \<Rightarrow> bool" where
  "rule_ok t =
     (case str_at ''type'' t of
        None \<Rightarrow> False
      | Some ty \<Rightarrow>
          ty \<in> set VALID_TRANSFORM_TYPES \<and>
          list_all (\<lambda>k. param_at k t \<noteq> None) (unwrap_or [] (required_params ty)) \<and> bad_operation t ty = [])"

function (sequential) typed_rule :: "json \<Rightarrow> bool"
  and typed_rules :: "json list \<Rightarrow> bool"
where
  "typed_rule t \<longleftrightarrow> rule_ok t \<and>
     (case children_at ''on_true'' t of Some cs \<Rightarrow> typed_rules cs | None \<Rightarrow> True) \<and>
     (case children_at ''on_false'' t of Some cs \<Rightarrow> typed_rules cs | None \<Rightarrow> True)"
| "typed_rules [] \<longleftrightarrow> True"
| "typed_rules (c # cs) \<longleftrightarrow> typed_rule c \<and> typed_rules cs"
  by pat_completeness auto
termination
  by (relation "measure (\<lambda>x. case x of Inl t \<Rightarrow> 2 * size t + 1 | Inr cs \<Rightarrow> 2 * size_list size cs)")
    (auto dest!: size_children_at)

declare typed_rule.simps [simp del]

definition typed_children :: "json \<Rightarrow> bool" where
  "typed_children t \<longleftrightarrow>
     (\<forall>k \<in> {''on_true'', ''on_false''}. case children_at k t of Some cs \<Rightarrow> typed_rules cs | None \<Rightarrow> True)"

lemma typed_rules_iff: "typed_rules cs \<longleftrightarrow> (\<forall>c \<in> set cs. typed_rule c)"
  by (induction cs) auto

lemma typed_rule_iff: "typed_rule t \<longleftrightarrow> rule_ok t \<and> typed_children t"
  by (auto simp: typed_rule.simps [of t] typed_children_def)

lemma at_level_0: "at_level l cs = 0 \<longleftrightarrow> (\<forall>c \<in> set cs. vc_level c \<noteq> l)"
  by (auto simp: at_level_def filter_empty_conv)

lemma check_rule_ok:
  assumes "\<forall>c \<in> set (check_rule dbg i t). vc_level c \<noteq> ''error''"
  shows "rule_ok t"
proof -
  have "str_at ''type'' t \<noteq> None"
    using assms by (auto simp: check_rule_def Let_def check_type_exists_def split: if_splits)
  then obtain ty where ty: "str_at ''type'' t = Some ty" by blast
  then have v: "vc_level (check_type_valid ty (rule_index i)) \<noteq> ''error''"
    and p: "vc_level (check_params_complete dbg t ty (rule_index i)) \<noteq> ''error''"
    using assms by (auto simp: check_rule_def Let_def)
  have valid: "ty \<in> set VALID_TRANSFORM_TYPES"
    using v by (auto simp: check_type_valid_def Let_def split: if_splits)
  show ?thesis
  proof (cases "required_params ty")
    case None
    then show ?thesis using valid by (auto simp: required_params_def VALID_TRANSFORM_TYPES_def split: if_splits)
  next
    case (Some required)
    with p have "filter (\<lambda>k. param_at k t = None) required = []" "bad_operation t ty = []"
      by (auto simp: check_params_complete_def Let_def split: if_splits)
    then show ?thesis using ty valid Some by (auto simp: rule_ok_def list_all_iff filter_empty_conv)
  qed
qed

lemma accepted_rules:
  assumes "vr_passed (validate_rules dbg rules)"
  shows "length rules \<le> MAX_TRANSFORM_RULES" "rules \<noteq> []" "\<forall>t \<in> set rules. rule_ok t"
proof -
  have all: "\<forall>c \<in> set (perform_static_validation dbg rules). vc_level c \<noteq> ''error''"
    using assms by (simp add: validate_rules_def Let_def at_level_0)
  then show "length rules \<le> MAX_TRANSFORM_RULES"
    by (auto simp: perform_static_validation_def check_transform_count_def Let_def RV_MAX_TRANSFORM_RULES_def
        MAX_TRANSFORM_RULES_def split: if_splits)
  show ne: "rules \<noteq> []"
    using all by (auto simp: perform_static_validation_def)
  show "\<forall>t \<in> set rules. rule_ok t"
  proof
    fix t
    assume "t \<in> set rules"
    then obtain i where i: "i < length rules" "rules ! i = t" by (auto simp: in_set_conv_nth)
    then have "(i, t) \<in> set (zip [0..<length rules] rules)"
      by (auto simp: set_zip intro!: exI [of _ i])
    then have "set (check_rule dbg i t) \<subseteq> set (perform_static_validation dbg rules)"
      using ne by (force simp: perform_static_validation_def)
    with all check_rule_ok show "rule_ok t" by blast
  qed
qed

section \<open>The errors of the engine\<close>

text \<open>The errors the static checks are meant to exclude, and the runs that never end in one of them.\<close>

fun instruction_fault :: "tcb_error \<Rightarrow> bool" where
  "instruction_fault (UnknownMetaInstruction _) \<longleftrightarrow> True"
| "instruction_fault (UnknownOperation _) \<longleftrightarrow> True"
| "instruction_fault (TooManyTransformRules _ _) \<longleftrightarrow> True"
| "instruction_fault (MissingField f) \<longleftrightarrow> f \<in> {''params'', ''attr''}"
| "instruction_fault _ \<longleftrightarrow> False"

definition faultless :: "'a tcb \<Rightarrow> bool" where
  "faultless m \<longleftrightarrow> (\<forall>e. m = Inl e \<longrightarrow> \<not> instruction_fault e)"

named_theorems faultless_intros \<open>runs that end without an instruction fault\<close>

lemma faultless_combinators [simp]:
  "faultless (Inr x)" "faultless (Inl e) \<longleftrightarrow> \<not> instruction_fault e" "faultless (map_ok f m) \<longleftrightarrow> faultless m"
  "faultless (ok_or e v) \<longleftrightarrow> v \<noteq> None \<or> \<not> instruction_fault e"
  by (auto simp: faultless_def result_simps)

lemma faultless_and_then [faultless_intros]:
  "faultless m \<Longrightarrow> (\<And>x. m = Inr x \<Longrightarrow> faultless (f x)) \<Longrightarrow> faultless (and_then m f)"
  by (auto simp: faultless_def result_simps)

lemma faultless_values [faultless_intros]:
  "faultless (resolve_path_or_literal s v)" "faultless (parse_on_missing d)" "faultless (dispatch_missing p r c)"
  "f \<notin> {''params'', ''attr''} \<Longrightarrow> faultless (get_str_field d f)"
  by (auto simp: resolve_path_or_literal_def parse_on_missing_def dispatch_missing_def get_str_field_def
      intro!: faultless_intros split: option.splits json.splits on_missing_policy.splits)

lemma faultless_leaves [faultless_intros]:
  "faultless (evaluate_eq_outcome d s)" "faultless (evaluate_lt_outcome d s)" "faultless (evaluate_in_outcome d s)"
  "faultless (evaluate_exists d s)" "faultless (evaluate_instruction_eq d s)"
  by (auto simp: evaluate_eq_outcome_def evaluate_lt_outcome_def evaluate_in_outcome_def evaluate_exists_def
      evaluate_instruction_eq_def Let_def intro!: faultless_intros split: sum.splits option.splits)

lemma faultless_has_fields_loop [faultless_intros]: "faultless (has_fields_loop obj fs)"
  by (induction fs) (auto intro!: faultless_intros split: option.splits)

lemma faultless_has_fields [faultless_intros]: "faultless (evaluate_has_fields d s)"
  by (auto simp: evaluate_has_fields_def intro!: faultless_intros split: option.splits)

lemma faultless_domains:
  "faultless (evaluate_domain_outcome_inner d s n)"
  "faultless (evaluate_all_outcome d s n)"
  "faultless (all_loop ds s n)"
  "faultless (evaluate_not_outcome d s n)"
proof (induction d s n and d s n and ds s n and d s n
    rule: evaluate_domain_outcome_inner_evaluate_all_outcome_all_loop_evaluate_not_outcome.induct)
  case (1 d s n)
  then show ?case
    by (subst evaluate_domain_outcome_inner.simps) (auto simp: not_less intro!: faultless_intros)
next
  case (2 d s n)
  then show ?case by (auto simp: evaluate_all_outcome.simps result_simps intro!: faultless_intros)
next
  case (4 d ds s n)
  then show ?case by (auto intro!: faultless_intros split: domain_outcome.splits)
next
  case (5 d s n)
  then show ?case by (auto simp: evaluate_not_outcome.simps result_simps intro!: faultless_intros)
qed simp

lemma faultless_domain [faultless_intros]: "faultless (evaluate_domain_outcome d s)"
  by (simp add: evaluate_domain_outcome_def faultless_domains)

lemma faultless_descend_field [faultless_intros]: "faultless (descend_field_segment c p n l segs i attr)"
  by (auto simp: descend_field_segment_def Let_def intro!: faultless_intros split: json.splits option.splits)

lemma faultless_descend_index [faultless_intros]: "faultless (descend_index_segment c p opt i l attr)"
  by (auto simp: descend_index_segment_def Let_def intro!: faultless_intros split: json.splits option.splits)

lemma faultless_descend [faultless_intros]: "faultless (descend_loop segs n attr i rest c p)"
  by (induction rest arbitrary: i c p)
    (auto simp: Let_def intro!: faultless_intros split: path_segment.splits descend_step.splits)

lemma faultless_set_attr [faultless_intros]: "faultless (set_attr s a)"
  by (auto simp: set_attr_def guarded_attr_def resolve_attr_from_state_def intro!: faultless_intros
      split: option.splits)

lemma faultless_operation [faultless_intros]:
  "operation \<in> set VALID_OPERATIONS \<Longrightarrow> faultless (apply_set_operation operation c v)"
  by (auto simp: apply_set_operation_def VALID_OPERATIONS_def intro!: faultless_intros)

lemma faultless_slot_current [faultless_intros]: "faultless (slot_current attr slot)"
  by (cases slot) auto

lemma faultless_set_in_payload [faultless_intros]:
  "operation \<in> set VALID_OPERATIONS \<Longrightarrow> faultless (set_in_payload attr segs operation v p)"
  by (auto simp: set_in_payload_def descend_to_write_slot_def intro!: faultless_intros)

lemma faultless_items [faultless_intros]: "faultless (resolve_items s items)"
  by (induction items) (auto intro!: faultless_intros split: json.splits)

lemma faultless_io_params [faultless_intros]: "faultless (io_params_loop s es ps)"
proof (induction s es ps rule: io_params_loop.induct)
  case (2 s key val es ps)
  then show ?case
    by (auto simp: resolve_path_or_literal_def ok_or_def Let_def
        split: option.splits sum.splits json.splits tcb_error.splits prod.splits)
qed simp

text \<open>The instructions of an accepted rule.\<close>

lemma rule_ok_params:
  "rule_ok t \<Longrightarrow> \<exists>ps ty. json_get ''params'' t = Some ps \<and> json_get ''type'' t = Some (String ty) \<and>
     ty \<in> set VALID_TRANSFORM_TYPES"
  by (auto simp: rule_ok_def required_params_def VALID_TRANSFORM_TYPES_def BRANCH_REQUIRED_def SET_REQUIRED_def
      PUSH_REQUIRED_def IO_REQUEST_REQUIRED_def param_at_def str_at_def bind_eq_Some_conv
      split: option.splits if_splits elim!: as_str.elims)

lemma faultless_set:
  assumes "rule_ok t" "json_get ''type'' t = Some (String ''set'')"
  shows "faultless (exec_set t s)"
proof -
  have ok: "param_at ''attr'' t \<noteq> None" "bad_operation t ''set'' = []"
    using assms by (auto simp: rule_ok_def required_params_def SET_REQUIRED_def str_at_def)
  then obtain ps a where ps: "json_get ''params'' t = Some ps" "json_get ''attr'' ps = Some a"
    by (auto simp: param_at_def bind_eq_Some_conv)
  have op: "op \<in> set VALID_OPERATIONS" if "json_get ''operation'' ps = Some v" "as_str v = Some op" for v op
    using ok(2) ps(1) that by (auto simp: bad_operation_def param_at_def split: if_splits)
  show ?thesis
    using ps op by (auto simp: exec_set_def result_simps bind_eq_Some_conv intro!: faultless_intros)
qed

lemma faultless_push: "json_get ''params'' t = Some ps \<Longrightarrow> faultless (exec_push t s)"
  by (auto simp: exec_push_def resolve_instructions_list_def intro!: faultless_intros)

lemma faultless_io: "json_get ''params'' t = Some ps \<Longrightarrow> faultless (exec_io_request t s)"
  by (auto simp: exec_io_request_def intro!: faultless_intros split: option.splits)

lemma typed_branch:
  assumes "typed_rule t" "json_get ''params'' t = Some ps" "k \<in> {''on_true'', ''on_false''}"
    "json_get k ps = Some v" "as_array v = Some cs"
  shows "typed_rules cs"
  using assms by (auto simp: typed_rule_iff typed_children_def children_at_def param_at_def)

lemma faultless_execute:
  "typed_rule t \<Longrightarrow> faultless (execute_meta_instruction_budgeted t s d b)"
  "typed_rule t \<Longrightarrow> faultless (exec_branch t s d b)"
  "typed_rules ts \<Longrightarrow> faultless (branch_loop ts s d b)"
proof (induction t s d b and t s d b and ts s d b
    rule: execute_meta_instruction_budgeted_exec_branch_branch_loop.induct)
  case (1 t s d b)
  then have ok: "rule_ok t" by (simp add: typed_rule_iff)
  then obtain ps ty where t: "json_get ''params'' t = Some ps" "json_get ''type'' t = Some (String ty)"
    "ty \<in> set VALID_TRANSFORM_TYPES" using rule_ok_params by blast
  show ?case
  proof (cases "b = 0")
    case False
    with t 1 faultless_set [OF ok] faultless_push [OF t(1)] faultless_io [OF t(1)] show ?thesis
      by (subst execute_meta_instruction_budgeted.simps) (auto simp: VALID_TRANSFORM_TYPES_def Let_def)
  qed (simp add: execute_meta_instruction_budgeted.simps)
next
  case (2 t s d b)
  then obtain ps where ps: "json_get ''params'' t = Some ps" using rule_ok_params typed_rule_iff by blast
  have loop: "faultless (branch_loop cs s (d + 1) b)"
    if "\<not> MAX_BRANCH_DEPTH \<le> d" "resolve_path_or_literal s (json_get ''domain'' ps) = Inr domain"
      "evaluate_domain_outcome domain s = Inr r" "json_get (if to_bool r then ''on_true'' else ''on_false'') ps = Some v"
      "as_array v = Some cs" for domain r v cs
    using 2(1) [of ps domain r _ "Some (attribution domain r)" cs, OF that(1) _ that(2,3) refl refl] that(4,5) ps
      typed_branch [OF 2(2) ps _ that(4,5)] by simp
  show ?case
    by (subst exec_branch.simps)
      (auto simp: ps Let_def intro!: faultless_intros loop [simplified] split: option.splits)
next
  case (4 t ts s d b)
  then show ?case by (auto intro!: faultless_intros split: meta_instruction_result.splits)
qed simp

lemma ok_not_enforce: "rule_ok t \<Longrightarrow> \<not> is_enforce t"
  by (auto simp: is_enforce_def type_or_unknown_def unwrap_or_def VALID_TRANSFORM_TYPES_def dest!: rule_ok_params)

lemma gate_skips: "\<forall>t \<in> set ts. \<not> is_enforce t \<Longrightarrow> enforce_gate i ts s b hs = Inr (GatePassed b hs)"
  by (induction ts arbitrary: i) (auto simp: enforce_gate.simps is_enforce_def Let_def)

lemma faultless_transforms: "\<forall>t \<in> set ts. typed_rule t \<Longrightarrow> faultless (transform_loop i ts s b hs)"
proof (induction ts arbitrary: i s b hs)
  case (Cons t ts)
  then show ?case
    by (auto simp: transform_loop.simps Let_def intro!: faultless_intros faultless_execute(1)
        split: meta_instruction_result.splits)
qed simp

lemma faultless_finish: "faultless (finish_transition ce i p q s hs)"
  by (auto simp: finish_transition_def Let_def intro!: faultless_intros)

lemma faultless_transition:
  assumes "length rules \<le> MAX_TRANSFORM_RULES" "\<forall>t \<in> set rules. typed_rule t"
  shows "faultless (execute_transition rules i p q)"
proof -
  have "\<forall>t \<in> set rules. \<not> is_enforce t" using assms(2) ok_not_enforce by (auto simp: typed_rule_iff)
  then show ?thesis
    using assms unfolding execute_transition_def
    by (auto simp: gate_skips Let_def intro!: faultless_intros faultless_transforms faultless_finish
        split: transform_result.splits)
qed

section \<open>Where the checks and the engine differ\<close>

definition always :: json where
  "always = Object [(''inner'', Array []), (''type'', String ''all'')]"

definition branch_on :: "json list \<Rightarrow> json" where
  "branch_on cs =
     Object [(''params'', Object [(''domain'', always), (''on_true'', Array cs)]), (''type'', String ''branch'')]"

text \<open>A branch with \<open>n\<close> further branches nested in it.\<close>

fun deep :: "nat \<Rightarrow> json" where
  "deep 0 = branch_on []"
| "deep (Suc n) = branch_on [deep n]"

lemma branch_on_fields [simp]:
  "json_get ''params'' (branch_on cs) = Some (Object [(''domain'', always), (''on_true'', Array cs)])"
  "json_get ''type'' (branch_on cs) = Some (String ''branch'')"
  "str_at ''type'' (branch_on cs) = Some ''branch''"
  "children_at ''on_true'' (branch_on cs) = Some cs" "children_at ''on_false'' (branch_on cs) = None"
  "param_at ''domain'' (branch_on cs) = Some always"
  by (simp_all add: branch_on_def str_at_def children_at_def param_at_def)

lemma always_sat [simp]:
  "evaluate_domain_outcome always s = Inr Sat" "resolve_path_or_literal s (Some always) = Inr always"
  by (simp_all add: evaluate_domain_outcome_def evaluate_domain_outcome_inner.simps evaluate_all_outcome.simps
      always_def get_str_field_def resolve_path_or_literal_def MAX_DOMAIN_DEPTH_def)

lemma deep_branch: "\<exists>cs. deep n = branch_on cs"
  by (cases n) auto

lemma deep_type [simp]: "str_at ''type'' (deep n) = Some ''branch''"
  using deep_branch [of n] by auto

lemma branch_checks:
  "(\<forall>c \<in> set (check_rule dbg i (branch_on cs)). vc_level c \<noteq> ''error'') \<longleftrightarrow>
   (\<forall>c \<in> set (check_branch_nested (branch_on cs) (rule_index i) 0). vc_level c \<noteq> ''error'')"
  by (auto simp: check_rule_def Let_def check_type_exists_def check_type_valid_def VALID_TRANSFORM_TYPES_def
      check_params_complete_def required_params_def BRANCH_REQUIRED_def bad_operation_def large_params_def)

lemma validate_one:
  "vr_passed (validate_rules dbg [t]) \<longleftrightarrow> (\<forall>c \<in> set (check_rule dbg 0 t). vc_level c \<noteq> ''error'')"
  by (auto simp: validate_rules_def Let_def at_level_0 perform_static_validation_def check_transform_count_def
      RV_MAX_TRANSFORM_RULES_def)

lemma deep_checked:
  "d \<le> Suc MAX_NESTING_DEPTH \<Longrightarrow>
   (\<forall>c \<in> set (check_branch_nested (deep n) idx d). vc_level c \<noteq> ''error'') \<longleftrightarrow> d + n \<le> MAX_NESTING_DEPTH"
proof (induction n arbitrary: d)
  case (Suc n)
  from Suc.IH [of "d + 1"] Suc.prems show ?case
    by (subst check_branch_nested.simps) (simp; auto)
qed (simp add: check_branch_nested.simps)

lemma deep_runs:
  assumes "d \<le> MAX_BRANCH_DEPTH" "MAX_BRANCH_DEPTH < d + b"
  shows "(\<exists>out. execute_meta_instruction_budgeted (deep n) s d b = Inr out \<and> result out = State s \<and> d + n < MAX_BRANCH_DEPTH) \<or>
    execute_meta_instruction_budgeted (deep n) s d b = Inl (NestingTooDeep MAX_BRANCH_DEPTH) \<and> MAX_BRANCH_DEPTH \<le> d + n"
  using assms
proof (induction n arbitrary: d b)
  case 0
  then show ?case by (simp add: execute_meta_instruction_budgeted.simps exec_branch.simps Let_def)
next
  case (Suc n)
  show ?case
  proof (cases "d = MAX_BRANCH_DEPTH")
    case False
    let ?out = "\<lambda>(res, bud'). \<lparr>result = res, budget = bud', hit_out = True,
      domain_attr_out = Some (attribution always Sat)\<rparr>"
    have step: "execute_meta_instruction_budgeted (deep (Suc n)) s d b =
        map_ok ?out (branch_loop [deep n] s (d + 1) (b - 1))"
      using False Suc.prems
      by (simp add: execute_meta_instruction_budgeted.simps [of "branch_on _"] exec_branch.simps [of "branch_on _"] Let_def)
    have "d + 1 \<le> MAX_BRANCH_DEPTH" "MAX_BRANCH_DEPTH < d + 1 + (b - 1)" using False Suc.prems by auto
    from Suc.IH [OF this] step show ?thesis by auto
  next
    case True
    with Suc.prems show ?thesis by (simp add: execute_meta_instruction_budgeted.simps exec_branch.simps Let_def)
  qed
qed

lemma finish_no_depth: "finish_transition ce i p q s hs \<noteq> Inl (NestingTooDeep n)"
  by (auto simp: finish_transition_def Let_def result_simps split: if_splits)

text \<open>
  The limits on nesting, exactly: a branch with \<open>n\<close> branches nested one in the other is accepted by the
  validator up to \<open>n = 64\<close>, whatever the debug print is, and refused by the engine with \<open>NestingTooDeep\<close> from
  \<open>n = 64\<close> on, for every instruction, payload and queue.  So 64 nested branches are accepted and cannot run.
\<close>

theorem nesting_limits_differ:
  "(vr_passed (validate_rules dbg [deep n]) \<longleftrightarrow> n \<le> MAX_NESTING_DEPTH) \<and>
   (execute_transition [deep n] i p q = Inl (NestingTooDeep MAX_BRANCH_DEPTH) \<longleftrightarrow> MAX_BRANCH_DEPTH \<le> n)"
proof
  obtain cs where cs: "deep n = branch_on cs" using deep_branch by blast
  have "vr_passed (validate_rules dbg [deep n]) \<longleftrightarrow>
      (\<forall>c \<in> set (check_branch_nested (deep n) (rule_index 0) 0). vc_level c \<noteq> ''error'')"
    by (simp add: validate_one branch_checks cs)
  then show "vr_passed (validate_rules dbg [deep n]) \<longleftrightarrow> n \<le> MAX_NESTING_DEPTH"
    by (simp add: deep_checked)
  have ty: "\<not> is_enforce (deep n)" by (simp add: cs is_enforce_def type_or_unknown_def)
  show "execute_transition [deep n] i p q = Inl (NestingTooDeep MAX_BRANCH_DEPTH) \<longleftrightarrow> MAX_BRANCH_DEPTH \<le> n"
    using deep_runs [of 0 MAX_TOTAL_META_INSTRUCTIONS n "build_exec_state i p q"] ty
    by (auto simp: execute_transition_def gate_skips transform_loop.simps is_enforce_def Let_def finish_no_depth
        MAX_TRANSFORM_RULES_def MAX_BRANCH_DEPTH_def MAX_TOTAL_META_INSTRUCTIONS_def)
qed

lemma nested_not_checked:
  "vr_passed (validate_rules dbg [branch_on [Object [(''type'', String ''bogus'')]]]) \<and>
   execute_transition [branch_on [Object [(''type'', String ''bogus'')]]] i p q = Inl (UnknownMetaInstruction ''bogus'')"
  by (simp add: validate_one branch_checks check_branch_nested.simps MAX_NESTING_DEPTH_def str_at_def
      execute_transition_def enforce_gate.simps transform_loop.simps type_or_unknown_def MAX_TRANSFORM_RULES_def
      execute_meta_instruction_budgeted.simps exec_branch.simps MAX_BRANCH_DEPTH_def MAX_TOTAL_META_INSTRUCTIONS_def Let_def)


lemma operation_not_checked:
  assumes "t = Object [(''params'', Object [(''attr'', String ''x''), (''operation'', Integer 1), (''value'', Integer 1)]),
    (''type'', String ''set'')]"
  shows "vr_passed (validate_rules dbg [t]) \<and> execute_transition [t] i p q = Inl (MissingField ''operation'')"
  by (simp add: assms validate_one check_rule_def check_type_exists_def check_type_valid_def VALID_TRANSFORM_TYPES_def
      check_params_complete_def required_params_def SET_REQUIRED_def bad_operation_def large_params_def str_at_def
      param_at_def execute_transition_def enforce_gate.simps transform_loop.simps type_or_unknown_def
      MAX_TRANSFORM_RULES_def execute_meta_instruction_budgeted.simps MAX_TOTAL_META_INSTRUCTIONS_def exec_set_def
      set_attr_def guarded_attr_def resolve_attr_from_state_def resolve_path_or_literal_def strip_prefix_def
      starts_with_def Let_def)

section \<open>What acceptance is good for\<close>

text \<open>
  C32: A rule set that \<open>validate_rules\<close> accepts, and whose nested instructions pass the checks the validator
  makes at the top level, is well typed for the engine: no transition under it, whatever the instruction, the
  payload and the queue are, ends in an error about an unknown instruction, an unknown operation, missing
  \<open>params\<close> or \<open>attr\<close>, or too many rules.
\<close>

theorem accepted_rules_typed:
  assumes "vr_passed (validate_rules dbg rules)" "list_all typed_children rules"
    and "execute_transition rules i p q = Inl e"
  shows "\<not> instruction_fault e"
proof -
  have "\<forall>t \<in> set rules. typed_rule t"
    using accepted_rules(3) [OF assms(1)] assms(2) by (auto simp: typed_rule_iff list_all_iff)
  with faultless_transition [OF accepted_rules(1) [OF assms(1)]] assms(3) show ?thesis
    by (simp add: faultless_def)
qed

definition sample_branch :: json where
  "sample_branch =
     Object [(''params'', Object [
        (''domain'', Object [(''type'', String ''between'')]),
        (''on_true'', Array [Object [(''params'', Object [(''io_type'', String ''http'')]), (''type'', String ''io_request'')]])]),
       (''type'', String ''branch'')]"

lemma sample_branch_facts:
  "vr_passed (validate_rules (\<lambda>_. []) [sample_branch])" "typed_children sample_branch"
  "execute_transition [sample_branch] Null Null [] = Inl (UnknownDomainType ''between'')"
  by (simp_all add: sample_branch_def validate_one check_rule_def check_type_exists_def check_type_valid_def
      VALID_TRANSFORM_TYPES_def check_params_complete_def required_params_def BRANCH_REQUIRED_def
      IO_REQUEST_REQUIRED_def bad_operation_def large_params_def str_at_def param_at_def children_at_def
      check_branch_nested.simps MAX_NESTING_DEPTH_def typed_children_def typed_rule.simps rule_ok_def
      execute_transition_def enforce_gate.simps transform_loop.simps type_or_unknown_def MAX_TRANSFORM_RULES_def
      execute_meta_instruction_budgeted.simps MAX_TOTAL_META_INSTRUCTIONS_def exec_branch.simps MAX_BRANCH_DEPTH_def
      resolve_path_or_literal_def evaluate_domain_outcome_def evaluate_domain_outcome_inner.simps
      get_str_field_def MAX_DOMAIN_DEPTH_def Let_def)

theorem accepted_rules_typed_witness:
  "execute_transition [sample_branch] Null Null [] = Inl (UnknownDomainType ''between'') \<and>
   \<not> instruction_fault (UnknownDomainType ''between'')"
  using accepted_rules_typed [of "\<lambda>_. []" "[sample_branch]" Null Null "[]"] sample_branch_facts by simp

end
