(* ===== verification/Cli.thy ===== *)
theory Cli
  imports FactsLog
begin

text \<open>
  The command line, \<open>evorule-cli/src\<close>: loading rules (\<open>io_util.rs\<close>), the synchronous run of a rule set
  (\<open>executor.rs\<close>, \<open>commands/run.rs\<close>), the log it writes (\<open>fact_log.rs\<close>), the comparison of two logs
  (\<open>commands/diff.rs\<close>, \<open>output.rs\<close>), the check of a log (\<open>commands/verify_chain.rs\<close>), the repair of a half-written
  line (\<open>commands/truncate_partial_line.rs\<close>) and the errors with their exit codes (\<open>error.rs\<close>).  What is printed
  for the user is left out, except for the lines of a comparison.  A file is its text; the files of a
  write-ahead log are read by lines as in the theory of the log.

  Shown is that a run ends within its limit of steps with a log of a fixed shape that the check of logs
  accepts, that loading does not depend on the order of the directory, that the check of hashed records is
  exact, and what the repair of a file does and refuses.
\<close>

section \<open>Errors\<close>

datatype cli_error =
    SentinelExit nat
  | CliIo string
  | CliJson string
  | CliWal wal_error
  | RulesDirNotFound string
  | NoRulesFound string
  | InvalidPayload string
  | FactLogParse nat string
  | HashChain string
  | ExecutionHadErrors nat
  | CliOther string

fun cli_error_display :: "cli_error \<Rightarrow> string" where
  "cli_error_display (SentinelExit c) = ''audit chain sentinel exit code '' @ dec_nat c"
| "cli_error_display (CliIo e) = ''I/O error: '' @ e"
| "cli_error_display (CliJson e) = ''JSON error: '' @ e"
| "cli_error_display (CliWal e) = ''WAL error: '' @ wal_error_display e"
| "cli_error_display (RulesDirNotFound d) = ''Rules directory does not exist: '' @ d"
| "cli_error_display (NoRulesFound d) = ''No .json files found in '' @ d"
| "cli_error_display (InvalidPayload e) = ''Invalid payload JSON: '' @ e"
| "cli_error_display (FactLogParse line reason) = ''Fact log parse error at line '' @ dec_nat line @ '': '' @ reason"
| "cli_error_display (HashChain e) = ''Hash chain verification failed: '' @ e"
| "cli_error_display (ExecutionHadErrors n) =
     ''Execution completed with '' @ dec_nat n @ '' Error fact(s); fact log written for audit (exit code 3)''"
| "cli_error_display (CliOther msg) = msg"

fun exit_code :: "cli_error \<Rightarrow> nat" where
  "exit_code (SentinelExit c) = c"
| "exit_code (RulesDirNotFound _) = 2"
| "exit_code (NoRulesFound _) = 2"
| "exit_code (ExecutionHadErrors _) = 3"
| "exit_code _ = 1"

section \<open>Loading rules\<close>

text \<open>\<open>Path::extension\<close>: what follows the last dot, when something stands before it.\<close>

definition file_extension :: "string \<Rightarrow> string option" where
  "file_extension name =
     (let ext = takeWhile (\<lambda>c. c \<noteq> CHR ''.'') (rev name) in
      if length ext + 1 < length name then Some (rev ext) else None)"

definition ascii_lower :: "string \<Rightarrow> string" where
  "ascii_lower s = map (\<lambda>c. if CHR ''A'' \<le> c \<and> c \<le> CHR ''Z'' then char_of (of_char c + 32 :: nat) else c) s"

definition is_rule_file :: "string \<Rightarrow> bool" where
  "is_rule_file name \<longleftrightarrow> file_extension name = Some ''json'' \<and> ascii_lower name \<noteq> ''payload.json''"

definition cli_extract_transforms :: "serde \<Rightarrow> serde list" where
  "cli_extract_transforms j =
     (case j of
        SObject m \<Rightarrow>
          (case bt_get ''transform'' m of
             Some (SArray arr) \<Rightarrow> arr
           | _ \<Rightarrow> (case bt_get ''transforms'' m of Some (SArray arr) \<Rightarrow> arr | _ \<Rightarrow> [j]))
      | SArray arr \<Rightarrow> arr
      | _ \<Rightarrow> [j])"

text \<open>A path that does not exist, a path that is not a directory, or the names with what reading them gives.\<close>

datatype rules_dir = NoDir | NotDir | Dir "(string \<times> (string + string)) list"

definition load_entry :: "(string \<Rightarrow> string + serde) \<Rightarrow> string \<times> (string + string) \<Rightarrow> cli_error + serde list" where
  "load_entry de e =
     and_then (map_err CliIo (snd e)) (\<lambda>content.
     and_then (map_err (\<lambda>err. CliOther (''Invalid JSON in '' @ fst e @ '': '' @ err)) (de content)) (\<lambda>j.
     Inr (cli_extract_transforms j)))"

fun load_entries :: "(string \<Rightarrow> string + serde) \<Rightarrow> (string \<times> (string + string)) list \<Rightarrow> cli_error + serde list" where
  "load_entries de [] = Inr []"
| "load_entries de (e # es) =
     and_then (load_entry de e) (\<lambda>ts. map_ok (\<lambda>us. ts @ us) (load_entries de es))"

definition load_rules :: "(string \<Rightarrow> string + serde) \<Rightarrow> string \<Rightarrow> rules_dir \<Rightarrow> cli_error + json list" where
  "load_rules de path dir =
     (case dir of
        NoDir \<Rightarrow> Inl (RulesDirNotFound path)
      | NotDir \<Rightarrow> Inl (RulesDirNotFound (''Not a directory: '' @ path))
      | Dir listing \<Rightarrow>
          (let es = sort_key fst (filter (\<lambda>e. is_rule_file (fst e)) listing) in
           if es = [] then Inl (NoRulesFound path)
           else map_ok (map serde_to_tcb) (load_entries de (map (\<lambda>(name, content). (path @ ''/'' @ name, content)) es))))"

definition load_rules_file :: "(string \<Rightarrow> string + serde) \<Rightarrow> string \<times> (string + string) \<Rightarrow> cli_error + json list" where
  "load_rules_file de e = map_ok (map serde_to_tcb) (load_entry de e)"

definition parse_initial_payload ::
  "(string \<Rightarrow> string + serde) \<Rightarrow> string option \<Rightarrow> (string \<times> (string + string)) option \<Rightarrow> cli_error + json" where
  "parse_initial_payload de payload_str payload_file =
     and_then
       (case (payload_str, payload_file) of
          (Some s, _) \<Rightarrow> Inr (Some s)
        | (None, Some (path, content)) \<Rightarrow>
            map_ok Some (map_err (\<lambda>e. CliOther (''Failed to read payload file '' @ path @ '': '' @ e)) content)
        | (None, None) \<Rightarrow> Inr None) (\<lambda>raw.
     case raw of
       Some s \<Rightarrow> map_ok serde_to_tcb (map_err InvalidPayload (de s))
     | None \<Rightarrow> Inr empty_object)"

section \<open>The synchronous run\<close>

definition DEFAULT_MAX_STEPS :: usize where
  "DEFAULT_MAX_STEPS = 10000"

text \<open>
  The variables of \<open>execute\<close>.  The cache of instructions that wait for a response is written and never
  read, so it is left out.
\<close>

record cli_state =
  cs_facts :: "fact list"
  cs_ids :: fact_id_generator
  cs_queue :: "json list"
  cs_payload :: json
  cs_steps :: usize
  cs_ver :: u64
  cs_cause :: fact_id

definition cli_emit :: "(fact_id \<Rightarrow> fact) \<Rightarrow> cli_state \<Rightarrow> cli_state" where
  "cli_emit mk s = (let (i, ids) = next_id (cs_ids s) in s\<lparr>cs_facts := cs_facts s @ [mk i], cs_ids := ids\<rparr>)"

definition cli_transition :: "json \<Rightarrow> json list \<Rightarrow> cli_state \<Rightarrow> cli_state" where
  "cli_transition new_payload new_queue s =
     (let i = fst (next_id (cs_ids s));
          s1 = s\<lparr>cs_payload := new_payload, cs_queue := new_queue, cs_ver := cs_ver s + 1\<rparr> in
      (cli_emit (\<lambda>i. StateTransition i (cs_cause s) new_payload new_queue) s1)\<lparr>cs_cause := i\<rparr>)"

text \<open>One pass of the loop with an instruction taken: to go on with a state, or to leave the loop with it.\<close>

definition cli_pass :: "(json \<Rightarrow> string) \<Rightarrow> json list \<Rightarrow> json \<Rightarrow> cli_state \<Rightarrow> cli_state + cli_state" where
  "cli_pass dbg rules instruction s =
     (case execute_transition rules instruction (cs_payload s) (cs_queue s) of
        Inr (TState new_payload new_queue _) \<Rightarrow> Inr (cli_transition new_payload new_queue s)
      | Inr (TIoRequired io_type params) \<Rightarrow>
          Inl (cli_emit (\<lambda>i. Error i (''no I/O handler for io_type='' @ io_type))
                (cli_emit (\<lambda>i. IoRequest i (cs_cause s) io_type params) s))
      | Inr (TIgnored instruction_type reason _) \<Rightarrow>
          Inl (cli_emit (\<lambda>i. Error i (''Instruction ignored by TCB: type='' @ instruction_type @ '', reason='' @ reason
                @ '', instruction='' @ dbg instruction)) s)
      | Inr (THalted rule_index reason) \<Rightarrow>
          Inr (cli_emit (\<lambda>i. Violation i (cs_cause s) (word_of_nat rule_index) reason instruction) s)
      | Inl e \<Rightarrow>
          Inl (cli_emit (\<lambda>i. Error i (''TCB error at step '' @ dec_nat (cs_steps s) @ '': '' @ tcb_error_display e)) s))"

lemma cli_pass_steps: "cli_pass dbg rules i s = Inr s' \<Longrightarrow> cs_steps s' = cs_steps s"
  by (auto simp: cli_pass_def cli_transition_def cli_emit_def Let_def split: sum.splits transition_result.splits prod.splits)

function cli_loop :: "(json \<Rightarrow> string) \<Rightarrow> json list \<Rightarrow> usize \<Rightarrow> cli_state \<Rightarrow> cli_state" where
  "cli_loop dbg rules max_steps s =
     (case cs_queue s of
        [] \<Rightarrow> s
      | instruction # rest \<Rightarrow>
          if cs_steps s \<ge> max_steps
          then cli_emit (\<lambda>i. Error i (''max_steps exceeded: '' @ dec_nat (cs_steps s))) s
          else
            (case cli_pass dbg rules instruction (s\<lparr>cs_queue := rest, cs_steps := cs_steps s + 1\<rparr>) of
               Inr s' \<Rightarrow> cli_loop dbg rules max_steps s'
             | Inl s' \<Rightarrow> s'))"
  by pat_completeness auto
termination
  by (relation "measure (\<lambda>(_, _, max_steps, s). max_steps - cs_steps s)") (auto dest!: cli_pass_steps)

declare cli_loop.simps [simp del]

definition cli_start :: "json \<Rightarrow> json \<Rightarrow> cli_state" where
  "cli_start initial_payload instruction =
     (let (cmd_id, ids) = next_id id_gen_new in
      \<lparr>cs_facts = [Command cmd_id instruction], cs_ids = ids, cs_queue = [instruction], cs_payload = initial_payload,
       cs_steps = 0, cs_ver = 0, cs_cause = cmd_id\<rparr>)"

definition cli_execute :: "(json \<Rightarrow> string) \<Rightarrow> json list \<Rightarrow> json \<Rightarrow> json \<Rightarrow> usize \<Rightarrow> fact list \<times> json" where
  "cli_execute dbg rules initial_payload instruction max_steps =
     (let s = cli_loop dbg rules max_steps (cli_start initial_payload instruction);
          s' = cli_emit (\<lambda>i. Stable i (cs_ver s)) s in
      (cs_facts s', cs_payload s'))"

section \<open>The log of a run\<close>

text \<open>\<open>str::lines\<close>: pieces between line feeds without a carriage return at their end, no empty last piece.\<close>

definition drop_cr :: "string \<Rightarrow> string" where
  "drop_cr l = (if ends_with_char (CHR 0x0D) l then butlast l else l)"

definition str_lines :: "string \<Rightarrow> string list" where
  "str_lines s =
     (let ps = split_on (CHR 0x0A) s in
      map drop_cr (butlast ps) @ (if last ps = [] then [] else [last ps]))"

definition write_facts :: "(serde \<Rightarrow> string) \<Rightarrow> fact list \<Rightarrow> string" where
  "write_facts ser facts = join_on (CHR 0x0A) (map (\<lambda>f. ser (fact_to_json f)) facts)"

fun parse_facts_from :: "(string \<Rightarrow> string + serde) \<Rightarrow> nat \<Rightarrow> string list \<Rightarrow> cli_error + fact list" where
  "parse_facts_from de idx [] = Inr []"
| "parse_facts_from de idx (line # lines) =
     (let trimmed = trim line in
      if trimmed = [] then parse_facts_from de (idx + 1) lines
      else
        and_then (map_err (\<lambda>e. FactLogParse (idx + 1) (''JSON parse: '' @ e)) (de trimmed)) (\<lambda>v.
        and_then (map_err (\<lambda>e. FactLogParse (idx + 1) (''Fact deserialize: '' @ wal_error_display e)) (fact_from_json v)) (\<lambda>f.
        map_ok (\<lambda>fs. f # fs) (parse_facts_from de (idx + 1) lines))))"

definition parse_facts :: "(string \<Rightarrow> string + serde) \<Rightarrow> string \<Rightarrow> cli_error + fact list" where
  "parse_facts de content = parse_facts_from de 0 (str_lines content)"

definition read_facts :: "(string \<Rightarrow> string + serde) \<Rightarrow> string + string \<Rightarrow> cli_error + fact list" where
  "read_facts de file = and_then (map_err CliIo file) (parse_facts de)"

fun is_error_fact :: "fact \<Rightarrow> bool" where
  "is_error_fact (Error _ _) = True"
| "is_error_fact _ = False"

text \<open>\<open>evorule run\<close>: the text written, if any, and the result; \<open>os\<close> is what the operating system says to the write.\<close>

definition run_command ::
  "(string \<Rightarrow> string + serde) \<Rightarrow> (serde \<Rightarrow> string) \<Rightarrow> (json \<Rightarrow> string) \<Rightarrow> string \<Rightarrow> rules_dir \<Rightarrow> string option \<Rightarrow>
   (string \<times> (string + string)) option \<Rightarrow> usize \<Rightarrow> string option \<Rightarrow> string option \<times> (cli_error + unit)" where
  "run_command de ser dbg path dir payload payload_file max_steps os =
     (case and_then (load_rules de path dir) (\<lambda>rules.
            map_ok (\<lambda>p. (rules, p)) (parse_initial_payload de payload payload_file)) of
        Inl e \<Rightarrow> (None, Inl e)
      | Inr (rules, initial_payload) \<Rightarrow>
          (let facts = fst (cli_execute dbg rules initial_payload (Object [(''type'', String ''noop'')]) max_steps) in
           case os of
             Some e \<Rightarrow> (None, Inl (CliIo e))
           | None \<Rightarrow>
               (let n = length (filter is_error_fact facts) in
                (Some (write_facts ser facts), if n > 0 then Inl (ExecutionHadErrors n) else Inr ()))))"

section \<open>Printing and comparing logs\<close>

definition fact_ref :: "fact_id \<Rightarrow> string" where
  "fact_ref i = ''F'' @ dec_nat (unat i)"

definition human_line :: "fact \<Rightarrow> string \<Rightarrow> string" where
  "human_line f detail = ''['' @ fact_ref (fact_id_of f) @ ''] '' @ type_name f @ detail"

fun fact_to_human :: "fact \<Rightarrow> string" where
  "fact_to_human (Command i instruction) =
     human_line (Command i instruction) ('' type='' @ unwrap_or ''?'' (Option.bind (json_get ''type'' instruction) as_str))"
| "fact_to_human (PayloadUpdate i path v) = human_line (PayloadUpdate i path v) ('' path='' @ path)"
| "fact_to_human (StateTransition i cause p q) = human_line (StateTransition i cause p q) ('' cause='' @ fact_ref cause)"
| "fact_to_human (IoRequest i cause io_type params) =
     human_line (IoRequest i cause io_type params) ('' cause='' @ fact_ref cause @ '' io_type='' @ io_type)"
| "fact_to_human (IoResponse i request_id res err) =
     human_line (IoResponse i request_id res err) ('' request_id='' @ fact_ref request_id @
       (case err of Some msg \<Rightarrow> '' error='' @ msg | None \<Rightarrow> '' ok''))"
| "fact_to_human (Stable i ver) = human_line (Stable i ver) ('' version='' @ dec_nat (unat ver))"
| "fact_to_human (Error i message) = human_line (Error i message) ('': '' @ message)"
| "fact_to_human (TransitionTrace i cause hits) =
     human_line (TransitionTrace i cause hits) ('' cause='' @ fact_ref cause @ '' hits='' @
       dec_nat (length (filter trace_hit hits)) @ ''/'' @ dec_nat (length hits))"
| "fact_to_human (Violation i cause rule_index reason instruction) =
     human_line (Violation i cause rule_index reason instruction)
       ('' cause='' @ fact_ref cause @ '' rule='' @ dec_nat (unat rule_index) @ '' '' @ reason)"

definition facts_to_human :: "fact list \<Rightarrow> string" where
  "facts_to_human facts = join_on (CHR 0x0A) (map fact_to_human facts)"

definition format_diff_line :: "string \<Rightarrow> string \<Rightarrow> string" where
  "format_diff_line prefix content = prefix @ '' '' @ content"

definition CHANGED :: string where
  "CHANGED = ''[~]''"

definition ONLY_A :: string where
  "ONLY_A = ''[-]''"

definition ONLY_B :: string where
  "ONLY_B = ''[+]''"

text \<open>The derived equality of facts, on the hand-written equality of values.\<close>

definition fact_eq :: "fact \<Rightarrow> fact \<Rightarrow> bool" where
  "fact_eq f g =
     (case f of
        Command i j \<Rightarrow> (case g of Command i' j' \<Rightarrow> i = i' \<and> json_eq j j' | _ \<Rightarrow> False)
      | PayloadUpdate i p j \<Rightarrow> (case g of PayloadUpdate i' p' j' \<Rightarrow> i = i' \<and> p = p' \<and> json_eq j j' | _ \<Rightarrow> False)
      | StateTransition i c j q \<Rightarrow>
          (case g of StateTransition i' c' j' q' \<Rightarrow> i = i' \<and> c = c' \<and> json_eq j j' \<and> json_eq_list q q' | _ \<Rightarrow> False)
      | IoRequest i c t j \<Rightarrow> (case g of IoRequest i' c' t' j' \<Rightarrow> i = i' \<and> c = c' \<and> t = t' \<and> json_eq j j' | _ \<Rightarrow> False)
      | IoResponse i r j e \<Rightarrow> (case g of IoResponse i' r' j' e' \<Rightarrow> i = i' \<and> r = r' \<and> json_eq j j' \<and> e = e' | _ \<Rightarrow> False)
      | Stable i v \<Rightarrow> (case g of Stable i' v' \<Rightarrow> i = i' \<and> v = v' | _ \<Rightarrow> False)
      | Error i m \<Rightarrow> (case g of Error i' m' \<Rightarrow> i = i' \<and> m = m' | _ \<Rightarrow> False)
      | TransitionTrace i c h \<Rightarrow> (case g of TransitionTrace i' c' h' \<Rightarrow> i = i' \<and> c = c' \<and> h = h' | _ \<Rightarrow> False)
      | Violation i c n r j \<Rightarrow>
          (case g of Violation i' c' n' r' j' \<Rightarrow> i = i' \<and> c = c' \<and> n = n' \<and> r = r' \<and> json_eq j j' | _ \<Rightarrow> False))"

text \<open>The loop over the common indices and the rest: the lines printed and the number of differences.\<close>

fun compare_facts :: "fact list \<Rightarrow> fact list \<Rightarrow> string list \<times> nat" where
  "compare_facts [] [] = ([], 0)"
| "compare_facts (a # as) [] =
     (let (ls, n) = compare_facts as [] in (format_diff_line ONLY_A (fact_to_human a) # ls, n + 1))"
| "compare_facts [] (b # bs) =
     (let (ls, n) = compare_facts [] bs in (format_diff_line ONLY_B (fact_to_human b) # ls, n + 1))"
| "compare_facts (a # as) (b # bs) =
     (let (ls, n) = compare_facts as bs in
      if fact_eq a b then (ls, n)
      else (format_diff_line CHANGED (fact_to_human a) # format_diff_line CHANGED (fact_to_human b) # ls, n + 1))"

definition diff_command ::
  "(string \<Rightarrow> string + serde) \<Rightarrow> string + string \<Rightarrow> string + string \<Rightarrow> cli_error + (string list \<times> nat)" where
  "diff_command de a b =
     and_then (read_facts de a) (\<lambda>facts_a. and_then (read_facts de b) (\<lambda>facts_b. Inr (compare_facts facts_a facts_b)))"

section \<open>Checking a log\<close>

text \<open>\<open>read_wal\<close> of the write-ahead log, the reader without hashes.\<close>

definition read_wal :: "(string \<Rightarrow> string + serde) \<Rightarrow> disk \<Rightarrow> (u64 \<times> fact) list wal" where
  "read_wal de d =
     map_ok (map (\<lambda>r. (version_before r, wal_fact r)))
       (and_then
          (case bt_get 0 d of
             None \<Rightarrow> Inr ([], 0, False)
           | Some lines \<Rightarrow> map_ok (\<lambda>(recs, n). (recs, n, True)) (parse_wal_records_counted de lines 0)) (\<lambda>(recs, line_no, found).
        and_then (read_segments de d (length d + 1) 1 line_no) (\<lambda>(rest, found').
        if \<not> (found \<or> found') then Inl (WalIo ''WAL file not found'') else Inr (recs @ rest))))"

fun first_line :: "string list \<Rightarrow> string option" where
  "first_line [] = None"
| "first_line (line # lines) = (if trim line = [] then first_line lines else Some (trim line))"

definition looks_like_raw_fact_log :: "(string \<Rightarrow> string + serde) \<Rightarrow> string + string \<Rightarrow> bool" where
  "looks_like_raw_fact_log de file =
     (case file of
        Inl _ \<Rightarrow> False
      | Inr content \<Rightarrow>
          (case first_line (str_lines content) of
             None \<Rightarrow> False
           | Some line \<Rightarrow>
               (case de line of
                  Inl _ \<Rightarrow> False
                | Inr v \<Rightarrow> Option.bind (s_get ''type'' v) s_as_str \<noteq> None)))"

definition hash_mismatch :: "nat \<Rightarrow> fact_id \<Rightarrow> string \<Rightarrow> string option \<Rightarrow> string \<Rightarrow> string \<Rightarrow> cli_error" where
  "hash_mismatch i fid name stored label expect =
     HashChain (''fact['' @ dec_nat i @ ''] (id='' @ dec_nat (unat fid) @ ''): '' @ name @ '' mismatch (stored='' @
       unwrap_or ''none'' stored @ '', '' @ label @ ''='' @ expect @ '')'')"

fun verify_hash_chain_from ::
  "(string \<Rightarrow> string) \<Rightarrow> (serde \<Rightarrow> string) \<Rightarrow> nat \<Rightarrow> string \<Rightarrow> wal_record list \<Rightarrow> cli_error + unit" where
  "verify_hash_chain_from blake3 ser i prev [] = Inr ()"
| "verify_hash_chain_from blake3 ser i prev (r # rs) =
     (let content = fact_hash blake3 ser (wal_fact r); chain = blake3 (prev @ content); fid = fact_id_of (wal_fact r) in
      if wal_chain_hash r = None then verify_hash_chain_from blake3 ser (i + 1) chain rs
      else if wal_content_hash r \<noteq> Some content
      then Inl (hash_mismatch i fid ''content_hash'' (wal_content_hash r) ''recomputed'' content)
      else if wal_prev_hash r \<noteq> Some prev
      then Inl (hash_mismatch i fid ''prev_hash'' (wal_prev_hash r) ''expected'' prev)
      else if wal_chain_hash r \<noteq> Some chain
      then Inl (hash_mismatch i fid ''chain_hash'' (wal_chain_hash r) ''recomputed'' chain)
      else verify_hash_chain_from blake3 ser (i + 1) chain rs)"

definition verify_hash_chain_with_stored :: "(string \<Rightarrow> string) \<Rightarrow> (serde \<Rightarrow> string) \<Rightarrow> wal_record list \<Rightarrow> cli_error + unit" where
  "verify_hash_chain_with_stored blake3 ser records = verify_hash_chain_from blake3 ser 0 genesis records"

fun checked_cause :: "fact \<Rightarrow> fact_id option" where
  "checked_cause (StateTransition _ cause _ _) = Some cause"
| "checked_cause (IoRequest _ cause _ _) = Some cause"
| "checked_cause _ = None"

fun structural_errors :: "nat \<Rightarrow> fact_id set \<Rightarrow> fact_id option \<Rightarrow> fact list \<Rightarrow> string list" where
  "structural_errors i seen prev [] = []"
| "structural_errors i seen prev (f # fs) =
     (let fid = fact_id_of f in
      (case prev of
         Some p \<Rightarrow>
           if fid \<le> p
           then [''fact['' @ dec_nat i @ '']: id='' @ dec_nat (unat fid) @ '' not strictly greater than prev id='' @
                 dec_nat (unat p) @ '' (monotonicity violated)'']
           else []
       | None \<Rightarrow> []) @
      (case checked_cause f of
         Some c \<Rightarrow>
           if c \<notin> seen
           then [''fact['' @ dec_nat i @ '']: id='' @ dec_nat (unat fid) @ '' references cause=F'' @ dec_nat (unat c) @
                 '' which does not exist (cause must point to a prior fact)'']
           else []
       | None \<Rightarrow> []) @
      structural_errors (i + 1) (insert fid seen) (Some fid) fs)"

definition verify_structural_invariants :: "fact list \<Rightarrow> string list" where
  "verify_structural_invariants facts = structural_errors 0 {} None facts"

definition verify_and_report_structural :: "fact list \<Rightarrow> cli_error + unit" where
  "verify_and_report_structural facts =
     (let errors = verify_structural_invariants facts in
      if errors = [] then Inr () else Inl (HashChain (''structural violations: '' @ dec_nat (length errors))))"

text \<open>\<open>evorule verify-chain\<close>: \<open>d\<close> is the log with its rotated files, \<open>file\<close> the text of the main file.\<close>

definition verify_chain_command ::
  "(string \<Rightarrow> string) \<Rightarrow> (serde \<Rightarrow> string) \<Rightarrow> (string \<Rightarrow> string + serde) \<Rightarrow> disk \<Rightarrow> string + string \<Rightarrow> cli_error + unit" where
  "verify_chain_command blake3 ser de d file =
     (case read_wal_with_hash de d of
        Inr records \<Rightarrow>
          and_then
            (if list_ex (\<lambda>r. wal_chain_hash r \<noteq> None) records then verify_hash_chain_with_stored blake3 ser records
             else Inr ()) (\<lambda>_.
          verify_and_report_structural (map wal_fact records))
      | Inl original \<Rightarrow>
          if \<not> looks_like_raw_fact_log de file then Inl (CliWal original)
          else and_then (read_facts de file) verify_and_report_structural)"

section \<open>Repairing a half-written line\<close>

definition is_ascii_whitespace :: "char \<Rightarrow> bool" where
  "is_ascii_whitespace c \<longleftrightarrow> c \<in> {CHR '' '', CHR 0x09, CHR 0x0A, CHR 0x0C, CHR 0x0D}"

text \<open>The part up to the last line feed, and what follows it.\<close>

definition split_last_line :: "string \<Rightarrow> (string \<times> string) option" where
  "split_last_line s =
     (if CHR 0x0A \<in> set s
      then (let trailing = rev (takeWhile (\<lambda>c. c \<noteq> CHR 0x0A) (rev s)) in Some (take (length s - length trailing) s, trailing))
      else None)"

text \<open>The three checks of a record, with a remark in the message about a broken link; both callers are alike but for it.\<close>

fun verify_records ::
  "string \<Rightarrow> (string \<Rightarrow> string) \<Rightarrow> (serde \<Rightarrow> string) \<Rightarrow> string \<Rightarrow> wal_record list \<Rightarrow> string + string list" where
  "verify_records remark blake3 ser prev [] = Inr []"
| "verify_records remark blake3 ser prev (r # rs) =
     (let content = fact_hash blake3 ser (wal_fact r); chain = chain_step blake3 prev content;
          fid = dec_nat (unat (fact_id_of (wal_fact r))) in
      if wal_content_hash r \<notin> {None, Some content} then Inl (''content_hash mismatch at fact '' @ fid)
      else if wal_prev_hash r \<notin> {None, Some prev} then Inl (''chain broken at fact '' @ fid @ remark)
      else if wal_chain_hash r \<notin> {None, Some chain} then Inl (''chain_hash mismatch at fact '' @ fid)
      else map_ok (\<lambda>cs. chain # cs) (verify_records remark blake3 ser chain rs))"

record repair_os =
  ro_temp :: "string option"
  ro_backup :: "string option"
  ro_write :: "string option"

text \<open>The file, the backup if one was written, and the result.\<close>

definition truncate_partial_line ::
  "(string \<Rightarrow> string) \<Rightarrow> (serde \<Rightarrow> string) \<Rightarrow> (string \<Rightarrow> string + serde) \<Rightarrow> repair_os \<Rightarrow> bool \<Rightarrow> string \<Rightarrow>
   string \<times> string option \<times> (cli_error + unit)" where
  "truncate_partial_line blake3 ser de os confirm data =
     (case split_last_line data of
        None \<Rightarrow> (data, None, Inl (CliOther ((utf8 [230, 150, 135, 228, 187, 182, 230, 151, 160, 229, 174, 140, 230, 149, 180, 232, 161,
       140, 239, 188, 136, 230, 151, 160, 230, 141, 162, 232, 161, 140, 231, 172, 166, 239, 188,
       137, 239, 188, 140, 230, 139, 146, 231, 187, 157, 229, 164, 132, 231, 144, 134]))))
      | Some (prefix, trailing) \<Rightarrow>
          if list_all is_ascii_whitespace trailing then (data, None, Inr ())
          else
            (case ro_temp os of
               Some e \<Rightarrow> (data, None, Inl (CliOther (''temp write: '' @ e)))
             | None \<Rightarrow>
                 (case and_then (map_err wal_error_display (read_wal_with_hash de [(0, str_lines prefix)]))
                         (verify_records [] blake3 ser genesis) of
                    Inl e \<Rightarrow> (data, None, Inl (CliOther ((utf8 [229, 137, 141, 231, 188, 128, 233, 147, 190, 233, 170, 140, 232, 175, 129]) @ '' FAIL'' @ (utf8 [239, 188, 136, 230, 136, 170, 230, 150, 173, 230, 151, 160, 230, 181, 142, 228, 186,
       142, 228, 186, 139, 239, 188, 140, 230, 150, 135, 228, 187, 182, 229, 173, 152, 229, 156,
       168, 230, 155, 180, 230, 151, 169, 231, 160, 180, 229, 157, 143, 239, 188, 137]) @ '': '' @ e)))
                  | Inr _ \<Rightarrow>
                      if \<not> confirm then (data, None, Inr ())
                      else
                        (case ro_backup os of
                           Some e \<Rightarrow> (data, None, Inl (CliOther (''backup write: '' @ e)))
                         | None \<Rightarrow>
                             (case ro_write os of
                                Some e \<Rightarrow> (data, Some data, Inl (CliOther (''truncate write: '' @ e)))
                              | None \<Rightarrow> (prefix, Some data, Inr ()))))))"

section \<open>Lines\<close>

lemma strip_ws_shorter: "strip_ws len s = s \<or> length (strip_ws len s) < length s"
proof (induction len s rule: strip_ws.induct)
  case (1 len s)
  show ?case
  proof (cases "len (map of_char s) = 0 \<or> s = []")
    case False
    then have "strip_ws len s = strip_ws len (drop (len (map of_char s)) s)"
      by (subst strip_ws.simps) (simp add: Let_def)
    with 1 [OF refl False] False show ?thesis by (cases s) auto
  qed (auto simp: strip_ws.simps [of len s])
qed

lemma trim_fixed:
  assumes "trim l = l"
  shows "strip_ws ws_len l = l" "trim_end l = l"
proof -
  have "length l = length (strip_ws ws_len_rev (rev (strip_ws ws_len l)))"
    using arg_cong [OF assms, of length] by (simp add: trim_def)
  also have "\<dots> \<le> length (strip_ws ws_len l)"
    using strip_ws_shorter [of ws_len_rev "rev (strip_ws ws_len l)"] by auto
  finally show l: "strip_ws ws_len l = l" using strip_ws_shorter [of ws_len l] by auto
  with assms show "trim_end l = l" by (simp add: trim_def trim_end_def)
qed

lemma drop_cr_trimmed: "trim l = l \<Longrightarrow> drop_cr l = l"
proof (rule ccontr)
  assume t: "trim l = l" and "drop_cr l \<noteq> l"
  then obtain s where s: "rev l = CHR 0x0D # s"
    by (cases l rule: rev_cases) (auto simp: drop_cr_def ends_with_char_def split: if_splits)
  have "length (strip_ws ws_len_rev (CHR 0x0D # s)) < length (CHR 0x0D # s)"
    using strip_ws_shorter [of ws_len_rev s] by (subst strip_ws.simps) (auto simp: ws_len_rev_def Let_def)
  then show False using arg_cong [OF trim_fixed(2) [OF t], of length] s by (simp add: trim_end_def)
qed

lemma split_join: "ls \<noteq> [] \<Longrightarrow> \<forall>l \<in> set ls. c \<notin> set l \<Longrightarrow> split_on c (join_on c ls) = ls"
proof (induction ls rule: join_on.induct)
  case (2 c s)
  then show ?case using split_on_no_sep by simp
next
  case (3 c s t ts)
  then show ?case using split_on_append_sep [of c s "join_on c (t # ts)"] by simp
qed simp

lemma lines_join:
  assumes "ls \<noteq> []" "\<forall>l \<in> set ls. CHR 0x0A \<notin> set l \<and> l \<noteq> [] \<and> trim l = l"
  shows "str_lines (join_on (CHR 0x0A) ls) = ls"
proof -
  have "split_on (CHR 0x0A) (join_on (CHR 0x0A) ls) = ls" using assms by (intro split_join) auto
  moreover have "map drop_cr (butlast ls) = butlast ls"
    using assms(2) by (intro map_idI) (auto dest!: in_set_butlastD simp: drop_cr_trimmed)
  moreover have "last ls \<noteq> []" using assms by auto
  ultimately show ?thesis using assms(1) by (simp add: str_lines_def)
qed

text \<open>Lines that end in a line feed, as the writer of a log leaves them.\<close>

definition unlines :: "string list \<Rightarrow> string" where
  "unlines ls = concat (map (\<lambda>l. l @ [CHR 0x0A]) ls)"

lemma split_unlines: "\<forall>l \<in> set ls. c \<notin> set l \<Longrightarrow> split_on c (concat (map (\<lambda>l. l @ [c]) ls)) = ls @ [[]]"
  by (induction ls) (simp_all add: split_on_append_sep)

lemma lines_unlines:
  assumes "\<forall>l \<in> set ls. CHR 0x0A \<notin> set l \<and> trim l = l"
  shows "str_lines (unlines ls) = ls"
proof -
  have "map drop_cr ls = ls" using assms by (intro map_idI) (auto simp: drop_cr_trimmed)
  then show ?thesis using assms by (simp add: str_lines_def unlines_def split_unlines)
qed

section \<open>What is written is read\<close>

text \<open>
  What is used of the text form of values: reading inverts printing, a printed value is a non-empty line
  without blanks around it, and the header of a log reads as the object it prints.
\<close>

definition json_lines :: "(serde \<Rightarrow> string) \<Rightarrow> (string \<Rightarrow> string + serde) \<Rightarrow> bool" where
  "json_lines ser de \<longleftrightarrow> json_text ser de \<and> (\<forall>v. ser v \<noteq> [] \<and> CHR 0x0A \<notin> set (ser v)) \<and>
     de WAL_FORMAT_HEADER = Inr (SObject [(''format'', SString ''evorule-wal/2'')])"

lemma fact_json_fields:
  "s_get ''type'' (fact_to_json f) = Some (SString (type_name f))" "s_get ''version_before'' (fact_to_json f) = None"
  by (cases f; simp)+

lemma fact_json_object: "\<exists>m. fact_to_json f = SObject m \<and> bt_get ''version_before'' m = None"
proof -
  have "\<exists>m. fact_to_json f = SObject m" using serde_map_object by (cases f) (auto simp del: serde_map_object)
  with fact_json_fields(2) [of f] show ?thesis by (auto simp: s_get_def)
qed

lemma fact_line:
  assumes "json_lines ser de"
  shows "de (ser (fact_to_json f)) = Inr (fact_to_json f)" "trim (ser (fact_to_json f)) = ser (fact_to_json f)"
    "ser (fact_to_json f) \<noteq> []" "CHR 0x0A \<notin> set (ser (fact_to_json f))" "ser (fact_to_json f) \<noteq> WAL_FORMAT_HEADER"
proof -
  obtain m where m: "fact_to_json f = SObject m" using fact_json_object by blast
  show de: "de (ser (fact_to_json f)) = Inr (fact_to_json f)" using assms by (simp add: json_lines_def json_text_def)
  show "trim (ser (fact_to_json f)) = ser (fact_to_json f)" using assms m by (simp add: json_lines_def json_text_def)
  show "ser (fact_to_json f) \<noteq> []" "CHR 0x0A \<notin> set (ser (fact_to_json f))" using assms by (simp_all add: json_lines_def)
  show "ser (fact_to_json f) \<noteq> WAL_FORMAT_HEADER"
  proof
    assume "ser (fact_to_json f) = WAL_FORMAT_HEADER"
    with de assms have "fact_to_json f = SObject [(''format'', SString ''evorule-wal/2'')]" by (simp add: json_lines_def)
    with fact_json_fields(1) [of f] show False by (simp add: s_get_def)
  qed
qed

lemma parse_facts_lines:
  assumes "json_lines ser de"
  shows "parse_facts_from de i (map (\<lambda>f. ser (fact_to_json f)) fs) = Inr (map reread fs)"
  by (induction fs arbitrary: i) (simp_all add: fact_line [OF assms] fact_reread)

lemma facts_lines:
  assumes "json_lines ser de" "fs \<noteq> []"
  shows "str_lines (write_facts ser fs) = map (\<lambda>f. ser (fact_to_json f)) fs"
  unfolding write_facts_def using assms by (intro lines_join) (auto simp: fact_line)

lemma raw_log_is_no_wal:
  assumes "json_lines ser de"
  shows "\<exists>e. read_wal_with_hash de [(0, map (\<lambda>f. ser (fact_to_json f)) (f # fs))] = Inl e"
proof -
  let ?l = "ser (fact_to_json f)"
  note l = fact_line [OF assms, of f]
  obtain m where m: "fact_to_json f = SObject m" "bt_get ''version_before'' m = None" using fact_json_object by blast
  have "parse_wal_line de ?l 0 = Inl (line_error 0 ''missing version_before'')"
    using l(1) m by (simp add: parse_wal_line_def)
  moreover have "\<not> is_format_header ?l" "\<not> is_format_header (trim_end ?l)"
    using l trim_fixed(2) [OF l(2)] by (simp_all add: is_format_header_def)
  ultimately show ?thesis
    using l by (simp add: read_wal_with_hash_def detect_format_downgrade_def parse_wal_records_counted_def)
qed

section \<open>The structural check\<close>

lemma checked_cause_reread [simp]: "checked_cause (reread f) = checked_cause f"
  by (cases f) simp_all

lemma structural_reread: "structural_errors i seen prev (map reread fs) = structural_errors i seen prev fs"
  by (induction fs arbitrary: i seen prev) (simp_all add: Let_def)

lemma structural_append:
  "structural_errors i seen prev (fs @ gs) = structural_errors i seen prev fs @
     structural_errors (i + length fs) (seen \<union> fact_id_of ` set fs) (if fs = [] then prev else Some (fact_id_of (last fs))) gs"
proof (induction fs arbitrary: i seen prev)
  case (Cons f fs)
  have "insert (fact_id_of f) seen \<union> fact_id_of ` set fs = seen \<union> fact_id_of ` set (f # fs)" by auto
  with Cons.IH [of "i + 1" "insert (fact_id_of f) seen" "Some (fact_id_of f)"] show ?case by (simp add: Let_def)
qed simp

text \<open>What an accepted log is: increasing identifiers, and causes that are earlier facts.\<close>

lemma structural_ok_iff:
  "structural_errors i seen prev fs = [] \<longleftrightarrow>
     sorted_wrt (<) (case prev of Some p \<Rightarrow> p # map fact_id_of fs | None \<Rightarrow> map fact_id_of fs) \<and>
     (\<forall>k < length fs. \<forall>c. checked_cause (fs ! k) = Some c \<longrightarrow> c \<in> seen \<union> fact_id_of ` set (take k fs))"
proof (induction fs arbitrary: i seen prev)
  case Nil
  then show ?case by (cases prev) simp_all
next
  case (Cons f fs)
  have causes: "(\<forall>k < length (f # fs). \<forall>c. checked_cause ((f # fs) ! k) = Some c \<longrightarrow> c \<in> seen \<union> fact_id_of ` set (take k (f # fs))) \<longleftrightarrow>
      (\<forall>c. checked_cause f = Some c \<longrightarrow> c \<in> seen) \<and>
      (\<forall>k < length fs. \<forall>c. checked_cause (fs ! k) = Some c \<longrightarrow> c \<in> insert (fact_id_of f) seen \<union> fact_id_of ` set (take k fs))"
    unfolding All_less_Suc2 length_Cons by auto
  have ids: "sorted_wrt (<) (case prev of Some p \<Rightarrow> p # map fact_id_of (f # fs) | None \<Rightarrow> map fact_id_of (f # fs)) \<longleftrightarrow>
      (\<forall>p. prev = Some p \<longrightarrow> p < fact_id_of f) \<and> sorted_wrt (<) (fact_id_of f # map fact_id_of fs)"
    by (cases prev) auto
  have step: "structural_errors i seen prev (f # fs) = [] \<longleftrightarrow>
      (\<forall>p. prev = Some p \<longrightarrow> p < fact_id_of f) \<and> (\<forall>c. checked_cause f = Some c \<longrightarrow> c \<in> seen) \<and>
      structural_errors (i + 1) (insert (fact_id_of f) seen) (Some (fact_id_of f)) fs = []"
    by (auto simp: Let_def not_le split: option.splits)
  show ?case unfolding step causes ids Cons.IH by auto
qed

section \<open>The run\<close>

fun is_transition :: "fact \<Rightarrow> bool" where
  "is_transition (StateTransition _ _ _ _) = True"
| "is_transition _ = False"

text \<open>The payload a list of facts leads to, and what holds of the variables of a run whenever the loop is entered.\<close>

fun payload_after :: "json \<Rightarrow> fact list \<Rightarrow> json" where
  "payload_after p [] = p"
| "payload_after p (StateTransition _ _ new_payload _ # fs) = payload_after new_payload fs"
| "payload_after p (_ # fs) = payload_after p fs"

lemma payload_after_append: "payload_after p (fs @ gs) = payload_after (payload_after p fs) gs"
  by (induction p fs rule: payload_after.induct) simp_all

definition log_ok :: "json \<Rightarrow> cli_state \<Rightarrow> bool" where
  "log_ok instruction s \<longleftrightarrow>
     (\<exists>fs. cs_facts s = Command 1 instruction # fs) \<and>
     next_id_value (cs_ids s) = word_of_nat (Suc (length (cs_facts s))) \<and>
     map fact_id_of (cs_facts s) = map word_of_nat [1..<Suc (length (cs_facts s))] \<and>
     cs_cause s \<in> fact_id_of ` set (cs_facts s) \<and> structural_errors 0 {} None (cs_facts s) = []"

definition cli_ok :: "json \<Rightarrow> json \<Rightarrow> cli_state \<Rightarrow> bool" where
  "cli_ok p0 instruction s \<longleftrightarrow> log_ok instruction s \<and>
     cs_ver s = word_of_nat (length (filter is_transition (cs_facts s))) \<and> cs_payload s = payload_after p0 (cs_facts s)"

lemma last_id:
  "map fact_id_of fs = map word_of_nat [1..<Suc (length fs)] \<Longrightarrow> fs \<noteq> [] \<Longrightarrow> fact_id_of (last fs) = word_of_nat (length fs)"
  by (metis (no_types, lifting) One_nat_def Suc_le_eq last_map last_upt length_greater_0_conv list.map_disc_iff not_less_eq
      upt_eq_Nil_conv Suc_eq_plus1 add_diff_cancel_right' diff_Suc_1 leD)

lemma next_id_less:
  assumes "Suc n < 2 ^ 64"
  shows "(word_of_nat n :: u64) < word_of_nat (Suc n)"
  using assms by (simp add: word_less_nat_alt unat_of_nat take_bit_nat_eq_self del: of_nat_Suc)

text \<open>One more fact, under the next identifier and with the current cause, if it has one.\<close>

lemma cli_emit_facts:
  "log_ok instruction s \<Longrightarrow> cs_facts (cli_emit mk s) = cs_facts s @ [mk (word_of_nat (Suc (length (cs_facts s))))]"
  by (simp add: cli_emit_def next_id_def log_ok_def)

lemma cli_emit_frame [simp]:
  "cs_queue (cli_emit mk s) = cs_queue s" "cs_payload (cli_emit mk s) = cs_payload s" "cs_steps (cli_emit mk s) = cs_steps s"
  "cs_ver (cli_emit mk s) = cs_ver s" "cs_cause (cli_emit mk s) = cs_cause s"
  by (simp_all add: cli_emit_def next_id_def)

lemma log_ok_frame:
  "log_ok i (s\<lparr>cs_queue := q, cs_steps := n\<rparr>) \<longleftrightarrow> log_ok i s"
  "log_ok i (s\<lparr>cs_payload := p, cs_queue := q, cs_ver := v\<rparr>) \<longleftrightarrow> log_ok i s"
  by (simp_all add: log_ok_def)

lemma emit_log_ok:
  assumes ok: "log_ok instruction s" and len: "Suc (length (cs_facts s)) < 2 ^ 64"
    and mk: "\<And>i. fact_id_of (mk i) = i" "\<And>i. checked_cause (mk i) \<in> {None, Some (cs_cause s)}"
  shows "log_ok instruction (cli_emit mk s)"
proof -
  let ?n = "length (cs_facts s)" and ?i = "word_of_nat (Suc (length (cs_facts s))) :: u64"
  have s: "\<exists>fs. cs_facts s = Command 1 instruction # fs" "next_id_value (cs_ids s) = ?i"
    "map fact_id_of (cs_facts s) = map word_of_nat [1..<Suc ?n]" "cs_cause s \<in> fact_id_of ` set (cs_facts s)"
    "structural_errors 0 {} None (cs_facts s) = []"
    using ok by (simp_all only: log_ok_def)
  have ne: "cs_facts s \<noteq> []" using s(1) by auto
  have less: "fact_id_of (last (cs_facts s)) < ?i"
    unfolding last_id [OF s(3) ne] by (rule next_id_less [OF len])
  have cause: "c \<in> fact_id_of ` set (cs_facts s)" if "checked_cause (mk ?i) = Some c" for c
    using mk(2) [of ?i] s(4) that by auto
  note f = cli_emit_facts [OF ok, of mk]
  have errs: "structural_errors 0 {} None (cs_facts (cli_emit mk s)) = []"
    unfolding f structural_append s(5) using ne less cause mk(1) by (auto simp: Let_def not_le split: option.splits)
  have upt: "[1..<Suc (Suc ?n)] = [1..<Suc ?n] @ [Suc ?n]" by simp
  have ids: "map fact_id_of (cs_facts (cli_emit mk s)) = map word_of_nat [1..<Suc (length (cs_facts (cli_emit mk s)))]"
    using s(3) mk(1) unfolding f length_append_singleton upt map_append by (simp del: upt_Suc of_nat_Suc)
  have nxt: "next_id_value (cs_ids (cli_emit mk s)) = word_of_nat (Suc (length (cs_facts (cli_emit mk s))))"
    unfolding f length_append_singleton using s(2) by (simp add: cli_emit_def next_id_def)
  show ?thesis
    unfolding log_ok_def using s(1,4) ids nxt errs f by auto
qed

lemma emit_cli_ok:
  assumes ok: "cli_ok p0 instruction s" and "Suc (length (cs_facts s)) < 2 ^ 64"
    and "\<And>i. fact_id_of (mk i) = i" "\<And>i. checked_cause (mk i) \<in> {None, Some (cs_cause s)}" and plain: "\<And>i. \<not> is_transition (mk i)"
  shows "cli_ok p0 instruction (cli_emit mk s)"
proof -
  have "payload_after p [mk i] = p" for p i using plain [of i] by (cases "mk i") simp_all
  then show ?thesis
    using assms emit_log_ok [of instruction s mk] cli_emit_facts [of instruction s mk]
    by (simp add: cli_ok_def payload_after_append)
qed

lemma transition_cli_ok:
  assumes ok: "cli_ok p0 instruction s" and len: "Suc (length (cs_facts s)) < 2 ^ 64"
  shows "cli_ok p0 instruction (cli_transition p q s) \<and> length (cs_facts (cli_transition p q s)) = Suc (length (cs_facts s))"
proof -
  let ?s1 = "s\<lparr>cs_payload := p, cs_queue := q, cs_ver := cs_ver s + 1\<rparr>"
  let ?mk = "\<lambda>i. StateTransition i (cs_cause s) p q" and ?i = "word_of_nat (Suc (length (cs_facts s))) :: u64"
  have l: "log_ok instruction ?s1" using ok by (simp add: cli_ok_def log_ok_frame)
  have "log_ok instruction (cli_emit ?mk ?s1)" using len by (intro emit_log_ok [OF l]) simp_all
  moreover note f = cli_emit_facts [OF l, of ?mk]
  moreover have "fst (next_id (cs_ids s)) = ?i" using ok by (simp add: cli_ok_def log_ok_def next_id_def)
  ultimately show ?thesis
    using ok by (auto simp: cli_transition_def cli_ok_def log_ok_def payload_after_append Let_def)
qed

text \<open>A pass keeps the invariant and adds one fact, or two when it leaves the loop.\<close>

lemma pass_ok:
  assumes ok: "cli_ok p0 instruction s" and len: "Suc (Suc (length (cs_facts s))) < 2 ^ 64"
  shows "case cli_pass dbg rules i s of
      Inr s' \<Rightarrow> cli_ok p0 instruction s' \<and> length (cs_facts s') = Suc (length (cs_facts s))
    | Inl s' \<Rightarrow> cli_ok p0 instruction s' \<and> length (cs_facts s') \<le> Suc (Suc (length (cs_facts s)))"
proof -
  have l: "log_ok instruction s" using ok by (simp add: cli_ok_def)
  have one: "cli_ok p0 instruction (cli_emit mk s) \<and> length (cs_facts (cli_emit mk s)) = Suc (length (cs_facts s))"
    if "\<And>i. fact_id_of (mk i) = i" "\<And>i. checked_cause (mk i) \<in> {None, Some (cs_cause s)}" "\<And>i. \<not> is_transition (mk i)" for mk
    using emit_cli_ok [OF ok _ that] cli_emit_facts [OF l] len by simp
  have io: "cli_ok p0 instruction (cli_emit (\<lambda>i. Error i m) (cli_emit (\<lambda>i. IoRequest i (cs_cause s) t ps) s)) \<and>
      length (cs_facts (cli_emit (\<lambda>i. Error i m) (cli_emit (\<lambda>i. IoRequest i (cs_cause s) t ps) s))) = Suc (Suc (length (cs_facts s)))"
    for m t ps
  proof -
    let ?t = "cli_emit (\<lambda>i. IoRequest i (cs_cause s) t ps) s"
    have t: "cli_ok p0 instruction ?t" "length (cs_facts ?t) = Suc (length (cs_facts s))"
      using one [of "\<lambda>i. IoRequest i (cs_cause s) t ps"] by simp_all
    then have "log_ok instruction ?t" by (simp add: cli_ok_def)
    from emit_cli_ok [OF t(1), of "\<lambda>i. Error i m"] cli_emit_facts [OF this] t(2) len show ?thesis by simp
  qed
  show ?thesis
    using one io transition_cli_ok [OF ok] len
    by (auto simp: cli_pass_def split: sum.splits transition_result.splits)
qed

lemma loop_ok:
  assumes "cli_ok p0 instruction s" "length (cs_facts s) = Suc (cs_steps s)" "cs_steps s \<le> max_steps" "max_steps + 3 < 2 ^ 64"
  shows "cli_ok p0 instruction (cli_loop dbg rules max_steps s) \<and> length (cs_facts (cli_loop dbg rules max_steps s)) \<le> max_steps + 2"
  using assms
proof (induction dbg rules max_steps s rule: cli_loop.induct)
  case (1 dbg rules max_steps s)
  show ?case
  proof (cases "cs_queue s")
    case Nil
    with 1 show ?thesis by (simp add: cli_loop.simps)
  next
    case (Cons i rest)
    let ?s = "s\<lparr>cs_queue := rest, cs_steps := cs_steps s + 1\<rparr>"
    have l: "log_ok instruction s" using 1 by (simp add: cli_ok_def)
    show ?thesis
    proof (cases "cs_steps s < max_steps")
      case False
      then show ?thesis
        using 1 Cons emit_cli_ok [OF 1(2), of "\<lambda>i. Error i (''max_steps exceeded: '' @ dec_nat (cs_steps s))"] cli_emit_facts [OF l]
        by (simp add: cli_loop.simps)
    next
      case True
      have ok: "cli_ok p0 instruction ?s" using 1(2) by (simp add: cli_ok_def log_ok_frame)
      have len: "Suc (Suc (length (cs_facts ?s))) < 2 ^ 64" using 1 True by simp
      note p = pass_ok [OF ok len, of dbg rules i]
      show ?thesis
      proof (cases "cli_pass dbg rules i ?s")
        case (Inl s')
        with p 1 True Cons show ?thesis by (simp add: cli_loop.simps [of dbg rules max_steps s])
      next
        case (Inr s')
        have "cs_steps s' = cs_steps s + 1" using cli_pass_steps [OF Inr] by simp
        then show ?thesis
          using 1(1) [OF Cons, of s'] Inr p 1 True Cons by (simp add: cli_loop.simps [of dbg rules max_steps s])
      qed
    qed
  qed
qed

lemma start_ok: "cli_ok p0 instruction (cli_start p0 instruction)" "cs_steps (cli_start p0 instruction) = 0"
    "length (cs_facts (cli_start p0 instruction)) = 1"
  by (simp_all add: cli_start_def cli_ok_def log_ok_def next_id_def id_gen_new_def Let_def)

text \<open>The facts of a run.\<close>

lemma run_facts:
  assumes "max_steps + 3 < 2 ^ 64" "cli_execute dbg rules p0 instruction max_steps = (fs, p)"
  shows "(\<exists>gs v. fs = Command 1 instruction # gs @ [Stable (word_of_nat (length fs)) v] \<and>
       v = word_of_nat (length (filter is_transition fs)))"
    "length fs \<le> max_steps + 3" "map fact_id_of fs = map word_of_nat [1..<Suc (length fs)]"
    "verify_structural_invariants fs = []" "p = payload_after p0 fs"
proof -
  let ?s = "cli_loop dbg rules max_steps (cli_start p0 instruction)"
  let ?e = "cli_emit (\<lambda>i. Stable i (cs_ver ?s)) ?s"
  have s: "cli_ok p0 instruction ?s" "length (cs_facts ?s) \<le> max_steps + 2"
    using loop_ok [OF start_ok(1)] start_ok(2,3) assms(1) by auto
  have l: "log_ok instruction ?s" using s(1) by (simp add: cli_ok_def)
  have e: "cli_ok p0 instruction ?e" using s assms(1) by (intro emit_cli_ok) simp_all
  note f = cli_emit_facts [OF l, of "\<lambda>i. Stable i (cs_ver ?s)"]
  have fs: "fs = cs_facts ?e" "p = cs_payload ?e" using assms(2) by (simp_all add: cli_execute_def Let_def)
  from e have ok: "map fact_id_of fs = map word_of_nat [1..<Suc (length fs)]" "structural_errors 0 {} None fs = []" "p = payload_after p0 fs"
    by (simp_all only: fs cli_ok_def log_ok_def)
  show "map fact_id_of fs = map word_of_nat [1..<Suc (length fs)]" "verify_structural_invariants fs = []" "p = payload_after p0 fs"
    using ok by (simp_all only: verify_structural_invariants_def)
  show "length fs \<le> max_steps + 3" using s(2) by (simp add: fs f)
  obtain gs where gs: "cs_facts ?s = Command 1 instruction # gs" using l by (auto simp: log_ok_def)
  have ver: "cs_ver ?s = word_of_nat (length (filter is_transition gs))" using s(1) gs by (simp add: cli_ok_def)
  have "fs = Command 1 instruction # gs @ [Stable (word_of_nat (Suc (Suc (length gs)))) (word_of_nat (length (filter is_transition gs)))]"
    using fs(1) unfolding f unfolding ver gs by simp
  then show "\<exists>gs v. fs = Command 1 instruction # gs @ [Stable (word_of_nat (length fs)) v] \<and>
       v = word_of_nat (length (filter is_transition fs))"
    by simp
qed


section \<open>Hashed records\<close>

lemma stored_chain_exact:
  assumes "\<forall>r \<in> set rs. wal_chain_hash r \<noteq> None"
  shows "verify_hash_chain_from blake3 ser i prev rs = Inr () \<longleftrightarrow> hash_chained blake3 ser prev rs"
  using assms by (induction rs arbitrary: i prev) (auto simp: Let_def chain_step_def)

text \<open>The chain hashes after each fact.\<close>

fun chain_trace :: "(string \<Rightarrow> string) \<Rightarrow> (serde \<Rightarrow> string) \<Rightarrow> string \<Rightarrow> fact list \<Rightarrow> string list" where
  "chain_trace blake3 ser prev [] = []"
| "chain_trace blake3 ser prev (f # fs) =
     (let c = chain_step blake3 prev (fact_hash blake3 ser f) in c # chain_trace blake3 ser c fs)"

lemma chain_trace_length [simp]: "length (chain_trace blake3 ser prev fs) = length fs"
  by (induction fs arbitrary: prev) (simp_all add: Let_def)

lemma chain_trace_nth: "k < length fs \<Longrightarrow> chain_trace blake3 ser prev fs ! k = chain_from blake3 ser prev (take (Suc k) fs)"
  by (induction fs arbitrary: prev k) (auto simp: Let_def chain_from_def nth_Cons split: nat.splits)

lemma chain_trace_last: "fs \<noteq> [] \<Longrightarrow> last (chain_trace blake3 ser prev fs) = chain_from blake3 ser prev fs"
  by (subst last_conv_nth) (auto simp: chain_trace_nth simp flip: length_greater_0_conv)

lemma verify_records_trace:
  "verify_records remark blake3 ser prev rs = Inr cs \<Longrightarrow> cs = chain_trace blake3 ser prev (map wal_fact rs)"
  by (induction rs arbitrary: prev cs) (auto simp: Let_def result_simps split: if_splits)

lemma prefix_records_chained:
  "hash_chained blake3 ser prev rs \<Longrightarrow> verify_records remark blake3 ser prev rs = Inr (chain_trace blake3 ser prev (map wal_fact rs))"
  by (induction rs arbitrary: prev) (auto simp: Let_def)

section \<open>Shown of the command line\<close>

text \<open>
  C36: what \<open>evorule run\<close> writes, \<open>evorule verify-chain\<close> accepts.  For every rule set, payload, instruction
  and limit of steps the facts of the run, written to a file and read again, are the facts with their values
  converted there and back, with identifiers 1, 2, and so on; the run takes at most the allowed number of
  steps; and the check of the file succeeds.
\<close>

theorem run_log_verifies:
  assumes "json_lines ser de" "max_steps + 3 < 2 ^ 64"
    and "cli_execute dbg rules p0 instruction max_steps = (facts, p)"
  shows "read_facts de (Inr (write_facts ser facts)) = Inr (map reread facts) \<and>
    map fact_id_of facts = map word_of_nat [1..<Suc (length facts)] \<and> length facts \<le> max_steps + 3 \<and>
    verify_chain_command blake3 ser de [(0, str_lines (write_facts ser facts))] (Inr (write_facts ser facts)) = Inr ()"
proof -
  note r = run_facts [OF assms(2,3)]
  then obtain f fs where f: "facts = f # fs" by auto
  then have ne: "facts \<noteq> []" by simp
  note lines = facts_lines [OF assms(1) ne]
  have read: "read_facts de (Inr (write_facts ser facts)) = Inr (map reread facts)"
    by (simp add: read_facts_def parse_facts_def lines parse_facts_lines [OF assms(1)])
  obtain e where e: "read_wal_with_hash de [(0, str_lines (write_facts ser facts))] = Inl e"
    using raw_log_is_no_wal [OF assms(1), of f fs] lines f by auto
  have "first_line (str_lines (write_facts ser facts)) = Some (ser (fact_to_json f))"
    unfolding lines unfolding f by (simp add: fact_line [OF assms(1)])
  then have raw: "looks_like_raw_fact_log de (Inr (write_facts ser facts))"
    by (simp add: looks_like_raw_fact_log_def fact_line [OF assms(1)] fact_json_fields)
  have "verify_and_report_structural (map reread facts) = Inr ()"
    using r(4) by (simp add: verify_and_report_structural_def verify_structural_invariants_def structural_reread)
  with read e raw r show ?thesis by (simp add: verify_chain_command_def)
qed

definition line_de :: "string \<Rightarrow> string + serde" where
  "line_de s = (if s = WAL_FORMAT_HEADER then Inr (SObject [(''format'', SString ''evorule-wal/2'')]) else unary_de s)"

lemma unary_ser_not_header: "unary_ser v \<noteq> WAL_FORMAT_HEADER"
  by (cases "to_nat v") (simp_all add: unary_ser_def WAL_FORMAT_HEADER_def)

lemma line_de_laws: "json_lines unary_ser line_de"
proof -
  have "CHR 0x0A \<notin> set (unary_ser v)" for v by (auto simp: unary_ser_def)
  then show ?thesis
    by (simp add: json_lines_def json_text_def line_de_def unary_ser_not_header unary_ser_laws) (simp add: unary_ser_def)
qed

theorem run_log_verifies_witness:
  "\<exists>facts p. cli_execute (\<lambda>_. []) [] empty_object (Object [(''type'', String ''noop'')]) 5 = (facts, p) \<and>
     length facts \<le> 8 \<and>
     verify_chain_command id unary_ser line_de [(0, str_lines (write_facts unary_ser facts))] (Inr (write_facts unary_ser facts)) = Inr ()"
proof -
  obtain facts p where e: "cli_execute (\<lambda>_. []) [] empty_object (Object [(''type'', String ''noop'')]) 5 = (facts, p)" by fastforce
  have "(5 :: nat) + 3 < 2 ^ 64" by simp
  from run_log_verifies [OF line_de_laws this e, of id] e show ?thesis by auto
qed

text \<open>
  Loading rules does not depend on the order in which the directory lists its files.
\<close>

lemma load_rules_deterministic:
  assumes "mset es = mset es'" "distinct (map fst es)"
  shows "load_rules de path (Dir es) = load_rules de path (Dir es')"
proof -
  let ?f = "filter (\<lambda>e. is_rule_file (fst e))"
  have "mset (?f es) = mset (?f es')" using assms(1) by simp
  moreover have "distinct (map fst (?f es))" using assms(2) by (rule distinct_map_filter)
  ultimately have "sort_key fst (?f es) = sort_key fst (?f es')"
    by (intro sort_key_inj_key_eq) (simp_all add: distinct_map del: mset_filter)
  then show ?thesis by (simp add: load_rules_def)
qed

text \<open>The reader without hashes gives the facts of the reader with hashes.\<close>

lemma read_wal_agrees:
  assumes "read_wal_with_hash de d = Inr rs"
  shows "read_wal de d = Inr (map (\<lambda>r. (version_before r, wal_fact r)) rs)"
proof (cases "bt_get 0 d")
  case None
  then show ?thesis using assms by (simp add: read_wal_with_hash_def read_wal_def del: read_segments.simps)
next
  case (Some lines)
  then show ?thesis
    using assms by (cases "detect_format_downgrade lines") (simp_all add: read_wal_with_hash_def read_wal_def del: read_segments.simps)
qed

lemma no_difference: "snd (compare_facts as bs) = 0 \<longleftrightarrow> list_all2 fact_eq as bs"
  by (induction as bs rule: compare_facts.induct) (auto simp: Let_def split: prod.splits)

section \<open>The repair\<close>

lemma split_last_line_append:
  assumes "CHR 0x0A \<notin> set half"
  shows "split_last_line (s @ CHR 0x0A # half) = Some (s @ [CHR 0x0A], half)"
proof -
  have "takeWhile (\<lambda>c. c \<noteq> CHR 0x0A) (rev half @ CHR 0x0A # rev s) = rev half"
    using assms by (intro takeWhile_tail [THEN trans]) auto
  then show ?thesis by (simp add: split_last_line_def)
qed

lemma split_last_lineE:
  assumes "split_last_line s = Some (prefix, half)"
  obtains a where "prefix = a @ [CHR 0x0A]" "s = prefix @ half" "CHR 0x0A \<notin> set half"
proof -
  from assms have "CHR 0x0A \<in> set s" by (auto simp: split_last_line_def split: if_splits)
  then obtain a b where ab: "s = a @ CHR 0x0A # b" "CHR 0x0A \<notin> set b" using split_list_last by metis
  then show thesis using assms that split_last_line_append [OF ab(2), of a] by auto
qed

text \<open>The repair leaves the file as it is, or cuts off what follows the last line feed and keeps a copy.\<close>

lemma repair_keeps_lines:
  assumes "truncate_partial_line blake3 ser de os confirm data = (file, bak, res)"
  shows "file = data \<or> confirm \<and> bak = Some data \<and> (\<exists>a half. file = a @ [CHR 0x0A] \<and> data = file @ half \<and> CHR 0x0A \<notin> set half)"
proof (cases "split_last_line data")
  case None
  with assms show ?thesis by (simp add: truncate_partial_line_def)
next
  case (Some x)
  obtain prefix half where x: "split_last_line data = Some (prefix, half)" using Some by (cases x) auto
  then have "\<exists>a half. prefix = a @ [CHR 0x0A] \<and> data = prefix @ half \<and> CHR 0x0A \<notin> set half"
    by (elim split_last_lineE) blast
  with assms x show ?thesis
    by (auto simp: truncate_partial_line_def split: if_splits option.splits sum.splits)
qed

lemma repair_runs:
  assumes "\<forall>l \<in> set ls. CHR 0x0A \<notin> set l \<and> trim l = l" "ls \<noteq> []" "CHR 0x0A \<notin> set half" "\<not> list_all is_ascii_whitespace half"
    and "read_wal_with_hash de [(0, ls)] = Inr rs"
  shows "truncate_partial_line blake3 ser de \<lparr>ro_temp = None, ro_backup = None, ro_write = None\<rparr> True (unlines ls @ half) =
    (case verify_records [] blake3 ser genesis rs of
       Inr _ \<Rightarrow> (unlines ls, Some (unlines ls @ half), Inr ())
     | Inl e \<Rightarrow> (unlines ls @ half, None, Inl (CliOther ((utf8 [229, 137, 141, 231, 188, 128, 233, 147, 190, 233, 170, 140, 232, 175, 129]) @ '' FAIL'' @ (utf8 [239, 188, 136, 230, 136, 170, 230, 150, 173, 230, 151, 160, 230, 181, 142, 228, 186,
       142, 228, 186, 139, 239, 188, 140, 230, 150, 135, 228, 187, 182, 229, 173, 152, 229, 156,
       168, 230, 155, 180, 230, 151, 169, 231, 160, 180, 229, 157, 143, 239, 188, 137]) @ '': '' @ e))))"
proof -
  obtain ms l where ls: "ls = ms @ [l]" using assms(2) by (cases ls rule: rev_cases) auto
  then have "split_last_line (unlines ls @ half) = Some (unlines ls, half)"
    using split_last_line_append [OF assms(3), of "unlines ms @ l"] by (simp add: unlines_def)
  then show ?thesis
    using assms(4,5) lines_unlines [OF assms(1)] by (simp add: truncate_partial_line_def split: sum.splits)
qed

lemma single_segment:
  assumes "writer_inv w [(0, ls)] lines"
  shows "ls = WAL_FORMAT_HEADER # lines"
proof -
  obtain segs where s: "segments [(0, ls)] segs" "concat segs = WAL_FORMAT_HEADER # lines" "length segs = file_sequence w + 1"
    using assms by (auto simp: writer_inv_def)
  have "length segs = 1" using segments_length [OF s(1)] s(3) by simp
  then obtain x where "segs = [x]" by (auto simp: length_Suc_conv)
  with s show ?thesis by (auto simp: segments_def dest: spec [of _ 0])
qed

text \<open>
  The repair of a log in one file.  At any point of the life of a log that was not rotated, when a
  write that was cut short has left a half line behind the lines of the file, the repair keeps exactly the
  lines and a copy of the damaged file; the lines read as the records of the log, so that nothing that was
  acknowledged is lost.
\<close>

theorem repair_restores_log:
  assumes "json_lines ser de" "log_life blake3 ser de limit l" "wal l = Some (w, [(0, ls)])"
    and "CHR 0x0A \<notin> set half" "\<not> list_all is_ascii_whitespace half"
  shows "truncate_partial_line blake3 ser de \<lparr>ro_temp = None, ro_backup = None, ro_write = None\<rparr> True (unlines ls @ half) =
      (unlines ls, Some (unlines ls @ half), Inr ()) \<and>
    str_lines (unlines ls) = ls \<and>
    read_wal de [(0, str_lines (unlines ls))] = Inr (history l)"
proof -
  have jt: "json_text ser de" using assms(1) by (simp add: json_lines_def)
  obtain data where st: "writer_inv w [(0, ls)] (map (record_line ser) data)" "synced blake3 ser l (map record_of data)"
    and rd: "read_wal_with_hash de [(0, ls)] = Inr (map record_of data)"
    and hist: "history l = map (\<lambda>r. (version_before r, wal_fact r)) (map record_of data)"
    by (rule life_data [OF jt assms(2)]) (use assms(3) in auto)
  have ls: "ls = WAL_FORMAT_HEADER # map (record_line ser) data" by (rule single_segment [OF st(1)])
  have line: "CHR 0x0A \<notin> set l \<and> trim l = l" if "l \<in> set ls" for l
  proof (cases "l = WAL_FORMAT_HEADER")
    case True
    then show ?thesis using header_facts(1) by (simp add: WAL_FORMAT_HEADER_def)
  next
    case False
    with that obtain v where "l = ser v" "\<exists>m. v = SObject m"
      using serde_map_object unfolding ls record_line_def hash_record_json_def by (auto split: prod.splits) blast
    with assms(1) show ?thesis by (auto simp: json_lines_def json_text_def)
  qed
  have chained: "hash_chained blake3 ser genesis (map record_of data)" using st(2) by (simp add: synced_def)
  have lines: "str_lines (unlines ls) = ls" using line by (intro lines_unlines) blast
  show ?thesis
    using repair_runs [OF _ _ assms(4,5) rd, of blake3 ser] line prefix_records_chained [OF chained] lines read_wal_agrees [OF rd] hist ls
    by simp
qed


definition sample_cli_log :: "(wal_writer \<times> disk) facts_log" where
  "sample_cli_log = snd (append (file_store (\<lambda>_. None) unary_ser) id unary_ser (Stable 1 0) (with_wal_options 0 []))"

lemma sample_cli_life: "log_life id unary_ser line_de 0 sample_cli_log"
  unfolding sample_cli_log_def
  by (intro log_life.intros) (simp_all add: with_wal_options_def with_wal_store_def log_new_def)

lemma sample_cli_state:
  "\<exists>w ls. wal sample_cli_log = Some (w, [(0, ls)])" "history sample_cli_log = [(0, Stable 1 0)]"
  by (simp_all add: sample_cli_log_def append_def append_memory_def with_wal_options_def with_wal_store_def log_new_def
      create_with_options_def file_store_def append_record_with_hash_def append_line_def Let_def push_history_def
      index_fact_def split: prod.splits option.splits sum.splits)

theorem repair_restores_log_witness:
  "\<exists>ls. truncate_partial_line id unary_ser line_de \<lparr>ro_temp = None, ro_backup = None, ro_write = None\<rparr> True (unlines ls @ ''half'') =
      (unlines ls, Some (unlines ls @ ''half''), Inr ()) \<and> read_wal line_de [(0, str_lines (unlines ls))] = Inr [(0, Stable 1 0)]"
proof -
  obtain w ls where w: "wal sample_cli_log = Some (w, [(0, ls)])" using sample_cli_state(1) by blast
  have h: "CHR 0x0A \<notin> set ''half''" "\<not> list_all is_ascii_whitespace ''half''" by (simp_all add: is_ascii_whitespace_def)
  from repair_restores_log [OF line_de_laws sample_cli_life w h] sample_cli_state(2) show ?thesis by auto
qed

text \<open>
  A rotated file cannot be repaired: its first record continues the file before it, and the check of the
  lines starts at the beginning of a chain.  The file is left as it is and the command fails.
\<close>

lemma rotated_file_not_repaired:
  assumes "\<forall>l \<in> set ls. CHR 0x0A \<notin> set l \<and> trim l = l" "ls \<noteq> []" "CHR 0x0A \<notin> set half" "\<not> list_all is_ascii_whitespace half"
    and "read_wal_with_hash de [(0, ls)] = Inr (r # rs)" "hash_chained blake3 ser prev (r # rs)" "prev \<noteq> genesis"
  shows "fst (truncate_partial_line blake3 ser de \<lparr>ro_temp = None, ro_backup = None, ro_write = None\<rparr> True (unlines ls @ half)) =
      unlines ls @ half \<and>
    \<not> is_ok (snd (snd (truncate_partial_line blake3 ser de \<lparr>ro_temp = None, ro_backup = None, ro_write = None\<rparr> True (unlines ls @ half))))"
  unfolding repair_runs [OF assms(1-5)] using assms(6,7) by (simp add: Let_def)

text \<open>A fact whose cause is not in the log, as the reactor records them after a restart with queued instructions, is refused.\<close>

lemma unknown_cause_refused:
  assumes "checked_cause f = Some 0" "\<forall>g \<in> set fs. fact_id_of g \<noteq> 0" "f \<in> set fs"
  shows "verify_and_report_structural fs \<noteq> Inr ()"
proof -
  obtain k where k: "k < length fs" "fs ! k = f" using assms(3) by (auto simp: in_set_conv_nth)
  have "0 \<notin> fact_id_of ` set (take k fs)" using assms(2) by (auto dest: in_set_takeD)
  then have "structural_errors 0 {} None fs \<noteq> []" unfolding structural_ok_iff using k assms(1) by auto
  then show ?thesis by (simp add: verify_and_report_structural_def verify_structural_invariants_def)
qed

end
