(* ===== verification/Sentinel.thy ===== *)
theory Sentinel
  imports Cli Anchor
begin

text \<open>
  The sentinel of audit chains, \<open>evorule-cli/src/commands/scan_wal_dir.rs\<close>: a scan of a directory of logs that
  verifies every log and compares it with what the scan before saw.  The directory is an input: the names in
  it and, for each path, the log that is read from it.  The output for the user and the log of scans are left
  out; the baseline file holds the value last written to it.  The branch for logs without hashes is not
  reached.

  Shown is that a log that the sentinel passes twice has only been extended in between, up to a collision
  of the hash function, that no log seen before is missing then, and that the logs of sessions are passed.
\<close>

section \<open>The check of the verifier itself\<close>

definition EXIT_OK :: nat where "EXIT_OK = 0"
definition EXIT_SELF_TEST :: nat where "EXIT_SELF_TEST = 2"
definition EXIT_CHAIN_BROKEN :: nat where "EXIT_CHAIN_BROKEN = 3"
definition EXIT_FILE_GONE :: nat where "EXIT_FILE_GONE = 4"
definition EXIT_CORRUPT_REJECT :: nat where "EXIT_CORRUPT_REJECT = 5"

definition KERNEL_HASH_SNAPSHOT :: "string list" where
  "KERNEL_HASH_SNAPSHOT =
     [''56de9ce95d41896edf081f452b4ea5d3ad6508de3a0781a36fa5fbd13c586aa1'',
      ''902f22869450a78851d5bf1396b64d4bc7be0666468a39d2dac53b7d176f8047'',
      ''6c4a12ee89a692181a07ede80b0864f0774286427fce67156944f6f33290ddf7'',
      ''4855b360063f11eeffd7b8e2bd5720c641451012a688ebec489b5f8f059058aa'',
      ''867c9f708b7469ffb25682f997792b8811f34ef61eb2ee4ba23964e1c20f7909'',
      ''ac02d9e15a497b30c18ce5019a50aeced2d5d186a973ee3a0985ee728054a015'',
      ''42ca4e53611616707514550f1d2ab8a89be5ef8bd1a5f6cbd07e016bdb931afb'']"

definition golden_facts :: "fact list" where
  "golden_facts =
     [Command 1 empty_object, PayloadUpdate 2 ''test.path'' (String ''test_value''), StateTransition 3 1 empty_object [],
      IoRequest 4 3 ''http_get'' empty_object, IoResponse 5 4 (String ''response'') None, Stable 6 0, Error 7 ''test error'']"

fun golden_hashes :: "(string \<Rightarrow> string) \<Rightarrow> (serde \<Rightarrow> string) \<Rightarrow> nat \<Rightarrow> (fact \<times> string) list \<Rightarrow> cli_error + unit" where
  "golden_hashes blake3 ser i [] = Inr ()"
| "golden_hashes blake3 ser i ((f, h) # fs) =
     (if fact_hash blake3 ser f \<noteq> h
      then Inl (CliOther (''self-test FAILED: golden fact hash #'' @ dec_nat (i + 1) @
             ''/7 mismatch (verifier drifted from kernel SSOT)''))
      else golden_hashes blake3 ser (i + 1) fs)"

definition GOLDEN_PK :: string where
  "GOLDEN_PK = ''248acbdbaf9e050196de704bea2d68770e519150d103b587dae2d9cad53dd930''"

definition golden_payload :: string where
  "golden_payload = ''evorule-anchor/2|vector-sess-1|0|0|5|'' @ replicate 64 (CHR ''a'') @ ''|anchor-key-1|vector-engine/0.1|0''"

definition golden_signature :: string where
  "golden_signature = ''bb9fe4f555b816edef9e0f1438e07a3dfa944688324b489304ba0923a371024217683c56f0d0d30a6bbf1efda8dad0ba0bca829a6ca4e6598b2cf4df167e2507''"

text \<open>The copies of the hex decoder and of the signature check, with messages of their own.\<close>

fun cli_sign_error_display :: "sign_error \<Rightarrow> string" where
  "cli_sign_error_display (InvalidSign msg) = ''audit signature: invalid input: '' @ msg"
| "cli_sign_error_display (Randomness src) = ''audit signature: random seed failure: '' @ src"

fun cli_hex_pairs :: "string \<Rightarrow> sign_error + byte list" where
  "cli_hex_pairs (a # b # r) =
     (case (to_digit16 a, to_digit16 b) of
        (Some h, Some l) \<Rightarrow> map_ok (\<lambda>out. word_of_nat (16 * h + l) # out) (cli_hex_pairs r)
      | _ \<Rightarrow> Inl (InvalidSign ''hex contains non-hexadecimal characters''))"
| "cli_hex_pairs _ = Inr []"

definition cli_hex_decode :: "string \<Rightarrow> sign_error + byte list" where
  "cli_hex_decode hex =
     (if length hex mod 2 \<noteq> 0 then Inl (InvalidSign (''odd hex length: '' @ dec_nat (length hex))) else cli_hex_pairs hex)"

definition cli_verify_signature :: "'k ed25519 \<Rightarrow> byte list \<Rightarrow> string \<Rightarrow> byte list \<Rightarrow> sign_error + bool" where
  "cli_verify_signature ed verifying_bytes payload sig_bytes =
     map_err (\<lambda>e. InvalidSign (''invalid public key: '' @ e)) (ed_verify ed verifying_bytes payload sig_bytes)"

definition hex_lower_or_upper :: "char \<Rightarrow> bool" where
  "hex_lower_or_upper c \<longleftrightarrow> to_digit16 c \<noteq> None"

definition self_test :: "'k ed25519 \<Rightarrow> (string \<Rightarrow> string) \<Rightarrow> (serde \<Rightarrow> string) \<Rightarrow> cli_error + unit" where
  "self_test ed blake3 ser =
     and_then (golden_hashes blake3 ser 0 (zip golden_facts KERNEL_HASH_SNAPSHOT)) (\<lambda>_.
     let first = chain_step blake3 genesis (hd KERNEL_HASH_SNAPSHOT) in
     if length first \<noteq> 64 \<or> \<not> list_all hex_lower_or_upper first then Inl (CliOther ''self-test FAILED: chain_step output shape'')
     else
       (let pk = verifying (from_bytes ed (replicate 32 0xab)) in
        if hex_encode pk \<noteq> GOLDEN_PK then Inl (CliOther ''self-test FAILED: anchor golden pubkey mismatch'')
        else
          and_then (map_err (\<lambda>e. CliOther (''self-test hex: '' @ cli_sign_error_display e)) (cli_hex_decode golden_signature)) (\<lambda>sig.
          if length sig \<noteq> 64 then Inl (CliOther ''self-test sig length'')
          else
            and_then (map_err (\<lambda>e. CliOther (''self-test verify: '' @ cli_sign_error_display e))
                       (cli_verify_signature ed pk golden_payload sig)) (\<lambda>ok.
            if \<not> ok then Inl (CliOther ''self-test FAILED: anchor golden signature verify'') else Inr ()))))"

section \<open>The logs of a directory\<close>

text \<open>The text before and after the first \<open>.wal\<close>.\<close>

fun find_wal :: "string \<Rightarrow> (string \<times> string) option" where
  "find_wal [] = None"
| "find_wal (c # s) =
     (if starts_with ''.wal'' (c # s) then Some ([], drop 4 (c # s))
      else map_option (\<lambda>(a, b). (c # a, b)) (find_wal s))"

definition is_ascii_digit :: "char \<Rightarrow> bool" where
  "is_ascii_digit c \<longleftrightarrow> CHR ''0'' \<le> c \<and> c \<le> CHR ''9''"

definition session_wal_key :: "string \<Rightarrow> string option" where
  "session_wal_key name = do {
     rest \<leftarrow> strip_prefix ''session_'' name;
     (id_part, after_wal) \<leftarrow> find_wal rest;
     if after_wal = [] \<or> length after_wal > 1 \<and> hd after_wal = CHR ''.'' \<and> list_all is_ascii_digit (tl after_wal)
     then map_option (\<lambda>n. ''session:'' @ dec_nat n) (parse_usize id_part)
     else None }"

definition group_key :: "string \<Rightarrow> string option" where
  "group_key name =
     (case session_wal_key name of
        Some k \<Rightarrow> Some k
      | None \<Rightarrow>
          if name = ''shared_facts.wal'' then Some ''shared_facts''
          else if name = ''governance_single_reactor.wal'' then Some ''governance_single_reactor''
          else None)"

definition add_path :: "(string \<times> string list) list \<Rightarrow> string \<Rightarrow> (string \<times> string list) list" where
  "add_path groups name =
     (case group_key name of Some k \<Rightarrow> bt_put k (unwrap_or [] (bt_get k groups) @ [name]) groups | None \<Rightarrow> groups)"

text \<open>
  What is read from the directory: its listing, the log at a path (the file and the rotated files that
  belong to it) and the length of the file.
\<close>

record wal_dir =
  wd_path :: string
  wd_listing :: "string + string list"
  wd_log :: "string \<Rightarrow> disk"
  wd_len :: "string \<Rightarrow> string + nat"

definition classify :: "wal_dir \<Rightarrow> string + (string \<times> string list) list" where
  "classify dir =
     map_ok (\<lambda>names. map (\<lambda>(k, paths). (k, sort paths)) (foldl add_path bt_new names))
       (map_err (\<lambda>e. ''read wal dir: '' @ e) (wd_listing dir))"

definition at_path :: "wal_dir \<Rightarrow> string \<Rightarrow> string \<Rightarrow> string" where
  "at_path dir name msg = wd_path dir @ ''/'' @ name @ '': '' @ msg"

fun verify_paths ::
  "(string \<Rightarrow> string) \<Rightarrow> (serde \<Rightarrow> string) \<Rightarrow> (string \<Rightarrow> string + serde) \<Rightarrow> wal_dir \<Rightarrow> string \<Rightarrow> string list \<Rightarrow>
   string + (string list \<times> nat)" where
  "verify_paths blake3 ser de dir prev [] = Inr ([], 0)"
| "verify_paths blake3 ser de dir prev (p # ps) =
     and_then (map_err (at_path dir p) (wd_len dir p)) (\<lambda>n.
     and_then (map_err (\<lambda>e. at_path dir p (wal_error_display e)) (read_wal_with_hash de (wd_log dir p))) (\<lambda>records.
     and_then (map_err (at_path dir p) (verify_records '' (stored_prev != expected)'' blake3 ser prev records)) (\<lambda>chain.
     map_ok (\<lambda>(rest, m). (chain @ rest, n + m))
       (verify_paths blake3 ser de dir (last (prev # chain)) ps))))"

definition verify_group ::
  "(string \<Rightarrow> string) \<Rightarrow> (serde \<Rightarrow> string) \<Rightarrow> (string \<Rightarrow> string + serde) \<Rightarrow> wal_dir \<Rightarrow> string list \<Rightarrow>
   string + (string list \<times> nat \<times> nat)" where
  "verify_group blake3 ser de dir paths =
     map_ok (\<lambda>(chain, bytes). (chain, length chain, bytes)) (verify_paths blake3 ser de dir genesis paths)"

section \<open>The comparison with the baseline\<close>

record file_obs =
  fo_records :: nat
  fo_tail :: string
  fo_bytes :: nat
  fo_verdict :: string

type_synonym scan_baseline = "(string \<times> file_obs) list"

definition exit_rank :: "nat \<Rightarrow> nat" where
  "exit_rank c =
     (if c = EXIT_CHAIN_BROKEN then 4 else if c = EXIT_FILE_GONE then 3 else if c = EXIT_CORRUPT_REJECT then 2 else 0)"

definition bump_exit :: "nat \<Rightarrow> nat \<Rightarrow> nat" where
  "bump_exit code worst = (if exit_rank code > exit_rank worst then code else worst)"

definition compare_with_baseline ::
  "file_obs \<Rightarrow> file_obs option \<Rightarrow> bool \<Rightarrow> (string + (string list \<times> nat \<times> nat)) \<Rightarrow> nat \<Rightarrow> string \<times> nat" where
  "compare_with_baseline obs prev unhashed recheck worst =
     (case prev of
        None \<Rightarrow> (''new-file'', worst)
      | Some prev_obs \<Rightarrow>
          if unhashed then
            (if fo_tail prev_obs = fo_tail obs then (''unchanged'', worst)
             else (''UNHASHED-CHANGED'' @ (utf8 [239, 188, 136, 229, 134, 133, 229, 174, 185, 229, 143, 152, 229, 140, 150, 239, 188,
       154, 230, 173, 163, 229, 184, 184, 232, 191, 189, 229, 138, 160, 230, 136, 150, 231, 175,
       161, 230, 148, 185, 228, 184, 141, 229, 143, 175, 229, 136, 134, 239, 188, 140, 228, 186,
       186, 229, 183, 165, 231, 161, 174, 232, 174, 164, 239, 188, 137]), bump_exit EXIT_CHAIN_BROKEN worst))
          else if fo_records obs < fo_records prev_obs
          then (''REGRESSED'' @ (utf8 [239, 188, 136, 232, 174, 176, 229, 189, 149, 229, 155, 158, 233, 128, 128, 239, 188,
       154, 228, 184, 138, 232, 189, 174]) @ '' '' @ dec_nat (fo_records prev_obs) @ '' '' @ (utf8 [226, 134, 146]) @ '' '' @ (utf8 [230, 156, 172, 232, 189, 174]) @ '' '' @
                  dec_nat (fo_records obs) @ (utf8 [239, 188, 137]), bump_exit EXIT_CHAIN_BROKEN worst)
          else if fo_records obs = fo_records prev_obs then
            (if fo_tail obs = fo_tail prev_obs then (''unchanged'', worst)
             else (''TAIL-CHANGED-SAME-LENGTH'' @ (utf8 [239, 188, 136, 229, 144, 140, 228, 189, 141, 233, 147, 190, 229, 176, 190, 229, 143,
       152, 229, 140, 150] @ ''='' @ utf8 [231, 175, 161, 230, 148, 185, 239, 188, 137]), bump_exit EXIT_CHAIN_BROKEN worst))
          else
            (case recheck of
               Inr (chain, _, _) \<Rightarrow>
                 if list_get chain (fo_records prev_obs - 1) = Some (fo_tail prev_obs)
                 then (''appended'' @ (utf8 [239, 188, 136, 229, 137, 141, 231, 188, 128, 233, 148, 154, 229, 174, 154, 233, 128,
       154, 232, 191, 135, 239, 188, 137]), worst)
                 else (''PREFIX-ANCHOR-MISMATCH'' @ (utf8 [239, 188, 136, 229, 142, 134, 229, 143, 178, 232, 162, 171, 230, 148, 185, 229, 144,
       142, 233, 135, 141, 231, 174, 151] @ ''/'' @
     utf8 [229, 136, 134, 231, 137, 135, 233, 148, 153, 228, 189, 141, 239, 188, 137]), bump_exit EXIT_CHAIN_BROKEN worst)
             | Inl e \<Rightarrow> (''RECHECK-FAILED: '' @ e, bump_exit EXIT_CHAIN_BROKEN worst)))"

section \<open>The scan\<close>

record scan_state =
  sc_now :: scan_baseline
  sc_worst :: nat
  sc_lines :: "string list"

definition report_line :: "string \<Rightarrow> file_obs \<Rightarrow> string \<Rightarrow> string" where
  "report_line key obs comparison =
     key @ '': '' @ dec_nat (fo_records obs) @ '' records, tail '' @ take 8 (fo_tail obs) @ ''..'' @
     drop (length (fo_tail obs) - 8) (fo_tail obs) @ '', verdict='' @ fo_verdict obs @ '', delta='' @ comparison"

definition scan_group ::
  "(string \<Rightarrow> string) \<Rightarrow> (serde \<Rightarrow> string) \<Rightarrow> (string \<Rightarrow> string + serde) \<Rightarrow> wal_dir \<Rightarrow> scan_baseline \<Rightarrow>
   string \<times> string list \<Rightarrow> scan_state \<Rightarrow> scan_state" where
  "scan_group blake3 ser de dir old grp st =
     (case grp of (key, paths) \<Rightarrow>
        (case verify_group blake3 ser de dir paths of
           Inr (chain, records, bytes) \<Rightarrow>
             (let obs = \<lparr>fo_records = records, fo_tail = (if chain = [] then genesis else last chain), fo_bytes = bytes,
                         fo_verdict = ''verified''\<rparr>;
                  (comparison, worst) = compare_with_baseline obs (bt_get key old) False
                    (verify_group blake3 ser de dir paths) (sc_worst st) in
              \<lparr>sc_now = bt_put key obs (sc_now st), sc_worst = worst, sc_lines = sc_lines st @ [report_line key obs comparison]\<rparr>)
         | Inl e \<Rightarrow>
             (let code = (if contains ''JSON parse error'' e \<or> contains ''EOF while parsing'' e then EXIT_CORRUPT_REJECT
                          else EXIT_CHAIN_BROKEN);
                  bytes_now = sum_list (map (\<lambda>p. case wd_len dir p of Inr n \<Rightarrow> n | Inl _ \<Rightarrow> 0) paths) in
              \<lparr>sc_now = bt_put key \<lparr>fo_records = 0, fo_tail = [], fo_bytes = bytes_now, fo_verdict = ''rejected''\<rparr> (sc_now st),
               sc_worst = bump_exit code (sc_worst st), sc_lines = sc_lines st @ [key @ '': REJECTED ('' @ e @ '')'']\<rparr>)))"

definition scan_gone :: "bool \<Rightarrow> string \<Rightarrow> scan_state \<Rightarrow> scan_state" where
  "scan_gone first_run key st =
     (if \<not> bt_contains key (sc_now st) \<and> \<not> first_run
      then st\<lparr>sc_worst := bump_exit EXIT_FILE_GONE (sc_worst st),
              sc_lines := sc_lines st @ [key @ '': FILE-GONE'' @ (utf8 [239, 188, 136, 229, 159, 186, 231, 186, 191, 230, 156, 137, 232, 128, 140, 231, 163,
       129, 231, 155, 152, 230, 151, 160, 226, 128, 148, 226, 128, 148, 230, 136, 170, 230, 150,
       173] @ ''/'' @ utf8 [232, 175, 175, 229, 136, 160, 239, 188, 137])]\<rparr>
      else st)"

text \<open>The baseline file: absent or unreadable, not parsed, or a baseline.\<close>

definition scan_wal_dir ::
  "'k ed25519 \<Rightarrow> (string \<Rightarrow> string) \<Rightarrow> (serde \<Rightarrow> string) \<Rightarrow> (string \<Rightarrow> string + serde) \<Rightarrow> wal_dir \<Rightarrow> bool \<Rightarrow>
   (string + scan_baseline) option \<Rightarrow> (cli_error + unit) \<times> (string + scan_baseline) option" where
  "scan_wal_dir ed blake3 ser de dir write_ok file =
     (case self_test ed blake3 ser of
        Inl _ \<Rightarrow> (Inl (SentinelExit EXIT_SELF_TEST), file)
      | Inr _ \<Rightarrow>
          (case classify dir of
             Inl e \<Rightarrow> (Inl (CliOther e), file)
           | Inr groups \<Rightarrow>
               (case (case file of None \<Rightarrow> Inr bt_new | Some b \<Rightarrow> b) of
                  Inl e \<Rightarrow> (Inl (CliOther (''baseline parse: '' @ e)), file)
                | Inr old \<Rightarrow>
                    (let st = foldl (\<lambda>st g. scan_group blake3 ser de dir old g st) \<lparr>sc_now = bt_new, sc_worst = EXIT_OK, sc_lines = []\<rparr> groups;
                         st' = foldl (\<lambda>st k. scan_gone (old = []) k st) st (map fst old) in
                     if sc_worst st' = EXIT_OK then (Inr (), if write_ok then Some (Inr (sc_now st')) else file)
                     else (Inl (SentinelExit (sc_worst st')), file)))))"

section \<open>The chain of a log\<close>

text \<open>The facts of the logs of a group.\<close>

fun group_facts :: "(string \<Rightarrow> string + serde) \<Rightarrow> wal_dir \<Rightarrow> string list \<Rightarrow> fact list" where
  "group_facts de dir [] = []"
| "group_facts de dir (p # ps) =
     (case read_wal_with_hash de (wd_log dir p) of Inr rs \<Rightarrow> map wal_fact rs | Inl _ \<Rightarrow> []) @ group_facts de dir ps"

lemma chain_trace_append:
  "chain_trace blake3 ser prev (fs @ gs) = chain_trace blake3 ser prev fs @ chain_trace blake3 ser (chain_from blake3 ser prev fs) gs"
  by (induction fs arbitrary: prev) (simp_all add: Let_def chain_from_def)

lemma chain_trace_Nil [simp]: "chain_trace blake3 ser prev fs = [] \<longleftrightarrow> fs = []"
  by (cases fs) (simp_all add: Let_def)

lemma chain_trace_end: "last (prev # chain_trace blake3 ser prev fs) = chain_from blake3 ser prev fs"
  by (cases "fs = []") (simp_all add: chain_trace_last chain_from_def)

lemma verify_paths_trace:
  "verify_paths blake3 ser de dir prev ps = Inr (chain, n) \<Longrightarrow> chain = chain_trace blake3 ser prev (group_facts de dir ps)"
proof (induction ps arbitrary: prev chain n)
  case (Cons p ps)
  then obtain records c rest m where r: "read_wal_with_hash de (wd_log dir p) = Inr records"
    "verify_records '' (stored_prev != expected)'' blake3 ser prev records = Inr c"
    "verify_paths blake3 ser de dir (last (prev # c)) ps = Inr (rest, m)" "chain = c @ rest"
    by (auto simp: result_simps simp del: last.simps)
  note c = verify_records_trace [OF r(2)]
  have "rest = chain_trace blake3 ser (chain_from blake3 ser prev (map wal_fact records)) (group_facts de dir ps)"
    using Cons.IH [OF r(3)] unfolding c chain_trace_end .
  then show ?case by (simp add: r(1,4) c chain_trace_append)
qed simp

text \<open>What the scan notes of a list of facts, and what it accepts of the note of the scan before.\<close>

definition noted :: "(string \<Rightarrow> string) \<Rightarrow> (serde \<Rightarrow> string) \<Rightarrow> fact list \<Rightarrow> file_obs \<Rightarrow> bool" where
  "noted blake3 ser fs obs \<longleftrightarrow> fo_records obs = length fs \<and> fo_tail obs = chain_from blake3 ser genesis fs"

definition anchored :: "(string \<Rightarrow> string) \<Rightarrow> (serde \<Rightarrow> string) \<Rightarrow> fact list \<Rightarrow> file_obs \<Rightarrow> bool" where
  "anchored blake3 ser fs prev \<longleftrightarrow>
     (if fo_records prev = length fs then fo_tail prev = chain_from blake3 ser genesis fs
      else fo_records prev < length fs \<and> chain_from blake3 ser genesis (take (Suc (fo_records prev - 1)) fs) = fo_tail prev)"

lemma bump_exit_ok: "bump_exit c w = EXIT_OK \<longleftrightarrow> w = EXIT_OK \<and> exit_rank c = 0"
  by (auto simp: bump_exit_def exit_rank_def EXIT_OK_def EXIT_CHAIN_BROKEN_def EXIT_FILE_GONE_def EXIT_CORRUPT_REJECT_def)

lemma exit_ranks [simp]: "exit_rank EXIT_CHAIN_BROKEN = 4" "exit_rank EXIT_FILE_GONE = 3" "exit_rank EXIT_CORRUPT_REJECT = 2"
  by (simp_all add: exit_rank_def EXIT_OK_def EXIT_CHAIN_BROKEN_def EXIT_FILE_GONE_def EXIT_CORRUPT_REJECT_def)

lemma compare_ok:
  assumes "noted blake3 ser fs obs" "snd (compare_with_baseline obs prev False (Inr (chain_trace blake3 ser genesis fs, n, m)) w) = EXIT_OK"
  shows "w = EXIT_OK \<and> (\<forall>p. prev = Some p \<longrightarrow> anchored blake3 ser fs p)"
proof (cases prev)
  case None
  with assms show ?thesis by (simp add: compare_with_baseline_def)
next
  case (Some p)
  then show ?thesis
    using assms by (auto simp: compare_with_baseline_def noted_def anchored_def bump_exit_ok list_get_def chain_trace_nth split: if_splits)
qed

lemma scan_group_ok:
  assumes "sc_worst (scan_group blake3 ser de dir old (k, ps) st) = EXIT_OK"
  shows "sc_worst st = EXIT_OK \<and> (\<exists>obs. noted blake3 ser (group_facts de dir ps) obs \<and>
      sc_now (scan_group blake3 ser de dir old (k, ps) st) = bt_put k obs (sc_now st)) \<and>
    (\<forall>p. bt_get k old = Some p \<longrightarrow> anchored blake3 ser (group_facts de dir ps) p)"
proof (cases "verify_paths blake3 ser de dir genesis ps")
  case (Inl e)
  with assms show ?thesis by (auto simp: scan_group_def verify_group_def Let_def bump_exit_ok split: if_splits)
next
  case (Inr x)
  then obtain n where v: "verify_paths blake3 ser de dir genesis ps = Inr (chain_trace blake3 ser genesis (group_facts de dir ps), n)"
    using verify_paths_trace by (cases x) fastforce
  let ?fs = "group_facts de dir ps" and ?c = "chain_trace blake3 ser genesis (group_facts de dir ps)"
  let ?obs = "\<lparr>fo_records = length ?c, fo_tail = (if ?c = [] then genesis else last ?c), fo_bytes = n, fo_verdict = ''verified''\<rparr>"
  have obs: "noted blake3 ser ?fs ?obs"
    using chain_trace_last [of ?fs blake3 ser genesis] by (auto simp: noted_def chain_from_def)
  have eqs: "sc_worst (scan_group blake3 ser de dir old (k, ps) st) =
      snd (compare_with_baseline ?obs (bt_get k old) False (Inr (?c, length ?c, n)) (sc_worst st))"
    "sc_now (scan_group blake3 ser de dir old (k, ps) st) = bt_put k ?obs (sc_now st)"
    unfolding scan_group_def verify_group_def prod.case v map_ok_simps sum.case
    by (simp_all only: prod.case Let_def case_prod_beta scan_state.simps fst_conv snd_conv)
  from compare_ok [OF obs assms [unfolded eqs(1)]] obs eqs(2) show ?thesis by blast
qed

lemma scan_groups_ok:
  assumes "sc_worst (foldl (\<lambda>st g. scan_group blake3 ser de dir old g st) st groups) = EXIT_OK" "distinct (map fst groups)"
  shows "sc_worst st = EXIT_OK \<and>
    (\<forall>(k, ps) \<in> set groups. (\<exists>obs. noted blake3 ser (group_facts de dir ps) obs \<and>
        bt_get k (sc_now (foldl (\<lambda>st g. scan_group blake3 ser de dir old g st) st groups)) = Some obs) \<and>
      (\<forall>p. bt_get k old = Some p \<longrightarrow> anchored blake3 ser (group_facts de dir ps) p)) \<and>
    (\<forall>k. k \<notin> fst ` set groups \<longrightarrow>
      bt_get k (sc_now (foldl (\<lambda>st g. scan_group blake3 ser de dir old g st) st groups)) = bt_get k (sc_now st))"
  using assms
proof (induction groups arbitrary: st)
  case (Cons g groups)
  obtain k ps where g: "g = (k, ps)" by fastforce
  let ?s = "scan_group blake3 ser de dir old g st" and ?e = "foldl (\<lambda>st g. scan_group blake3 ser de dir old g st)"
  have ih: "sc_worst ?s = EXIT_OK"
    "\<And>k ps. (k, ps) \<in> set groups \<Longrightarrow> (\<exists>obs. noted blake3 ser (group_facts de dir ps) obs \<and>
        bt_get k (sc_now (?e ?s groups)) = Some obs) \<and> (\<forall>p. bt_get k old = Some p \<longrightarrow> anchored blake3 ser (group_facts de dir ps) p)"
    "\<And>k. k \<notin> fst ` set groups \<Longrightarrow> bt_get k (sc_now (?e ?s groups)) = bt_get k (sc_now ?s)"
    using Cons.IH [of ?s] Cons.prems by auto
  note one = scan_group_ok [OF ih(1) [unfolded g]]
  have k: "k \<notin> fst ` set groups" using Cons.prems(2) by (simp add: g)
  show ?case
    using one ih(2) ih(3) [OF k] ih(3) by (auto simp: g)
qed simp

lemma scan_gone_ok:
  assumes "sc_worst (foldl (\<lambda>st k. scan_gone first k st) st ks) = EXIT_OK" "\<not> first"
  shows "sc_worst st = EXIT_OK \<and> sc_now (foldl (\<lambda>st k. scan_gone first k st) st ks) = sc_now st \<and> (\<forall>k \<in> set ks. bt_contains k (sc_now st))"
  using assms
proof (induction ks arbitrary: st)
  case (Cons k ks)
  from Cons.IH [of "scan_gone first k st"] Cons.prems show ?case
    by (auto simp: scan_gone_def bump_exit_ok split: if_splits)
qed simp

lemma scan_gone_first: "foldl (\<lambda>st k. scan_gone True k st) st ks = st"
  by (induction ks arbitrary: st) (simp_all add: scan_gone_def)

lemma classify_distinct:
  assumes "classify dir = Inr groups"
  shows "distinct (map fst groups)"
proof -
  have sorted: "bt_sorted (foldl add_path m names)" if "bt_sorted m" for m names
    using that by (induction names arbitrary: m) (auto simp: add_path_def split: option.splits)
  have keys: "map (fst \<circ> (\<lambda>(k, paths). (k, sort paths))) m = map fst m" for m :: "(string \<times> string list) list"
    by (induction m) auto
  from assms obtain names where "groups = map (\<lambda>(k, paths). (k, sort paths)) (foldl add_path bt_new names)"
    by (auto simp: classify_def result_simps)
  with bt_sorted_distinct [OF sorted [of bt_new names]] show ?thesis by (simp add: keys bt_new_def del: map_eq_conv)
qed

text \<open>A scan that passes: what it writes, and what it has found.\<close>

lemma scan_ok:
  assumes "scan_wal_dir ed blake3 ser de dir w file = (Inr (), file')"
  obtains old groups now where "(case file of None \<Rightarrow> Inr bt_new | Some b \<Rightarrow> b) = Inr old" "classify dir = Inr groups"
    "file' = (if w then Some (Inr now) else file)"
    "\<And>k ps. (k, ps) \<in> set groups \<Longrightarrow> \<exists>obs. noted blake3 ser (group_facts de dir ps) obs \<and> bt_get k now = Some obs"
    "\<And>k ps p. (k, ps) \<in> set groups \<Longrightarrow> bt_get k old = Some p \<Longrightarrow> anchored blake3 ser (group_facts de dir ps) p"
    "\<And>k. k \<in> fst ` set old \<Longrightarrow> k \<in> fst ` set groups"
proof -
  from assms obtain old groups where a: "(case file of None \<Rightarrow> Inr bt_new | Some b \<Rightarrow> b) = Inr old" "classify dir = Inr groups"
    by (auto simp: scan_wal_dir_def split: sum.splits)
  let ?st = "foldl (\<lambda>st g. scan_group blake3 ser de dir old g st) \<lparr>sc_now = bt_new, sc_worst = EXIT_OK, sc_lines = []\<rparr> groups"
  let ?st' = "foldl (\<lambda>st k. scan_gone (old = []) k st) ?st (map fst old)"
  have b: "sc_worst ?st' = EXIT_OK" "file' = (if w then Some (Inr (sc_now ?st')) else file)"
    using assms a by (auto simp: scan_wal_dir_def Let_def split: sum.splits if_splits)
  have c: "sc_worst ?st = EXIT_OK" "sc_now ?st' = sc_now ?st" "\<forall>k \<in> fst ` set old. bt_contains k (sc_now ?st)"
    using b(1) scan_gone_ok [of "old = []" ?st "map fst old"] scan_gone_first [of ?st] by (cases "old = []"; auto)+
  note d = scan_groups_ok [OF c(1) classify_distinct [OF a(2)]]
  have "k \<in> fst ` set groups" if "k \<in> fst ` set old" for k
  proof (rule ccontr)
    assume "k \<notin> fst ` set groups"
    with d have "bt_get k (sc_now ?st) = None" by (simp add: bt_new_def)
    with c(3) that show False by (auto simp: bt_contains_def)
  qed
  with d show thesis by (intro that [OF a b(2)]) (auto simp: c(2))
qed

section \<open>Shown of the sentinel\<close>

text \<open>
  C35: what the sentinel passes has only been extended.  When a scan passes a directory and notes its baseline,
  and a later scan against that baseline passes, then every log of the first scan is still there, has at
  least as many facts, and its first facts are, in the form that is hashed, the facts of the first scan,
  unless the two chains hash two different strings to the same value.
\<close>

theorem sentinel_passes_extensions:
  assumes "\<And>x. length (blake3 x) = 64" "inj ser"
    and "scan_wal_dir ed blake3 ser de dir1 True file = (Inr (), file1)" "scan_wal_dir ed blake3 ser de dir2 w file1 = (Inr (), file2)"
    and "classify dir1 = Inr groups1" "(k, ps1) \<in> set groups1"
  shows "\<exists>groups2 ps2. classify dir2 = Inr groups2 \<and> (k, ps2) \<in> set groups2 \<and>
    length (group_facts de dir1 ps1) \<le> length (group_facts de dir2 ps2) \<and>
    (let fs = group_facts de dir1 ps1; gs = take (length fs) (group_facts de dir2 ps2) in
     map fact_to_stable_json fs = map fact_to_stable_json gs \<or>
     collision blake3 (chain_inputs blake3 ser genesis fs) (chain_inputs blake3 ser genesis gs))"
proof -
  from assms(3) obtain old groups now where one: "classify dir1 = Inr groups" "file1 = Some (Inr now)"
    "\<And>k ps. (k, ps) \<in> set groups \<Longrightarrow> \<exists>obs. noted blake3 ser (group_facts de dir1 ps) obs \<and> bt_get k now = Some obs"
    by (rule scan_ok) auto
  then obtain obs where obs: "noted blake3 ser (group_facts de dir1 ps1) obs" "bt_get k now = Some obs"
    using assms(5,6) by auto
  from assms(4) obtain groups2 where two: "classify dir2 = Inr groups2"
    "\<And>k ps p. (k, ps) \<in> set groups2 \<Longrightarrow> bt_get k now = Some p \<Longrightarrow> anchored blake3 ser (group_facts de dir2 ps) p"
    "\<And>k. k \<in> fst ` set now \<Longrightarrow> k \<in> fst ` set groups2"
    by (rule scan_ok) (auto simp: one(2))
  have "k \<in> fst ` set now" using obs(2) by (auto simp: bt_get_def dest!: map_of_SomeD intro: rev_image_eqI)
  then obtain ps2 where ps2: "(k, ps2) \<in> set groups2" using two(3) by force
  let ?fs = "group_facts de dir1 ps1" and ?gs = "group_facts de dir2 ps2"
  have len: "length ?fs \<le> length ?gs"
    and chain: "?fs = [] \<or> chain_from blake3 ser genesis ?fs = chain_from blake3 ser genesis (take (length ?fs) ?gs)"
    using two(2) [OF ps2 obs(2)] obs(1) by (cases "?fs = []"; auto simp: anchored_def noted_def Suc_diff_1 split: if_splits)+
  have "map fact_to_stable_json ?fs = map fact_to_stable_json (take (length ?fs) ?gs) \<or>
      collision blake3 (chain_inputs blake3 ser genesis ?fs) (chain_inputs blake3 ser genesis (take (length ?fs) ?gs))"
    using chain chain_binds [of blake3 ser ?fs "take (length ?fs) ?gs", OF assms(1,2)] by auto
  with two(1) ps2 len show ?thesis by (auto simp: Let_def)
qed

text \<open>External code for which the verifier passes its own check: a hash with the expected values, and a key.\<close>

definition golden_blake3 :: "string \<Rightarrow> string" where
  "golden_blake3 x =
     (case map_of (zip (map (\<lambda>f. unary_ser (fact_to_stable_json f)) golden_facts) KERNEL_HASH_SNAPSHOT) x of
        Some h \<Rightarrow> h | None \<Rightarrow> replicate 64 (CHR ''0''))"

definition golden_ed :: "byte list ed25519" where
  "golden_ed = \<lparr>ed_key = \<lambda>seed. seed, ed_public = \<lambda>_.
     [0x24, 0x8a, 0xcb, 0xdb, 0xaf, 0x9e, 0x05, 0x01, 0x96, 0xde, 0x70, 0x4b, 0xea, 0x2d, 0x68, 0x77,
      0x0e, 0x51, 0x91, 0x50, 0xd1, 0x03, 0xb5, 0x87, 0xda, 0xe2, 0xd9, 0xca, 0xd5, 0x3d, 0xd9, 0x30],
     ed_sign = \<lambda>_ _. [], ed_verify = \<lambda>_ _ _. Inr True\<rparr>"

lemma unary_ser_inj: "inj unary_ser"
  by (rule injI) (metis unary_ser_laws(1) sum.inject(2))

lemma golden_blake3_length: "length (golden_blake3 x) = 64"
proof -
  have "length h = 64" if "h \<in> set KERNEL_HASH_SNAPSHOT" for h using that by (auto simp: KERNEL_HASH_SNAPSHOT_def)
  then show ?thesis by (auto simp: golden_blake3_def dest!: map_of_SomeD set_zip_rightD split: option.splits)
qed

lemma golden_blake3_default: "x \<notin> range unary_ser \<Longrightarrow> golden_blake3 x = replicate 64 (CHR ''0'')"
  by (auto simp: golden_blake3_def dest!: map_of_SomeD set_zip_leftD split: option.splits)

lemma golden_distinct: "distinct (map (\<lambda>f. unary_ser (fact_to_stable_json f)) golden_facts)"
proof -
  have "distinct (map (\<lambda>f. s_get ''id'' (fact_to_stable_json f)) golden_facts)" by (simp add: golden_facts_def num_def)
  then have "distinct (map fact_to_stable_json golden_facts)"
    by (metis (no_types, lifting) distinct_map inj_on_def comp_apply list.map_comp map_map)
  then show ?thesis using unary_ser_inj by (auto simp: distinct_map inj_on_def dest: injD)
qed

lemma golden_run:
  "length fs = length hs \<Longrightarrow> \<forall>(f, h) \<in> set (zip fs hs). fact_hash blake3 ser f = h \<Longrightarrow> golden_hashes blake3 ser i (zip fs hs) = Inr ()"
  by (induction fs hs arbitrary: i rule: list_induct2) auto

lemma hex_pairs_ok: "list_all hex_lower_or_upper s \<Longrightarrow> \<exists>bs. cli_hex_pairs s = Inr bs \<and> length bs = length s div 2"
  by (induction s rule: cli_hex_pairs.induct) (fastforce simp: hex_lower_or_upper_def)+

lemma golden_self_test: "self_test golden_ed golden_blake3 unary_ser = Inr ()"
proof -
  have len: "length golden_facts = length KERNEL_HASH_SNAPSHOT" by (simp add: golden_facts_def KERNEL_HASH_SNAPSHOT_def)
  have "fact_hash golden_blake3 unary_ser f = h" if "(f, h) \<in> set (zip golden_facts KERNEL_HASH_SNAPSHOT)" for f h
  proof -
    have "(unary_ser (fact_to_stable_json f), h) \<in> set (zip (map (\<lambda>f. unary_ser (fact_to_stable_json f)) golden_facts) KERNEL_HASH_SNAPSHOT)"
      using that by (auto simp: zip_map1 intro: rev_image_eqI)
    with golden_distinct len show ?thesis by (simp add: fact_hash_def golden_blake3_def map_of_zip_is_Some)
  qed
  then have hashes: "golden_hashes golden_blake3 unary_ser 0 (zip golden_facts KERNEL_HASH_SNAPSHOT) = Inr ()"
    by (intro golden_run len) auto
  have "genesis @ s \<notin> range unary_ser" for s
  proof
    assume "genesis @ s \<in> range unary_ser"
    then obtain v where "genesis @ s = unary_ser v" by blast
    then show False by (cases "to_nat v") (auto simp: unary_ser_def genesis_def)
  qed
  then have first: "chain_step golden_blake3 genesis h = replicate 64 (CHR ''0'')" for h
    by (simp add: chain_step_def golden_blake3_default)
  have pk: "hex_encode (verifying (from_bytes golden_ed seed)) = GOLDEN_PK" for seed
    by (simp add: golden_ed_def from_bytes_def hex_encode_def hex_byte_def hex_digit_def GOLDEN_PK_def char_of_def bit_0)
  have "list_all hex_lower_or_upper golden_signature" "length golden_signature = 128"
    by (simp_all add: golden_signature_def hex_lower_or_upper_def to_digit16_def)
  with hex_pairs_ok obtain sig where sig: "cli_hex_decode golden_signature = Inr sig" "length sig = 64"
    by (force simp: cli_hex_decode_def)
  have digit: "list_all hex_lower_or_upper (replicate 64 (CHR ''0''))" by (simp add: hex_lower_or_upper_def to_digit16_def list_all_length)
  show ?thesis
    using hashes first pk sig digit
    by (simp add: self_test_def Let_def cli_verify_signature_def golden_ed_def)
qed

text \<open>A directory with the log of one session, scanned twice.\<close>

lemma live_log_verified:
  assumes "json_text ser de" "log_life blake3 ser de limit l" "wal l = Some (w, wd_log dir p)" "wd_len dir p = Inr n"
  shows "verify_group blake3 ser de dir [p] = Inr (chain_trace blake3 ser genesis (map snd (history l)), length (history l), n)"
proof -
  obtain w' d data where st: "wal l = Some (w', d)" "synced blake3 ser l (map record_of data)"
    "read_wal_with_hash de d = Inr (map record_of data)"
    "history l = map (\<lambda>r. (version_before r, wal_fact r)) (map record_of data)"
    by (rule life_data [OF assms(1,2)])
  then have "hash_chained blake3 ser genesis (map record_of data)" by (simp add: synced_def)
  from prefix_records_chained [OF this] st assms(3,4) show ?thesis
    by (simp add: verify_group_def comp_def)
qed

definition one_log :: "disk \<Rightarrow> wal_dir" where
  "one_log d = \<lparr>wd_path = ''wals'', wd_listing = Inr [''session_1.wal''], wd_log = \<lambda>_. d, wd_len = \<lambda>_. Inr 0\<rparr>"

lemma one_log_classify: "classify (one_log d) = Inr [(''session:1'', [''session_1.wal''])]"
  by (simp add: classify_def one_log_def add_path_def group_key_def session_wal_key_def strip_prefix_def starts_with_def
      parse_usize_def bt_new_def unwrap_or_def is_digit_def digit_val_def USIZE_MAX_def
      dec_nat.simps digit_char_def char_of_def bit_0)

lemma one_log_passes:
  assumes "self_test ed blake3 ser = Inr ()" "verify_group blake3 ser de (one_log d) [''session_1.wal''] = Inr (c, length c, n)"
  shows "\<exists>b. scan_wal_dir ed blake3 ser de (one_log d) True None = (Inr (), b) \<and>
    scan_wal_dir ed blake3 ser de (one_log d) True b = (Inr (), b)"
  using assms by (simp add: scan_wal_dir_def one_log_classify scan_group_def compare_with_baseline_def bt_new_def scan_gone_def
      EXIT_OK_def bt_contains_def Let_def)

theorem sentinel_passes_extensions_witness:
  "\<exists>d fs. group_facts line_de (one_log d) [''session_1.wal''] = fs \<and> length fs = 1 \<and>
     (map fact_to_stable_json fs = map fact_to_stable_json (take (length fs) fs) \<or>
      collision golden_blake3 (chain_inputs golden_blake3 unary_ser genesis fs) (chain_inputs golden_blake3 unary_ser genesis (take (length fs) fs)))"
proof -
  let ?l = "snd (append (file_store (\<lambda>_. None) unary_ser) golden_blake3 unary_ser (Stable 1 0) (with_wal_options 0 []))"
  have life: "log_life golden_blake3 unary_ser line_de 0 ?l"
    by (intro log_life.intros) (simp_all add: with_wal_options_def with_wal_store_def log_new_def)
  have jt: "json_text unary_ser line_de" using line_de_laws by (simp add: json_lines_def)
  obtain w d data where st: "wal ?l = Some (w, d)" "read_wal_with_hash line_de d = Inr (map record_of data)"
    "history ?l = map (\<lambda>r. (version_before r, wal_fact r)) (map record_of data)"
    by (rule life_data [OF jt life])
  have "length (history ?l) = 1"
    by (simp add: append_def append_memory_def with_wal_options_def with_wal_store_def log_new_def create_with_options_def
        file_store_def append_record_with_hash_def append_line_def Let_def push_history_def index_fact_def
        split: prod.splits option.splits sum.splits)
  then have fs: "length (group_facts line_de (one_log d) [''session_1.wal'']) = 1" using st(2,3) by (simp add: one_log_def)
  have v: "verify_group golden_blake3 unary_ser line_de (one_log d) [''session_1.wal''] =
      Inr (chain_trace golden_blake3 unary_ser genesis (map snd (history ?l)), length (history ?l), 0)"
    by (rule live_log_verified [OF jt life, of w]) (simp_all add: one_log_def st(1))
  then obtain b where "scan_wal_dir golden_ed golden_blake3 unary_ser line_de (one_log d) True None = (Inr (), b)"
    "scan_wal_dir golden_ed golden_blake3 unary_ser line_de (one_log d) True b = (Inr (), b)"
    using one_log_passes [OF golden_self_test, of line_de d] by force
  from sentinel_passes_extensions [OF golden_blake3_length unary_ser_inj this one_log_classify, of "''session:1''" "[''session_1.wal'']"]
  show ?thesis using fs by (auto simp: one_log_classify Let_def)
qed

text \<open>
  A log without records is noted with the beginning of the chain as its end.  When facts are appended to it,
  the next scan looks for that end in the first record and reports a broken chain.
\<close>

lemma first_append_alarms:
  assumes "\<And>x. length (blake3 x) = 64" "noted blake3 ser [] prev" "noted blake3 ser (f # fs) obs"
  shows "snd (compare_with_baseline obs (Some prev) False (Inr (chain_trace blake3 ser genesis (f # fs), n, m)) EXIT_OK) = EXIT_CHAIN_BROKEN"
proof -
  have "chain_step blake3 genesis (fact_hash blake3 ser f) \<noteq> genesis"
    using assms(1) by (auto simp: chain_step_def genesis_def dest: arg_cong [of _ _ length])
  with assms(2,3) show ?thesis
    by (auto simp: compare_with_baseline_def noted_def chain_from_def list_get_def Let_def bump_exit_def exit_rank_def
        EXIT_OK_def EXIT_CHAIN_BROKEN_def)
qed

text \<open>
  Rotated files are called \<open>session_1.1.wal\<close>; the classifier looks for \<open>session_1.wal.1\<close> and leaves them out.
  They are read through the main file all the same.
\<close>

lemma rotated_names: "session_wal_key ''session_1.1.wal'' = None" "session_wal_key ''session_1.wal.1'' = Some ''session:1''"
  by (simp_all add: session_wal_key_def strip_prefix_def starts_with_def parse_usize_def is_ascii_digit_def is_digit_def
      digit_val_def USIZE_MAX_def dec_nat.simps digit_char_def char_of_def bit_0)

end
