(* ===== verification/Discipline.thy ===== *)
theory Discipline
  imports Cli
begin

text \<open>
  The discipline of rule sets: \<open>evorule-discipline/src/lib.rs\<close>, which walks over a rule set, adds to every node
  what the kernel cannot see of the list it is in, and lets the kernel judge the node by the rules of
  \<open>evorule-tcb/discipline/core_eval.json\<close>, and the command \<open>validate\<close> of \<open>evorule-cli/src/commands/validate.rs\<close>.
  The result of parsing the embedded text is an argument, \<open>discipline_core_eval\<close> is the value it holds; how
  the derived \<open>Debug\<close> prints an error of the kernel is a parameter.

  Shown is which nodes the rules name, that a request for I/O of an accepted rule set discards no change of
  the state when the domains of its rules guard what the analysis takes them to guard, and that it can discard
  one without that.
\<close>

section \<open>The rules of the discipline\<close>

definition dc_instruction :: "string \<Rightarrow> serde" where
  "dc_instruction t = serde_map [(''type'', SString ''instruction''), (''instruction_type'', SString t)]"

definition dc_exists :: "string \<Rightarrow> serde" where
  "dc_exists path = serde_map [(''type'', SString ''exists''), (''path'', SString path)]"

definition dc_not :: "serde \<Rightarrow> serde" where
  "dc_not inner = serde_map [(''type'', SString ''not''), (''inner'', inner)]"

definition dc_all :: "serde list \<Rightarrow> serde" where
  "dc_all inner = serde_map [(''type'', SString ''all''), (''inner'', SArray inner)]"

definition dc_true :: "string \<Rightarrow> serde" where
  "dc_true path = serde_map [(''type'', SString ''eq''), (''path'', SString path), (''value'', SBool True),
     (''on_missing'', SString ''unsat'')]"

definition dc_below :: "string \<Rightarrow> int \<Rightarrow> serde" where
  "dc_below path n = serde_map [(''type'', SString ''lt''), (''path'', SString path), (''value'', SNumber n),
     (''on_missing'', SString ''unsat'')]"

definition dc_rule :: "serde \<Rightarrow> string \<Rightarrow> serde" where
  "dc_rule domain reason = serde_map [(''type'', SString ''enforce''),
     (''params'', serde_map [(''domain'', domain), (''reason'', SString reason)])]"

definition dc_reasons :: "string list" where
  "dc_reasons =
     [(''DC-01 '' @
     utf8 [230, 156, 170, 231, 159, 165, 229, 133, 131, 230, 140, 135, 228, 187, 164, 231, 177,
       187, 229, 158, 139, 239, 188, 154] @ ''core_eval '' @
     utf8 [229, 143, 170, 230, 137, 191, 232, 174, 164] @
     '' branch/set/push/io_request/enforce'' @ utf8 [239, 188, 136] @
     ''SSOT: executor.rs META_INSTRUCTION_TYPES'' @ utf8 [239, 188, 137]),
      (''DC-02 enforce '' @
     utf8 [229, 191, 133, 233, 161, 187, 233, 161, 182, 229, 177, 130, 229, 163, 176, 230, 152,
       142, 239, 188, 154, 229, 181, 140, 229, 133, 165] @ '' branch '' @
     utf8 [229, 173, 144, 230, 140, 135, 228, 187, 164, 230, 151, 182, 229, 143, 151, 227, 128,
       142, 228, 188, 160, 230, 146, 173, 229, 141, 179, 229, 129, 156, 227, 128, 143, 229, 189,
       177, 229, 147, 141, 239, 188, 140, 232, 191, 157, 229, 143, 141, 230, 157, 161, 228, 187,
       182, 230, 151, 182, 228, 184, 141, 228, 188, 154] @ '' Halted'' @
     utf8 [239, 188, 136, 230, 174, 139, 231, 149, 153, 233, 163, 142, 233, 153, 169] @
     '' R-1'' @ utf8 [239, 188, 137]),
      (''DC-03 enforce '' @ utf8 [229, 191, 133, 233, 161, 187, 230, 144, 186, 229, 184, 166] @
     '' params.reason'' @ utf8 [239, 188, 154, 231, 188, 186] @ '' reason '' @
     utf8 [230, 151, 182] @ '' Halted '' @
     utf8 [228, 191, 161, 229, 143, 183, 230, 151, 160, 232, 191, 157, 232, 167, 132, 232, 175,
       180, 230, 152, 142, 239, 188, 140] @ ''Violation '' @
     utf8 [228, 186, 139, 229, 174, 158, 228, 184, 141, 229, 143, 175, 229, 174, 161, 232, 174, 161]),
      (''DC-04 io_request '' @ utf8 [229, 191, 133, 233, 161, 187, 230, 144, 186, 229, 184, 166] @
     '' params.io_type'' @
     utf8 [239, 188, 154, 231, 188, 186, 229, 164, 177, 230, 151, 182, 228, 184, 138, 229, 177,
       130, 230, 151, 160, 230, 179, 149, 232, 183, 175, 231, 148, 177] @ '' I/O''),
      (''DC-05 io_request '' @
     utf8 [232, 162, 171, 229, 137, 141, 231, 189, 174, 230, 151, 169, 233, 128, 128, 232, 167,
       132, 229, 136, 153, 233, 129, 174, 232, 148, 189, 239, 188, 154, 230, 155, 180, 233, 157,
       160, 229, 137, 141, 231, 154, 132, 232, 167, 132, 229, 136, 153, 229, 183, 178, 229, 175,
       185, 229, 144, 140, 228, 184, 128, 230, 140, 135, 228, 187, 164, 231, 177, 187, 229, 158,
       139, 232, 191, 148, 229, 155, 158, 228, 191, 161, 229, 143, 183, 239, 188, 140, 230, 156,
       172, 232, 167, 132, 229, 136, 153, 230, 176, 184, 228, 184, 141, 230, 177, 130, 229, 128,
       188, 239, 188, 136] @ ''BUG-P0-005 '' @ utf8 [229, 144, 140, 229, 158, 139, 239, 188, 137]),
      (''DC-06 set '' @ utf8 [229, 191, 133, 233, 161, 187, 230, 144, 186, 229, 184, 166] @
     '' params.attr '' @ utf8 [228, 184, 142] @ '' params.value '' @
     utf8 [228, 184, 164, 228, 184, 170, 229, 173, 151, 230, 174, 181, 239, 188, 136, 230, 140,
       137, 229, 173, 151, 230, 174, 181, 229, 173, 152, 229, 156, 168, 230, 128, 167, 229, 136,
       164, 229, 174, 154, 232, 128, 140, 233, 157, 158, 229, 128, 188, 233, 157, 158, 231, 169,
       186, 239, 188, 154] @ ''value=null '' @
     utf8 [230, 152, 175, 229, 143, 151, 230, 148, 175, 230, 140, 129, 231, 154, 132, 227, 128,
       142, 231, 189, 174, 231, 169, 186] @ ''/'' @
     utf8 [230, 184, 133, 233, 153, 164, 227, 128, 143, 232, 175, 173, 228, 185, 137, 239, 188,
       140, 232, 167, 129] @ '' domain.rs exists'' @ utf8 [227, 128, 142] @ ''null '' @
     utf8 [232, 167, 134, 228, 184, 186, 229, 183, 178, 230, 184, 133, 233, 153, 164, 227, 128,
       143, 239, 188, 137]),
      (''DC-07 branch '' @ utf8 [229, 191, 133, 233, 161, 187, 230, 144, 186, 229, 184, 166] @
     '' params.domain'' @ utf8 [239, 188, 154, 230, 151, 160, 230, 157, 161, 228, 187, 182] @
     '' branch '' @
     utf8 [233, 128, 128, 229, 140, 150, 228, 184, 186, 230, 151, 160, 230, 157, 161, 228, 187,
       182, 232, 183, 179, 232, 189, 172, 239, 188, 140, 232, 191, 157, 229, 143, 141, 231, 161,
       174, 229, 174, 154, 230, 128, 167, 229, 165, 145, 231, 186, 166]),
      (''DC-08 (TCB_SPEC D4) '' @
     utf8 [228, 184, 128, 230, 157, 161, 232, 167, 132, 229, 136, 153, 229, 134, 133, 230, 156,
       128, 229, 164, 154, 228, 184, 128, 228, 184, 170] @ '' io_request'' @
     utf8 [239, 188, 154] @ ''__io_results__ '' @ utf8 [230, 140, 137] @ '' io_type '' @
     utf8 [233, 154, 148, 231, 166, 187, 239, 188, 140, 229, 164, 154, 228, 184, 170] @
     '' io_request '' @
     utf8 [228, 188, 154, 232, 166, 134, 231, 155, 150, 229, 134, 178, 231, 170, 129]),
      (''DC-09 (TCB_SPEC D5) io_request '' @
     utf8 [229, 191, 133, 233, 161, 187, 230, 152, 175, 229, 143, 182, 229, 173, 144, 239, 188,
       154, 229, 133, 182, 229, 137, 141, 228, 184, 141, 229, 190, 151, 230, 156, 137] @
     '' set/push '' @
     utf8 [231, 173, 137, 228, 191, 174, 230, 148, 185, 231, 138, 182, 230, 128, 129, 231, 154,
       132, 230, 147, 141, 228, 189, 156, 239, 188, 140, 229, 144, 166, 229, 136, 153, 233, 131,
       168, 229, 136, 134, 228, 191, 174, 230, 148, 185, 228, 184, 162, 229, 188, 131, 239, 188,
       136] @ ''IoRequired '' @
     utf8 [231, 186, 175, 228, 191, 161, 229, 143, 183, 239, 188, 137, 228, 188, 154, 231, 160,
       180, 229, 157, 143, 233, 135, 141, 230, 148, 190, 231, 173, 137, 228, 187, 183, 230, 128,
       167] @ '' D11'')]"

definition dc_domains :: "serde list" where
  "dc_domains =
     [dc_all (map (\<lambda>t. dc_not (dc_instruction t)) [''branch'', ''set'', ''push'', ''io_request'', ''enforce'']),
      dc_all [dc_instruction ''enforce'', dc_true ''instruction._ctx.nested''],
      dc_all [dc_instruction ''enforce'', dc_not (dc_exists ''instruction.params.reason'')],
      dc_all [dc_instruction ''io_request'', dc_not (dc_exists ''instruction.params.io_type'')],
      dc_all [dc_instruction ''io_request'', dc_true ''instruction._ctx.shadowed''],
      dc_all [dc_instruction ''set'',
        dc_not (dc_all [dc_true ''instruction._ctx.has_attr'', dc_true ''instruction._ctx.has_value''])],
      dc_all [dc_instruction ''branch'', dc_not (dc_exists ''instruction.params.domain'')],
      dc_all [dc_instruction ''io_request'', dc_exists ''instruction._ctx.io_in_tree'',
        dc_not (dc_below ''instruction._ctx.io_in_tree'' 2)],
      dc_all [dc_instruction ''io_request'', dc_true ''instruction._ctx.preceded_by_mutating'']]"

definition discipline_core_eval :: serde where
  "discipline_core_eval = SArray (map2 dc_rule dc_domains dc_reasons)"

section \<open>Violations\<close>

definition discipline_error_display :: "string \<Rightarrow> string" where
  "discipline_error_display e = ''discipline gate error: '' @ e"

record violation =
  v_path :: string
  v_node_type :: string
  v_code :: string
  v_reason :: string

record gate_report =
  scanned :: usize
  violations :: "violation list"

definition load_discipline :: "string + serde \<Rightarrow> string + json list" where
  "load_discipline raw =
     and_then (map_err (\<lambda>e. ''embedded discipline core_eval is not valid JSON: '' @ e) raw) (\<lambda>v.
     case v of
       SArray arr \<Rightarrow> Inr (map serde_to_tcb arr)
     | _ \<Rightarrow> Inl ''embedded discipline core_eval must be a JSON array of rules'')"

definition discipline_len :: "string + serde \<Rightarrow> string + usize" where
  "discipline_len raw = map_ok length (load_discipline raw)"

section \<open>Facts about the structure of a rule\<close>

definition node_type :: "json \<Rightarrow> string" where
  "node_type n = unwrap_or '''' (do { v \<leftarrow> json_get ''type'' n; as_str v })"

definition params_has_key :: "json \<Rightarrow> string \<Rightarrow> bool" where
  "params_has_key n k =
     unwrap_or False (map_option (\<lambda>obj. bt_get k obj \<noteq> None) (do { p \<leftarrow> json_get ''params'' n; as_object p }))"

definition children_of :: "json \<Rightarrow> string \<Rightarrow> json list" where
  "children_of n k =
     (case (do { p \<leftarrow> json_get ''params'' n; v \<leftarrow> json_get k p; as_array v }) of
        Some a \<Rightarrow> a
      | None \<Rightarrow> [])"

definition type_is :: "json \<Rightarrow> string \<Rightarrow> bool" where
  "type_is d t = ((do { v \<leftarrow> json_get ''type'' d; as_str v }) = Some t)"

definition str_field :: "json \<Rightarrow> string \<Rightarrow> string set" where
  "str_field d k = (case (do { v \<leftarrow> json_get k d; as_str v }) of Some s \<Rightarrow> {s} | None \<Rightarrow> {})"

lemma size_inner: "json_get k d = Some (Array items) \<Longrightarrow> x \<in> set items \<Longrightarrow> size x < size d"
  by (auto dest!: size_json_get dest: size_list_estimation' [where f = size, OF _ order_refl])

lemma size_children_list: "children_of n k = c # cs \<Longrightarrow> size_list size (c # cs) < size n"
  by (auto simp: children_of_def bind_eq_Some_conv split: option.splits dest!: size_json_get size_as_array)

lemma size_children: "x \<in> set (children_of n k) \<Longrightarrow> size x < size n"
  by (cases "children_of n k") (auto dest!: size_children_list dest: size_list_estimation' [where f = size, OF _ order_refl])

lemma size_children_list_le: "size_list size (children_of n k) \<le> size n"
  by (cases "children_of n k") (auto dest: size_children_list simp: less_imp_le)

text \<open>The sets that the code fills through out parameters are returned.\<close>

function collect_targets :: "json \<Rightarrow> string set" where
  "collect_targets domain =
     (if type_is domain ''instruction'' then str_field domain ''instruction_type''
      else if type_is domain ''all'' then
        (case json_get ''inner'' domain of
           Some (Array items) \<Rightarrow> \<Union> (set (map collect_targets items))
         | _ \<Rightarrow> {})
      else if type_is domain ''not'' then
        (case json_get ''inner'' domain of Some inner \<Rightarrow> collect_targets inner | None \<Rightarrow> {})
      else {})"
  by pat_completeness auto
termination
  by (relation "measure size") (auto intro: size_inner size_json_get)

declare collect_targets.simps [simp del]

definition rule_domain :: "json \<Rightarrow> json option" where
  "rule_domain rule = (do { p \<leftarrow> json_get ''params'' rule; json_get ''domain'' p })"

definition top_targets :: "json \<Rightarrow> string set" where
  "top_targets rule = (case rule_domain rule of Some d \<Rightarrow> collect_targets d | None \<Rightarrow> {})"

function provable_walk :: "json \<Rightarrow> string set" where
  "provable_walk domain =
     (if type_is domain ''instruction'' then str_field domain ''instruction_type''
      else if type_is domain ''all'' then
        (case json_get ''inner'' domain of
           Some (Array items) \<Rightarrow> \<Union> (set (map provable_walk items))
         | _ \<Rightarrow> {})
      else {})"
  by pat_completeness auto
termination
  by (relation "measure size") (auto intro: size_inner)

declare provable_walk.simps [simp del]

definition provable_targets :: "json \<Rightarrow> string set" where
  "provable_targets rule = (case rule_domain rule of Some d \<Rightarrow> provable_walk d | None \<Rightarrow> {})"

function is_early_exit :: "json \<Rightarrow> bool" where
  "is_early_exit n =
     (if node_type n = ''enforce'' \<or> node_type n = ''io_request'' then True
      else if node_type n = ''branch'' then
        list_ex is_early_exit (children_of n ''on_true'') \<or> list_ex is_early_exit (children_of n ''on_false'')
      else False)"
  by pat_completeness auto
termination
  by (relation "measure size") (auto intro: size_children)

declare is_early_exit.simps [simp del]

function count_io :: "json \<Rightarrow> usize" where
  "count_io n =
     (if node_type n = ''io_request'' then 1 else 0) +
     (if node_type n = ''branch''
      then sum_list (map count_io (children_of n ''on_true'')) + sum_list (map count_io (children_of n ''on_false''))
      else 0)"
  by pat_completeness auto
termination
  by (relation "measure size") (auto intro: size_children)

declare count_io.simps [simp del]

function has_mutating :: "json \<Rightarrow> bool" where
  "has_mutating n =
     (if node_type n = ''set'' \<or> node_type n = ''push'' then True
      else node_type n = ''branch'' \<and>
        (list_ex has_mutating (children_of n ''on_true'') \<or> list_ex has_mutating (children_of n ''on_false'')))"
  by pat_completeness auto
termination
  by (relation "measure size") (auto intro: size_children)

declare has_mutating.simps [simp del]

definition maybe_overlap :: "string set \<Rightarrow> string set \<Rightarrow> bool" where
  "maybe_overlap a b \<longleftrightarrow> a = {} \<or> b = {} \<or> a \<inter> b \<noteq> {}"

record top_facts =
  shadow_source :: bool
  targets :: "string set"
  provable :: "string set"
  pos_exists :: "string set"
  neg_exists :: "string set"

function collect_exists_paths :: "json \<Rightarrow> bool \<Rightarrow> string set \<times> string set" where
  "collect_exists_paths domain negated =
     (if type_is domain ''exists'' then
        (if negated then ({}, str_field domain ''path'') else (str_field domain ''path'', {}))
      else if type_is domain ''all'' then
        (case json_get ''inner'' domain of
           Some (Array items) \<Rightarrow>
             (\<Union> (set (map (\<lambda>d. fst (collect_exists_paths d negated)) items)),
              \<Union> (set (map (\<lambda>d. snd (collect_exists_paths d negated)) items)))
         | _ \<Rightarrow> ({}, {}))
      else if type_is domain ''not'' then
        (case json_get ''inner'' domain of
           Some inner \<Rightarrow> if type_is inner ''exists'' then collect_exists_paths inner (\<not> negated) else ({}, {})
         | None \<Rightarrow> ({}, {}))
      else ({}, {}))"
  by pat_completeness auto
termination
  by (relation "measure (\<lambda>(d, _). size d)") (auto intro: size_inner size_json_get)

declare collect_exists_paths.simps [simp del]

definition mutually_exclusive :: "top_facts \<Rightarrow> top_facts \<Rightarrow> bool" where
  "mutually_exclusive a b \<longleftrightarrow> pos_exists a \<inter> neg_exists b \<noteq> {} \<or> pos_exists b \<inter> neg_exists a \<noteq> {}"

definition is_shadow_source :: "json \<Rightarrow> bool" where
  "is_shadow_source top_rule = (if node_type top_rule = ''enforce'' then False else is_early_exit top_rule)"

definition build_top_facts :: "json \<Rightarrow> top_facts" where
  "build_top_facts r =
     (let (pos, neg) = (case rule_domain r of Some d \<Rightarrow> collect_exists_paths d False | None \<Rightarrow> ({}, {})) in
      \<lparr>shadow_source = is_shadow_source r, targets = top_targets r, provable = provable_targets r,
       pos_exists = pos, neg_exists = neg\<rparr>)"

section \<open>The walk over a rule set\<close>

record disc_node =
  nd_top :: usize
  nd_path :: string
  nd_node :: json
  nd_nested :: bool
  nd_targets :: "string set"
  nd_io_in_tree :: usize
  nd_preceded :: bool

definition child_node :: "disc_node \<Rightarrow> string \<Rightarrow> json \<Rightarrow> bool \<Rightarrow> json list \<Rightarrow> disc_node" where
  "child_node parent path n nested before =
     \<lparr>nd_top = nd_top parent, nd_path = path, nd_node = n, nd_nested = nested, nd_targets = nd_targets parent,
      nd_io_in_tree = nd_io_in_tree parent,
      nd_preceded = (nd_preceded parent \<or> list_ex has_mutating before)\<rparr>"

lemma child_node_sel [simp]:
  "nd_node (child_node nd p n x before) = n" "nd_top (child_node nd p n x before) = nd_top nd"
  "nd_nested (child_node nd p n x before) = x"
  "nd_preceded (child_node nd p n x before) = (nd_preceded nd \<or> list_ex has_mutating before)"
  by (simp_all add: child_node_def)

text \<open>\<open>prior\<close> holds the children before the ones still to be visited, \<open>j\<close> their number.\<close>

function (sequential) walk_node :: "disc_node \<Rightarrow> disc_node list"
  and walk_children :: "disc_node \<Rightarrow> string \<Rightarrow> usize \<Rightarrow> json list \<Rightarrow> json list \<Rightarrow> disc_node list"
where
  "walk_node nd =
     nd # (if node_type (nd_node nd) = ''branch''
           then walk_children nd ''on_true'' 0 [] (children_of (nd_node nd) ''on_true'') @
                walk_children nd ''on_false'' 0 [] (children_of (nd_node nd) ''on_false'')
           else [])"
| "walk_children nd k j prior [] = []"
| "walk_children nd k j prior (c # cs) =
     walk_node (child_node nd (nd_path nd @ ''.'' @ k @ ''['' @ dec_nat j @ '']'') c True prior) @
     walk_children nd k (j + 1) (prior @ [c]) cs"
  by pat_completeness auto
termination
  by (relation "measure (\<lambda>x. case x of
        Inl nd \<Rightarrow> 2 * size (nd_node nd) + 1
      | Inr (nd, k, j, prior, cs) \<Rightarrow> 2 * size_list size cs)")
    (auto simp: less_Suc_eq_le size_children_list_le)

declare walk_node.simps [simp del]

definition preceded_by_mutating :: "json list \<Rightarrow> top_facts list \<Rightarrow> usize \<Rightarrow> bool" where
  "preceded_by_mutating rules tops i =
     list_ex (\<lambda>(j, s). has_mutating s \<and> maybe_overlap (provable (tops ! j)) (provable (tops ! i)) \<and>
       \<not> mutually_exclusive (tops ! j) (tops ! i)) (enumerate 0 (take i rules))"

definition root_node :: "json list \<Rightarrow> top_facts list \<Rightarrow> usize \<Rightarrow> json \<Rightarrow> disc_node" where
  "root_node rules tops i r =
     \<lparr>nd_top = i, nd_path = ''['' @ dec_nat i @ '']'', nd_node = r, nd_nested = False, nd_targets = targets (tops ! i),
      nd_io_in_tree = count_io r, nd_preceded = preceded_by_mutating rules tops i\<rparr>"

definition flatten :: "json list \<Rightarrow> top_facts list \<Rightarrow> disc_node list" where
  "flatten rules tops = concat (map (\<lambda>(i, r). walk_node (root_node rules tops i r)) (enumerate 0 rules))"

section \<open>The gate\<close>

definition is_shadowed :: "disc_node \<Rightarrow> top_facts list \<Rightarrow> bool" where
  "is_shadowed nd tops =
     (node_type (nd_node nd) = ''io_request'' \<and>
      list_ex (\<lambda>j. case list_get tops j of
          Some t \<Rightarrow> shadow_source t \<and> maybe_overlap (targets t) (nd_targets nd) \<and>
            \<not> (case list_get tops (nd_top nd) of Some owner \<Rightarrow> mutually_exclusive t owner | None \<Rightarrow> False)
        | None \<Rightarrow> False) [0..<nd_top nd])"

definition i64_of_usize :: "usize \<Rightarrow> i64" where
  "i64_of_usize n = (if n < 2 ^ 63 then of_nat n else 2 ^ 63 - 1)"

definition build_probe :: "disc_node \<Rightarrow> top_facts list \<Rightarrow> json" where
  "build_probe nd tops =
     (let ctx = object_from_pairs
        [(''path'', String (nd_path nd)),
         (''nested'', Bool (nd_nested nd)),
         (''shadowed'', Bool (is_shadowed nd tops)),
         (''io_in_tree'', Integer (i64_of_usize (nd_io_in_tree nd))),
         (''preceded_by_mutating'', Bool (nd_preceded nd)),
         (''has_attr'', Bool (params_has_key (nd_node nd) ''attr'')),
         (''has_value'', Bool (params_has_key (nd_node nd) ''value''))] in
      fst (json_insert ''_ctx'' ctx (nd_node nd)))"

definition two_digits :: "nat \<Rightarrow> string" where
  "two_digits n = (if n < 10 then ''0'' @ dec_nat n else dec_nat n)"

definition dc_code :: "usize \<Rightarrow> string" where
  "dc_code rule_index = ''DC-'' @ two_digits (saturating_inc_usize rule_index)"

fun check_nodes :: "(tcb_error \<Rightarrow> string) \<Rightarrow> json list \<Rightarrow> top_facts list \<Rightarrow> disc_node list \<Rightarrow> string + violation list" where
  "check_nodes debug discipline tops [] = Inr []"
| "check_nodes debug discipline tops (nd # nodes) =
     (case execute_transition discipline (build_probe nd tops) Null [] of
        Inl e \<Rightarrow> Inl (''discipline evaluation failed at '' @ nd_path nd @ '': '' @ debug e)
      | Inr (THalted rule_index reason) \<Rightarrow>
          map_ok (\<lambda>vs. \<lparr>v_path = nd_path nd, v_node_type = node_type (nd_node nd), v_code = dc_code rule_index,
                        v_reason = reason\<rparr> # vs) (check_nodes debug discipline tops nodes)
      | Inr _ \<Rightarrow> check_nodes debug discipline tops nodes)"

definition check :: "(tcb_error \<Rightarrow> string) \<Rightarrow> string + serde \<Rightarrow> json list \<Rightarrow> string + gate_report" where
  "check debug raw ruleset =
     and_then (load_discipline raw) (\<lambda>discipline.
     let tops = map build_top_facts ruleset;
         nodes = flatten ruleset tops in
     map_ok (\<lambda>vs. \<lparr>scanned = length nodes, violations = vs\<rparr>) (check_nodes debug discipline tops nodes))"

section \<open>The command \<open>validate\<close>\<close>

text \<open>The lines written to the output, and the result.  The width of a column counts characters.\<close>

definition char_count :: "string \<Rightarrow> nat" where
  "char_count s = length (filter (\<lambda>c. \<not> (128 \<le> (of_char c :: nat) \<and> (of_char c :: nat) < 192)) s)"

definition pad_right :: "nat \<Rightarrow> string \<Rightarrow> string" where
  "pad_right w s = s @ replicate (w - char_count s) (CHR '' '')"

definition violation_line :: "violation \<Rightarrow> string" where
  "violation_line v =
     (let label = (if v_node_type v = [] then ''<missing type>'' else v_node_type v) in
      ''[ERROR]   '' @ pad_right 24 (v_path v) @ '' '' @ pad_right 12 label @ '' <- '' @ v_code v @ '' '' @ v_reason v)"

definition validate_command ::
  "(string \<Rightarrow> string + serde) \<Rightarrow> (tcb_error \<Rightarrow> string) \<Rightarrow> string + serde \<Rightarrow> string \<Rightarrow> rules_dir \<Rightarrow>
   string list \<times> (cli_error + unit)" where
  "validate_command de debug raw path dir =
     (case load_rules de path dir of
        Inl e \<Rightarrow> ([], Inl e)
      | Inr transforms \<Rightarrow>
          (case discipline_len raw of
             Inl e \<Rightarrow> ([], Inl (CliOther (discipline_error_display e)))
           | Inr n \<Rightarrow>
               (let head = [''=== Validating '' @ path @ '' ==='', ''Transforms: '' @ dec_nat (length transforms),
                            ''Discipline: '' @ dec_nat n @ '' rules (DC-01 .. DC-'' @ two_digits n @ '')'', ''''] in
                case check debug raw transforms of
                  Inl e \<Rightarrow> (head, Inl (CliOther (discipline_error_display e)))
                | Inr rep \<Rightarrow>
                    (head @ [''Nodes:       '' @ dec_nat (scanned rep) @ ('' ('' @ utf8 [229, 144, 171] @ '' branch '' @
     utf8 [229, 134, 133, 229, 181, 140, 229, 173, 144, 230, 140, 135, 228, 187, 164] @ '')''), ''''] @
                       (if violations rep = [] then [''[OK]      rule-set accepted by the discipline gate'']
                        else map violation_line (violations rep)) @
                       ['''', ''=== Summary ==='', ''Violations: '' @ dec_nat (length (violations rep))],
                     if violations rep = [] then Inr ()
                     else Inl (CliOther (''validation failed with '' @ dec_nat (length (violations rep)) @ '' violations''))))))"

section \<open>The rules as conditions on a node\<close>

text \<open>
  What the rules ask of a node, without the kernel: the conditions in the order of the rules, of which the
  first that holds is reported.
\<close>

definition has_param :: "json \<Rightarrow> string \<Rightarrow> bool" where
  "has_param n k = (case (do { p \<leftarrow> json_get ''params'' n; json_get k p }) of Some v \<Rightarrow> v \<noteq> Null | None \<Rightarrow> False)"

definition dc_conditions :: "disc_node \<Rightarrow> top_facts list \<Rightarrow> bool list" where
  "dc_conditions nd tops =
     (let n = nd_node nd; t = node_type n in
      [t \<notin> set META_INSTRUCTION_TYPES,
       t = ''enforce'' \<and> nd_nested nd,
       t = ''enforce'' \<and> \<not> has_param n ''reason'',
       t = ''io_request'' \<and> \<not> has_param n ''io_type'',
       t = ''io_request'' \<and> is_shadowed nd tops,
       t = ''set'' \<and> \<not> (params_has_key n ''attr'' \<and> params_has_key n ''value''),
       t = ''branch'' \<and> \<not> has_param n ''domain'',
       t = ''io_request'' \<and> 2 \<le> nd_io_in_tree nd,
       t = ''io_request'' \<and> nd_preceded nd])"

fun first_true :: "bool list \<Rightarrow> nat option" where
  "first_true [] = None"
| "first_true (b # bs) = (if b then Some 0 else map_option Suc (first_true bs))"

definition dc_violation :: "top_facts list \<Rightarrow> disc_node \<Rightarrow> violation option" where
  "dc_violation tops nd =
     map_option (\<lambda>k. \<lparr>v_path = nd_path nd, v_node_type = node_type (nd_node nd), v_code = ''DC-0'' @ dec_nat (Suc k),
        v_reason = dc_reasons ! k\<rparr>) (first_true (dc_conditions nd tops))"

section \<open>Lemmas\<close>

lemma first_true_None: "first_true bs = None \<longleftrightarrow> True \<notin> set bs"
  by (induction bs) auto

lemma first_true_bound: "first_true bs = Some k \<Longrightarrow> k < length bs"
  by (induction bs arbitrary: k) (auto split: if_splits)

text \<open>The rules as values of the kernel.\<close>

lemma dc_json:
  "serde_to_tcb (dc_instruction t) = Object [(''instruction_type'', String t), (''type'', String ''instruction'')]"
  "serde_to_tcb (dc_exists path) = Object [(''path'', String path), (''type'', String ''exists'')]"
  "serde_to_tcb (dc_not d) = Object [(''inner'', serde_to_tcb d), (''type'', String ''not'')]"
  "serde_to_tcb (dc_all ds) = Object [(''inner'', Array (map serde_to_tcb ds)), (''type'', String ''all'')]"
  "serde_to_tcb (dc_true path) = Object [(''on_missing'', String ''unsat''), (''path'', String path),
     (''type'', String ''eq''), (''value'', Bool True)]"
  "serde_to_tcb (dc_below path 2) = Object [(''on_missing'', String ''unsat''), (''path'', String path),
     (''type'', String ''lt''), (''value'', Integer 2)]"
  "serde_to_tcb (dc_rule d r) = Object [(''params'', Object [(''domain'', serde_to_tcb d), (''reason'', String r)]),
     (''type'', String ''enforce'')]"
  by (simp_all add: dc_instruction_def dc_exists_def dc_not_def dc_all_def dc_true_def dc_below_def dc_rule_def
      serde_map_def bt_new_def in_i64_def i64_min_def i64_max_def)

text \<open>Their domains in the state that a node is judged in.\<close>

lemma dc_paths:
  "resolve_domain_path (build_exec_state i p q) ''instruction.params.reason'' = walk i [Field ''params'', Field ''reason'']"
  "resolve_domain_path (build_exec_state i p q) ''instruction.params.io_type'' = walk i [Field ''params'', Field ''io_type'']"
  "resolve_domain_path (build_exec_state i p q) ''instruction.params.domain'' = walk i [Field ''params'', Field ''domain'']"
  "resolve_domain_path (build_exec_state i p q) ''instruction._ctx.nested'' = walk i [Field ''_ctx'', Field ''nested'']"
  "resolve_domain_path (build_exec_state i p q) ''instruction._ctx.shadowed'' = walk i [Field ''_ctx'', Field ''shadowed'']"
  "resolve_domain_path (build_exec_state i p q) ''instruction._ctx.has_attr'' = walk i [Field ''_ctx'', Field ''has_attr'']"
  "resolve_domain_path (build_exec_state i p q) ''instruction._ctx.has_value'' = walk i [Field ''_ctx'', Field ''has_value'']"
  "resolve_domain_path (build_exec_state i p q) ''instruction._ctx.io_in_tree'' = walk i [Field ''_ctx'', Field ''io_in_tree'']"
  "resolve_domain_path (build_exec_state i p q) ''instruction._ctx.preceded_by_mutating'' =
     walk i [Field ''_ctx'', Field ''preceded_by_mutating'']"
  by (simp_all add: resolve_domain_path_def resolve_exec_path_def exec_state_eq resolve_path_def ends_with_char_def
      strip_prefix_def starts_with_def parse_path_segments_def Let_def)

abbreviation judged :: "disc_node \<Rightarrow> top_facts list \<Rightarrow> json" where
  "judged nd tops \<equiv> build_exec_state (build_probe nd tops) Null []"

lemma probe_get: "k \<noteq> ''_ctx'' \<Longrightarrow> json_get k (build_probe nd tops) = json_get k (nd_node nd)"
  by (cases "nd_node nd") (simp_all add: build_probe_def Let_def)

lemma walk_two: "walk s [Field k, Field l] = (do { p \<leftarrow> json_get k s; json_get l p })"
  by (cases s) (auto simp: walk_get simp del: walk.simps(2) simp: walk.simps(2) [of _ k] split: option.splits bind_splits)

lemma probe_ctx:
  assumes "node_type (nd_node nd) \<noteq> []"
  shows "walk (build_probe nd tops) [Field ''_ctx'', Field ''nested''] = Some (Bool (nd_nested nd))"
    "walk (build_probe nd tops) [Field ''_ctx'', Field ''shadowed''] = Some (Bool (is_shadowed nd tops))"
    "walk (build_probe nd tops) [Field ''_ctx'', Field ''io_in_tree''] = Some (Integer (i64_of_usize (nd_io_in_tree nd)))"
    "walk (build_probe nd tops) [Field ''_ctx'', Field ''preceded_by_mutating''] = Some (Bool (nd_preceded nd))"
    "walk (build_probe nd tops) [Field ''_ctx'', Field ''has_attr''] = Some (Bool (params_has_key (nd_node nd) ''attr''))"
    "walk (build_probe nd tops) [Field ''_ctx'', Field ''has_value''] = Some (Bool (params_has_key (nd_node nd) ''value''))"
proof -
  have "is_object (nd_node nd)" using assms by (cases "nd_node nd") (auto simp: node_type_def)
  then obtain m where m: "nd_node nd = Object m" by (cases "nd_node nd") auto
  have ctx: "walk (build_probe nd tops) [Field ''_ctx'', Field k] = map_of (rev
      [(''path'', String (nd_path nd)), (''nested'', Bool (nd_nested nd)), (''shadowed'', Bool (is_shadowed nd tops)),
       (''io_in_tree'', Integer (i64_of_usize (nd_io_in_tree nd))), (''preceded_by_mutating'', Bool (nd_preceded nd)),
       (''has_attr'', Bool (params_has_key (nd_node nd) ''attr'')), (''has_value'', Bool (params_has_key (nd_node nd) ''value''))]) k" for k
    unfolding get_object_from_pairs [symmetric] walk_two by (simp add: build_probe_def Let_def m)
  show "walk (build_probe nd tops) [Field ''_ctx'', Field ''nested''] = Some (Bool (nd_nested nd))"
    "walk (build_probe nd tops) [Field ''_ctx'', Field ''shadowed''] = Some (Bool (is_shadowed nd tops))"
    "walk (build_probe nd tops) [Field ''_ctx'', Field ''io_in_tree''] = Some (Integer (i64_of_usize (nd_io_in_tree nd)))"
    "walk (build_probe nd tops) [Field ''_ctx'', Field ''preceded_by_mutating''] = Some (Bool (nd_preceded nd))"
    "walk (build_probe nd tops) [Field ''_ctx'', Field ''has_attr''] = Some (Bool (params_has_key (nd_node nd) ''attr''))"
    "walk (build_probe nd tops) [Field ''_ctx'', Field ''has_value''] = Some (Bool (params_has_key (nd_node nd) ''value''))"
    unfolding ctx by simp_all
qed

lemma i64_of_usize_less: "sint (i64_of_usize n) < 2 \<longleftrightarrow> n < 2"
proof (cases "n < 2 ^ 63")
  case True
  then have "sint (of_nat n :: i64) = int n"
    by (simp add: i64_of_usize_def signed_of_nat signed_take_bit_int_eq_self_iff)
  then show ?thesis using True by (simp add: i64_of_usize_def)
next
  case False
  then show ?thesis by (simp add: i64_of_usize_def)
qed

text \<open>The outcome of each kind of domain; none of them is an error.\<close>

lemma dc_leaf:
  assumes "d \<le> MAX_DOMAIN_DEPTH"
  shows "t \<noteq> [] \<Longrightarrow> evaluate_domain_outcome_inner (serde_to_tcb (dc_instruction t)) (judged nd tops) d =
      Inr (from_bool (node_type (nd_node nd) = t))"
    "resolve_domain_path (judged nd tops) path = v \<Longrightarrow>
      evaluate_domain_outcome_inner (serde_to_tcb (dc_exists path)) (judged nd tops) d =
      Inr (from_bool (case v of Some w \<Rightarrow> w \<noteq> Null | None \<Rightarrow> False))"
    "resolve_domain_path (judged nd tops) path = Some (Bool b) \<Longrightarrow>
      evaluate_domain_outcome_inner (serde_to_tcb (dc_true path)) (judged nd tops) d = Inr (from_bool b)"
    "resolve_domain_path (judged nd tops) path = Some (Integer n) \<Longrightarrow>
      evaluate_domain_outcome_inner (serde_to_tcb (dc_below path 2)) (judged nd tops) d = Inr (from_bool (sint n < 2))"
  using assms
  by (auto simp: dc_json evaluate_domain_outcome_inner.simps get_str_field_def evaluate_instruction_eq_def exec_state_eq
      probe_get node_type_def unwrap_or_def evaluate_exists_def evaluate_eq_outcome_def evaluate_lt_outcome_def
      parse_on_missing_def resolve_value_reference_outcome_def from_bool_def
      split: option.splits json.splits bind_splits)

lemma dc_compound:
  assumes "d \<le> MAX_DOMAIN_DEPTH"
  shows "evaluate_domain_outcome_inner (serde_to_tcb (dc_not x)) s d =
      map_ok negate_outcome (evaluate_domain_outcome_inner (serde_to_tcb x) s (d + 1))"
    "evaluate_domain_outcome_inner (serde_to_tcb (dc_all xs)) s d = all_loop (map serde_to_tcb xs) s d"
proof -
  show "evaluate_domain_outcome_inner (serde_to_tcb (dc_not x)) s d =
      map_ok negate_outcome (evaluate_domain_outcome_inner (serde_to_tcb x) s (d + 1))"
    using assms by (subst evaluate_domain_outcome_inner.simps)
      (cases "evaluate_domain_outcome_inner (serde_to_tcb x) s (d + 1)";
       auto simp: dc_json get_str_field_def evaluate_not_outcome.simps split: domain_outcome.splits)
  show "evaluate_domain_outcome_inner (serde_to_tcb (dc_all xs)) s d = all_loop (map serde_to_tcb xs) s d"
    using assms by (subst evaluate_domain_outcome_inner.simps)
      (simp add: dc_json get_str_field_def evaluate_all_outcome.simps)
qed

text \<open>A domain that is written out and whose outcome is the condition.\<close>

definition judges :: "json \<Rightarrow> serde \<Rightarrow> bool \<Rightarrow> bool" where
  "judges s d c \<longleftrightarrow> (\<exists>m oc. serde_to_tcb d = Object m \<and> evaluate_domain_outcome (serde_to_tcb d) s = Inr oc \<and> (oc = Sat \<longleftrightarrow> c))"

lemma judges_all:
  "\<exists>oc. all_loop (map serde_to_tcb xs) s 0 = Inr oc \<and> (oc = Sat \<longleftrightarrow> c) \<Longrightarrow> judges s (dc_all xs) c"
  by (simp add: judges_def evaluate_domain_outcome_def dc_compound) (simp add: dc_json)

lemma all_loop_first:
  "evaluate_domain_outcome_inner x s (Suc d) = Inr oc \<Longrightarrow>
   all_loop (x # xs) s d = (if oc = Sat then all_loop xs s d else Inr oc)"
  by (cases oc) simp_all

lemma all_loop_last: "evaluate_domain_outcome_inner x s (Suc d) = Inr oc \<Longrightarrow> all_loop [x] s d = Inr oc"
  by (cases oc) simp_all

lemma judges_typed:
  assumes "t \<noteq> []" "node_type (nd_node nd) = t \<Longrightarrow> \<exists>oc. all_loop (map serde_to_tcb xs) (judged nd tops) 0 = Inr oc \<and> (oc = Sat \<longleftrightarrow> c)"
  shows "judges (judged nd tops) (dc_all (dc_instruction t # xs)) (node_type (nd_node nd) = t \<and> c)"
proof (rule judges_all)
  have "evaluate_domain_outcome_inner (serde_to_tcb (dc_instruction t)) (judged nd tops) (Suc 0) =
      Inr (from_bool (node_type (nd_node nd) = t))"
    using assms(1) by (simp add: dc_leaf(1) MAX_DOMAIN_DEPTH_def)
  from all_loop_first [OF this] assms(2)
  show "\<exists>oc. all_loop (map serde_to_tcb (dc_instruction t # xs)) (judged nd tops) 0 = Inr oc \<and>
      (oc = Sat \<longleftrightarrow> node_type (nd_node nd) = t \<and> c)"
    by (cases "node_type (nd_node nd) = t") (auto simp: from_bool_def simp del: all_loop.simps(2))
qed

lemma known_type: "all_loop (map serde_to_tcb (map (\<lambda>t. dc_not (dc_instruction t)) ts)) (judged nd tops) 0 =
    Inr (from_bool (node_type (nd_node nd) \<notin> set ts))" if "[] \<notin> set ts"
  using that
proof (induction ts)
  case (Cons t ts)
  have "evaluate_domain_outcome_inner (serde_to_tcb (dc_not (dc_instruction t))) (judged nd tops) (Suc 0) =
      Inr (from_bool (node_type (nd_node nd) \<noteq> t))"
    using Cons.prems by (auto simp: dc_compound dc_leaf MAX_DOMAIN_DEPTH_def from_bool_def)
  from all_loop_first [OF this] Cons show ?case by (auto simp: from_bool_def)
qed (simp add: from_bool_def)

lemma judges_known:
  "[] \<notin> set ts \<Longrightarrow> judges (judged nd tops) (dc_all (map (\<lambda>t. dc_not (dc_instruction t)) ts)) (node_type (nd_node nd) \<notin> set ts)"
  by (rule judges_all, subst known_type) (auto simp: from_bool_def)

lemma has_param_walk: "(case walk (build_probe nd tops) [Field ''params'', Field k] of Some w \<Rightarrow> w \<noteq> Null | None \<Rightarrow> False) =
    has_param (nd_node nd) k"
  unfolding walk_two by (simp add: probe_get has_param_def)

lemma dc_missing_param:
  assumes "resolve_domain_path (judged nd tops) path = walk (build_probe nd tops) [Field ''params'', Field k]"
  shows "\<exists>oc. all_loop (map serde_to_tcb [dc_not (dc_exists path)]) (judged nd tops) 0 = Inr oc \<and>
     (oc = Sat \<longleftrightarrow> \<not> has_param (nd_node nd) k)"
  using assms by (auto simp: dc_compound dc_leaf(2) [OF _ assms] has_param_walk all_loop_last MAX_DOMAIN_DEPTH_def
      from_bool_def simp del: all_loop.simps(2) walk.simps)

lemma dc_flag:
  assumes "resolve_domain_path (judged nd tops) path = Some (Bool b)"
  shows "\<exists>oc. all_loop (map serde_to_tcb [dc_true path]) (judged nd tops) 0 = Inr oc \<and> (oc = Sat \<longleftrightarrow> b)"
  using dc_leaf(3) [OF _ assms] by (auto simp: all_loop_last MAX_DOMAIN_DEPTH_def from_bool_def simp del: all_loop.simps(2))

lemma dc_set_fields:
  assumes "node_type (nd_node nd) = ''set''"
  shows "\<exists>oc. all_loop (map serde_to_tcb [dc_not (dc_all [dc_true ''instruction._ctx.has_attr'', dc_true ''instruction._ctx.has_value''])])
       (judged nd tops) 0 = Inr oc \<and>
     (oc = Sat \<longleftrightarrow> \<not> (params_has_key (nd_node nd) ''attr'' \<and> params_has_key (nd_node nd) ''value''))"
proof -
  let ?a = "params_has_key (nd_node nd) ''attr''" and ?v = "params_has_key (nd_node nd) ''value''"
  have "node_type (nd_node nd) \<noteq> []" using assms by simp
  note ctx = probe_ctx(5,6) [OF this]
  have leaf: "evaluate_domain_outcome_inner (serde_to_tcb (dc_true ''instruction._ctx.has_attr'')) (judged nd tops) (Suc (Suc (Suc 0))) = Inr (from_bool ?a)"
    "evaluate_domain_outcome_inner (serde_to_tcb (dc_true ''instruction._ctx.has_value'')) (judged nd tops) (Suc (Suc (Suc 0))) = Inr (from_bool ?v)"
    using ctx by (simp_all add: dc_leaf(3) dc_paths MAX_DOMAIN_DEPTH_def del: walk.simps)
  have "all_loop (map serde_to_tcb [dc_true ''instruction._ctx.has_attr'', dc_true ''instruction._ctx.has_value'']) (judged nd tops) (Suc (Suc 0)) =
      Inr (from_bool (?a \<and> ?v))"
    using leaf by (auto simp: all_loop_first all_loop_last from_bool_def simp del: all_loop.simps(2))
  then have "evaluate_domain_outcome_inner (serde_to_tcb (dc_not (dc_all [dc_true ''instruction._ctx.has_attr'', dc_true ''instruction._ctx.has_value''])))
      (judged nd tops) (Suc 0) = Inr (from_bool (\<not> (?a \<and> ?v)))"
    by (auto simp: dc_compound MAX_DOMAIN_DEPTH_def from_bool_def simp del: all_loop.simps(2))
  from all_loop_last [OF this] show ?thesis by (auto simp: from_bool_def)
qed

lemma dc_one_io:
  assumes "node_type (nd_node nd) = ''io_request''"
  shows "\<exists>oc. all_loop (map serde_to_tcb [dc_exists ''instruction._ctx.io_in_tree'', dc_not (dc_below ''instruction._ctx.io_in_tree'' 2)])
       (judged nd tops) 0 = Inr oc \<and> (oc = Sat \<longleftrightarrow> 2 \<le> nd_io_in_tree nd)"
proof -
  have "node_type (nd_node nd) \<noteq> []" using assms by simp
  note ctx = probe_ctx(3) [OF this, of tops]
  have "evaluate_domain_outcome_inner (serde_to_tcb (dc_exists ''instruction._ctx.io_in_tree'')) (judged nd tops) (Suc 0) = Inr Sat"
    using ctx by (simp add: dc_leaf(2) dc_paths MAX_DOMAIN_DEPTH_def from_bool_def del: walk.simps)
  moreover have "evaluate_domain_outcome_inner (serde_to_tcb (dc_not (dc_below ''instruction._ctx.io_in_tree'' 2))) (judged nd tops) (Suc 0) =
      Inr (from_bool (2 \<le> nd_io_in_tree nd))"
    using ctx by (auto simp: dc_compound dc_leaf(4) dc_paths MAX_DOMAIN_DEPTH_def i64_of_usize_less from_bool_def simp del: walk.simps)
  ultimately show ?thesis by (auto simp: all_loop_first all_loop_last from_bool_def simp del: all_loop.simps(2))
qed

lemma dc_domains_judge: "list_all2 (judges (judged nd tops)) dc_domains (dc_conditions nd tops)"
proof -
  have ctx: "node_type (nd_node nd) = t \<Longrightarrow> t \<noteq> [] \<Longrightarrow> node_type (nd_node nd) \<noteq> []" for t by simp
  show ?thesis
    unfolding dc_domains_def dc_conditions_def Let_def list_all2_Cons list_all2_Nil META_INSTRUCTION_TYPES_def
    by (intro conjI judges_typed judges_known dc_missing_param dc_flag dc_set_fields dc_one_io TrueI)
      (auto simp: dc_paths probe_ctx simp del: walk.simps)
qed

text \<open>The constraint gate of the kernel finds the first condition that holds, and nothing else happens.\<close>

lemma dc_rule_step:
  assumes "judges s d c" "b \<noteq> 0"
  shows "\<exists>a. execute_meta_instruction_budgeted (serde_to_tcb (dc_rule d r)) s 0 b =
     Inr \<lparr>result = (if c then Halted r else State s), budget = b - 1, hit_out = c, domain_attr_out = a\<rparr>"
proof -
  from assms(1) obtain m oc where m: "serde_to_tcb d = Object m"
    and oc: "evaluate_domain_outcome (Object m) s = Inr oc" "oc = Sat \<longleftrightarrow> c"
    by (auto simp: judges_def)
  have "json_get ''type'' (serde_to_tcb (dc_rule d r)) = Some (String ''enforce'')" by (simp add: dc_json)
  from execute_enforce [OF this assms(2)] m oc show ?thesis
    by (simp add: exec_enforce_def dc_json resolve_path_or_literal_def Let_def)
qed

lemma dc_rule_type: "type_or_unknown (serde_to_tcb (dc_rule d r)) = ''enforce''"
  by (simp add: type_or_unknown_def dc_json)

lemma dc_gate:
  "list_all2 (judges s) ds cs \<Longrightarrow> length rs = length ds \<Longrightarrow> length ds \<le> b \<Longrightarrow>
   (case first_true cs of
      Some k \<Rightarrow> enforce_gate i (map serde_to_tcb (map2 dc_rule ds rs)) s b hs = Inr (GateHalted (i + k) (rs ! k))
    | None \<Rightarrow> \<exists>b' hs'. enforce_gate i (map serde_to_tcb (map2 dc_rule ds rs)) s b hs = Inr (GatePassed b' hs'))"
proof (induction arbitrary: rs i b hs rule: list_all2_induct)
  case (Cons d ds c cs)
  from Cons.prems obtain r rs' where rs: "rs = r # rs'" "length rs' = length ds" by (cases rs) auto
  from Cons.prems have b: "b \<noteq> 0" "length ds \<le> b - 1" by auto
  from dc_rule_step [OF Cons.hyps(1) b(1), of r] obtain a where
    "execute_meta_instruction_budgeted (serde_to_tcb (dc_rule d r)) s 0 b =
       Inr \<lparr>result = (if c then Halted r else State s), budget = b - 1, hit_out = c, domain_attr_out = a\<rparr>" by blast
  with Cons.IH [OF rs(2) b(2), of "i + 1"] show ?case
    by (cases "first_true cs") (auto simp: rs(1) enforce_gate.simps(2) dc_rule_type)
qed simp

lemma transform_enforce_only:
  "\<forall>r \<in> set rules. is_enforce r \<Longrightarrow> transform_loop i rules s b hs = Inr (Transformed s hs)"
  by (induction rules arbitrary: i) (auto simp: transform_loop.simps(2) is_enforce_def)

lemma load_discipline_embedded:
  "load_discipline (Inr discipline_core_eval) = Inr (map serde_to_tcb (map2 dc_rule dc_domains dc_reasons))"
  by (simp add: load_discipline_def discipline_core_eval_def)

lemma dc_lengths [simp]: "length dc_domains = 9" "length dc_reasons = 9" "length (dc_conditions nd tops) = 9"
  by (simp_all add: dc_domains_def dc_reasons_def dc_conditions_def Let_def)

lemma dc_judgement:
  "case first_true (dc_conditions nd tops) of
     Some k \<Rightarrow> execute_transition (map serde_to_tcb (map2 dc_rule dc_domains dc_reasons)) (build_probe nd tops) Null [] =
       Inr (THalted k (dc_reasons ! k))
   | None \<Rightarrow> \<exists>r. execute_transition (map serde_to_tcb (map2 dc_rule dc_domains dc_reasons)) (build_probe nd tops) Null [] =
       Inr r \<and> (\<forall>k reason. r \<noteq> THalted k reason)"
proof -
  let ?rules = "map serde_to_tcb (map2 dc_rule dc_domains dc_reasons)"
  have len: "\<not> MAX_TRANSFORM_RULES < length ?rules" by (simp add: MAX_TRANSFORM_RULES_def)
  have enf: "\<forall>r \<in> set ?rules. is_enforce r" by (auto simp: is_enforce_def dc_rule_type)
  have fin: "\<exists>r. finish_transition ?rules (build_probe nd tops) Null [] (judged nd tops) hs = Inr r \<and>
      (\<forall>k reason. r \<noteq> THalted k reason)" for hs
    by (auto simp: finish_transition_Inr simp del: map_map)
  have g: "case first_true (dc_conditions nd tops) of
      Some k \<Rightarrow> enforce_gate 0 ?rules (judged nd tops) MAX_TOTAL_META_INSTRUCTIONS [] = Inr (GateHalted k (dc_reasons ! k))
    | None \<Rightarrow> \<exists>b' hs'. enforce_gate 0 ?rules (judged nd tops) MAX_TOTAL_META_INSTRUCTIONS [] = Inr (GatePassed b' hs')"
    using dc_gate [OF dc_domains_judge [of nd tops], where i = 0 and hs = "[]" and b = MAX_TOTAL_META_INSTRUCTIONS and rs = dc_reasons]
    by (cases "first_true (dc_conditions nd tops)") (simp_all add: MAX_TOTAL_META_INSTRUCTIONS_def del: map_map)
  show ?thesis
  proof (cases "first_true (dc_conditions nd tops)")
    case None
    with g obtain b' hs' where
      "enforce_gate 0 ?rules (judged nd tops) MAX_TOTAL_META_INSTRUCTIONS [] = Inr (GatePassed b' hs')" by auto
    with None len fin transform_enforce_only [OF enf] show ?thesis
      by (simp add: execute_transition_def Let_def del: map_map)
  qed (use g len in \<open>simp add: execute_transition_def Let_def del: map_map\<close>)
qed

lemma check_nodes_exact:
  "check_nodes debug (map serde_to_tcb (map2 dc_rule dc_domains dc_reasons)) tops nodes =
   Inr (List.map_filter (dc_violation tops) nodes)"
proof (induction nodes)
  case (Cons nd nodes)
  show ?case
  proof (cases "first_true (dc_conditions nd tops)")
    case None
    with dc_judgement [of nd tops] obtain r where
      "execute_transition (map serde_to_tcb (map2 dc_rule dc_domains dc_reasons)) (build_probe nd tops) Null [] = Inr r"
      "\<forall>k reason. r \<noteq> THalted k reason" by auto
    with None Cons.IH show ?thesis
      by (cases r) (simp_all add: map_filter_simps dc_violation_def)
  next
    case (Some k)
    then have "k < 9" using first_true_bound [OF Some] by simp
    then have "dc_code k = ''DC-0'' @ dec_nat (Suc k)"
      by (simp add: dc_code_def saturating_inc_usize_def USIZE_MAX_def two_digits_def)
    with dc_judgement [of nd tops] Some Cons.IH show ?thesis
      by (simp add: map_filter_simps dc_violation_def)
  qed
qed (simp add: map_filter_simps)

abbreviation nodes_of :: "json list \<Rightarrow> disc_node list" where
  "nodes_of rules \<equiv> flatten rules (map build_top_facts rules)"

lemma check_exact:
  "check debug (Inr discipline_core_eval) rules =
   Inr \<lparr>scanned = length (nodes_of rules),
     violations = List.map_filter (dc_violation (map build_top_facts rules)) (nodes_of rules)\<rparr>"
  by (simp add: check_def load_discipline_embedded check_nodes_exact Let_def del: map_map)

lemma clean_nodes:
  assumes "check debug (Inr discipline_core_eval) rules = Inr rep" "violations rep = []"
    and "nd \<in> set (nodes_of rules)"
  shows "True \<notin> set (dc_conditions nd (map build_top_facts rules))"
proof -
  from assms(1,2) have "List.map_filter (dc_violation (map build_top_facts rules)) (nodes_of rules) = []"
    by (auto simp: check_exact)
  with assms(3) show ?thesis
    by (auto simp: map_filter_def filter_empty_conv dc_violation_def first_true_None)
qed

section \<open>Requests of an accepted rule set\<close>

text \<open>A rule whose domain the kernel finds satisfied in a state, and the type of the instruction of a state.\<close>

definition fires :: "json \<Rightarrow> json \<Rightarrow> bool" where
  "fires r s \<longleftrightarrow> (\<exists>ps d. json_get ''params'' r = Some ps \<and> resolve_path_or_literal s (json_get ''domain'' ps) = Inr d \<and>
     evaluate_domain_outcome d s = Inr Sat)"

definition instr_type_of :: "json \<Rightarrow> string option" where
  "instr_type_of s = (do { e \<leftarrow> json_get ''__exec__'' s; i \<leftarrow> json_get ''instruction'' e; v \<leftarrow> json_get ''type'' i; as_str v })"

lemma type_is_iff: "type_is d t \<longleftrightarrow> json_get ''type'' d = Some (String t)"
  by (auto simp: type_is_def bind_eq_Some_conv elim!: as_str.elims)

lemma str_field_iff: "x \<in> str_field d k \<longleftrightarrow> json_get k d = Some (String x)"
  by (auto simp: str_field_def bind_eq_Some_conv split: option.splits elim!: as_str.elims)

lemma fires_domain:
  assumes "fires r s" "rule_domain r = Some d" "type_is d t"
  shows "evaluate_domain_outcome_inner d s 0 = Inr Sat"
proof -
  obtain m where "d = Object m" using assms(3) by (cases d) (auto simp: type_is_def)
  with assms(1,2) show ?thesis
    by (auto simp: fires_def rule_domain_def resolve_path_or_literal_def evaluate_domain_outcome_def bind_eq_Some_conv)
qed

text \<open>A satisfied conjunction satisfies its members one level deeper.\<close>

lemma sat_member:
  assumes "evaluate_domain_outcome_inner d s n = Inr Sat" "type_is d ''all''" "json_get ''inner'' d = Some (Array items)"
    and "x \<in> set items"
  shows "evaluate_domain_outcome_inner x s (Suc n) = Inr Sat"
  using assms by (subst (asm) evaluate_domain_outcome_inner.simps)
    (auto simp: type_is_iff get_str_field_def evaluate_all_outcome.simps all_loop_Sat split: if_splits)

lemma provable_type:
  "evaluate_domain_outcome_inner d s n = Inr Sat \<Longrightarrow> x \<in> provable_walk d \<Longrightarrow> instr_type_of s = Some x"
proof (induction d arbitrary: n rule: provable_walk.induct)
  case (1 d)
  show ?case
  proof (cases "type_is d ''instruction''")
    case True
    with 1(3) have "json_get ''instruction_type'' d = Some (String x)"
      by (subst (asm) provable_walk.simps) (simp add: str_field_iff)
    with True 1(2) show ?thesis
      by (subst (asm) evaluate_domain_outcome_inner.simps)
        (auto simp: type_is_iff get_str_field_def evaluate_instruction_eq_def instr_type_of_def Let_def split: if_splits)
  next
    case False
    with 1(3) obtain items y where i: "type_is d ''all''" "json_get ''inner'' d = Some (Array items)" "y \<in> set items"
      "x \<in> provable_walk y"
      by (subst (asm) provable_walk.simps) (auto split: if_splits option.splits json.splits)
    from 1(1) [OF False i(1,2) refl i(3) sat_member [OF 1(2) i(1-3)] i(4)] show ?thesis .
  qed
qed

lemma fires_type: "fires r s \<Longrightarrow> x \<in> provable_targets r \<Longrightarrow> instr_type_of s = Some x"
proof -
  assume a: "fires r s" "x \<in> provable_targets r"
  then obtain d where d: "rule_domain r = Some d" "x \<in> provable_walk d"
    by (auto simp: provable_targets_def split: option.splits)
  obtain t where "type_is d t"
    using d(2) by (subst (asm) provable_walk.simps) (auto split: if_splits)
  from provable_type [OF fires_domain [OF a(1) d(1) this] d(2)] show ?thesis .
qed

text \<open>
  A pass over the rules keeps the instruction, so two rules with disjoint types do not both fire in one pass.
\<close>

lemma instr_type_kept: "only_payload_and_queue s t \<Longrightarrow> instr_type_of t = instr_type_of s"
proof -
  assume "only_payload_and_queue s t"
  then have "walk t [Field ''__exec__'', Field ''instruction''] = walk s [Field ''__exec__'', Field ''instruction'']"
    by (simp add: only_payload_and_queue_def del: walk.simps)
  then show ?thesis unfolding walk_two instr_type_of_def by (metis bind_assoc)
qed

lemma disjoint_types_exclude:
  assumes "\<not> maybe_overlap (provable_targets a) (provable_targets b)" "fires a s" "only_payload_and_queue s t"
  shows "\<not> fires b t"
proof
  assume b: "fires b t"
  from assms(1) obtain x y where "x \<in> provable_targets a" "y \<in> provable_targets b" "x \<noteq> y"
    by (auto simp: maybe_overlap_def)
  with fires_type [OF assms(2)] fires_type [OF b] instr_type_kept [OF assms(3)] show False by auto
qed

text \<open>An instruction without \<open>set\<close> and \<open>push\<close> below it keeps the state.\<close>

lemma node_type_eq: "t \<noteq> [] \<Longrightarrow> node_type n = t \<longleftrightarrow> json_get ''type'' n = Some (String t)"
  by (auto simp: node_type_def unwrap_or_def bind_eq_Some_conv split: option.splits elim!: as_str.elims)

lemma children_of_eq:
  "json_get ''params'' n = Some ps \<Longrightarrow> json_get k ps = Some (Array xs) \<Longrightarrow> children_of n k = xs"
  by (simp add: children_of_def)

lemma quiet_type: "\<not> has_mutating n \<Longrightarrow> json_get ''type'' n \<noteq> Some (String ''set'') \<and> json_get ''type'' n \<noteq> Some (String ''push'')"
  by (subst (asm) has_mutating.simps) (auto simp: node_type_eq)

interpretation still: exec_relation "\<lambda>n. \<not> has_mutating n" "\<lambda>s t. t = s"
proof
  fix instr ps k instrs i
  assume a: "\<not> has_mutating instr" "json_get ''type'' instr = Some (String ''branch'')" "json_get ''params'' instr = Some ps"
    "k \<in> {''on_true'', ''on_false''}" "json_get k ps = Some (Array instrs)" "i \<in> set instrs"
  then show "\<not> has_mutating i"
    by (subst (asm) has_mutating.simps) (auto simp: node_type_eq list_ex_iff children_of_eq)
qed (auto dest: quiet_type)

text \<open>
  A run that ends in a request executed one of the \<open>io_request\<close> nodes that the walk visits; if nothing that
  the walk saw before the node changes the state, it did so in the state at the start.
\<close>

definition asks :: "bool \<Rightarrow> json \<Rightarrow> string \<Rightarrow> json \<Rightarrow> disc_node \<Rightarrow> bool" where
  "asks pre s io ps m \<longleftrightarrow> node_type (nd_node m) = ''io_request'' \<and> (pre \<longrightarrow> nd_preceded m) \<and>
     (\<not> nd_preceded m \<longrightarrow> exec_io_request (nd_node m) s = Inr (IoRequired io ps))"

lemma io_run:
  "execute_meta_instruction_budgeted n s d b = Inr out \<Longrightarrow> result out = IoRequired io ps \<Longrightarrow> nd_node nd = n \<Longrightarrow>
   \<exists>m \<in> set (walk_node nd). asks (nd_preceded nd) s io ps m"
  "exec_branch n s d b = Inr out \<Longrightarrow> result out = IoRequired io ps \<Longrightarrow> nd_node nd = n \<Longrightarrow> node_type n = ''branch'' \<Longrightarrow>
   \<exists>m \<in> set (walk_node nd). asks (nd_preceded nd) s io ps m"
  "branch_loop instrs s d b = Inr (IoRequired io ps, b') \<Longrightarrow>
   \<exists>m \<in> set (walk_children nd k j prior instrs). asks (nd_preceded nd \<or> list_ex has_mutating prior) s io ps m"
proof (induction n s d b and n s d b and instrs s d b arbitrary: out nd and out nd and nd b' j k prior
    rule: execute_meta_instruction_budgeted_exec_branch_branch_loop.induct)
  case (1 instr state depth bud)
  from 1(2) show ?case
  proof (cases rule: execute_InrE)
    case branch
    then show ?thesis using 1(3,4) by (intro 1(1) [of "bud - 1" _ "''branch''"]) (auto simp: node_type_eq)
  next
    case io
    then show ?thesis
      using 1(3,4) by (subst walk_node.simps) (auto simp: asks_def node_type_eq)
  next
    case enforce
    with 1(3) enforce_result show ?thesis by fastforce
  qed (use 1(3) in simp_all)
next
  case (2 instr state depth bud)
  from 2(2) show ?case
  proof (cases rule: exec_branch_InrE)
    case (1 ps' domain r)
    let ?k = "if r = Sat then ''on_true'' else ''on_false''"
    from 1(6) 2(3) obtain instrs where i: "json_get ?k ps' = Some (Array instrs)"
      "branch_loop instrs state (depth + 1) bud = Inr (IoRequired io ps, budget out)" by auto
    have "\<exists>m \<in> set (walk_children nd ?k 0 [] instrs). asks (nd_preceded nd \<or> list_ex has_mutating []) state io ps m"
      using 2(1) [of ps' domain r ?k "Some (attribution domain r)" instrs "budget out" nd ?k 0 "[]"] 1(1-4) i
      by (simp add: not_le)
    then show ?thesis
      using children_of_eq [OF 1(2) i(1)] 2(4,5) by (subst walk_node.simps) (auto split: if_splits)
  qed
next
  case (3 state depth bud)
  then show ?case by simp
next
  case (4 sub_instr instrs state depth bud)
  then obtain out where out: "execute_meta_instruction_budgeted sub_instr state depth bud = Inr out"
    by (auto simp: result_simps)
  let ?c = "child_node nd (nd_path nd @ ''.'' @ k @ ''['' @ dec_nat j @ '']'') sub_instr True prior"
  show ?case
  proof (cases "result out")
    case (State t)
    with 4(3) out have "branch_loop instrs t depth (budget out) = Inr (IoRequired io ps, b')" by simp
    from 4(2) [OF out State this, of nd k "j + 1" "prior @ [sub_instr]"] obtain m where
      m: "m \<in> set (walk_children nd k (j + 1) (prior @ [sub_instr]) instrs)"
      "asks (nd_preceded nd \<or> list_ex has_mutating (prior @ [sub_instr])) t io ps m" by blast
    have "t = state" if "\<not> nd_preceded m"
      using that m(2) still.execute [OF _ out State] by (auto simp: asks_def)
    with m show ?thesis by (auto simp: asks_def)
  next
    case (IoRequired io' ps')
    with 4(3) out have "result out = IoRequired io ps" by simp
    from 4(1) [OF out this, of ?c] show ?thesis by auto
  qed (use 4(3) out in simp)
qed

lemma io_early_exit:
  "m \<in> set (walk_node nd) \<Longrightarrow> node_type (nd_node m) = ''io_request'' \<Longrightarrow> is_early_exit (nd_node nd)"
  "m \<in> set (walk_children nd k j prior cs) \<Longrightarrow> node_type (nd_node m) = ''io_request'' \<Longrightarrow> list_ex is_early_exit cs"
proof (induction nd and nd k j prior cs rule: walk_node_walk_children.induct)
  case (1 nd)
  from 1(3) have "m = nd \<or> node_type (nd_node nd) = ''branch'' \<and>
      (m \<in> set (walk_children nd ''on_true'' 0 [] (children_of (nd_node nd) ''on_true'')) \<or>
       m \<in> set (walk_children nd ''on_false'' 0 [] (children_of (nd_node nd) ''on_false'')))"
    by (subst (asm) walk_node.simps) (auto split: if_splits)
  with 1(1,2,4) show ?case by (subst is_early_exit.simps) auto
qed auto

text \<open>
  A rule guards what the analysis takes it to guard when the instruction types found in its domain limit all it
  does: it is a \<open>branch\<close>, the one instruction whose domain is evaluated, and its \<open>on_false\<close> arm neither changes
  the state nor ends the pass.
\<close>

definition guards :: "json \<Rightarrow> bool" where
  "guards r \<longleftrightarrow> provable_targets r = {} \<or> node_type r = ''branch'' \<and>
     list_all (\<lambda>c. \<not> has_mutating c \<and> \<not> is_early_exit c) (children_of r ''on_false'')"

lemma guarded_branchE:
  assumes "execute_meta_instruction_budgeted r s 0 b = Inr out" "guards r" "provable_targets r \<noteq> {}"
  obtains (fires) "fires r s"
  | (skips) "result out = State s"
  | (otherwise) instrs b' where "\<forall>c \<in> set instrs. \<not> has_mutating c \<and> \<not> is_early_exit c"
      "branch_loop instrs s 1 b' = Inr (result out, budget out)"
proof -
  from assms(2,3) have g: "json_get ''type'' r = Some (String ''branch'')"
    "\<forall>c \<in> set (children_of r ''on_false''). \<not> has_mutating c \<and> \<not> is_early_exit c"
    by (auto simp: guards_def node_type_eq list_all_iff)
  from assms(1) g(1) have "exec_branch r s 0 (b - 1) = Inr out" by (cases rule: execute_InrE) auto
  then show thesis
  proof (cases rule: exec_branch_InrE)
    case (1 ps domain oc)
    show thesis
    proof (cases "oc = Sat")
      case True
      with 1(2-4) fires show thesis by (auto simp: fires_def)
    next
      case False
      show thesis
      proof (cases "result out = State s")
        case False
        with \<open>oc \<noteq> Sat\<close> 1(6) obtain instrs where i: "json_get ''on_false'' ps = Some (Array instrs)"
          "branch_loop instrs s 1 (b - 1) = Inr (result out, budget out)" by auto
        from otherwise [OF _ i(2)] g(2) children_of_eq [OF 1(2) i(1)] show thesis by simp
      qed (rule skips)
    qed
  qed
qed

lemma guarded_request:
  assumes "execute_meta_instruction_budgeted r s 0 b = Inr out" "result out = IoRequired io ps" "guards r"
    "provable_targets r \<noteq> {}"
  shows "fires r s"
  using assms(1,3,4)
proof (cases rule: guarded_branchE)
  case (otherwise instrs b')
  from otherwise(2) assms(2) have "branch_loop instrs s 1 b' = Inr (IoRequired io ps, budget out)" by simp
  from io_run(3) [OF this] io_early_exit(2) have "list_ex is_early_exit instrs" unfolding asks_def by blast
  with otherwise(1) show ?thesis by (auto simp: list_ex_iff)
qed (use assms(2) in auto)

lemma guarded_quiet:
  assumes "execute_meta_instruction_budgeted r s 0 b = Inr out" "result out = State t" "guards r"
    "provable_targets r \<noteq> {}" "\<not> fires r s"
  shows "t = s"
  using assms(1,3,4)
proof (cases rule: guarded_branchE)
  case (otherwise instrs b')
  with assms(2) have "branch_loop instrs s 1 b' = Inr (State t, budget out)" by simp
  from still.execute_aux(3) [OF _ this] otherwise(1) show ?thesis by auto
qed (use assms(2,5) in auto)

text \<open>The rules before the one that asks, and the state they leave.\<close>

lemma transform_request:
  assumes "transform_loop i rules s b hs = Inr (Signal (TIoRequired io ps))"
  obtains pre r post t hs' b' out where "rules = pre @ r # post" "transform_loop i pre s b hs = Inr (Transformed t hs')"
    "execute_meta_instruction_budgeted r t 0 b' = Inr out" "result out = IoRequired io ps"
  using assms
proof (induction rules arbitrary: i s b hs thesis)
  case (Cons r rules)
  show ?case
  proof (cases "is_enforce r")
    case True
    with Cons.prems(2) have "transform_loop (i + 1) rules s b hs = Inr (Signal (TIoRequired io ps))"
      by (simp add: transform_loop.simps(2) is_enforce_def)
    from Cons.IH [OF _ this] obtain pre r' post t hs' b' out where
      "rules = pre @ r' # post" "transform_loop (i + 1) pre s b hs = Inr (Transformed t hs')"
      "execute_meta_instruction_budgeted r' t 0 b' = Inr out" "result out = IoRequired io ps" by metis
    with True Cons.prems(1) [of "r # pre"] show ?thesis by (simp add: transform_Cons)
  next
    case False
    then obtain out where out: "execute_meta_instruction_budgeted r s 0 b = Inr out"
      using Cons.prems(2) by (auto simp: transform_loop.simps(2) is_enforce_def Let_def result_simps)
    show ?thesis
    proof (cases "result out")
      case (State u)
      with False out Cons.prems(2) have "transform_loop (i + 1) rules u (budget out)
          (hs @ [hit_of i (type_or_unknown r) out]) = Inr (Signal (TIoRequired io ps))"
        by (simp add: transform_loop.simps(2) is_enforce_def Let_def)
      from Cons.IH [OF _ this] obtain pre r' post t hs' b' out' where "rules = pre @ r' # post"
        "transform_loop (i + 1) pre u (budget out) (hs @ [hit_of i (type_or_unknown r) out]) = Inr (Transformed t hs')"
        "execute_meta_instruction_budgeted r' t 0 b' = Inr out'" "result out' = IoRequired io ps" by metis
      with False State out Cons.prems(1) [of "r # pre"] show ?thesis by (simp add: transform_Cons)
    next
      case (IoRequired io' ps')
      with False out Cons.prems(2) have "result out = IoRequired io ps"
        by (simp add: transform_loop.simps(2) is_enforce_def Let_def)
      with out Cons.prems(1) [of "[]"] show ?thesis by simp
    qed (use False out Cons.prems(2) in \<open>simp add: transform_loop.simps(2) is_enforce_def Let_def\<close>)
  qed
qed simp

lemma transform_quiet:
  "transform_loop i rules s b hs = Inr (Transformed t hs') \<Longrightarrow>
   (\<And>r u v b' out. r \<in> set rules \<Longrightarrow> only_payload_and_queue u t \<Longrightarrow>
      execute_meta_instruction_budgeted r u 0 b' = Inr out \<Longrightarrow> result out = State v \<Longrightarrow> v = u) \<Longrightarrow> t = s"
proof (induction rules arbitrary: i s b hs)
  case (Cons r rules)
  show ?case
  proof (cases "is_enforce r")
    case True
    with Cons.prems(1) have "transform_loop (i + 1) rules s b hs = Inr (Transformed t hs')" by (simp add: transform_Cons)
    then show ?thesis by (rule Cons.IH) (rule Cons.prems(2) [OF list.set_intros(2)])
  next
    case False
    with Cons.prems(1) obtain out u where run: "execute_meta_instruction_budgeted r s 0 b = Inr out" "result out = State u"
      "transform_loop (i + 1) rules u (budget out) (hs @ [hit_of i (type_or_unknown r) out]) = Inr (Transformed t hs')"
      by (auto simp: transform_Cons)
    from run(3) have t: "t = u" by (rule Cons.IH) (rule Cons.prems(2) [OF list.set_intros(2)])
    have "only_payload_and_queue s t" using frame.transform_rel [OF Cons.prems(1)] by simp
    from Cons.prems(2) [OF _ this run(1,2)] t show ?thesis by simp
  qed
qed simp

lemma top_facts_sel [simp]: "provable (build_top_facts r) = provable_targets r"
  by (simp add: build_top_facts_def split: prod.splits)

lemma root_nodes:
  assumes "i < length rules" "m \<in> set (walk_node (root_node rules (map build_top_facts rules) i (rules ! i)))"
  shows "m \<in> set (nodes_of rules)"
  using assms by (force simp: flatten_def in_set_enumerate_eq)

lemma not_preceded:
  assumes "\<not> preceded_by_mutating rules (map build_top_facts rules) i" "j < i" "i < length rules" "has_mutating (rules ! j)"
    "\<not> mutually_exclusive (build_top_facts (rules ! j)) (build_top_facts (rules ! i))"
  shows "\<not> maybe_overlap (provable_targets (rules ! j)) (provable_targets (rules ! i))"
proof -
  have "(j, rules ! j) \<in> set (enumerate 0 (take i rules))" using assms(2,3) by (auto simp: in_set_enumerate_eq)
  with assms show ?thesis unfolding preceded_by_mutating_def list_ex_iff by fastforce
qed

lemma clean_request:
  assumes run: "execute_transition rules instr p q = Inr (TIoRequired io ps)"
    and clean: "check debug (Inr discipline_core_eval) rules = Inr rep" "violations rep = []"
    and guards: "\<forall>r \<in> set rules. guards r"
    and no_excl: "\<forall>a \<in> set rules. \<forall>b \<in> set rules. has_mutating a \<longrightarrow> \<not> mutually_exclusive (build_top_facts a) (build_top_facts b)"
  obtains nd where "nd \<in> set (nodes_of rules)" "node_type (nd_node nd) = ''io_request''"
    "exec_io_request (nd_node nd) (build_exec_state instr p q) = Inr (IoRequired io ps)"
proof -
  let ?s = "build_exec_state instr p q" and ?tops = "map build_top_facts rules"
  from run obtain b hs where "transform_loop 0 rules ?s b hs = Inr (Signal (TIoRequired io ps))"
    by (cases rule: execute_transition_InrE) (auto simp: finish_transition_Inr split: if_splits)
  then obtain pre r post t hs' b' out where tr: "rules = pre @ r # post" "transform_loop 0 pre ?s b hs = Inr (Transformed t hs')"
    "execute_meta_instruction_budgeted r t 0 b' = Inr out" "result out = IoRequired io ps"
    by (rule transform_request)
  let ?i = "length pre"
  have i: "?i < length rules" "rules ! ?i = r" "r \<in> set rules" using tr(1) by simp_all
  let ?nd = "root_node rules ?tops ?i r"
  from io_run(1) [OF tr(3,4), of ?nd] obtain m where m: "m \<in> set (walk_node ?nd)" "asks (nd_preceded ?nd) t io ps m"
    by (auto simp: root_node_def)
  have nodes: "m \<in> set (nodes_of rules)" using root_nodes [OF i(1)] m(1) i(2) by simp
  have "\<not> nd_preceded m" using clean_nodes [OF clean nodes] m(2) by (auto simp: asks_def dc_conditions_def Let_def)
  with m(2) have asked: "node_type (nd_node m) = ''io_request''" "exec_io_request (nd_node m) t = Inr (IoRequired io ps)"
    "\<not> preceded_by_mutating rules ?tops ?i" by (auto simp: asks_def root_node_def)
  have "t = ?s"
  proof (rule transform_quiet [OF tr(2)])
    fix x u v b1 out1
    assume x: "x \<in> set pre" "only_payload_and_queue u t"
      "execute_meta_instruction_budgeted x u 0 b1 = Inr out1" "result out1 = State v"
    then obtain j where j: "j < ?i" "rules ! j = x" "x \<in> set rules" using tr(1) by (auto simp: in_set_conv_nth nth_append)
    show "v = u"
    proof (cases "has_mutating x")
      case True
      then have apart: "\<not> maybe_overlap (provable_targets x) (provable_targets r)"
        using not_preceded [OF asked(3) j(1) i(1)] j i no_excl by auto
      then have "\<not> fires x u" using disjoint_types_exclude [OF apart _ x(2)] guarded_request [OF tr(3,4)] guards i(3)
        by (auto simp: maybe_overlap_def)
      then show ?thesis using guarded_quiet [OF x(3,4)] guards j(3) apart by (auto simp: maybe_overlap_def)
    qed (use still.execute [OF _ x(3,4)] in simp)
  qed
  with that nodes asked(1,2) show thesis by simp
qed

text \<open>
  Exclusion by \<open>exists\<close> is about one state: no state satisfies the domains of both rules.
\<close>

definition path_exists :: "json \<Rightarrow> string \<Rightarrow> bool" where
  "path_exists s p = (case resolve_domain_path s p of Some v \<Rightarrow> v \<noteq> Null | None \<Rightarrow> False)"

lemma exists_sat:
  assumes "type_is d ''exists''" "json_get ''path'' d = Some (String p)" "evaluate_domain_outcome_inner d s n = Inr oc"
  shows "oc = from_bool (path_exists s p)"
  using assms by (subst (asm) evaluate_domain_outcome_inner.simps)
    (auto simp: type_is_iff get_str_field_def evaluate_exists_def path_exists_def split: if_splits option.splits json.splits)

lemma exists_paths_sound:
  "evaluate_domain_outcome_inner d s n = Inr Sat \<Longrightarrow>
   (\<forall>p \<in> fst (collect_exists_paths d False). path_exists s p) \<and> (\<forall>p \<in> snd (collect_exists_paths d False). \<not> path_exists s p)"
proof (induction d "False" arbitrary: n rule: collect_exists_paths.induct)
  case (1 d)
  consider (leaf) "type_is d ''exists''" | (conj) items where "\<not> type_is d ''exists''" "type_is d ''all''" "json_get ''inner'' d = Some (Array items)"
    | (neg) i where "type_is d ''not''" "json_get ''inner'' d = Some i" "type_is i ''exists''"
    | (none) "collect_exists_paths d False = ({}, {})"
    using collect_exists_paths.simps [of d False] by (auto split: option.splits json.splits if_splits)
  then show ?case
  proof cases
    case leaf
    then show ?thesis using exists_sat [OF leaf _ 1(4)]
      by (subst (1 2) collect_exists_paths.simps) (auto simp: str_field_iff from_bool_def split: if_splits)
  next
    case (conj items)
    have "(\<forall>p \<in> fst (collect_exists_paths x False). path_exists s p) \<and>
        (\<forall>p \<in> snd (collect_exists_paths x False). \<not> path_exists s p)" if "x \<in> set items" for x
      using 1(1) [OF conj refl that sat_member [OF 1(4) conj(2,3) that]] .
    with conj show ?thesis by (subst (1 2) collect_exists_paths.simps) auto
  next
    case (neg i)
    have d: "\<not> type_is d ''exists''" "\<not> type_is d ''all''" using neg(1) by (auto simp: type_is_iff)
    from 1(4) neg(1,2) obtain oc where "evaluate_domain_outcome_inner i s (Suc n) = Inr oc"
      "(case oc of Sat \<Rightarrow> Unsat | Unsat \<Rightarrow> Sat | Missing m \<Rightarrow> Missing m) = Sat"
      by (subst (asm) evaluate_domain_outcome_inner.simps)
        (auto simp: type_is_iff get_str_field_def evaluate_not_outcome.simps result_simps split: if_splits)
    then have "evaluate_domain_outcome_inner i s (Suc n) = Inr Unsat" by (cases oc) simp_all
    with exists_sat [OF neg(3)] have "\<not> path_exists s p" if "json_get ''path'' i = Some (String p)" for p
      using that by (fastforce simp: from_bool_def split: if_splits)
    then have "fst (collect_exists_paths i True) = {}" "\<forall>p \<in> snd (collect_exists_paths i True). \<not> path_exists s p"
      using neg(3) by (subst collect_exists_paths.simps, simp add: str_field_iff)+
    with d neg show ?thesis by (subst (1 2) collect_exists_paths.simps) simp
  qed simp
qed

lemma fires_paths:
  assumes "fires r s"
  shows "(\<forall>p \<in> pos_exists (build_top_facts r). path_exists s p) \<and> (\<forall>p \<in> neg_exists (build_top_facts r). \<not> path_exists s p)"
proof (cases "\<exists>d t. rule_domain r = Some d \<and> type_is d t")
  case True
  then obtain d t where d: "rule_domain r = Some d" "type_is d t" by blast
  from exists_paths_sound [OF fires_domain [OF assms d]] d(1) show ?thesis
    by (simp add: build_top_facts_def split: prod.splits)
next
  case False
  then have "collect_exists_paths d False = ({}, {})" if "rule_domain r = Some d" for d
    using that by (subst collect_exists_paths.simps) auto
  then show ?thesis by (auto simp: build_top_facts_def split: option.splits prod.splits)
qed

lemma exclusive_in_state:
  "mutually_exclusive (build_top_facts a) (build_top_facts b) \<Longrightarrow> fires a s \<Longrightarrow> \<not> fires b s"
  using fires_paths [of a s] fires_paths [of b s] by (auto simp: mutually_exclusive_def)

lemma passes_iff:
  "check debug (Inr discipline_core_eval) rules = Inr \<lparr>scanned = n, violations = []\<rparr> \<longleftrightarrow>
   length (nodes_of rules) = n \<and> list_all (\<lambda>nd. list_all Not (dc_conditions nd (map build_top_facts rules))) (nodes_of rules)"
  by (auto simp: check_exact map_filter_def filter_empty_conv dc_violation_def first_true_None list_all_iff)

section \<open>Properties\<close>

definition gate_branch :: "json \<Rightarrow> json list \<Rightarrow> json list \<Rightarrow> json" where
  "gate_branch d yes no = Object [(''params'', Object [(''domain'', d), (''on_false'', Array no), (''on_true'', Array yes)]),
     (''type'', String ''branch'')]"

definition sample_type :: "string \<Rightarrow> json" where
  "sample_type t = Object [(''instruction_type'', String t), (''type'', String ''instruction'')]"

definition sample_exists :: json where
  "sample_exists = Object [(''path'', String ''payload.x''), (''type'', String ''exists'')]"

definition sample_write :: json where
  "sample_write = Object [(''params'', Object [(''attr'', String ''x''), (''operation'', String ''set''), (''value'', Integer 1)]),
     (''type'', String ''set'')]"

definition sample_read :: json where
  "sample_read = Object [(''params'', Object [(''arg'', String ''__exec__.payload.x''), (''io_type'', String ''llm'')]),
     (''type'', String ''io_request'')]"

text \<open>
  C34: the verdict of the discipline is exact.  For every rule set the gate ends without an error, visits every
  node of the walk, and reports exactly the nodes that meet one of the nine conditions, each with the first
  condition it meets: the rules of the embedded file, run by the kernel on an annotated copy of the node, say
  what the conditions say of the node itself.
\<close>

theorem gate_verdict_exact:
  "check debug (Inr discipline_core_eval) rules =
   Inr \<lparr>scanned = length (flatten rules (map build_top_facts rules)),
     violations = List.map_filter (dc_violation (map build_top_facts rules)) (flatten rules (map build_top_facts rules))\<rparr>"
  by (rule check_exact)

text \<open>
  C33: a request of an accepted rule set loses no write.  If the gate reports nothing, every rule guards what the
  analysis takes it to guard, and no rule that writes is set apart from another by \<open>exists\<close> alone, then every
  request for I/O that a transition ends in was made by an \<open>io_request\<close> of the rule set in the state the
  transition started from.
\<close>

theorem request_from_committed_state:
  assumes "execute_transition rules instr p q = Inr (TIoRequired io ps)"
    and "check debug (Inr discipline_core_eval) rules = Inr rep" "violations rep = []"
    and "\<forall>r \<in> set rules. guards r"
    and "\<forall>a \<in> set rules. \<forall>b \<in> set rules. has_mutating a \<longrightarrow> \<not> mutually_exclusive (build_top_facts a) (build_top_facts b)"
  shows "\<exists>nd \<in> set (flatten rules (map build_top_facts rules)). node_type (nd_node nd) = ''io_request'' \<and>
     exec_io_request (nd_node nd) (build_exec_state instr p q) = Inr (IoRequired io ps)"
  using clean_request [OF assms] by metis

definition sample_rules :: "json list" where
  "sample_rules = [gate_branch (sample_type ''foo'') [sample_write] [], gate_branch (sample_type ''bar'') [sample_io] []]"

theorem request_from_committed_state_witness:
  "execute_transition sample_rules (Object [(''type'', String ''bar'')]) (Object []) [] = Inr (TIoRequired ''http'' (Object [])) \<and>
   (\<exists>nd \<in> set (flatten sample_rules (map build_top_facts sample_rules)). node_type (nd_node nd) = ''io_request'' \<and>
     exec_io_request (nd_node nd) (build_exec_state (Object [(''type'', String ''bar'')]) (Object []) []) =
       Inr (IoRequired ''http'' (Object [])))"
proof -
  have run: "execute_transition sample_rules (Object [(''type'', String ''bar'')]) (Object []) [] = Inr (TIoRequired ''http'' (Object []))"
    by code_simp
  have clean: "check (\<lambda>_. []) (Inr discipline_core_eval) sample_rules = Inr \<lparr>scanned = 4, violations = []\<rparr>"
    unfolding passes_iff by (intro conjI; code_simp)
  have guards: "\<forall>r \<in> set sample_rules. guards r" by code_simp
  have apart: "\<forall>a \<in> set sample_rules. \<forall>b \<in> set sample_rules. has_mutating a \<longrightarrow>
      \<not> mutually_exclusive (build_top_facts a) (build_top_facts b)" by code_simp
  from run request_from_committed_state [OF run clean _ guards apart] show ?thesis by simp
qed

section \<open>What the gate does not see\<close>

text \<open>
  A rule set can pass the gate and still lose a write to a request.  The \<open>on_false\<close> arm of a rule runs for all
  instructions that its domain does not name: the request below carries the value of the write, the write is gone.
\<close>

theorem gate_misses_on_false:
  "check debug (Inr discipline_core_eval)
     [gate_branch (sample_type ''foo'') [] [sample_write], gate_branch (sample_type ''bar'') [sample_read] []] =
     Inr \<lparr>scanned = 4, violations = []\<rparr> \<and>
   execute_transition
     [gate_branch (sample_type ''foo'') [] [sample_write], gate_branch (sample_type ''bar'') [sample_read] []]
     (Object [(''type'', String ''bar'')]) (Object []) [] = Inr (TIoRequired ''llm'' (Object [(''arg'', Integer 1)]))"
  unfolding passes_iff by (intro conjI; code_simp)

text \<open>
  Two rules that are apart by \<open>exists\<close> can both fire in one pass, though in no single state: the first makes the
  path exist that the second asks for.
\<close>

theorem gate_misses_pass:
  "mutually_exclusive (build_top_facts (gate_branch (not_domain sample_exists) [sample_write] []))
     (build_top_facts (gate_branch sample_exists [sample_read] [])) \<and>
   check debug (Inr discipline_core_eval)
     [gate_branch (not_domain sample_exists) [sample_write] [], gate_branch sample_exists [sample_read] []] =
     Inr \<lparr>scanned = 4, violations = []\<rparr> \<and>
   execute_transition [gate_branch (not_domain sample_exists) [sample_write] [], gate_branch sample_exists [sample_read] []]
     (Object [(''type'', String ''bar'')]) (Object []) [] = Inr (TIoRequired ''llm'' (Object [(''arg'', Integer 1)]))"
  unfolding passes_iff by (intro conjI; code_simp)

text \<open>The kernel evaluates the domain of a \<open>branch\<close> only; the analysis reads the one of a \<open>set\<close> too.\<close>

definition sample_domain_set :: json where
  "sample_domain_set = Object [(''params'', Object [(''attr'', String ''x''), (''domain'', sample_type ''foo''),
     (''operation'', String ''set''), (''value'', Integer 1)]), (''type'', String ''set'')]"

theorem gate_misses_unread_domain:
  "check debug (Inr discipline_core_eval) [sample_domain_set, gate_branch (sample_type ''bar'') [sample_read] []] =
     Inr \<lparr>scanned = 3, violations = []\<rparr> \<and>
   execute_transition [sample_domain_set, gate_branch (sample_type ''bar'') [sample_read] []]
     (Object [(''type'', String ''bar'')]) (Object []) [] = Inr (TIoRequired ''llm'' (Object [(''arg'', Integer 1)]))"
  unfolding passes_iff by (intro conjI; code_simp)

text \<open>A request in an \<open>on_false\<close> arm shadows the requests of later rules for other instructions, unnoticed.\<close>

theorem gate_misses_shadowing:
  "check debug (Inr discipline_core_eval)
     [gate_branch (sample_type ''foo'') [] [sample_io], gate_branch (sample_type ''bar'') [sample_read] []] =
     Inr \<lparr>scanned = 4, violations = []\<rparr> \<and>
   execute_transition [gate_branch (sample_type ''foo'') [] [sample_io], gate_branch (sample_type ''bar'') [sample_read] []]
     (Object [(''type'', String ''bar'')]) (Object [(''x'', Integer 1)]) [] = Inr (TIoRequired ''http'' (Object []))"
  unfolding passes_iff by (intro conjI; code_simp)

end
