(* ===== verification/Spec2Isabelle.thy ===== *)
theory Spec2Isabelle
  imports Subscriber McuReactor EvidVerify Sessions RuleValidation Sentinel Discipline
begin

text \<open>
  Verification of the EvoRule rule engine.

  \<^bold>\<open>The program.\<close>  EvoRule runs sets of JSON rules over a JSON state.  A small trusted kernel computes one
  transition; a reactor runs transitions one after the other, asks the outside for input and output, and records
  everything that happens as facts in an append-only log with a hash chain; the governance crate audits and
  signs the log, decides which requests may reach a handler and manages sessions; a synchronous executor does
  the work of the reactor on a microcontroller over flash memory; and an independent verifier checks logs,
  exports and signatures without trusting the rest.

  \<^bold>\<open>The theories\<close>, in the order in which they build on each other; paths are below \<open>src/\<close>.

  \<^item> \<open>Prelude\<close>: what the sources use of the standard library (results, strings as UTF-8 bytes, decimal numbers,
    checked arithmetic) and the shared lemmas.
  \<^item> \<open>ObjMap\<close>: the map types, \<open>BTreeMap\<close> and the vector maps of the verification builds (\<open>evorule-tcb/src/value.rs\<close>,
    \<open>evorule-reactor/src/state.rs\<close>).  The locales \<open>finite_map\<close> and \<open>ordered_map\<close> are the contract all three fulfil.
  \<^item> \<open>Json\<close>, \<open>Path\<close>, \<open>Domain\<close>, \<open>Executor\<close>, \<open>Transition\<close>: the kernel \<open>evorule-tcb/src\<close>, one theory per file
    (\<open>value.rs\<close>, \<open>path.rs\<close>, \<open>domain.rs\<close> with \<open>error.rs\<close>, \<open>executor.rs\<close>, \<open>transition.rs\<close>).  A mutable reference into a value is the
    value with the function that puts a new one in its place.  The lemmas relate the descent of \<open>set\<close> to a lens,
    show what an instruction may change (locale \<open>exec_relation\<close>, interpreted for the frame, for
    well-formedness and in \<open>Discipline\<close> for instructions that write nothing), and that constraints cannot be bypassed.
  \<^item> \<open>AuditChain\<close>, \<open>Wal\<close>, \<open>FactsLog\<close>: facts and their hash chain (\<open>evorule-audit-chain/src\<close>), the write-ahead log
    (\<open>evorule-reactor/src/wal.rs\<close>) and the log over it (\<open>facts_log.rs\<close>).  The locale \<open>wal_store\<close> is the storage interface,
    interpreted on the memory and on the file backend.  The life of a log, with refused writes, rotations and
    restarts, is an inductive relation; recovery gives back the log in memory at every point of it.
  \<^item> \<open>ReactorState\<close>, \<open>Reactor\<close>: the state (\<open>state.rs\<close>, \<open>phase.rs\<close>, \<open>invariants.rs\<close>, \<open>stable_detector.rs\<close>) and the loop
    (\<open>reactor.rs\<close>, \<open>pure.rs\<close>).  One iteration is a function of what arrives during it; reachable states are inductive.
    The locale \<open>state_invariant\<close> carries the registry of requests and the causes of queued instructions through
    every operation.
  \<^item> \<open>Anchor\<close>, \<open>Auditor\<close>, \<open>SharedLog\<close>: signed anchors (\<open>signing.rs\<close>, \<open>clock.rs\<close>, \<open>anchor.rs\<close>), the auditor
    (\<open>auditor.rs\<close>) and the ledger shared between sessions (\<open>shared_facts_log.rs\<close>) of \<open>evorule-governance/src\<close>.
  \<^item> \<open>Permission\<close>, \<open>Subscriber\<close>: the permission table, its conditions, the route policy and the gate (\<open>permission/\<close>), the
    circuit breaker, the dispatcher and the subscriber that answers requests.
  \<^item> \<open>McuWal\<close>, \<open>McuExec\<close>, \<open>McuReactor\<close>: the flash log with power cuts at any byte, the synchronous executor
    (\<open>evorule-mcu/src\<close>), and the simulation that relates it to the reactor.  The locales \<open>flash_medium\<close>, \<open>mcu_store\<close>,
    \<open>kept\<close> and \<open>mcu_machine\<close> are the interfaces between medium, backend and executor.
  \<^item> \<open>EvidVerify\<close>: the verifier \<open>evid-verify-core/src\<close> and the handlers of its web build.  The locale \<open>link_check\<close> is
    the loop over linked records, interpreted for log lines and export entries.
  \<^item> \<open>TimeMachine\<close>, \<open>Sessions\<close>, \<open>RuleValidation\<close>: rewinding and comparing versions (\<open>time_machine.rs\<close>), the session manager
    (\<open>session.rs\<close>) with its atomic accesses as steps of parallel calls, and the check of rule sets
    (\<open>rule_validation.rs\<close>) with what acceptance means for the engine.
  \<^item> \<open>Cli\<close>, \<open>Sentinel\<close>: the command line \<open>evorule-cli/src\<close>: loading and running rules, the log of a run, its check and
    repair (\<open>io_util.rs\<close>, \<open>executor.rs\<close>, \<open>fact_log.rs\<close>, \<open>output.rs\<close>, \<open>commands/run.rs\<close>, \<open>diff.rs\<close>, \<open>verify_chain.rs\<close>,
    \<open>truncate_partial_line.rs\<close>), and the scan that compares the logs of a directory with what it saw before
    (\<open>commands/scan_wal_dir.rs\<close>).
  \<^item> \<open>Discipline\<close>: the gate for rule sets (\<open>evorule-discipline/src/lib.rs\<close>, the rules of
    \<open>evorule-tcb/discipline/core_eval.json\<close>) and the command \<open>validate\<close>.  The rules, run by the kernel on annotated nodes,
    are related to conditions on the nodes, and the conditions to what the kernel does with an accepted rule set.
  \<^item> This theory composes ledger, gate and subscriber.

  \<^bold>\<open>What is shown.\<close>  A satisfied constraint halts every transition and at the reactor changes nothing; an
  instruction changes payload and queue only, exactly where it writes, and keeps well-formedness; arithmetic is
  exact or reports overflow.  What is appended is written before it is visible and recovered after a crash, on
  files and on flash.  Equal chain hashes mean equal facts or a collision of the hash function, for the log, for
  anchors and for accepted exports.  The auditor follows the log in every run, what loggers write is accepted by
  the independent verifier, and its verdict names the first line that is wrong.  A prohibition overrides every
  grant; no handler runs without permission, and every request is answered once.  The executor of the
  microcontroller leaves the facts the reactor leaves.  The number of sessions stays within its limit under
  every interleaving, new sessions do not reuse old files, and a derived session starts from the state of its
  parent.  Accepted rule sets are well typed for the engine; the verdict of the
  discipline is exact, and under stated conditions a rule set it passes loses no write to a request for I/O.  The log of a run on the command line passes its own
  check, and a log that the sentinel passes twice has only grown.  Where the code and its comments differ, a lemma
  states what the code does.

  \<^bold>\<open>Errors, numbers, loops.\<close>  A \<open>Result\<close> is a sum with the error on the left; a panic is \<open>None\<close>.  \<open>u64\<close> and \<open>i64\<close> are
  words of 64 bits where they can wrap; sizes of things in memory are natural numbers.  The
  recursive definitions terminate by a measure on the data, or on what the code counts down: the executing phase
  of the reactor by its limit of rounds, that of the executor of the microcontroller by the identifiers left.  Fuel
  is used for the two loops over the numbered files of a log only, with one more than the number of files, which
  is enough because every step but the last finds another file.  One loop of the code can run forever, tracing causes in the auditor: it is a partial function whose value is
  \<open>None\<close> when it does not return, and it is shown to return when causes are earlier entries.

  \<^bold>\<open>Parameters.\<close>  Code that is not in the repository is an argument: \<open>serde_json\<close> (printer \<open>ser\<close>, parser \<open>de\<close>; where a
  round trip is needed the parser inverts the printer, which prints no line break), \<open>blake3\<close> (any function to
  strings; binding results name the collision), Ed25519 (a signature of a key verifies under its public key),
  \<open>postcard\<close>, gzip, derived serializations and debug prints.  What the operating system does with a write is an
  input too.

  \<^bold>\<open>Not modelled.\<close>  Locks, tasks and channels as such: an operation under a lock is one step, and what a channel
  delivers is an input.  Logging and metrics, which no decision reads.  Argument parsing and the commands for keys,
  packs and anchors, the firmware of the boards, the C and WebAssembly bindings, the evaluation programs and the
  source scanner of the build: they are input and output around the modelled code.  The failure callback of the log,
  and file synchronisation.
\<close>

section \<open>A prohibition in the ledger stops the handlers\<close>



end
